(* ===== verification/Raisin_Prelude.thy ===== *)
theory Raisin_Prelude
  imports
    Main
    "HOL-Library.Word"
    "HOL-Library.AList"
    "HOL-Library.Multiset"
    "HOL-Library.List_Lexorder"
    "HOL-Library.Char_ord"
begin

text \<open>
  Shared vocabulary of the development: the machine integers of the Rust code, the
  parts of the Rust standard library the modelled crates use (\<open>std::cmp::Ordering\<close>,
  \<open>Iterator::max_by\<close>, \<open>slice::sort_by\<close>, \<open>HashMap\<close>, \<open>HashSet\<close>, big-endian bytes,
  decimal integers), and the generic lemmas the component theories rest on.

  \<^item> \<open>u8\<close>, \<open>u32\<close>, \<open>u64\<close> and \<open>u128\<close> are words of that width; \<open>+\<close> and \<open>-\<close> wrap, as they do
    in the release profile of the workspace (overflow checks are off there).
  \<^item> A \<open>HashMap\<close> is an association list with distinct keys. The position of an entry has no
    meaning; an operation of the code whose result depends on the iteration order of the
    map takes that order as a parameter.
  \<^item> \<open>sort_by\<close> is the stable sort of the standard library. Rust specifies its result only
    for a comparator that is a total order on the elements, and no lemma about the order of
    the result is stated without that condition (locale \<open>rust_cmp\<close>); that the result
    is a permutation holds without it.
  \<^item> \<open>max_by\<close> is the fold of the standard library, which is specified for every comparator.
\<close>

unbundle bit_operations_syntax

type_synonym u8 = "8 word"
type_synonym u32 = "32 word"
type_synonym u64 = "64 word"
type_synonym u128 = "128 word"
type_synonym uuid = "128 word"

abbreviation u64_MAX :: u64 where
  "u64_MAX \<equiv> - 1"

named_theorems hm_simps "lookup after an update of an association list"
named_theorems cmp_simps "evaluation of comparators"

section \<open>Orderings and comparators\<close>

datatype rust_ordering = Less | Equal | Greater

fun reverse_ordering :: "rust_ordering \<Rightarrow> rust_ordering" where
  "reverse_ordering Less = Greater"
| "reverse_ordering Equal = Equal"
| "reverse_ordering Greater = Less"

fun then_with :: "rust_ordering \<Rightarrow> rust_ordering \<Rightarrow> rust_ordering" where
  "then_with Less _ = Less"
| "then_with Equal c = c"
| "then_with Greater _ = Greater"

definition cmp_of :: "'a::linorder \<Rightarrow> 'a \<Rightarrow> rust_ordering" where
  "cmp_of a b = (if a < b then Less else if a = b then Equal else Greater)"

lemma cmp_of_simps [cmp_simps]:
  "cmp_of a b = Less \<longleftrightarrow> a < b"
  "cmp_of a b = Equal \<longleftrightarrow> a = b"
  "cmp_of a b = Greater \<longleftrightarrow> b < a"
  by (auto simp: cmp_of_def)

lemma cmp_of_flip: "cmp_of b a = reverse_ordering (cmp_of a b)"
  by (auto simp: cmp_of_def)

lemma reverse_ordering_simps [cmp_simps]:
  "reverse_ordering c = Less \<longleftrightarrow> c = Greater"
  "reverse_ordering c = Equal \<longleftrightarrow> c = Equal"
  "reverse_ordering c = Greater \<longleftrightarrow> c = Less"
  by (cases c; simp)+

lemma then_with_simps [cmp_simps]:
  "then_with c d = Less \<longleftrightarrow> c = Less \<or> (c = Equal \<and> d = Less)"
  "then_with c d = Equal \<longleftrightarrow> c = Equal \<and> d = Equal"
  "then_with c d = Greater \<longleftrightarrow> c = Greater \<or> (c = Equal \<and> d = Greater)"
  by (cases c; cases d; simp)+

lemma reverse_then_with:
  "reverse_ordering (then_with c d) = then_with (reverse_ordering c) (reverse_ordering d)"
  by (cases c) auto

fun max_by :: "('a \<Rightarrow> 'a \<Rightarrow> rust_ordering) \<Rightarrow> 'a list \<Rightarrow> 'a option" where
  "max_by c [] = None"
| "max_by c (x # xs) = Some (foldl (\<lambda>acc y. if c acc y = Greater then acc else y) x xs)"

fun insort_by :: "('a \<Rightarrow> 'a \<Rightarrow> rust_ordering) \<Rightarrow> 'a \<Rightarrow> 'a list \<Rightarrow> 'a list" where
  "insort_by c x [] = [x]"
| "insort_by c x (y # ys) = (if c x y = Greater then y # insort_by c x ys else x # y # ys)"

definition sort_by :: "('a \<Rightarrow> 'a \<Rightarrow> rust_ordering) \<Rightarrow> 'a list \<Rightarrow> 'a list" where
  "sort_by c xs = foldr (insort_by c) xs []"

lemma sort_by_Nil [simp]: "sort_by c [] = []"
  and sort_by_Cons [simp]: "sort_by c (x # xs) = insort_by c x (sort_by c xs)"
  by (simp_all add: sort_by_def)

lemma mset_insort_by: "mset (insort_by c x xs) = add_mset x (mset xs)"
  by (induction xs) auto

lemma mset_sort_by [simp]: "mset (sort_by c xs) = mset xs"
  by (induction xs) (auto simp: mset_insort_by)

lemma set_sort_by [simp]: "set (sort_by c xs) = set xs"
  using mset_sort_by [of c xs] by (metis set_mset_mset)

lemma length_sort_by [simp]: "length (sort_by c xs) = length xs"
  using mset_sort_by [of c xs] by (metis size_mset)

lemma set_insort_by [simp]: "set (insort_by c x xs) = insert x (set xs)"
  by (induction xs) auto

lemma distinct_map_sort_by [simp]: "distinct (map f (sort_by c xs)) \<longleftrightarrow> distinct (map f xs)"
  by (metis mset_map mset_sort_by mset_eq_imp_distinct_iff)

lemma max_by_fold_in:
  "foldl (\<lambda>acc y. if c acc y = Greater then acc else y) x xs \<in> insert x (set xs)"
  by (induction xs arbitrary: x) auto

lemma max_by_in: "max_by c xs = Some w \<Longrightarrow> w \<in> set xs"
  using max_by_fold_in [of c] by (cases xs) auto

lemma max_by_None_iff [simp]: "max_by c xs = None \<longleftrightarrow> xs = []"
  by (cases xs) auto

text \<open>
  What a caller of \<open>sort_by\<close> and \<open>max_by\<close> must provide: a comparator that is a total
  preorder on the elements compared.
\<close>

locale rust_cmp =
  fixes cmp :: "'a \<Rightarrow> 'a \<Rightarrow> rust_ordering"
    and carrier :: "'a set"
  assumes cmp_flip: "\<lbrakk>x \<in> carrier; y \<in> carrier\<rbrakk> \<Longrightarrow> cmp y x = reverse_ordering (cmp x y)"
    and cmp_trans: "\<lbrakk>x \<in> carrier; y \<in> carrier; z \<in> carrier; cmp x y \<noteq> Greater; cmp y z \<noteq> Greater\<rbrakk>
      \<Longrightarrow> cmp x z \<noteq> Greater"
begin

lemma cmp_refl: "x \<in> carrier \<Longrightarrow> cmp x x = Equal"
  using cmp_flip [of x x] by (cases "cmp x x") auto

lemma cmp_total: "\<lbrakk>x \<in> carrier; y \<in> carrier; cmp x y = Greater\<rbrakk> \<Longrightarrow> cmp y x \<noteq> Greater"
  using cmp_flip [of x y] by auto

lemma sorted_insort_by:
  assumes "set (x # xs) \<subseteq> carrier" and "sorted_wrt (\<lambda>a b. cmp a b \<noteq> Greater) xs"
  shows "sorted_wrt (\<lambda>a b. cmp a b \<noteq> Greater) (insort_by cmp x xs)"
  using assms
proof (induction xs)
  case (Cons y ys)
  show ?case
  proof (cases "cmp x y = Greater")
    case True
    with Cons show ?thesis using cmp_total by auto
  next
    case False
    have "cmp x z \<noteq> Greater" if "z \<in> set ys" for z
      using Cons.prems False that cmp_trans [of x y z] by auto
    with False Cons.prems show ?thesis by auto
  qed
qed simp

lemma sorted_sort_by:
  "set xs \<subseteq> carrier \<Longrightarrow> sorted_wrt (\<lambda>a b. cmp a b \<noteq> Greater) (sort_by cmp xs)"
  by (induction xs) (auto intro!: sorted_insort_by)

lemma insort_by_filter_other:
  "\<not> P x \<Longrightarrow> filter P (insort_by cmp x xs) = filter P xs"
  by (induction xs) auto

lemma insort_by_filter_equal:
  assumes "set (x # xs) \<subseteq> carrier" and "sorted_wrt (\<lambda>a b. cmp a b \<noteq> Greater) xs"
    and "e \<in> carrier" and "cmp e x = Equal"
  shows "filter (\<lambda>y. cmp e y = Equal) (insort_by cmp x xs) = x # filter (\<lambda>y. cmp e y = Equal) xs"
  using assms
proof (induction xs)
  case (Cons y ys)
  show ?case
  proof (cases "cmp x y = Greater")
    case True
    have "cmp e y \<noteq> Equal"
    proof
      assume "cmp e y = Equal"
      then have "cmp y e \<noteq> Greater" and "cmp x e \<noteq> Greater"
        using Cons.prems cmp_flip [of e y] cmp_flip [of e x] by auto
      with \<open>cmp e y = Equal\<close> Cons.prems True show False
        using cmp_trans [of x e y] by auto
    qed
    with True Cons show ?thesis by auto
  qed (use Cons.prems in auto)
qed simp

text \<open>Stability: elements that compare equal keep their order.\<close>

lemma sort_by_stable:
  assumes "set xs \<subseteq> carrier" and "e \<in> carrier"
  shows "filter (\<lambda>y. cmp e y = Equal) (sort_by cmp xs) = filter (\<lambda>y. cmp e y = Equal) xs"
  using assms
proof (induction xs)
  case (Cons x xs)
  show ?case
  proof (cases "cmp e x = Equal")
    case True
    with Cons show ?thesis by (simp add: insort_by_filter_equal sorted_sort_by)
  next
    case False
    with Cons show ?thesis by (simp add: insort_by_filter_other)
  qed
qed simp

lemma max_by_fold_ge:
  assumes "insert x (set xs) \<subseteq> carrier" and "y \<in> insert x (set xs)"
  shows "cmp y (foldl (\<lambda>acc y. if cmp acc y = Greater then acc else y) x xs) \<noteq> Greater"
  using assms
proof (induction xs arbitrary: x y)
  case Nil
  then show ?case using cmp_refl by auto
next
  case (Cons z zs)
  let ?a = "if cmp x z = Greater then x else z"
  have a: "?a \<in> carrier" "insert ?a (set zs) \<subseteq> carrier" using Cons.prems by auto
  let ?w = "foldl (\<lambda>acc y. if cmp acc y = Greater then acc else y) ?a zs"
  have w: "?w \<in> carrier" using max_by_fold_in [of cmp ?a zs] a by blast
  have aw: "cmp ?a ?w \<noteq> Greater" using Cons.IH [OF a(2), of ?a] by simp
  show ?case
  proof (cases "y \<in> set zs")
    case True
    then show ?thesis using Cons.IH [OF a(2), of y] by simp
  next
    case False
    then have "y = x \<or> y = z" using Cons.prems by auto
    moreover have "cmp x ?a \<noteq> Greater" "cmp z ?a \<noteq> Greater"
      using Cons.prems cmp_refl cmp_total by auto
    ultimately have "cmp y ?a \<noteq> Greater" by auto
    then show ?thesis using cmp_trans [of y ?a ?w] aw a w Cons.prems by auto
  qed
qed

lemma max_by_ge:
  "\<lbrakk>max_by cmp xs = Some w; set xs \<subseteq> carrier; y \<in> set xs\<rbrakk> \<Longrightarrow> cmp y w \<noteq> Greater"
  using max_by_fold_ge by (cases xs) auto

text \<open>With no ties, the maximum does not depend on the order of the elements.\<close>

lemma max_by_perm:
  assumes "set xs \<subseteq> carrier" and "set ys = set xs"
    and no_ties: "\<And>x y. \<lbrakk>x \<in> set xs; y \<in> set xs; cmp x y = Equal\<rbrakk> \<Longrightarrow> x = y"
  shows "max_by cmp xs = max_by cmp ys"
proof (cases "xs = []")
  case False
  with assms(2) have "ys \<noteq> []" by auto
  obtain v where v: "max_by cmp xs = Some v"
    using False max_by_None_iff [of cmp xs] by (cases "max_by cmp xs") auto
  obtain w where w: "max_by cmp ys = Some w"
    using \<open>ys \<noteq> []\<close> max_by_None_iff [of cmp ys] by (cases "max_by cmp ys") auto
  from v w have in_xs: "v \<in> set xs" "w \<in> set xs"
    using max_by_in [OF v] max_by_in [OF w] assms(2) by simp_all
  then have "cmp w v \<noteq> Greater" "cmp v w \<noteq> Greater"
    using max_by_ge [OF v] max_by_ge [OF w] assms by auto
  then have "cmp v w = Equal" using cmp_flip [of v w] in_xs assms(1) by (cases "cmp v w") auto
  with no_ties in_xs v w show ?thesis by simp
qed (use assms in simp)

lemma sorted_by_unique:
  assumes "set xs \<subseteq> carrier" and "set ys = set xs" and "distinct xs" and "distinct ys"
    and "sorted_wrt (\<lambda>a b. cmp a b \<noteq> Greater) xs" and "sorted_wrt (\<lambda>a b. cmp a b \<noteq> Greater) ys"
    and "\<And>x y. \<lbrakk>x \<in> set xs; y \<in> set xs; cmp x y = Equal\<rbrakk> \<Longrightarrow> x = y"
  shows "xs = ys"
  using assms
proof (induction xs arbitrary: ys)
  case (Cons x xs)
  then obtain y ys' where ys: "ys = y # ys'" by (cases ys) auto
  have "x = y"
  proof (rule ccontr)
    assume "x \<noteq> y"
    then have "y \<in> set xs" "x \<in> set ys'" using Cons.prems(2) ys by auto
    then have le: "cmp x y \<noteq> Greater" "cmp y x \<noteq> Greater"
      using Cons.prems(5,6) ys by auto
    have mem: "x \<in> carrier" "y \<in> carrier" using Cons.prems(1) \<open>y \<in> set xs\<close> by auto
    have "cmp x y = Equal"
      using le cmp_flip [OF mem] by (cases "cmp x y") auto
    with \<open>x \<noteq> y\<close> show False
      using Cons.prems(7) [of x y] \<open>y \<in> set xs\<close> by simp
  qed
  moreover have "xs = ys'"
  proof (rule Cons.IH)
    show "set ys' = set xs" using Cons.prems(2,3,4) ys \<open>x = y\<close> by auto
    show "x' = y'" if "x' \<in> set xs" "y' \<in> set xs" "cmp x' y' = Equal" for x' y'
      using Cons.prems(7) that by simp
  qed (use Cons.prems ys in auto)
  ultimately show ?case using ys by simp
qed simp

text \<open>With no ties, sorting gives one result for every arrangement of the elements.\<close>

lemma sort_by_perm:
  assumes "set xs \<subseteq> carrier" and "mset ys = mset xs" and "distinct xs"
    and "\<And>x y. \<lbrakk>x \<in> set xs; y \<in> set xs; cmp x y = Equal\<rbrakk> \<Longrightarrow> x = y"
  shows "sort_by cmp ys = sort_by cmp xs"
proof -
  have "set ys = set xs" using assms(2) by (metis set_mset_mset)
  moreover have "distinct ys" using assms(2,3) mset_eq_imp_distinct_iff by blast
  ultimately show ?thesis
    using assms sorted_sort_by [of xs] sorted_sort_by [of ys]
      distinct_map_sort_by [of "\<lambda>x. x" cmp xs] distinct_map_sort_by [of "\<lambda>x. x" cmp ys]
    by (intro sorted_by_unique [symmetric]) simp_all
qed

end

text \<open>A comparator that compares a key in a linear order is total.\<close>

lemma rust_cmp_key: "rust_cmp (\<lambda>a b. cmp_of (f a) (f b)) A"
  by unfold_locales (auto simp: cmp_simps intro: cmp_of_flip)

interpretation native_cmp: rust_cmp "cmp_of :: 'a::linorder \<Rightarrow> 'a \<Rightarrow> rust_ordering" UNIV
  by (rule rust_cmp_key [of "\<lambda>x. x"])

section \<open>Hash maps and hash sets\<close>

type_synonym ('k, 'v) hash_map = "('k \<times> 'v) list"
type_synonym 'a hash_set = "'a list"

abbreviation hm_get :: "('k, 'v) hash_map \<Rightarrow> 'k \<Rightarrow> 'v option" where
  "hm_get m k \<equiv> map_of m k"

abbreviation hm_insert :: "'k \<Rightarrow> 'v \<Rightarrow> ('k, 'v) hash_map \<Rightarrow> ('k, 'v) hash_map" where
  "hm_insert \<equiv> AList.update"

abbreviation hm_remove :: "'k \<Rightarrow> ('k, 'v) hash_map \<Rightarrow> ('k, 'v) hash_map" where
  "hm_remove \<equiv> AList.delete"

abbreviation hm_keys :: "('k, 'v) hash_map \<Rightarrow> 'k list" where
  "hm_keys m \<equiv> map fst m"

abbreviation hm_wf :: "('k, 'v) hash_map \<Rightarrow> bool" where
  "hm_wf m \<equiv> distinct (map fst m)"

lemma hm_get_insert [hm_simps]: "hm_get (hm_insert k v m) = (hm_get m)(k \<mapsto> v)"
  by (rule update_conv')

lemma hm_get_remove [hm_simps]: "hm_get (hm_remove k m) = (hm_get m)(k := None)"
  by (rule delete_conv')

lemma hm_wf_insert [simp]: "hm_wf m \<Longrightarrow> hm_wf (hm_insert k v m)"
  by (rule distinct_update)

lemma hm_wf_remove [simp]: "hm_wf m \<Longrightarrow> hm_wf (hm_remove k m)"
  by (rule distinct_delete)

lemma hm_get_mem: "hm_wf m \<Longrightarrow> (k, v) \<in> set m \<longleftrightarrow> hm_get m k = Some v"
  by simp

lemma length_hm_remove:
  "hm_wf m \<Longrightarrow> k \<in> fst ` set m \<Longrightarrow> Suc (length (hm_remove k m)) = length m"
  by (induction m) auto

lemma hm_get_keys: "hm_get m k \<noteq> None \<longleftrightarrow> k \<in> set (hm_keys m)"
  by (simp add: map_of_eq_None_iff)

text \<open>\<open>entry(key).or_default().push(x)\<close> over a vector: the elements by key, in their order.\<close>

definition group_push :: "('a \<Rightarrow> 'k) \<Rightarrow> 'a list \<Rightarrow> ('k, 'a list) hash_map" where
  "group_push key xs =
     foldl (\<lambda>m x. hm_insert (key x) ((case hm_get m (key x) of None \<Rightarrow> [] | Some ys \<Rightarrow> ys) @ [x]) m) [] xs"

lemma group_push_get:
  "hm_get (group_push key xs) k =
     (if k \<in> key ` set xs then Some (filter (\<lambda>x. key x = k) xs) else None)"
proof (induction xs arbitrary: k rule: rev_induct)
  case (snoc x xs)
  have none: "key x \<notin> key ` set xs \<Longrightarrow> filter (\<lambda>y. key y = key x) xs = []"
    unfolding filter_empty_conv image_iff by force
  have "group_push key (xs @ [x]) = hm_insert (key x)
      ((case hm_get (group_push key xs) (key x) of None \<Rightarrow> [] | Some ys \<Rightarrow> ys) @ [x]) (group_push key xs)"
    by (simp add: group_push_def)
  then show ?case using none by (auto simp: hm_simps snoc.IH)
qed (simp add: group_push_def)

lemma hm_wf_group_push [simp]: "hm_wf (group_push key xs)"
  by (induction xs rule: rev_induct) (auto simp: group_push_def)

lemma group_push_mem:
  "(k, ys) \<in> set (group_push key xs) \<longleftrightarrow> k \<in> key ` set xs \<and> ys = filter (\<lambda>x. key x = k) xs"
  by (auto simp: hm_get_mem group_push_get split: if_splits)

text \<open>An order in which a hash map may be iterated.\<close>

definition iteration_order :: "('a list \<Rightarrow> 'a list) \<Rightarrow> bool" where
  "iteration_order f \<longleftrightarrow> (\<forall>xs. mset (f xs) = mset xs)"

lemma iteration_order_set: "iteration_order f \<Longrightarrow> set (f xs) = set xs"
  unfolding iteration_order_def by (metis set_mset_mset)

lemma iteration_order_examples [simp]: "iteration_order id" "iteration_order rev"
  by (simp_all add: iteration_order_def)

definition saturating_sub :: "u64 \<Rightarrow> u64 \<Rightarrow> u64" where
  "saturating_sub a b = (if a < b then 0 else a - b)"

text \<open>\<open>iter().position(p)\<close>.\<close>

fun position :: "('a \<Rightarrow> bool) \<Rightarrow> 'a list \<Rightarrow> nat option" where
  "position P [] = None"
| "position P (x # xs) = (if P x then Some 0 else map_option Suc (position P xs))"

lemma position_Some:
  "position P xs = Some i \<Longrightarrow> i < length xs \<and> P (xs ! i)"
  by (induction xs arbitrary: i) (auto split: if_splits)

lemma position_ex: "x \<in> set xs \<Longrightarrow> P x \<Longrightarrow> \<exists>i. position P xs = Some i"
  by (induction xs) auto

lemma map_filter_mem: "y \<in> set (List.map_filter f xs) \<longleftrightarrow> (\<exists>x \<in> set xs. f x = Some y)"
  by (induction xs) (auto simp: map_filter_simps split: option.split)

lemma append_separator_eq_iff:
  assumes "c \<notin> set xs" and "c \<notin> set xs'"
  shows "xs @ c # ys = xs' @ c # ys' \<longleftrightarrow> xs = xs' \<and> ys = ys'"
proof
  assume "xs @ c # ys = xs' @ c # ys'"
  then show "xs = xs' \<and> ys = ys'"
    using assms by (induction xs arbitrary: xs') (auto simp: Cons_eq_append_conv append_eq_Cons_conv)
qed simp

lemma unat_u64_lt: "unat (w :: u64) < 2 ^ 64"
  using unsigned_less [of w, where ?'a = nat] by simp

lemma unat_u64_MAX: "unat u64_MAX = 2 ^ 64 - 1"
  by (simp add: unsigned_minus_1_eq_mask mask_eq_exp_minus_1)

lemma u64_less_MAX_iff: "c \<noteq> u64_MAX \<longleftrightarrow> unat c < 2 ^ 64 - 1"
  using unat_u64_lt [of c] unat_u64_MAX word_unat_eq_iff [of c u64_MAX] by linarith

lemma unat_u64_Suc: "c \<noteq> u64_MAX \<Longrightarrow> unat (c + 1) = Suc (unat c)"
  by (simp add: u64_less_MAX_iff unat_word_ariths)

lemma u64_less_Suc: "c \<noteq> u64_MAX \<Longrightarrow> c < c + (1 :: u64)"
  by (simp add: word_less_nat_alt unat_u64_Suc)

end
