(* ===== verification/Rust_Codec.thy ===== *)
theory Rust_Codec
  imports Raisin_Prelude
begin

text \<open>
  The integer encodings of the Rust standard library the modelled crates use: \<open>to_be_bytes\<close> and
  \<open>from_be_bytes\<close> on \<open>u64\<close>, decimal printing of unsigned integers, and \<open>str::parse::<u64>\<close>
  with its error cases. The lemmas are the round trips and the fact the storage keys rest on:
  big-endian bytes of the same length compare lexicographically as the numbers do.
\<close>

section \<open>Big-endian bytes\<close>

fun be_bytes :: "nat \<Rightarrow> nat \<Rightarrow> u8 list" where
  "be_bytes 0 n = []"
| "be_bytes (Suc k) n = be_bytes k (n div 256) @ [word_of_nat (n mod 256)]"

definition bytes_val :: "u8 list \<Rightarrow> nat" where
  "bytes_val bs = foldl (\<lambda>acc b. acc * 256 + unat b) 0 bs"

definition u64_to_be_bytes :: "u64 \<Rightarrow> u8 list" where
  "u64_to_be_bytes w = be_bytes 8 (unat w)"

definition u64_from_be_bytes :: "u8 list \<Rightarrow> u64" where
  "u64_from_be_bytes bs = word_of_nat (bytes_val bs)"

lemma length_be_bytes [simp]: "length (be_bytes k n) = k"
  by (induction k n rule: be_bytes.induct) auto

lemma bytes_val_Nil [simp]: "bytes_val [] = 0"
  and bytes_val_snoc [simp]: "bytes_val (bs @ [b]) = bytes_val bs * 256 + unat b"
  by (simp_all add: bytes_val_def)

lemma bytes_val_foldl:
  "foldl (\<lambda>acc b. acc * 256 + unat b) a bs = a * 256 ^ length bs + bytes_val (bs :: u8 list)"
  by (induction bs arbitrary: a rule: rev_induct) (simp_all add: algebra_simps)

lemma bytes_val_Cons [simp]: "bytes_val (b # bs) = unat b * 256 ^ length bs + bytes_val bs"
  using bytes_val_foldl [of "unat b" bs] by (simp add: bytes_val_def)

lemma unat_u8_lt [simp]: "unat (b :: u8) < 256"
  using unsigned_less [of b, where ?'a = nat] by simp

lemma unat_u8_le: "unat (b :: u8) \<le> 255"
  using unat_u8_lt [of b] by linarith

lemma bytes_val_lt: "bytes_val bs < 256 ^ length bs"
proof (induction bs rule: rev_induct)
  case (snoc b bs)
  then have "bytes_val bs * 256 + unat b < (bytes_val bs + 1) * 256"
    using unat_u8_lt [of b] by simp
  also have "\<dots> \<le> 256 ^ length bs * 256"
    using snoc by (intro mult_le_mono1) simp
  finally show ?case by simp
qed simp

lemma bytes_val_be_bytes: "n < 256 ^ k \<Longrightarrow> bytes_val (be_bytes k n) = n"
proof (induction k n rule: be_bytes.induct)
  case (2 k n)
  then have "bytes_val (be_bytes k (n div 256)) = n div 256"
    by (simp add: less_mult_imp_div_less mult.commute)
  then show ?case by (simp add: unat_of_nat)
qed simp

lemma be_bytes_bytes_val: "be_bytes (length bs) (bytes_val bs) = bs"
  by (induction bs rule: rev_induct) (simp_all add: div_add1_eq)

lemma bytes_val_less_iff:
  "length xs = length ys \<Longrightarrow> xs < ys \<longleftrightarrow> bytes_val xs < bytes_val ys"
proof (induction xs ys rule: list_induct2)
  case (Cons x xs y ys)
  have bounds: "bytes_val xs < 256 ^ length ys" "bytes_val ys < 256 ^ length ys"
    using bytes_val_lt [of xs] bytes_val_lt [of ys] Cons.hyps by simp_all
  consider "x < y" | "x = y" | "y < x" by fastforce
  then show ?case
  proof cases
    case 1
    then have "(unat x + 1) * 256 ^ length ys \<le> unat y * 256 ^ length ys"
      by (intro mult_le_mono1) (simp add: word_less_nat_alt)
    with 1 bounds Cons.hyps show ?thesis by (simp add: algebra_simps)
  next
    case 2
    with Cons show ?thesis by simp
  next
    case 3
    then have "(unat y + 1) * 256 ^ length ys \<le> unat x * 256 ^ length ys"
      by (intro mult_le_mono1) (simp add: word_less_nat_alt)
    with 3 bounds Cons.hyps show ?thesis by (auto simp: algebra_simps)
  qed
qed simp

lemma length_u64_to_be_bytes [simp]: "length (u64_to_be_bytes w) = 8"
  by (simp add: u64_to_be_bytes_def)

lemma bytes_val_u64 [simp]: "bytes_val (u64_to_be_bytes w) = unat w"
proof -
  have "unat w < 256 ^ 8" using unat_u64_lt [of w] by simp
  then show ?thesis by (simp only: u64_to_be_bytes_def bytes_val_be_bytes)
qed

lemma u64_be_roundtrip [simp]: "u64_from_be_bytes (u64_to_be_bytes w) = w"
  by (simp add: u64_from_be_bytes_def)

lemma u64_be_bytes_roundtrip:
  assumes "length bs = 8"
  shows "u64_to_be_bytes (u64_from_be_bytes bs) = bs"
proof -
  have "bytes_val bs < 2 ^ 64" using bytes_val_lt [of bs] assms by simp
  then have "unat (u64_from_be_bytes bs) = bytes_val bs"
    by (simp add: u64_from_be_bytes_def unat_of_nat)
  then show ?thesis using be_bytes_bytes_val [of bs] assms by (simp add: u64_to_be_bytes_def)
qed

lemma u64_to_be_bytes_less_iff: "u64_to_be_bytes v < u64_to_be_bytes w \<longleftrightarrow> v < w"
  by (simp add: bytes_val_less_iff word_less_nat_alt)

lemma u64_to_be_bytes_eq_iff [simp]: "u64_to_be_bytes v = u64_to_be_bytes w \<longleftrightarrow> v = w"
  by (metis u64_be_roundtrip)

text \<open>Lexicographic order of two-part keys whose first parts have the same length.\<close>

lemma append_less_append_iff:
  fixes xs ys us vs :: "'a::linorder list"
  assumes "length xs = length ys"
  shows "xs @ us < ys @ vs \<longleftrightarrow> xs < ys \<or> (xs = ys \<and> us < vs)"
  using assms by (induction xs ys rule: list_induct2) auto

text \<open>Complement reverses the unsigned order.\<close>

lemma NOT_less_iff: "NOT v < NOT w \<longleftrightarrow> w < (v :: u64)"
proof -
  have "unat (NOT x) = 2 ^ 64 - 1 - unat x" for x :: u64
  proof -
    have "NOT x = - 1 - x" by (simp add: not_eq_complement)
    moreover have "unat (- 1 :: u64) = 2 ^ 64 - 1"
      by (simp add: unsigned_minus_1_eq_mask mask_eq_exp_minus_1)
    ultimately show ?thesis
      using unat_u64_lt [of x] by (simp add: unat_sub_if_size)
  qed
  then show ?thesis using unat_u64_lt [of v] unat_u64_lt [of w] by (auto simp: word_less_nat_alt)
qed

section \<open>Signed integers\<close>

text \<open>Flipping the sign bit maps the signed order to the unsigned order.\<close>

lemma uint_u64_lt: "uint (w :: u64) < 2 ^ 64"
  using uint_lt2p [of w] by simp

lemma sint_cases: "sint (w :: u64) = uint w - (if bit w 63 then 2 ^ 64 else 0)"
  unfolding sint_uint using uint_u64_lt [of w] by (simp add: signed_take_bit_eq_take_bit_minus take_bit_eq_mod bit_uint_iff)

lemma flip_sign_bit: "(w XOR push_bit 63 1 :: u64) = (if bit w 63 then w - 2 ^ 63 else w + 2 ^ 63)"
  unfolding flip_bit_eq_xor [symmetric] flip_bit_eq_if by (simp add: set_bit_eq unset_bit_eq)

lemma sign_bit_iff: "bit (w :: u64) 63 \<longleftrightarrow> 2 ^ 63 \<le> uint w"
proof -
  have w: "bit w 63 \<longleftrightarrow> odd (uint w div 2 ^ 63)"
    using bit_uint_iff [of w 63] by (simp add: bit_iff_odd [of "uint w"])
  show ?thesis
  proof (cases "2 ^ 63 \<le> uint w")
    case True
    then have "uint w div 2 ^ 63 = 1"
      using uint_u64_lt [of w] by (intro int_div_pos_eq [of _ _ _ "uint w - 2 ^ 63"]) simp_all
    with True w show ?thesis by simp
  next
    case False
    then have "uint w div 2 ^ 63 = 0" by (intro div_pos_pos_trivial) simp_all
    with False w show ?thesis by simp
  qed
qed

lemma uint_flip_sign_bit: "uint (w XOR push_bit 63 1 :: u64) = sint w + 2 ^ 63"
proof (cases "bit w 63")
  case True
  then show ?thesis
    using uint_u64_lt [of w] unfolding flip_sign_bit sint_cases sign_bit_iff by (simp add: uint_word_ariths)
next
  case False
  then show ?thesis
    using uint_u64_lt [of w] unfolding flip_sign_bit sint_cases sign_bit_iff by (simp add: uint_word_ariths)
qed

lemma flip_sign_bit_less_iff: "(v XOR push_bit 63 1) < (w XOR push_bit 63 1) \<longleftrightarrow> sint v < sint (w :: u64)"
  unfolding word_less_def uint_flip_sign_bit by simp

lemma sint_nonneg_iff: "0 \<le> sint (w :: u64) \<longleftrightarrow> uint w < 2 ^ 63"
  using sign_bit_iff [of w] uint_u64_lt [of w] uint_ge_0 [of w] unfolding sint_cases by (cases "bit w 63") simp_all

lemma sint_nonneg:
  assumes "0 \<le> sint (w :: u64)"
  shows "sint w = uint w"
proof -
  have "\<not> bit w 63" using assms unfolding sint_nonneg_iff sign_bit_iff by simp
  then show ?thesis by (simp add: sint_cases)
qed

section \<open>Decimal integers\<close>

definition digit_char :: "nat \<Rightarrow> char" where
  "digit_char d = char_of (48 + d)"

definition digit_val :: "char \<Rightarrow> nat option" where
  "digit_val c = (let n = of_char c in if 48 \<le> n \<and> n \<le> 57 then Some (n - 48) else None)"

fun show_nat :: "nat \<Rightarrow> string" where
  "show_nat n = (if n < 10 then [digit_char n] else show_nat (n div 10) @ [digit_char (n mod 10)])"

declare show_nat.simps [simp del]

definition show_u64 :: "u64 \<Rightarrow> string" where
  "show_u64 w = show_nat (unat w)"

datatype int_error = EmptyInt | InvalidDigit | PosOverflow

fun parse_u64_digits :: "nat \<Rightarrow> string \<Rightarrow> int_error + nat" where
  "parse_u64_digits acc [] = Inr acc"
| "parse_u64_digits acc (c # cs) =
     (case digit_val c of
        None \<Rightarrow> Inl InvalidDigit
      | Some d \<Rightarrow>
          if 2 ^ 64 \<le> acc * 10 + d then Inl PosOverflow
          else parse_u64_digits (acc * 10 + d) cs)"

definition parse_u64 :: "string \<Rightarrow> int_error + u64" where
  "parse_u64 s =
     (let digits = (\<lambda>ds. case parse_u64_digits 0 ds of Inl e \<Rightarrow> Inl e | Inr n \<Rightarrow> Inr (word_of_nat n))
      in case s of
           [] \<Rightarrow> Inl EmptyInt
         | [c] \<Rightarrow> if c = CHR ''+'' \<or> c = CHR ''-'' then Inl InvalidDigit else digits s
         | c # cs \<Rightarrow> if c = CHR ''+'' then digits cs else digits s)"

abbreviation slash :: char where
  "slash \<equiv> CHR ''/''"

fun split_on :: "'a \<Rightarrow> 'a list \<Rightarrow> 'a list list" where
  "split_on c [] = [[]]"
| "split_on c (x # xs) =
     (if x = c then [] # split_on c xs
      else case split_on c xs of [] \<Rightarrow> [[x]] | y # ys \<Rightarrow> (x # y) # ys)"

lemma digit_val_digit_char [simp]: "d < 10 \<Longrightarrow> digit_val (digit_char d) = Some d"
  by (simp add: digit_val_def digit_char_def)

lemma digit_char_neq: "d < 10 \<Longrightarrow> digit_char d \<noteq> CHR ''-'' \<and> digit_char d \<noteq> CHR ''+''"
  by (auto simp: digit_char_def dest!: arg_cong [where f = "of_char :: char \<Rightarrow> nat"])

lemma show_nat_nonempty [simp]: "show_nat n \<noteq> []"
  by (subst show_nat.simps) simp

lemma show_nat_chars: "c \<in> set (show_nat n) \<Longrightarrow> \<exists>d < 10. c = digit_char d"
proof (induction n rule: show_nat.induct)
  case (1 n)
  then show ?case by (subst (asm) (2) show_nat.simps) (auto split: if_splits intro: exI [of _ "n mod 10"])
qed

lemma show_nat_no_sign: "CHR ''-'' \<notin> set (show_nat n)" "CHR ''+'' \<notin> set (show_nat n)"
  using show_nat_chars [of _ n] digit_char_neq by metis+

lemma parse_digits_show_nat:
  "n < 2 ^ 64 \<Longrightarrow> parse_u64_digits 0 (show_nat n @ cs) = parse_u64_digits n cs"
proof (induction n arbitrary: cs rule: show_nat.induct)
  case (1 n)
  show ?case
  proof (cases "n < 10")
    case True
    then show ?thesis by (simp add: show_nat.simps [of n])
  next
    case False
    with 1 show ?thesis by (simp add: show_nat.simps [of n])
  qed
qed

lemma parse_show_u64 [simp]: "parse_u64 (show_u64 w) = Inr w"
proof -
  have digits: "parse_u64_digits 0 (show_nat (unat w)) = Inr (unat w)"
    using parse_digits_show_nat [of "unat w" "[]"] unat_u64_lt [of w] by simp
  obtain c cs where s: "show_nat (unat w) = c # cs"
    by (cases "show_nat (unat w)") auto
  with show_nat_no_sign [of "unat w"] have "c \<noteq> CHR ''-''" "c \<noteq> CHR ''+''" by auto
  with digits s show ?thesis
    by (cases cs) (simp_all add: parse_u64_def show_u64_def)
qed

lemma split_on_nonempty [simp]: "split_on c xs \<noteq> []"
  by (induction xs) (auto split: list.splits)

lemma split_on_notin: "c \<notin> set xs \<Longrightarrow> split_on c xs = [xs]"
  by (induction xs) auto

lemma split_on_append: "c \<notin> set xs \<Longrightarrow> split_on c (xs @ c # ys) = xs # split_on c ys"
  by (induction xs) auto

end
