(* ===== verification/Hlc.thy ===== *)
theory Hlc
  imports Rust_Codec
begin

text \<open>
  \<open>raisin-hlc/src/lib.rs\<close>: the hybrid logical clock timestamp. A timestamp is a record of two
  \<open>u64\<close>; its \<open>Ord\<close> is timestamp first, then counter. The theory models the two binary
  encodings (\<open>encode_descending\<close> for storage keys, \<open>as_u128\<close>), the string form used by the
  APIs and serde, and the error values of \<open>raisin-hlc/src/error.rs\<close>. The wall clock
  (\<open>current_time_ms\<close>) is a parameter.

  The lemmas: both encodings round-trip and follow the order of the timestamps (reversed for
  \<open>encode_descending\<close>, which is what makes the newest revision the first key of a forward scan),
  decoding fails exactly on a wrong length, parsing inverts printing.
\<close>

section \<open>Data\<close>

record hlc =
  hlc_timestamp_ms :: u64
  hlc_counter :: u64

datatype hlc_error =
    InvalidEncoding nat nat  \<comment> \<open>expected, actual\<close>
  | ParseError string string  \<comment> \<open>input, reason\<close>
  | ClockSkew u64 u64 u64  \<comment> \<open>\<open>wall_clock_ms\<close>, \<open>hlc_timestamp_ms\<close>, \<open>delta_ms\<close>\<close>
  | PersistenceError string

definition hlc_new :: "u64 \<Rightarrow> u64 \<Rightarrow> hlc" where
  "hlc_new timestamp_ms counter = \<lparr>hlc_timestamp_ms = timestamp_ms, hlc_counter = counter\<rparr>"

definition hlc_now :: "u64 \<Rightarrow> hlc" where
  "hlc_now current_time_ms = hlc_new current_time_ms 0"

definition hlc_cmp :: "hlc \<Rightarrow> hlc \<Rightarrow> rust_ordering" where
  "hlc_cmp a b =
     then_with (cmp_of (hlc_timestamp_ms a) (hlc_timestamp_ms b))
               (cmp_of (hlc_counter a) (hlc_counter b))"

section \<open>Encodings\<close>

definition encode_descending :: "hlc \<Rightarrow> u8 list" where
  "encode_descending h =
     u64_to_be_bytes (NOT (hlc_timestamp_ms h)) @ u64_to_be_bytes (NOT (hlc_counter h))"

definition decode_descending :: "u8 list \<Rightarrow> hlc_error + hlc" where
  "decode_descending bytes =
     (if length bytes \<noteq> 16 then Inl (InvalidEncoding 16 (length bytes))
      else Inr (hlc_new (NOT (u64_from_be_bytes (take 8 bytes)))
                        (NOT (u64_from_be_bytes (take 8 (drop 8 bytes))))))"

definition as_u128 :: "hlc \<Rightarrow> u128" where
  "as_u128 h = push_bit 64 (ucast (hlc_timestamp_ms h)) OR ucast (hlc_counter h)"

definition from_u128 :: "u128 \<Rightarrow> hlc" where
  "from_u128 v = hlc_new (ucast (drop_bit 64 v)) (ucast (v AND 0xFFFFFFFFFFFFFFFF))"

definition hlc_to_string :: "hlc \<Rightarrow> string" where
  "hlc_to_string h = show_u64 (hlc_timestamp_ms h) @ ''-'' @ show_u64 (hlc_counter h)"

fun int_error_message :: "int_error \<Rightarrow> string" where
  "int_error_message EmptyInt = ''cannot parse integer from empty string''"
| "int_error_message InvalidDigit = ''invalid digit found in string''"
| "int_error_message PosOverflow = ''number too large to fit in target type''"

definition hlc_from_str :: "string \<Rightarrow> hlc_error + hlc" where
  "hlc_from_str s =
     (case split_on CHR ''-'' s of
        [p0, p1] \<Rightarrow>
          (case parse_u64 p0 of
             Inl e \<Rightarrow> Inl (ParseError s (''invalid timestamp: '' @ int_error_message e))
           | Inr timestamp_ms \<Rightarrow>
               (case parse_u64 p1 of
                  Inl e \<Rightarrow> Inl (ParseError s (''invalid counter: '' @ int_error_message e))
                | Inr counter \<Rightarrow> Inr (hlc_new timestamp_ms counter)))
      | _ \<Rightarrow> Inl (ParseError s (''expected format '' @ [CHR 0x27] @ ''timestamp-counter'' @ [CHR 0x27])))"

section \<open>Order\<close>

text \<open>\<open>hlc_cmp\<close> is the order of \<open>Ord for HLC\<close>; the type is a linear order with it.\<close>

instantiation hlc_ext :: (linorder) linorder
begin

definition less_eq_hlc_ext :: "'a hlc_scheme \<Rightarrow> 'a hlc_scheme \<Rightarrow> bool" where
  "a \<le> b \<longleftrightarrow> hlc_timestamp_ms a < hlc_timestamp_ms b \<or>
     (hlc_timestamp_ms a = hlc_timestamp_ms b \<and>
        (hlc_counter a < hlc_counter b \<or>
          (hlc_counter a = hlc_counter b \<and> hlc.more a \<le> hlc.more b)))"

definition less_hlc_ext :: "'a hlc_scheme \<Rightarrow> 'a hlc_scheme \<Rightarrow> bool" where
  "a < b \<longleftrightarrow> a \<le> b \<and> \<not> b \<le> (a :: 'a hlc_scheme)"

instance
  by standard (auto simp: less_eq_hlc_ext_def less_hlc_ext_def)

end

lemma hlc_less_iff:
  "a < b \<longleftrightarrow> hlc_timestamp_ms a < hlc_timestamp_ms b \<or>
     (hlc_timestamp_ms a = hlc_timestamp_ms b \<and> hlc_counter a < hlc_counter (b :: hlc))"
  by (auto simp: less_hlc_ext_def less_eq_hlc_ext_def)

lemma hlc_le_iff:
  "a \<le> b \<longleftrightarrow> hlc_timestamp_ms a < hlc_timestamp_ms b \<or>
     (hlc_timestamp_ms a = hlc_timestamp_ms b \<and> hlc_counter a \<le> hlc_counter (b :: hlc))"
  by (auto simp: less_eq_hlc_ext_def)

lemma hlc_eq_iff:
  "a = b \<longleftrightarrow> hlc_timestamp_ms a = hlc_timestamp_ms b \<and> hlc_counter a = hlc_counter (b :: hlc)"
  by (cases a; cases b) simp

lemma hlc_cmp_cmp_of: "hlc_cmp a b = cmp_of a b"
  by (auto simp: hlc_cmp_def cmp_of_def hlc_less_iff hlc_eq_iff)

interpretation hlc_order: rust_cmp hlc_cmp UNIV
  using rust_cmp_key [of "\<lambda>x :: hlc. x"] by (simp add: hlc_cmp_cmp_of [abs_def])

lemma hlc_new_sel [simp]:
  "hlc_timestamp_ms (hlc_new t c) = t" "hlc_counter (hlc_new t c) = c"
  by (simp_all add: hlc_new_def)

lemma hlc_new_eta [simp]: "hlc_new (hlc_timestamp_ms h) (hlc_counter h) = h"
  by (simp add: hlc_new_def)

section \<open>Descending key encoding\<close>

lemma length_encode_descending [simp]: "length (encode_descending h) = 16"
  by (simp add: encode_descending_def)

lemma encode_descending_inj: "encode_descending a = encode_descending b \<longleftrightarrow> a = b"
  by (simp add: encode_descending_def hlc_eq_iff)

lemma encode_decode_descending: "decode_descending bs = Inr g \<Longrightarrow> encode_descending g = bs"
proof -
  assume dec: "decode_descending bs = Inr g"
  then have "length bs = 16" by (auto simp: decode_descending_def split: if_splits)
  moreover from this have "take 8 (drop 8 bs) = drop 8 bs" by simp
  ultimately show ?thesis using dec
    by (auto simp: decode_descending_def encode_descending_def u64_be_bytes_roundtrip)
qed

text \<open>The descending key encoding reverses the order of timestamps: the key of a newer
  revision is lexicographically smaller.\<close>

theorem encode_descending_antitone: "encode_descending a < encode_descending b \<longleftrightarrow> b < a"
  by (auto simp: encode_descending_def append_less_append_iff u64_to_be_bytes_less_iff
      NOT_less_iff hlc_less_iff)

text \<open>Decoding inverts the descending encoding, and encoding inverts every successful decoding;
  decoding fails exactly when the input is not sixteen bytes long, and then reports its length.\<close>

theorem decode_descending_roundtrip:
  "decode_descending (encode_descending h) = Inr h \<and>
   (decode_descending bs = Inr g \<longleftrightarrow> encode_descending g = bs) \<and>
   (decode_descending bs = Inl e \<longleftrightarrow> length bs \<noteq> 16 \<and> e = InvalidEncoding 16 (length bs))"
proof -
  have rt: "decode_descending (encode_descending h) = Inr h" for h
    by (simp add: decode_descending_def encode_descending_def)
  have "decode_descending bs = Inr g \<longleftrightarrow> encode_descending g = bs"
    using rt encode_decode_descending by auto
  moreover have "decode_descending bs = Inl e \<longleftrightarrow> length bs \<noteq> 16 \<and> e = InvalidEncoding 16 (length bs)"
    by (auto simp: decode_descending_def)
  ultimately show ?thesis using rt by simp
qed

section \<open>128-bit form\<close>

lemma unat_ucast_u128 [simp]: "unat (ucast (w :: u64) :: u128) = unat w"
  using unat_u64_lt [of w] by (simp add: unsigned_ucast_eq take_bit_nat_eq_self_iff)

lemma u64_bit_lt: "bit (w :: u64) n \<Longrightarrow> n < 64"
  using bit_imp_le_length [of w n] by simp

lemma unat_as_u128: "unat (as_u128 h) = unat (hlc_timestamp_ms h) * 2 ^ 64 + unat (hlc_counter h)"
proof -
  let ?t = "hlc_timestamp_ms h" and ?c = "hlc_counter h"
  have "push_bit 64 (ucast ?t :: u128) AND ucast ?c = 0"
    by (rule bit_word_eqI) (auto simp: bit_simps dest: u64_bit_lt)
  then have sum: "as_u128 h = push_bit 64 (ucast ?t) + ucast ?c"
    by (simp add: as_u128_def disjunctive_add_eq_or)
  have lt: "unat ?t * 2 ^ 64 + unat ?c < 2 ^ 128"
  proof -
    have "unat ?t * 2 ^ 64 + unat ?c < (unat ?t + 1) * 2 ^ 64"
      using unat_u64_lt [of ?c] by simp
    also have "\<dots> \<le> 2 ^ 64 * 2 ^ 64"
      using unat_u64_lt [of ?t] by (intro mult_le_mono1) simp
    finally show ?thesis by simp
  qed
  have "unat (push_bit 64 (ucast ?t :: u128)) = unat ?t * 2 ^ 64"
    using lt by (simp add: push_bit_eq_mult unat_word_ariths)
  with sum lt show ?thesis by (simp add: unat_word_ariths)
qed

text \<open>The 128-bit form round-trips and is strictly monotone in the order of timestamps.\<close>

theorem as_u128_order_embedding:
  "from_u128 (as_u128 h) = h \<and> (as_u128 g < as_u128 h \<longleftrightarrow> g < h)"
proof
  have low: "0xFFFFFFFFFFFFFFFF = (mask 64 :: u128)"
    by (simp add: mask_eq_exp_minus_1)
  show "from_u128 (as_u128 h) = h"
    unfolding from_u128_def as_u128_def low hlc_eq_iff hlc_new_sel
    by (auto intro!: bit_word_eqI simp: bit_simps dest: u64_bit_lt)
  have lex: "a * 2 ^ 64 + b < a' * 2 ^ 64 + b' \<longleftrightarrow> a < a' \<or> (a = a' \<and> b < b')"
    if "b < 2 ^ 64" "b' < 2 ^ 64" for a b a' b' :: nat
  proof (cases a a' rule: linorder_cases)
    case less
    then have "(a + 1) * 2 ^ 64 \<le> a' * 2 ^ 64" by (intro mult_le_mono1) simp
    with less that show ?thesis by simp
  next
    case greater
    then have "(a' + 1) * 2 ^ 64 \<le> a * 2 ^ 64" by (intro mult_le_mono1) simp
    with greater that show ?thesis by simp
  qed simp
  show "as_u128 g < as_u128 h \<longleftrightarrow> g < h"
    using lex [OF unat_u64_lt unat_u64_lt]
    by (simp add: word_less_nat_alt [of "as_u128 g"] unat_as_u128 hlc_less_iff
        word_less_nat_alt [of "hlc_timestamp_ms g"] word_less_nat_alt [of "hlc_counter g"]
        word_unat_eq_iff [of "hlc_timestamp_ms g"])
qed

section \<open>String form\<close>

text \<open>Parsing a printed timestamp gives the timestamp back, for every value of both fields.\<close>

theorem hlc_from_str_to_string: "hlc_from_str (hlc_to_string h) = Inr h"
proof -
  have "split_on CHR ''-'' (hlc_to_string h) =
      [show_u64 (hlc_timestamp_ms h), show_u64 (hlc_counter h)]"
    by (simp add: hlc_to_string_def show_u64_def split_on_append split_on_notin show_nat_no_sign)
  then show ?thesis by (simp add: hlc_from_str_def)
qed

end
