(* ===== verification/Hlc_State.thy ===== *)
theory Hlc_State
  imports Hlc
begin

text \<open>
  \<open>raisin-hlc/src/state.rs\<close>: the clock of one node. The state is two atomics and the node id.

  Two models of \<open>tick\<close> and \<open>update\<close> are given. The sequential one (\<open>tick\<close>, \<open>hlc_update\<close>)
  is what a caller observes when no other thread touches the state: both compare-and-swaps
  succeed in the first iteration, so the loop body runs once. The concurrent one is a step
  relation \<open>hlc_step\<close> over the atomics and the local variables of any number of threads, one rule
  per atomic access of the code, with the retry on a failed compare-and-swap. The atomics are
  sequentially consistent cells here, which allows fewer interleavings than the acquire/release
  orderings of the code do; a run of this model is a run of the code.

  The wall clock is an argument: every call (every loop iteration) reads some value, and
  nothing is assumed about how those values change over time.
\<close>

section \<open>State and sequential operations\<close>

record node_hlc_state =
  last_timestamp :: u64
  last_counter :: u64
  hlc_node_id :: string

definition MAX_CLOCK_SKEW_MS :: u64 where
  "MAX_CLOCK_SKEW_MS = 5000"

definition node_hlc_new :: "u64 \<Rightarrow> string \<Rightarrow> node_hlc_state" where
  "node_hlc_new now node_id = \<lparr>last_timestamp = now, last_counter = 0, hlc_node_id = node_id\<rparr>"

definition node_hlc_with_initial :: "string \<Rightarrow> hlc \<Rightarrow> node_hlc_state" where
  "node_hlc_with_initial node_id initial_hlc =
     \<lparr>last_timestamp = hlc_timestamp_ms initial_hlc, last_counter = hlc_counter initial_hlc,
      hlc_node_id = node_id\<rparr>"

text \<open>The pair computed from the values read in one iteration of the loop of \<open>tick\<close>.\<close>

definition tick_next :: "u64 \<Rightarrow> u64 \<Rightarrow> u64 \<Rightarrow> u64 \<times> u64" where
  "tick_next wall_clock last_ts last_cnt =
     (if wall_clock > last_ts then (wall_clock, 0) else (last_ts, last_cnt + 1))"

text \<open>The pair computed in one iteration of the loop of \<open>update\<close>.\<close>

definition update_next :: "hlc \<Rightarrow> u64 \<Rightarrow> u64 \<Rightarrow> u64 \<Rightarrow> u64 \<times> u64" where
  "update_next remote wall_clock last_ts last_cnt =
     (let max_ts = max (max wall_clock last_ts) (hlc_timestamp_ms remote);
          new_cnt = (if max_ts = hlc_timestamp_ms remote then hlc_counter remote + 1
                     else if max_ts = last_ts then last_cnt + 1
                     else 0)
      in (max_ts, new_cnt))"

definition tick :: "u64 \<Rightarrow> node_hlc_state \<Rightarrow> hlc \<times> node_hlc_state" where
  "tick wall_clock s =
     (let (new_ts, new_cnt) = tick_next wall_clock (last_timestamp s) (last_counter s)
      in (hlc_new new_ts new_cnt, s\<lparr>last_timestamp := new_ts, last_counter := new_cnt\<rparr>))"

text \<open>Whether \<open>update\<close> prints its clock-skew warning, and the delta it prints.\<close>

definition update_skew_warning :: "hlc \<Rightarrow> u64 \<Rightarrow> u64 option" where
  "update_skew_warning remote wall_clock =
     (if hlc_timestamp_ms remote > wall_clock + MAX_CLOCK_SKEW_MS
      then Some (hlc_timestamp_ms remote - wall_clock) else None)"

definition hlc_update :: "hlc \<Rightarrow> u64 \<Rightarrow> node_hlc_state \<Rightarrow> (hlc \<times> u64 option) \<times> node_hlc_state" where
  "hlc_update remote wall_clock s =
     (let (max_ts, new_cnt) = update_next remote wall_clock (last_timestamp s) (last_counter s)
      in ((hlc_new max_ts new_cnt, update_skew_warning remote wall_clock),
          s\<lparr>last_timestamp := max_ts, last_counter := new_cnt\<rparr>))"

definition hlc_current :: "node_hlc_state \<Rightarrow> hlc" where
  "hlc_current s = hlc_new (last_timestamp s) (last_counter s)"

definition hlc_validate :: "u64 \<Rightarrow> node_hlc_state \<Rightarrow> hlc_error + unit" where
  "hlc_validate wall_clock s =
     (if wall_clock > last_timestamp s + MAX_CLOCK_SKEW_MS
      then Inl (ClockSkew wall_clock (last_timestamp s) (wall_clock - last_timestamp s))
      else Inr ())"

text \<open>A run of local events: one \<open>tick\<close> per wall-clock reading.\<close>

fun ticks :: "u64 list \<Rightarrow> node_hlc_state \<Rightarrow> hlc list \<times> node_hlc_state" where
  "ticks [] s = ([], s)"
| "ticks (w # ws) s = (let (h, s') = tick w s; (hs, s'') = ticks ws s' in (h # hs, s''))"

section \<open>Sequential lemmas\<close>

lemma tick_state: "hlc_current (snd (tick w s)) = fst (tick w s)"
  by (simp add: tick_def hlc_current_def Let_def split: prod.splits)

lemma tick_increases:
  "last_counter s \<noteq> u64_MAX \<Longrightarrow> hlc_current s < fst (tick w s)"
  by (auto simp: tick_def tick_next_def hlc_current_def hlc_less_iff u64_less_Suc)

lemma tick_ge_wall: "w \<le> hlc_timestamp_ms (fst (tick w s))"
  by (auto simp: tick_def tick_next_def)

lemma tick_counter: "unat (last_counter (snd (tick w s))) \<le> Suc (unat (last_counter s))"
  by (auto simp: tick_def tick_next_def unat_word_ariths)

lemma update_state: "hlc_current (snd (hlc_update r w s)) = fst (fst (hlc_update r w s))"
  by (simp add: hlc_update_def hlc_current_def Let_def split: prod.splits)

lemma update_gt_remote:
  "hlc_counter r \<noteq> u64_MAX \<Longrightarrow> r < fst (fst (hlc_update r w s))"
  by (auto simp: hlc_update_def update_next_def hlc_less_iff u64_less_Suc Let_def max_def)

lemma update_increases:
  assumes "last_counter s \<noteq> u64_MAX" and "hlc_counter r \<noteq> u64_MAX"
    and "last_timestamp s = hlc_timestamp_ms r \<Longrightarrow> last_counter s \<le> hlc_counter r"
  shows "hlc_current s < fst (fst (hlc_update r w s))"
  using assms u64_less_Suc [of "last_counter s"] u64_less_Suc [of "hlc_counter r"]
  by (auto simp: hlc_update_def update_next_def hlc_current_def hlc_less_iff Let_def max_def
      not_le intro: le_less_trans)

text \<open>The counter after \<open>n\<close> ticks is at most \<open>n\<close> more than before, so a bound on the
  length of a run keeps it away from the wrap-around.\<close>

lemma ticks_increasing:
  assumes "unat (last_counter s) + length ws < 2 ^ 64"
  shows "sorted_wrt (<) (hlc_current s # fst (ticks ws s))"
  using assms
proof (induction ws arbitrary: s)
  case (Cons w ws)
  let ?s' = "snd (tick w s)"
  have "last_counter s \<noteq> u64_MAX"
    using Cons.prems by (simp add: u64_less_MAX_iff)
  then have lt: "hlc_current s < fst (tick w s)" by (rule tick_increases)
  have "unat (last_counter ?s') + length ws < 2 ^ 64"
    using tick_counter [of w s] Cons.prems by simp
  note ih = Cons.IH [OF this]
  with lt show ?case
    by (auto simp: tick_state split_beta Let_def)
qed simp

lemma ticks_ge_walls: "list_all2 (\<lambda>w h. w \<le> hlc_timestamp_ms h) ws (fst (ticks ws s))"
  using tick_ge_wall by (induction ws arbitrary: s) (auto simp: split_beta Let_def)

text \<open>C36. Local events on a node: the timestamps returned by a run of ticks strictly increase,
  starting above the node's current clock, and none is behind the wall clock read by its call,
  whatever the wall clock does (it may stand still or go back).\<close>

theorem ticks_strictly_increasing:
  assumes "unat (last_counter s) + length ws < 2 ^ 64"
  shows "sorted_wrt (<) (hlc_current s # fst (ticks ws s)) \<and>
     list_all2 (\<lambda>w h. w \<le> hlc_timestamp_ms h) ws (fst (ticks ws s))"
  using ticks_increasing [OF assms] ticks_ge_walls by blast

theorem ticks_strictly_increasing_witness:
  "sorted_wrt (<) (hlc_current (node_hlc_new 10 ''n1'') # fst (ticks [10, 9, 12, 12] (node_hlc_new 10 ''n1'')))"
  using ticks_strictly_increasing [of "node_hlc_new 10 ''n1''" "[10, 9, 12, 12]"]
  by (simp add: node_hlc_new_def)

text \<open>Receiving a remote timestamp: the timestamp returned by \<open>update\<close> is greater than the
  remote one, not behind the wall clock, and becomes the current clock of the node; it is also
  greater than the previous local clock unless both clocks have the same millisecond and the
  local counter is the larger one.\<close>

theorem update_advances_clock:
  assumes "hlc_counter r \<noteq> u64_MAX" and "last_counter s \<noteq> u64_MAX"
  shows "let h = fst (fst (hlc_update r w s)) in
     r < h \<and> w \<le> hlc_timestamp_ms h \<and> hlc_current (snd (hlc_update r w s)) = h \<and>
     (hlc_current s < h \<or>
       (hlc_timestamp_ms r = last_timestamp s \<and> hlc_counter r < last_counter s))"
proof -
  have "w \<le> hlc_timestamp_ms (fst (fst (hlc_update r w s)))"
    by (auto simp: hlc_update_def update_next_def Let_def max_def)
  with assms show ?thesis
    using update_gt_remote [of r w s] update_increases [of s r w] update_state [of r w s]
    by (force simp: Let_def not_le)
qed

theorem update_advances_clock_witness:
  "fst (fst (hlc_update (hlc_new 20 7) 10 (node_hlc_new 10 ''n1''))) = hlc_new 20 8 \<and>
   hlc_new 20 7 < fst (fst (hlc_update (hlc_new 20 7) 10 (node_hlc_new 10 ''n1'')))"
  using update_advances_clock [of "hlc_new 20 7" "node_hlc_new 10 ''n1''" "10 :: u64"]
  by (simp add: node_hlc_new_def hlc_update_def update_next_def Let_def)

text \<open>The exception for \<open>update\<close> is real: a node at (100, 50) that receives (100, 3) while its wall
  clock has not passed 100 steps back to (100, 4), so the timestamps it returns next repeat
  ones it has already handed out.\<close>

theorem update_can_step_back:
  "let s = node_hlc_with_initial ''n1'' (hlc_new 100 50);
       (hw, s') = hlc_update (hlc_new 100 3) 100 s
   in fst hw = hlc_new 100 4 \<and> hlc_current s' < hlc_current s"
  by (simp add: node_hlc_with_initial_def hlc_update_def update_next_def hlc_current_def
      hlc_less_iff Let_def)

section \<open>Threads\<close>

text \<open>
  A thread is inside one call of \<open>tick\<close> or \<open>update\<close>, at one of the atomic accesses of the loop:
  before the load of the timestamp (\<open>LoadTs\<close>, the wall clock is read), before the load of the
  counter (\<open>LoadCnt\<close>), before the first compare-and-swap (\<open>CasTs\<close>) or before the second
  (\<open>CasCnt\<close>). \<open>handed_out\<close> lists what the calls returned, the latest first.
\<close>

datatype hlc_call = CallTick | CallUpdate hlc

fun call_next :: "hlc_call \<Rightarrow> u64 \<Rightarrow> u64 \<Rightarrow> u64 \<Rightarrow> u64 \<times> u64" where
  "call_next CallTick wall_clock last_ts last_cnt = tick_next wall_clock last_ts last_cnt"
| "call_next (CallUpdate remote) wall_clock last_ts last_cnt =
     update_next remote wall_clock last_ts last_cnt"

datatype hlc_pc =
    IdlePc
  | LoadTs hlc_call
  | LoadCnt hlc_call u64 u64
  | CasTs hlc_call u64 u64 u64 u64
  | CasCnt hlc_call u64 u64 u64 u64

record hlc_system =
  cell_ts :: u64
  cell_cnt :: u64
  pcs :: "nat \<Rightarrow> hlc_pc"
  handed_out :: "hlc list"

inductive hlc_step :: "hlc_system \<Rightarrow> hlc_system \<Rightarrow> bool" where
  call: "pcs s i = IdlePc \<Longrightarrow> hlc_step s (s\<lparr>pcs := (pcs s)(i := LoadTs c)\<rparr>)"
| load_ts: "pcs s i = LoadTs c \<Longrightarrow>
    hlc_step s (s\<lparr>pcs := (pcs s)(i := LoadCnt c wall_clock (cell_ts s))\<rparr>)"
| load_cnt: "pcs s i = LoadCnt c wall_clock last_ts \<Longrightarrow>
    call_next c wall_clock last_ts (cell_cnt s) = (new_ts, new_cnt) \<Longrightarrow>
    hlc_step s (s\<lparr>pcs := (pcs s)(i := CasTs c last_ts (cell_cnt s) new_ts new_cnt)\<rparr>)"
| cas_ts_ok: "pcs s i = CasTs c last_ts last_cnt new_ts new_cnt \<Longrightarrow> cell_ts s = last_ts \<Longrightarrow>
    hlc_step s (s\<lparr>cell_ts := new_ts, pcs := (pcs s)(i := CasCnt c last_ts last_cnt new_ts new_cnt)\<rparr>)"
| cas_ts_fail: "pcs s i = CasTs c last_ts last_cnt new_ts new_cnt \<Longrightarrow> cell_ts s \<noteq> last_ts \<Longrightarrow>
    hlc_step s (s\<lparr>pcs := (pcs s)(i := LoadTs c)\<rparr>)"
| cas_cnt_ok: "pcs s i = CasCnt c last_ts last_cnt new_ts new_cnt \<Longrightarrow> cell_cnt s = last_cnt \<Longrightarrow>
    hlc_step s (s\<lparr>cell_cnt := new_cnt, pcs := (pcs s)(i := IdlePc),
                 handed_out := hlc_new new_ts new_cnt # handed_out s\<rparr>)"
| cas_cnt_fail: "pcs s i = CasCnt c last_ts last_cnt new_ts new_cnt \<Longrightarrow> cell_cnt s \<noteq> last_cnt \<Longrightarrow>
    hlc_step s (s\<lparr>pcs := (pcs s)(i := LoadTs c)\<rparr>)"

definition hlc_system_init :: "node_hlc_state \<Rightarrow> hlc_system" where
  "hlc_system_init s = \<lparr>cell_ts = last_timestamp s, cell_cnt = last_counter s,
     pcs = (\<lambda>_. IdlePc), handed_out = []\<rparr>"

abbreviation hlc_steps :: "hlc_system \<Rightarrow> hlc_system \<Rightarrow> bool" where
  "hlc_steps \<equiv> hlc_step\<^sup>*\<^sup>*"

inductive_cases hlc_stepE: "hlc_step s s'"

fun pc_ok :: "u64 \<Rightarrow> hlc_pc \<Rightarrow> bool" where
  "pc_ok ts IdlePc = True"
| "pc_ok ts (LoadTs c) = True"
| "pc_ok ts (LoadCnt c wall_clock last_ts) = (last_ts \<le> ts)"
| "pc_ok ts (CasTs c last_ts last_cnt new_ts new_cnt) = (last_ts \<le> ts \<and> last_ts \<le> new_ts)"
| "pc_ok ts (CasCnt c last_ts last_cnt new_ts new_cnt) = (new_ts \<le> ts)"

definition hlc_system_inv :: "hlc_system \<Rightarrow> bool" where
  "hlc_system_inv s \<longleftrightarrow> (\<forall>i. pc_ok (cell_ts s) (pcs s i)) \<and>
     (\<forall>h \<in> set (handed_out s). hlc_timestamp_ms h \<le> cell_ts s)"

lemma call_next_ge: "call_next c w ts cnt = (ts', cnt') \<Longrightarrow> ts \<le> ts'"
  by (cases c) (auto simp: tick_next_def update_next_def Let_def max_def split: if_splits)

lemma pc_ok_mono: "pc_ok ts pc \<Longrightarrow> ts \<le> ts' \<Longrightarrow> pc_ok ts' pc"
  by (cases pc) auto

lemma hlc_step_ts_mono: "hlc_step s s' \<Longrightarrow> hlc_system_inv s \<Longrightarrow> cell_ts s \<le> cell_ts s'"
proof (induction rule: hlc_step.induct)
  case (cas_ts_ok s i c last_ts last_cnt new_ts new_cnt)
  then have "pc_ok (cell_ts s) (CasTs c last_ts last_cnt new_ts new_cnt)"
    unfolding hlc_system_inv_def by metis
  with cas_ts_ok show ?case by simp
qed auto

lemma hlc_step_pc_ok:
  assumes "hlc_step s s'" and "hlc_system_inv s"
  shows "pc_ok (cell_ts s') (pcs s' i)"
  using assms
proof (induction rule: hlc_step.induct)
  case (load_cnt s j c wall_clock last_ts new_ts new_cnt)
  then have "pc_ok (cell_ts s) (LoadCnt c wall_clock last_ts)"
    unfolding hlc_system_inv_def by metis
  with load_cnt show ?case by (auto simp: hlc_system_inv_def dest: call_next_ge)
next
  case (cas_ts_ok s j c last_ts last_cnt new_ts new_cnt)
  then have "pc_ok (cell_ts s) (CasTs c last_ts last_cnt new_ts new_cnt)"
    unfolding hlc_system_inv_def by metis
  with cas_ts_ok show ?case by (auto simp: hlc_system_inv_def intro: pc_ok_mono)
qed (auto simp: hlc_system_inv_def)

lemma hlc_step_handed_out:
  assumes "hlc_step s s'" and "hlc_system_inv s" and "h \<in> set (handed_out s')"
  shows "hlc_timestamp_ms h \<le> cell_ts s'"
  using assms
proof (induction rule: hlc_step.induct)
  case (cas_ts_ok s j c last_ts last_cnt new_ts new_cnt)
  then have "pc_ok (cell_ts s) (CasTs c last_ts last_cnt new_ts new_cnt)"
    unfolding hlc_system_inv_def by metis
  with cas_ts_ok show ?case by (auto simp: hlc_system_inv_def intro: order_trans)
next
  case (cas_cnt_ok s j c last_ts last_cnt new_ts new_cnt)
  then have "pc_ok (cell_ts s) (CasCnt c last_ts last_cnt new_ts new_cnt)"
    unfolding hlc_system_inv_def by metis
  with cas_cnt_ok show ?case by (auto simp: hlc_system_inv_def)
qed (auto simp: hlc_system_inv_def)

lemma hlc_step_inv: "hlc_step s s' \<Longrightarrow> hlc_system_inv s \<Longrightarrow> hlc_system_inv s'"
  using hlc_step_pc_ok hlc_step_handed_out unfolding hlc_system_inv_def [of s'] by blast

lemma hlc_steps_inv:
  "hlc_steps s s' \<Longrightarrow> hlc_system_inv s \<Longrightarrow> hlc_system_inv s' \<and> cell_ts s \<le> cell_ts s'"
  by (induction rule: rtranclp_induct) (auto intro: hlc_step_inv order_trans dest: hlc_step_ts_mono)

lemma hlc_system_init_inv: "hlc_system_inv (hlc_system_init s)"
  by (simp add: hlc_system_inv_def hlc_system_init_def)

text \<open>
  The step of one thread as a function of the scheduler's choices: which thread moves, which
  call it starts if it is idle, and what the wall clock shows if it reads it.
\<close>

fun thread_step :: "nat \<times> hlc_call \<times> u64 \<Rightarrow> hlc_system \<Rightarrow> hlc_system" where
  "thread_step (i, c, w) s =
     (case pcs s i of
        IdlePc \<Rightarrow> s\<lparr>pcs := (pcs s)(i := LoadTs c)\<rparr>
      | LoadTs d \<Rightarrow> s\<lparr>pcs := (pcs s)(i := LoadCnt d w (cell_ts s))\<rparr>
      | LoadCnt d v ts \<Rightarrow>
          (let (ts', cnt') = call_next d v ts (cell_cnt s)
           in s\<lparr>pcs := (pcs s)(i := CasTs d ts (cell_cnt s) ts' cnt')\<rparr>)
      | CasTs d ts cnt ts' cnt' \<Rightarrow>
          (if cell_ts s = ts
           then s\<lparr>cell_ts := ts', pcs := (pcs s)(i := CasCnt d ts cnt ts' cnt')\<rparr>
           else s\<lparr>pcs := (pcs s)(i := LoadTs d)\<rparr>)
      | CasCnt d ts cnt ts' cnt' \<Rightarrow>
          (if cell_cnt s = cnt
           then s\<lparr>cell_cnt := cnt', pcs := (pcs s)(i := IdlePc),
                  handed_out := hlc_new ts' cnt' # handed_out s\<rparr>
           else s\<lparr>pcs := (pcs s)(i := LoadTs d)\<rparr>))"

lemma thread_step_hlc_step: "hlc_step s (thread_step (i, c, w) s)"
  by (auto intro: hlc_step.intros split: hlc_pc.splits prod.splits simp: Let_def)

lemma hlc_step_iff: "hlc_step s s' \<longleftrightarrow> (\<exists>i c w. s' = thread_step (i, c, w) s)"
proof
  assume "hlc_step s s'"
  then show "\<exists>i c w. s' = thread_step (i, c, w) s"
  proof cases
    case (call i c)
    then have "s' = thread_step (i, c, 0) s" by simp
    then show ?thesis by blast
  next
    case (load_ts i c w)
    then have "s' = thread_step (i, CallTick, w) s" by simp
    then show ?thesis by blast
  next
    case (load_cnt i)
    then have "s' = thread_step (i, CallTick, 0) s" by simp
    then show ?thesis by blast
  next
    case (cas_ts_ok i)
    then have "s' = thread_step (i, CallTick, 0) s" by simp
    then show ?thesis by blast
  next
    case (cas_ts_fail i)
    then have "s' = thread_step (i, CallTick, 0) s" by simp
    then show ?thesis by blast
  next
    case (cas_cnt_ok i)
    then have "s' = thread_step (i, CallTick, 0) s" by simp
    then show ?thesis by blast
  next
    case (cas_cnt_fail i)
    then have "s' = thread_step (i, CallTick, 0) s" by simp
    then show ?thesis by blast
  qed
qed (auto intro: thread_step_hlc_step simp del: thread_step.simps)

definition run_schedule :: "(nat \<times> hlc_call \<times> u64) list \<Rightarrow> hlc_system \<Rightarrow> hlc_system" where
  "run_schedule xs s = fold thread_step xs s"

lemma run_schedule_steps: "hlc_steps s (run_schedule xs s)"
proof (induction xs arbitrary: s)
  case (Cons x xs)
  obtain i c w where "x = (i, c, w)" by (cases x) auto
  with Cons thread_step_hlc_step [of s i c w] show ?case
    by (auto simp: run_schedule_def simp del: thread_step.simps intro: converse_rtranclp_into_rtranclp)
qed (simp add: run_schedule_def)

lemma replicate_accesses: "replicate 4 x = [x, x, x, x]" "replicate 5 x = [x, x, x, x, x]"
  by (simp_all add: numeral_eq_Suc)

text \<open>Under every interleaving of any number of concurrent calls, the stored timestamp
  never goes back, and no returned timestamp is ahead of it in milliseconds.\<close>

theorem concurrent_timestamp_monotone:
  assumes "hlc_steps (hlc_system_init n) s" and "hlc_steps s s'"
  shows "cell_ts s \<le> cell_ts s' \<and> (\<forall>h \<in> set (handed_out s'). hlc_timestamp_ms h \<le> cell_ts s')"
  using hlc_steps_inv [OF assms(1) hlc_system_init_inv] hlc_steps_inv [OF assms(2)]
  by (auto simp: hlc_system_inv_def)

theorem concurrent_timestamp_monotone_witness:
  "\<exists>s :: hlc_system. handed_out s = [hlc_new 9 0] \<and> hlc_timestamp_ms (hlc_new 9 0) \<le> cell_ts s"
proof -
  let ?s = "hlc_system_init (node_hlc_new 5 ''n1'')"
  let ?t = "run_schedule (replicate 5 (0, CallTick, 9)) ?s"
  have "handed_out ?t = [hlc_new 9 0]"
    by (simp add: run_schedule_def hlc_system_init_def node_hlc_new_def tick_next_def replicate_accesses)
  with concurrent_timestamp_monotone [OF rtranclp.rtrancl_refl run_schedule_steps,
      of "node_hlc_new 5 ''n1''" "replicate 5 (0, CallTick, 9)"]
  show ?thesis by (intro exI [of _ ?t]) simp
qed



text \<open>Two calls of \<open>tick\<close> on one node can return the same timestamp: the two atomics are
  exchanged one after the other, and a thread whose first exchange left the timestamp
  unchanged can still complete its second one after the clock has moved on and the counter has come
  back to the value it read.\<close>

theorem concurrent_ticks_can_collide:
  "\<exists>s. hlc_steps (hlc_system_init (node_hlc_new 5 ''n1'')) s \<and>
       handed_out s = [hlc_new 5 1, hlc_new 9 0, hlc_new 5 1]"
proof -
  let ?x = "\<lambda>i w. (i :: nat, CallTick, w :: u64)"
  let ?sched = "replicate 4 (?x 0 5) @ replicate 5 (?x 1 5) @ replicate 5 (?x 2 9) @ [?x 0 5]"
  let ?s = "hlc_system_init (node_hlc_new 5 ''n1'')"
  have "handed_out (run_schedule ?sched ?s) = [hlc_new 5 1, hlc_new 9 0, hlc_new 5 1]"
    by (simp add: run_schedule_def hlc_system_init_def node_hlc_new_def tick_next_def replicate_accesses)
  then show ?thesis using run_schedule_steps by blast
qed

end
