(* ===== verification/Vector_Clock.thy ===== *)
theory Vector_Clock
  imports Raisin_Prelude
begin

text \<open>
  \<open>raisin-replication/src/vector_clock.rs\<close>: vector clocks. A clock is the \<open>HashMap\<close> of the code, an
  association list from cluster node ids to counters; an absent node counts as 0. The loops over
  a map (\<open>merge\<close>, \<open>compare\<close>, \<open>distance\<close>) are folds over its entries.

  The lemmas are about the counters: \<open>compare\<close> is the pointwise comparison of all counters,
  \<open>happens_before\<close> is a strict partial order, \<open>merge\<close> is the least upper bound, and
  \<open>increment\<close> moves a clock strictly forward. What the clients of the clock
  (causal delivery, the merge rules) use is the locale \<open>clock_lattice\<close>.
\<close>

section \<open>Operations\<close>

type_synonym vector_clock = "(string, u64) hash_map"

datatype clock_ordering = Before | After | Concurrent | EqualClocks

definition vc_new :: vector_clock where
  "vc_new = []"

definition vc_with_initial :: "string \<Rightarrow> u64 \<Rightarrow> vector_clock" where
  "vc_with_initial cluster_node_id counter = [(cluster_node_id, counter)]"

definition vc_get :: "vector_clock \<Rightarrow> string \<Rightarrow> u64" where
  "vc_get vc cluster_node_id = (case hm_get vc cluster_node_id of None \<Rightarrow> 0 | Some c \<Rightarrow> c)"

text \<open>\<open>entry(id).or_insert(0)\<close> followed by an assignment through the entry is one insertion.\<close>

definition vc_increment :: "string \<Rightarrow> vector_clock \<Rightarrow> u64 \<times> vector_clock" where
  "vc_increment cluster_node_id vc =
     (let counter = vc_get vc cluster_node_id + 1
      in (counter, hm_insert cluster_node_id counter vc))"

definition vc_set :: "string \<Rightarrow> u64 \<Rightarrow> vector_clock \<Rightarrow> vector_clock" where
  "vc_set cluster_node_id counter vc =
     (if counter > 0 then hm_insert cluster_node_id counter vc
      else hm_remove cluster_node_id vc)"

definition vc_merge :: "vector_clock \<Rightarrow> vector_clock \<Rightarrow> vector_clock" where
  "vc_merge vc other =
     foldl (\<lambda>acc (cluster_node_id, other_counter).
              hm_insert cluster_node_id (max (vc_get acc cluster_node_id) other_counter) acc)
       vc other"

definition vc_merged :: "vector_clock \<Rightarrow> vector_clock \<Rightarrow> vector_clock" where
  "vc_merged vc other = vc_merge vc other"

definition vc_compare_flags :: "vector_clock \<Rightarrow> vector_clock \<Rightarrow> bool \<times> bool" where
  "vc_compare_flags vc other =
     foldl (\<lambda>(any_less, any_greater) cluster_node_id.
              (case cmp_of (vc_get vc cluster_node_id) (vc_get other cluster_node_id) of
                 Less \<Rightarrow> (True, any_greater)
               | Greater \<Rightarrow> (any_less, True)
               | Equal \<Rightarrow> (any_less, any_greater)))
       (False, False) (remdups (hm_keys vc @ hm_keys other))"

definition vc_compare :: "vector_clock \<Rightarrow> vector_clock \<Rightarrow> clock_ordering" where
  "vc_compare vc other =
     (case vc_compare_flags vc other of
        (False, False) \<Rightarrow> EqualClocks
      | (True, False) \<Rightarrow> Before
      | (False, True) \<Rightarrow> After
      | (True, True) \<Rightarrow> Concurrent)"

definition happens_before :: "vector_clock \<Rightarrow> vector_clock \<Rightarrow> bool" where
  "happens_before vc other \<longleftrightarrow> vc_compare vc other = Before"

definition happens_after :: "vector_clock \<Rightarrow> vector_clock \<Rightarrow> bool" where
  "happens_after vc other \<longleftrightarrow> vc_compare vc other = After"

definition concurrent_with :: "vector_clock \<Rightarrow> vector_clock \<Rightarrow> bool" where
  "concurrent_with vc other \<longleftrightarrow> vc_compare vc other = Concurrent"

definition vc_distance :: "vector_clock \<Rightarrow> vector_clock \<Rightarrow> u64" where
  "vc_distance vc other =
     foldl (\<lambda>total_distance (cluster_node_id, other_val).
              if other_val > vc_get vc cluster_node_id
              then total_distance + (other_val - vc_get vc cluster_node_id) else total_distance)
       0 other"

definition vc_node_ids :: "vector_clock \<Rightarrow> string list" where
  "vc_node_ids vc = hm_keys vc"

definition vc_len :: "vector_clock \<Rightarrow> nat" where
  "vc_len vc = length vc"

definition vc_is_empty :: "vector_clock \<Rightarrow> bool" where
  "vc_is_empty vc \<longleftrightarrow> vc = []"

definition vc_to_watermarks :: "vector_clock \<Rightarrow> (string, u64) hash_map" where
  "vc_to_watermarks vc = vc"

section \<open>Counters\<close>

abbreviation vc_wf :: "vector_clock \<Rightarrow> bool" where
  "vc_wf \<equiv> hm_wf"

definition vc_le :: "vector_clock \<Rightarrow> vector_clock \<Rightarrow> bool" where
  "vc_le a b \<longleftrightarrow> (\<forall>n. vc_get a n \<le> vc_get b n)"

definition vc_equiv :: "vector_clock \<Rightarrow> vector_clock \<Rightarrow> bool" where
  "vc_equiv a b \<longleftrightarrow> (\<forall>n. vc_get a n = vc_get b n)"

named_theorems vc_simps "the counters of a clock after an operation"

lemma vc_get_insert [vc_simps]:
  "vc_get (hm_insert k c vc) n = (if n = k then c else vc_get vc n)"
  by (simp add: vc_get_def hm_simps)

lemma vc_get_new [vc_simps]: "vc_get vc_new n = 0"
  by (simp add: vc_get_def vc_new_def)

lemma vc_get_with_initial [vc_simps]: "vc_get (vc_with_initial k c) n = (if n = k then c else 0)"
  by (simp add: vc_get_def vc_with_initial_def)

lemma vc_get_increment [vc_simps]:
  "vc_get (snd (vc_increment k vc)) n = (if n = k then vc_get vc k + 1 else vc_get vc n)"
  by (simp add: vc_increment_def Let_def vc_simps)

lemma vc_get_set [vc_simps]: "vc_get (vc_set k c vc) n = (if n = k then c else vc_get vc n)"
  by (auto simp: vc_set_def vc_get_def hm_simps word_gt_0)

lemma vc_get_notin: "n \<notin> set (hm_keys vc) \<Longrightarrow> vc_get vc n = 0"
  unfolding vc_get_def by (metis list.set_map map_of_eq_None_iff option.case(1))

lemma vc_merge_Nil [simp]: "vc_merge vc [] = vc"
  and vc_merge_Cons: "vc_merge vc ((k, c) # other) =
    vc_merge (hm_insert k (max (vc_get vc k) c) vc) other"
  by (simp_all add: vc_merge_def)

lemma vc_get_Cons [vc_simps]: "vc_get ((k, c) # vc) n = (if n = k then c else vc_get vc n)"
  by (simp add: vc_get_def)

lemma vc_get_merge [vc_simps]:
  "vc_wf other \<Longrightarrow> vc_get (vc_merge vc other) n = max (vc_get vc n) (vc_get other n)"
proof (induction other arbitrary: vc)
  case Nil
  then show ?case by (simp add: vc_get_def)
next
  case (Cons kc other)
  obtain k c where kc: "kc = (k, c)" by (cases kc)
  have "vc_get other k = 0" using Cons.prems kc by (auto intro: vc_get_notin)
  with Cons kc show ?case by (auto simp: vc_merge_Cons vc_simps)
qed

lemma vc_wf_merge [simp]: "vc_wf vc \<Longrightarrow> vc_wf (vc_merge vc other)"
  by (induction other arbitrary: vc) (auto simp: vc_merge_Cons)

lemma vc_wf_ops [simp]:
  "vc_wf vc_new" "vc_wf (vc_with_initial k c)"
  "vc_wf vc \<Longrightarrow> vc_wf (snd (vc_increment k vc))" "vc_wf vc \<Longrightarrow> vc_wf (vc_set k c vc)"
  by (auto simp: vc_new_def vc_with_initial_def vc_increment_def vc_set_def Let_def)

section \<open>Comparison\<close>

lemma compare_flags_fold:
  "foldl (\<lambda>(l, g) n. (case cmp_of (f n) (h n) of Less \<Rightarrow> (True, g) | Greater \<Rightarrow> (l, True) | Equal \<Rightarrow> (l, g)))
     (l, g) ns = (l \<or> (\<exists>n \<in> set ns. f n < h n), g \<or> (\<exists>n \<in> set ns. h n < f n))"
  for f h :: "string \<Rightarrow> u64"
  by (induction ns arbitrary: l g) (auto simp: cmp_simps split: rust_ordering.splits)

lemma vc_equiv_le: "vc_equiv a b \<longleftrightarrow> vc_le a b \<and> vc_le b a"
  by (auto simp: vc_equiv_def vc_le_def intro: order_antisym)

lemma vc_less_key: "vc_get a n < vc_get b n \<Longrightarrow> n \<in> set (hm_keys b)"
  using vc_get_notin [of n b] by (metis word_not_simps(1))

lemma vc_compare_flags_iff: "vc_compare_flags a b = (\<not> vc_le b a, \<not> vc_le a b)"
proof -
  have "(\<exists>n \<in> set (remdups (hm_keys a @ hm_keys b)). vc_get a n < vc_get b n) \<longleftrightarrow> \<not> vc_le b a"
    unfolding vc_le_def not_all not_le set_remdups set_append using vc_less_key by blast
  moreover have "(\<exists>n \<in> set (remdups (hm_keys a @ hm_keys b)). vc_get b n < vc_get a n) \<longleftrightarrow> \<not> vc_le a b"
    unfolding vc_le_def not_all not_le set_remdups set_append using vc_less_key by blast
  ultimately show ?thesis
    unfolding vc_compare_flags_def compare_flags_fold by simp
qed

lemma vc_compare_iff:
  "vc_compare a b = EqualClocks \<longleftrightarrow> vc_equiv a b"
  "vc_compare a b = Before \<longleftrightarrow> vc_le a b \<and> \<not> vc_equiv a b"
  "vc_compare a b = After \<longleftrightarrow> vc_le b a \<and> \<not> vc_equiv a b"
  "vc_compare a b = Concurrent \<longleftrightarrow> \<not> vc_le a b \<and> \<not> vc_le b a"
  unfolding vc_compare_def vc_compare_flags_iff vc_equiv_le
  by (cases "vc_le a b"; cases "vc_le b a"; simp)+

lemmas causality_iff = happens_before_def happens_after_def concurrent_with_def vc_compare_iff

lemma vc_le_refl [simp]: "vc_le a a"
  by (simp add: vc_le_def)

lemma vc_le_trans: "vc_le a b \<Longrightarrow> vc_le b c \<Longrightarrow> vc_le a c"
  by (auto simp: vc_le_def intro: order_trans)

lemma happens_before_iff: "happens_before a b \<longleftrightarrow> vc_le a b \<and> \<not> vc_le b a"
  by (auto simp: causality_iff vc_equiv_le)

text \<open>
  The contract of the clocks: a preorder on well-formed clocks with a join. \<open>le\<close> is what
  \<open>compare\<close> decides; equality of clocks is only up to \<open>le\<close> in both directions, because a stored
  counter 0 and an absent one cannot be told apart by \<open>get\<close>.
\<close>

locale clock_lattice =
  fixes le :: "'c \<Rightarrow> 'c \<Rightarrow> bool"
    and merge :: "'c \<Rightarrow> 'c \<Rightarrow> 'c"
    and wf :: "'c \<Rightarrow> bool"
  assumes le_refl: "wf a \<Longrightarrow> le a a"
    and le_trans: "\<lbrakk>wf a; wf b; wf c; le a b; le b c\<rbrakk> \<Longrightarrow> le a c"
    and wf_merge: "\<lbrakk>wf a; wf b\<rbrakk> \<Longrightarrow> wf (merge a b)"
    and merge_upper: "\<lbrakk>wf a; wf b\<rbrakk> \<Longrightarrow> le a (merge a b) \<and> le b (merge a b)"
    and merge_least: "\<lbrakk>wf a; wf b; wf c; le a c; le b c\<rbrakk> \<Longrightarrow> le (merge a b) c"
begin

lemma merge_mono:
  assumes "wf a" "wf b" "wf a'" "wf b'" "le a a'" "le b b'"
  shows "le (merge a b) (merge a' b')"
proof (rule merge_least)
  show "le a (merge a' b')"
    using assms merge_upper [of a' b'] wf_merge [of a' b'] le_trans [of a a' "merge a' b'"] by blast
  show "le b (merge a' b')"
    using assms merge_upper [of a' b'] wf_merge [of a' b'] le_trans [of b b' "merge a' b'"] by blast
qed (use assms wf_merge in auto)

lemma merge_idem: "wf a \<Longrightarrow> le (merge a a) a \<and> le a (merge a a)"
  using merge_upper merge_least le_refl by blast

lemma merge_comm: "\<lbrakk>wf a; wf b\<rbrakk> \<Longrightarrow> le (merge a b) (merge b a) \<and> le (merge b a) (merge a b)"
  using merge_upper merge_least wf_merge by blast

lemma merge_assoc:
  assumes "wf a" "wf b" "wf c"
  shows "le (merge (merge a b) c) (merge a (merge b c)) \<and> le (merge a (merge b c)) (merge (merge a b) c)"
proof -
  note wfs = assms wf_merge [OF assms(1,2)] wf_merge [OF assms(2,3)]
  let ?l = "merge (merge a b) c" and ?r = "merge a (merge b c)"
  have wf_lr: "wf ?l" "wf ?r" using wfs wf_merge by auto
  have l: "le a ?l" "le b ?l" "le c ?l"
    using wfs wf_lr merge_upper [of a b] merge_upper [of "merge a b" c] le_trans by blast+
  have r: "le a ?r" "le b ?r" "le c ?r"
    using wfs wf_lr merge_upper [of b c] merge_upper [of a "merge b c"] le_trans by blast+
  from l r show ?thesis
    using wfs wf_lr merge_least by meson
qed

end

interpretation vc_lattice: clock_lattice vc_le vc_merge vc_wf
proof
  show "vc_le a c" if "vc_le a b" "vc_le b c" for a b c
    using that by (rule vc_le_trans)
qed (auto simp: vc_le_def vc_simps)

section \<open>Properties\<close>

text \<open>\<open>compare\<close> decides the causal order of two clocks counter by counter: it answers
  Equal when all counters agree, Before and After when one clock is pointwise below the other
  and they differ, Concurrent when each is ahead somewhere. A node absent from a clock counts as
  0, whichever of the two maps mentions it.\<close>

theorem vc_compare_pointwise:
  "vc_compare a b =
     (if \<forall>n. vc_get a n = vc_get b n then EqualClocks
      else if \<forall>n. vc_get a n \<le> vc_get b n then Before
      else if \<forall>n. vc_get b n \<le> vc_get a n then After else Concurrent)"
  using vc_compare_iff [of a b] unfolding vc_le_def [symmetric] vc_equiv_def [symmetric] by auto

text \<open>\<open>happens_before\<close> is a strict partial order, \<open>happens_after\<close> is its converse, and exactly one of
  before, after, concurrent and equal holds of two clocks.\<close>

theorem happens_before_strict_order:
  "\<not> happens_before a a \<and>
   (happens_before a b \<and> happens_before b c \<longrightarrow> happens_before a c) \<and>
   (happens_after a b \<longleftrightarrow> happens_before b a) \<and>
   (concurrent_with a b \<longleftrightarrow>
      \<not> happens_before a b \<and> \<not> happens_before b a \<and> vc_compare a b \<noteq> EqualClocks)"
proof -
  have "happens_before a b \<and> happens_before b c \<longrightarrow> happens_before a c"
    using vc_le_trans unfolding happens_before_iff by blast
  then show ?thesis by (auto simp: causality_iff vc_equiv_le)
qed

theorem happens_before_strict_order_witness:
  "happens_before [(''a'', 1)] [(''a'', 2)] \<and> happens_before [(''a'', 2)] [(''b'', 1), (''a'', 2)] \<and>
   happens_before [(''a'', 1)] [(''b'', 1), (''a'', 2)]"
proof -
  have "happens_before [(''a'', 1)] [(''a'', 2)]" "happens_before [(''a'', 2)] [(''b'', 1), (''a'', 2)]"
    by (simp_all add: happens_before_def vc_compare_def vc_compare_flags_def vc_get_def cmp_of_def)
  then show ?thesis using happens_before_strict_order by blast
qed

text \<open>\<open>merge\<close> is the least upper bound: the merged clock is above both, below every
  clock above both, and up to the counters it is commutative, associative and idempotent, so
  replicas that merge the same clocks in any order agree.\<close>

theorem vc_merge_least_upper_bound:
  assumes "vc_wf a" and "vc_wf b" and "vc_wf c"
  shows "(\<forall>n. vc_get (vc_merge a b) n = max (vc_get a n) (vc_get b n)) \<and>
     (vc_le (vc_merge a b) c \<longleftrightarrow> vc_le a c \<and> vc_le b c) \<and>
     vc_equiv (vc_merge a a) a \<and> vc_equiv (vc_merge a b) (vc_merge b a) \<and>
     vc_equiv (vc_merge (vc_merge a b) c) (vc_merge a (vc_merge b c))"
proof (intro conjI allI)
  show "vc_le (vc_merge a b) c \<longleftrightarrow> vc_le a c \<and> vc_le b c"
    using assms vc_lattice.merge_least [of a b c] vc_lattice.merge_upper [of a b] vc_le_trans by blast
qed (use assms vc_lattice.merge_idem vc_lattice.merge_comm vc_lattice.merge_assoc
     in \<open>auto simp: vc_simps vc_equiv_le\<close>)

theorem vc_merge_least_upper_bound_witness:
  "vc_get (vc_merge [(''a'', 3)] [(''b'', 2), (''a'', 1)]) ''a'' = 3"
  using vc_merge_least_upper_bound [of "[(''a'', 3)]" "[(''b'', 2), (''a'', 1)]" "[]"]
  by (simp add: vc_get_def)

text \<open>A local event moves the clock of its node strictly forward: \<open>increment\<close> returns the
  new counter, the old clock happened before the new one, and no other node's counter changes.\<close>

theorem vc_increment_advances:
  assumes "vc_get vc k \<noteq> u64_MAX"
  shows "let (c, vc') = vc_increment k vc in
     c = vc_get vc' k \<and> unat c = Suc (unat (vc_get vc k)) \<and> happens_before vc vc' \<and>
     (\<forall>n. n \<noteq> k \<longrightarrow> vc_get vc' n = vc_get vc n)"
proof -
  let ?vc' = "snd (vc_increment k vc)"
  have lt: "vc_get vc k < vc_get ?vc' k"
    using u64_less_Suc [OF assms] by (simp add: vc_simps)
  then have "vc_le vc ?vc'" "\<not> vc_le ?vc' vc"
    by (auto simp: vc_le_def vc_simps not_le)
  then have "happens_before vc ?vc'" by (simp add: happens_before_iff)
  with unat_u64_Suc [OF assms] show ?thesis
    by (auto simp: split_beta Let_def vc_simps vc_increment_def)
qed

theorem vc_increment_advances_witness:
  "happens_before [(''a'', 3)] (snd (vc_increment ''b'' [(''a'', 3)]))"
  using vc_increment_advances [of "[(''a'', 3)]" "''b''"] by (simp add: vc_get_def split_beta Let_def)

end
