(* ===== verification/Operation.thy ===== *)
theory Operation
  imports Hlc Vector_Clock
begin

text \<open>
  \<open>raisin-replication/src/operation\<close>: the replicated operations. \<open>operation\<close> is the struct
  \<open>Operation\<close>, \<open>op_type\<close> the enum \<open>OpType\<close> with all its variants.

  The documents an operation carries and the replication layer never looks into (schemas,
  workspaces, users, tenants, sessions, property values, an undecodable payload) are the type
  parameter \<open>'p\<close>. Of a node, a branch and a revision meta the code reads one
  field, which is a field of the record here, next to the rest of the document. The text form of a
  \<open>Uuid\<close> belongs to the \<open>uuid\<close> crate: the operations that print one take the printer \<open>uuid_str\<close> as an
  argument. The current time and a fresh \<open>Uuid\<close> are arguments too.
\<close>

section \<open>Data\<close>

record 'p node_doc =
  doc_id :: string
  doc_rest :: 'p

record 'p branch_doc =
  branch_name :: string
  branch_rest :: 'p

record 'p revision_meta =
  meta_branch :: string
  meta_rest :: 'p

datatype 'p replicated_overlay =
    OverlayProperties "(string, 'p) hash_map"
  | OverlayHidden
  | OverlayDeleted

datatype 'p locale_overlay =
    LocaleProperties "(string, 'p) hash_map"
  | LocaleHidden

record replicated_secret =
  ciphertext :: "u8 list"
  secret_key_id :: "16 word"
  secret_version :: u64
  secret_revision :: hlc
  created_at :: string
  created_by :: string
  rotated_at :: "string option"
  owner_node :: "string option"
  owner_field :: "string option"
  secret_deleted :: bool

datatype change_kind = Upsert | Delete

record 'p node_change =
  change_node :: "'p node_doc"
  change_parent_id :: "string option"
  change_kind :: change_kind
  change_cf_order_key :: string

datatype 'p op_type =
    UpsertTranslationOverlay string string string "string option" "'p replicated_overlay" hlc "hlc option"
      \<comment> \<open>workspace, \<open>node_id\<close>, locale, \<open>block_uuid\<close>, overlay, revision, \<open>history_complete_from\<close>\<close>
  | AddRelation string string string string string 'p
      \<comment> \<open>\<open>source_id\<close>, \<open>source_workspace\<close>, \<open>relation_type\<close>, \<open>target_id\<close>, \<open>target_workspace\<close>, relation\<close>
  | RemoveRelation string string string string string
  | ApplyRevision hlc "'p node_change list"
  | UpsertNodeSnapshot "'p node_doc" "string option" hlc string
  | DeleteNodeSnapshot string hlc "'p node_doc option" "string option"
  | UpdateNodeType string 'p
  | DeleteNodeType string
  | UpdateArchetype string 'p
  | DeleteArchetype string
  | UpdateElementType string 'p
  | DeleteElementType string
  | UpdateWorkspace string 'p
  | DeleteWorkspace string
  | UpdateBranch "'p branch_doc"
  | CreateRevisionMeta "'p revision_meta"
  | DeleteBranch string
  | CreateTag string string
  | DeleteTag string
  | UpdateUser string 'p
  | DeleteUser string
  | UpdateTenant string 'p
  | DeleteTenant string
  | UpdateDeployment string 'p
  | DeleteDeployment string
  | UpdateRepository string string 'p
  | DeleteRepository string string
  | GrantPermission string string string string string
      \<comment> \<open>\<open>subject_type\<close>, \<open>subject_id\<close>, \<open>resource_type\<close>, \<open>resource_id\<close>, permission\<close>
  | RevokePermission string string string string string
  | UpsertIdentity string 'p
  | DeleteIdentity string
  | CreateSession string 'p
  | RevokeSession string
  | RevokeAllIdentitySessions string
  | UpsertOAuthClient string 'p
  | DeleteOAuthClient string
  | UpsertOAuthRefreshToken string 'p
  | RevokeOAuthRefreshFamily string
  | UpsertApiKey string 'p
  | UpsertSecret string replicated_secret
  | RotateRefreshToken string u32
  | Unknown string 'p

record 'p operation =
  op_id :: uuid
  op_seq :: u64
  cluster_node_id :: string
  timestamp_ms :: u64
  vector_clock :: vector_clock
  tenant_id :: string
  repo_id :: string
  branch :: string
  op_type :: "'p op_type"
  revision :: "hlc option"
  actor :: string
  agent :: "string option"
  message :: "string option"
  is_system :: bool
  acknowledged_by :: "string hash_set"

datatype operation_target =
    NodeTarget string
  | NodeTypeTarget string
  | ArchetypeTarget string
  | ElementTypeTarget string
  | WorkspaceTarget string
  | BranchTarget string
  | TagTarget string
  | UserTarget string
  | TenantTarget string
  | DeploymentTarget string
  | RepositoryTarget string
  | PermissionTarget string
  | IdentityTarget string
  | SessionTarget string
  | OAuthClientTarget string
  | OAuthRefreshTokenTarget string
  | OAuthRefreshFamilyTarget string
  | ApiKeyTarget string
  | SecretTarget string
  | RevisionTarget string
  | UnknownTarget string

section \<open>Operations\<close>

definition from_stored :: "'p locale_overlay option \<Rightarrow> 'p replicated_overlay" where
  "from_stored overlay =
     (case overlay of
        Some (LocaleProperties data) \<Rightarrow> OverlayProperties data
      | Some LocaleHidden \<Rightarrow> OverlayHidden
      | None \<Rightarrow> OverlayDeleted)"

fun into_stored :: "'p replicated_overlay \<Rightarrow> 'p locale_overlay option" where
  "into_stored (OverlayProperties data) = Some (LocaleProperties data)"
| "into_stored OverlayHidden = Some LocaleHidden"
| "into_stored OverlayDeleted = None"

definition operation_new ::
  "uuid \<Rightarrow> u64 \<Rightarrow> u64 \<Rightarrow> string \<Rightarrow> vector_clock \<Rightarrow> string \<Rightarrow> string \<Rightarrow> string \<Rightarrow> 'p op_type \<Rightarrow> string
     \<Rightarrow> 'p operation" where
  "operation_new fresh_id now_ms seq node vc tenant repo br ty who =
     \<lparr>op_id = fresh_id, op_seq = seq, cluster_node_id = node, timestamp_ms = now_ms,
      vector_clock = vc, tenant_id = tenant, repo_id = repo, branch = br, op_type = ty,
      revision = None, actor = who, agent = None, message = None, is_system = False,
      acknowledged_by = []\<rparr>"

definition with_agent :: "string option \<Rightarrow> 'p operation \<Rightarrow> 'p operation" where
  "with_agent a op = op\<lparr>agent := a\<rparr>"

definition target :: "(uuid \<Rightarrow> string) \<Rightarrow> 'p operation \<Rightarrow> operation_target" where
  "target uuid_str op =
     (case op_type op of
        UpsertTranslationOverlay _ node_id _ _ _ _ _ \<Rightarrow> NodeTarget node_id
      | UpsertNodeSnapshot node _ _ _ \<Rightarrow> NodeTarget (doc_id node)
      | DeleteNodeSnapshot node_id _ _ _ \<Rightarrow> NodeTarget node_id
      | AddRelation source_id _ _ _ _ _ \<Rightarrow> NodeTarget source_id
      | RemoveRelation source_id _ _ _ _ \<Rightarrow> NodeTarget source_id
      | UpdateNodeType i _ \<Rightarrow> NodeTypeTarget i
      | DeleteNodeType i \<Rightarrow> NodeTypeTarget i
      | UpdateArchetype i _ \<Rightarrow> ArchetypeTarget i
      | DeleteArchetype i \<Rightarrow> ArchetypeTarget i
      | UpdateElementType i _ \<Rightarrow> ElementTypeTarget i
      | DeleteElementType i \<Rightarrow> ElementTypeTarget i
      | UpdateWorkspace i _ \<Rightarrow> WorkspaceTarget i
      | DeleteWorkspace i \<Rightarrow> WorkspaceTarget i
      | UpdateBranch b \<Rightarrow> BranchTarget (branch_name b)
      | CreateRevisionMeta m \<Rightarrow> BranchTarget (meta_branch m)
      | DeleteBranch i \<Rightarrow> BranchTarget i
      | CreateTag i _ \<Rightarrow> TagTarget i
      | DeleteTag i \<Rightarrow> TagTarget i
      | UpdateUser i _ \<Rightarrow> UserTarget i
      | DeleteUser i \<Rightarrow> UserTarget i
      | UpdateTenant i _ \<Rightarrow> TenantTarget i
      | DeleteTenant i \<Rightarrow> TenantTarget i
      | UpdateDeployment i _ \<Rightarrow> DeploymentTarget i
      | DeleteDeployment i \<Rightarrow> DeploymentTarget i
      | UpdateRepository _ i _ \<Rightarrow> RepositoryTarget i
      | DeleteRepository _ i \<Rightarrow> RepositoryTarget i
      | ApplyRevision branch_head _ \<Rightarrow>
          RevisionTarget (branch op @ ''@'' @ hlc_to_string branch_head)
      | GrantPermission _ subject_id _ resource_id _ \<Rightarrow>
          PermissionTarget (subject_id @ '':'' @ resource_id)
      | RevokePermission _ subject_id _ resource_id _ \<Rightarrow>
          PermissionTarget (subject_id @ '':'' @ resource_id)
      | UpsertOAuthClient i _ \<Rightarrow> OAuthClientTarget i
      | DeleteOAuthClient i \<Rightarrow> OAuthClientTarget i
      | UpsertOAuthRefreshToken token_hash _ \<Rightarrow> OAuthRefreshTokenTarget token_hash
      | RevokeOAuthRefreshFamily family_id \<Rightarrow> OAuthRefreshFamilyTarget family_id
      | UpsertApiKey key_id _ \<Rightarrow> ApiKeyTarget key_id
      | UpsertSecret name _ \<Rightarrow> SecretTarget (branch op @ '':'' @ name)
      | UpsertIdentity i _ \<Rightarrow> IdentityTarget i
      | DeleteIdentity i \<Rightarrow> IdentityTarget i
      | CreateSession i _ \<Rightarrow> SessionTarget i
      | RevokeSession i \<Rightarrow> SessionTarget i
      | RotateRefreshToken i _ \<Rightarrow> SessionTarget i
      | RevokeAllIdentitySessions i \<Rightarrow> IdentityTarget i
      | Unknown tag _ \<Rightarrow> UnknownTarget (tag @ '':'' @ uuid_str (op_id op)))"

fun target_to_string :: "operation_target \<Rightarrow> string" where
  "target_to_string (NodeTarget i) = ''node:'' @ i"
| "target_to_string (NodeTypeTarget i) = ''node_type:'' @ i"
| "target_to_string (ArchetypeTarget i) = ''archetype:'' @ i"
| "target_to_string (ElementTypeTarget i) = ''element_type:'' @ i"
| "target_to_string (WorkspaceTarget i) = ''workspace:'' @ i"
| "target_to_string (BranchTarget i) = ''branch:'' @ i"
| "target_to_string (TagTarget i) = ''tag:'' @ i"
| "target_to_string (UserTarget i) = ''user:'' @ i"
| "target_to_string (TenantTarget i) = ''tenant:'' @ i"
| "target_to_string (DeploymentTarget i) = ''deployment:'' @ i"
| "target_to_string (RepositoryTarget i) = ''repository:'' @ i"
| "target_to_string (PermissionTarget i) = ''permission:'' @ i"
| "target_to_string (IdentityTarget i) = ''identity:'' @ i"
| "target_to_string (SessionTarget i) = ''session:'' @ i"
| "target_to_string (OAuthClientTarget i) = ''oauth_client:'' @ i"
| "target_to_string (OAuthRefreshTokenTarget i) = ''oauth_refresh_token:'' @ i"
| "target_to_string (OAuthRefreshFamilyTarget i) = ''oauth_refresh_family:'' @ i"
| "target_to_string (ApiKeyTarget i) = ''api_key:'' @ i"
| "target_to_string (SecretTarget i) = ''secret:'' @ i"
| "target_to_string (RevisionTarget i) = ''revision:'' @ i"
| "target_to_string (UnknownTarget i) = ''unknown:'' @ i"

definition is_delete :: "'p operation \<Rightarrow> bool" where
  "is_delete op =
     (case op_type op of
        DeleteNodeSnapshot _ _ _ _ \<Rightarrow> True
      | RemoveRelation _ _ _ _ _ \<Rightarrow> True
      | DeleteNodeType _ \<Rightarrow> True
      | DeleteArchetype _ \<Rightarrow> True
      | DeleteElementType _ \<Rightarrow> True
      | DeleteWorkspace _ \<Rightarrow> True
      | DeleteBranch _ \<Rightarrow> True
      | DeleteTag _ \<Rightarrow> True
      | DeleteUser _ \<Rightarrow> True
      | DeleteTenant _ \<Rightarrow> True
      | DeleteDeployment _ \<Rightarrow> True
      | RevokePermission _ _ _ _ _ \<Rightarrow> True
      | DeleteIdentity _ \<Rightarrow> True
      | RevokeSession _ \<Rightarrow> True
      | RevokeAllIdentitySessions _ \<Rightarrow> True
      | DeleteOAuthClient _ \<Rightarrow> True
      | RevokeOAuthRefreshFamily _ \<Rightarrow> True
      | _ \<Rightarrow> False)"

definition acknowledge :: "string \<Rightarrow> 'p operation \<Rightarrow> 'p operation" where
  "acknowledge peer_id op = op\<lparr>acknowledged_by := List.insert peer_id (acknowledged_by op)\<rparr>"

definition acknowledged_by_all :: "string list \<Rightarrow> 'p operation \<Rightarrow> bool" where
  "acknowledged_by_all peer_ids op \<longleftrightarrow> list_all (\<lambda>p. List.member (acknowledged_by op) p) peer_ids"

definition age_days :: "u64 \<Rightarrow> 'p operation \<Rightarrow> u64" where
  "age_days now_ms op =
     (if now_ms > timestamp_ms op
      then (now_ms - timestamp_ms op) div (1000 * 60 * 60 * 24) else 0)"

section \<open>Lemmas\<close>

lemma overlay_roundtrip [simp]:
  "into_stored (from_stored s) = s" "from_stored (into_stored r) = r"
  by (cases r; auto simp: from_stored_def split: option.splits locale_overlay.splits)+

lemma target_to_string_inj: "target_to_string s = target_to_string t \<longleftrightarrow> s = t"
  by (cases s; cases t) simp_all

lemma acknowledged_by_all_iff:
  "acknowledged_by_all ps op \<longleftrightarrow> set ps \<subseteq> set (acknowledged_by op)"
  by (auto simp: acknowledged_by_all_def list_all_iff)

lemma acknowledge_fold:
  "acknowledged_by (fold acknowledge ps op) = fold List.insert ps (acknowledged_by op)"
  by (induction ps arbitrary: op) (auto simp: acknowledge_def)

end
