(* ===== verification/Crdt.thy ===== *)
theory Crdt
  imports Operation
begin

text \<open>
  \<open>raisin-replication/src/crdt.rs\<close>: the last-write-wins merge of operations on one register, and the
  comparison it rests on (causality, then timestamp, then cluster node id). A panic is \<open>None\<close>.

  The comparison is a total order on a batch whose wall clocks agree with causality
  (\<open>clock_consistent\<close>): there it is the lexicographic order of timestamp and node id, and the winner
  does not depend on the order of the batch. Without that it need not be transitive.
\<close>

section \<open>Merge rules\<close>

datatype conflict_type = ConcurrentSchemaUpdate

datatype 'p merge_result =
    Winner "'p operation"
  | Conflict "'p operation" "'p operation list" conflict_type

definition compare_operations_lww :: "'p operation \<Rightarrow> 'p operation \<Rightarrow> rust_ordering" where
  "compare_operations_lww a b =
     (case vc_compare (vector_clock a) (vector_clock b) of
        After \<Rightarrow> Greater
      | Before \<Rightarrow> Less
      | _ \<Rightarrow>
          (case cmp_of (timestamp_ms a) (timestamp_ms b) of
             Greater \<Rightarrow> Greater
           | Less \<Rightarrow> Less
           | Equal \<Rightarrow> cmp_of (cluster_node_id a) (cluster_node_id b)))"

definition select_lww_winner :: "'p operation list \<Rightarrow> 'p operation option" where
  "select_lww_winner ops = max_by compare_operations_lww ops"

definition merge_last_write_wins :: "'p operation list \<Rightarrow> 'p merge_result option" where
  "merge_last_write_wins ops =
     (case select_lww_winner ops of
        None \<Rightarrow> None
      | Some winner \<Rightarrow>
          (let losers = filter (\<lambda>op. op_id op \<noteq> op_id winner) ops;
               has_concurrent =
                 list_ex (\<lambda>l. concurrent_with (vector_clock winner) (vector_clock l)) losers
           in Some (if has_concurrent then Conflict winner losers ConcurrentSchemaUpdate
                    else Winner winner)))"

definition merge_relation_operations :: "'p operation list \<Rightarrow> 'p merge_result option" where
  "merge_relation_operations ops = map_option Winner (max_by compare_operations_lww ops)"

definition is_relation_op :: "'p op_type \<Rightarrow> bool" where
  "is_relation_op t =
     (case t of AddRelation _ _ _ _ _ _ \<Rightarrow> True | RemoveRelation _ _ _ _ _ \<Rightarrow> True | _ \<Rightarrow> False)"

fun merge_operations :: "'p operation list \<Rightarrow> 'p merge_result option" where
  "merge_operations [] = None"
| "merge_operations [op] = Some (Winner op)"
| "merge_operations (op # op' # ops) =
     (if is_relation_op (op_type op) then merge_relation_operations (op # op' # ops)
      else merge_last_write_wins (op # op' # ops))"

fun ordering_of_clock_ordering :: "clock_ordering \<Rightarrow> rust_ordering" where
  "ordering_of_clock_ordering Before = Less"
| "ordering_of_clock_ordering After = Greater"
| "ordering_of_clock_ordering EqualClocks = Equal"
| "ordering_of_clock_ordering Concurrent = Equal"

fun merge_winner :: "'p merge_result \<Rightarrow> 'p operation" where
  "merge_winner (Winner op) = op"
| "merge_winner (Conflict op _ _) = op"

fun merge_losers :: "'p merge_result \<Rightarrow> 'p operation list" where
  "merge_losers (Winner _) = []"
| "merge_losers (Conflict _ ls _) = ls"

section \<open>The comparison\<close>

definition op_stamp_less :: "'p operation \<Rightarrow> 'p operation \<Rightarrow> bool" where
  "op_stamp_less a b \<longleftrightarrow> timestamp_ms a < timestamp_ms b \<or>
     (timestamp_ms a = timestamp_ms b \<and> cluster_node_id a < cluster_node_id b)"

definition clock_consistent :: "'p operation list \<Rightarrow> bool" where
  "clock_consistent ops \<longleftrightarrow>
     list_all (\<lambda>a. list_all (\<lambda>b. happens_before (vector_clock a) (vector_clock b) \<longrightarrow> op_stamp_less a b) ops) ops"

lemma then_with_case:
  "(case c of Greater \<Rightarrow> Greater | Less \<Rightarrow> Less | Equal \<Rightarrow> d) = then_with c d"
  by (cases c) auto

lemma lww_causal:
  "happens_before (vector_clock a) (vector_clock b) \<Longrightarrow> compare_operations_lww a b = Less"
  by (simp add: compare_operations_lww_def happens_before_def)

lemma vc_compare_flip:
  "vc_compare b a = (case vc_compare a b of Before \<Rightarrow> After | After \<Rightarrow> Before | c \<Rightarrow> c)"
  using vc_compare_iff [of a b] vc_compare_iff [of b a]
  by (cases "vc_compare a b"; auto simp: vc_equiv_le)

lemma lww_flip: "compare_operations_lww b a = reverse_ordering (compare_operations_lww a b)"
  unfolding compare_operations_lww_def then_with_case vc_compare_flip [of "vector_clock b"]
  by (auto simp: reverse_then_with split: clock_ordering.splits intro: cmp_of_flip
      intro!: arg_cong2 [of _ _ _ _ then_with])

lemma lww_stamp:
  assumes "happens_before (vector_clock a) (vector_clock b) \<Longrightarrow> op_stamp_less a b"
    and "happens_before (vector_clock b) (vector_clock a) \<Longrightarrow> op_stamp_less b a"
  shows "compare_operations_lww a b =
     then_with (cmp_of (timestamp_ms a) (timestamp_ms b)) (cmp_of (cluster_node_id a) (cluster_node_id b))"
proof (cases "vc_compare (vector_clock a) (vector_clock b)")
  case Before
  then have "op_stamp_less a b" using assms by (simp add: happens_before_def)
  with Before show ?thesis
    by (auto simp: compare_operations_lww_def op_stamp_less_def cmp_of_def)
next
  case After
  then have "vc_compare (vector_clock b) (vector_clock a) = Before"
    by (simp add: vc_compare_flip [of "vector_clock b"])
  then have "op_stamp_less b a" using assms by (simp add: happens_before_def)
  with After show ?thesis
    by (auto simp: compare_operations_lww_def op_stamp_less_def cmp_of_def)
qed (simp_all add: compare_operations_lww_def then_with_case)

lemma stamp_cmp_total:
  "rust_cmp (\<lambda>a b :: 'p operation. then_with (cmp_of (timestamp_ms a) (timestamp_ms b))
     (cmp_of (cluster_node_id a) (cluster_node_id b))) A"
  by unfold_locales
    (auto simp: cmp_simps reverse_then_with intro: cmp_of_flip intro!: arg_cong2 [of _ _ _ _ then_with])

lemma rust_cmp_cong:
  assumes "rust_cmp c A" and "\<And>x y. \<lbrakk>x \<in> A; y \<in> A\<rbrakk> \<Longrightarrow> c x y = d x y"
  shows "rust_cmp d A"
  using assms unfolding rust_cmp_def by metis

text \<open>On a clock-consistent batch the comparison meets the contract of \<open>max_by\<close> and \<open>sort_by\<close>.\<close>

lemma lww_total:
  assumes "clock_consistent ops"
  shows "rust_cmp compare_operations_lww (set ops)"
proof (rule rust_cmp_cong [OF stamp_cmp_total])
  fix a b :: "'a operation" assume "a \<in> set ops" "b \<in> set ops"
  with assms show "then_with (cmp_of (timestamp_ms a) (timestamp_ms b))
      (cmp_of (cluster_node_id a) (cluster_node_id b)) = compare_operations_lww a b"
    by (intro lww_stamp [symmetric]) (auto simp: clock_consistent_def list_all_iff)
qed

lemma lww_no_ties:
  assumes "clock_consistent ops"
    and "\<forall>a \<in> set ops. \<forall>b \<in> set ops.
      timestamp_ms a = timestamp_ms b \<and> cluster_node_id a = cluster_node_id b \<longrightarrow> a = b"
    and "a \<in> set ops" "b \<in> set ops" "compare_operations_lww a b = Equal"
  shows "a = b"
proof -
  from assms have "then_with (cmp_of (timestamp_ms a) (timestamp_ms b))
      (cmp_of (cluster_node_id a) (cluster_node_id b)) = Equal"
    using lww_stamp [of a b] by (auto simp: clock_consistent_def list_all_iff)
  with assms show ?thesis by (simp add: cmp_simps)
qed

section \<open>The merge\<close>

lemma merge_operations_winner:
  "map_option merge_winner (merge_operations ops) = max_by compare_operations_lww ops"
  by (cases ops rule: merge_operations.cases)
    (auto simp: merge_relation_operations_def merge_last_write_wins_def select_lww_winner_def
      Let_def split: option.splits)

lemma merge_operations_cases:
  assumes "merge_operations ops = Some r"
  obtains "r = Winner (merge_winner r)"
  | "merge_last_write_wins ops = Some r" "length ops > 1"
  using assms
  by (cases ops rule: merge_operations.cases) (auto simp: merge_relation_operations_def split: if_splits)

lemma merge_last_write_wins_conflict:
  assumes "merge_last_write_wins ops = Some (Conflict w ls t)"
  shows "max_by compare_operations_lww ops = Some w \<and> ls = filter (\<lambda>op. op_id op \<noteq> op_id w) ops \<and>
    (\<exists>l \<in> set ls. concurrent_with (vector_clock w) (vector_clock l))"
  using assms unfolding merge_last_write_wins_def select_lww_winner_def Let_def list_ex_iff
  by (auto split: option.splits if_splits)

lemma merge_last_write_wins_winner:
  assumes "merge_last_write_wins ops = Some (Winner w)"
  shows "\<forall>op \<in> set ops. op_id op \<noteq> op_id w \<longrightarrow> \<not> concurrent_with (vector_clock w) (vector_clock op)"
  using assms unfolding merge_last_write_wins_def select_lww_winner_def Let_def list_ex_iff
  by (auto split: option.splits if_splits)

definition sample_op :: "uuid \<Rightarrow> string \<Rightarrow> u64 \<Rightarrow> vector_clock \<Rightarrow> unit operation" where
  "sample_op i node ts vc = operation_new i ts 1 node vc ''t'' ''r'' ''main'' (UpdateNodeType ''T'' ()) ''u''"

lemma sample_op_sel [simp]:
  "op_id (sample_op i n ts vc) = i" "cluster_node_id (sample_op i n ts vc) = n"
  "timestamp_ms (sample_op i n ts vc) = ts" "vector_clock (sample_op i n ts vc) = vc"
  "op_type (sample_op i n ts vc) = UpdateNodeType ''T'' ()"
  by (simp_all add: sample_op_def operation_new_def)

lemmas lww_eval = compare_operations_lww_def vc_compare_def vc_compare_flags_def vc_get_def cmp_of_def

text \<open>C34. Merging the operations on one register: on a batch whose wall clocks agree with
  causality and that has no two operations with the same timestamp and node, the merge
  returns an operation of the batch that no other one happens after and none exceeds in the
  last-write-wins order, and every reordering of the batch (with repetitions) elects the same operation.\<close>

theorem merge_winner_order_independent:
  assumes "ops \<noteq> []" and "clock_consistent ops" and "set ops' = set ops"
    and no_ties: "\<forall>a \<in> set ops. \<forall>b \<in> set ops.
      timestamp_ms a = timestamp_ms b \<and> cluster_node_id a = cluster_node_id b \<longrightarrow> a = b"
  shows "\<exists>w \<in> set ops.
     map_option merge_winner (merge_operations ops) = Some w \<and>
     map_option merge_winner (merge_operations ops') = Some w \<and>
     (\<forall>a \<in> set ops. a \<noteq> w \<longrightarrow> compare_operations_lww a w = Less \<and>
        \<not> happens_before (vector_clock w) (vector_clock a))"
proof -
  note total = lww_total [OF assms(2)]
  obtain w where w: "max_by compare_operations_lww ops = Some w"
    using assms(1) max_by_None_iff [of compare_operations_lww ops]
    by (cases "max_by compare_operations_lww ops") auto
  note ties = lww_no_ties [OF assms(2) no_ties]
  have "max_by compare_operations_lww ops' = Some w"
    using rust_cmp.max_by_perm [OF total subset_refl assms(3)] ties w by metis
  moreover have "compare_operations_lww a w = Less" if "a \<in> set ops" "a \<noteq> w" for a
  proof (cases "compare_operations_lww a w")
    case Equal
    then have "a = w" by (rule ties [OF that(1) max_by_in [OF w]])
    with that show ?thesis by simp
  qed (use rust_cmp.max_by_ge [OF total w subset_refl that(1)] in simp_all)
  moreover have "\<not> happens_before (vector_clock w) (vector_clock a)"
    if "compare_operations_lww a w = Less" for a
    using that lww_causal [of w a] lww_flip [where a = w and b = a]
    by (metis reverse_ordering.simps(1) rust_ordering.distinct(3))
  ultimately show ?thesis
    using w max_by_in [OF w] unfolding merge_operations_winner by blast
qed

theorem merge_winner_order_independent_witness:
  "let a = sample_op 1 ''n1'' 10 [(''n1'', 1)]; b = sample_op 2 ''n2'' 20 [(''n1'', 1), (''n2'', 1)] in
   \<exists>w \<in> {a, b}. map_option merge_winner (merge_operations [a, b]) = Some w \<and>
     map_option merge_winner (merge_operations [b, a]) = Some w"
proof -
  let ?a = "sample_op 1 ''n1'' 10 [(''n1'', 1)]" and ?b = "sample_op 2 ''n2'' 20 [(''n1'', 1), (''n2'', 1)]"
  have "clock_consistent [?a, ?b]"
    by (simp add: clock_consistent_def op_stamp_less_def happens_before_def lww_eval)
  moreover have "\<forall>x \<in> set [?a, ?b]. \<forall>y \<in> set [?a, ?b].
      timestamp_ms x = timestamp_ms y \<and> cluster_node_id x = cluster_node_id y \<longrightarrow> x = y"
    by simp
  moreover have "set [?b, ?a] = set [?a, ?b]" by auto
  ultimately have "\<exists>w \<in> set [?a, ?b]. map_option merge_winner (merge_operations [?a, ?b]) = Some w \<and>
      map_option merge_winner (merge_operations [?b, ?a]) = Some w"
    using merge_winner_order_independent [of "[?a, ?b]" "[?b, ?a]"] by blast
  then show ?thesis unfolding Let_def list.set .
qed

text \<open>What the merge reports: it fails only on an empty batch; a conflict lists
  exactly the operations other than the winner, and is reported (for operations that are not
  relations) exactly when one of those is concurrent with the winner.\<close>

theorem merge_conflict_report:
  "(merge_operations ops = None \<longleftrightarrow> ops = []) \<and>
   (merge_operations ops = Some (Conflict w ls t) \<longrightarrow>
      max_by compare_operations_lww ops = Some w \<and> ls = filter (\<lambda>op. op_id op \<noteq> op_id w) ops \<and>
      (\<exists>l \<in> set ls. concurrent_with (vector_clock w) (vector_clock l))) \<and>
   (merge_operations ops = Some (Winner w) \<and> \<not> is_relation_op (op_type (hd ops)) \<longrightarrow>
      (\<forall>op \<in> set ops. op_id op \<noteq> op_id w \<longrightarrow> \<not> concurrent_with (vector_clock w) (vector_clock op)))"
proof -
  have none: "merge_operations ops = None \<longleftrightarrow> ops = []"
    using arg_cong [OF merge_operations_winner [of ops], of "\<lambda>x. x = None"] by simp
  have "merge_last_write_wins ops = Some (Conflict w ls t)" if "merge_operations ops = Some (Conflict w ls t)"
    using that by (auto elim: merge_operations_cases)
  note conflict = merge_last_write_wins_conflict [OF this]
  have winner: "\<forall>op \<in> set ops. op_id op \<noteq> op_id w \<longrightarrow> \<not> concurrent_with (vector_clock w) (vector_clock op)"
    if a: "merge_operations ops = Some (Winner w)" "\<not> is_relation_op (op_type (hd ops))"
  proof (cases ops rule: merge_operations.cases)
    case (3 op op' os)
    with a have "merge_last_write_wins ops = Some (Winner w)" by simp
    then show ?thesis by (rule merge_last_write_wins_winner)
  qed (use a in auto)
  from none conflict winner show ?thesis by blast
qed

theorem merge_conflict_report_witness:
  "merge_operations [sample_op 1 ''n1'' 10 [(''n1'', 1)], sample_op 2 ''n2'' 20 [(''n2'', 1)]] =
     Some (Conflict (sample_op 2 ''n2'' 20 [(''n2'', 1)]) [sample_op 1 ''n1'' 10 [(''n1'', 1)]]
       ConcurrentSchemaUpdate) \<and>
   max_by compare_operations_lww [sample_op 1 ''n1'' 10 [(''n1'', 1)], sample_op 2 ''n2'' 20 [(''n2'', 1)]] =
     Some (sample_op 2 ''n2'' 20 [(''n2'', 1)])"
proof -
  have "merge_operations [sample_op 1 ''n1'' 10 [(''n1'', 1)], sample_op 2 ''n2'' 20 [(''n2'', 1)]] =
     Some (Conflict (sample_op 2 ''n2'' 20 [(''n2'', 1)]) [sample_op 1 ''n1'' 10 [(''n1'', 1)]]
       ConcurrentSchemaUpdate)"
    by (simp add: is_relation_op_def merge_last_write_wins_def select_lww_winner_def
        concurrent_with_def lww_eval Let_def)
  with merge_conflict_report show ?thesis by blast
qed

text \<open>Without agreeing clocks the last-write-wins order is not transitive, and each of three
  operations can win, depending on the order in which the merge sees them: the second
  causally follows the first but was stamped by a node whose wall clock is behind, and a third,
  concurrent to both, is stamped between them.\<close>

theorem lww_not_transitive:
  "let a = sample_op 1 ''n1'' 30 [(''n1'', 1)];
       b = sample_op 2 ''n2'' 10 [(''n1'', 1), (''n2'', 1)];
       c = sample_op 3 ''n3'' 20 [(''n3'', 1)]
   in compare_operations_lww a b = Less \<and> compare_operations_lww b c = Less \<and>
      compare_operations_lww c a = Less \<and>
      map_option merge_winner (merge_operations [a, b, c]) = Some c \<and>
      map_option merge_winner (merge_operations [b, c, a]) = Some a \<and>
      map_option merge_winner (merge_operations [c, a, b]) = Some b"
proof -
  let ?a = "sample_op 1 ''n1'' 30 [(''n1'', 1)]"
    and ?b = "sample_op 2 ''n2'' 10 [(''n1'', 1), (''n2'', 1)]"
    and ?c = "sample_op 3 ''n3'' 20 [(''n3'', 1)]"
  have ab: "compare_operations_lww ?a ?b = Less" by (simp add: lww_eval)
  have bc: "compare_operations_lww ?b ?c = Less" by (simp add: lww_eval)
  have ca: "compare_operations_lww ?c ?a = Less" by (simp add: lww_eval)
  show ?thesis
    unfolding Let_def merge_operations_winner max_by.simps foldl.simps by (simp add: ab bc ca)
qed

end
