(* ===== verification/Conflict_Resolution.thy ===== *)
theory Conflict_Resolution
  imports Crdt
begin

text \<open>
  \<open>raisin-replication/src/conflict_resolution.rs\<close>: the resolution of divergent operation logs during
  catch-up. The order in which a \<open>HashMap\<close> yields its entries is a parameter of the operations
  that iterate over one (\<open>peer_order\<close>, \<open>id_order\<close>, \<open>group_order\<close>); all that is used of it is that it
  yields every entry once (\<open>iteration_order\<close>).

  The comparison of the resolver is the last-write-wins comparison of \<open>crdt.rs\<close>, so on
  logs whose wall clocks agree with causality the resolution is the sorted set of operations,
  the same on every node whatever its local share of the logs.
\<close>

section \<open>Operations\<close>

datatype conflict_error = InvalidLog string | ResolutionFailed string

record 'p conflict_group =
  group_target :: string
  concurrent_operations :: "'p operation list list"

definition compare_operations :: "'p operation \<Rightarrow> 'p operation \<Rightarrow> rust_ordering" where
  "compare_operations a b =
     (let tie_break = (case cmp_of (timestamp_ms a) (timestamp_ms b) of
                         Equal \<Rightarrow> cmp_of (cluster_node_id a) (cluster_node_id b)
                       | other \<Rightarrow> other)
      in case vc_compare (vector_clock a) (vector_clock b) of
           Before \<Rightarrow> Less
         | After \<Rightarrow> Greater
         | EqualClocks \<Rightarrow> tie_break
         | Concurrent \<Rightarrow> tie_break)"

definition dedup_by_id :: "'p operation list \<Rightarrow> (uuid, 'p operation) hash_map" where
  "dedup_by_id all_ops = foldl (\<lambda>m op. hm_insert (op_id op) op m) [] all_ops"

definition resolve_divergent_logs ::
  "((string \<times> 'p operation list) list \<Rightarrow> (string \<times> 'p operation list) list) \<Rightarrow>
   ((uuid \<times> 'p operation) list \<Rightarrow> (uuid \<times> 'p operation) list) \<Rightarrow>
   'p operation list \<Rightarrow> (string, 'p operation list) hash_map \<Rightarrow> conflict_error + 'p operation list" where
  "resolve_divergent_logs peer_order id_order local_ops peer_logs =
     (let all_ops = local_ops @ concat (map snd (peer_order peer_logs));
          ops = map snd (id_order (dedup_by_id all_ops))
      in Inr (sort_by compare_operations ops))"

fun later_pairs :: "'a list \<Rightarrow> ('a \<times> 'a) list" where
  "later_pairs [] = []"
| "later_pairs (x # xs) = map (\<lambda>y. (x, y)) xs @ later_pairs xs"

definition conflict_scope :: "'p operation \<Rightarrow> string" where
  "conflict_scope op = tenant_id op @ ''/'' @ repo_id op @ ''/'' @ branch op"

definition concurrent_groups :: "'p operation list \<Rightarrow> 'p operation list list" where
  "concurrent_groups target_ops =
     map (\<lambda>(a, b). [a, b])
       (filter (\<lambda>(a, b). vc_compare (vector_clock a) (vector_clock b) = Concurrent) (later_pairs target_ops))"

definition detect_conflicts ::
  "((string \<times> 'p operation list) list \<Rightarrow> (string \<times> 'p operation list) list) \<Rightarrow>
   'p operation list \<Rightarrow> 'p conflict_group list" where
  "detect_conflicts group_order ops =
     concat (map (\<lambda>(tgt, target_ops).
         if length target_ops < 2 then []
         else let gs = concurrent_groups target_ops
              in if gs = [] then [] else [\<lparr>group_target = tgt, concurrent_operations = gs\<rparr>])
       (group_order (group_push conflict_scope ops)))"

definition calculate_consensus_vector_clock :: "vector_clock list \<Rightarrow> vector_clock" where
  "calculate_consensus_vector_clock peer_clocks = foldl vc_merge vc_new peer_clocks"

section \<open>Lemmas\<close>

lemma compare_operations_eq_lww: "compare_operations = compare_operations_lww"
  by (intro ext) (auto simp: compare_operations_def compare_operations_lww_def
      split: clock_ordering.splits rust_ordering.splits)

lemma dedup_by_id_snoc: "dedup_by_id (xs @ [x]) = hm_insert (op_id x) x (dedup_by_id xs)"
  by (simp add: dedup_by_id_def)

lemma dedup_by_id_wf: "hm_wf (dedup_by_id ops)"
  by (induction ops rule: rev_induct) (simp_all add: dedup_by_id_snoc, simp add: dedup_by_id_def)

lemma dedup_by_id_get: "hm_get (dedup_by_id ops) i = Some op \<Longrightarrow> op_id op = i \<and> op \<in> set ops"
proof (induction ops rule: rev_induct)
  case (snoc x xs)
  then show ?case by (simp add: dedup_by_id_snoc hm_simps split: if_splits)
qed (simp add: dedup_by_id_def)

lemma dedup_by_id_mem: "(i, op) \<in> set (dedup_by_id ops) \<Longrightarrow> op_id op = i \<and> op \<in> set ops"
  using dedup_by_id_get [of ops i op] dedup_by_id_wf [of ops] by simp

lemma dedup_by_id_ids: "set (hm_keys (dedup_by_id ops)) = op_id ` set ops"
proof (induction ops rule: rev_induct)
  case (snoc x xs)
  then show ?case by (simp add: dedup_by_id_snoc dom_update)
qed (simp add: dedup_by_id_def)

lemma dedup_keys: "map op_id (map snd (dedup_by_id ops)) = hm_keys (dedup_by_id ops)"
  using dedup_by_id_mem [of _ _ ops] by (auto simp: map_eq_conv)

lemma dedup_distinct_ids: "distinct (map op_id (map snd (dedup_by_id ops)))"
  unfolding dedup_keys by (rule dedup_by_id_wf)

lemma dedup_op_ids: "op_id ` snd ` set (dedup_by_id ops) = op_id ` set ops"
  using arg_cong [OF dedup_keys [of ops], of set] dedup_by_id_ids [of ops]
  by (simp only: set_map)

lemma same_ids_same_set:
  assumes "A \<subseteq> B" and "op_id ` A = op_id ` B" and "inj_on op_id B"
  shows "A = B"
  using assms by (metis inj_on_image_eq_iff subset_refl)

text \<open>The operations of a node's local log and of its peers.\<close>

definition all_log_ops :: "'p operation list \<Rightarrow> (string, 'p operation list) hash_map \<Rightarrow> 'p operation list" where
  "all_log_ops local_ops peer_logs = local_ops @ concat (map snd peer_logs)"

lemma resolve_ids:
  assumes "iteration_order po" and "iteration_order io"
  shows "\<exists>ops. resolve_divergent_logs po io l p = Inr ops \<and> distinct (map op_id ops) \<and>
    op_id ` set ops = op_id ` set (all_log_ops l p) \<and> set ops \<subseteq> set (all_log_ops l p)"
proof -
  let ?all = "l @ concat (map snd (po p))"
  let ?ops = "map snd (io (dedup_by_id ?all))"
  have all: "set ?all = set (all_log_ops l p)"
    using iteration_order_set [OF assms(1), of p] by (simp add: all_log_ops_def)
  have io: "mset (io (dedup_by_id ?all)) = mset (dedup_by_id ?all)"
    using assms(2) unfolding iteration_order_def by blast
  then have "mset (map op_id ?ops) = mset (map op_id (map snd (dedup_by_id ?all)))"
    by (metis mset_map)
  then have "distinct (map op_id ?ops)"
    using dedup_distinct_ids [of ?all] mset_eq_imp_distinct_iff by blast
  moreover have set_ops: "set ?ops = snd ` set (dedup_by_id ?all)"
    using iteration_order_set [OF assms(2)] by simp
  then have "set ?ops \<subseteq> set ?all" using dedup_by_id_mem by fastforce
  moreover have "op_id ` set ?ops = op_id ` set ?all"
    unfolding set_ops by (rule dedup_op_ids)
  ultimately show ?thesis
    using all by (simp add: resolve_divergent_logs_def Let_def)
qed

lemma later_pairs_filter:
  "set (later_pairs (filter P xs)) = {(a, b) \<in> set (later_pairs xs). P a \<and> P b}"
  by (induction xs) auto

lemma later_pairs_mem: "(a, b) \<in> set (later_pairs xs) \<Longrightarrow> a \<in> set xs \<and> b \<in> set xs"
  by (induction xs) auto

lemma later_pairs_length: "later_pairs xs \<noteq> [] \<Longrightarrow> \<not> length xs < 2"
  by (cases xs rule: later_pairs.cases; cases "tl xs") auto

lemma concurrent_groups_mem:
  "[a, b] \<in> set (concurrent_groups xs) \<longleftrightarrow>
     (a, b) \<in> set (later_pairs xs) \<and> concurrent_with (vector_clock a) (vector_clock b)"
  by (force simp: concurrent_groups_def concurrent_with_def)

lemma concurrent_groups_nonempty: "concurrent_groups xs \<noteq> [] \<Longrightarrow> \<not> length xs < 2"
  using later_pairs_length [of xs] by (cases "later_pairs xs") (auto simp: concurrent_groups_def)

lemma detect_conflicts_mem:
  assumes "iteration_order go"
  shows "g \<in> set (detect_conflicts go ops) \<longleftrightarrow>
    group_target g \<in> conflict_scope ` set ops \<and> conflict_group.more g = () \<and> concurrent_operations g \<noteq> [] \<and>
    concurrent_operations g = concurrent_groups (filter (\<lambda>op. conflict_scope op = group_target g) ops)"
proof -
  have "g \<in> set (detect_conflicts go ops) \<longleftrightarrow>
      (\<exists>t ys. (t, ys) \<in> set (group_push conflict_scope ops) \<and> \<not> length ys < 2 \<and>
        concurrent_groups ys \<noteq> [] \<and> g = \<lparr>group_target = t, concurrent_operations = concurrent_groups ys\<rparr>)"
    using iteration_order_set [OF assms, of "group_push conflict_scope ops"]
    by (auto simp: detect_conflicts_def Let_def split: if_splits)
  also have "\<dots> \<longleftrightarrow> (\<exists>t \<in> conflict_scope ` set ops.
        concurrent_groups (filter (\<lambda>op. conflict_scope op = t) ops) \<noteq> [] \<and>
        g = \<lparr>group_target = t,
             concurrent_operations = concurrent_groups (filter (\<lambda>op. conflict_scope op = t) ops)\<rparr>)"
    unfolding group_push_mem using concurrent_groups_nonempty by blast
  finally show ?thesis by (cases g) auto
qed

lemma consensus_clock_lub:
  assumes "\<forall>c \<in> set cs. vc_wf c"
  shows "vc_wf (calculate_consensus_vector_clock cs) \<and>
    (vc_le (calculate_consensus_vector_clock cs) v \<longleftrightarrow> (\<forall>c \<in> set cs. vc_le c v))"
  using assms
proof (induction cs rule: rev_induct)
  case (snoc c cs)
  let ?m = "calculate_consensus_vector_clock cs"
  have m: "calculate_consensus_vector_clock (cs @ [c]) = vc_merge ?m c"
    by (simp add: calculate_consensus_vector_clock_def)
  have "vc_le (vc_merge ?m c) v \<longleftrightarrow> vc_le ?m v \<and> vc_le c v"
    using snoc.prems by (auto simp: vc_le_def vc_simps)
  with snoc m show ?case by auto
qed (simp add: calculate_consensus_vector_clock_def vc_le_def vc_simps)

section \<open>Properties\<close>

text \<open>C35. Convergence of log resolution: two nodes that together with their peers hold the same
  operations, in whatever split and with whatever iteration order of their hash maps, resolve
  them to the same list; the list holds every operation once and never places one before an
  operation that happened before it. The logs' wall clocks agree with causality, and no
  two operations share an id or a timestamp and node.\<close>

theorem resolve_divergent_logs_converges:
  assumes "iteration_order po" "iteration_order io" "iteration_order po'" "iteration_order io'"
    and "set (all_log_ops l p) = set ops" and "set (all_log_ops l' p') = set ops"
    and "clock_consistent ops" and "inj_on op_id (set ops)"
    and "\<forall>a \<in> set ops. \<forall>b \<in> set ops.
      timestamp_ms a = timestamp_ms b \<and> cluster_node_id a = cluster_node_id b \<longrightarrow> a = b"
  shows "\<exists>r. resolve_divergent_logs po io l p = Inr r \<and> resolve_divergent_logs po' io' l' p' = Inr r \<and>
    set r = set ops \<and> distinct (map op_id r) \<and>
    sorted_wrt (\<lambda>a b. \<not> happens_before (vector_clock b) (vector_clock a)) r"
proof -
  note total = lww_total [OF assms(7)]
  obtain r where r: "resolve_divergent_logs po io l p = Inr r" "distinct (map op_id r)"
      "op_id ` set r = op_id ` set ops" "set r \<subseteq> set ops"
    using resolve_ids [OF assms(1,2), of l p] assms(5) by auto
  obtain r' where r': "resolve_divergent_logs po' io' l' p' = Inr r'" "distinct (map op_id r')"
      "op_id ` set r' = op_id ` set ops" "set r' \<subseteq> set ops"
    using resolve_ids [OF assms(3,4), of l' p'] assms(6) by auto
  have sets: "set r = set ops" "set r' = set ops"
    using same_ids_same_set [OF r(4,3) assms(8)] same_ids_same_set [OF r'(4,3) assms(8)] by auto
  have sorted: "sorted_wrt (\<lambda>a b. compare_operations_lww a b \<noteq> Greater) xs"
    if "resolve_divergent_logs q i m n = Inr xs" "set xs = set ops" for q i m n xs
    using that rust_cmp.sorted_sort_by [OF total]
    by (auto simp: resolve_divergent_logs_def Let_def compare_operations_eq_lww)
  have "r = r'"
  proof (rule rust_cmp.sorted_by_unique [OF total])
    show "a = b" if "a \<in> set r" "b \<in> set r" "compare_operations_lww a b = Equal" for a b
      using that sets(1) lww_no_ties [OF assms(7,9)] by blast
  qed (use r r' sets sorted [OF r(1)] sorted [OF r'(1)] distinct_map in auto)
  moreover have "sorted_wrt (\<lambda>a b. \<not> happens_before (vector_clock b) (vector_clock a)) r"
    using sorted [OF r(1) sets(1)] by (rule sorted_wrt_mono_rel [rotated]) (metis lww_causal lww_flip reverse_ordering.simps(1))
  ultimately show ?thesis using r r' sets by auto
qed

theorem resolve_divergent_logs_converges_witness:
  "let a = sample_op 1 ''n1'' 10 [(''n1'', 1)]; b = sample_op 2 ''n2'' 20 [(''n1'', 1), (''n2'', 1)] in
   \<exists>r. resolve_divergent_logs id id [a] [(''n2'', [b, a])] = Inr r \<and>
       resolve_divergent_logs rev rev [b] [(''n1'', [a])] = Inr r \<and> set r = {a, b}"
proof -
  let ?a = "sample_op 1 ''n1'' 10 [(''n1'', 1)]" and ?b = "sample_op 2 ''n2'' 20 [(''n1'', 1), (''n2'', 1)]"
  have cc: "clock_consistent [?a, ?b]"
    by (simp add: clock_consistent_def op_stamp_less_def happens_before_def lww_eval)
  have inj: "inj_on op_id (set [?a, ?b])" by (auto simp: inj_on_def)
  have ties: "\<forall>x \<in> set [?a, ?b]. \<forall>y \<in> set [?a, ?b].
      timestamp_ms x = timestamp_ms y \<and> cluster_node_id x = cluster_node_id y \<longrightarrow> x = y" by simp
  have it: "iteration_order id" "iteration_order rev"
    by (simp_all add: iteration_order_def)
  have logs: "set (all_log_ops [?a] [(''n2'', [?b, ?a])]) = set [?a, ?b]"
    "set (all_log_ops [?b] [(''n1'', [?a])]) = set [?a, ?b]"
    by (auto simp: all_log_ops_def)
  obtain r where "resolve_divergent_logs id id [?a] [(''n2'', [?b, ?a])] = Inr r"
      "resolve_divergent_logs rev rev [?b] [(''n1'', [?a])] = Inr r" "set r = set [?a, ?b]"
    using resolve_divergent_logs_converges [OF it(1) it(1) it(2) it(2) logs cc inj ties] by metis
  then show ?thesis unfolding Let_def list.set by metis
qed

text \<open>Conflict detection: a pair of operations is reported under a scope exactly when both
  belong to that scope (tenant, repository and branch), the first precedes the second in the
  input, and their clocks are concurrent.\<close>

theorem detect_conflicts_exact:
  assumes "iteration_order group_order"
  shows "(\<exists>g \<in> set (detect_conflicts group_order ops).
      group_target g = t \<and> [a, b] \<in> set (concurrent_operations g)) \<longleftrightarrow>
    (a, b) \<in> set (later_pairs ops) \<and> conflict_scope a = t \<and> conflict_scope b = t \<and>
    concurrent_with (vector_clock a) (vector_clock b)"
    (is "?l \<longleftrightarrow> ?r")
proof
  assume ?l
  then show ?r
    by (auto simp: detect_conflicts_mem [OF assms] concurrent_groups_mem later_pairs_filter)
next
  assume ?r
  let ?gs = "concurrent_groups (filter (\<lambda>op. conflict_scope op = t) ops)"
  have mem: "[a, b] \<in> set ?gs"
    using \<open>?r\<close> by (simp add: concurrent_groups_mem later_pairs_filter)
  have "t \<in> conflict_scope ` set ops"
    using \<open>?r\<close> later_pairs_mem [of a b ops] by auto
  with mem have "\<lparr>group_target = t, concurrent_operations = ?gs\<rparr> \<in> set (detect_conflicts group_order ops)"
    by (auto simp: detect_conflicts_mem [OF assms])
  with mem show ?l by (auto intro: bexI [rotated])
qed

theorem detect_conflicts_exact_witness:
  "\<exists>g \<in> set (detect_conflicts id [sample_op 1 ''n1'' 10 [(''n1'', 1)], sample_op 2 ''n2'' 20 [(''n2'', 1)]]).
     [sample_op 1 ''n1'' 10 [(''n1'', 1)], sample_op 2 ''n2'' 20 [(''n2'', 1)]] \<in> set (concurrent_operations g)"
proof -
  let ?a = "sample_op 1 ''n1'' 10 [(''n1'', 1)]" and ?b = "sample_op 2 ''n2'' 20 [(''n2'', 1)]"
  have "concurrent_with (vector_clock ?a) (vector_clock ?b)"
    by (simp add: concurrent_with_def lww_eval)
  moreover have "conflict_scope ?a = conflict_scope ?b"
    by (simp add: conflict_scope_def sample_op_def operation_new_def)
  moreover have "iteration_order id" by (simp add: iteration_order_def)
  ultimately show ?thesis
    using detect_conflicts_exact [of id "[?a, ?b]" "conflict_scope ?b" ?a ?b] by auto
qed

end
