(* ===== verification/Replay.thy ===== *)
theory Replay
  imports Conflict_Resolution
begin

text \<open>
  \<open>raisin-replication/src/replay\<close>: the replay engine. A batch of operations is filtered by the
  idempotency tracker, sorted causally, grouped by conflict register, merged register by register, and the
  winners are marked as applied.

  The trait \<open>IdempotencyTracker\<close> is the locale \<open>idempotency_tracker\<close>; \<open>replay\<close> takes its two
  methods as arguments, and the in-memory tracker of the code interprets the locale. The iteration order
  of the map of groups and the printer of a \<open>Uuid\<close> are parameters. \<open>None\<close> is a panic.
\<close>

section \<open>Idempotency trackers\<close>

record in_memory_tracker =
  applied_ops :: "uuid hash_set"
  checks_total :: u64
  hits_total :: u64
  misses_total :: u64

definition tracker_with_applied_ops :: "uuid hash_set \<Rightarrow> in_memory_tracker" where
  "tracker_with_applied_ops ops = \<lparr>applied_ops = ops, checks_total = 0, hits_total = 0, misses_total = 0\<rparr>"

definition tracker_new :: in_memory_tracker where
  "tracker_new = tracker_with_applied_ops []"

definition mem_is_applied :: "uuid \<Rightarrow> in_memory_tracker \<Rightarrow> (string + bool) \<times> in_memory_tracker" where
  "mem_is_applied i t =
     (let t = t\<lparr>checks_total := checks_total t + 1\<rparr>;
          result = List.member (applied_ops t) i
      in (Inr result,
          if result then t\<lparr>hits_total := hits_total t + 1\<rparr>
          else t\<lparr>misses_total := misses_total t + 1\<rparr>))"

definition mem_mark_applied :: "uuid \<Rightarrow> u64 \<Rightarrow> in_memory_tracker \<Rightarrow> (string + unit) \<times> in_memory_tracker" where
  "mem_mark_applied i ts t = (Inr (), t\<lparr>applied_ops := List.insert i (applied_ops t)\<rparr>)"

definition mem_mark_applied_batch ::
  "(uuid \<times> u64) list \<Rightarrow> in_memory_tracker \<Rightarrow> (string + unit) \<times> in_memory_tracker" where
  "mem_mark_applied_batch ids t =
     (Inr (), t\<lparr>applied_ops := foldl (\<lambda>s (i, _). List.insert i s) (applied_ops t) ids\<rparr>)"

text \<open>The default method of the trait, which stops at the first error.\<close>

fun mark_applied_batch ::
  "(uuid \<Rightarrow> u64 \<Rightarrow> 't \<Rightarrow> (string + unit) \<times> 't) \<Rightarrow> (uuid \<times> u64) list \<Rightarrow> 't \<Rightarrow> (string + unit) \<times> 't" where
  "mark_applied_batch mark [] t = (Inr (), t)"
| "mark_applied_batch mark ((i, ts) # ids) t =
     (case mark i ts t of
        (Inl e, t') \<Rightarrow> (Inl e, t')
      | (Inr _, t') \<Rightarrow> mark_applied_batch mark ids t')"

section \<open>The engine\<close>

record 'p conflict_info =
  info_winner :: "'p operation"
  info_losers :: "'p operation list"
  info_type :: conflict_type
  info_target :: operation_target

record 'p replay_result =
  applied :: "'p operation list"
  conflicts :: "'p conflict_info list"
  skipped :: "'p operation list"

fun filter_applied ::
  "(uuid \<Rightarrow> 't \<Rightarrow> (string + bool) \<times> 't) \<Rightarrow> 'p operation list \<Rightarrow> 't
     \<Rightarrow> ('p operation list \<times> 'p operation list) \<times> 't" where
  "filter_applied is_app [] t = (([], []), t)"
| "filter_applied is_app (op # ops) t =
     (let (res, t') = is_app (op_id op) t;
          ((new_ops, skipped), t'') = filter_applied is_app ops t'
      in (case res of
            Inr True \<Rightarrow> ((new_ops, op # skipped), t'')
          | Inr False \<Rightarrow> ((op # new_ops, skipped), t'')
          | Inl e \<Rightarrow> ((op # new_ops, skipped), t'')))"

definition compare_causal :: "'p operation \<Rightarrow> 'p operation \<Rightarrow> rust_ordering" where
  "compare_causal a b =
     (if happens_before (vector_clock a) (vector_clock b) then Less
      else if happens_after (vector_clock a) (vector_clock b) then Greater
      else (case cmp_of (timestamp_ms a) (timestamp_ms b) of
              Less \<Rightarrow> Less
            | Greater \<Rightarrow> Greater
            | Equal \<Rightarrow> cmp_of (cluster_node_id a) (cluster_node_id b)))"

definition causal_sort :: "'p operation list \<Rightarrow> 'p operation list" where
  "causal_sort ops = sort_by compare_causal ops"

definition conflict_group_key :: "(uuid \<Rightarrow> string) \<Rightarrow> 'p operation \<Rightarrow> string" where
  "conflict_group_key uuid_str op =
     target_to_string (target uuid_str op) @
     (case op_type op of
        AddRelation _ _ relation_type target_id _ _ \<Rightarrow> ''#rel:'' @ relation_type @ '':'' @ target_id
      | RemoveRelation _ _ relation_type target_id _ \<Rightarrow> ''#rel:'' @ relation_type @ '':'' @ target_id
      | DeleteNodeSnapshot _ _ _ _ \<Rightarrow> ''#delete''
      | UpsertNodeSnapshot _ _ _ _ \<Rightarrow> ''#snapshot''
      | UpdateBranch _ \<Rightarrow> ''#update''
      | UpdateUser _ _ \<Rightarrow> ''#update''
      | UpdateTenant _ _ \<Rightarrow> ''#update''
      | UpdateRepository _ _ _ \<Rightarrow> ''#update''
      | UpdateNodeType _ _ \<Rightarrow> ''#update''
      | UpdateArchetype _ _ \<Rightarrow> ''#update''
      | UpdateElementType _ _ \<Rightarrow> ''#update''
      | UpdateWorkspace _ _ \<Rightarrow> ''#update''
      | _ \<Rightarrow> ''#op:'' @ uuid_str (op_id op))"

definition group_by_conflict_key ::
  "(uuid \<Rightarrow> string) \<Rightarrow> 'p operation list \<Rightarrow> (string, 'p operation list) hash_map" where
  "group_by_conflict_key uuid_str ops = group_push (conflict_group_key uuid_str) ops"

definition group_by_target ::
  "(uuid \<Rightarrow> string) \<Rightarrow> 'p operation list \<Rightarrow> (operation_target, 'p operation list) hash_map" where
  "group_by_target uuid_str ops = group_push (target uuid_str) ops"

text \<open>The loop over the groups: the winners, and the conflicts.\<close>

fun merge_groups ::
  "(uuid \<Rightarrow> string) \<Rightarrow> (string \<times> 'p operation list) list
     \<Rightarrow> ('p operation list \<times> 'p conflict_info list) option" where
  "merge_groups uuid_str [] = Some ([], [])"
| "merge_groups uuid_str ((k, ops) # gs) =
     (if ops = [] then None else
      case merge_operations ops of
        None \<Rightarrow> None
      | Some r \<Rightarrow>
          (case merge_groups uuid_str gs of
             None \<Rightarrow> None
           | Some (app, conf) \<Rightarrow>
               (case r of
                  Winner w \<Rightarrow> Some (w # app, conf)
                | Conflict w ls ty \<Rightarrow>
                    Some (w # app,
                      \<lparr>info_winner = w, info_losers = ls, info_type = ty,
                       info_target = target uuid_str (hd ops)\<rparr> # conf))))"

text \<open>Marking the winners; an error is logged and the loop goes on.\<close>

definition mark_all ::
  "(uuid \<Rightarrow> u64 \<Rightarrow> 't \<Rightarrow> (string + unit) \<times> 't) \<Rightarrow> 'p operation list \<Rightarrow> 't \<Rightarrow> 't" where
  "mark_all mark ops t = foldl (\<lambda>t op. snd (mark (op_id op) (timestamp_ms op) t)) t ops"

definition replay ::
  "(uuid \<Rightarrow> 't \<Rightarrow> (string + bool) \<times> 't) \<Rightarrow> (uuid \<Rightarrow> u64 \<Rightarrow> 't \<Rightarrow> (string + unit) \<times> 't) \<Rightarrow>
   (uuid \<Rightarrow> string) \<Rightarrow>
   ((string \<times> 'p operation list) list \<Rightarrow> (string \<times> 'p operation list) list) \<Rightarrow>
   'p operation list \<Rightarrow> 't \<Rightarrow> ('p replay_result \<times> 't) option" where
  "replay is_app mark uuid_str group_order operations t =
     (let ((new_ops, skip), t') = filter_applied is_app operations t
      in if new_ops = [] then Some (\<lparr>applied = [], conflicts = [], skipped = skip\<rparr>, t')
         else
           let grouped_ops = group_by_conflict_key uuid_str (causal_sort new_ops)
           in case merge_groups uuid_str (group_order grouped_ops) of
                None \<Rightarrow> None
              | Some (app, conf) \<Rightarrow>
                  Some (\<lparr>applied = app, conflicts = conf, skipped = skip\<rparr>, mark_all mark app t'))"

text \<open>The engine over the in-memory tracker, as \<open>ReplayEngine::new\<close> builds it.\<close>

abbreviation replay_mem where
  "replay_mem \<equiv> replay mem_is_applied mem_mark_applied"

section \<open>The contract of a tracker\<close>

text \<open>
  \<open>known t i\<close> says that the tracker \<open>t\<close> holds the id \<open>i\<close>. A check that answers tells the truth
  and changes nothing; a mark that succeeds adds the id, and one that fails changes nothing.
\<close>

locale idempotency_tracker =
  fixes is_app :: "uuid \<Rightarrow> 't \<Rightarrow> (string + bool) \<times> 't"
    and mark :: "uuid \<Rightarrow> u64 \<Rightarrow> 't \<Rightarrow> (string + unit) \<times> 't"
    and known :: "'t \<Rightarrow> uuid \<Rightarrow> bool"
  assumes is_app_true: "fst (is_app i t) = Inr b \<Longrightarrow> b = known t i"
    and is_app_known: "known (snd (is_app i t)) = known t"
    and mark_known: "known (snd (mark i ts t)) =
      (case fst (mark i ts t) of Inl _ \<Rightarrow> known t | Inr _ \<Rightarrow> (known t)(i := True))"
begin

lemma filter_applied_known: "known (snd (filter_applied is_app ops t)) = known t"
  by (induction ops arbitrary: t)
    (auto simp: is_app_known Let_def split_beta split: sum.splits bool.splits)

lemma filter_applied_set:
  "set (fst (fst (filter_applied is_app ops t))) \<union> set (snd (fst (filter_applied is_app ops t))) = set ops"
  by (induction ops arbitrary: t) (auto simp: Let_def split_beta split: sum.splits bool.splits)

lemma filter_applied_skipped:
  "op \<in> set (snd (fst (filter_applied is_app ops t))) \<Longrightarrow> known t (op_id op)"
proof (induction ops arbitrary: t)
  case (Cons x xs)
  have "known t (op_id x)" if "fst (is_app (op_id x) t) = Inr True"
    using is_app_true [OF that] by simp
  with Cons.prems Cons.IH [of "snd (is_app (op_id x) t)"] show ?case
    by (auto simp: Let_def split_beta is_app_known split: sum.splits bool.splits)
qed simp

lemma mark_all_known_mono: "known t i \<Longrightarrow> known (mark_all mark ops t) i"
  by (induction ops arbitrary: t) (auto simp: mark_all_def mark_known split: sum.splits)

lemma mark_all_known_sub: "known (mark_all mark ops t) i \<Longrightarrow> known t i \<or> i \<in> op_id ` set ops"
  by (induction ops arbitrary: t) (fastforce simp: mark_all_def mark_known split: sum.splits if_splits)+

end

text \<open>A tracker that does not fail.\<close>

locale reliable_tracker = idempotency_tracker +
  assumes is_app_ok: "isl (fst (is_app i t)) = False"
    and mark_ok: "isl (fst (mark i ts t)) = False"
begin

lemma is_app_val: "fst (is_app i t) = Inr (known t i)"
proof -
  obtain b where "fst (is_app i t) = Inr b"
    using is_app_ok [of i t] by (cases "fst (is_app i t)") auto
  with is_app_true show ?thesis by blast
qed

lemma filter_applied_val:
  "fst (filter_applied is_app ops t) =
     (filter (\<lambda>op. \<not> known t (op_id op)) ops, filter (\<lambda>op. known t (op_id op)) ops)"
proof (induction ops arbitrary: t)
  case (Cons x xs)
  show ?case
    using Cons.IH [of "snd (is_app (op_id x) t)"]
    by (auto simp: Let_def split_beta is_app_known is_app_val split: bool.splits)
qed simp

lemma mark_known_val: "known (snd (mark i ts t)) = (known t)(i := True)"
  using mark_known [of i ts t] mark_ok [of i ts t] by (cases "fst (mark i ts t)") auto

lemma mark_all_known: "known (mark_all mark ops t) i \<longleftrightarrow> known t i \<or> i \<in> op_id ` set ops"
  by (induction ops arbitrary: t) (auto simp: mark_all_def mark_known_val)

end

abbreviation mem_known :: "in_memory_tracker \<Rightarrow> uuid \<Rightarrow> bool" where
  "mem_known t i \<equiv> i \<in> set (applied_ops t)"

interpretation mem: reliable_tracker mem_is_applied mem_mark_applied mem_known
  by unfold_locales (auto simp: mem_is_applied_def mem_mark_applied_def Let_def fun_eq_iff)

section \<open>One batch\<close>

lemma compare_causal_eq_lww: "compare_causal = compare_operations_lww"
proof (intro ext)
  fix a b :: "'a operation"
  show "compare_causal a b = compare_operations_lww a b"
    unfolding compare_causal_def compare_operations_lww_def happens_before_def happens_after_def
    by (cases "vc_compare (vector_clock a) (vector_clock b)")
      (auto split: rust_ordering.splits)
qed

lemma merge_groups_Some:
  "\<forall>g \<in> set gs. snd g \<noteq> [] \<Longrightarrow> merge_groups u gs \<noteq> None"
proof (induction u gs rule: merge_groups.induct)
  case (2 u k ops gs)
  then obtain r where "merge_operations ops = Some r"
    using arg_cong [OF merge_operations_winner [of ops], of "\<lambda>x. x = None"]
    by (cases "merge_operations ops") auto
  with 2 show ?case by (auto split: merge_result.splits)
qed simp

lemma merge_groups_winners:
  "merge_groups u gs = Some (app, conf) \<Longrightarrow> map Some app = map (\<lambda>g. max_by compare_operations_lww (snd g)) gs"
proof (induction gs arbitrary: app conf)
  case (Cons g gs)
  obtain k ops where g: "g = (k, ops)" by (cases g)
  obtain r app' conf' where r: "merge_operations ops = Some r" "merge_groups u gs = Some (app', conf')"
      "app = merge_winner r # app'"
    using Cons.prems g by (auto split: if_splits option.splits merge_result.splits)
  then show ?case
    using Cons.IH [OF r(2)] merge_operations_winner [of ops] g by simp
qed simp

lemma merge_groups_keys:
  assumes "merge_groups u gs = Some (app, conf)"
    and "\<And>k ops op. \<lbrakk>(k, ops) \<in> set gs; op \<in> set ops\<rbrakk> \<Longrightarrow> key op = k"
  shows "map key app = map fst gs"
proof -
  have "map Some app = map (\<lambda>g. max_by compare_operations_lww (snd g)) gs"
    by (rule merge_groups_winners [OF assms(1)])
  then have "list_all2 (\<lambda>w g. Some w = max_by compare_operations_lww (snd g)) app gs"
    by (simp add: list_all2_conv_all_nth list_eq_iff_nth_eq)
  then have "list_all2 (\<lambda>w g. key w = fst g) app gs"
  proof (rule list.rel_mono_strong)
    fix w g assume "g \<in> set gs" and "Some w = max_by compare_operations_lww (snd g)"
    then show "key w = fst g"
      using assms(2) [of "fst g" "snd g" w] max_by_in [of compare_operations_lww "snd g" w] by simp
  qed
  then show ?thesis
    by (simp add: list_all2_conv_all_nth list_eq_iff_nth_eq)
qed

text \<open>The groups of a batch of new operations, as the loop visits them.\<close>

definition replay_groups ::
  "(uuid \<Rightarrow> string) \<Rightarrow> ((string \<times> 'p operation list) list \<Rightarrow> (string \<times> 'p operation list) list) \<Rightarrow>
   'p operation list \<Rightarrow> (string \<times> 'p operation list) list" where
  "replay_groups u go ops = go (group_by_conflict_key u (causal_sort ops))"

lemma replay_groups_mem:
  assumes "iteration_order go"
  shows "(k, xs) \<in> set (replay_groups u go ops) \<longleftrightarrow>
    k \<in> conflict_group_key u ` set ops \<and> xs = filter (\<lambda>op. conflict_group_key u op = k) (causal_sort ops)"
  using iteration_order_set [OF assms]
  by (simp add: replay_groups_def group_by_conflict_key_def group_push_mem causal_sort_def)

lemma replay_groups_distinct:
  assumes "iteration_order go" shows "distinct (map fst (replay_groups u go ops))"
proof -
  have "mset (replay_groups u go ops) = mset (group_by_conflict_key u (causal_sort ops))"
    using assms by (simp add: replay_groups_def iteration_order_def)
  then have "mset (map fst (replay_groups u go ops)) = mset (map fst (group_by_conflict_key u (causal_sort ops)))"
    by (metis mset_map)
  then show ?thesis
    by (metis group_by_conflict_key_def hm_wf_group_push mset_eq_imp_distinct_iff)
qed

lemma replay_groups_nonempty:
  assumes "iteration_order go" and "g \<in> set (replay_groups u go ops)"
  shows "snd g \<noteq> []"
  using assms replay_groups_mem [OF assms(1), of "fst g" "snd g" u ops]
  by (auto simp: filter_empty_conv causal_sort_def)

lemma replay_groups_merge:
  assumes "iteration_order go"
  obtains app conf where "merge_groups u (replay_groups u go ops) = Some (app, conf)"
    and "distinct (map (conflict_group_key u) app)"
    and "conflict_group_key u ` set app = conflict_group_key u ` set ops"
    and "\<And>w. w \<in> set app \<longleftrightarrow> (\<exists>k \<in> conflict_group_key u ` set ops.
      max_by compare_operations_lww (filter (\<lambda>op. conflict_group_key u op = k) (causal_sort ops)) = Some w)"
proof -
  let ?gs = "replay_groups u go ops"
  obtain app conf where ac: "merge_groups u ?gs = Some (app, conf)"
    using merge_groups_Some [of ?gs u] replay_groups_nonempty [OF assms]
    by (cases "merge_groups u ?gs") auto
  have keys: "map (conflict_group_key u) app = map fst ?gs"
    by (rule merge_groups_keys [OF ac]) (auto simp: replay_groups_mem [OF assms])
  have fst_gs: "fst ` set ?gs = conflict_group_key u ` set ops"
  proof
    show "fst ` set ?gs \<subseteq> conflict_group_key u ` set ops"
      by (force simp: replay_groups_mem [OF assms])
    show "conflict_group_key u ` set ops \<subseteq> fst ` set ?gs"
    proof
      fix k assume "k \<in> conflict_group_key u ` set ops"
      then have "(k, filter (\<lambda>op. conflict_group_key u op = k) (causal_sort ops)) \<in> set ?gs"
        unfolding replay_groups_mem [OF assms] by blast
      then show "k \<in> fst ` set ?gs" by force
    qed
  qed
  have "Some ` set app = (\<lambda>g. max_by compare_operations_lww (snd g)) ` set ?gs"
    using arg_cong [OF merge_groups_winners [OF ac], of set] by simp
  then have "Some w \<in> Some ` set app \<longleftrightarrow> (\<exists>k xs. (k, xs) \<in> set ?gs \<and> max_by compare_operations_lww xs = Some w)" for w
    unfolding image_iff [of "Some w" "\<lambda>g. max_by compare_operations_lww (snd g)"] by force
  then have app: "w \<in> set app \<longleftrightarrow> (\<exists>k \<in> conflict_group_key u ` set ops.
      max_by compare_operations_lww (filter (\<lambda>op. conflict_group_key u op = k) (causal_sort ops)) = Some w)" for w
    unfolding replay_groups_mem [OF assms] inj_image_mem_iff [OF inj_Some] by blast
  have "distinct (map (conflict_group_key u) app)"
    unfolding keys by (rule replay_groups_distinct [OF assms])
  moreover have "conflict_group_key u ` set app = conflict_group_key u ` set ops"
    using arg_cong [OF keys, of set] fst_gs by simp
  ultimately show thesis using that ac app by blast
qed

lemma causal_sort_set [simp]: "set (causal_sort ops) = set ops"
  by (simp add: causal_sort_def)

text \<open>A run of the engine over successive batches.\<close>

fun replay_batches ::
  "(uuid \<Rightarrow> 't \<Rightarrow> (string + bool) \<times> 't) \<Rightarrow> (uuid \<Rightarrow> u64 \<Rightarrow> 't \<Rightarrow> (string + unit) \<times> 't) \<Rightarrow>
   (uuid \<Rightarrow> string) \<Rightarrow>
   ((string \<times> 'p operation list) list \<Rightarrow> (string \<times> 'p operation list) list) \<Rightarrow>
   'p operation list list \<Rightarrow> 't \<Rightarrow> ('p operation list \<times> 't) option" where
  "replay_batches is_app mark u go [] t = Some ([], t)"
| "replay_batches is_app mark u go (b # bs) t =
     (case replay is_app mark u go b t of
        None \<Rightarrow> None
      | Some (r, t') \<Rightarrow> map_option (\<lambda>(app, t''). (applied r @ app, t'')) (replay_batches is_app mark u go bs t'))"

context reliable_tracker
begin

lemma replay_spec:
  assumes "iteration_order go"
  defines "new \<equiv> \<lambda>t :: 'a. filter (\<lambda>op :: 'p operation. \<not> known t (op_id op))"
  obtains r t' where "replay is_app mark u go ops t = Some (r, t')"
    and "skipped r = filter (\<lambda>op. known t (op_id op)) ops"
    and "distinct (map (conflict_group_key u) (applied r))"
    and "conflict_group_key u ` set (applied r) = conflict_group_key u ` set (new t ops)"
    and "\<And>w. w \<in> set (applied r) \<longleftrightarrow> (\<exists>k \<in> conflict_group_key u ` set (new t ops).
      max_by compare_operations_lww (filter (\<lambda>op. conflict_group_key u op = k) (causal_sort (new t ops))) = Some w)"
    and "\<And>i. known t' i \<longleftrightarrow> known t i \<or> i \<in> op_id ` set (applied r)"
proof (cases "new t ops = []")
  case True
  then have "replay is_app mark u go ops t =
      Some (\<lparr>applied = [], conflicts = [], skipped = filter (\<lambda>op. known t (op_id op)) ops\<rparr>,
            snd (filter_applied is_app ops t))"
    using filter_applied_val [of ops t] by (simp add: replay_def split_beta new_def)
  then show thesis
    by (rule that) (use True in \<open>auto simp: filter_applied_known\<close>)
next
  case False
  obtain app conf where ac: "merge_groups u (replay_groups u go (new t ops)) = Some (app, conf)"
      "distinct (map (conflict_group_key u) app)"
      "conflict_group_key u ` set app = conflict_group_key u ` set (new t ops)"
    and app: "\<And>w. w \<in> set app \<longleftrightarrow> (\<exists>k \<in> conflict_group_key u ` set (new t ops).
      max_by compare_operations_lww (filter (\<lambda>op. conflict_group_key u op = k) (causal_sort (new t ops))) = Some w)"
    using replay_groups_merge [OF assms(1), of u "new t ops"] by metis
  have "replay is_app mark u go ops t =
      Some (\<lparr>applied = app, conflicts = conf, skipped = filter (\<lambda>op. known t (op_id op)) ops\<rparr>,
            mark_all mark app (snd (filter_applied is_app ops t)))"
    using filter_applied_val [of ops t] False ac(1)
    by (simp add: replay_def split_beta new_def replay_groups_def)
  then show thesis
    by (rule that) (use ac app in \<open>auto simp: mark_all_known filter_applied_known\<close>)
qed

lemma winner_mem:
  assumes "max_by c (filter P (causal_sort ops)) = Some w"
  shows "w \<in> set ops"
  using max_by_in [OF assms] by simp

lemma replay_applied_new:
  assumes "iteration_order go" and "replay is_app mark u go ops t = Some (r, t')"
  shows "set (applied r) \<subseteq> {op \<in> set ops. \<not> known t (op_id op)}"
    and "known t' i \<longleftrightarrow> known t i \<or> i \<in> op_id ` set (applied r)"
    and "distinct (map (conflict_group_key u) (applied r))"
proof -
  obtain q s where q: "replay is_app mark u go ops t = Some (q, s)"
      "distinct (map (conflict_group_key u) (applied q))"
    and mem: "\<And>w. w \<in> set (applied q) \<Longrightarrow> w \<in> set (filter (\<lambda>op. \<not> known t (op_id op)) ops)"
    and kn: "\<And>i. known s i \<longleftrightarrow> known t i \<or> i \<in> op_id ` set (applied q)"
    by (rule replay_spec [OF assms(1), of u ops t]) (metis winner_mem)
  from q(1) assms(2) have "q = r" "s = t'" by simp_all
  with q(2) mem kn show "set (applied r) \<subseteq> {op \<in> set ops. \<not> known t (op_id op)}"
      "known t' i \<longleftrightarrow> known t i \<or> i \<in> op_id ` set (applied r)"
      "distinct (map (conflict_group_key u) (applied r))"
    by auto
qed

lemma replay_batches_once:
  assumes "iteration_order go"
    and "\<And>a b. \<lbrakk>a \<in> set (concat bs); b \<in> set (concat bs); op_id a = op_id b\<rbrakk> \<Longrightarrow> a = b"
  shows "\<exists>app t'. replay_batches is_app mark u go bs t = Some (app, t') \<and> distinct (map op_id app) \<and>
    set app \<subseteq> {op \<in> set (concat bs). \<not> known t (op_id op)} \<and>
    (\<forall>i. known t' i \<longleftrightarrow> known t i \<or> i \<in> op_id ` set app)"
  using assms(2)
proof (induction bs arbitrary: t)
  case (Cons b bs)
  obtain r t1 where r: "replay is_app mark u go b t = Some (r, t1)"
    using replay_spec [OF assms(1), of u b t] by metis
  note new = replay_applied_new [OF assms(1) r]
  obtain app t' where app: "replay_batches is_app mark u go bs t1 = Some (app, t')" "distinct (map op_id app)"
      "set app \<subseteq> {op \<in> set (concat bs). \<not> known t1 (op_id op)}"
      "\<forall>i. known t' i \<longleftrightarrow> known t1 i \<or> i \<in> op_id ` set app"
    using Cons.IH [of t1] Cons.prems by auto
  have "inj_on op_id (set (applied r))"
  proof (rule inj_onI)
    fix x y assume "x \<in> set (applied r)" "y \<in> set (applied r)" and eq: "op_id x = op_id y"
    then have "x \<in> set (concat (b # bs))" "y \<in> set (concat (b # bs))" using new(1) by auto
    then show "x = y" using eq by (rule Cons.prems)
  qed
  moreover have "distinct (applied r)" using new(3) by (simp add: distinct_map)
  ultimately have dist: "distinct (map op_id (applied r))" by (simp add: distinct_map)
  have disj: "op_id ` set (applied r) \<inter> op_id ` set app = {}"
  proof -
    have "known t1 i" if "i \<in> op_id ` set (applied r)" for i using that unfolding new(2) ..
    moreover have "\<not> known t1 i" if "i \<in> op_id ` set app" for i using that app(3) by auto
    ultimately show ?thesis by blast
  qed
  have "replay_batches is_app mark u go (b # bs) t = Some (applied r @ app, t')"
    using r app(1) by simp
  moreover have "distinct (map op_id (applied r @ app))"
    using dist disj app(2) by simp
  moreover have "set (applied r @ app) \<subseteq> {op \<in> set (concat (b # bs)). \<not> known t (op_id op)}"
  proof -
    have "set app \<subseteq> {op \<in> set (concat bs). \<not> known t (op_id op)}" using app(3) unfolding new(2) by blast
    with new(1) show ?thesis by auto
  qed
  moreover have "\<forall>i. known t' i \<longleftrightarrow> known t i \<or> i \<in> op_id ` set (applied r @ app)"
    using app(4) unfolding set_append image_Un new(2) by blast
  ultimately show ?case by blast
qed simp

end

section \<open>Properties\<close>



text \<open>C4. Over any sequence of batches, with any overlap and any redelivery, no operation
  is applied twice, and only operations that were delivered and not already known are applied.\<close>

theorem replay_applies_each_operation_once:
  assumes "iteration_order group_order"
    and "inj_on op_id (set (concat batches))"
  shows "\<exists>app t'. replay_batches mem_is_applied mem_mark_applied uuid_str group_order batches t = Some (app, t') \<and>
    distinct (map op_id app) \<and>
    set app \<subseteq> {op \<in> set (concat batches). \<not> mem_known t (op_id op)}"
  using mem.replay_batches_once [OF assms(1), of batches uuid_str t] assms(2)
  unfolding inj_on_def by blast

theorem replay_applies_each_operation_once_witness:
  "let a = sample_op 1 ''n1'' 10 [(''n1'', 1)] in
   \<exists>app t'. replay_batches mem_is_applied mem_mark_applied (\<lambda>_. []) id [[a], [a, a]] tracker_new = Some (app, t') \<and>
     distinct (map op_id app)"
  using replay_applies_each_operation_once [of id
      "[[sample_op 1 ''n1'' 10 [(''n1'', 1)]], [sample_op 1 ''n1'' 10 [(''n1'', 1)], sample_op 1 ''n1'' 10 [(''n1'', 1)]]]"
      "\<lambda>_. []" tracker_new]
  by (auto simp: iteration_order_def Let_def simp del: replay_batches.simps)

lemma filter_causal_winner:
  assumes "clock_consistent ops"
    and "\<forall>a \<in> set ops. \<forall>b \<in> set ops.
      timestamp_ms a = timestamp_ms b \<and> cluster_node_id a = cluster_node_id b \<longrightarrow> a = b"
    and "set xs \<subseteq> set ops" and "set ys = set xs"
  shows "max_by compare_operations_lww xs = max_by compare_operations_lww ys"
proof (rule rust_cmp.max_by_perm [OF lww_total [OF assms(1)] assms(3,4)])
  show "a = b" if "a \<in> set xs" "b \<in> set xs" "compare_operations_lww a b = Equal" for a b
    using lww_no_ties [OF assms(1,2) _ _ that(3)] that assms(3) by blast
qed



section \<open>Conflict registers\<close>

text \<open>What the key of an operation stands for: its target and the register of that target it writes.\<close>

datatype register_kind =
    RelationRegister string string
  | DeleteRegister
  | SnapshotRegister
  | EntityRegister
  | OwnRegister uuid

definition register_of :: "'p operation \<Rightarrow> register_kind" where
  "register_of op =
     (case op_type op of
        AddRelation _ _ relation_type target_id _ _ \<Rightarrow> RelationRegister relation_type target_id
      | RemoveRelation _ _ relation_type target_id _ \<Rightarrow> RelationRegister relation_type target_id
      | DeleteNodeSnapshot _ _ _ _ \<Rightarrow> DeleteRegister
      | UpsertNodeSnapshot _ _ _ _ \<Rightarrow> SnapshotRegister
      | UpdateBranch _ \<Rightarrow> EntityRegister
      | UpdateUser _ _ \<Rightarrow> EntityRegister
      | UpdateTenant _ _ \<Rightarrow> EntityRegister
      | UpdateRepository _ _ _ \<Rightarrow> EntityRegister
      | UpdateNodeType _ _ \<Rightarrow> EntityRegister
      | UpdateArchetype _ _ \<Rightarrow> EntityRegister
      | UpdateElementType _ _ \<Rightarrow> EntityRegister
      | UpdateWorkspace _ _ \<Rightarrow> EntityRegister
      | _ \<Rightarrow> OwnRegister (op_id op))"

fun register_suffix :: "(uuid \<Rightarrow> string) \<Rightarrow> register_kind \<Rightarrow> string" where
  "register_suffix u (RelationRegister r t) = ''#rel:'' @ r @ '':'' @ t"
| "register_suffix u DeleteRegister = ''#delete''"
| "register_suffix u SnapshotRegister = ''#snapshot''"
| "register_suffix u EntityRegister = ''#update''"
| "register_suffix u (OwnRegister i) = ''#op:'' @ u i"

fun separable :: "register_kind \<Rightarrow> bool" where
  "separable (RelationRegister r t) = (CHR '':'' \<notin> set r)"
| "separable _ = True"

lemma conflict_group_key_register:
  "conflict_group_key u op = target_to_string (target u op) @ register_suffix u (register_of op)"
  by (cases "op_type op") (simp_all add: conflict_group_key_def register_of_def)

lemma register_suffix_inj:
  assumes "register_suffix u a = register_suffix u b" and "separable a" and "separable b" and "inj u"
  shows "a = b"
proof -
  have own: "u i = u j \<longleftrightarrow> i = j" for i j using assms(4) by (auto dest: injD)
  from assms(1-3) show ?thesis
    by (cases a; cases b) (simp_all add: append_separator_eq_iff own)
qed

lemma register_suffix_hash: "\<exists>s. register_suffix u a = CHR ''#'' # s"
  by (cases a) auto

text \<open>Two operations share a conflict key exactly when they have the same target and write the
  same register of it: the merge never compares writes of different relations, or of a snapshot and
  a relation, and every other kind of operation is alone under its key. Ids contain no \<open>#\<close>
  and relation types no colon, and the text form of operation ids is injective.\<close>

theorem conflict_group_key_exact:
  assumes "inj uuid_str"
    and "CHR ''#'' \<notin> set (target_to_string (target uuid_str a))"
    and "CHR ''#'' \<notin> set (target_to_string (target uuid_str b))"
    and "separable (register_of a)" and "separable (register_of b)"
  shows "conflict_group_key uuid_str a = conflict_group_key uuid_str b \<longleftrightarrow>
    target uuid_str a = target uuid_str b \<and> register_of a = register_of b"
proof
  assume eq: "conflict_group_key uuid_str a = conflict_group_key uuid_str b"
  obtain s s' where s: "register_suffix uuid_str (register_of a) = CHR ''#'' # s"
      "register_suffix uuid_str (register_of b) = CHR ''#'' # s'"
    using register_suffix_hash by metis
  then have "target_to_string (target uuid_str a) = target_to_string (target uuid_str b)" "s = s'"
    using eq append_separator_eq_iff [OF assms(2,3), of s s'] by (simp_all add: conflict_group_key_register)
  then show "target uuid_str a = target uuid_str b \<and> register_of a = register_of b"
    using register_suffix_inj [of uuid_str "register_of a" "register_of b"] s assms
    by (simp add: target_to_string_inj)
qed (simp add: conflict_group_key_register)

text \<open>A printer of ids for the examples: 128 binary digits.\<close>

definition uuid_bits :: "uuid \<Rightarrow> string" where
  "uuid_bits i = map (\<lambda>n. if bit i n then CHR ''1'' else CHR ''0'') [0..<128]"

lemma uuid_bits_inj: "inj uuid_bits"
proof (rule injI)
  fix i j :: uuid assume "uuid_bits i = uuid_bits j"
  then have "\<forall>n < 128. bit i n = bit j n" by (auto simp: uuid_bits_def split: if_splits)
  then show "i = j" by (auto intro!: bit_word_eqI)
qed

definition relation_op :: "uuid \<Rightarrow> string \<Rightarrow> string \<Rightarrow> unit operation" where
  "relation_op i rel tgt =
     operation_new i 10 1 ''n1'' [(''n1'', 1)] ''t'' ''r'' ''main'' (AddRelation ''x'' ''w'' rel tgt ''w'' ()) ''u''"

theorem conflict_group_key_exact_witness:
  "conflict_group_key uuid_bits (relation_op 1 ''likes'' ''y'') \<noteq>
   conflict_group_key uuid_bits (relation_op 2 ''knows'' ''y'')"
  using conflict_group_key_exact [OF uuid_bits_inj, of "relation_op 1 ''likes'' ''y''" "relation_op 2 ''knows'' ''y''"]
  by (simp add: relation_op_def operation_new_def target_def register_of_def)

section \<open>Limits of the engine\<close>

text \<open>Only winners are recorded as applied. When a batch with two concurrent writes of one
  register is delivered a second time, the loser of the first delivery is applied after the winner.\<close>

theorem redelivered_loser_is_applied:
  "let a = sample_op 1 ''n1'' 10 [(''n1'', 1)]; b = sample_op 2 ''n2'' 20 [(''n2'', 1)]
   in compare_operations_lww a b = Less \<and>
      map_option fst (replay_batches mem_is_applied mem_mark_applied uuid_str id [[a, b], [a, b]] tracker_new) =
        Some [b, a]"
proof -
  let ?a = "sample_op 1 ''n1'' 10 [(''n1'', 1)]" and ?b = "sample_op 2 ''n2'' 20 [(''n2'', 1)]"
  have ab: "compare_operations_lww ?a ?b = Less" by (simp add: lww_eval)
  have conc: "concurrent_with (vector_clock ?b) (vector_clock ?a)"
    by (simp add: concurrent_with_def lww_eval)
  have key: "conflict_group_key uuid_str ?a = ''node_type:T#update''"
      "conflict_group_key uuid_str ?b = ''node_type:T#update''"
    by (simp_all add: conflict_group_key_def target_def)
  have sorted: "causal_sort [?a, ?b] = [?a, ?b]" "causal_sort [?a] = [?a]"
    by (simp_all add: causal_sort_def compare_causal_eq_lww ab)
  have merge: "merge_operations [?a, ?b] = Some (Conflict ?b [?a] ConcurrentSchemaUpdate)"
    using conc by (simp add: is_relation_op_def merge_last_write_wins_def select_lww_winner_def ab)
  have groups: "group_by_conflict_key uuid_str [?a, ?b] = [(''node_type:T#update'', [?a, ?b])]"
      "group_by_conflict_key uuid_str [?a] = [(''node_type:T#update'', [?a])]"
    by (simp_all add: group_by_conflict_key_def group_push_def key)
  note eval = replay_def Let_def mem_is_applied_def mem_mark_applied_def mark_all_def
    tracker_new_def tracker_with_applied_ops_def
  show ?thesis
    unfolding Let_def using ab
    by (simp add: eval sorted groups merge del: merge_operations.simps(3))
qed

text \<open>The conflict key of a node snapshot is made of the node id alone. Of two snapshots of one
  node in a batch, at most one is applied, also when they were written on different branches,
  which hold independent versions of the node.\<close>

theorem snapshots_merge_across_branches:
  assumes "iteration_order group_order"
    and "replay_mem uuid_str group_order ops t = Some (r, t')"
    and "op_type a = UpsertNodeSnapshot n p h k" and "op_type b = UpsertNodeSnapshot n' p' h' k'"
    and "doc_id n = doc_id n'" and "a \<noteq> b"
  shows "\<not> (a \<in> set (applied r) \<and> b \<in> set (applied r))"
proof -
  have "conflict_group_key uuid_str a = conflict_group_key uuid_str b"
    using assms(3-5) by (simp add: conflict_group_key_def target_def)
  moreover have "inj_on (conflict_group_key uuid_str) (set (applied r))"
    using mem.replay_applied_new(3) [OF assms(1,2)] by (simp add: distinct_map)
  ultimately show ?thesis using assms(6) by (auto dest: inj_onD)
qed

definition snapshot_op :: "uuid \<Rightarrow> string \<Rightarrow> unit operation" where
  "snapshot_op i br = operation_new i 10 1 ''n1'' [(''n1'', ucast i)] ''t'' ''r'' br
     (UpsertNodeSnapshot \<lparr>doc_id = ''x'', doc_rest = ()\<rparr> None (hlc_new 10 0) ''a0'') ''u''"

theorem snapshots_merge_across_branches_witness:
  "\<exists>r t'. replay_mem (\<lambda>_. []) id [snapshot_op 1 ''main'', snapshot_op 2 ''dev''] tracker_new = Some (r, t') \<and>
     \<not> (snapshot_op 1 ''main'' \<in> set (applied r) \<and> snapshot_op 2 ''dev'' \<in> set (applied r))"
proof -
  have it: "iteration_order id" by (simp add: iteration_order_def)
  obtain r t' where r: "replay_mem (\<lambda>_. []) id [snapshot_op 1 ''main'', snapshot_op 2 ''dev''] tracker_new = Some (r, t')"
    by (rule mem.replay_spec [OF it, of "\<lambda>_. []" "[snapshot_op 1 ''main'', snapshot_op 2 ''dev'']" tracker_new]) metis
  then show ?thesis
    using snapshots_merge_across_branches [OF it r, of "snapshot_op 1 ''main''" _ _ _ _ "snapshot_op 2 ''dev''"]
    by (auto simp: snapshot_op_def operation_new_def)
qed

end
