(* ===== verification/Causal_Delivery.thy ===== *)
theory Causal_Delivery
  imports Conflict_Resolution
begin

text \<open>
  \<open>raisin-replication/src/causal_delivery\<close> and the buffers of \<open>coordinator/mod.rs\<close>: an operation is
  held back until the operations it depends on have been delivered. The state is the buffer, the local vector
  clock, the limits and the statistics. \<open>Instant::now()\<close> is an argument, and so is the order in
  which the hash map of buffered operations is scanned. The delivery-lag histogram, a
  random sample of durations for monitoring, is left out of the metrics.

  The loop of \<open>check_buffered_ops\<close> ends because each round that goes on has shrunk the buffer.
  The lemmas compare deliveries with \<open>causal_run\<close>, the specification: a sequence in which each
  operation has all its causal predecessors before it.
\<close>

section \<open>State\<close>

record buffer_stats =
  stat_total_buffered :: u64
  stat_total_delivered :: u64
  stat_current_buffered :: nat
  stat_max_buffered :: nat
  stat_dependency_waits :: u64
  stat_direct_deliveries :: u64

record buffer_metrics =
  met_total_delivered :: u64
  met_total_buffered :: u64
  met_direct_deliveries :: u64
  met_buffer_full_events :: u64
  met_current_size :: u64
  met_max_size_seen :: nat

record 'p causal_buffer =
  buffered_ops :: "(uuid, 'p operation \<times> string hash_set \<times> nat) hash_map"
  local_vc :: vector_clock
  max_buffer_size :: nat
  buf_stats :: buffer_stats
  buf_metrics :: buffer_metrics

definition buffer_stats_default :: buffer_stats where
  "buffer_stats_default =
     \<lparr>stat_total_buffered = 0, stat_total_delivered = 0, stat_current_buffered = 0,
      stat_max_buffered = 0, stat_dependency_waits = 0, stat_direct_deliveries = 0\<rparr>"

definition buffer_metrics_new :: buffer_metrics where
  "buffer_metrics_new =
     \<lparr>met_total_delivered = 0, met_total_buffered = 0, met_direct_deliveries = 0,
      met_buffer_full_events = 0, met_current_size = 0, met_max_size_seen = 0\<rparr>"

definition causal_buffer_new :: "vector_clock \<Rightarrow> nat option \<Rightarrow> 'p causal_buffer" where
  "causal_buffer_new initial_vc max_size =
     \<lparr>buffered_ops = [], local_vc = initial_vc,
      max_buffer_size = (case max_size of None \<Rightarrow> 1000 | Some n \<Rightarrow> n),
      buf_stats = buffer_stats_default, buf_metrics = buffer_metrics_new\<rparr>"

section \<open>Operations\<close>

definition dependencies_satisfied :: "vector_clock \<Rightarrow> 'p operation \<Rightarrow> bool" where
  "dependencies_satisfied lvc op =
     list_all (\<lambda>(node_id, op_counter).
         let local_counter = vc_get lvc node_id
         in if node_id = cluster_node_id op then local_counter = op_counter - 1
            else \<not> local_counter < op_counter)
       (vector_clock op)"

definition depends_on :: "vector_clock \<Rightarrow> 'p operation \<Rightarrow> string hash_set" where
  "depends_on lvc op =
     map fst (filter (\<lambda>(node_id, op_counter). vc_get lvc node_id < op_counter) (vector_clock op))"

definition buffer_operation :: "nat \<Rightarrow> 'p operation \<Rightarrow> 'p causal_buffer \<Rightarrow> 'p causal_buffer" where
  "buffer_operation now op buf =
     (let full = length (buffered_ops buf) \<ge> max_buffer_size buf;
          ops = hm_insert (op_id op) (op, depends_on (local_vc buf) op, now) (buffered_ops buf);
          new_size = length ops;
          st = buf_stats buf;
          met = buf_metrics buf
      in buf\<lparr>buffered_ops := ops,
             buf_stats := st\<lparr>stat_total_buffered := stat_total_buffered st + 1,
                             stat_dependency_waits := stat_dependency_waits st + 1,
                             stat_current_buffered := new_size,
                             stat_max_buffered := max (stat_max_buffered st) new_size\<rparr>,
             buf_metrics := met\<lparr>met_buffer_full_events := met_buffer_full_events met + (if full then 1 else 0),
                                met_total_buffered := met_total_buffered met + 1,
                                met_current_size := met_current_size met + 1,
                                met_max_size_seen := max (met_max_size_seen met) new_size\<rparr>\<rparr>)"

definition update_local_clock :: "'p operation \<Rightarrow> 'p causal_buffer \<Rightarrow> 'p causal_buffer" where
  "update_local_clock op buf = buf\<lparr>local_vc := vc_merge (local_vc buf) (vector_clock op)\<rparr>"

text \<open>The body of the inner loop of \<open>check_buffered_ops\<close>, for an id that is still buffered, and the loop.\<close>

definition deliver_one :: "uuid \<Rightarrow> 'p operation \<Rightarrow> 'p causal_buffer \<Rightarrow> 'p causal_buffer" where
  "deliver_one i op buf =
     (let ops = hm_remove i (buffered_ops buf);
          st = buf_stats buf;
          met = buf_metrics buf;
          buf1 = update_local_clock op (buf\<lparr>buffered_ops := ops\<rparr>)
      in buf1\<lparr>buf_stats := st\<lparr>stat_total_delivered := stat_total_delivered st + 1,
                              stat_current_buffered := length ops\<rparr>,
              buf_metrics := met\<lparr>met_total_delivered := met_total_delivered met + 1,
                                 met_current_size := met_current_size met - 1\<rparr>\<rparr>)"

fun deliver_ready :: "uuid list \<Rightarrow> 'p causal_buffer \<Rightarrow> 'p operation list \<times> 'p causal_buffer" where
  "deliver_ready [] buf = ([], buf)"
| "deliver_ready (i # ids) buf =
     (case hm_get (buffered_ops buf) i of
        None \<Rightarrow> deliver_ready ids buf
      | Some (op, _, _) \<Rightarrow>
          (let (ds, buf') = deliver_ready ids (deliver_one i op buf) in (op # ds, buf')))"

lemma deliver_one_sel [simp]:
  "buffered_ops (deliver_one i op buf) = hm_remove i (buffered_ops buf)"
  "local_vc (deliver_one i op buf) = vc_merge (local_vc buf) (vector_clock op)"
  "stat_total_delivered (buf_stats (deliver_one i op buf)) = stat_total_delivered (buf_stats buf) + 1"
  "stat_current_buffered (buf_stats (deliver_one i op buf)) = length (hm_remove i (buffered_ops buf))"
  by (simp_all add: deliver_one_def update_local_clock_def Let_def)

definition ready_ops ::
  "((uuid \<times> 'p operation \<times> string hash_set \<times> nat) list \<Rightarrow> (uuid \<times> 'p operation \<times> string hash_set \<times> nat) list) \<Rightarrow>
   'p causal_buffer \<Rightarrow> uuid list" where
  "ready_ops scan buf =
     map fst (filter (\<lambda>(_, op, _, _). dependencies_satisfied (local_vc buf) op) (scan (buffered_ops buf)))"

lemma length_delete_less: "i \<in> fst ` set m \<Longrightarrow> length (hm_remove i m) < length m"
  using length_filter_less [of _ m "\<lambda>(k, _). i \<noteq> k"] by (auto simp: AList.delete_eq)

lemma deliver_ready_size:
  "length (buffered_ops (snd (deliver_ready ids buf))) + length (fst (deliver_ready ids buf))
     \<le> length (buffered_ops buf)"
proof (induction ids arbitrary: buf)
  case (Cons i ids)
  show ?case
  proof (cases "hm_get (buffered_ops buf) i")
    case (Some e)
    obtain op d n where e: "e = (op, d, n)" by (cases e)
    have "i \<in> fst ` set (buffered_ops buf)"
      using Some by (metis domI dom_map_of_conv_image_fst)
    then have "length (hm_remove i (buffered_ops buf)) < length (buffered_ops buf)"
      by (rule length_delete_less)
    with Some e Cons.IH [of "deliver_one i op buf"] show ?thesis
      by (simp add: split_beta Let_def)
  qed (simp add: Cons.IH)
qed simp

function check_loop ::
  "((uuid \<times> 'p operation \<times> string hash_set \<times> nat) list \<Rightarrow> (uuid \<times> 'p operation \<times> string hash_set \<times> nat) list) \<Rightarrow>
   'p causal_buffer \<Rightarrow> 'p operation list \<times> 'p causal_buffer" where
  "check_loop scan buf =
     (let ready = ready_ops scan buf
      in if ready = [] then ([], buf)
         else let (ds, buf') = deliver_ready ready buf
              in if ds = [] then ([], buf')
                 else let (ds', buf'') = check_loop scan buf' in (ds @ ds', buf''))"
  by auto
termination
proof (relation "measure (\<lambda>(_, buf). length (buffered_ops buf))")
  fix scan :: "(uuid \<times> 'p operation \<times> string hash_set \<times> nat) list \<Rightarrow> _"
    and buf ready p ds buf'
  assume "(ds, buf') = p" "p = deliver_ready ready buf" "ds \<noteq> []"
  then show "((scan, buf'), scan, buf) \<in> measure (\<lambda>(_, buf). length (buffered_ops buf))"
    using deliver_ready_size [of ready buf] by (cases ds) (auto dest: sym)
qed simp

declare check_loop.simps [simp del]

definition delivery_cmp :: "'p operation \<Rightarrow> 'p operation \<Rightarrow> rust_ordering" where
  "delivery_cmp a b =
     (if happens_before (vector_clock a) (vector_clock b) then Less
      else if happens_after (vector_clock a) (vector_clock b) then Greater
      else cmp_of (timestamp_ms a) (timestamp_ms b))"

definition check_buffered_ops ::
  "((uuid \<times> 'p operation \<times> string hash_set \<times> nat) list \<Rightarrow> (uuid \<times> 'p operation \<times> string hash_set \<times> nat) list) \<Rightarrow>
   'p causal_buffer \<Rightarrow> 'p operation list \<times> 'p causal_buffer" where
  "check_buffered_ops scan buf =
     (let (deliverable, buf') = check_loop scan buf in (sort_by delivery_cmp deliverable, buf'))"

definition deliver ::
  "((uuid \<times> 'p operation \<times> string hash_set \<times> nat) list \<Rightarrow> (uuid \<times> 'p operation \<times> string hash_set \<times> nat) list) \<Rightarrow>
   nat \<Rightarrow> 'p operation \<Rightarrow> 'p causal_buffer \<Rightarrow> 'p operation list \<times> 'p causal_buffer" where
  "deliver scan now op buf =
     (if dependencies_satisfied (local_vc buf) op then
        let st = buf_stats buf;
            met = buf_metrics buf;
            buf1 = buf\<lparr>buf_stats := st\<lparr>stat_direct_deliveries := stat_direct_deliveries st + 1,
                                        stat_total_delivered := stat_total_delivered st + 1\<rparr>,
                       buf_metrics := met\<lparr>met_direct_deliveries := met_direct_deliveries met + 1,
                                          met_total_delivered := met_total_delivered met + 1\<rparr>\<rparr>;
            (ds, buf2) = check_buffered_ops scan (update_local_clock op buf1)
        in (op # ds, buf2)
      else check_buffered_ops scan (buffer_operation now op buf))"

definition buffer_clear :: "'p causal_buffer \<Rightarrow> 'p causal_buffer" where
  "buffer_clear buf =
     buf\<lparr>buffered_ops := [], buf_stats := (buf_stats buf)\<lparr>stat_current_buffered := 0\<rparr>\<rparr>"

definition get_oldest_buffered ::
  "((uuid \<times> 'p operation \<times> string hash_set \<times> nat) list \<Rightarrow> (uuid \<times> 'p operation \<times> string hash_set \<times> nat) list) \<Rightarrow>
   nat \<Rightarrow> 'p causal_buffer \<Rightarrow> 'p operation list" where
  "get_oldest_buffered scan limit buf =
     take limit (sort_by (\<lambda>a b. cmp_of (timestamp_ms a) (timestamp_ms b))
       (map (\<lambda>(_, op, _, _). op) (scan (buffered_ops buf))))"

text \<open>The buffers of the coordinator, one per tenant and repository, created on first use from the
  stored vector clock (\<open>stored_vc\<close> is the storage; \<open>None\<close> is a storage error).\<close>

fun deliver_through_causal_buffers ::
  "((uuid \<times> 'p operation \<times> string hash_set \<times> nat) list \<Rightarrow> (uuid \<times> 'p operation \<times> string hash_set \<times> nat) list) \<Rightarrow>
   (string \<times> string \<Rightarrow> vector_clock option) \<Rightarrow> (nat \<times> 'p operation) list \<Rightarrow>
   (string \<times> string, 'p causal_buffer) hash_map \<Rightarrow>
   'p operation list \<times> (string \<times> string, 'p causal_buffer) hash_map" where
  "deliver_through_causal_buffers scan stored_vc [] bufs = ([], bufs)"
| "deliver_through_causal_buffers scan stored_vc ((now, op) # ops) bufs =
     (let key = (tenant_id op, repo_id op);
          buf = (case hm_get bufs key of
                   Some b \<Rightarrow> b
                 | None \<Rightarrow> causal_buffer_new (case stored_vc key of None \<Rightarrow> vc_new | Some v \<Rightarrow> v) (Some 10000));
          (ds, buf') = deliver scan now op buf;
          (ds', bufs') = deliver_through_causal_buffers scan stored_vc ops (hm_insert key buf' bufs)
      in (ds @ ds', bufs'))"

section \<open>The specification\<close>

definition op_counter :: "'p operation \<Rightarrow> u64" where
  "op_counter op = vc_get (vector_clock op) (cluster_node_id op)"

definition op_slot :: "'p operation \<Rightarrow> string \<times> u64" where
  "op_slot op = (cluster_node_id op, op_counter op)"

text \<open>An operation as its origin stamps it: the clock counts the operation itself.\<close>

definition stamped :: "'p operation \<Rightarrow> bool" where
  "stamped op \<longleftrightarrow> vc_wf (vector_clock op) \<and> op_counter op \<noteq> 0"

definition run_clock :: "vector_clock \<Rightarrow> 'p operation list \<Rightarrow> vector_clock" where
  "run_clock vc ops = foldl (\<lambda>v op. vc_merge v (vector_clock op)) vc ops"

fun causal_run :: "vector_clock \<Rightarrow> 'p operation list \<Rightarrow> bool" where
  "causal_run vc [] = True"
| "causal_run vc (op # ops) =
     (dependencies_satisfied vc op \<and> causal_run (vc_merge vc (vector_clock op)) ops)"

lemma run_clock_simps [simp]:
  "run_clock vc [] = vc" "run_clock vc (op # ops) = run_clock (vc_merge vc (vector_clock op)) ops"
  "run_clock vc (xs @ ys) = run_clock (run_clock vc xs) ys"
  by (simp_all add: run_clock_def)

lemma causal_run_append:
  "causal_run vc (xs @ ys) \<longleftrightarrow> causal_run vc xs \<and> causal_run (run_clock vc xs) ys"
  by (induction xs arbitrary: vc) auto

lemma dependencies_satisfied_iff:
  assumes "stamped op"
  shows "dependencies_satisfied vc op \<longleftrightarrow>
    unat (op_counter op) = Suc (unat (vc_get vc (cluster_node_id op))) \<and>
    (\<forall>n. n \<noteq> cluster_node_id op \<longrightarrow> vc_get (vector_clock op) n \<le> vc_get vc n)"
proof -
  have wf: "vc_wf (vector_clock op)" and nz: "op_counter op \<noteq> 0"
    using assms by (auto simp: stamped_def)
  have entries: "(n, c) \<in> set (vector_clock op) \<longleftrightarrow> hm_get (vector_clock op) n = Some c" for n c
    using wf by simp
  have pred: "vc_get vc n = op_counter op - 1 \<longleftrightarrow> unat (op_counter op) = Suc (unat (vc_get vc n))" for n
  proof -
    have "unat (op_counter op - 1) = unat (op_counter op) - 1"
      using nz by (simp add: unat_minus_one)
    moreover have "unat (op_counter op) \<noteq> 0" using nz by (simp add: unat_eq_0)
    ultimately show ?thesis
      unfolding word_unat_eq_iff [of "vc_get vc n" "op_counter op - 1"] by linarith
  qed
  have own: "(cluster_node_id op, op_counter op) \<in> set (vector_clock op)"
    using nz entries unfolding op_counter_def vc_get_def by (auto split: option.splits)
  have "dependencies_satisfied vc op \<longleftrightarrow>
      (\<forall>(n, c) \<in> set (vector_clock op). if n = cluster_node_id op then vc_get vc n = c - 1 else c \<le> vc_get vc n)"
    by (simp add: dependencies_satisfied_def list_all_iff Let_def not_less)
  also have "\<dots> \<longleftrightarrow> vc_get vc (cluster_node_id op) = op_counter op - 1 \<and>
      (\<forall>n. n \<noteq> cluster_node_id op \<longrightarrow> vc_get (vector_clock op) n \<le> vc_get vc n)" (is "?l \<longleftrightarrow> ?r")
  proof
    assume ?l
    have "vc_get (vector_clock op) n \<le> vc_get vc n" if "n \<noteq> cluster_node_id op" for n
      using \<open>?l\<close> that entries [of n] by (fastforce simp: vc_get_def split: option.splits)
    with \<open>?l\<close> own show ?r by fastforce
  next
    assume ?r
    have "c = vc_get (vector_clock op) n" if "(n, c) \<in> set (vector_clock op)" for n c
      using that entries by (simp add: vc_get_def)
    with \<open>?r\<close> show ?l by (fastforce simp: op_counter_def)
  qed
  finally show ?thesis unfolding pred .
qed

text \<open>Delivering a ready operation adds one to its origin's counter and changes no other.\<close>

lemma ready_step:
  assumes "stamped op" and "dependencies_satisfied vc op"
  shows "vc_get (vc_merge vc (vector_clock op)) n =
    (if n = cluster_node_id op then op_counter op else vc_get vc n)"
proof -
  have "vc_get vc (cluster_node_id op) \<le> op_counter op"
    using assms dependencies_satisfied_iff [OF assms(1)] by (simp add: word_le_nat_alt)
  with assms show ?thesis
    using dependencies_satisfied_iff [OF assms(1)]
    by (auto simp: vc_simps stamped_def op_counter_def max_absorb1 max_absorb2)
qed

lemma ready_preserved:
  assumes "stamped a" "stamped b" "dependencies_satisfied vc a" "dependencies_satisfied vc b"
    and "op_slot a \<noteq> op_slot b"
  shows "dependencies_satisfied (vc_merge vc (vector_clock a)) b"
proof -
  have "cluster_node_id a \<noteq> cluster_node_id b"
  proof
    assume "cluster_node_id a = cluster_node_id b"
    then have "unat (op_counter a) = unat (op_counter b)"
      using assms(3,4) dependencies_satisfied_iff [OF assms(1), of vc]
        dependencies_satisfied_iff [OF assms(2), of vc] by simp
    then have "op_counter a = op_counter b" by (simp only: word_unat_eq_iff)
    with \<open>cluster_node_id a = cluster_node_id b\<close> assms(5) show False by (simp add: op_slot_def)
  qed
  then have own: "vc_get (vc_merge vc (vector_clock a)) (cluster_node_id b) = vc_get vc (cluster_node_id b)"
    using ready_step [OF assms(1,3)] by simp
  have mono: "vc_get vc n \<le> vc_get (vc_merge vc (vector_clock a)) n" for n
    using assms(1) by (simp add: vc_simps stamped_def)
  from assms(4) have b: "unat (op_counter b) = Suc (unat (vc_get vc (cluster_node_id b)))"
      "\<And>n. n \<noteq> cluster_node_id b \<Longrightarrow> vc_get (vector_clock b) n \<le> vc_get vc n"
    unfolding dependencies_satisfied_iff [OF assms(2)] by auto
  show ?thesis
    unfolding dependencies_satisfied_iff [OF assms(2)] own
    using b(1) order_trans [OF b(2) mono] by blast
qed

lemma run_clock_counters:
  assumes "\<forall>op \<in> set ops. stamped op" and "causal_run vc ops"
  shows "unat (vc_get vc n) \<le> unat (vc_get (run_clock vc ops) n) \<and>
    (\<forall>c. unat (vc_get vc n) < c \<and> c \<le> unat (vc_get (run_clock vc ops) n) \<longrightarrow>
      (\<exists>op \<in> set ops. cluster_node_id op = n \<and> unat (op_counter op) = c))"
  using assms
proof (induction ops arbitrary: vc)
  case (Cons op ops)
  let ?vc' = "vc_merge vc (vector_clock op)"
  have op: "stamped op" "dependencies_satisfied vc op" using Cons.prems by auto
  note step = ready_step [OF op, of n]
  have next_counter: "unat (op_counter op) = Suc (unat (vc_get vc (cluster_node_id op)))"
    using op dependencies_satisfied_iff by blast
  have IH: "unat (vc_get ?vc' n) \<le> unat (vc_get (run_clock ?vc' ops) n)"
    "\<And>c. unat (vc_get ?vc' n) < c \<and> c \<le> unat (vc_get (run_clock ?vc' ops) n) \<Longrightarrow>
      \<exists>op \<in> set ops. cluster_node_id op = n \<and> unat (op_counter op) = c"
    using Cons.IH [of ?vc'] Cons.prems by auto
  show ?case
  proof (cases "n = cluster_node_id op")
    case True
    then have n': "unat (vc_get ?vc' n) = Suc (unat (vc_get vc n))" using step next_counter by simp
    have "\<exists>x \<in> set (op # ops). cluster_node_id x = n \<and> unat (op_counter x) = c"
      if "unat (vc_get vc n) < c" "c \<le> unat (vc_get (run_clock ?vc' ops) n)" for c
    proof (cases "c = Suc (unat (vc_get vc n))")
      case c: True
      then show ?thesis using True next_counter by auto
    next
      case False
      then show ?thesis using IH(2) [of c] that n' by auto
    qed
    with IH(1) n' show ?thesis by auto
  next
    case False
    then have "vc_get ?vc' n = vc_get vc n" using step by simp
    with IH show ?thesis by auto
  qed
qed simp

lemma run_clock_le:
  assumes "\<forall>op \<in> set ops. stamped op"
  shows "vc_le (run_clock vc ops) v \<longleftrightarrow> vc_le vc v \<and> (\<forall>op \<in> set ops. vc_le (vector_clock op) v)"
  using assms
proof (induction ops arbitrary: vc)
  case (Cons op ops)
  have "vc_le (vc_merge vc (vector_clock op)) v \<longleftrightarrow> vc_le vc v \<and> vc_le (vector_clock op) v"
    using Cons.prems by (auto simp: vc_le_def vc_simps stamped_def)
  with Cons show ?case by auto
qed simp

section \<open>The buffer\<close>

definition buffered :: "'p causal_buffer \<Rightarrow> 'p operation list" where
  "buffered buf = map (\<lambda>(_, op, _, _). op) (buffered_ops buf)"

definition buffer_ok :: "'p causal_buffer \<Rightarrow> bool" where
  "buffer_ok buf \<longleftrightarrow> hm_wf (buffered_ops buf) \<and>
     list_all (\<lambda>(i, op, _, _). op_id op = i \<and> stamped op) (buffered_ops buf) \<and>
     stat_current_buffered (buf_stats buf) = length (buffered_ops buf)"

lemma mset_hm_remove:
  "\<lbrakk>hm_wf m; hm_get m i = Some v\<rbrakk> \<Longrightarrow> mset m = add_mset (i, v) (mset (hm_remove i m))"
proof (induction m)
  case (Cons kv m)
  then show ?case
    by (cases kv) (auto simp: map_of_eq_None_iff delete_id split: if_splits dest: weak_map_of_SomeI)
qed simp

lemma mset_hm_insert:
  assumes "k \<notin> set (hm_keys m)" shows "mset (hm_insert k v m) = add_mset (k, v) (mset m)"
  using assms by (induction m) auto

lemma buffer_ok_entry:
  assumes "buffer_ok buf" and "hm_get (buffered_ops buf) i = Some (op, d, n)"
  shows "op_id op = i" and "stamped op" and "op \<in> set (buffered buf)"
proof -
  have "(i, op, d, n) \<in> set (buffered_ops buf)" using assms(2) by (rule map_of_SomeD)
  with assms(1) show "op_id op = i" "stamped op" "op \<in> set (buffered buf)"
    by (force simp: buffer_ok_def list_all_iff buffered_def)+
qed

lemma buffer_ok_stamped: "buffer_ok buf \<Longrightarrow> op \<in> set (buffered buf) \<Longrightarrow> stamped op"
  by (force simp: buffer_ok_def list_all_iff buffered_def)

lemma buffer_ok_ids: "buffer_ok buf \<Longrightarrow> map op_id (buffered buf) = hm_keys (buffered_ops buf)"
  by (auto simp: buffer_ok_def list_all_iff buffered_def)

lemma deliver_one_ok:
  assumes "buffer_ok buf" shows "buffer_ok (deliver_one i op buf)"
proof -
  have "set (hm_remove i (buffered_ops buf)) \<subseteq> set (buffered_ops buf)"
    by (auto simp: AList.delete_eq)
  with assms show ?thesis unfolding buffer_ok_def list_all_iff deliver_one_sel by auto
qed

lemma deliver_one_buffered:
  assumes "buffer_ok buf" and "hm_get (buffered_ops buf) i = Some (op, d, n)"
  shows "mset (buffered buf) = add_mset op (mset (buffered (deliver_one i op buf)))"
proof -
  have "mset (buffered_ops buf) = add_mset (i, op, d, n) (mset (hm_remove i (buffered_ops buf)))"
    using assms by (intro mset_hm_remove) (auto simp: buffer_ok_def)
  then show ?thesis by (simp add: buffered_def)
qed

text \<open>What one round of the loop, the whole loop and a delivery promise alike.\<close>

definition delivers :: "'p causal_buffer \<Rightarrow> 'p operation list \<Rightarrow> 'p causal_buffer \<Rightarrow> bool" where
  "delivers buf ds buf' \<longleftrightarrow> causal_run (local_vc buf) ds \<and>
     local_vc buf' = run_clock (local_vc buf) ds \<and>
     mset (buffered buf) = mset ds + mset (buffered buf') \<and> buffer_ok buf' \<and>
     stat_total_delivered (buf_stats buf') = stat_total_delivered (buf_stats buf) + of_nat (length ds)"

lemma delivers_refl: "buffer_ok buf \<Longrightarrow> delivers buf [] buf"
  by (simp add: delivers_def)

lemma delivers_trans: "delivers a xs b \<Longrightarrow> delivers b ys c \<Longrightarrow> delivers a (xs @ ys) c"
  by (auto simp: delivers_def causal_run_append)

lemma deliver_ready_delivers:
  assumes "buffer_ok buf" and "inj_on op_slot (set (buffered buf))" and "distinct (map op_id (buffered buf))"
    and "distinct ids"
    and "\<And>i. i \<in> set ids \<Longrightarrow>
      \<exists>op d n. hm_get (buffered_ops buf) i = Some (op, d, n) \<and> dependencies_satisfied (local_vc buf) op"
  shows "delivers buf (fst (deliver_ready ids buf)) (snd (deliver_ready ids buf)) \<and>
    map op_id (fst (deliver_ready ids buf)) = ids"
  using assms
proof (induction ids arbitrary: buf)
  case Nil
  then show ?case by (simp add: delivers_refl)
next
  case (Cons i ids)
  obtain op d n where get: "hm_get (buffered_ops buf) i = Some (op, d, n)"
      and ready: "dependencies_satisfied (local_vc buf) op"
    using Cons.prems(5) [of i] by auto
  note entry = buffer_ok_entry [OF Cons.prems(1) get]
  let ?b = "deliver_one i op buf"
  note rem = deliver_one_buffered [OF Cons.prems(1) get]
  have sub: "set (buffered ?b) \<subseteq> set (buffered buf)"
    using arg_cong [OF rem, of set_mset] by auto
  have dist: "distinct (map op_id (buffered ?b))" and i_fresh: "i \<notin> op_id ` set (buffered ?b)"
  proof -
    have "mset (map op_id (buffered buf)) = mset (map op_id (op # buffered ?b))"
      using rem by (simp only: mset_map mset.simps image_mset_add_mset)
    then have "distinct (map op_id (op # buffered ?b))"
      using Cons.prems(3) mset_eq_imp_distinct_iff by blast
    with entry(1) show "distinct (map op_id (buffered ?b))" "i \<notin> op_id ` set (buffered ?b)" by auto
  qed
  have "delivers ?b (fst (deliver_ready ids ?b)) (snd (deliver_ready ids ?b)) \<and>
      map op_id (fst (deliver_ready ids ?b)) = ids"
  proof (rule Cons.IH)
    show "buffer_ok ?b" by (rule deliver_one_ok [OF Cons.prems(1)])
    show "inj_on op_slot (set (buffered ?b))" using Cons.prems(2) sub inj_on_subset by blast
    show "distinct (map op_id (buffered ?b))" by (rule dist)
    show "distinct ids" using Cons.prems(4) by simp
    fix j assume j: "j \<in> set ids"
    then have "j \<noteq> i" using Cons.prems(4) by auto
    obtain op' d' n' where get': "hm_get (buffered_ops buf) j = Some (op', d', n')"
        and ready': "dependencies_satisfied (local_vc buf) op'"
      using Cons.prems(5) [of j] j by auto
    note entry' = buffer_ok_entry [OF Cons.prems(1) get']
    have "op_slot op \<noteq> op_slot op'"
      using Cons.prems(2) entry entry' \<open>j \<noteq> i\<close> unfolding inj_on_def by metis
    then have "dependencies_satisfied (local_vc ?b) op'"
      using ready_preserved [OF entry(2) entry'(2) ready ready'] by simp
    with get' \<open>j \<noteq> i\<close> show "\<exists>op d n. hm_get (buffered_ops ?b) j = Some (op, d, n) \<and>
        dependencies_satisfied (local_vc ?b) op"
      by (simp add: hm_simps)
  qed
  with get ready rem entry(1) show ?case
    by (simp add: delivers_def split_beta Let_def)
qed

text \<open>The loop.\<close>

lemma ready_ops_mem:
  assumes "iteration_order scan" and "hm_wf (buffered_ops buf)"
  shows "i \<in> set (ready_ops scan buf) \<longleftrightarrow>
    (\<exists>op d n. hm_get (buffered_ops buf) i = Some (op, d, n) \<and> dependencies_satisfied (local_vc buf) op)"
  using iteration_order_set [OF assms(1), of "buffered_ops buf"] assms(2)
  by (force simp: ready_ops_def)

lemma ready_ops_distinct:
  assumes "iteration_order scan" and "hm_wf (buffered_ops buf)"
  shows "distinct (ready_ops scan buf)"
proof -
  have "mset (map fst (scan (buffered_ops buf))) = mset (hm_keys (buffered_ops buf))"
    using assms(1) by (simp add: iteration_order_def)
  then have "distinct (map fst (scan (buffered_ops buf)))"
    using assms(2) mset_eq_imp_distinct_iff by blast
  then show ?thesis unfolding ready_ops_def by (rule distinct_map_filter)
qed

lemma check_loop_delivers:
  assumes "iteration_order scan" and "buffer_ok buf" and "inj_on op_slot (set (buffered buf))"
  shows "delivers buf (fst (check_loop scan buf)) (snd (check_loop scan buf)) \<and>
    ready_ops scan (snd (check_loop scan buf)) = []"
  using assms
proof (induction scan buf rule: check_loop.induct)
  case (1 scan buf)
  let ?ids = "ready_ops scan buf"
  show ?case
  proof (cases "?ids = []")
    case True
    with 1 show ?thesis by (subst (1 2 3) check_loop.simps) (simp add: delivers_refl)
  next
    case False
    let ?ds = "fst (deliver_ready ?ids buf)" and ?b = "snd (deliver_ready ?ids buf)"
    have wf: "hm_wf (buffered_ops buf)" using "1.prems"(2) by (simp add: buffer_ok_def)
    have dist: "distinct (map op_id (buffered buf))"
      using buffer_ok_ids [OF "1.prems"(2)] wf by simp
    have round: "delivers buf ?ds ?b" "map op_id ?ds = ?ids"
      using deliver_ready_delivers [OF "1.prems"(2,3) dist ready_ops_distinct [OF "1.prems"(1) wf]]
        ready_ops_mem [OF "1.prems"(1) wf] by auto
    then have ne: "?ds \<noteq> []" using False by auto
    have b: "buffer_ok ?b" "inj_on op_slot (set (buffered ?b))"
    proof -
      show "buffer_ok ?b" using round(1) by (simp add: delivers_def)
      have "mset (buffered buf) = mset ?ds + mset (buffered ?b)" using round(1) by (simp add: delivers_def)
      then have "set (buffered ?b) \<subseteq> set (buffered buf)"
        by (metis UnCI set_mset_mset set_mset_union subsetI)
      then show "inj_on op_slot (set (buffered ?b))" using "1.prems"(3) inj_on_subset by blast
    qed
    have IH: "delivers ?b (fst (check_loop scan ?b)) (snd (check_loop scan ?b))"
        "ready_ops scan (snd (check_loop scan ?b)) = []"
      using "1.IH" [OF refl False _ _ ne "1.prems"(1) b] by auto
    have "check_loop scan buf = (?ds @ fst (check_loop scan ?b), snd (check_loop scan ?b))"
      using False ne by (subst check_loop.simps) (simp add: Let_def split_beta)
    then show ?thesis using delivers_trans [OF round(1) IH(1)] IH(2) by simp
  qed
qed

section \<open>Delivery\<close>

lemma buffer_operation_ok:
  assumes "buffer_ok buf" and "stamped op" and "op_id op \<notin> op_id ` set (buffered buf)"
  shows "buffer_ok (buffer_operation now op buf)"
    and "mset (buffered (buffer_operation now op buf)) = add_mset op (mset (buffered buf))"
    and "local_vc (buffer_operation now op buf) = local_vc buf"
    and "stat_total_delivered (buf_stats (buffer_operation now op buf)) = stat_total_delivered (buf_stats buf)"
proof -
  let ?e = "(op, depends_on (local_vc buf) op, now)"
  have fresh: "op_id op \<notin> set (hm_keys (buffered_ops buf))"
    using assms(3) buffer_ok_ids [OF assms(1)] by (metis list.set_map)
  have ops: "buffered_ops (buffer_operation now op buf) = hm_insert (op_id op) ?e (buffered_ops buf)"
    by (simp add: buffer_operation_def Let_def)
  have ms: "mset (hm_insert (op_id op) ?e (buffered_ops buf)) = add_mset (op_id op, ?e) (mset (buffered_ops buf))"
    by (rule mset_hm_insert [OF fresh])
  have st: "set (hm_insert (op_id op) ?e (buffered_ops buf)) = insert (op_id op, ?e) (set (buffered_ops buf))"
    using arg_cong [OF ms, of set_mset] by simp
  show "mset (buffered (buffer_operation now op buf)) = add_mset op (mset (buffered buf))"
    unfolding buffered_def ops mset_map ms by simp
  have "hm_wf (hm_insert (op_id op) ?e (buffered_ops buf))"
    using assms(1) by (simp add: buffer_ok_def)
  moreover have "stat_current_buffered (buf_stats (buffer_operation now op buf)) =
      length (hm_insert (op_id op) ?e (buffered_ops buf))"
    by (simp add: buffer_operation_def Let_def)
  ultimately show "buffer_ok (buffer_operation now op buf)"
    using assms(1,2) unfolding buffer_ok_def list_all_iff ops st by simp
  show "local_vc (buffer_operation now op buf) = local_vc buf"
    "stat_total_delivered (buf_stats (buffer_operation now op buf)) = stat_total_delivered (buf_stats buf)"
    by (simp_all add: buffer_operation_def Let_def)
qed

lemma check_buffered_ops_delivers:
  assumes "iteration_order scan" and "buffer_ok buf" and "inj_on op_slot (set (buffered buf))"
  obtains ds where "mset (fst (check_buffered_ops scan buf)) = mset ds"
    and "delivers buf ds (snd (check_buffered_ops scan buf))"
    and "ready_ops scan (snd (check_buffered_ops scan buf)) = []"
  using check_loop_delivers [OF assms] that [of "fst (check_loop scan buf)"]
  by (simp add: check_buffered_ops_def split_beta Let_def)

lemma deliver_spec:
  assumes "iteration_order scan" and "buffer_ok buf" and "stamped op"
    and "op_id op \<notin> op_id ` set (buffered buf)" and "inj_on op_slot (insert op (set (buffered buf)))"
  obtains ds where "mset (fst (deliver scan now op buf)) = mset ds"
    and "causal_run (local_vc buf) ds"
    and "local_vc (snd (deliver scan now op buf)) = run_clock (local_vc buf) ds"
    and "add_mset op (mset (buffered buf)) = mset ds + mset (buffered (snd (deliver scan now op buf)))"
    and "buffer_ok (snd (deliver scan now op buf))"
    and "ready_ops scan (snd (deliver scan now op buf)) = []"
    and "stat_total_delivered (buf_stats (snd (deliver scan now op buf))) =
      stat_total_delivered (buf_stats buf) + of_nat (length ds)"
proof (cases "dependencies_satisfied (local_vc buf) op")
  case True
  define b where "b = update_local_clock op (buf\<lparr>
      buf_stats := (buf_stats buf)\<lparr>stat_direct_deliveries := stat_direct_deliveries (buf_stats buf) + 1,
        stat_total_delivered := stat_total_delivered (buf_stats buf) + 1\<rparr>,
      buf_metrics := (buf_metrics buf)\<lparr>met_direct_deliveries := met_direct_deliveries (buf_metrics buf) + 1,
        met_total_delivered := met_total_delivered (buf_metrics buf) + 1\<rparr>\<rparr>)"
  have b: "buffered b = buffered buf" "local_vc b = vc_merge (local_vc buf) (vector_clock op)"
    "stat_total_delivered (buf_stats b) = stat_total_delivered (buf_stats buf) + 1" "buffer_ok b"
    using assms(2) by (simp_all add: b_def update_local_clock_def buffered_def buffer_ok_def)
  have "inj_on op_slot (set (buffered b))" using assms(5) b(1) by (auto intro: inj_on_subset)
  from check_buffered_ops_delivers [OF assms(1) b(4) this]
  obtain ds where ds: "mset (fst (check_buffered_ops scan b)) = mset ds"
      "delivers b ds (snd (check_buffered_ops scan b))" "ready_ops scan (snd (check_buffered_ops scan b)) = []" .
  have "deliver scan now op buf = (op # fst (check_buffered_ops scan b), snd (check_buffered_ops scan b))"
    using True by (simp add: deliver_def b_def Let_def split_beta)
  then show thesis
    using ds b True by (intro that [of "op # ds"]) (simp_all add: delivers_def)
next
  case False
  let ?b = "buffer_operation now op buf"
  note b = buffer_operation_ok [OF assms(2-4), of now]
  have "set (buffered ?b) = insert op (set (buffered buf))"
    using arg_cong [OF b(2), of set_mset] by simp
  then have "inj_on op_slot (set (buffered ?b))" using assms(5) by simp
  from check_buffered_ops_delivers [OF assms(1) b(1) this]
  obtain ds where ds: "mset (fst (check_buffered_ops scan ?b)) = mset ds"
      "delivers ?b ds (snd (check_buffered_ops scan ?b))" "ready_ops scan (snd (check_buffered_ops scan ?b)) = []" .
  have "deliver scan now op buf = check_buffered_ops scan ?b"
    using False by (simp add: deliver_def)
  then show thesis
    using ds b by (intro that [of ds]) (simp_all add: delivers_def)
qed

lemma ready_ops_Nil:
  assumes "iteration_order scan" and "buffer_ok buf" and "ready_ops scan buf = []"
    and "op \<in> set (buffered buf)"
  shows "\<not> dependencies_satisfied (local_vc buf) op"
proof
  assume sat: "dependencies_satisfied (local_vc buf) op"
  obtain i d n where "(i, op, d, n) \<in> set (buffered_ops buf)" using assms(4) by (auto simp: buffered_def)
  then have "hm_get (buffered_ops buf) i = Some (op, d, n)" using assms(2) by (simp add: buffer_ok_def)
  with sat have "i \<in> set (ready_ops scan buf)"
    using ready_ops_mem [OF assms(1)] assms(2) by (auto simp: buffer_ok_def)
  with assms(3) show False by simp
qed

text \<open>A sequence of arrivals.\<close>

fun deliver_all ::
  "((uuid \<times> 'p operation \<times> string hash_set \<times> nat) list \<Rightarrow> (uuid \<times> 'p operation \<times> string hash_set \<times> nat) list) \<Rightarrow>
   (nat \<times> 'p operation) list \<Rightarrow> 'p causal_buffer \<Rightarrow> 'p operation list \<times> 'p causal_buffer" where
  "deliver_all scan [] buf = ([], buf)"
| "deliver_all scan ((now, op) # ops) buf =
     (let (ds, buf') = deliver scan now op buf;
          (ds', buf'') = deliver_all scan ops buf'
      in (ds @ ds', buf''))"

lemma deliver_all_spec:
  assumes "iteration_order scan" and "buffer_ok buf" and "ready_ops scan buf = []"
    and "\<forall>op \<in> snd ` set arrivals. stamped op"
    and "distinct (map op_id (map snd arrivals @ buffered buf))"
    and "inj_on op_slot (set (map snd arrivals @ buffered buf))"
  shows "\<exists>ds. mset (fst (deliver_all scan arrivals buf)) = mset ds \<and> causal_run (local_vc buf) ds \<and>
    local_vc (snd (deliver_all scan arrivals buf)) = run_clock (local_vc buf) ds \<and>
    mset (map snd arrivals) + mset (buffered buf) = mset ds + mset (buffered (snd (deliver_all scan arrivals buf))) \<and>
    buffer_ok (snd (deliver_all scan arrivals buf)) \<and> ready_ops scan (snd (deliver_all scan arrivals buf)) = []"
  using assms
proof (induction arrivals arbitrary: buf)
  case Nil
  then show ?case by (intro exI [of _ "[]"]) simp
next
  case (Cons a arrivals)
  obtain now op where a: "a = (now, op)" by (cases a)
  let ?out = "fst (deliver scan now op buf)" and ?b = "snd (deliver scan now op buf)"
  have pre: "stamped op" "op_id op \<notin> op_id ` set (buffered buf)" "inj_on op_slot (insert op (set (buffered buf)))"
    using Cons.prems a by (auto intro: inj_on_subset)
  obtain ds where ds: "mset ?out = mset ds" "causal_run (local_vc buf) ds"
      "local_vc ?b = run_clock (local_vc buf) ds"
      "add_mset op (mset (buffered buf)) = mset ds + mset (buffered ?b)" "buffer_ok ?b" "ready_ops scan ?b = []"
    by (rule deliver_spec [OF Cons.prems(1,2) pre, of now])
  have rest: "mset (map snd (a # arrivals) @ buffered buf) = mset ds + mset (map snd arrivals @ buffered ?b)"
    using ds(4) a by simp
  have sub: "set (map snd arrivals @ buffered ?b) \<subseteq> set (map snd (a # arrivals) @ buffered buf)"
    using arg_cong [OF rest, of set_mset] by (metis Un_upper2 set_mset_mset set_mset_union)
  have "distinct (map op_id (ds @ map snd arrivals @ buffered ?b))"
  proof -
    have "mset (map op_id (ds @ map snd arrivals @ buffered ?b)) =
        mset (map op_id (map snd (a # arrivals) @ buffered buf))"
      using rest by (metis mset_append mset_map)
    then show ?thesis using Cons.prems(5) mset_eq_imp_distinct_iff by blast
  qed
  then have dist: "distinct (map op_id (map snd arrivals @ buffered ?b))" by simp
  have inj: "inj_on op_slot (set (map snd arrivals @ buffered ?b))"
    by (rule inj_on_subset [OF Cons.prems(6) sub])
  have stamped: "\<forall>op \<in> snd ` set arrivals. stamped op" using Cons.prems(4) by simp
  obtain ds' where ds': "mset (fst (deliver_all scan arrivals ?b)) = mset ds'" "causal_run (local_vc ?b) ds'"
      "local_vc (snd (deliver_all scan arrivals ?b)) = run_clock (local_vc ?b) ds'"
      "mset (map snd arrivals) + mset (buffered ?b) =
        mset ds' + mset (buffered (snd (deliver_all scan arrivals ?b)))"
      "buffer_ok (snd (deliver_all scan arrivals ?b))" "ready_ops scan (snd (deliver_all scan arrivals ?b)) = []"
    using Cons.IH [OF Cons.prems(1) ds(5,6) stamped dist inj] by auto
  have run: "deliver_all scan (a # arrivals) buf =
      (?out @ fst (deliver_all scan arrivals ?b), snd (deliver_all scan arrivals ?b))"
    by (simp add: a split_beta Let_def)
  have "mset (map snd (a # arrivals)) + mset (buffered buf) =
      mset (ds @ ds') + mset (buffered (snd (deliver_all scan arrivals ?b)))"
    using rest ds'(4) unfolding mset_append by (metis add.assoc)
  then show ?case
    unfolding run fst_conv snd_conv using ds ds'
    by (intro exI [of _ "ds @ ds'"]) (simp add: causal_run_append)
qed

text \<open>If a causally complete history exists, a delivered part of it that leaves nothing ready is all of it.\<close>

lemma causal_run_complete:
  assumes "causal_run vc hist" and "causal_run vc ds" and "set ds \<subseteq> set hist"
    and "\<forall>op \<in> set hist. stamped op" and "inj_on op_slot (set hist)"
    and "\<And>op. \<lbrakk>op \<in> set hist; op \<notin> set ds\<rbrakk> \<Longrightarrow> \<not> dependencies_satisfied (run_clock vc ds) op"
  shows "set hist \<subseteq> set ds"
proof (rule ccontr)
  assume "\<not> set hist \<subseteq> set ds"
  then have "\<exists>x \<in> set hist. x \<notin> set ds" by blast
  then obtain pre x post where hist: "hist = pre @ x # post" and pre: "\<forall>y \<in> set pre. y \<in> set ds" and x: "x \<notin> set ds"
    using split_list_first_prop [of hist "\<lambda>y. y \<notin> set ds"] by blast
  have x_ready: "dependencies_satisfied (run_clock vc pre) x"
    using assms(1) hist by (simp add: causal_run_append)
  have st: "stamped x" "\<forall>op \<in> set pre. stamped op" "\<forall>op \<in> set ds. stamped op" using assms(3,4) hist by auto
  have le: "vc_le (run_clock vc pre) (run_clock vc ds)"
    using run_clock_le [OF st(2), of vc] run_clock_le [OF st(3), of vc "run_clock vc ds"] pre by auto
  let ?o = "cluster_node_id x"
  have pred: "unat (op_counter x) = Suc (unat (vc_get (run_clock vc pre) ?o))"
      "\<And>n. n \<noteq> ?o \<Longrightarrow> vc_get (vector_clock x) n \<le> vc_get (run_clock vc pre) n"
    using x_ready dependencies_satisfied_iff [OF st(1)] by auto
  have "unat (vc_get (run_clock vc ds) ?o) = unat (vc_get (run_clock vc pre) ?o)"
  proof (rule ccontr)
    assume ne: "\<not> ?thesis"
    have "unat (vc_get (run_clock vc pre) ?o) \<le> unat (vc_get (run_clock vc ds) ?o)"
      using le by (simp add: vc_le_def word_le_nat_alt)
    with ne pred(1) have "unat (op_counter x) \<le> unat (vc_get (run_clock vc ds) ?o)" by simp
    moreover have "unat (vc_get vc ?o) < unat (op_counter x)"
      using run_clock_counters [OF st(2), of vc ?o] assms(1) hist pred(1) by (auto simp: causal_run_append)
    ultimately obtain y where y: "y \<in> set ds" "cluster_node_id y = ?o" "unat (op_counter y) = unat (op_counter x)"
      using run_clock_counters [OF st(3) assms(2), of ?o] by blast
    then have "op_slot y = op_slot x" by (simp add: op_slot_def word_unat_eq_iff)
    moreover have "y \<in> set hist" "x \<in> set hist" using assms(3) y(1) hist by auto
    ultimately have "y = x" using assms(5) by (blast dest: inj_onD)
    with y(1) x show False by simp
  qed
  moreover have "vc_get (vector_clock x) n \<le> vc_get (run_clock vc ds) n" if "n \<noteq> ?o" for n
    using pred(2) [OF that] le unfolding vc_le_def by (metis order_trans)
  ultimately have "dependencies_satisfied (run_clock vc ds) x"
    using pred(1) dependencies_satisfied_iff [OF st(1)] by auto
  with assms(6) [of x] hist x show False by simp
qed

section \<open>Properties\<close>


lemmas delivery_eval = stamped_def op_slot_def op_counter_def dependencies_satisfied_def vc_get_def
  list_all_iff Let_def




text \<open>An operation that arrives again after it was delivered is not recognised: it is put
  into the buffer and stays there, because no later state of the local clock satisfies its
  dependency on its own origin again.\<close>

theorem redelivered_operation_stays_buffered:
  assumes "stamped op" and "dependencies_satisfied (local_vc buf) op" and "buffered_ops buf = []"
    and "iteration_order scan"
  shows "let (out1, buf1) = deliver scan now op buf; (out2, buf2) = deliver scan now' op buf1 in
    out1 = [op] \<and> out2 = [] \<and> buffered buf2 = [op] \<and>
    (\<forall>vc. vc_le (local_vc buf2) vc \<longrightarrow> \<not> dependencies_satisfied vc op)"
proof -
  have scan: "scan [] = []" "scan [x] = [x]" for x
  proof -
    have ms: "mset (scan xs) = mset xs" for xs using assms(4) by (simp add: iteration_order_def)
    show "scan [] = []" using ms [of "[]"] by simp
    show "scan [x] = [x]" using ms [of "[x]"] by (cases "scan [x]") auto
  qed
  let ?vc = "vc_merge (local_vc buf) (vector_clock op)"
  have own: "vc_get ?vc (cluster_node_id op) = op_counter op"
    using ready_step [OF assms(1,2)] by simp
  have never: "\<not> dependencies_satisfied vc op" if "vc_le ?vc vc" for vc
  proof -
    have "op_counter op \<le> vc_get vc (cluster_node_id op)" using that own unfolding vc_le_def by metis
    then show ?thesis by (simp add: dependencies_satisfied_iff [OF assms(1)] word_le_nat_alt)
  qed
  then have now: "\<not> dependencies_satisfied ?vc op" by simp
  have idle: "check_buffered_ops scan b = ([], b)" if "ready_ops scan b = []" for b
    using that by (subst check_buffered_ops_def, subst check_loop.simps) simp
  let ?b1 = "snd (deliver scan now op buf)"
  have d1: "fst (deliver scan now op buf) = [op]" "local_vc ?b1 = ?vc" "buffered_ops ?b1 = []"
    using assms(2,3) by (simp_all add: deliver_def Let_def idle ready_ops_def update_local_clock_def scan)
  let ?b2 = "buffer_operation now' op ?b1"
  have b2: "buffered_ops ?b2 = [(op_id op, op, depends_on ?vc op, now')]" "local_vc ?b2 = ?vc"
    using d1 by (simp_all add: buffer_operation_def Let_def)
  have "deliver scan now' op ?b1 = ([], ?b2)"
    using now d1(2) b2 by (simp add: deliver_def idle ready_ops_def scan)
  with d1 b2 never show ?thesis
    by (simp add: split_beta Let_def buffered_def)
qed

theorem redelivered_operation_stays_buffered_witness:
  "let op = sample_op 1 ''n1'' 10 [(''n1'', 1)];
       (out1, buf1) = deliver id 0 op (causal_buffer_new [] None); (out2, buf2) = deliver id 1 op buf1
   in out1 = [op] \<and> out2 = [] \<and> buffered buf2 = [op]"
proof -
  let ?op = "sample_op 1 ''n1'' 10 [(''n1'', 1)]" and ?b = "causal_buffer_new [] None :: unit causal_buffer"
  have "stamped ?op" "dependencies_satisfied (local_vc ?b) ?op" "buffered_ops ?b = []"
    by (simp_all add: delivery_eval causal_buffer_new_def)
  then show ?thesis
    using redelivered_operation_stays_buffered [of ?op ?b id 0 1] by (simp add: split_beta Let_def)
qed

end
