(* ===== verification/Gc.thy ===== *)
theory Gc
  imports Operation
begin

text \<open>
  \<open>raisin-replication/src/gc\<close>: which operations of the log may be deleted. The watermarks are the
  highest sequence number each peer has acknowledged; the collector decides by acknowledgments, by
  age, or, when the log is too large, oldest first. The current time is an argument; \<open>u64\<close> arithmetic wraps
  except where the code saturates.
\<close>

section \<open>Watermarks\<close>

type_synonym peer_watermarks = "(string, u64) hash_map"

definition watermarks_update :: "string \<Rightarrow> u64 \<Rightarrow> peer_watermarks \<Rightarrow> peer_watermarks" where
  "watermarks_update node_id seq w =
     (case hm_get w node_id of
        Some existing \<Rightarrow> if seq > existing then hm_insert node_id seq w else w
      | None \<Rightarrow> hm_insert node_id seq w)"

definition min_watermark :: "peer_watermarks \<Rightarrow> u64" where
  "min_watermark w = (case map snd w of [] \<Rightarrow> 0 | v # vs \<Rightarrow> foldl min v vs)"

definition get_watermark :: "string \<Rightarrow> peer_watermarks \<Rightarrow> u64" where
  "get_watermark node_id w = (case hm_get w node_id of None \<Rightarrow> 0 | Some v \<Rightarrow> v)"

definition watermarks_peers :: "peer_watermarks \<Rightarrow> string list" where
  "watermarks_peers w = hm_keys w"

definition has_peer :: "string \<Rightarrow> peer_watermarks \<Rightarrow> bool" where
  "has_peer node_id w \<longleftrightarrow> hm_get w node_id \<noteq> None"

definition watermarks_remove_peer :: "string \<Rightarrow> peer_watermarks \<Rightarrow> peer_watermarks" where
  "watermarks_remove_peer node_id w = hm_remove node_id w"

section \<open>The collector\<close>

record gc_config =
  max_age_days :: u64
  max_log_size_bytes :: u64
  target_log_size_bytes :: u64
  min_peer_acknowledgments :: nat
  emergency_gc_enabled :: bool

definition gc_config_default :: gc_config where
  "gc_config_default =
     \<lparr>max_age_days = 30, max_log_size_bytes = 10 * 1024 * 1024 * 1024,
      target_log_size_bytes = 9 * 1024 * 1024 * 1024, min_peer_acknowledgments = 0,
      emergency_gc_enabled = True\<rparr>"

datatype gc_strategy = AcknowledgmentBased | TimeBasedFailsafe | Emergency | NoOp

record garbage_collector =
  gc_config :: gc_config
  gc_watermarks :: peer_watermarks

definition gc_new :: garbage_collector where
  "gc_new = \<lparr>gc_config = gc_config_default, gc_watermarks = []\<rparr>"

definition update_watermarks_from_operations ::
  "'p operation list \<Rightarrow> garbage_collector \<Rightarrow> garbage_collector" where
  "update_watermarks_from_operations operations gc =
     gc\<lparr>gc_watermarks :=
       foldl (\<lambda>w op. foldl (\<lambda>w peer_id. watermarks_update peer_id (op_seq op) w) w (acknowledged_by op))
         (gc_watermarks gc) operations\<rparr>"

definition acknowledge_operation :: "string \<Rightarrow> u64 \<Rightarrow> garbage_collector \<Rightarrow> garbage_collector" where
  "acknowledge_operation node_id seq gc =
     gc\<lparr>gc_watermarks := watermarks_update node_id seq (gc_watermarks gc)\<rparr>"

definition gc_can_delete :: "garbage_collector \<Rightarrow> 'p operation \<Rightarrow> bool" where
  "gc_can_delete gc op =
     (let min_wm = min_watermark (gc_watermarks gc);
          ack_count = length (acknowledged_by op);
          peer_count = length (watermarks_peers (gc_watermarks gc))
      in if min_peer_acknowledgments (gc_config gc) = 0
         then ack_count \<ge> peer_count \<and> peer_count > 0 \<and> op_seq op \<le> min_wm
         else ack_count \<ge> min_peer_acknowledgments (gc_config gc) \<and> op_seq op \<le> min_wm)"

definition collect_acknowledgment_based ::
  "garbage_collector \<Rightarrow> 'p operation list \<Rightarrow> uuid list \<times> gc_strategy" where
  "collect_acknowledgment_based gc operations =
     (map op_id (filter (gc_can_delete gc) operations), AcknowledgmentBased)"

definition collect_time_based ::
  "u64 \<Rightarrow> garbage_collector \<Rightarrow> 'p operation list \<Rightarrow> uuid list \<times> gc_strategy" where
  "collect_time_based now_ms gc operations =
     (let cutoff_ms = now_ms - (max_age_days (gc_config gc) * 24 * 60 * 60 * 1000)
      in (map op_id (filter (\<lambda>op. timestamp_ms op < cutoff_ms) operations), TimeBasedFailsafe))"

definition emergency_count :: "gc_config \<Rightarrow> nat \<Rightarrow> nat" where
  "emergency_count cfg n =
     (let avg_op_size = (if n = 0 then 1024 else max_log_size_bytes cfg div of_nat n);
          bytes_to_reclaim = saturating_sub (max_log_size_bytes cfg) (target_log_size_bytes cfg)
      in if avg_op_size = 0 then 0 else unat (bytes_to_reclaim div avg_op_size))"

definition collect_emergency ::
  "garbage_collector \<Rightarrow> 'p operation list \<Rightarrow> uuid list \<times> gc_strategy" where
  "collect_emergency gc operations =
     (let sorted_ops = sort_by (\<lambda>a b. cmp_of (timestamp_ms a) (timestamp_ms b)) operations
      in (map op_id (take (emergency_count (gc_config gc) (length operations)) sorted_ops), Emergency))"

definition gc_collect ::
  "u64 \<Rightarrow> garbage_collector \<Rightarrow> 'p operation list \<Rightarrow> u64 \<Rightarrow> uuid list \<times> gc_strategy" where
  "gc_collect now_ms gc operations current_log_size_bytes =
     (if emergency_gc_enabled (gc_config gc) \<and>
         current_log_size_bytes > max_log_size_bytes (gc_config gc)
      then collect_emergency gc operations
      else
        let (to_delete, _) = collect_acknowledgment_based gc operations
        in if to_delete \<noteq> [] then (to_delete, AcknowledgmentBased)
           else collect_time_based now_ms gc operations)"

definition determine_strategy :: "garbage_collector \<Rightarrow> u64 \<Rightarrow> gc_strategy" where
  "determine_strategy gc current_log_size_bytes =
     (if emergency_gc_enabled (gc_config gc) \<and>
         current_log_size_bytes > max_log_size_bytes (gc_config gc)
      then Emergency else AcknowledgmentBased)"

definition gc_remove_peer :: "string \<Rightarrow> garbage_collector \<Rightarrow> garbage_collector" where
  "gc_remove_peer node_id gc = gc\<lparr>gc_watermarks := watermarks_remove_peer node_id (gc_watermarks gc)\<rparr>"

section \<open>Lemmas\<close>

lemma get_watermark_update:
  "get_watermark n (watermarks_update k seq w) =
     (if n = k then max (get_watermark n w) seq else get_watermark n w)"
  by (auto simp: get_watermark_def watermarks_update_def hm_simps max_def split: option.splits)

lemma has_peer_update: "has_peer n (watermarks_update k seq w) \<longleftrightarrow> n = k \<or> has_peer n w"
  by (auto simp: has_peer_def watermarks_update_def hm_simps split: option.splits)

lemma hm_wf_watermarks_update [simp]: "hm_wf w \<Longrightarrow> hm_wf (watermarks_update k seq w)"
  by (auto simp: watermarks_update_def split: option.splits)

lemma foldl_min_le: "foldl min v vs \<le> v \<and> (\<forall>x \<in> set vs. foldl min v vs \<le> x)" for v :: u64
proof (induction vs arbitrary: v)
  case (Cons a vs)
  have "foldl min (min v a) vs \<le> min v a" using Cons.IH by blast
  then have "foldl min (min v a) vs \<le> v" "foldl min (min v a) vs \<le> a" by (auto intro: order_trans)
  with Cons.IH show ?case by auto
qed simp

lemma min_watermark_le: "(n, v) \<in> set w \<Longrightarrow> min_watermark w \<le> v"
proof (cases "map snd w")
  case (Cons x xs)
  assume "(n, v) \<in> set w"
  then have "v \<in> insert x (set xs)" using arg_cong [OF Cons, of set] by force
  then show ?thesis using Cons foldl_min_le [of x xs] by (auto simp: min_watermark_def)
qed auto

lemma min_watermark_get: "hm_wf w \<Longrightarrow> has_peer n w \<Longrightarrow> min_watermark w \<le> get_watermark n w"
  by (auto simp: has_peer_def get_watermark_def intro: min_watermark_le)

lemma distinct_card_subset:
  assumes "distinct xs" "distinct ys" "set xs \<subseteq> set ys" "length ys \<le> length xs"
  shows "set ys = set xs"
  using assms by (metis List.finite_set card_subset_eq card_mono distinct_card order_antisym)

section \<open>Properties\<close>

text \<open>A watermark never goes back: after any sequence of acknowledgments it is the largest sequence
  number the peer acknowledged, or what it was before.\<close>

theorem watermarks_monotone:
  "get_watermark n (gc_watermarks (fold (\<lambda>(k, seq). acknowledge_operation k seq) acks gc)) =
     Max (insert (get_watermark n (gc_watermarks gc)) {seq. (n, seq) \<in> set acks})"
proof (induction acks arbitrary: gc)
  case (Cons a acks)
  obtain k seq where a: "a = (k, seq)" by (cases a)
  have fin: "finite {s. (n, s) \<in> set acks}"
    by (rule finite_subset [of _ "snd ` set acks"]) (force, simp)
  have "{s. (n, s) \<in> set (a # acks)} =
      (if n = k then insert seq {s. (n, s) \<in> set acks} else {s. (n, s) \<in> set acks})"
    using a by auto
  moreover have "Max (insert (max x y) {s. (n, s) \<in> set acks}) = Max (insert x (insert y {s. (n, s) \<in> set acks}))"
    for x y :: u64
    using fin by (cases "{s. (n, s) \<in> set acks} = {}") (simp_all only: Max_insert finite_insert insert_not_empty
        max.assoc Max_singleton not_False_eq_True)
  ultimately show ?case
    using Cons.IH [of "acknowledge_operation k seq gc"]
    by (cases "n = k") (simp_all add: a acknowledge_operation_def get_watermark_update)
qed simp


definition acked_op :: "string list \<Rightarrow> unit operation" where
  "acked_op ps = (operation_new 7 10 5 ''b'' [(''b'', 5)] ''t'' ''r'' ''main'' (DeleteUser ''u'') ''a'')\<lparr>acknowledged_by := ps\<rparr>"

definition two_peer_gc :: garbage_collector where
  "two_peer_gc = gc_new\<lparr>gc_watermarks := [(''p'', 10), (''q'', 10)]\<rparr>"


text \<open>The collector compares the number of acknowledgments with the number of known peers, not
  their names: an operation acknowledged only by two peers that were removed since is
  deleted although neither of the two known peers has acknowledged it.\<close>

theorem gc_counts_acknowledgments:
  "gc_collect 0 two_peer_gc [acked_op [''x'', ''y'']] 0 = ([7], AcknowledgmentBased) \<and>
   watermarks_peers (gc_watermarks two_peer_gc) = [''p'', ''q''] \<and>
   \<not> acknowledged_by_all [''p''] (acked_op [''x'', ''y'']) \<and>
   \<not> acknowledged_by_all [''q''] (acked_op [''x'', ''y''])"
  by (simp add: gc_collect_def collect_acknowledgment_based_def gc_can_delete_def two_peer_gc_def gc_new_def
        gc_config_default_def acked_op_def operation_new_def min_watermark_def watermarks_peers_def
        acknowledged_by_all_def Let_def)

lemma unat_age_ms:
  fixes d :: u64
  assumes "unat d * 86400000 < 2 ^ 64"
  shows "unat (d * 24 * 60 * 60 * 1000) = unat d * 86400000"
proof -
  have "d * 24 * 60 * 60 * 1000 = d * 86400000" by simp
  with assms show ?thesis by (simp only: unat_word_ariths) simp
qed

text \<open>The time-based fail-safe deletes exactly the operations older than the configured age,
  as long as that age does not reach back before the epoch.\<close>

theorem gc_time_based_exact:
  assumes "unat (max_age_days (gc_config gc)) * 86400000 \<le> unat now_ms"
  shows "collect_time_based now_ms gc ops =
    (map op_id (filter (\<lambda>op. unat (timestamp_ms op) + unat (max_age_days (gc_config gc)) * 86400000 < unat now_ms) ops),
     TimeBasedFailsafe)"
proof -
  let ?age = "max_age_days (gc_config gc) * 24 * 60 * 60 * 1000"
  have age: "unat ?age = unat (max_age_days (gc_config gc)) * 86400000"
    using assms unat_u64_lt [of now_ms] by (intro unat_age_ms) linarith
  then have "unat (now_ms - ?age) = unat now_ms - unat (max_age_days (gc_config gc)) * 86400000"
    using assms by (simp only: unat_sub word_le_nat_alt)
  then have "timestamp_ms op < now_ms - ?age \<longleftrightarrow>
      unat (timestamp_ms op) + unat (max_age_days (gc_config gc)) * 86400000 < unat now_ms" for op :: "'a operation"
    unfolding word_less_nat_alt [of "timestamp_ms op"] by linarith
  then show ?thesis by (simp only: collect_time_based_def Let_def)
qed

theorem gc_time_based_exact_witness:
  "collect_time_based 1700000000000 gc_new [acked_op []] = ([7], TimeBasedFailsafe)"
  using gc_time_based_exact [of gc_new 1700000000000 "[acked_op []]"]
  by (simp add: gc_new_def gc_config_default_def acked_op_def operation_new_def)

text \<open>An age that reaches back before the epoch (here a hundred years, in November 2023) makes the cutoff
  wrap around, and an operation written one millisecond ago is deleted.\<close>

theorem gc_time_based_wraps:
  "collect_time_based 1700000000000 (gc_new\<lparr>gc_config := gc_config_default\<lparr>max_age_days := 36500\<rparr>\<rparr>)
     [(acked_op [])\<lparr>timestamp_ms := 1699999999999\<rparr>] = ([7], TimeBasedFailsafe)"
  by (simp add: collect_time_based_def gc_new_def gc_config_default_def acked_op_def operation_new_def)

text \<open>Emergency collection deletes the oldest operations first, no more than the configured
  share of the log: a deleted operation is never newer than a kept one, and what it returns are the
  ids of the first operations in timestamp order.\<close>

theorem gc_emergency_oldest_first:
  "\<exists>del kept. mset (del @ kept) = mset ops \<and>
     collect_emergency gc ops = (map op_id del, Emergency) \<and>
     length del = min (length ops) (emergency_count (gc_config gc) (length ops)) \<and>
     sorted_wrt (\<lambda>a b. timestamp_ms a \<le> timestamp_ms b) (del @ kept)"
proof -
  let ?cmp = "\<lambda>a b :: 'a operation. cmp_of (timestamp_ms a) (timestamp_ms b)"
  let ?s = "sort_by ?cmp ops" and ?n = "emergency_count (gc_config gc) (length ops)"
  have "sorted_wrt (\<lambda>a b. ?cmp a b \<noteq> Greater) ?s"
    by (rule rust_cmp.sorted_sort_by [OF rust_cmp_key, of ops UNIV]) simp
  then have "sorted_wrt (\<lambda>a b. timestamp_ms a \<le> timestamp_ms b) ?s"
    by (simp add: cmp_simps not_less)
  moreover have "mset (take ?n ?s @ drop ?n ?s) = mset ops" by simp
  ultimately show ?thesis
    by (intro exI [of _ "take ?n ?s"] exI [of _ "drop ?n ?s"]) (simp add: collect_emergency_def Let_def)
qed

end
