(* ===== verification/Decomposer.thy ===== *)
theory Decomposer
  imports Operation
begin

text \<open>
  \<open>raisin-replication/src/operation_decomposer.rs\<close>: an \<open>ApplyRevision\<close> is split into one operation per node
  change before it is sent. The 64-bit hash of the standard library (\<open>DefaultHasher\<close>, whose
  algorithm is not specified) is the parameter \<open>hash\<close>, and \<open>uuid_from_bytes\<close> is \<open>Uuid::from_bytes\<close>, the
  sixteen bytes as one big-endian number.
\<close>

section \<open>Operations\<close>

definition u64_to_le_bytes :: "u64 \<Rightarrow> u8 list" where
  "u64_to_le_bytes w = rev (u64_to_be_bytes w)"

definition uuid_from_bytes :: "u8 list \<Rightarrow> uuid" where
  "uuid_from_bytes bs = of_nat (bytes_val bs)"

definition generate_decomposed_op_id :: "(uuid \<Rightarrow> u64 \<Rightarrow> u64) \<Rightarrow> uuid \<Rightarrow> u64 \<Rightarrow> uuid" where
  "generate_decomposed_op_id hash original_op_id index =
     uuid_from_bytes (u64_to_le_bytes (hash original_op_id index) @ u64_to_le_bytes index)"

definition decomposed_op_type :: "hlc \<Rightarrow> 'p node_change \<Rightarrow> 'p op_type" where
  "decomposed_op_type branch_head c =
     (case change_kind c of
        Upsert \<Rightarrow> UpsertNodeSnapshot (change_node c) (change_parent_id c) branch_head (change_cf_order_key c)
      | Delete \<Rightarrow> DeleteNodeSnapshot (doc_id (change_node c)) branch_head (Some (change_node c)) (change_parent_id c))"

definition decompose_apply_revision ::
  "(uuid \<Rightarrow> u64 \<Rightarrow> u64) \<Rightarrow> 'p operation \<Rightarrow> hlc \<Rightarrow> 'p node_change list \<Rightarrow> 'p operation list" where
  "decompose_apply_revision hash original_op branch_head node_changes =
     map (\<lambda>(index, c).
         \<lparr>op_id = generate_decomposed_op_id hash (op_id original_op) (of_nat index),
          op_seq = op_seq original_op,
          cluster_node_id = cluster_node_id original_op,
          timestamp_ms = timestamp_ms original_op,
          vector_clock = vector_clock original_op,
          tenant_id = tenant_id original_op,
          repo_id = repo_id original_op,
          branch = branch original_op,
          op_type = decomposed_op_type branch_head c,
          revision = Some branch_head,
          actor = actor original_op,
          agent = agent original_op,
          message = message original_op,
          is_system = is_system original_op,
          acknowledged_by = []\<rparr>)
       (List.enumerate 0 node_changes)"

definition decompose_operation :: "(uuid \<Rightarrow> u64 \<Rightarrow> u64) \<Rightarrow> 'p operation \<Rightarrow> 'p operation list" where
  "decompose_operation hash op =
     (case op_type op of
        ApplyRevision branch_head node_changes \<Rightarrow> decompose_apply_revision hash op branch_head node_changes
      | _ \<Rightarrow> [op])"

section \<open>Lemmas\<close>

lemma uuid_from_bytes_inj:
  assumes "length xs = 16" "length ys = 16" "uuid_from_bytes xs = uuid_from_bytes ys"
  shows "xs = ys"
proof -
  have val: "unat (uuid_from_bytes zs) = bytes_val zs" if "length zs = 16" for zs
  proof -
    have "bytes_val zs < 2 ^ 128" using bytes_val_lt [of zs] that by simp
    then show ?thesis by (simp add: uuid_from_bytes_def unat_of_nat)
  qed
  have "bytes_val xs = bytes_val ys" using val [OF assms(1)] val [OF assms(2)] assms(3) by metis
  then show ?thesis using be_bytes_bytes_val [of xs] be_bytes_bytes_val [of ys] assms(1,2) by metis
qed

lemma generate_decomposed_op_id_inj:
  assumes "generate_decomposed_op_id h i a = generate_decomposed_op_id h j b"
  shows "a = b"
proof -
  have "u64_to_le_bytes (h i a) @ u64_to_le_bytes a = u64_to_le_bytes (h j b) @ u64_to_le_bytes b"
    using assms by (intro uuid_from_bytes_inj) (simp_all add: generate_decomposed_op_id_def u64_to_le_bytes_def)
  then show ?thesis by (simp add: u64_to_le_bytes_def)
qed

lemma decompose_nth:
  assumes "n < length cs"
  shows "decompose_apply_revision h op bh cs ! n =
    op\<lparr>op_id := generate_decomposed_op_id h (op_id op) (of_nat n), op_type := decomposed_op_type bh (cs ! n),
       revision := Some bh, acknowledged_by := []\<rparr>"
  using assms by (simp add: decompose_apply_revision_def nth_enumerate_eq)

lemma length_decompose [simp]: "length (decompose_apply_revision h op bh cs) = length cs"
  by (simp add: decompose_apply_revision_def)

lemma decompose_distinct_ids:
  assumes "length cs \<le> 2 ^ 64"
  shows "distinct (map op_id (decompose_apply_revision h op bh cs))"
  unfolding distinct_conv_nth length_map length_decompose
proof (intro allI impI)
  fix i j assume ij: "i < length cs" "j < length cs" "i \<noteq> j"
  show "map op_id (decompose_apply_revision h op bh cs) ! i \<noteq> map op_id (decompose_apply_revision h op bh cs) ! j"
  proof
    assume "map op_id (decompose_apply_revision h op bh cs) ! i = map op_id (decompose_apply_revision h op bh cs) ! j"
    then have "(of_nat i :: u64) = of_nat j"
      using ij by (auto simp: decompose_nth dest: generate_decomposed_op_id_inj)
    then have "unat (of_nat i :: u64) = unat (of_nat j :: u64)" by simp
    with ij assms show False by (simp add: unat_of_nat)
  qed
qed

text \<open>Decomposition of a revision: one operation per node change, in commit order, each targeting the
  node of its change, with distinct ids that depend only on the original id and the position;
  origin, clock, sequence number, scope and attribution are those of the original. Decomposing a
  piece again, or any other operation, leaves it as it is.\<close>

theorem decompose_operation_pieces:
  assumes "op_type op = ApplyRevision bh cs" and "length cs \<le> 2 ^ 64"
  shows "let ds = decompose_operation hash op in
    length ds = length cs \<and> distinct (map op_id ds) \<and>
    map (target uuid_str) ds = map (\<lambda>c. NodeTarget (doc_id (change_node c))) cs \<and>
    map is_delete ds = map (\<lambda>c. change_kind c = Delete) cs \<and>
    list_all (\<lambda>d. d\<lparr>op_id := op_id op, op_type := op_type op, revision := revision op,
                  acknowledged_by := acknowledged_by op\<rparr> = op \<and>
               revision d = Some bh \<and> decompose_operation hash d = [d]) ds"
proof -
  let ?ds = "decompose_operation hash op"
  have ds: "?ds = decompose_apply_revision hash op bh cs" using assms(1) by (simp add: decompose_operation_def)
  have nth: "?ds ! n = op\<lparr>op_id := generate_decomposed_op_id hash (op_id op) (of_nat n),
      op_type := decomposed_op_type bh (cs ! n), revision := Some bh, acknowledged_by := []\<rparr>"
    if "n < length cs" for n using that ds decompose_nth by simp
  have tgt: "map (target uuid_str) ?ds = map (\<lambda>c. NodeTarget (doc_id (change_node c))) cs"
    by (rule nth_equalityI) (simp_all add: ds decompose_nth target_def decomposed_op_type_def split: change_kind.splits)
  have del: "map is_delete ?ds = map (\<lambda>c. change_kind c = Delete) cs"
    by (rule nth_equalityI) (simp_all add: ds decompose_nth is_delete_def decomposed_op_type_def split: change_kind.splits)
  have "list_all (\<lambda>d. d\<lparr>op_id := op_id op, op_type := op_type op, revision := revision op,
      acknowledged_by := acknowledged_by op\<rparr> = op \<and> revision d = Some bh \<and> decompose_operation hash d = [d]) ?ds"
    unfolding list_all_length
  proof (intro allI impI)
    fix n assume "n < length ?ds"
    then have n: "n < length cs" by (simp add: ds)
    show "(?ds ! n)\<lparr>op_id := op_id op, op_type := op_type op, revision := revision op,
        acknowledged_by := acknowledged_by op\<rparr> = op \<and> revision (?ds ! n) = Some bh \<and>
        decompose_operation hash (?ds ! n) = [?ds ! n]"
      unfolding nth [OF n] by (auto simp: decompose_operation_def decomposed_op_type_def split: change_kind.splits)
  qed
  with tgt del show ?thesis
    using decompose_distinct_ids [OF assms(2)] ds by (simp add: Let_def)
qed

definition revision_op :: "unit operation" where
  "revision_op = operation_new 9 10 5 ''n1'' [(''n1'', 5)] ''t'' ''r'' ''main''
     (ApplyRevision (hlc_new 10 0)
        [\<lparr>change_node = \<lparr>doc_id = ''x'', doc_rest = ()\<rparr>, change_parent_id = None,
          change_kind = Upsert, change_cf_order_key = ''a0''\<rparr>,
         \<lparr>change_node = \<lparr>doc_id = ''y'', doc_rest = ()\<rparr>, change_parent_id = None,
          change_kind = Delete, change_cf_order_key = ''a1''\<rparr>]) ''u''"

theorem decompose_operation_pieces_witness:
  "map (target (\<lambda>_. [])) (decompose_operation (\<lambda>_ _. 0) revision_op) = [NodeTarget ''x'', NodeTarget ''y''] \<and>
   distinct (map op_id (decompose_operation (\<lambda>_ _. 0) revision_op))"
  using decompose_operation_pieces [of revision_op "hlc_new 10 0" "[\<lparr>change_node = \<lparr>doc_id = ''x'', doc_rest = ()\<rparr>, change_parent_id = None,
          change_kind = Upsert, change_cf_order_key = ''a0''\<rparr>,
         \<lparr>change_node = \<lparr>doc_id = ''y'', doc_rest = ()\<rparr>, change_parent_id = None,
          change_kind = Delete, change_cf_order_key = ''a1''\<rparr>]" "\<lambda>_ _. 0" "\<lambda>_. []"]
  by (simp add: revision_op_def operation_new_def Let_def)

end
