(* ===== verification/Priority.thy ===== *)
theory Priority
  imports Operation
begin

text \<open>
  \<open>raisin-replication/src/priority.rs\<close>: the order in which the operations of a synchronisation batch are
  applied. The derived order of \<open>OperationPriority\<close> is the order of its discriminants.
\<close>

section \<open>Priorities\<close>

datatype operation_priority = Critical | High | Medium | Low

fun priority_value :: "operation_priority \<Rightarrow> nat" where
  "priority_value Critical = 1"
| "priority_value High = 2"
| "priority_value Medium = 3"
| "priority_value Low = 4"

definition priority_from_operation :: "'p operation \<Rightarrow> operation_priority" where
  "priority_from_operation op =
     (case op_type op of
        UpdateUser _ _ \<Rightarrow> Critical
      | DeleteUser _ \<Rightarrow> Critical
      | UpdateTenant _ _ \<Rightarrow> Critical
      | DeleteTenant _ \<Rightarrow> Critical
      | UpdateDeployment _ _ \<Rightarrow> Critical
      | DeleteDeployment _ \<Rightarrow> Critical
      | UpdateRepository _ _ _ \<Rightarrow> Critical
      | DeleteRepository _ _ \<Rightarrow> Critical
      | GrantPermission _ _ _ _ _ \<Rightarrow> Critical
      | RevokePermission _ _ _ _ _ \<Rightarrow> Critical
      | UpsertIdentity _ _ \<Rightarrow> Critical
      | DeleteIdentity _ \<Rightarrow> Critical
      | CreateSession _ _ \<Rightarrow> Critical
      | RevokeSession _ \<Rightarrow> Critical
      | RevokeAllIdentitySessions _ \<Rightarrow> Critical
      | UpsertOAuthClient _ _ \<Rightarrow> Critical
      | DeleteOAuthClient _ \<Rightarrow> Critical
      | UpsertOAuthRefreshToken _ _ \<Rightarrow> Critical
      | RevokeOAuthRefreshFamily _ \<Rightarrow> Critical
      | UpsertApiKey _ _ \<Rightarrow> Critical
      | UpsertSecret _ _ \<Rightarrow> Critical
      | RotateRefreshToken _ _ \<Rightarrow> Critical
      | UpdateWorkspace _ _ \<Rightarrow> High
      | DeleteWorkspace _ \<Rightarrow> High
      | UpdateBranch _ \<Rightarrow> High
      | DeleteBranch _ \<Rightarrow> High
      | CreateTag _ _ \<Rightarrow> High
      | DeleteTag _ \<Rightarrow> High
      | UpdateNodeType _ _ \<Rightarrow> High
      | DeleteNodeType _ \<Rightarrow> High
      | UpdateArchetype _ _ \<Rightarrow> High
      | DeleteArchetype _ \<Rightarrow> High
      | UpdateElementType _ _ \<Rightarrow> High
      | DeleteElementType _ \<Rightarrow> High
      | ApplyRevision _ _ \<Rightarrow> Medium
      | CreateRevisionMeta _ \<Rightarrow> Medium
      | AddRelation _ _ _ _ _ _ \<Rightarrow> Low
      | RemoveRelation _ _ _ _ _ \<Rightarrow> Low
      | UpsertTranslationOverlay _ _ _ _ _ _ _ \<Rightarrow> Low
      | Unknown _ _ \<Rightarrow> Low
      | UpsertNodeSnapshot _ _ _ _ \<Rightarrow> Low
      | DeleteNodeSnapshot _ _ _ _ \<Rightarrow> Low)"

definition priority_cmp :: "'p operation \<Rightarrow> 'p operation \<Rightarrow> rust_ordering" where
  "priority_cmp a b =
     (case cmp_of (priority_value (priority_from_operation a)) (priority_value (priority_from_operation b)) of
        Equal \<Rightarrow> cmp_of (op_seq a) (op_seq b)
      | other \<Rightarrow> other)"

definition sort_operations_by_priority :: "'p operation list \<Rightarrow> 'p operation list" where
  "sort_operations_by_priority operations = sort_by priority_cmp operations"

section \<open>Properties\<close>

lemma priority_cmp_then:
  "priority_cmp a b = then_with
     (cmp_of (priority_value (priority_from_operation a)) (priority_value (priority_from_operation b)))
     (cmp_of (op_seq a) (op_seq b))"
  by (auto simp: priority_cmp_def split: rust_ordering.splits)

interpretation priority_order: rust_cmp priority_cmp UNIV
  unfolding priority_cmp_then [abs_def]
  by unfold_locales
    (auto simp: cmp_simps reverse_then_with intro: cmp_of_flip intro!: arg_cong2 [of _ _ _ _ then_with])

text \<open>The priority sort rearranges the batch so that no operation comes after one of a lower
  priority, nor, within one priority, after one with a larger sequence number; operations that agree in both
  keep their order, and none is lost.\<close>

theorem sort_by_priority_correct:
  "mset (sort_operations_by_priority ops) = mset ops \<and>
   sorted_wrt (\<lambda>a b. priority_value (priority_from_operation a) < priority_value (priority_from_operation b) \<or>
      (priority_from_operation a = priority_from_operation b \<and> op_seq a \<le> op_seq b))
     (sort_operations_by_priority ops) \<and>
   filter (\<lambda>x. priority_from_operation x = p \<and> op_seq x = q) (sort_operations_by_priority ops) =
     filter (\<lambda>x. priority_from_operation x = p \<and> op_seq x = q) ops"
proof -
  have val: "priority_value p = priority_value q \<longleftrightarrow> p = q" for p q by (cases p; cases q) auto
  have eq: "priority_cmp e x = Equal \<longleftrightarrow>
      priority_from_operation x = priority_from_operation e \<and> op_seq x = op_seq e" for e x :: "'a operation"
    by (auto simp: priority_cmp_then cmp_simps val)
  have sorted: "sorted_wrt (\<lambda>a b. priority_cmp a b \<noteq> Greater) (sort_operations_by_priority ops)"
    unfolding sort_operations_by_priority_def by (rule priority_order.sorted_sort_by) simp
  have "sorted_wrt (\<lambda>a b. priority_value (priority_from_operation a) < priority_value (priority_from_operation b) \<or>
      (priority_from_operation a = priority_from_operation b \<and> op_seq a \<le> op_seq b)) (sort_operations_by_priority ops)"
    by (rule sorted_wrt_mono_rel [OF _ sorted]) (auto simp: priority_cmp_then cmp_simps val [symmetric] not_less)
  moreover have "filter (\<lambda>x. priority_from_operation x = p \<and> op_seq x = q) (sort_operations_by_priority ops) =
      filter (\<lambda>x. priority_from_operation x = p \<and> op_seq x = q) ops"
  proof (cases "\<exists>e :: 'a operation. priority_from_operation e = p \<and> op_seq e = q")
    case True
    then obtain e :: "'a operation" where e: "priority_from_operation e = p" "op_seq e = q" by blast
    show ?thesis
      using priority_order.sort_by_stable [of ops e] unfolding eq e sort_operations_by_priority_def by simp
  next
    case False
    then show ?thesis by (simp add: filter_False)
  qed
  ultimately show ?thesis by (simp add: sort_operations_by_priority_def)
qed

text \<open>Sequence numbers are counted per origin, so the sort can invert causality: here an operation
  of one node depends on an earlier one of another node (its clock is later), both have the same
  priority, and the sort places it first because its own sequence number is smaller.\<close>

theorem priority_sort_inverts_causality:
  "let a = operation_new 1 10 5 ''n1'' [(''n1'', 5)] ''t'' ''r'' ''main'' (UpdateNodeType ''T'' ()) ''u'';
       b = operation_new 2 20 1 ''n2'' [(''n1'', 5), (''n2'', 1)] ''t'' ''r'' ''main'' (UpdateWorkspace ''W'' ()) ''u''
   in happens_before (vector_clock a) (vector_clock b) \<and> sort_operations_by_priority [a, b] = [b, a]"
  by (simp add: operation_new_def Let_def happens_before_def vc_compare_def vc_compare_flags_def vc_get_def
      cmp_of_def sort_operations_by_priority_def priority_cmp_def priority_from_operation_def)

end
