(* ===== verification/Locks.thy ===== *)
theory Locks
  imports Raisin_Prelude
begin

text \<open>
  \<open>raisin-locks\<close>: lease locks with fencing tokens and counting reservations, the in-process backend of
  \<open>inprocess.rs\<close>, and the term of a leader of \<open>election.rs\<close>. Every operation holds the entry
  lock of its key in the code, so it is one atomic step here; the wall clock and the durations (in
  milliseconds) are arguments.

  The trait \<open>LockManager\<close> is the locale \<open>lock_manager\<close>, stated over a view of the manager (which
  key is held under which token and until when). Its clients' guarantees, mutual exclusion of live
  leases first, are proved there and hold of the in-process manager by interpretation.
\<close>

section \<open>Data and operations\<close>

record lock_guard =
  guard_key :: string
  guard_token :: u64
  guard_expires_at_ms :: u64

record lock_entry =
  entry_owner :: string
  entry_token :: u64
  entry_expires_at_ms :: u64

record lock_inner =
  locks :: "(string, lock_entry) hash_map"
  pools :: "(string, u64) hash_map"
  fence :: u64

definition saturating_add :: "u64 \<Rightarrow> u64 \<Rightarrow> u64" where
  "saturating_add a b = (if unat a + unat b < 2 ^ 64 then a + b else u64_MAX)"

definition lock_manager_new :: lock_inner where
  "lock_manager_new = \<lparr>locks = [], pools = [], fence = 0\<rparr>"

definition next_token :: "lock_inner \<Rightarrow> u64 \<times> lock_inner" where
  "next_token s = (fence s + 1, s\<lparr>fence := fence s + 1\<rparr>)"

definition sweep_expired :: "u64 \<Rightarrow> lock_inner \<Rightarrow> lock_inner" where
  "sweep_expired now s = s\<lparr>locks := filter (\<lambda>(_, e). entry_expires_at_ms e > now) (locks s)\<rparr>"

definition grant :: "string \<Rightarrow> string \<Rightarrow> u64 \<Rightarrow> lock_inner \<Rightarrow> lock_guard option \<times> lock_inner" where
  "grant key owner expires_at_ms s =
     (let (token, s') = next_token s
      in (Some \<lparr>guard_key = key, guard_token = token, guard_expires_at_ms = expires_at_ms\<rparr>,
          s'\<lparr>locks := hm_insert key
               \<lparr>entry_owner = owner, entry_token = token, entry_expires_at_ms = expires_at_ms\<rparr> (locks s')\<rparr>))"

definition try_acquire ::
  "string \<Rightarrow> string \<Rightarrow> u64 \<Rightarrow> u64 \<Rightarrow> lock_inner \<Rightarrow> lock_guard option \<times> lock_inner" where
  "try_acquire key owner ttl_ms now s =
     (let expires_at_ms = saturating_add now ttl_ms
      in case hm_get (locks s) key of
           Some e \<Rightarrow> if entry_expires_at_ms e > now then (None, s) else grant key owner expires_at_ms s
         | None \<Rightarrow> grant key owner expires_at_ms s)"

definition release :: "string \<Rightarrow> u64 \<Rightarrow> lock_inner \<Rightarrow> bool \<times> lock_inner" where
  "release key token s =
     (case hm_get (locks s) key of
        Some e \<Rightarrow> if entry_token e = token then (True, s\<lparr>locks := hm_remove key (locks s)\<rparr>) else (False, s)
      | None \<Rightarrow> (False, s))"

definition renew :: "string \<Rightarrow> u64 \<Rightarrow> u64 \<Rightarrow> u64 \<Rightarrow> lock_inner \<Rightarrow> bool \<times> lock_inner" where
  "renew key token ttl_ms now s =
     (case hm_get (locks s) key of
        Some e \<Rightarrow>
          if entry_token e = token
          then (True, s\<lparr>locks := hm_insert key (e\<lparr>entry_expires_at_ms := saturating_add now ttl_ms\<rparr>) (locks s)\<rparr>)
          else (False, s)
      | None \<Rightarrow> (False, s))"

definition claim :: "string \<Rightarrow> u64 \<Rightarrow> u64 \<Rightarrow> lock_inner \<Rightarrow> u64 option \<times> lock_inner" where
  "claim pool n capacity s =
     (let cur = (case hm_get (pools s) pool of None \<Rightarrow> capacity | Some c \<Rightarrow> c);
          s' = s\<lparr>pools := hm_insert pool cur (pools s)\<rparr>
      in if cur < n then (None, s')
         else (Some (cur - n), s'\<lparr>pools := hm_insert pool (cur - n) (pools s')\<rparr>))"

definition release_claim :: "string \<Rightarrow> u64 \<Rightarrow> lock_inner \<Rightarrow> u64 \<times> lock_inner" where
  "release_claim pool n s =
     (let prev = (case hm_get (pools s) pool of None \<Rightarrow> 0 | Some c \<Rightarrow> c)
      in (saturating_add prev n, s\<lparr>pools := hm_insert pool (prev + n) (pools s)\<rparr>))"

definition scoped_key :: "string \<Rightarrow> string \<Rightarrow> string \<Rightarrow> string \<Rightarrow> string" where
  "scoped_key tenant_id repo_id branch name =
     tenant_id @ [CHR 0x00] @ repo_id @ [CHR 0x00] @ branch @ [CHR 0x00] @ name"

definition integration_accounts_key :: "string \<Rightarrow> string \<Rightarrow> string \<Rightarrow> string" where
  "integration_accounts_key tenant_id repo_id integration_path =
     scoped_key tenant_id repo_id ''main'' (''integration-accounts:'' @ integration_path)"

section \<open>Leader election\<close>

datatype election_term = Cancelled | Fenced | Finished

text \<open>What the \<open>select!\<close> of \<open>hold\<close> can observe; a renewal that fails with an error is \<open>RenewError\<close>.\<close>

datatype hold_event = Cancel | WorkDone | RenewTick u64 | RenewError

text \<open>\<open>None\<close>: the events ran out while the lease was still held.\<close>

fun hold ::
  "(string \<Rightarrow> u64 \<Rightarrow> u64 \<Rightarrow> u64 \<Rightarrow> 's \<Rightarrow> bool \<times> 's) \<Rightarrow> string \<Rightarrow> u64 \<Rightarrow> u64 \<Rightarrow> hold_event list \<Rightarrow> 's
     \<Rightarrow> election_term option \<times> 's" where
  "hold ren key token ttl [] s = (None, s)"
| "hold ren key token ttl (Cancel # es) s = (Some Cancelled, s)"
| "hold ren key token ttl (WorkDone # es) s = (Some Finished, s)"
| "hold ren key token ttl (RenewError # es) s = (Some Fenced, s)"
| "hold ren key token ttl (RenewTick now # es) s =
     (case ren key token ttl now s of
        (True, s') \<Rightarrow> hold ren key token ttl es s'
      | (False, s') \<Rightarrow> (Some Fenced, s'))"

text \<open>One round of \<open>run\<close> up to the wait: stand for election, hold the term, release. The result is
  how the term ended, if there was one.\<close>

definition election_round ::
  "(string \<Rightarrow> string \<Rightarrow> u64 \<Rightarrow> u64 \<Rightarrow> 's \<Rightarrow> lock_guard option \<times> 's) \<Rightarrow>
   (string \<Rightarrow> u64 \<Rightarrow> 's \<Rightarrow> bool \<times> 's) \<Rightarrow> (string \<Rightarrow> u64 \<Rightarrow> u64 \<Rightarrow> u64 \<Rightarrow> 's \<Rightarrow> bool \<times> 's) \<Rightarrow>
   string \<Rightarrow> string \<Rightarrow> u64 \<Rightarrow> u64 \<Rightarrow> hold_event list \<Rightarrow> 's \<Rightarrow> election_term option \<times> 's" where
  "election_round acq rel ren key owner ttl now es s =
     (case acq key owner ttl now s of
        (None, s') \<Rightarrow> (None, s')
      | (Some g, s') \<Rightarrow>
          (case hold ren key (guard_token g) ttl es s' of
             (None, s'') \<Rightarrow> (None, s'')
           | (Some t, s'') \<Rightarrow> (Some t, snd (rel key (guard_token g) s''))))"

text \<open>The wait between rounds: a delay spread over the upper half of \<open>base\<close>, in milliseconds.\<close>

definition jittered :: "u64 \<Rightarrow> u64 \<Rightarrow> u64" where
  "jittered entropy millis =
     (if millis < 2 then millis
      else let half = millis div 2 in half + (entropy mod (millis - half + 1)))"

section \<open>Runs of a lock manager\<close>

text \<open>
  A run interleaves the calls of any number of clients and the background sweep. Beside the manager it
  carries what the clients know: the leases they hold (key, token, expiry), with the
  expiry moved by a successful renewal and the lease dropped by a successful release; and the tokens granted.
\<close>

datatype lock_cmd = Acquire string string u64 | Release string u64 | Renew string u64 u64 | Sweep

type_synonym lease = "string \<times> u64 \<times> u64"

fun lock_exec ::
  "(string \<Rightarrow> string \<Rightarrow> u64 \<Rightarrow> u64 \<Rightarrow> 's \<Rightarrow> lock_guard option \<times> 's) \<Rightarrow>
   (string \<Rightarrow> u64 \<Rightarrow> 's \<Rightarrow> bool \<times> 's) \<Rightarrow> (string \<Rightarrow> u64 \<Rightarrow> u64 \<Rightarrow> u64 \<Rightarrow> 's \<Rightarrow> bool \<times> 's) \<Rightarrow>
   (u64 \<Rightarrow> 's \<Rightarrow> 's) \<Rightarrow> u64 \<times> lock_cmd \<Rightarrow> 's \<times> lease list \<times> u64 list \<Rightarrow> 's \<times> lease list \<times> u64 list" where
  "lock_exec acq rel ren sweep (now, Acquire k owner ttl) (s, ls, ts) =
     (case acq k owner ttl now s of
        (None, s') \<Rightarrow> (s', ls, ts)
      | (Some g, s') \<Rightarrow> (s', (k, guard_token g, guard_expires_at_ms g) # ls, guard_token g # ts))"
| "lock_exec acq rel ren sweep (now, Release k t) (s, ls, ts) =
     (let (ok, s') = rel k t s
      in (s', if ok then filter (\<lambda>(k', t', _). \<not> (k' = k \<and> t' = t)) ls else ls, ts))"
| "lock_exec acq rel ren sweep (now, Renew k t ttl) (s, ls, ts) =
     (let (ok, s') = ren k t ttl now s
      in (s', if ok then map (\<lambda>(k', t', e). if k' = k \<and> t' = t then (k', t', saturating_add now ttl) else (k', t', e)) ls
              else ls, ts))"
| "lock_exec acq rel ren sweep (now, Sweep) (s, ls, ts) = (sweep now s, ls, ts)"

definition lock_run ::
  "(string \<Rightarrow> string \<Rightarrow> u64 \<Rightarrow> u64 \<Rightarrow> 's \<Rightarrow> lock_guard option \<times> 's) \<Rightarrow>
   (string \<Rightarrow> u64 \<Rightarrow> 's \<Rightarrow> bool \<times> 's) \<Rightarrow> (string \<Rightarrow> u64 \<Rightarrow> u64 \<Rightarrow> u64 \<Rightarrow> 's \<Rightarrow> bool \<times> 's) \<Rightarrow>
   (u64 \<Rightarrow> 's \<Rightarrow> 's) \<Rightarrow> (u64 \<times> lock_cmd) list \<Rightarrow> 's \<Rightarrow> 's \<times> lease list \<times> u64 list" where
  "lock_run acq rel ren sweep cmds s = fold (lock_exec acq rel ren sweep) cmds (s, [], [])"

section \<open>The contract\<close>

locale lock_manager =
  fixes acq :: "string \<Rightarrow> string \<Rightarrow> u64 \<Rightarrow> u64 \<Rightarrow> 's \<Rightarrow> lock_guard option \<times> 's"
    and rel :: "string \<Rightarrow> u64 \<Rightarrow> 's \<Rightarrow> bool \<times> 's"
    and ren :: "string \<Rightarrow> u64 \<Rightarrow> u64 \<Rightarrow> u64 \<Rightarrow> 's \<Rightarrow> bool \<times> 's"
    and sweep :: "u64 \<Rightarrow> 's \<Rightarrow> 's"
    and view :: "'s \<Rightarrow> string \<Rightarrow> (u64 \<times> u64) option"
    and last_token :: "'s \<Rightarrow> u64"
    and wf :: "'s \<Rightarrow> bool"
  assumes acq_wf: "wf s \<Longrightarrow> wf (snd (acq k ow ttl now s))"
    and acq_None: "\<lbrakk>wf s; acq k ow ttl now s = (None, s')\<rbrakk> \<Longrightarrow> view s' = view s \<and> last_token s' = last_token s"
    and acq_Some: "\<lbrakk>wf s; acq k ow ttl now s = (Some g, s')\<rbrakk> \<Longrightarrow>
      (\<forall>t e. view s k = Some (t, e) \<longrightarrow> e \<le> now) \<and>
      view s' = (view s)(k \<mapsto> (guard_token g, guard_expires_at_ms g)) \<and>
      guard_token g = last_token s + 1 \<and> last_token s' = guard_token g"
    and rel_wf: "wf s \<Longrightarrow> wf (snd (rel k t s))"
    and rel_view: "wf s \<Longrightarrow> view (snd (rel k t s)) = (if fst (rel k t s) then (view s)(k := None) else view s)"
    and rel_true: "\<lbrakk>wf s; fst (rel k t s)\<rbrakk> \<Longrightarrow> \<exists>e. view s k = Some (t, e)"
    and rel_false: "\<lbrakk>wf s; view s k = Some (t, e)\<rbrakk> \<Longrightarrow> fst (rel k t s)"
    and rel_last: "last_token (snd (rel k t s)) = last_token s"
    and ren_wf: "wf s \<Longrightarrow> wf (snd (ren k t ttl now s))"
    and ren_view: "wf s \<Longrightarrow> view (snd (ren k t ttl now s)) =
      (if fst (ren k t ttl now s) then (view s)(k \<mapsto> (t, saturating_add now ttl)) else view s)"
    and ren_true: "\<lbrakk>wf s; fst (ren k t ttl now s)\<rbrakk> \<Longrightarrow> \<exists>e. view s k = Some (t, e)"
    and ren_last: "last_token (snd (ren k t ttl now s)) = last_token s"
    and sweep_wf: "wf s \<Longrightarrow> wf (sweep now s)"
    and sweep_view: "wf s \<Longrightarrow> view (sweep now s) k = Some (t, e) \<longleftrightarrow> view s k = Some (t, e) \<and> now < e"
    and sweep_last: "last_token (sweep now s) = last_token s"
begin

abbreviation exec where
  "exec \<equiv> lock_exec acq rel ren sweep"

abbreviation live_leases_held where
  "live_leases_held clock s ls \<equiv> (\<forall>k t e. (k, t, e) \<in> set ls \<longrightarrow> clock < e \<longrightarrow> view s k = Some (t, e))"

lemma exec_live:
  assumes "wf s" and "live_leases_held clock s ls" and "clock \<le> now"
    and "exec (now, c) (s, ls, ts) = (s', ls', ts')"
  shows "wf s' \<and> live_leases_held now s' ls'"
proof (cases c)
  case (Acquire k ow ttl)
  have live: "view s k' = Some (t, e)" if "(k', t, e) \<in> set ls" "now < e" for k' t e
    using that assms(2,3) by (meson le_less_trans)
  show ?thesis
  proof (cases "acq k ow ttl now s")
    case (Pair g s1)
    show ?thesis
    proof (cases g)
      case None
      with Pair assms(4) Acquire acq_None [OF assms(1), of k ow ttl now s1] acq_wf [OF assms(1), of k ow ttl now] live
      show ?thesis by auto
    next
      case (Some g')
      note granted = acq_Some [OF assms(1), of k ow ttl now g' s1]
      have "e \<le> now" if "view s k = Some (t, e)" for t e using granted that Pair Some by blast
      with live have fresh: "\<not> now < e" if "(k, t, e) \<in> set ls" for t e using that by (meson not_le)
      have "view s' k' = Some (t, e)" if "(k', t, e) \<in> set ls'" "now < e" for k' t e
        using that granted Pair Some assms(4) Acquire live [of k' t e] fresh [of t e] by auto
      moreover have "wf s'" using Pair Some assms(4) Acquire acq_wf [OF assms(1), of k ow ttl now] by auto
      ultimately show ?thesis by blast
    qed
  qed
next
  case (Release k t)
  have s': "s' = snd (rel k t s)" "ls' = (if fst (rel k t s) then filter (\<lambda>(k', t', _). \<not> (k' = k \<and> t' = t)) ls else ls)"
    using assms(4) Release by (auto simp: split_beta Let_def)
  have "view s' k' = Some (t', e)" if "(k', t', e) \<in> set ls'" "now < e" for k' t' e
  proof -
    have "view s k' = Some (t', e)" using that s'(2) assms(2,3) by (auto split: if_splits)
    moreover have "fst (rel k t s) \<longrightarrow> k' \<noteq> k"
      using that s'(2) rel_true [OF assms(1), of k t] calculation by auto
    ultimately show ?thesis using rel_view [OF assms(1), of k t] s'(1) by auto
  qed
  then show ?thesis using rel_wf [OF assms(1)] s'(1) by blast
next
  case (Renew k t ttl)
  have s': "s' = snd (ren k t ttl now s)" "ls' = (if fst (ren k t ttl now s)
      then map (\<lambda>(k', t', e). if k' = k \<and> t' = t then (k', t', saturating_add now ttl) else (k', t', e)) ls else ls)"
    using assms(4) Renew by (auto simp: split_beta Let_def)
  have "view s' k' = Some (t', e)" if mem: "(k', t', e) \<in> set ls'" "now < e" for k' t' e
  proof (cases "fst (ren k t ttl now s) \<and> k' = k \<and> t' = t")
    case True
    then have "e = saturating_add now ttl" using mem s'(2) by (auto split: if_splits)
    with True show ?thesis using ren_view [OF assms(1), of k t ttl now] s'(1) by simp
  next
    case False
    then have "(k', t', e) \<in> set ls" using mem(1) s'(2) by (auto split: if_splits)
    then have "view s k' = Some (t', e)" using mem(2) assms(2,3) by auto
    moreover from this have "fst (ren k t ttl now s) \<longrightarrow> k' \<noteq> k"
      using False ren_true [OF assms(1), of k t ttl now] by auto
    ultimately show ?thesis using ren_view [OF assms(1), of k t ttl now] s'(1) by auto
  qed
  then show ?thesis using ren_wf [OF assms(1)] s'(1) by blast
next
  case Sweep
  with assms show ?thesis
    using sweep_wf [OF assms(1), of now] sweep_view [OF assms(1), of now] by auto
qed

lemma exec_tokens:
  assumes "wf s" and "last_token s \<noteq> u64_MAX" and "sorted_wrt (>) ts" and "\<forall>t \<in> set ts. t \<le> last_token s"
    and "exec (now, c) (s, ls, ts) = (s', ls', ts')"
  shows "sorted_wrt (>) ts' \<and> (\<forall>t \<in> set ts'. t \<le> last_token s') \<and>
    unat (last_token s') \<le> Suc (unat (last_token s))"
proof (cases c)
  case (Acquire k ow ttl)
  obtain g s1 where a: "acq k ow ttl now s = (g, s1)" by (cases "acq k ow ttl now s")
  show ?thesis
  proof (cases g)
    case None
    with a acq_None [OF assms(1), of k ow ttl now s1] assms Acquire show ?thesis by auto
  next
    case (Some g')
    with a acq_Some [OF assms(1), of k ow ttl now g' s1]
    have tok: "guard_token g' = last_token s + 1" "last_token s1 = guard_token g'" by auto
    have "last_token s < last_token s + 1" using assms(2) by (rule u64_less_Suc)
    with tok Some a assms Acquire unat_u64_Suc [OF assms(2)] show ?thesis by fastforce
  qed
qed (use assms rel_last ren_last sweep_last in \<open>auto simp: split_beta Let_def\<close>)

lemma run_inv:
  assumes "wf s" and "live_leases_held clock s ls" and "sorted_wrt (>) ts" and "\<forall>t \<in> set ts. t \<le> last_token s"
    and "sorted (clock # map fst cmds)" and "unat (last_token s) + length cmds < 2 ^ 64"
    and "fold exec cmds (s, ls, ts) = (s', ls', ts')"
  shows "wf s' \<and> live_leases_held (last (clock # map fst cmds)) s' ls' \<and> sorted_wrt (>) ts'"
  using assms
proof (induction cmds arbitrary: s ls ts clock)
  case (Cons a cmds)
  obtain now c where a: "a = (now, c)" by (cases a)
  obtain s1 ls1 ts1 where step: "exec (now, c) (s, ls, ts) = (s1, ls1, ts1)"
    using prod_cases3 by blast
  have "last_token s \<noteq> u64_MAX" using Cons.prems(6) by (auto simp: unat_u64_MAX)
  note tokens = exec_tokens [OF Cons.prems(1) this Cons.prems(3,4) step]
  have "clock \<le> now" using Cons.prems(5) a by simp
  note live = exec_live [OF Cons.prems(1,2) this step]
  have "wf s' \<and> live_leases_held (last (now # map fst cmds)) s' ls' \<and> sorted_wrt (>) ts'"
  proof (rule Cons.IH)
    show "fold exec cmds (s1, ls1, ts1) = (s', ls', ts')" using Cons.prems(7) a step by simp
    show "unat (last_token s1) + length cmds < 2 ^ 64" using tokens Cons.prems(6) by simp
  qed (use live tokens Cons.prems(5) a in auto)
  then show ?case using a by simp
qed simp

lemma hold_wf: "wf s \<Longrightarrow> wf (snd (hold ren key t ttl es s))"
proof (induction es arbitrary: s)
  case (Cons ev es)
  show ?case
  proof (cases ev)
    case (RenewTick now)
    obtain b s1 where r: "ren key t ttl now s = (b, s1)" by (cases "ren key t ttl now s")
    then have "wf s1" using ren_wf [OF Cons.prems, of key t ttl now] by simp
    with r Cons.IH RenewTick show ?thesis by (cases b) auto
  qed (use Cons.prems in auto)
qed simp

text \<open>A term that has ended leaves no lease under its token behind, whoever holds the key now.\<close>

lemma election_round_releases:
  assumes "wf s" and "election_round acq rel ren key ow ttl now es s = (Some r, s')"
  shows "\<exists>g s1. acq key ow ttl now s = (Some g, s1) \<and> (\<forall>e. view s' key \<noteq> Some (guard_token g, e))"
proof -
  obtain g s1 where a: "acq key ow ttl now s = (Some g, s1)"
    using assms(2) by (auto simp: election_round_def split: prod.splits option.splits)
  let ?s2 = "snd (hold ren key (guard_token g) ttl es s1)"
  have s': "s' = snd (rel key (guard_token g) ?s2)"
    using assms(2) a by (auto simp: election_round_def split: prod.splits option.splits)
  have "wf s1" using acq_wf [OF assms(1), of key ow ttl now] a by simp
  then have wf2: "wf ?s2" by (rule hold_wf)
  have "view s' key \<noteq> Some (guard_token g, e)" for e
    using rel_view [OF wf2, of key "guard_token g"] rel_false [OF wf2, of key "guard_token g" e] s' by auto
  with a show ?thesis by blast
qed

end

section \<open>The in-process manager\<close>

definition inner_view :: "lock_inner \<Rightarrow> string \<Rightarrow> (u64 \<times> u64) option" where
  "inner_view s k = map_option (\<lambda>e. (entry_token e, entry_expires_at_ms e)) (hm_get (locks s) k)"

lemma hm_get_filter: "hm_wf m \<Longrightarrow> hm_get (filter (\<lambda>(k, v). P v) m) k =
  (case hm_get m k of None \<Rightarrow> None | Some v \<Rightarrow> if P v then Some v else None)"
proof (induction m)
  case (Cons kv m)
  have "hm_get (filter (\<lambda>(k, v). P v) m) j = None" if "j \<notin> fst ` set m" for j
    using that by (force simp: map_of_eq_None_iff)
  with Cons show ?case by (cases kv) (auto split: option.splits)
qed simp

interpretation inproc: lock_manager try_acquire release renew sweep_expired inner_view fence "\<lambda>s. hm_wf (locks s)"
proof
  show "hm_wf (locks (sweep_expired now s))" if "hm_wf (locks s)" for now s
    using distinct_map_filter [OF that] by (simp add: sweep_expired_def)
  show "inner_view (sweep_expired now s) k = Some (t, e) \<longleftrightarrow> inner_view s k = Some (t, e) \<and> now < e"
    if "hm_wf (locks s)" for now s k t e
    using hm_get_filter [OF that, of "\<lambda>x. entry_expires_at_ms x > now" k]
    by (auto simp: inner_view_def sweep_expired_def split: option.splits if_splits)
qed (auto simp: try_acquire_def release_def renew_def sweep_expired_def grant_def next_token_def inner_view_def
    Let_def hm_simps fun_eq_iff simp del: map_of_eq_Some_iff split: option.splits if_splits)

section \<open>Properties\<close>

text \<open>C6. Mutual exclusion and fencing: whatever the interleaving of acquisitions, renewals, releases and
  sweeps, with a wall clock that does not go back, at most one unreleased lease of a key is live
  at any time (two live leases of one key are the same lease), the manager agrees with it,
  and the fencing tokens are granted in strictly increasing order.\<close>

theorem lock_mutual_exclusion:
  assumes "sorted (map fst cmds)" and "length cmds < 2 ^ 64"
    and "lock_run try_acquire release renew sweep_expired cmds lock_manager_new = (s, leases, tokens)"
    and "(k, t, e) \<in> set leases" and "(k, t', e') \<in> set leases"
    and "last (0 # map fst cmds) < e" and "last (0 # map fst cmds) < e'"
  shows "t = t' \<and> e = e' \<and> inner_view s k = Some (t, e) \<and> sorted_wrt (>) tokens"
proof -
  have run: "fold (lock_exec try_acquire release renew sweep_expired) cmds (lock_manager_new, [], []) = (s, leases, tokens)"
    using assms(3) by (simp add: lock_run_def)
  have "sorted ((0 :: u64) # map fst cmds)" using assms(1) by simp
  note inv = inproc.run_inv [OF _ _ _ _ this _ run]
  have held: "inner_view s k = Some (t, e)" if "(k, t, e) \<in> set leases" "last (0 # map fst cmds) < e" for k t e
    using inv assms(2) that by (auto simp: lock_manager_new_def)
  have "sorted_wrt (>) tokens" using inv assms(2) by (auto simp: lock_manager_new_def)
  with held [OF assms(4,6)] held [OF assms(5,7)] show ?thesis by simp
qed

theorem lock_mutual_exclusion_witness:
  "let (s, leases, tokens) = lock_run try_acquire release renew sweep_expired
         [(10, Acquire ''k'' ''a'' 5), (12, Acquire ''k'' ''b'' 5), (15, Sweep), (16, Acquire ''k'' ''b'' 5)] lock_manager_new
   in leases = [(''k'', 2, 21), (''k'', 1, 15)] \<and> inner_view s ''k'' = Some (2, 21)"
proof -
  let ?cmds = "[(10, Acquire ''k'' ''a'' 5), (12, Acquire ''k'' ''b'' 5), (15, Sweep), (16, Acquire ''k'' ''b'' 5)]"
  obtain s where run: "lock_run try_acquire release renew sweep_expired ?cmds lock_manager_new =
      (s, [(''k'', 2, 21), (''k'', 1, 15)], [2, 1])"
    by (simp add: lock_run_def lock_manager_new_def try_acquire_def grant_def next_token_def sweep_expired_def
        saturating_add_def Let_def)
  then have "inner_view s ''k'' = Some (2, 21)"
    using lock_mutual_exclusion [OF _ _ run, of "''k''" 2 21 2 21] by simp
  with run show ?thesis by (simp add: Let_def)
qed

text \<open>Reservations: a pool run is a list of claims (with the capacity of the pool) and releases of
  units; it counts the units claimed and not given back, and only such units are given back.\<close>

datatype pool_cmd = Claim u64 | Unclaim u64

fun pool_exec :: "string \<Rightarrow> u64 \<Rightarrow> pool_cmd \<Rightarrow> lock_inner \<times> nat \<Rightarrow> lock_inner \<times> nat" where
  "pool_exec pool capacity (Claim n) (s, out) =
     (case claim pool n capacity s of (None, s') \<Rightarrow> (s', out) | (Some _, s') \<Rightarrow> (s', out + unat n))"
| "pool_exec pool capacity (Unclaim n) (s, out) =
     (if 0 < n \<and> unat n \<le> out then (snd (release_claim pool n s), out - unat n) else (s, out))"

definition pool_left :: "string \<Rightarrow> u64 \<Rightarrow> lock_inner \<Rightarrow> u64" where
  "pool_left pool capacity s = (case hm_get (pools s) pool of None \<Rightarrow> capacity | Some c \<Rightarrow> c)"

lemma pool_exec_inv:
  assumes "unat (pool_left pool capacity s) + out = unat capacity" and "hm_get (pools s) pool = None \<longrightarrow> out = 0"
    and "pool_exec pool capacity c (s, out) = (s', out')"
  shows "unat (pool_left pool capacity s') + out' = unat capacity \<and> (hm_get (pools s') pool = None \<longrightarrow> out' = 0)"
proof (cases c)
  case (Claim n)
  show ?thesis
  proof (cases "pool_left pool capacity s < n")
    case True
    with Claim assms show ?thesis
      by (auto simp: claim_def pool_left_def Let_def hm_simps split: option.splits)
  next
    case False
    have s': "s' = snd (claim pool n capacity s)" "out' = out + unat n"
      using Claim assms(3) False by (auto simp: claim_def pool_left_def Let_def split: option.splits)
    have "pool_left pool capacity s' = pool_left pool capacity s - n"
      using False s'(1) by (auto simp: claim_def pool_left_def Let_def hm_simps split: option.splits)
    moreover have "unat (pool_left pool capacity s - n) = unat (pool_left pool capacity s) - unat n"
      using False by (intro unat_sub) simp
    moreover have "unat n \<le> unat (pool_left pool capacity s)" using False by (simp add: word_le_nat_alt not_less)
    moreover have "hm_get (pools s') pool \<noteq> None"
      using False s'(1) by (auto simp: claim_def pool_left_def Let_def hm_simps split: option.splits)
    ultimately show ?thesis using assms(1) s'(2) by auto
  qed
next
  case (Unclaim n)
  show ?thesis
  proof (cases "0 < n \<and> unat n \<le> out")
    case True
    then have s': "s' = snd (release_claim pool n s)" "out' = out - unat n" using Unclaim assms(3) by auto
    have "out \<noteq> 0" using True by (metis le_zero_eq unat_eq_0 word_not_simps(1))
    then have touched: "hm_get (pools s) pool \<noteq> None" using assms(2) by blast
    have "pool_left pool capacity s' = pool_left pool capacity s + n"
      using touched s'(1) by (auto simp: release_claim_def pool_left_def Let_def hm_simps)
    moreover have "unat (pool_left pool capacity s + n) = unat (pool_left pool capacity s) + unat n"
      using assms(1) True unat_u64_lt [of capacity] by (simp add: unat_word_ariths)
    ultimately show ?thesis
      using assms(1) True s' by (simp add: release_claim_def Let_def hm_simps)
  next
    case False
    then show ?thesis using Unclaim assms by auto
  qed
qed

text \<open>A pool is never oversold: in every sequence of claims and releases of claimed units, what is left in the
  pool and what is claimed add up to the capacity, so the claimed units never exceed it.\<close>

theorem pool_never_oversold:
  "let (s, claimed) = fold (pool_exec pool capacity) cmds (lock_manager_new, 0)
   in unat (pool_left pool capacity s) + claimed = unat capacity \<and> claimed \<le> unat capacity"
proof -
  have "unat (pool_left pool capacity s') + out' = unat capacity"
    if "unat (pool_left pool capacity s) + out = unat capacity" "hm_get (pools s) pool = None \<longrightarrow> out = 0"
      "fold (pool_exec pool capacity) cmds (s, out) = (s', out')" for s out s' out'
    using that
  proof (induction cmds arbitrary: s out)
    case (Cons c cmds)
    obtain s1 out1 where step: "pool_exec pool capacity c (s, out) = (s1, out1)" by fastforce
    show ?case
      using Cons.IH [of s1 out1] Cons.prems(3) step pool_exec_inv [OF Cons.prems(1,2) step] by simp
  qed simp
  moreover obtain s' out' where run: "fold (pool_exec pool capacity) cmds (lock_manager_new, 0) = (s', out')"
    by fastforce
  moreover have "unat (pool_left pool capacity lock_manager_new) + 0 = unat capacity"
    by (simp add: pool_left_def lock_manager_new_def)
  ultimately have "unat (pool_left pool capacity s') + out' = unat capacity" by blast
  with run show ?thesis by simp
qed

text \<open>A pool that a release touches first is seeded with nothing, whatever its capacity: a later claim
  of one unit finds it sold out.\<close>

theorem release_before_claim_empties_pool:
  "fst (claim pool 1 capacity (snd (release_claim pool 0 lock_manager_new))) = None"
  by (simp add: claim_def release_claim_def lock_manager_new_def Let_def hm_simps)

text \<open>Scoped lock keys are injective as long as tenant, repository and branch contain no NUL: locks of
  different tenants, repositories or branches, or with different names, never coincide.\<close>

theorem scoped_key_injective:
  assumes "CHR 0x00 \<notin> set tenant" "CHR 0x00 \<notin> set repo" "CHR 0x00 \<notin> set br"
    and "CHR 0x00 \<notin> set tenant'" "CHR 0x00 \<notin> set repo'" "CHR 0x00 \<notin> set br'"
  shows "scoped_key tenant repo br name = scoped_key tenant' repo' br' name' \<longleftrightarrow>
    tenant = tenant' \<and> repo = repo' \<and> br = br' \<and> name = name'"
  using assms by (simp add: scoped_key_def append_separator_eq_iff)

theorem scoped_key_injective_witness:
  "scoped_key ''t'' ''r'' ''main'' ''x'' \<noteq> scoped_key ''t'' ''r'' ''dev'' ''x''"
  using scoped_key_injective [of "''t''" "''r''" "''main''" "''t''" "''r''" "''dev''" "''x''" "''x''"] by simp

lemma jittered_bounds: "millis div 2 \<le> jittered entropy millis \<and> jittered entropy millis \<le> millis"
proof (cases "millis < 2")
  case False
  let ?h = "millis div 2"
  have h: "unat ?h = unat millis div 2" by (simp add: unat_div)
  have lt: "unat millis < 2 ^ 64" by (rule unat_u64_lt)
  have d: "unat (millis - ?h + 1) = unat millis - unat ?h + 1"
  proof -
    have "unat (millis - ?h) = unat millis - unat ?h"
      by (rule unat_sub) (simp add: word_le_nat_alt h)
    moreover have "unat millis \<ge> 2" using False by (simp add: word_less_nat_alt not_less)
    ultimately show ?thesis using lt h by (simp add: unat_word_ariths)
  qed
  have "unat (entropy mod (millis - ?h + 1)) \<le> unat millis - unat ?h"
    unfolding unat_mod d by (simp add: less_Suc_eq_le [symmetric])
  moreover from this have "unat (?h + entropy mod (millis - ?h + 1)) = unat ?h + unat (entropy mod (millis - ?h + 1))"
    using lt h by (simp add: unat_word_ariths)
  ultimately show ?thesis
    using False h by (simp add: jittered_def Let_def word_le_nat_alt)
qed (simp add: jittered_def word_le_nat_alt unat_div)

end
