(* ===== verification/Rel_Value.thy ===== *)
theory Rel_Value
  imports Rust_Codec "HOL-Library.Signed_Division"
begin

text \<open>
  \<open>raisin-rel/src/value.rs\<close>, \<open>error.rs\<close>, \<open>ast\<close>, \<open>eval/comparison.rs\<close> and \<open>eval/context.rs\<close>: the data of the condition
  language of permission rules and triggers. Integers are \<open>i64\<close>, strings are the UTF-8 bytes of the Rust string.

  IEEE arithmetic, the printing of floats, Unicode case mapping and Unicode trimming are fields of the record
  \<open>rel_env\<close>, an argument of the functions that use them; \<open>'f\<close> is the type of floats. An outcome is a
  value, an error of the evaluator, or a panic.
\<close>

section \<open>Data\<close>

type_synonym i64 = "64 word"

datatype 'f rel_value =
    VNull
  | VBoolean bool
  | VInteger i64
  | VFloat 'f
  | VString string
  | VArray "'f rel_value list"
  | VObject "(string \<times> 'f rel_value) list"

datatype 'f rel_literal =
    LNull
  | LBoolean bool
  | LInteger i64
  | LFloat 'f
  | LString string
  | LArray "'f rel_literal list"
  | LObject "(string \<times> 'f rel_literal) list"

datatype bin_op = BEq | BNeq | BLt | BGt | BLte | BGte | BAnd | BOr | BAdd | BSub | BMul | BDiv | BMod

datatype un_op = UNot | UNeg

datatype rel_direction = Outgoing | Incoming | AnyDirection

datatype 'f rel_expr =
    Literal "'f rel_literal"
  | Variable string
  | PropertyAccess "'f rel_expr" string
  | IndexAccess "'f rel_expr" "'f rel_expr"
  | BinaryOp "'f rel_expr" bin_op "'f rel_expr"
  | UnaryOp un_op "'f rel_expr"
  | MethodCall "'f rel_expr" string "'f rel_expr list"
  | Grouped "'f rel_expr"
  | Relates "'f rel_expr" "'f rel_expr" "string list" u32 u32 rel_direction

datatype eval_error =
    UndefinedVariable string
  | GraphError string
  | PropertyNotFound string string
  | IndexOutOfBounds i64 nat
  | InvalidIndexType string
  | TypeError string string string  \<comment> \<open>operation, expected, actual\<close>
  | UnknownFunction string
  | UnknownMethod string
  | WrongArgCount string nat nat
  | DivisionByZero
  | IncomparableTypes string string

datatype 'a outcome = Ok 'a | Err eval_error | Panic

fun and_then :: "'a outcome \<Rightarrow> ('a \<Rightarrow> 'b outcome) \<Rightarrow> 'b outcome" where
  "and_then (Ok a) f = f a"
| "and_then (Err e) f = Err e"
| "and_then Panic f = Panic"

definition ok_or :: "'a option \<Rightarrow> eval_error \<Rightarrow> 'a outcome" where
  "ok_or x e = (case x of Some a \<Rightarrow> Ok a | None \<Rightarrow> Err e)"

record 'f rel_env =
  f_add :: "'f \<Rightarrow> 'f \<Rightarrow> 'f"
  f_sub :: "'f \<Rightarrow> 'f \<Rightarrow> 'f"
  f_mul :: "'f \<Rightarrow> 'f \<Rightarrow> 'f"
  f_div :: "'f \<Rightarrow> 'f \<Rightarrow> 'f"
  f_rem :: "'f \<Rightarrow> 'f \<Rightarrow> 'f"
  f_neg :: "'f \<Rightarrow> 'f"
  f_abs :: "'f \<Rightarrow> 'f"
  f_lt :: "'f \<Rightarrow> 'f \<Rightarrow> bool"
  f_epsilon :: 'f
  f_partial_cmp :: "'f \<Rightarrow> 'f \<Rightarrow> rust_ordering option"
  f_is_zero :: "'f \<Rightarrow> bool"
  f_of_i64 :: "i64 \<Rightarrow> 'f"
  f_fract_is_zero :: "'f \<Rightarrow> bool"
  f_to_i64 :: "'f \<Rightarrow> i64"
  f_to_string :: "'f \<Rightarrow> string"
  str_lower :: "string \<Rightarrow> string"
  str_upper :: "string \<Rightarrow> string"
  str_trim :: "string \<Rightarrow> string"

text \<open>An instance, with the integers for the floats and ASCII letters only.\<close>

definition ascii_case :: "nat \<Rightarrow> nat \<Rightarrow> (nat \<Rightarrow> nat) \<Rightarrow> string \<Rightarrow> string" where
  "ascii_case lo hi f s = map (\<lambda>c. if lo \<le> of_char c \<and> of_char c \<le> hi then char_of (f (of_char c)) else c) s"

definition int_env :: "int rel_env" where
  "int_env =
     \<lparr>f_add = (+), f_sub = (-), f_mul = (*), f_div = (sdiv), f_rem = (smod), f_neg = uminus, f_abs = abs,
      f_lt = (<), f_epsilon = 1, f_partial_cmp = (\<lambda>a b. Some (cmp_of a b)), f_is_zero = (\<lambda>a. a = 0),
      f_of_i64 = sint, f_fract_is_zero = (\<lambda>_. True), f_to_i64 = word_of_int, f_to_string = (\<lambda>_. ''0''),
      str_lower = ascii_case 65 90 (\<lambda>n. n + 32), str_upper = ascii_case 97 122 (\<lambda>n. n - 32),
      str_trim = (\<lambda>s. rev (dropWhile (\<lambda>c. c = CHR '' '') (rev (dropWhile (\<lambda>c. c = CHR '' '') s))))\<rparr>"

section \<open>Values\<close>

definition is_truthy :: "'f rel_env \<Rightarrow> 'f rel_value \<Rightarrow> bool" where
  "is_truthy env v =
     (case v of
        VNull \<Rightarrow> False
      | VBoolean b \<Rightarrow> b
      | VInteger n \<Rightarrow> n \<noteq> 0
      | VFloat n \<Rightarrow> \<not> f_is_zero env n
      | VString s \<Rightarrow> s \<noteq> []
      | VArray arr \<Rightarrow> arr \<noteq> []
      | VObject obj \<Rightarrow> obj \<noteq> [])"

definition as_integer :: "'f rel_env \<Rightarrow> 'f rel_value \<Rightarrow> i64 option" where
  "as_integer env v =
     (case v of
        VInteger i \<Rightarrow> Some i
      | VFloat f \<Rightarrow> if f_fract_is_zero env f then Some (f_to_i64 env f) else None
      | _ \<Rightarrow> None)"

definition as_str :: "'f rel_value \<Rightarrow> string option" where
  "as_str v = (case v of VString s \<Rightarrow> Some s | _ \<Rightarrow> None)"

definition type_name :: "'f rel_value \<Rightarrow> string" where
  "type_name v =
     (case v of
        VNull \<Rightarrow> ''null''
      | VBoolean _ \<Rightarrow> ''boolean''
      | VInteger _ \<Rightarrow> ''integer''
      | VFloat _ \<Rightarrow> ''float''
      | VString _ \<Rightarrow> ''string''
      | VArray _ \<Rightarrow> ''array''
      | VObject _ \<Rightarrow> ''object'')"

definition type_error :: "string \<Rightarrow> string \<Rightarrow> string \<Rightarrow> 'a outcome" where
  "type_error operation expected actual = Err (TypeError operation expected actual)"

section \<open>Equality and comparison\<close>

definition f_close :: "'f rel_env \<Rightarrow> 'f \<Rightarrow> 'f \<Rightarrow> bool" where
  "f_close env a b = f_lt env (f_abs env (f_sub env a b)) (f_epsilon env)"

fun values_equal :: "'f rel_env \<Rightarrow> 'f rel_value \<Rightarrow> 'f rel_value \<Rightarrow> bool"
  and arrays_equal :: "'f rel_env \<Rightarrow> 'f rel_value list \<Rightarrow> 'f rel_value list \<Rightarrow> bool"
  and fields_match :: "'f rel_env \<Rightarrow> (string \<times> 'f rel_value) list \<Rightarrow> (string \<times> 'f rel_value) list \<Rightarrow> bool"
where
  "values_equal env VNull VNull = True"
| "values_equal env (VBoolean a) (VBoolean b) = (a = b)"
| "values_equal env (VInteger a) (VInteger b) = (a = b)"
| "values_equal env (VFloat a) (VFloat b) = f_close env a b"
| "values_equal env (VInteger a) (VFloat b) = f_close env (f_of_i64 env a) b"
| "values_equal env (VFloat b) (VInteger a) = f_close env (f_of_i64 env a) b"
| "values_equal env (VString a) (VString b) = (a = b)"
| "values_equal env (VArray a) (VArray b) = (length a = length b \<and> arrays_equal env a b)"
| "values_equal env (VObject a) (VObject b) = (length a = length b \<and> fields_match env a b)"
| "values_equal env _ _ = False"
| "arrays_equal env (x # xs) (y # ys) = (values_equal env x y \<and> arrays_equal env xs ys)"
| "arrays_equal env _ _ = True"
| "fields_match env [] b = True"
| "fields_match env ((k, v) # a) b =
     ((case hm_get b k of None \<Rightarrow> False | Some bv \<Rightarrow> values_equal env v bv) \<and> fields_match env a b)"

definition cmp_i64 :: "i64 \<Rightarrow> i64 \<Rightarrow> rust_ordering" where
  "cmp_i64 a b = cmp_of (sint a) (sint b)"

definition or_equal :: "rust_ordering option \<Rightarrow> rust_ordering" where
  "or_equal x = (case x of None \<Rightarrow> Equal | Some c \<Rightarrow> c)"

definition compare_values ::
  "'f rel_env \<Rightarrow> 'f rel_value \<Rightarrow> 'f rel_value \<Rightarrow> (rust_ordering \<Rightarrow> bool) \<Rightarrow> 'f rel_value outcome" where
  "compare_values env left right cmp_fn =
     (case (left, right) of
        (VInteger a, VInteger b) \<Rightarrow> Ok (VBoolean (cmp_fn (cmp_i64 a b)))
      | (VFloat a, VFloat b) \<Rightarrow> Ok (VBoolean (cmp_fn (or_equal (f_partial_cmp env a b))))
      | (VInteger a, VFloat b) \<Rightarrow> Ok (VBoolean (cmp_fn (or_equal (f_partial_cmp env (f_of_i64 env a) b))))
      | (VFloat a, VInteger b) \<Rightarrow> Ok (VBoolean (cmp_fn (or_equal (f_partial_cmp env a (f_of_i64 env b)))))
      | (VString a, VString b) \<Rightarrow> Ok (VBoolean (cmp_fn (cmp_of a b)))
      | _ \<Rightarrow> Err (IncomparableTypes (type_name left) (type_name right)))"

section \<open>Contexts\<close>

type_synonym 'f eval_context = "(string, 'f rel_value) hash_map"

definition ctx_with_var :: "string \<Rightarrow> 'f rel_value \<Rightarrow> 'f eval_context" where
  "ctx_with_var name v = hm_insert name v []"

definition ctx_set :: "string \<Rightarrow> 'f rel_value \<Rightarrow> 'f eval_context \<Rightarrow> 'f eval_context" where
  "ctx_set name v ctx = hm_insert name v ctx"

definition ctx_get :: "'f eval_context \<Rightarrow> string \<Rightarrow> 'f rel_value option" where
  "ctx_get ctx name = hm_get ctx name"

definition ctx_merge :: "'f eval_context \<Rightarrow> 'f eval_context \<Rightarrow> 'f eval_context" where
  "ctx_merge ctx other = foldl (\<lambda>c (k, v). hm_insert k v c) ctx other"

lemma ctx_get_merge: "hm_wf other \<Longrightarrow> ctx_get (ctx_merge ctx other) = ctx_get ctx ++ ctx_get other"
proof (induction other arbitrary: ctx)
  case (Cons kv other)
  obtain k v where kv: "kv = (k, v)" by (cases kv)
  have "ctx_get (ctx_merge (hm_insert k v ctx) other) = ctx_get (hm_insert k v ctx) ++ ctx_get other"
    using Cons by simp
  moreover have "hm_get other k = None" using Cons.prems kv by (simp add: map_of_eq_None_iff)
  ultimately show ?case
    by (auto simp: ctx_merge_def kv ctx_get_def hm_simps fun_eq_iff map_add_def split: option.splits)
qed (simp add: ctx_merge_def ctx_get_def fun_eq_iff map_add_def)

end
