(* ===== verification/Rel_Methods.thy ===== *)
theory Rel_Methods
  imports Rel_Value "HOL-Library.Sublist"
begin

text \<open>
  \<open>raisin-rel/src/eval/methods\<close>: the methods of strings, arrays and paths. A slice of a string at a byte that is not a
  character boundary panics, as in Rust; the conversions \<open>as usize\<close> and \<open>as i32\<close> of a negative or large
  integer wrap and truncate as in the code.
\<close>

section \<open>Methods on several types\<close>

definition eval_length :: "'f rel_value \<Rightarrow> 'f rel_value outcome" where
  "eval_length v =
     (case v of
        VString s \<Rightarrow> Ok (VInteger (of_nat (length s)))
      | VArray arr \<Rightarrow> Ok (VInteger (of_nat (length arr)))
      | VObject obj \<Rightarrow> Ok (VInteger (of_nat (length obj)))
      | VNull \<Rightarrow> Ok (VInteger 0)
      | _ \<Rightarrow> type_error ''length'' ''string, array, or object'' (type_name v))"

definition eval_is_empty :: "'f rel_value \<Rightarrow> 'f rel_value outcome" where
  "eval_is_empty v =
     Ok (VBoolean (case v of
        VNull \<Rightarrow> True
      | VString s \<Rightarrow> s = []
      | VArray arr \<Rightarrow> arr = []
      | VObject obj \<Rightarrow> obj = []
      | _ \<Rightarrow> False))"

definition eval_is_not_empty :: "'f rel_value \<Rightarrow> 'f rel_value outcome" where
  "eval_is_not_empty v =
     and_then (eval_is_empty v) (\<lambda>r. case r of VBoolean b \<Rightarrow> Ok (VBoolean (\<not> b)) | _ \<Rightarrow> Ok (VBoolean False))"

definition eval_contains :: "'f rel_env \<Rightarrow> 'f rel_value \<Rightarrow> 'f rel_value \<Rightarrow> 'f rel_value outcome" where
  "eval_contains env v needle =
     (case v of
        VString s \<Rightarrow>
          and_then (ok_or (as_str needle) (TypeError ''contains'' ''string'' (type_name needle)))
            (\<lambda>needle_str. Ok (VBoolean (sublist needle_str s)))
      | VArray arr \<Rightarrow> Ok (VBoolean (list_ex (\<lambda>item. values_equal env item needle) arr))
      | _ \<Rightarrow> type_error ''contains'' ''string or array'' (type_name v))"

section \<open>Strings\<close>

definition str_arg :: "string \<Rightarrow> 'f rel_value \<Rightarrow> string outcome" where
  "str_arg method v = ok_or (as_str v) (TypeError method ''string'' (type_name v))"

definition eval_starts_with :: "'f rel_value \<Rightarrow> 'f rel_value \<Rightarrow> 'f rel_value outcome" where
  "eval_starts_with v pre =
     and_then (str_arg ''startsWith'' v) (\<lambda>s.
     and_then (str_arg ''startsWith'' pre) (\<lambda>prefix_str. Ok (VBoolean (prefix prefix_str s))))"

definition eval_ends_with :: "'f rel_value \<Rightarrow> 'f rel_value \<Rightarrow> 'f rel_value outcome" where
  "eval_ends_with v suf =
     and_then (str_arg ''endsWith'' v) (\<lambda>s.
     and_then (str_arg ''endsWith'' suf) (\<lambda>suffix_str. Ok (VBoolean (suffix suffix_str s))))"

definition eval_to_lower_case :: "'f rel_env \<Rightarrow> 'f rel_value \<Rightarrow> 'f rel_value outcome" where
  "eval_to_lower_case env v = and_then (str_arg ''toLowerCase'' v) (\<lambda>s. Ok (VString (str_lower env s)))"

definition eval_to_upper_case :: "'f rel_env \<Rightarrow> 'f rel_value \<Rightarrow> 'f rel_value outcome" where
  "eval_to_upper_case env v = and_then (str_arg ''toUpperCase'' v) (\<lambda>s. Ok (VString (str_upper env s)))"

definition eval_trim :: "'f rel_env \<Rightarrow> 'f rel_value \<Rightarrow> 'f rel_value outcome" where
  "eval_trim env v = and_then (str_arg ''trim'' v) (\<lambda>s. Ok (VString (str_trim env s)))"

text \<open>A byte offset of a UTF-8 string is a character boundary unless the byte there is a continuation byte.\<close>

definition char_boundary :: "string \<Rightarrow> nat \<Rightarrow> bool" where
  "char_boundary s i \<longleftrightarrow> i = length s \<or> (i < length s \<and> (of_char (s ! i) :: nat) div 64 \<noteq> 2)"

definition str_slice :: "string \<Rightarrow> nat \<Rightarrow> nat \<Rightarrow> string outcome" where
  "str_slice s i j =
     (if i \<le> j \<and> char_boundary s i \<and> char_boundary s j then Ok (take (j - i) (drop i s)) else Panic)"

definition eval_substring ::
  "'f rel_env \<Rightarrow> 'f rel_value \<Rightarrow> 'f rel_value \<Rightarrow> 'f rel_value option \<Rightarrow> 'f rel_value outcome" where
  "eval_substring env v start end_opt =
     and_then (str_arg ''substring'' v) (\<lambda>s.
     and_then (ok_or (as_integer env start) (TypeError ''substring'' ''integer'' (type_name start))) (\<lambda>start_i.
     and_then
       (case end_opt of
          Some e \<Rightarrow>
            and_then (ok_or (as_integer env e) (TypeError ''substring'' ''integer'' (type_name e))) (\<lambda>i. Ok (unat i))
        | None \<Rightarrow> Ok (length s)) (\<lambda>end_n.
     let start_idx = min (unat start_i) (length s);
         end_idx = max (min end_n (length s)) start_idx
     in and_then (str_slice s start_idx end_idx) (\<lambda>r. Ok (VString r)))))"

section \<open>Arrays\<close>

definition eval_first :: "'f rel_value \<Rightarrow> 'f rel_value outcome" where
  "eval_first v =
     (case v of
        VArray arr \<Rightarrow> Ok (case arr of [] \<Rightarrow> VNull | x # _ \<Rightarrow> x)
      | _ \<Rightarrow> type_error ''first'' ''array'' (type_name v))"

definition eval_last :: "'f rel_value \<Rightarrow> 'f rel_value outcome" where
  "eval_last v =
     (case v of
        VArray arr \<Rightarrow> Ok (if arr = [] then VNull else last arr)
      | _ \<Rightarrow> type_error ''last'' ''array'' (type_name v))"

definition eval_index_of :: "'f rel_env \<Rightarrow> 'f rel_value \<Rightarrow> 'f rel_value \<Rightarrow> 'f rel_value outcome" where
  "eval_index_of env v element =
     (case v of
        VArray arr \<Rightarrow>
          Ok (VInteger (case position (\<lambda>item. values_equal env item element) arr of
                          Some i \<Rightarrow> of_nat i | None \<Rightarrow> -1))
      | _ \<Rightarrow> type_error ''indexOf'' ''array'' (type_name v))"

fun str_join :: "string \<Rightarrow> string list \<Rightarrow> string" where
  "str_join sep [] = []"
| "str_join sep [s] = s"
| "str_join sep (s # ss) = s @ sep @ str_join sep ss"

definition show_i64 :: "i64 \<Rightarrow> string" where
  "show_i64 i = (if sint i < 0 then ''-'' @ show_nat (nat (- sint i)) else show_nat (nat (sint i)))"

definition join_item :: "'f rel_env \<Rightarrow> 'f rel_value \<Rightarrow> string" where
  "join_item env v =
     (case v of
        VString s \<Rightarrow> s
      | VInteger i \<Rightarrow> show_i64 i
      | VFloat f \<Rightarrow> f_to_string env f
      | VBoolean b \<Rightarrow> if b then ''true'' else ''false''
      | VNull \<Rightarrow> ''null''
      | _ \<Rightarrow> ''[object]'')"

definition eval_join :: "'f rel_env \<Rightarrow> 'f rel_value \<Rightarrow> 'f rel_value option \<Rightarrow> 'f rel_value outcome" where
  "eval_join env v separator =
     (case v of
        VArray arr \<Rightarrow>
          (let sep = (case separator of
                        Some s \<Rightarrow> (case as_str s of Some t \<Rightarrow> t | None \<Rightarrow> [])
                      | None \<Rightarrow> [])
           in Ok (VString (str_join sep (map (join_item env) arr))))
      | _ \<Rightarrow> type_error ''join'' ''array'' (type_name v))"

section \<open>Paths\<close>

definition slash_positions :: "string \<Rightarrow> nat list" where
  "slash_positions path = filter (\<lambda>i. path ! i = slash) [0..<length path]"

definition segment_count :: "string \<Rightarrow> nat" where
  "segment_count path = length (filter (\<lambda>s. s \<noteq> []) (split_on slash path))"

text \<open>\<open>depth\<close> is an \<open>i32\<close>.\<close>

definition get_ancestor :: "string \<Rightarrow> 32 word \<Rightarrow> string" where
  "get_ancestor path depth =
     (if sint depth \<le> 0 then []
      else let n = nat (sint depth); ps = slash_positions path
           in if n < length ps then take (ps ! n) path
              else if segment_count path = n then path else [])"

definition get_parent_at_level :: "string \<Rightarrow> nat \<Rightarrow> string" where
  "get_parent_at_level path levels =
     (if path = ''/'' then []
      else let ps = rev (slash_positions path); n = levels - 1
           in if n < length ps then (if ps ! n = 0 then ''/'' else take (ps ! n) path) else [])"

definition eval_parent :: "'f rel_env \<Rightarrow> 'f rel_value \<Rightarrow> 'f rel_value option \<Rightarrow> 'f rel_value outcome" where
  "eval_parent env v levels =
     and_then (str_arg ''parent'' v) (\<lambda>path.
     and_then
       (case levels of
          Some l \<Rightarrow>
            and_then (ok_or (as_integer env l) (TypeError ''parent'' ''integer'' (type_name l))) (\<lambda>i. Ok (unat i))
        | None \<Rightarrow> Ok 1) (\<lambda>n. Ok (VString (get_parent_at_level path n))))"

definition eval_ancestor :: "'f rel_env \<Rightarrow> 'f rel_value \<Rightarrow> 'f rel_value \<Rightarrow> 'f rel_value outcome" where
  "eval_ancestor env v depth =
     and_then (str_arg ''ancestor'' v) (\<lambda>path.
     and_then (ok_or (as_integer env depth) (TypeError ''ancestor'' ''integer'' (type_name depth))) (\<lambda>d.
     Ok (VString (get_ancestor path (ucast d)))))"

definition dir_prefix :: "string \<Rightarrow> string" where
  "dir_prefix path = (if suffix ''/'' path then path else path @ ''/'')"

definition eval_ancestor_of :: "'f rel_value \<Rightarrow> 'f rel_value \<Rightarrow> 'f rel_value outcome" where
  "eval_ancestor_of v other =
     and_then (str_arg ''ancestorOf'' v) (\<lambda>path.
     and_then (str_arg ''ancestorOf'' other) (\<lambda>other_path.
     Ok (VBoolean (other_path \<noteq> path \<and> prefix (dir_prefix path) other_path))))"

definition eval_descendant_of :: "'f rel_value \<Rightarrow> 'f rel_value \<Rightarrow> 'f rel_value outcome" where
  "eval_descendant_of v parent =
     and_then (str_arg ''descendantOf'' v) (\<lambda>path.
     and_then (str_arg ''descendantOf'' parent) (\<lambda>parent_path.
     Ok (VBoolean (path \<noteq> parent_path \<and> prefix (dir_prefix parent_path) path))))"

definition eval_child_of :: "'f rel_value \<Rightarrow> 'f rel_value \<Rightarrow> 'f rel_value outcome" where
  "eval_child_of v parent =
     and_then (str_arg ''childOf'' v) (\<lambda>path.
     and_then (str_arg ''childOf'' parent) (\<lambda>parent_path.
     if path = parent_path \<or> \<not> prefix (dir_prefix parent_path) path then Ok (VBoolean False)
     else let remainder = drop (length (dir_prefix parent_path)) path
          in Ok (VBoolean (slash \<notin> set remainder))))"

definition eval_depth :: "'f rel_value \<Rightarrow> 'f rel_value outcome" where
  "eval_depth v = and_then (str_arg ''depth'' v) (\<lambda>path. Ok (VInteger (of_nat (segment_count path))))"

end
