(* ===== verification/Rel_Eval.thy ===== *)
theory Rel_Eval
  imports Rel_Methods
begin

text \<open>
  \<open>raisin-rel/src/eval/evaluator.rs\<close>, \<open>async_evaluator.rs\<close> and \<open>resolver.rs\<close>: the evaluator of conditions.
  \<open>evaluate\<close> is the synchronous evaluator, \<open>evaluate_async\<close> the one that also decides \<open>RELATES\<close>
  with a resolver of graph relations; both are total. Integer arithmetic wraps at 64 bits, except that division and
  remainder of the least integer by \<open>-1\<close> panic.
\<close>

section \<open>Literals and variables\<close>

fun eval_literal :: "'f rel_literal \<Rightarrow> 'f rel_value outcome"
  and eval_items :: "'f rel_literal list \<Rightarrow> 'f rel_value list outcome"
  and eval_fields :: "(string \<times> 'f rel_literal) list \<Rightarrow> (string \<times> 'f rel_value) list \<Rightarrow> (string \<times> 'f rel_value) list outcome"
where
  "eval_literal LNull = Ok VNull"
| "eval_literal (LBoolean b) = Ok (VBoolean b)"
| "eval_literal (LInteger i) = Ok (VInteger i)"
| "eval_literal (LFloat f) = Ok (VFloat f)"
| "eval_literal (LString s) = Ok (VString s)"
| "eval_literal (LArray items) = and_then (eval_items items) (\<lambda>values. Ok (VArray values))"
| "eval_literal (LObject fs) = and_then (eval_fields fs []) (\<lambda>m. Ok (VObject m))"
| "eval_items [] = Ok []"
| "eval_items (l # ls) = and_then (eval_literal l) (\<lambda>v. and_then (eval_items ls) (\<lambda>vs. Ok (v # vs)))"
| "eval_fields [] m = Ok m"
| "eval_fields ((k, l) # fs) m = and_then (eval_literal l) (\<lambda>v. eval_fields fs (hm_insert k v m))"

definition eval_variable :: "string \<Rightarrow> 'f eval_context \<Rightarrow> 'f rel_value outcome" where
  "eval_variable name ctx = ok_or (ctx_get ctx name) (UndefinedVariable name)"

section \<open>Arithmetic\<close>

definition both_types :: "'f rel_value \<Rightarrow> 'f rel_value \<Rightarrow> string" where
  "both_types left right = type_name left @ '' and '' @ type_name right"

definition eval_add :: "'f rel_env \<Rightarrow> 'f rel_value \<Rightarrow> 'f rel_value \<Rightarrow> 'f rel_value outcome" where
  "eval_add env left right =
     (case (left, right) of
        (VInteger a, VInteger b) \<Rightarrow> Ok (VInteger (a + b))
      | (VFloat a, VFloat b) \<Rightarrow> Ok (VFloat (f_add env a b))
      | (VInteger a, VFloat b) \<Rightarrow> Ok (VFloat (f_add env (f_of_i64 env a) b))
      | (VFloat a, VInteger b) \<Rightarrow> Ok (VFloat (f_add env a (f_of_i64 env b)))
      | (VString a, VString b) \<Rightarrow> Ok (VString (a @ b))
      | _ \<Rightarrow> type_error ''addition'' ''numbers or strings'' (both_types left right))"

definition eval_sub :: "'f rel_env \<Rightarrow> 'f rel_value \<Rightarrow> 'f rel_value \<Rightarrow> 'f rel_value outcome" where
  "eval_sub env left right =
     (case (left, right) of
        (VInteger a, VInteger b) \<Rightarrow> Ok (VInteger (a - b))
      | (VFloat a, VFloat b) \<Rightarrow> Ok (VFloat (f_sub env a b))
      | (VInteger a, VFloat b) \<Rightarrow> Ok (VFloat (f_sub env (f_of_i64 env a) b))
      | (VFloat a, VInteger b) \<Rightarrow> Ok (VFloat (f_sub env a (f_of_i64 env b)))
      | _ \<Rightarrow> type_error ''subtraction'' ''numbers'' (both_types left right))"

definition eval_mul :: "'f rel_env \<Rightarrow> 'f rel_value \<Rightarrow> 'f rel_value \<Rightarrow> 'f rel_value outcome" where
  "eval_mul env left right =
     (case (left, right) of
        (VInteger a, VInteger b) \<Rightarrow> Ok (VInteger (a * b))
      | (VFloat a, VFloat b) \<Rightarrow> Ok (VFloat (f_mul env a b))
      | (VInteger a, VFloat b) \<Rightarrow> Ok (VFloat (f_mul env (f_of_i64 env a) b))
      | (VFloat a, VInteger b) \<Rightarrow> Ok (VFloat (f_mul env a (f_of_i64 env b)))
      | _ \<Rightarrow> type_error ''multiplication'' ''numbers'' (both_types left right))"

text \<open>Rust's \<open>a / b\<close> and \<open>a % b\<close> on \<open>i64\<close>, for a divisor other than zero.\<close>

definition i64_MIN :: i64 where
  "i64_MIN = push_bit 63 1"

definition i64_div :: "i64 \<Rightarrow> i64 \<Rightarrow> i64 outcome" where
  "i64_div a b = (if a = i64_MIN \<and> b = -1 then Panic else Ok (word_of_int (sint a sdiv sint b)))"

definition i64_rem :: "i64 \<Rightarrow> i64 \<Rightarrow> i64 outcome" where
  "i64_rem a b = (if a = i64_MIN \<and> b = -1 then Panic else Ok (word_of_int (sint a smod sint b)))"

definition eval_div :: "'f rel_env \<Rightarrow> 'f rel_value \<Rightarrow> 'f rel_value \<Rightarrow> 'f rel_value outcome" where
  "eval_div env left right =
     (case (left, right) of
        (VInteger a, VInteger b) \<Rightarrow>
          if b = 0 then Err DivisionByZero else and_then (i64_div a b) (\<lambda>q. Ok (VInteger q))
      | (VFloat a, VFloat b) \<Rightarrow>
          if f_is_zero env b then Err DivisionByZero else Ok (VFloat (f_div env a b))
      | (VInteger a, VFloat b) \<Rightarrow>
          if f_is_zero env b then Err DivisionByZero else Ok (VFloat (f_div env (f_of_i64 env a) b))
      | (VFloat a, VInteger b) \<Rightarrow>
          if b = 0 then Err DivisionByZero else Ok (VFloat (f_div env a (f_of_i64 env b)))
      | _ \<Rightarrow> type_error ''division'' ''numbers'' (both_types left right))"

definition eval_mod :: "'f rel_env \<Rightarrow> 'f rel_value \<Rightarrow> 'f rel_value \<Rightarrow> 'f rel_value outcome" where
  "eval_mod env left right =
     (case (left, right) of
        (VInteger a, VInteger b) \<Rightarrow>
          if b = 0 then Err DivisionByZero else and_then (i64_rem a b) (\<lambda>r. Ok (VInteger r))
      | (VFloat a, VFloat b) \<Rightarrow>
          if f_is_zero env b then Err DivisionByZero else Ok (VFloat (f_rem env a b))
      | (VInteger a, VFloat b) \<Rightarrow>
          if f_is_zero env b then Err DivisionByZero else Ok (VFloat (f_rem env (f_of_i64 env a) b))
      | (VFloat a, VInteger b) \<Rightarrow>
          if b = 0 then Err DivisionByZero else Ok (VFloat (f_rem env a (f_of_i64 env b)))
      | _ \<Rightarrow> type_error ''modulo'' ''numbers'' (both_types left right))"

definition eval_binary_values ::
  "'f rel_env \<Rightarrow> 'f rel_value \<Rightarrow> bin_op \<Rightarrow> 'f rel_value \<Rightarrow> 'f rel_value outcome" where
  "eval_binary_values env left_val op right_val =
     (case op of
        BEq \<Rightarrow> Ok (VBoolean (values_equal env left_val right_val))
      | BNeq \<Rightarrow> Ok (VBoolean (\<not> values_equal env left_val right_val))
      | BLt \<Rightarrow> compare_values env left_val right_val (\<lambda>c. c = Less)
      | BGt \<Rightarrow> compare_values env left_val right_val (\<lambda>c. c = Greater)
      | BLte \<Rightarrow> compare_values env left_val right_val (\<lambda>c. c \<noteq> Greater)
      | BGte \<Rightarrow> compare_values env left_val right_val (\<lambda>c. c \<noteq> Less)
      | BAdd \<Rightarrow> eval_add env left_val right_val
      | BSub \<Rightarrow> eval_sub env left_val right_val
      | BMul \<Rightarrow> eval_mul env left_val right_val
      | BDiv \<Rightarrow> eval_div env left_val right_val
      | BMod \<Rightarrow> eval_mod env left_val right_val
      | BAnd \<Rightarrow> Panic
      | BOr \<Rightarrow> Panic)"

section \<open>Methods\<close>

definition check_arg_count :: "string \<Rightarrow> nat \<Rightarrow> nat \<Rightarrow> unit outcome" where
  "check_arg_count method got expected = (if got \<noteq> expected then Err (WrongArgCount method expected got) else Ok ())"

definition arg_get :: "'a list \<Rightarrow> nat \<Rightarrow> 'a option" where
  "arg_get args i = (if i < length args then Some (args ! i) else None)"

definition no_arg :: "string \<Rightarrow> 'a list \<Rightarrow> 'b outcome \<Rightarrow> 'b outcome" where
  "no_arg method args r = and_then (check_arg_count method (length args) 0) (\<lambda>_. r)"

definition one_arg :: "string \<Rightarrow> 'a list \<Rightarrow> ('a \<Rightarrow> 'b outcome) \<Rightarrow> 'b outcome" where
  "one_arg method args f = and_then (check_arg_count method (length args) 1) (\<lambda>_. f (args ! 0))"

definition eval_method_on_values ::
  "'f rel_env \<Rightarrow> 'f rel_value \<Rightarrow> string \<Rightarrow> 'f rel_value list \<Rightarrow> 'f rel_value outcome" where
  "eval_method_on_values env obj_val method arg_vals =
     (if obj_val = VNull then Ok VNull
      else if method = ''length'' then eval_length obj_val
      else if method = ''isEmpty'' then eval_is_empty obj_val
      else if method = ''isNotEmpty'' then eval_is_not_empty obj_val
      else if method = ''contains'' then one_arg method arg_vals (eval_contains env obj_val)
      else if method = ''startsWith'' then one_arg method arg_vals (eval_starts_with obj_val)
      else if method = ''endsWith'' then one_arg method arg_vals (eval_ends_with obj_val)
      else if method = ''toLowerCase'' then no_arg method arg_vals (eval_to_lower_case env obj_val)
      else if method = ''toUpperCase'' then no_arg method arg_vals (eval_to_upper_case env obj_val)
      else if method = ''trim'' then no_arg method arg_vals (eval_trim env obj_val)
      else if method = ''substring'' then
        (if arg_vals = [] \<or> length arg_vals > 2 then Err (WrongArgCount method 1 (length arg_vals))
         else eval_substring env obj_val (arg_vals ! 0) (arg_get arg_vals 1))
      else if method = ''first'' then no_arg method arg_vals (eval_first obj_val)
      else if method = ''last'' then no_arg method arg_vals (eval_last obj_val)
      else if method = ''indexOf'' then one_arg method arg_vals (eval_index_of env obj_val)
      else if method = ''join'' then eval_join env obj_val (arg_get arg_vals 0)
      else if method = ''parent'' then eval_parent env obj_val (arg_get arg_vals 0)
      else if method = ''ancestor'' then one_arg method arg_vals (eval_ancestor env obj_val)
      else if method = ''ancestorOf'' then one_arg method arg_vals (eval_ancestor_of obj_val)
      else if method = ''descendantOf'' then one_arg method arg_vals (eval_descendant_of obj_val)
      else if method = ''childOf'' then one_arg method arg_vals (eval_child_of obj_val)
      else if method = ''depth'' then no_arg method arg_vals (eval_depth obj_val)
      else Err (UnknownMethod method))"

section \<open>The synchronous evaluator\<close>

definition property_of :: "'f rel_value \<Rightarrow> string \<Rightarrow> 'f rel_value outcome" where
  "property_of obj_value property =
     (case obj_value of
        VObject m \<Rightarrow> Ok (case hm_get m property of Some v \<Rightarrow> v | None \<Rightarrow> VNull)
      | _ \<Rightarrow> Ok VNull)"

definition index_of_value :: "'f rel_env \<Rightarrow> 'f rel_value \<Rightarrow> 'f rel_value \<Rightarrow> 'f rel_value outcome" where
  "index_of_value env obj_value index_value =
     (case obj_value of
        VArray arr \<Rightarrow>
          and_then (ok_or (as_integer env index_value) (InvalidIndexType (type_name index_value))) (\<lambda>idx.
          if sint idx < 0 then Err (IndexOutOfBounds idx (length arr))
          else ok_or (arg_get arr (unat idx)) (IndexOutOfBounds idx (length arr)))
      | VObject m \<Rightarrow>
          and_then (ok_or (as_str index_value) (InvalidIndexType (type_name index_value))) (\<lambda>key.
          ok_or (hm_get m key) (PropertyNotFound key ''object''))
      | VNull \<Rightarrow> Ok VNull
      | other \<Rightarrow> type_error ''index access'' ''array or object'' (type_name other))"

definition unary_value :: "'f rel_env \<Rightarrow> un_op \<Rightarrow> 'f rel_value \<Rightarrow> 'f rel_value outcome" where
  "unary_value env op v =
     (case op of
        UNot \<Rightarrow> Ok (VBoolean (\<not> is_truthy env v))
      | UNeg \<Rightarrow>
          (case v of
             VInteger i \<Rightarrow> Ok (VInteger (- i))
           | VFloat f \<Rightarrow> Ok (VFloat (f_neg env f))
           | other \<Rightarrow> type_error ''negation'' ''number'' (type_name other)))"

fun evaluate :: "'f rel_env \<Rightarrow> 'f eval_context \<Rightarrow> 'f rel_expr \<Rightarrow> 'f rel_value outcome"
  and eval_args :: "'f rel_env \<Rightarrow> 'f eval_context \<Rightarrow> 'f rel_expr list \<Rightarrow> 'f rel_value list outcome"
where
  "evaluate env ctx (Literal lit) = eval_literal lit"
| "evaluate env ctx (Variable name) = eval_variable name ctx"
| "evaluate env ctx (PropertyAccess object property) =
     and_then (evaluate env ctx object) (\<lambda>obj_value. property_of obj_value property)"
| "evaluate env ctx (IndexAccess object index) =
     and_then (evaluate env ctx object) (\<lambda>obj_value.
     and_then (evaluate env ctx index) (\<lambda>index_value. index_of_value env obj_value index_value))"
| "evaluate env ctx (BinaryOp left op right) =
     (if op = BAnd then
        and_then (evaluate env ctx left) (\<lambda>left_val.
        if \<not> is_truthy env left_val then Ok (VBoolean False)
        else and_then (evaluate env ctx right) (\<lambda>right_val. Ok (VBoolean (is_truthy env right_val))))
      else if op = BOr then
        and_then (evaluate env ctx left) (\<lambda>left_val.
        if is_truthy env left_val then Ok (VBoolean True)
        else and_then (evaluate env ctx right) (\<lambda>right_val. Ok (VBoolean (is_truthy env right_val))))
      else
        and_then (evaluate env ctx left) (\<lambda>left_val.
        and_then (evaluate env ctx right) (\<lambda>right_val. eval_binary_values env left_val op right_val)))"
| "evaluate env ctx (UnaryOp op e) = and_then (evaluate env ctx e) (\<lambda>v. unary_value env op v)"
| "evaluate env ctx (MethodCall object method args) =
     and_then (evaluate env ctx object) (\<lambda>obj_val.
     if obj_val = VNull then Ok VNull
     else and_then (eval_args env ctx args) (\<lambda>arg_vals. eval_method_on_values env obj_val method arg_vals))"
| "evaluate env ctx (Grouped inner) = evaluate env ctx inner"
| "evaluate env ctx (Relates source target relation_types min_depth max_depth direction) =
     type_error ''RELATES evaluation'' ''async evaluation with RelationResolver''
       ''synchronous evaluate() function - use evaluate_async instead''"
| "eval_args env ctx [] = Ok []"
| "eval_args env ctx (a # as) =
     and_then (evaluate env ctx a) (\<lambda>v. and_then (eval_args env ctx as) (\<lambda>vs. Ok (v # vs)))"

section \<open>The asynchronous evaluator\<close>

type_synonym relation_resolver =
  "string \<Rightarrow> string \<Rightarrow> string list \<Rightarrow> u32 \<Rightarrow> u32 \<Rightarrow> rel_direction \<Rightarrow> bool outcome"

definition no_op_resolver :: relation_resolver where
  "no_op_resolver source_id target_id relation_types min_depth max_depth direction = Ok False"

fun requires_async :: "'f rel_expr \<Rightarrow> bool"
  and any_requires_async :: "'f rel_expr list \<Rightarrow> bool"
where
  "requires_async (Relates _ _ _ _ _ _) = True"
| "requires_async (BinaryOp left _ right) = (requires_async left \<or> requires_async right)"
| "requires_async (UnaryOp _ e) = requires_async e"
| "requires_async (PropertyAccess object _) = requires_async object"
| "requires_async (IndexAccess object index) = (requires_async object \<or> requires_async index)"
| "requires_async (MethodCall object _ args) = (requires_async object \<or> any_requires_async args)"
| "requires_async (Grouped inner) = requires_async inner"
| "requires_async (Literal _) = False"
| "requires_async (Variable _) = False"
| "any_requires_async [] = False"
| "any_requires_async (a # as) = (requires_async a \<or> any_requires_async as)"

fun evaluate_async ::
  "'f rel_env \<Rightarrow> 'f eval_context \<Rightarrow> relation_resolver \<Rightarrow> 'f rel_expr \<Rightarrow> 'f rel_value outcome"
  and eval_args_async ::
  "'f rel_env \<Rightarrow> 'f eval_context \<Rightarrow> relation_resolver \<Rightarrow> 'f rel_expr list \<Rightarrow> 'f rel_value list outcome"
where
  "evaluate_async env ctx resolver (Relates source target relation_types min_depth max_depth direction) =
     and_then (evaluate_async env ctx resolver source) (\<lambda>source_val.
     and_then (evaluate_async env ctx resolver target) (\<lambda>target_val.
     and_then (ok_or (as_str source_val) (TypeError ''RELATES'' ''string'' (type_name source_val))) (\<lambda>source_id.
     and_then (ok_or (as_str target_val) (TypeError ''RELATES'' ''string'' (type_name target_val))) (\<lambda>target_id.
     and_then (resolver source_id target_id relation_types min_depth max_depth direction) (\<lambda>has_path.
     Ok (VBoolean has_path))))))"
| "evaluate_async env ctx resolver (BinaryOp left op right) =
     (case op of
        BAnd \<Rightarrow>
          and_then (evaluate_async env ctx resolver left) (\<lambda>left_val.
          if \<not> is_truthy env left_val then Ok (VBoolean False)
          else and_then (evaluate_async env ctx resolver right) (\<lambda>right_val.
               Ok (VBoolean (is_truthy env right_val))))
      | BOr \<Rightarrow>
          and_then (evaluate_async env ctx resolver left) (\<lambda>left_val.
          if is_truthy env left_val then Ok (VBoolean True)
          else and_then (evaluate_async env ctx resolver right) (\<lambda>right_val.
               Ok (VBoolean (is_truthy env right_val))))
      | _ \<Rightarrow>
          and_then (evaluate_async env ctx resolver left) (\<lambda>left_val.
          and_then (evaluate_async env ctx resolver right) (\<lambda>right_val.
          eval_binary_values env left_val op right_val)))"
| "evaluate_async env ctx resolver (UnaryOp op inner) =
     and_then (evaluate_async env ctx resolver inner) (\<lambda>v.
     case op of
       UNot \<Rightarrow> Ok (VBoolean (\<not> is_truthy env v))
     | UNeg \<Rightarrow>
         (case v of
            VInteger i \<Rightarrow> Ok (VInteger (- i))
          | VFloat f \<Rightarrow> Ok (VFloat (f_neg env f))
          | other \<Rightarrow> type_error ''negation'' ''number'' (type_name other)))"
| "evaluate_async env ctx resolver (PropertyAccess object property) =
     and_then (evaluate_async env ctx resolver object) (\<lambda>obj_value.
     case obj_value of
       VObject m \<Rightarrow> Ok (case hm_get m property of Some v \<Rightarrow> v | None \<Rightarrow> VNull)
     | _ \<Rightarrow> Ok VNull)"
| "evaluate_async env ctx resolver (IndexAccess object index) =
     and_then (evaluate_async env ctx resolver object) (\<lambda>obj_value.
     and_then (evaluate_async env ctx resolver index) (\<lambda>index_value.
     case obj_value of
       VArray arr \<Rightarrow>
         and_then (ok_or (as_integer env index_value) (InvalidIndexType (type_name index_value))) (\<lambda>idx.
         if sint idx < 0 then Err (IndexOutOfBounds idx (length arr))
         else ok_or (arg_get arr (unat idx)) (IndexOutOfBounds idx (length arr)))
     | VObject m \<Rightarrow>
         and_then (ok_or (as_str index_value) (InvalidIndexType (type_name index_value))) (\<lambda>key.
         ok_or (hm_get m key) (PropertyNotFound key ''object''))
     | VNull \<Rightarrow> Ok VNull
     | other \<Rightarrow> type_error ''index access'' ''array or object'' (type_name other)))"
| "evaluate_async env ctx resolver (MethodCall object method args) =
     and_then (evaluate_async env ctx resolver object) (\<lambda>obj_val.
     if obj_val = VNull then Ok VNull
     else and_then (eval_args_async env ctx resolver args) (\<lambda>arg_vals.
          eval_method_on_values env obj_val method arg_vals))"
| "evaluate_async env ctx resolver (Grouped inner) = evaluate_async env ctx resolver inner"
| "evaluate_async env ctx resolver (Literal lit) = evaluate env ctx (Literal lit)"
| "evaluate_async env ctx resolver (Variable name) = evaluate env ctx (Variable name)"
| "eval_args_async env ctx resolver [] = Ok []"
| "eval_args_async env ctx resolver (a # as) =
     and_then (evaluate_async env ctx resolver a) (\<lambda>v.
     and_then (eval_args_async env ctx resolver as) (\<lambda>vs. Ok (v # vs)))"

section \<open>The two evaluators agree\<close>

lemma and_then_cong [fundef_cong]:
  "\<lbrakk>x = y; \<And>a. y = Ok a \<Longrightarrow> f a = g a\<rbrakk> \<Longrightarrow> and_then x f = and_then y g"
  by (cases y) auto

lemma evaluate_async_sync:
  "\<not> requires_async e \<Longrightarrow> evaluate_async env ctx resolver e = evaluate env ctx e"
  "\<not> any_requires_async es \<Longrightarrow> eval_args_async env ctx resolver es = eval_args env ctx es"
proof (induction env ctx resolver e and env ctx resolver es rule: evaluate_async_eval_args_async.induct)
  case (2 env ctx resolver left op right)
  then show ?case by (cases op; cases "evaluate env ctx left"; auto)
qed (simp_all add: unary_value_def property_of_def index_of_value_def cong: and_then_cong if_cong)

text \<open>
  Routing is sound: an expression with no \<open>RELATES\<close> has the same outcome, value or error or panic, under the
  asynchronous evaluator with any resolver as under the synchronous one.
\<close>

theorem evaluate_async_agrees:
  "\<not> requires_async e \<Longrightarrow> evaluate_async env ctx resolver e = evaluate env ctx e"
  by (rule evaluate_async_sync(1))

theorem evaluate_async_agrees_witness:
  "evaluate_async int_env [] no_op_resolver (BinaryOp (Literal (LInteger 2)) BAdd (Literal (LInteger 3))) =
   Ok (VInteger 5)"
  using evaluate_async_agrees [of "BinaryOp (Literal (LInteger 2)) BAdd (Literal (LInteger 3))" int_env "[]"
      no_op_resolver]
  by (simp add: eval_binary_values_def eval_add_def)

section \<open>Panics\<close>

text \<open>The expressions with a division, a remainder or a call of \<open>substring\<close>.\<close>

fun may_panic :: "'f rel_expr \<Rightarrow> bool"
  and any_may_panic :: "'f rel_expr list \<Rightarrow> bool"
where
  "may_panic (Literal _) = False"
| "may_panic (Variable _) = False"
| "may_panic (PropertyAccess object _) = may_panic object"
| "may_panic (IndexAccess object index) = (may_panic object \<or> may_panic index)"
| "may_panic (BinaryOp left op right) = (op = BDiv \<or> op = BMod \<or> may_panic left \<or> may_panic right)"
| "may_panic (UnaryOp _ e) = may_panic e"
| "may_panic (MethodCall object method args) = (method = ''substring'' \<or> may_panic object \<or> any_may_panic args)"
| "may_panic (Grouped inner) = may_panic inner"
| "may_panic (Relates source target _ _ _ _) = (may_panic source \<or> may_panic target)"
| "any_may_panic [] = False"
| "any_may_panic (a # as) = (may_panic a \<or> any_may_panic as)"

lemma and_then_Panic_iff: "and_then x f = Panic \<longleftrightarrow> x = Panic \<or> (\<exists>a. x = Ok a \<and> f a = Panic)"
  by (cases x) auto

lemma ok_or_no_panic [simp]: "ok_or x e \<noteq> Panic"
  by (simp add: ok_or_def split: option.split)

lemma type_error_no_panic [simp]: "type_error a b c \<noteq> Panic"
  by (simp add: type_error_def)

lemma eval_literal_no_panic:
  fixes l :: "'f rel_literal" and ls :: "'f rel_literal list" and fs :: "(string \<times> 'f rel_literal) list"
  shows "eval_literal l \<noteq> Panic"
    and "eval_items ls \<noteq> Panic"
    and "eval_fields fs m \<noteq> Panic"
  by (induction l and ls and fs m rule: eval_literal_eval_items_eval_fields.induct) (auto simp: and_then_Panic_iff)

lemma compare_values_no_panic: "compare_values env l r c \<noteq> Panic"
  by (auto simp: compare_values_def split: rel_value.splits)

lemma eval_binary_values_panic_iff:
  "eval_binary_values env l op r = Panic \<longleftrightarrow>
   op \<in> {BAnd, BOr} \<or> op \<in> {BDiv, BMod} \<and> l = VInteger i64_MIN \<and> r = VInteger (- 1)"
  by (auto simp: eval_binary_values_def eval_add_def eval_sub_def eval_mul_def eval_div_def eval_mod_def i64_div_def
      i64_rem_def compare_values_no_panic split: bin_op.splits rel_value.splits if_splits)

lemmas method_defs =
  eval_length_def eval_is_empty_def eval_is_not_empty_def eval_contains_def eval_starts_with_def eval_ends_with_def
  eval_to_lower_case_def eval_to_upper_case_def eval_trim_def eval_first_def eval_last_def eval_index_of_def
  eval_join_def eval_parent_def eval_ancestor_def eval_ancestor_of_def eval_descendant_of_def eval_child_of_def
  eval_depth_def

lemma arg_no_panic:
  "r \<noteq> Panic \<Longrightarrow> no_arg m args r \<noteq> Panic"
  "(\<And>a. f a \<noteq> Panic) \<Longrightarrow> one_arg m args f \<noteq> Panic"
  by (auto simp: no_arg_def one_arg_def check_arg_count_def)

lemma str_arg_no_panic [simp]: "str_arg m v \<noteq> Panic"
  by (simp add: str_arg_def)

lemma method_no_panic:
  "eval_length v \<noteq> Panic" "eval_is_empty v \<noteq> Panic" "eval_is_not_empty v \<noteq> Panic" "eval_contains env v x \<noteq> Panic"
  "eval_starts_with v x \<noteq> Panic" "eval_ends_with v x \<noteq> Panic" "eval_to_lower_case env v \<noteq> Panic"
  "eval_to_upper_case env v \<noteq> Panic" "eval_trim env v \<noteq> Panic" "eval_first v \<noteq> Panic" "eval_last v \<noteq> Panic"
  "eval_index_of env v x \<noteq> Panic" "eval_join env v xo \<noteq> Panic" "eval_parent env v xo \<noteq> Panic"
  "eval_ancestor env v x \<noteq> Panic" "eval_ancestor_of v x \<noteq> Panic" "eval_descendant_of v x \<noteq> Panic"
  "eval_child_of v x \<noteq> Panic" "eval_depth v \<noteq> Panic"
  by (auto simp: method_defs Let_def and_then_Panic_iff split: rel_value.split option.split)

lemma if_no_panic: "\<lbrakk>c \<Longrightarrow> x \<noteq> Panic; \<not> c \<Longrightarrow> y \<noteq> Panic\<rbrakk> \<Longrightarrow> (if c then x else y) \<noteq> Panic"
  by simp

lemma eval_method_no_panic:
  "method \<noteq> ''substring'' \<Longrightarrow> eval_method_on_values env obj method args \<noteq> Panic"
  unfolding eval_method_on_values_def by (intro if_no_panic arg_no_panic method_no_panic) simp_all

lemma unary_no_panic [simp]: "unary_value env op v \<noteq> Panic"
  by (simp add: unary_value_def split: un_op.split rel_value.split)

lemma property_no_panic [simp]: "property_of v p \<noteq> Panic"
  by (simp add: property_of_def split: rel_value.split)

lemma index_no_panic [simp]: "index_of_value env v i \<noteq> Panic"
  by (auto simp: index_of_value_def and_then_Panic_iff split: rel_value.split)

lemma evaluate_no_panic:
  "\<not> may_panic e \<Longrightarrow> evaluate env ctx e \<noteq> Panic"
  "\<not> any_may_panic es \<Longrightarrow> eval_args env ctx es \<noteq> Panic"
  by (induction env ctx e and env ctx es rule: evaluate_eval_args.induct)
    (auto simp: and_then_Panic_iff eval_literal_no_panic eval_variable_def eval_binary_values_panic_iff
      eval_method_no_panic)

lemma evaluate_async_no_panic:
  assumes "\<And>s t rs a b d. resolver s t rs a b d \<noteq> Panic"
  shows "\<not> may_panic e \<Longrightarrow> evaluate_async env ctx resolver e \<noteq> Panic"
    and "\<not> any_may_panic es \<Longrightarrow> eval_args_async env ctx resolver es \<noteq> Panic"
  using assms
proof (induction env ctx resolver e and env ctx resolver es rule: evaluate_async_eval_args_async.induct)
  case (2 env ctx resolver left op right)
  then show ?case by (cases op) (auto simp: and_then_Panic_iff eval_binary_values_panic_iff)
qed (auto simp: and_then_Panic_iff eval_literal_no_panic eval_variable_def eval_method_no_panic
    split: un_op.split rel_value.split)



text \<open>
  The other three operations do panic: the least integer divided by \<open>-1\<close>, its remainder, and a substring that
  starts inside a two-byte character.
\<close>

theorem evaluate_can_panic:
  "evaluate int_env [(''n'', VInteger i64_MIN)] (BinaryOp (Variable ''n'') BDiv (Literal (LInteger (- 1)))) = Panic \<and>
   evaluate int_env [(''n'', VInteger i64_MIN)] (BinaryOp (Variable ''n'') BMod (Literal (LInteger (- 1)))) = Panic \<and>
   evaluate int_env [(''s'', VString [char_of (195 :: nat), char_of (169 :: nat)])]
     (MethodCall (Variable ''s'') ''substring'' [Literal (LInteger 1)]) = Panic"
  by (simp add: eval_variable_def ctx_get_def ok_or_def eval_binary_values_def eval_div_def eval_mod_def i64_div_def
      i64_rem_def eval_method_on_values_def eval_substring_def str_arg_def as_str_def as_integer_def arg_get_def
      str_slice_def char_boundary_def Let_def)

section \<open>Boolean laws\<close>

text \<open>
  The connectives satisfy De Morgan's laws as programs, with short-circuit evaluation, errors and panics: negating
  a conjunction or a disjunction is the dual connective of the negated operands.
\<close>

theorem evaluate_de_morgan:
  "evaluate env ctx (UnaryOp UNot (BinaryOp a BAnd b)) =
     evaluate env ctx (BinaryOp (UnaryOp UNot a) BOr (UnaryOp UNot b)) \<and>
   evaluate env ctx (UnaryOp UNot (BinaryOp a BOr b)) =
     evaluate env ctx (BinaryOp (UnaryOp UNot a) BAnd (UnaryOp UNot b))"
  by (cases "evaluate env ctx a"; cases "evaluate env ctx b") (simp_all add: unary_value_def is_truthy_def)

end
