(* ===== verification/Rel_Paths.thy ===== *)
theory Rel_Paths
  imports Rel_Methods
begin

text \<open>
  The path methods of \<open>raisin-rel/src/eval/methods/path.rs\<close> work on strings. Here they are related to the paths
  they stand for: \<open>path_of segs\<close> is the absolute path with the segments \<open>segs\<close>, and each method is the
  corresponding operation on the list of segments.
\<close>

section \<open>Paths as lists of segments\<close>

definition path_of :: "string list \<Rightarrow> string" where
  "path_of segs = concat (map (\<lambda>s. slash # s) segs)"

definition valid_segments :: "string list \<Rightarrow> bool" where
  "valid_segments segs \<longleftrightarrow> (\<forall>s \<in> set segs. s \<noteq> [] \<and> slash \<notin> set s)"

lemma path_of_simps [simp]:
  "path_of [] = []"
  "path_of (s # segs) = slash # s @ path_of segs"
  "path_of (xs @ ys) = path_of xs @ path_of ys"
  by (simp_all add: path_of_def)

lemma valid_segments_simps [simp]:
  "valid_segments []"
  "valid_segments (s # segs) \<longleftrightarrow> s \<noteq> [] \<and> slash \<notin> set s \<and> valid_segments segs"
  "valid_segments (xs @ ys) \<longleftrightarrow> valid_segments xs \<and> valid_segments ys"
  by (auto simp: valid_segments_def)

lemma path_of_eq_Nil_iff [simp]: "path_of segs = [] \<longleftrightarrow> segs = []"
  by (cases segs) simp_all

lemma path_of_start: "segs \<noteq> [] \<Longrightarrow> \<exists>u. path_of segs = slash # u"
  by (cases segs) simp_all

lemma path_of_neq_root: "valid_segments segs \<Longrightarrow> path_of segs \<noteq> ''/''"
  by (cases segs) auto

lemma path_of_not_dir:
  assumes "valid_segments segs"
  shows "\<not> suffix ''/'' (path_of segs)"
proof (cases segs rule: rev_cases)
  case (snoc xs s)
  with assms obtain t c where "s = t @ [c]" and "c \<noteq> slash"
    by (cases s rule: rev_cases) auto
  with snoc show ?thesis by (simp add: suffix_def)
qed simp

lemma dir_prefix_path_of: "valid_segments segs \<Longrightarrow> dir_prefix (path_of segs) = path_of segs @ ''/''"
  by (simp add: dir_prefix_def path_of_not_dir)

lemma prefix_path_of:
  assumes "valid_segments a" and "valid_segments b"
  shows "prefix (path_of a @ ''/'') (path_of b) \<longleftrightarrow> strict_prefix a b"
  using assms
proof (induction a arbitrary: b)
  case Nil
  then show ?case by (cases b) auto
next
  case (Cons s a)
  show ?case
  proof (cases b)
    case b: (Cons t b')
    have "prefix (s @ path_of a @ ''/'') (t @ path_of b') \<longleftrightarrow> s = t \<and> prefix (path_of a @ ''/'') (path_of b')"
    proof
      assume "prefix (s @ path_of a @ ''/'') (t @ path_of b')"
      then obtain z where z: "t @ path_of b' = s @ path_of a @ ''/'' @ z" by (auto simp: prefix_def)
      have "b' \<noteq> []" using z Cons.prems b by auto
      then obtain u where u: "path_of b' = slash # u" using path_of_start by blast
      obtain w where w: "path_of a @ ''/'' @ z = slash # w" by (cases a) simp_all
      from z u w have "t @ slash # u = s @ slash # w" by simp
      moreover have "slash \<notin> set t" "slash \<notin> set s" using Cons.prems b by auto
      ultimately have "t = s" and "u = w" by (simp_all add: append_separator_eq_iff)
      with u w have "path_of b' = path_of a @ ''/'' @ z" by simp
      with \<open>t = s\<close> show "s = t \<and> prefix (path_of a @ ''/'') (path_of b')" by (simp add: prefix_def)
    qed auto
    with Cons b show ?thesis by auto
  qed simp
qed

lemma split_path_of: "valid_segments segs \<Longrightarrow> split_on slash (path_of segs) = [] # segs"
proof (induction segs)
  case (Cons s segs)
  show ?case
  proof (cases "segs = []")
    case True
    with Cons.prems show ?thesis by (simp add: split_on_notin)
  next
    case False
    then obtain u where u: "path_of segs = slash # u" using path_of_start by blast
    moreover have "split_on slash u = segs" using Cons.IH Cons.prems u by simp
    ultimately show ?thesis using Cons.prems by (simp add: split_on_append)
  qed
qed simp

lemma path_of_inject:
  "\<lbrakk>valid_segments a; valid_segments b\<rbrakk> \<Longrightarrow> path_of a = path_of b \<longleftrightarrow> a = b"
  using split_path_of [of a] split_path_of [of b] by (metis list.inject)

lemma segment_count_path_of:
  assumes "valid_segments segs"
  shows "segment_count (path_of segs) = length segs"
proof -
  have "filter (\<lambda>s. s \<noteq> []) segs = segs" using assms by (simp add: valid_segments_def filter_id_conv)
  with assms show ?thesis by (simp add: segment_count_def split_path_of)
qed

section \<open>Positions of the separators\<close>

lemma slash_positions_append:
  "slash_positions (xs @ ys) = slash_positions xs @ map (\<lambda>i. length xs + i) (slash_positions ys)"
proof -
  have "filter (\<lambda>i. (xs @ ys) ! i = slash) [0..<length xs] = filter (\<lambda>i. xs ! i = slash) [0..<length xs]"
    by (rule filter_cong) (auto simp: nth_append)
  moreover have "[length xs..<length xs + length ys] = map (\<lambda>i. length xs + i) [0..<length ys]"
    by (simp add: map_add_upt add.commute)
  ultimately show ?thesis
    by (simp add: slash_positions_def upt_add_eq_append [of 0 "length xs", simplified] filter_map comp_def nth_append)
qed

lemma slash_positions_segment:
  assumes "slash \<notin> set s"
  shows "slash_positions (slash # s) = [0]"
proof -
  have "s ! i \<noteq> slash" if "i < length s" for i using that assms nth_mem by fastforce
  then have "filter (\<lambda>i. s ! i = slash) [0..<length s] = []" by (simp add: filter_empty_conv)
  moreover have "[0..<Suc (length s)] = 0 # map Suc [0..<length s]" by (simp add: upt_conv_Cons map_Suc_upt del: upt_Suc)
  ultimately show ?thesis by (simp add: slash_positions_def filter_map comp_def)
qed

lemma slash_positions_path_of:
  assumes "valid_segments segs"
  shows "slash_positions (path_of segs) = map (\<lambda>k. length (path_of (take k segs))) [0..<length segs]"
  using assms
proof (induction segs rule: rev_induct)
  case (snoc s segs)
  then show ?case by (simp add: slash_positions_append slash_positions_segment)
qed (simp add: slash_positions_def)

lemma take_path_of: "take (length (path_of (take k segs))) (path_of segs) = path_of (take k segs)"
proof -
  have "path_of segs = path_of (take k segs) @ path_of (drop k segs)" by (simp flip: path_of_simps)
  then show ?thesis by simp
qed

lemma get_ancestor_path_of:
  assumes "valid_segments segs"
  shows "get_ancestor (path_of segs) d =
    (if 0 < sint d \<and> nat (sint d) \<le> length segs then path_of (take (nat (sint d)) segs) else [])"
  using assms
  by (auto simp: get_ancestor_def Let_def slash_positions_path_of segment_count_path_of take_path_of)

lemma get_parent_path_of:
  assumes "valid_segments segs"
  shows "get_parent_at_level (path_of segs) n =
    (if max 1 n < length segs then path_of (take (length segs - max 1 n) segs)
     else if max 1 n = length segs then ''/'' else [])"
  using assms
  by (auto simp: get_parent_at_level_def Let_def slash_positions_path_of path_of_neq_root take_path_of rev_nth max_def
      Suc_diff_Suc) (cases segs; simp)

section \<open>The methods\<close>

lemmas str_arg_simps = str_arg_def as_str_def ok_or_def

lemma child_of_path_of:
  assumes "valid_segments a" and "valid_segments b"
  shows "eval_child_of (VString (path_of b)) (VString (path_of a)) = Ok (VBoolean (b \<noteq> [] \<and> butlast b = a))"
proof (cases "strict_prefix a b")
  case True
  then obtain s c where b: "b = a @ s # c" by (rule strict_prefixE')
  have "slash \<notin> set (path_of c) \<longleftrightarrow> c = []" by (cases c) auto
  with b assms show ?thesis
    by (auto simp: eval_child_of_def str_arg_simps dir_prefix_path_of Let_def butlast_append)
next
  case False
  moreover have "strict_prefix a b" if "b \<noteq> []" "butlast b = a"
    using that by (metis append_butlast_last_id append_self_conv not_Cons_self2 prefixI strict_prefixI)
  ultimately show ?thesis
    using assms by (auto simp: eval_child_of_def str_arg_simps dir_prefix_path_of prefix_path_of)
qed

text \<open>
  On absolute paths the three relation methods decide exactly the hierarchy of segments: \<open>ancestorOf\<close> and
  \<open>descendantOf\<close> are the strict prefix relation and its converse, \<open>childOf\<close> holds of a path and its parent.
\<close>

theorem path_relations_correct:
  assumes "valid_segments a" and "valid_segments b"
  shows "eval_ancestor_of (VString (path_of a) :: 'f rel_value) (VString (path_of b)) = Ok (VBoolean (strict_prefix a b)) \<and>
    eval_descendant_of (VString (path_of b) :: 'f rel_value) (VString (path_of a)) = Ok (VBoolean (strict_prefix a b)) \<and>
    eval_child_of (VString (path_of b) :: 'f rel_value) (VString (path_of a)) = Ok (VBoolean (b \<noteq> [] \<and> butlast b = a))"
  using assms child_of_path_of [OF assms]
  by (auto simp: eval_ancestor_of_def eval_descendant_of_def str_arg_simps dir_prefix_path_of prefix_path_of
      path_of_inject)

theorem path_relations_correct_witness:
  "eval_child_of (VString ''/content/blog'' :: int rel_value) (VString ''/content'') = Ok (VBoolean True) \<and>
   eval_descendant_of (VString ''/contents/blog'' :: int rel_value) (VString ''/content'') = Ok (VBoolean False)"
  using path_relations_correct [where 'f = int, of "[''content'']" "[''content'', ''blog'']"]
    path_relations_correct [where 'f = int, of "[''content'']" "[''contents'', ''blog'']"]
  by simp

text \<open>
  On absolute paths the navigation methods are the operations on the list of segments: \<open>depth()\<close> counts them,
  \<open>ancestor(d)\<close> keeps the first \<open>d\<close> (the empty string if there are fewer or \<open>d\<close>, cut to 32 bits, is not
  positive), \<open>parent(n)\<close> drops the last \<open>n\<close>, at least one; the root is the parent of the first segment.
\<close>

theorem path_navigation_correct:
  assumes "valid_segments segs"
  shows "eval_depth (VString (path_of segs) :: 'f rel_value) = Ok (VInteger (of_nat (length segs))) \<and>
    eval_ancestor env (VString (path_of segs) :: 'f rel_value) (VInteger d) =
      Ok (VString (let n = sint (ucast d :: 32 word) in
        if 0 < n \<and> nat n \<le> length segs then path_of (take (nat n) segs) else [])) \<and>
    eval_parent env (VString (path_of segs)) (Some (VInteger d)) =
      Ok (VString (let n = max 1 (unat d) in
        if n < length segs then path_of (take (length segs - n) segs) else if n = length segs then ''/'' else []))"
  using assms
  by (simp add: eval_depth_def eval_ancestor_def eval_parent_def str_arg_simps as_integer_def Let_def
      segment_count_path_of get_ancestor_path_of get_parent_path_of)

theorem path_navigation_correct_witness:
  "eval_parent int_env (VString ''/content/blog/post1'') (Some (VInteger 2)) = Ok (VString ''/content'') \<and>
   eval_ancestor int_env (VString ''/content/blog/post1'') (VInteger 2) = Ok (VString ''/content/blog'')"
  using path_navigation_correct [of "[''content'', ''blog'', ''post1'']" int_env 2] by simp

end
