(* ===== verification/Dependency_Graph.thy ===== *)
theory Dependency_Graph
  imports Raisin_Prelude
begin

text \<open>
  \<open>raisin-packages/src/manifest.rs\<close> (the manifest) and \<open>dependency_graph/graph.rs\<close>: the graph of the packages to
  install, the installation order by Kahn's algorithm and the search for a cycle to report. The orders in which hash maps are
  iterated are arguments. An outer \<open>None\<close> is a call that does not return or panics; the search for a cycle has
  the number of names as fuel, the depth a recursion over unvisited packages cannot exceed.
\<close>

section \<open>Data\<close>

record manifest_dependency =
  dep_name :: string
  dep_version :: string

record provides =
  prov_nodetypes :: "string list"
  prov_mixins :: "string list"
  prov_workspaces :: "string list"
  prov_content :: "string list"
  prov_mcp_servers :: "string list"

record workspace_patch =
  allowed_node_types_add :: "string list"
  default_folder_type :: "string option"

record 'y manifest =
  man_name :: string
  man_version :: string
  man_title :: "string option"
  man_description :: "string option"
  man_author :: "string option"
  man_license :: "string option"
  man_icon :: string
  man_color :: string
  man_keywords :: "string list"
  man_category :: "string option"
  man_builtin :: "bool option"
  man_auto_install :: bool
  man_dependencies :: "manifest_dependency list"
  man_provides :: provides
  man_workspace_patches :: "(string, workspace_patch) hash_map"
  man_sync :: "'y option"

record 'y package_node =
  pkg_name :: string
  pkg_version :: string
  pkg_dependencies :: "string list"
  pkg_manifest :: "'y manifest"

datatype dependency_graph_error =
    CircularDependency "string list"
  | MissingDependency string string
  | TypeReferenceNotFound string string string

record 'y dependency_graph =
  graph_nodes :: "(string, 'y package_node) hash_map"
  reverse_adjacency :: "(string, string list) hash_map"

section \<open>Building the graph\<close>

definition graph_new :: "'y dependency_graph" where
  "graph_new = \<lparr>graph_nodes = [], reverse_adjacency = []\<rparr>"

definition hm_push :: "'k \<Rightarrow> 'a \<Rightarrow> ('k, 'a list) hash_map \<Rightarrow> ('k, 'a list) hash_map" where
  "hm_push k x m = hm_insert k ((case hm_get m k of None \<Rightarrow> [] | Some ys \<Rightarrow> ys) @ [x]) m"

definition add_package :: "'y manifest \<Rightarrow> 'y dependency_graph \<Rightarrow> 'y dependency_graph" where
  "add_package m g =
     (let deps = map dep_name (man_dependencies m);
          radj = foldl (\<lambda>r dep. hm_push dep (man_name m) r) (reverse_adjacency g) deps;
          node = \<lparr>pkg_name = man_name m, pkg_version = man_version m, pkg_dependencies = deps, pkg_manifest = m\<rparr>
      in g\<lparr>reverse_adjacency := radj, graph_nodes := hm_insert (pkg_name node) node (graph_nodes g)\<rparr>)"

definition graph_contains :: "'y dependency_graph \<Rightarrow> string \<Rightarrow> bool" where
  "graph_contains g name \<longleftrightarrow> hm_get (graph_nodes g) name \<noteq> None"

definition graph_get :: "'y dependency_graph \<Rightarrow> string \<Rightarrow> 'y package_node option" where
  "graph_get g name = hm_get (graph_nodes g) name"

definition package_names ::
  "((string \<times> 'y package_node) list \<Rightarrow> (string \<times> 'y package_node) list) \<Rightarrow> 'y dependency_graph \<Rightarrow> string list" where
  "package_names ord g = map fst (ord (graph_nodes g))"

definition validate_dependencies ::
  "((string \<times> 'y package_node) list \<Rightarrow> (string \<times> 'y package_node) list) \<Rightarrow> 'y dependency_graph
     \<Rightarrow> dependency_graph_error + unit" where
  "validate_dependencies ord g =
     (case concat (map (\<lambda>(pkg, node).
             map (\<lambda>dep. MissingDependency pkg dep)
               (filter (\<lambda>dep. \<not> graph_contains g dep) (pkg_dependencies node))) (ord (graph_nodes g))) of
        [] \<Rightarrow> Inr ()
      | e # _ \<Rightarrow> Inl e)"

section \<open>Topological sort\<close>

definition or_insert :: "'k \<Rightarrow> 'v \<Rightarrow> ('k, 'v) hash_map \<Rightarrow> ('k, 'v) hash_map" where
  "or_insert k v m = (case hm_get m k of None \<Rightarrow> hm_insert k v m | Some _ \<Rightarrow> m)"

definition initial_in_degree :: "'y dependency_graph \<Rightarrow> (string, nat) hash_map" where
  "initial_in_degree g =
     (let m = foldl (\<lambda>m (name, node).
                foldl (\<lambda>m dep. or_insert dep 0 m) (or_insert name 0 m) (pkg_dependencies node)) [] (graph_nodes g)
      in foldl (\<lambda>m (name, node).
           hm_insert name (length (filter (graph_contains g) (pkg_dependencies node))) m) m (graph_nodes g))"

definition initial_queue ::
  "((string \<times> nat) list \<Rightarrow> (string \<times> nat) list) \<Rightarrow> 'y dependency_graph \<Rightarrow> (string, nat) hash_map \<Rightarrow> string list" where
  "initial_queue ord g in_degree =
     map fst (filter (\<lambda>(name, degree). degree = 0 \<and> graph_contains g name) (ord in_degree))"

text \<open>\<open>*degree -= 1\<close> on \<open>usize\<close>.\<close>

definition usize_pred :: "nat \<Rightarrow> nat" where
  "usize_pred n = (if n = 0 then 2 ^ 64 - 1 else n - 1)"

fun relax_dependents ::
  "string list \<Rightarrow> (string, nat) hash_map \<Rightarrow> string list \<Rightarrow> (string, nat) hash_map \<times> string list" where
  "relax_dependents [] in_degree queue = (in_degree, queue)"
| "relax_dependents (dependent # ds) in_degree queue =
     (case hm_get in_degree dependent of
        None \<Rightarrow> relax_dependents ds in_degree queue
      | Some degree \<Rightarrow>
          (let degree' = usize_pred degree;
               in_degree' = hm_insert dependent degree' in_degree
           in relax_dependents ds in_degree' (if degree' = 0 then queue @ [dependent] else queue)))"

partial_function (option) kahn_loop ::
  "'y dependency_graph \<Rightarrow> string list \<Rightarrow> (string, nat) hash_map \<Rightarrow> string list \<Rightarrow> string list option" where
  "kahn_loop g queue in_degree result =
     (case queue of
        [] \<Rightarrow> Some result
      | current # rest \<Rightarrow>
          (case hm_get (reverse_adjacency g) current of
             None \<Rightarrow> kahn_loop g rest in_degree (result @ [current])
           | Some dependents \<Rightarrow>
               (case relax_dependents dependents in_degree rest of
                  (in_degree', queue') \<Rightarrow> kahn_loop g queue' in_degree' (result @ [current]))))"

section \<open>Search for a cycle\<close>

type_synonym dfs_state = "string hash_set \<times> string hash_set \<times> string list"

fun find_cycle_dfs :: "nat \<Rightarrow> 'y dependency_graph \<Rightarrow> string \<Rightarrow> dfs_state \<Rightarrow> (string list option \<times> dfs_state) option"
  and find_cycle_deps :: "nat \<Rightarrow> 'y dependency_graph \<Rightarrow> string list \<Rightarrow> dfs_state \<Rightarrow> (string list option \<times> dfs_state) option"
where
  "find_cycle_dfs 0 g node st = None"
| "find_cycle_dfs (Suc fuel) g node (visited, rec_stack, path) =
     (let visited = List.insert node visited; rec_stack = List.insert node rec_stack; path = path @ [node];
          deps = (case hm_get (graph_nodes g) node of None \<Rightarrow> [] | Some pkg \<Rightarrow> pkg_dependencies pkg)
      in case find_cycle_deps fuel g deps (visited, rec_stack, path) of
           None \<Rightarrow> None
         | Some (Some cycle, st) \<Rightarrow> Some (Some cycle, st)
         | Some (None, (visited, rec_stack, path)) \<Rightarrow>
             Some (None, (visited, removeAll node rec_stack, butlast path)))"
| "find_cycle_deps fuel g [] st = Some (None, st)"
| "find_cycle_deps fuel g (dep # deps) (visited, rec_stack, path) =
     (if dep \<notin> set visited then
        (case find_cycle_dfs fuel g dep (visited, rec_stack, path) of
           None \<Rightarrow> None
         | Some (Some cycle, st) \<Rightarrow> Some (Some cycle, st)
         | Some (None, st) \<Rightarrow> find_cycle_deps fuel g deps st)
      else if dep \<in> set rec_stack then
        (case position (\<lambda>n. n = dep) path of
           None \<Rightarrow> None
         | Some cycle_start \<Rightarrow> Some (Some (drop cycle_start path @ [dep]), (visited, rec_stack, path)))
      else find_cycle_deps fuel g deps (visited, rec_stack, path))"

fun find_cycle_from :: "nat \<Rightarrow> 'y dependency_graph \<Rightarrow> string list \<Rightarrow> dfs_state \<Rightarrow> string list option" where
  "find_cycle_from fuel g [] st = Some []"
| "find_cycle_from fuel g (name # names) st =
     (if name \<notin> set (fst st) then
        (case find_cycle_dfs fuel g name st of
           None \<Rightarrow> None
         | Some (Some cycle, _) \<Rightarrow> Some cycle
         | Some (None, st') \<Rightarrow> find_cycle_from fuel g names st')
      else find_cycle_from fuel g names st)"

definition all_names :: "'y dependency_graph \<Rightarrow> string list" where
  "all_names g = concat (map (\<lambda>(name, node). name # pkg_dependencies node) (graph_nodes g))"

definition find_cycle ::
  "((string \<times> 'y package_node) list \<Rightarrow> (string \<times> 'y package_node) list) \<Rightarrow> 'y dependency_graph \<Rightarrow> string list option" where
  "find_cycle ord g = find_cycle_from (length (all_names g)) g (package_names ord g) ([], [], [])"

definition topological_sort ::
  "((string \<times> nat) list \<Rightarrow> (string \<times> nat) list) \<Rightarrow>
   ((string \<times> 'y package_node) list \<Rightarrow> (string \<times> 'y package_node) list) \<Rightarrow>
   'y dependency_graph \<Rightarrow> (dependency_graph_error + string list) option" where
  "topological_sort deg_ord ord g =
     (let in_degree = initial_in_degree g
      in case kahn_loop g (initial_queue deg_ord g in_degree) in_degree [] of
           None \<Rightarrow> None
         | Some result \<Rightarrow>
             if length result \<noteq> length (graph_nodes g)
             then map_option (\<lambda>cycle. Inl (CircularDependency cycle)) (find_cycle ord g)
             else Some (Inr result))"

definition manifests_in_order ::
  "((string \<times> nat) list \<Rightarrow> (string \<times> nat) list) \<Rightarrow>
   ((string \<times> 'y package_node) list \<Rightarrow> (string \<times> 'y package_node) list) \<Rightarrow>
   'y dependency_graph \<Rightarrow> (dependency_graph_error + 'y manifest list) option" where
  "manifests_in_order deg_ord ord g =
     map_option (map_sum id (\<lambda>order. List.map_filter (\<lambda>name. map_option pkg_manifest (hm_get (graph_nodes g) name)) order))
       (topological_sort deg_ord ord g)"

section \<open>The graph as a relation\<close>

definition deps_of :: "'y dependency_graph \<Rightarrow> string \<Rightarrow> string list" where
  "deps_of g n = (case hm_get (graph_nodes g) n of None \<Rightarrow> [] | Some pkg \<Rightarrow> pkg_dependencies pkg)"

definition entry_list :: "('k, 'a list) hash_map \<Rightarrow> 'k \<Rightarrow> 'a list" where
  "entry_list m k = (case hm_get m k of None \<Rightarrow> [] | Some ys \<Rightarrow> ys)"

abbreviation radj_of :: "'y dependency_graph \<Rightarrow> string \<Rightarrow> string list" where
  "radj_of g \<equiv> entry_list (reverse_adjacency g)"

definition names_of :: "'y dependency_graph \<Rightarrow> string set" where
  "names_of g = set (hm_keys (graph_nodes g))"

lemma finite_names_of [simp]: "finite (names_of g)"
  by (simp add: names_of_def)

definition graph_ok :: "'y dependency_graph \<Rightarrow> bool" where
  "graph_ok g \<longleftrightarrow> hm_wf (graph_nodes g) \<and> (\<forall>d n. count_list (radj_of g d) n = count_list (deps_of g n) d)"

lemma graph_contains_iff: "graph_contains g n \<longleftrightarrow> n \<in> names_of g"
  unfolding graph_contains_def names_of_def by (rule hm_get_keys)

lemma deps_of_names: "d \<in> set (deps_of g n) \<Longrightarrow> n \<in> names_of g"
  using hm_get_keys [of "graph_nodes g" n] by (auto simp: deps_of_def names_of_def split: option.splits)

lemma entry_list_push: "entry_list (hm_push k x m) d = entry_list m d @ (if d = k then [x] else [])"
  by (simp add: entry_list_def hm_push_def hm_simps)

lemma push_all_count:
  "count_list (entry_list (foldl (\<lambda>r dep. hm_push dep x r) m deps) d) n =
   count_list (entry_list m d) n + (if n = x then count_list deps d else 0)"
proof (induction deps arbitrary: m)
  case (Cons a deps)
  show ?case
    unfolding foldl_Cons Cons.IH entry_list_push by (cases "d = a"; cases "n = x") simp_all
qed simp

lemma graph_ok_new: "graph_ok graph_new"
  by (simp add: graph_ok_def graph_new_def entry_list_def deps_of_def)

lemma graph_ok_add:
  assumes "graph_ok g" and "man_name m \<notin> names_of g"
  shows "graph_ok (add_package m g)"
proof -
  have new: "deps_of (add_package m g) n =
      (if n = man_name m then map dep_name (man_dependencies m) else deps_of g n)" for n
    by (simp add: deps_of_def add_package_def Let_def hm_simps)
  have old: "deps_of g (man_name m) = []"
    using assms(2) deps_of_names [of _ g "man_name m"] by (cases "deps_of g (man_name m)") auto
  have "count_list (radj_of (add_package m g) d) n = count_list (radj_of g d) n +
      (if n = man_name m then count_list (map dep_name (man_dependencies m)) d else 0)" for d n
    by (simp add: add_package_def Let_def push_all_count)
  then show ?thesis
    using assms(1) old by (auto simp: graph_ok_def new) (simp_all add: add_package_def Let_def)
qed

definition graph_of :: "'y manifest list \<Rightarrow> 'y dependency_graph" where
  "graph_of ms = fold add_package ms graph_new"

lemma names_of_add: "names_of (add_package m g) = insert (man_name m) (names_of g)"
  by (simp add: add_package_def names_of_def Let_def dom_update)

lemma graph_of_ok:
  assumes "distinct (map man_name ms)"
  shows "graph_ok (graph_of ms) \<and> names_of (graph_of ms) = set (map man_name ms)"
  using assms
proof (induction ms rule: rev_induct)
  case (snoc m ms)
  then show ?case
    using graph_ok_add [of "graph_of ms" m] names_of_add [of m "graph_of ms"] by (auto simp: graph_of_def)
qed (simp add: graph_of_def graph_ok_new, simp add: graph_new_def names_of_def)

section \<open>Correctness of Kahn's algorithm\<close>

text \<open>The dependencies of \<open>n\<close>, with repetitions, that are packages of the graph not yet in the result.\<close>

definition pending :: "'y dependency_graph \<Rightarrow> string list \<Rightarrow> string \<Rightarrow> nat" where
  "pending g res n = length (filter (\<lambda>d. d \<in> names_of g \<and> d \<notin> set res) (deps_of g n))"

definition deps_first :: "'y dependency_graph \<Rightarrow> string list \<Rightarrow> bool" where
  "deps_first g res \<longleftrightarrow>
     (\<forall>i < length res. \<forall>d \<in> set (deps_of g (res ! i)). d \<in> names_of g \<longrightarrow> d \<in> set (take i res))"

definition kahn_inv :: "'y dependency_graph \<Rightarrow> string list \<Rightarrow> (string, nat) hash_map \<Rightarrow> string list \<Rightarrow> bool" where
  "kahn_inv g q deg res \<longleftrightarrow>
     distinct (res @ q) \<and> set (res @ q) \<subseteq> names_of g \<and> deps_first g res \<and>
     (\<forall>n \<in> names_of g. hm_get deg n = Some (pending g res n) \<and> (n \<in> set (res @ q) \<longleftrightarrow> pending g res n = 0))"

lemma deps_first_snoc:
  "deps_first g (res @ [x]) \<longleftrightarrow>
   deps_first g res \<and> (\<forall>d \<in> set (deps_of g x). d \<in> names_of g \<longrightarrow> d \<in> set res)"
  by (auto simp: deps_first_def nth_append less_Suc_eq)

lemma pending_zero_iff: "pending g res n = 0 \<longleftrightarrow> (\<forall>d \<in> set (deps_of g n). d \<in> names_of g \<longrightarrow> d \<in> set res)"
  by (auto simp: pending_def filter_empty_conv)

lemma pending_snoc:
  assumes "x \<in> names_of g" and "x \<notin> set res"
  shows "pending g res n = pending g (res @ [x]) n + count_list (deps_of g n) x"
proof -
  have "length (filter (\<lambda>d. d \<in> names_of g \<and> d \<notin> set res) ds) =
      length (filter (\<lambda>d. d \<in> names_of g \<and> d \<notin> set (res @ [x])) ds) + count_list ds x" for ds
    using assms by (induction ds) auto
  then show ?thesis by (simp add: pending_def)
qed

lemma relax_dependents_spec:
  assumes "\<And>m. m \<in> set ds \<Longrightarrow> \<exists>d. hm_get deg m = Some d \<and> count_list ds m \<le> d"
  shows "\<exists>deg' new. relax_dependents ds deg q = (deg', q @ new) \<and> distinct new \<and>
    set new = {m \<in> set ds. hm_get deg m = Some (count_list ds m)} \<and>
    (\<forall>m. hm_get deg' m = map_option (\<lambda>d. d - count_list ds m) (hm_get deg m))"
  using assms
proof (induction ds arbitrary: deg q)
  case (Cons m ds)
  from Cons.prems [of m] obtain d where d: "hm_get deg m = Some d" "Suc (count_list ds m) \<le> d" by auto
  let ?deg = "hm_insert m (d - 1) deg"
  let ?q = "if d - 1 = 0 then q @ [m] else q"
  have pred: "usize_pred d = d - 1" using d(2) by (simp add: usize_pred_def)
  have "\<exists>e. hm_get ?deg n = Some e \<and> count_list ds n \<le> e" if "n \<in> set ds" for n
    using Cons.prems [of n] d that by (cases "n = m") (auto simp: hm_simps)
  from Cons.IH [OF this, of ?q] obtain deg' new where
    IH: "relax_dependents ds ?deg ?q = (deg', ?q @ new)" "distinct new"
      "set new = {n \<in> set ds. hm_get ?deg n = Some (count_list ds n)}"
      "\<forall>n. hm_get deg' n = map_option (\<lambda>e. e - count_list ds n) (hm_get ?deg n)" by blast
  let ?new = "(if d - 1 = 0 then [m] else []) @ new"
  have "relax_dependents (m # ds) deg q = (deg', q @ ?new)"
    using IH(1) d(1) pred by (auto simp: Let_def)
  moreover have "distinct ?new"
    using IH(2,3) d by (auto simp: hm_simps count_list_0_iff)
  moreover have "set ?new = {n \<in> set (m # ds). hm_get deg n = Some (count_list (m # ds) n)}"
    using d count_list_0_iff [of ds m] unfolding set_append IH(3) by (auto simp: hm_simps split: if_splits)
  moreover have "\<forall>n. hm_get deg' n = map_option (\<lambda>e. e - count_list (m # ds) n) (hm_get deg n)"
    using IH(4) d by (auto simp: hm_simps)
  ultimately show ?case by blast
qed (simp add: option.map_ident)

lemma kahn_inv_step:
  assumes ok: "graph_ok g" and inv: "kahn_inv g (x # q) deg res"
  shows "\<exists>deg' q'. relax_dependents (radj_of g x) deg q = (deg', q') \<and> kahn_inv g q' deg' (res @ [x])"
proof -
  have x: "x \<in> names_of g" "x \<notin> set res" "pending g res x = 0" using inv by (auto simp: kahn_inv_def)
  have cnt: "count_list (radj_of g x) n = count_list (deps_of g n) x" for n using ok by (simp add: graph_ok_def)
  have mem: "m \<in> set (radj_of g x) \<longleftrightarrow> x \<in> set (deps_of g m)" for m
    using cnt [of m] by (metis count_list_0_iff)
  have get: "hm_get deg m = Some (pending g (res @ [x]) m + count_list (deps_of g m) x)"
    if "m \<in> names_of g" for m
    using inv that pending_snoc [OF x(1,2), of m] by (simp add: kahn_inv_def)
  have "\<exists>d. hm_get deg m = Some d \<and> count_list (radj_of g x) m \<le> d" if "m \<in> set (radj_of g x)" for m
    using that get [of m] deps_of_names [of x g m] by (auto simp: mem cnt)
  from relax_dependents_spec [OF this, of q] obtain deg' new where
    r: "relax_dependents (radj_of g x) deg q = (deg', q @ new)" "distinct new"
      "set new = {m \<in> set (radj_of g x). hm_get deg m = Some (count_list (deps_of g m) x)}"
      "\<forall>m. hm_get deg' m = map_option (\<lambda>d. d - count_list (deps_of g m) x) (hm_get deg m)"
    unfolding cnt by blast
  have new: "set new = {m \<in> names_of g. x \<in> set (deps_of g m) \<and> pending g (res @ [x]) m = 0}"
    unfolding r(3) using get deps_of_names [of x g] by (auto simp: mem)
  have pos: "pending g res m \<noteq> 0" if "x \<in> set (deps_of g m)" for m
    using that x by (auto simp: pending_zero_iff)
  have old: "n \<in> set (res @ x # q) \<longleftrightarrow> pending g res n = 0" if "n \<in> names_of g" for n
    using inv that by (auto simp: kahn_inv_def)
  have disj: "m \<notin> set (res @ x # q)" if "m \<in> set new" for m
    using that old pos unfolding new by blast
  have "kahn_inv g (q @ new) deg' (res @ [x])"
    unfolding kahn_inv_def
  proof (intro conjI ballI)
    show "distinct ((res @ [x]) @ q @ new)"
      using inv r(2) disj unfolding kahn_inv_def by auto
    show "set ((res @ [x]) @ q @ new) \<subseteq> names_of g" using inv by (auto simp: kahn_inv_def new)
    show "deps_first g (res @ [x])"
      using inv x(3) by (simp add: kahn_inv_def deps_first_snoc pending_zero_iff)
  next
    fix n assume n: "n \<in> names_of g"
    show "hm_get deg' n = Some (pending g (res @ [x]) n)" using r(4) get [OF n] by simp
    have "pending g res n = 0 \<Longrightarrow> pending g (res @ [x]) n = 0" using pending_snoc [OF x(1,2), of n] by simp
    moreover have "x \<in> set (deps_of g n)" if "pending g (res @ [x]) n = 0" "pending g res n \<noteq> 0"
      using that pending_snoc [OF x(1,2), of n] by (metis add_0 count_list_0_iff)
    ultimately show "n \<in> set ((res @ [x]) @ q @ new) \<longleftrightarrow> pending g (res @ [x]) n = 0"
      using old [OF n] n by (auto simp: new)
  qed
  with r(1) show ?thesis by blast
qed

lemma kahn_loop_step:
  "kahn_loop g (x # q) deg res =
     (case relax_dependents (radj_of g x) deg q of (deg', q') \<Rightarrow> kahn_loop g q' deg' (res @ [x]))"
  by (subst kahn_loop.simps) (simp add: entry_list_def split: option.split)

lemma kahn_loop_returns:
  assumes "graph_ok g" and "kahn_inv g q deg res"
  shows "\<exists>deg' res'. kahn_loop g q deg res = Some res' \<and> kahn_inv g [] deg' res'"
  using assms(2)
proof (induction "card (names_of g) - length res" arbitrary: q deg res rule: less_induct)
  case less
  show ?case
  proof (cases q)
    case Nil
    then show ?thesis using less.prems by (subst kahn_loop.simps) auto
  next
    case (Cons x q')
    from kahn_inv_step [OF assms(1)] less.prems Cons obtain deg2 q2 where
      st: "relax_dependents (radj_of g x) deg q' = (deg2, q2)" "kahn_inv g q2 deg2 (res @ [x])" by blast
    have "distinct (res @ [x])" "set (res @ [x]) \<subseteq> names_of g" using st(2) by (auto simp: kahn_inv_def)
    then have "length (res @ [x]) \<le> card (names_of g)"
      using card_mono [of "names_of g" "set (res @ [x])"] distinct_card [of "res @ [x]"] by simp
    then have "card (names_of g) - length (res @ [x]) < card (names_of g) - length res" by simp
    from less.hyps [OF this st(2)] st(1) Cons show ?thesis by (simp add: kahn_loop_step)
  qed
qed

section \<open>Correctness of the search for a cycle\<close>

abbreviation dep_edge :: "'y dependency_graph \<Rightarrow> string \<Rightarrow> string \<Rightarrow> bool" where
  "dep_edge g a b \<equiv> b \<in> set (deps_of g a)"

definition is_cycle :: "'y dependency_graph \<Rightarrow> string list \<Rightarrow> bool" where
  "is_cycle g c \<longleftrightarrow> 2 \<le> length c \<and> hd c = last c \<and> successively (dep_edge g) c"

text \<open>The packages that are finished, in the order in which they were: the dependencies of each come before it.\<close>

definition finished :: "'y dependency_graph \<Rightarrow> string list \<Rightarrow> bool" where
  "finished g fs \<longleftrightarrow> (\<forall>i < length fs. set (deps_of g (fs ! i)) \<subseteq> set (take i fs))"

definition dfs_inv :: "'y dependency_graph \<Rightarrow> dfs_state \<Rightarrow> string list \<Rightarrow> bool" where
  "dfs_inv g st fs \<longleftrightarrow>
     (case st of (visited, rec_stack, path) \<Rightarrow>
        set rec_stack = set path \<and> distinct path \<and> set visited = set path \<union> set fs \<and> set path \<inter> set fs = {} \<and>
        successively (dep_edge g) path \<and> finished g fs)"

lemma finished_snoc: "finished g (fs @ [x]) \<longleftrightarrow> finished g fs \<and> set (deps_of g x) \<subseteq> set fs"
  by (auto simp: finished_def nth_append less_Suc_eq)

lemma cycle_found:
  assumes "successively (dep_edge g) path" and "path \<noteq> []" and "dep_edge g (last path) d"
    and "position (\<lambda>n. n = d) path = Some i"
  shows "is_cycle g (drop i path @ [d])"
proof -
  have i: "i < length path" "path ! i = d" using position_Some [OF assms(4)] by auto
  have "successively (dep_edge g) (drop i path)"
    using assms(1) successively_append_iff [of "dep_edge g" "take i path" "drop i path"] by simp
  with assms(3) i show ?thesis
    by (auto simp: is_cycle_def successively_append_iff hd_append hd_drop_conv_nth)
qed

text \<open>What a call from the state \<open>st\<close> promises: it returns a cycle, or leaves the path as it was and has finished
  the packages \<open>ds\<close>.\<close>

definition dfs_post ::
  "'y dependency_graph \<Rightarrow> string set \<Rightarrow> dfs_state \<Rightarrow> string list \<Rightarrow> (string list option \<times> dfs_state) option \<Rightarrow> bool" where
  "dfs_post g ds st fs r \<longleftrightarrow>
     (\<exists>c st'. r = Some (Some c, st') \<and> is_cycle g c) \<or>
     (\<exists>st' fs'. r = Some (None, st') \<and> dfs_inv g st' (fs @ fs') \<and> snd (snd st') = snd (snd st) \<and>
        set (fst st) \<subseteq> set (fst st') \<and> ds \<subseteq> set (fs @ fs'))"

lemma deps_of_all_names: "set (deps_of g n) \<subseteq> set (all_names g)"
proof (cases "hm_get (graph_nodes g) n")
  case (Some pkg)
  then have "(n, pkg) \<in> set (graph_nodes g)" by (rule map_of_SomeD)
  then show ?thesis using Some by (auto simp: deps_of_def all_names_def)
qed (simp add: deps_of_def)

lemma dfs_inv_push:
  assumes "dfs_inv g (visited, rec_stack, path) fs" and "n \<notin> set visited"
    and "path = [] \<or> dep_edge g (last path) n"
  shows "dfs_inv g (List.insert n visited, List.insert n rec_stack, path @ [n]) fs"
  using assms by (auto simp: dfs_inv_def successively_append_iff)

lemma dfs_inv_pop:
  assumes "dfs_inv g (visited, rec_stack, path @ [n]) fs" and "set (deps_of g n) \<subseteq> set fs"
  shows "dfs_inv g (visited, removeAll n rec_stack, path) (fs @ [n])"
  using assms by (auto simp: dfs_inv_def successively_append_iff finished_snoc)

lemma dfs_post_extend:
  assumes "dfs_post g ds (v, rs, path) (fs @ fs') r" and "set visited \<subseteq> set v" and "dep \<in> set (fs @ fs')"
  shows "dfs_post g (insert dep ds) (visited, rs', path) fs r"
proof -
  from assms(1) consider c st' where "r = Some (Some c, st')" "is_cycle g c"
    | st' fs'' where "r = Some (None, st')" "dfs_inv g st' (fs @ fs' @ fs'')" "snd (snd st') = path"
        "set v \<subseteq> set (fst st')" "ds \<subseteq> set (fs @ fs' @ fs'')"
    by (fastforce simp: dfs_post_def)
  then show ?thesis
  proof cases
    case 1
    then show ?thesis unfolding dfs_post_def by blast
  next
    case 2
    then show ?thesis
      using assms(2,3) unfolding dfs_post_def by (intro disjI2 exI [of _ st'] exI [of _ "fs' @ fs''"]) auto
  qed
qed

lemma dfs_correct:
  "\<lbrakk>dfs_inv g st fs; n \<notin> set (fst st); n \<in> set (all_names g);
    card (set (all_names g) - set (fst st)) \<le> fuel; snd (snd st) = [] \<or> dep_edge g (last (snd (snd st))) n\<rbrakk>
   \<Longrightarrow> dfs_post g {n} st fs (find_cycle_dfs fuel g n st)"
  "\<lbrakk>dfs_inv g st fs; snd (snd st) \<noteq> []; set ds \<subseteq> set (deps_of g (last (snd (snd st))));
    card (set (all_names g) - set (fst st)) \<le> fuel\<rbrakk>
   \<Longrightarrow> dfs_post g (set ds) st fs (find_cycle_deps fuel g ds st)"
proof (induction fuel g n st and fuel g ds st arbitrary: fs and fs rule: find_cycle_dfs_find_cycle_deps.induct)
  case (1 g node st)
  then have "set (all_names g) - set (fst st) = {}" by simp
  with 1 show ?case by auto
next
  case (2 fuel g node visited rec_stack path)
  let ?st = "(List.insert node visited, List.insert node rec_stack, path @ [node])"
  let ?r = "find_cycle_deps fuel g (deps_of g node) ?st"
  have "set (all_names g) - set (List.insert node visited) = (set (all_names g) - set visited) - {node}" by auto
  then have "card (set (all_names g) - set (List.insert node visited)) \<le> fuel"
    using 2(3,4,5) card_Diff_singleton [of node "set (all_names g) - set visited"] by simp
  then have post: "dfs_post g (set (deps_of g node)) ?st fs ?r"
    using 2(1) [OF refl refl refl refl, of fs] 2(2,3,6) dfs_inv_push [of g visited rec_stack path fs node]
    unfolding deps_of_def [symmetric] by simp
  have unf: "find_cycle_dfs (Suc fuel) g node (visited, rec_stack, path) =
      (case ?r of None \<Rightarrow> None | Some (Some cycle, st) \<Rightarrow> Some (Some cycle, st)
       | Some (None, (v, rs, p)) \<Rightarrow> Some (None, (v, removeAll node rs, butlast p)))"
    by (simp add: deps_of_def Let_def)
  show ?case
  proof (cases "\<exists>c st'. ?r = Some (Some c, st') \<and> is_cycle g c")
    case True
    then show ?thesis unfolding unf by (auto simp: dfs_post_def)
  next
    case False
    with post obtain v rs fs' where r: "?r = Some (None, (v, rs, path @ [node]))"
        "dfs_inv g (v, rs, path @ [node]) (fs @ fs')" "set (List.insert node visited) \<subseteq> set v"
        "set (deps_of g node) \<subseteq> set (fs @ fs')"
      by (auto simp: dfs_post_def)
    from dfs_inv_pop [OF r(2,4)] r(1,3) show ?thesis
      unfolding unf dfs_post_def by (intro disjI2 exI [of _ "(v, removeAll node rs, path)"] exI [of _ "fs' @ [node]"]) auto
  qed
next
  case (3 fuel g st)
  then show ?case by (force simp: dfs_post_def intro: exI [of _ "[]"])
next
  case (4 fuel g dep deps visited rec_stack path)
  consider (new) "dep \<notin> set visited" | (on_stack) "dep \<in> set visited" "dep \<in> set rec_stack"
    | (closed) "dep \<in> set visited" "dep \<notin> set rec_stack" by blast
  then show ?case
  proof cases
    case new
    let ?r = "find_cycle_dfs fuel g dep (visited, rec_stack, path)"
    have post: "dfs_post g {dep} (visited, rec_stack, path) fs ?r"
      using 4(1) [OF new, of fs] 4(4-7) new deps_of_all_names [of g "last path"] by auto
    show ?thesis
    proof (cases "\<exists>c st'. ?r = Some (Some c, st') \<and> is_cycle g c")
      case True
      then show ?thesis using new by (auto simp: dfs_post_def)
    next
      case False
      with post obtain v rs fs' where r: "?r = Some (None, (v, rs, path))"
          "dfs_inv g (v, rs, path) (fs @ fs')" "set visited \<subseteq> set v" "dep \<in> set (fs @ fs')"
        by (auto simp: dfs_post_def)
      have "card (set (all_names g) - set v) \<le> card (set (all_names g) - set visited)"
        using r(3) by (intro card_mono) auto
      then have "dfs_post g (set deps) (v, rs, path) (fs @ fs') (find_cycle_deps fuel g deps (v, rs, path))"
        using 4(2) [OF new r(1) refl refl, of "fs @ fs'"] r(2) 4(5-7) by simp
      from dfs_post_extend [OF this r(3,4), of rec_stack] r(1) new show ?thesis by simp
    qed
  next
    case on_stack
    then obtain i where i: "position (\<lambda>n. n = dep) path = Some i"
      using 4(4) position_ex [of dep path "\<lambda>n. n = dep"] by (auto simp: dfs_inv_def)
    have "is_cycle g (drop i path @ [dep])"
      using 4(4-6) by (intro cycle_found [OF _ _ _ i]) (simp_all add: dfs_inv_def)
    then show ?thesis using on_stack i by (simp add: dfs_post_def)
  next
    case closed
    then have "dep \<in> set fs" using 4(4) by (auto simp: dfs_inv_def)
    moreover have "dfs_post g (set deps) (visited, rec_stack, path) fs (find_cycle_deps fuel g deps (visited, rec_stack, path))"
      using closed 4(3) [of fs] 4(4-7) by simp
    ultimately show ?thesis
      using dfs_post_extend [of g "set deps" visited rec_stack path fs "[]" _ visited dep rec_stack] closed by simp
  qed
qed

lemma find_cycle_from_correct:
  "\<lbrakk>dfs_inv g st fs; snd (snd st) = []; set names \<subseteq> set (all_names g);
    card (set (all_names g) - set (fst st)) \<le> fuel\<rbrakk>
   \<Longrightarrow> \<exists>c. find_cycle_from fuel g names st = Some c \<and>
     (is_cycle g c \<or> c = [] \<and> (\<exists>fs'. finished g fs' \<and> set fs \<union> set names \<subseteq> set fs'))"
proof (induction names arbitrary: st fs)
  case Nil
  then show ?case by (cases st) (auto simp: dfs_inv_def)
next
  case (Cons n names)
  show ?case
  proof (cases "n \<in> set (fst st)")
    case True
    then have "n \<in> set fs" using Cons.prems(1,2) by (cases st) (auto simp: dfs_inv_def)
    with True Cons.IH [of st fs] Cons.prems show ?thesis by fastforce
  next
    case False
    have "dfs_post g {n} st fs (find_cycle_dfs fuel g n st)"
      using dfs_correct(1) [OF Cons.prems(1) False] Cons.prems by simp
    then consider c st' where "find_cycle_dfs fuel g n st = Some (Some c, st')" "is_cycle g c"
      | st' fs' where "find_cycle_dfs fuel g n st = Some (None, st')" "dfs_inv g st' (fs @ fs')"
          "snd (snd st') = []" "set (fst st) \<subseteq> set (fst st')" "n \<in> set (fs @ fs')"
      using Cons.prems(2) by (fastforce simp: dfs_post_def)
    then show ?thesis
    proof cases
      case 1
      then show ?thesis using False by simp
    next
      case 2
      have "card (set (all_names g) - set (fst st')) \<le> card (set (all_names g) - set (fst st))"
        using 2(4) by (intro card_mono) auto
      with Cons.IH [OF 2(2,3)] Cons.prems False 2(1,5) show ?thesis by fastforce
    qed
  qed
qed

lemma find_cycle_correct:
  assumes "iteration_order ord"
  shows "\<exists>c. find_cycle ord g = Some c \<and>
    (is_cycle g c \<or> c = [] \<and> (\<exists>fs. finished g fs \<and> names_of g \<subseteq> set fs))"
proof -
  have names: "set (package_names ord g) = names_of g"
    using iteration_order_set [OF assms, of "graph_nodes g"] by (simp add: package_names_def names_of_def)
  have "names_of g \<subseteq> set (all_names g)" by (auto simp: names_of_def all_names_def)
  moreover have "dfs_inv g ([], [], []) []" by (simp add: dfs_inv_def finished_def)
  ultimately show ?thesis
    using find_cycle_from_correct [of g "([], [], [])" "[]" "package_names ord g" "length (all_names g)"]
    by (simp add: find_cycle_def names card_length)
qed

section \<open>Correctness of the installation order\<close>

lemma stuck_not_finished:
  assumes "kahn_inv g [] deg res" and "finished g fs" and "names_of g \<subseteq> set fs"
  shows "names_of g \<subseteq> set res"
proof -
  have "fs ! i \<in> names_of g \<longrightarrow> fs ! i \<in> set res" if "i < length fs" for i
    using that
  proof (induction i rule: less_induct)
    case (less i)
    have "d \<in> set res" if "d \<in> set (deps_of g (fs ! i))" "d \<in> names_of g" for d
    proof -
      have "d \<in> set (take i fs)" using assms(2) less.prems that(1) by (auto simp: finished_def)
      then obtain j where "j < i" "j < length fs" "fs ! j = d" by (auto simp: in_set_conv_nth)
      with less.IH [of j] that(2) show ?thesis by simp
    qed
    then show ?case using assms(1) by (auto simp: kahn_inv_def pending_zero_iff)
  qed
  with assms(3) show ?thesis by (metis in_set_conv_nth subsetD subsetI)
qed

lemma successively_decreasing:
  "successively (\<lambda>a b. f b < f a) c \<Longrightarrow> 2 \<le> length c \<Longrightarrow> f (last c) < (f (hd c) :: nat)"
proof (induction c)
  case (Cons a c)
  then show ?case by (cases c; cases "tl c") (auto simp: successively_Cons)
qed simp

lemma deps_first_no_cycle:
  assumes "deps_first g res" and "distinct res" and "set res = names_of g"
  shows "\<not> is_cycle g c"
proof
  assume cyc: "is_cycle g c"
  define idx where "idx x = length (takeWhile (\<lambda>y. y \<noteq> x) res)" for x
  have idx: "idx (res ! i) = i" if "i < length res" for i
  proof -
    have "takeWhile (\<lambda>y. y \<noteq> res ! i) res = take i res"
      by (rule takeWhile_eq_take_P_nth) (use that assms(2) in \<open>auto simp: nth_eq_iff_index_eq\<close>)
    with that show ?thesis by (simp add: idx_def)
  qed
  have "idx b < idx a" if "dep_edge g a b" "b \<in> names_of g" for a b
  proof -
    have "a \<in> set res" using deps_of_names [OF that(1)] assms(3) by simp
    then obtain i where i: "i < length res" "res ! i = a" by (auto simp: in_set_conv_nth)
    then have "b \<in> set (take i res)" using assms(1) that by (auto simp: deps_first_def)
    then obtain j where "j < i" "res ! j = b" by (auto simp: in_set_conv_nth)
    with i idx show ?thesis by auto
  qed
  moreover have "set c \<subseteq> names_of g"
  proof
    fix x assume "x \<in> set c"
    then obtain i where i: "i < length c" "c ! i = x" by (auto simp: in_set_conv_nth)
    have inner: "c ! k \<in> names_of g" if "Suc k < length c" for k
      using cyc that deps_of_names by (auto simp: is_cycle_def successively_conv_nth)
    show "x \<in> names_of g"
    proof (cases "Suc i < length c")
      case False
      then have "i = length c - 1" and "c \<noteq> []" and "2 \<le> length c" using i cyc by (auto simp: is_cycle_def)
      then have "x = c ! 0" using i(2) cyc by (simp add: is_cycle_def last_conv_nth hd_conv_nth)
      with inner [of 0] \<open>2 \<le> length c\<close> show ?thesis by simp
    qed (use inner i in auto)
  qed
  ultimately have "successively (\<lambda>a b. idx b < idx a) c"
    using cyc by (auto simp: is_cycle_def successively_conv_nth subset_iff)
  from successively_decreasing [OF this] cyc show False by (simp add: is_cycle_def)
qed

lemma hm_wf_or_insert [simp]: "hm_wf m \<Longrightarrow> hm_wf (or_insert k v m)"
  by (simp add: or_insert_def split: option.split)

lemma hm_wf_foldl: "(\<And>m x. hm_wf m \<Longrightarrow> hm_wf (f m x)) \<Longrightarrow> hm_wf m \<Longrightarrow> hm_wf (foldl f m xs)"
  by (induction xs arbitrary: m) auto

lemma insert_all_get:
  assumes "hm_wf xs"
  shows "hm_get (foldl (\<lambda>m (k, v). hm_insert k (f v) m) m xs) n =
    (case hm_get xs n of Some v \<Rightarrow> Some (f v) | None \<Rightarrow> hm_get m n)"
  using assms
proof (induction xs arbitrary: m)
  case (Cons x xs)
  obtain k v where x: "x = (k, v)" by (cases x)
  have "hm_get xs k = None" using Cons.prems x by (simp add: map_of_eq_None_iff)
  with Cons x show ?case by (simp add: hm_simps split: option.split)
qed simp

lemma initial_in_degree_wf: "hm_wf (initial_in_degree g)"
  unfolding initial_in_degree_def Let_def
  by (intro hm_wf_foldl) (auto split: prod.split intro: hm_wf_foldl)

lemma initial_in_degree_get:
  assumes "graph_ok g" and "n \<in> names_of g"
  shows "hm_get (initial_in_degree g) n = Some (pending g [] n)"
proof -
  from assms(2) obtain pkg where pkg: "hm_get (graph_nodes g) n = Some pkg"
    unfolding names_of_def hm_get_keys [symmetric] by auto
  have "graph_contains g = (\<lambda>d. d \<in> names_of g)" by (rule ext) (rule graph_contains_iff)
  then show ?thesis
    using assms(1) pkg by (simp add: initial_in_degree_def Let_def graph_ok_def insert_all_get pending_def deps_of_def)
qed

lemma initial_kahn_inv:
  assumes "graph_ok g" and "iteration_order ord"
  shows "kahn_inv g (initial_queue ord g (initial_in_degree g)) (initial_in_degree g) []"
proof -
  let ?deg = "initial_in_degree g"
  have "mset (map fst (ord ?deg)) = mset (map fst ?deg)"
    using assms(2) by (simp add: iteration_order_def)
  then have "distinct (map fst (ord ?deg))" using initial_in_degree_wf by (metis mset_eq_imp_distinct_iff)
  then have "distinct (initial_queue ord g ?deg)"
    by (simp add: initial_queue_def distinct_map_filter)
  moreover have "n \<in> set (initial_queue ord g ?deg) \<longleftrightarrow> n \<in> names_of g \<and> pending g [] n = 0" for n
  proof -
    have "n \<in> set (initial_queue ord g ?deg) \<longleftrightarrow> n \<in> names_of g \<and> (n, 0) \<in> set ?deg"
      by (force simp: initial_queue_def graph_contains_iff iteration_order_set [OF assms(2)])
    also have "\<dots> \<longleftrightarrow> n \<in> names_of g \<and> pending g [] n = 0"
      unfolding hm_get_mem [OF initial_in_degree_wf] using initial_in_degree_get [OF assms(1), of n] by auto
    finally show ?thesis .
  qed
  ultimately show ?thesis
    using initial_in_degree_get [OF assms(1)] by (auto simp: kahn_inv_def deps_first_def)
qed

text \<open>
  C38. The installation order. For packages with different names, whatever the iteration orders of the hash maps, the sort
  returns: either the packages, each once and each after its dependencies, and then the graph has no cycle; or a list
  that is a cycle of the graph.
\<close>

theorem topological_sort_correct:
  assumes "distinct (map man_name ms)" and "iteration_order deg_ord" and "iteration_order ord"
  shows "(\<exists>order. topological_sort deg_ord ord (graph_of ms) = Some (Inr order) \<and> distinct order \<and>
      set order = set (map man_name ms) \<and> deps_first (graph_of ms) order \<and> (\<forall>c. \<not> is_cycle (graph_of ms) c)) \<or>
    (\<exists>c. topological_sort deg_ord ord (graph_of ms) = Some (Inl (CircularDependency c)) \<and> is_cycle (graph_of ms) c)"
proof -
  let ?g = "graph_of ms"
  have ok: "graph_ok ?g" and names: "names_of ?g = set (map man_name ms)" using graph_of_ok [OF assms(1)] by auto
  from kahn_loop_returns [OF ok initial_kahn_inv [OF ok assms(2)]] obtain deg res where
    res: "kahn_loop ?g (initial_queue deg_ord ?g (initial_in_degree ?g)) (initial_in_degree ?g) [] = Some res"
    and inv: "kahn_inv ?g [] deg res" by blast
  have d: "distinct res" "set res \<subseteq> names_of ?g" "deps_first ?g res" using inv by (auto simp: kahn_inv_def)
  have len: "length (graph_nodes ?g) = card (names_of ?g)"
    using ok distinct_card [of "hm_keys (graph_nodes ?g)"] by (simp add: graph_ok_def names_of_def)
  show ?thesis
  proof (cases "length res = length (graph_nodes ?g)")
    case True
    then have "set res = names_of ?g" using d len distinct_card [OF d(1)] by (simp add: card_subset_eq)
    with d names deps_first_no_cycle [OF d(3,1)] res True show ?thesis by (simp add: topological_sort_def Let_def)
  next
    case False
    from find_cycle_correct [OF assms(3), of ?g] obtain c where c: "find_cycle ord ?g = Some c"
        "is_cycle ?g c \<or> (\<exists>fs. finished ?g fs \<and> names_of ?g \<subseteq> set fs)" by blast
    have "\<not> names_of ?g \<subseteq> set res" using False d len distinct_card [OF d(1)] by auto
    with c(2) stuck_not_finished [OF inv] have "is_cycle ?g c" by blast
    with c(1) False res show ?thesis by (simp add: topological_sort_def Let_def)
  qed
qed

definition sample_manifest :: "string \<Rightarrow> string list \<Rightarrow> unit manifest" where
  "sample_manifest name deps =
     \<lparr>man_name = name, man_version = ''1.0.0'', man_title = None, man_description = None, man_author = None,
      man_license = None, man_icon = ''package'', man_color = ''#6366F1'', man_keywords = [], man_category = None,
      man_builtin = None, man_auto_install = True,
      man_dependencies = map (\<lambda>d. \<lparr>dep_name = d, dep_version = ''1.0.0''\<rparr>) deps,
      man_provides = \<lparr>prov_nodetypes = [], prov_mixins = [], prov_workspaces = [], prov_content = [], prov_mcp_servers = []\<rparr>,
      man_workspace_patches = [], man_sync = None\<rparr>"

lemmas graph_eval =
  graph_of_def add_package_def graph_new_def sample_manifest_def hm_push_def topological_sort_def initial_in_degree_def
  initial_queue_def or_insert_def graph_contains_def kahn_loop.simps usize_pred_def Let_def

theorem topological_sort_correct_witness:
  "topological_sort id id (graph_of [sample_manifest ''app'' [''lib''], sample_manifest ''lib'' []]) =
     Some (Inr [''lib'', ''app'']) \<and>
   deps_first (graph_of [sample_manifest ''app'' [''lib''], sample_manifest ''lib'' []]) [''lib'', ''app'']"
proof -
  let ?ms = "[sample_manifest ''app'' [''lib''], sample_manifest ''lib'' []]"
  have "topological_sort id id (graph_of ?ms) = Some (Inr [''lib'', ''app''])" by (simp add: graph_eval)
  moreover have "distinct (map man_name ?ms)" by (simp add: sample_manifest_def)
  ultimately show ?thesis using topological_sort_correct [of ?ms id id] by auto
qed

text \<open>
  A package that is added again under its name keeps the reverse edges of its former dependencies. Here \<open>app\<close>
  first needs \<open>a\<close> and then \<open>b\<close>; the sort places it after \<open>a\<close> but before \<open>b\<close>.
\<close>

theorem readded_package_before_dependency:
  "let g = graph_of [sample_manifest ''app'' [''a''], sample_manifest ''b'' [''x''], sample_manifest ''x'' [],
         sample_manifest ''a'' [], sample_manifest ''app'' [''b'']]
   in topological_sort rev id g = Some (Inr [''a'', ''x'', ''app'', ''b'']) \<and> deps_of g ''app'' = [''b'']"
  by (simp add: graph_eval deps_of_def)

end
