(* ===== verification/Key_Builder.thy ===== *)
theory Key_Builder
  imports Hlc "HOL-Library.Sublist"
begin

text \<open>
  \<open>raisin-rocksdb/src/keys/mod.rs\<close>: the builder of storage keys. A key is a list of bytes; a \<open>&str\<close> is a
  list of characters that stand for its UTF-8 bytes, and the type invariant of \<open>str\<close> is the predicate
  \<open>utf8_valid\<close>. The lemmas describe keys as sequences of separated parts: \<open>build\<close> is \<open>join_parts\<close>, a scan
  prefix selects exactly the keys whose leading parts agree, and the locale \<open>versioned_layout\<close> states what the
  readers of versioned column families need of a layout, once for all of them.
\<close>

section \<open>Strings and bytes\<close>

type_synonym bytes = "u8 list"

definition as_bytes :: "string \<Rightarrow> bytes" where
  "as_bytes s = map of_char s"

definition string_of_bytes :: "bytes \<Rightarrow> string" where
  "string_of_bytes bs = map (\<lambda>b. char_of (unat b)) bs"

definition cont_byte :: "u8 \<Rightarrow> bool" where
  "cont_byte b \<longleftrightarrow> 0x80 \<le> b \<and> b \<le> 0xBF"

fun utf8_valid :: "bytes \<Rightarrow> bool" where
  "utf8_valid [] = True"
| "utf8_valid (b # bs) =
     (if b < 0x80 then utf8_valid bs
      else if 0xC2 \<le> b \<and> b \<le> 0xDF then (case bs of c1 # r \<Rightarrow> cont_byte c1 \<and> utf8_valid r | _ \<Rightarrow> False)
      else if 0xE0 \<le> b \<and> b \<le> 0xEF then
        (case bs of c1 # c2 # r \<Rightarrow>
           cont_byte c1 \<and> (b = 0xE0 \<longrightarrow> 0xA0 \<le> c1) \<and> (b = 0xED \<longrightarrow> c1 \<le> 0x9F) \<and> cont_byte c2 \<and> utf8_valid r
         | _ \<Rightarrow> False)
      else if 0xF0 \<le> b \<and> b \<le> 0xF4 then
        (case bs of c1 # c2 # c3 # r \<Rightarrow>
           cont_byte c1 \<and> (b = 0xF0 \<longrightarrow> 0x90 \<le> c1) \<and> (b = 0xF4 \<longrightarrow> c1 \<le> 0x8F) \<and> cont_byte c2 \<and> cont_byte c3 \<and>
           utf8_valid r
         | _ \<Rightarrow> False)
      else False)"

definition from_utf8 :: "bytes \<Rightarrow> string option" where
  "from_utf8 bs = (if utf8_valid bs then Some (string_of_bytes bs) else None)"

text \<open>
  \<open>String::from_utf8_lossy\<close>: the length of the next character, or of the longest start of one that is cut off by an invalid
  byte; an invalid stretch becomes U+FFFD.
\<close>

definition byte_in :: "bytes \<Rightarrow> nat \<Rightarrow> (u8 \<Rightarrow> bool) \<Rightarrow> bool" where
  "byte_in bs i P \<longleftrightarrow> i < length bs \<and> P (bs ! i)"

definition second_byte :: "u8 \<Rightarrow> u8 \<Rightarrow> bool" where
  "second_byte b c \<longleftrightarrow>
     cont_byte c \<and> (b = 0xE0 \<longrightarrow> 0xA0 \<le> c) \<and> (b = 0xED \<longrightarrow> c \<le> 0x9F) \<and> (b = 0xF0 \<longrightarrow> 0x90 \<le> c) \<and>
     (b = 0xF4 \<longrightarrow> c \<le> 0x8F)"

definition utf8_step :: "u8 \<Rightarrow> bytes \<Rightarrow> nat \<times> bool" where
  "utf8_step b bs =
     (if b < 0x80 then (0, True)
      else if 0xC2 \<le> b \<and> b \<le> 0xDF then (if byte_in bs 0 cont_byte then (1, True) else (0, False))
      else if 0xE0 \<le> b \<and> b \<le> 0xEF then
        (if \<not> byte_in bs 0 (second_byte b) then (0, False)
         else if \<not> byte_in bs 1 cont_byte then (1, False) else (2, True))
      else if 0xF0 \<le> b \<and> b \<le> 0xF4 then
        (if \<not> byte_in bs 0 (second_byte b) then (0, False)
         else if \<not> byte_in bs 1 cont_byte then (1, False)
         else if \<not> byte_in bs 2 cont_byte then (2, False) else (3, True))
      else (0, False))"

fun lossy_bytes :: "bytes \<Rightarrow> bytes" where
  "lossy_bytes [] = []"
| "lossy_bytes (b # bs) =
     (let step = utf8_step b bs
      in (if snd step then b # take (fst step) bs else [0xEF, 0xBF, 0xBD]) @ lossy_bytes (drop (fst step) bs))"

definition from_utf8_lossy :: "bytes \<Rightarrow> string" where
  "from_utf8_lossy bs = string_of_bytes (lossy_bytes bs)"

abbreviation is_str :: "string \<Rightarrow> bool" where
  "is_str s \<equiv> utf8_valid (as_bytes s)"

section \<open>Tombstones and revisions\<close>

abbreviation SEP :: u8 where
  "SEP \<equiv> 0"

definition TOMBSTONE_VALUE :: bytes where
  "TOMBSTONE_VALUE = as_bytes ''T''"

definition is_tombstone_value :: "bytes \<Rightarrow> bool" where
  "is_tombstone_value v \<longleftrightarrow> v = TOMBSTONE_VALUE \<or> v = [0]"

definition encode_descending_revision :: "hlc \<Rightarrow> bytes" where
  "encode_descending_revision h = encode_descending h"

definition decode_descending_revision :: "bytes \<Rightarrow> hlc_error + hlc" where
  "decode_descending_revision bs = decode_descending bs"

datatype key_error = KeyTooShort nat | KeyHlc hlc_error

definition extract_revision_from_key :: "bytes \<Rightarrow> key_error + hlc" where
  "extract_revision_from_key key =
     (if length key < 16 then Inl (KeyTooShort (length key))
      else map_sum KeyHlc id (decode_descending_revision (drop (length key - 16) key)))"

section \<open>The builder\<close>

record key_builder =
  kb_parts :: "bytes list"

definition key_builder_new :: key_builder where
  "key_builder_new = \<lparr>kb_parts = []\<rparr>"

definition push :: "string \<Rightarrow> key_builder \<Rightarrow> key_builder" where
  "push s kb = kb\<lparr>kb_parts := kb_parts kb @ [as_bytes s]\<rparr>"

definition push_bytes :: "bytes \<Rightarrow> key_builder \<Rightarrow> key_builder" where
  "push_bytes bs kb = kb\<lparr>kb_parts := kb_parts kb @ [bs]\<rparr>"

definition push_revision :: "hlc \<Rightarrow> key_builder \<Rightarrow> key_builder" where
  "push_revision h kb = kb\<lparr>kb_parts := kb_parts kb @ [encode_descending h]\<rparr>"

definition build :: "key_builder \<Rightarrow> bytes" where
  "build kb =
     foldl (\<lambda>result (i, part). (if 0 < i then result @ [SEP] else result) @ part) []
       (enumerate 0 (kb_parts kb))"

definition build_prefix :: "key_builder \<Rightarrow> bytes" where
  "build_prefix kb = build kb @ [SEP]"

text \<open>A chain of calls on a new builder.\<close>

definition chain :: "(key_builder \<Rightarrow> key_builder) list \<Rightarrow> key_builder" where
  "chain calls = fold (\<lambda>f kb. f kb) calls key_builder_new"

definition tenant_prefix :: "string \<Rightarrow> bytes" where
  "tenant_prefix tenant_id = build_prefix (chain [push tenant_id])"

definition repo_prefix :: "string \<Rightarrow> string \<Rightarrow> bytes" where
  "repo_prefix tenant_id repo_id = build_prefix (chain [push tenant_id, push repo_id])"

definition branch_prefix :: "string \<Rightarrow> string \<Rightarrow> string \<Rightarrow> bytes" where
  "branch_prefix tenant_id repo_id branch = build_prefix (chain [push tenant_id, push repo_id, push branch])"

definition workspace_prefix :: "string \<Rightarrow> string \<Rightarrow> string \<Rightarrow> string \<Rightarrow> bytes" where
  "workspace_prefix tenant_id repo_id branch workspace =
     build_prefix (chain [push tenant_id, push repo_id, push branch, push workspace])"

section \<open>Strings and their bytes\<close>

lemma unat_of_char_u8 [simp]: "unat (of_char c :: u8) = of_char c"
proof -
  have "unat (of_nat (of_char c) :: u8) = of_char c mod 256" by (simp only: unat_of_nat) simp
  then show ?thesis by (simp only: of_nat_of_char of_char_mod_256)
qed

lemma string_of_as_bytes [simp]: "string_of_bytes (as_bytes s) = s"
  by (induction s) (simp_all add: string_of_bytes_def as_bytes_def)

lemma as_of_string_bytes [simp]: "as_bytes (string_of_bytes bs) = bs"
proof (induction bs)
  case (Cons b bs)
  have "(of_char (char_of (unat b)) :: u8) = b"
    by (simp add: word_unat_eq_iff)
  with Cons show ?case by (simp add: string_of_bytes_def as_bytes_def)
qed (simp add: string_of_bytes_def as_bytes_def)

lemma as_bytes_eq_iff [simp]: "as_bytes s = as_bytes t \<longleftrightarrow> s = t"
  by (metis string_of_as_bytes)

lemma from_utf8_as_bytes [simp]: "is_str s \<Longrightarrow> from_utf8 (as_bytes s) = Some s"
  by (simp add: from_utf8_def)

lemma utf8_step_valid:
  assumes "utf8_valid (b # bs)"
  shows "\<exists>n. utf8_step b bs = (n, True) \<and> utf8_valid (drop n bs)"
proof -
  consider "b < 0x80" | "\<not> b < 0x80" "0xC2 \<le> b \<and> b \<le> 0xDF"
    | "\<not> b < 0x80" "\<not> (0xC2 \<le> b \<and> b \<le> 0xDF)" "0xE0 \<le> b \<and> b \<le> 0xEF"
    | "\<not> b < 0x80" "\<not> (0xC2 \<le> b \<and> b \<le> 0xDF)" "\<not> (0xE0 \<le> b \<and> b \<le> 0xEF)" "0xF0 \<le> b \<and> b \<le> 0xF4"
    using assms unfolding utf8_valid.simps by meson
  then show ?thesis
  proof cases
    case 1
    with assms show ?thesis by (simp add: utf8_step_def)
  next
    case 2
    with assms show ?thesis by (cases bs) (simp_all add: utf8_step_def byte_in_def)
  next
    case 3
    then have "b \<noteq> 0xF0" "b \<noteq> 0xF4" by auto
    then obtain c1 c2 r where "bs = c1 # c2 # r" "second_byte b c1" "cont_byte c2" "utf8_valid r"
      using assms unfolding utf8_valid.simps if_not_P [OF 3(1)] if_not_P [OF 3(2)] if_P [OF 3(3)]
      by (auto simp: second_byte_def split: list.splits)
    then show ?thesis
      unfolding utf8_step_def if_not_P [OF 3(1)] if_not_P [OF 3(2)] if_P [OF 3(3)] by (simp add: byte_in_def)
  next
    case 4
    then have "b \<noteq> 0xE0" "b \<noteq> 0xED" by auto
    then obtain c1 c2 c3 r where "bs = c1 # c2 # c3 # r" "second_byte b c1" "cont_byte c2" "cont_byte c3" "utf8_valid r"
      using assms unfolding utf8_valid.simps if_not_P [OF 4(1)] if_not_P [OF 4(2)] if_not_P [OF 4(3)] if_P [OF 4(4)]
      by (auto simp: second_byte_def split: list.splits)
    then show ?thesis
      unfolding utf8_step_def if_not_P [OF 4(1)] if_not_P [OF 4(2)] if_not_P [OF 4(3)] if_P [OF 4(4)]
      by (simp add: byte_in_def)
  qed
qed

lemma lossy_bytes_valid: "utf8_valid bs \<Longrightarrow> lossy_bytes bs = bs"
proof (induction bs rule: lossy_bytes.induct)
  case (2 b bs)
  from utf8_step_valid [OF "2.prems"] obtain n where "utf8_step b bs = (n, True)" "utf8_valid (drop n bs)" by blast
  with "2.IH" [OF refl] show ?case by (simp add: Let_def)
qed simp

lemma from_utf8_lossy_as_bytes [simp]: "is_str s \<Longrightarrow> from_utf8_lossy (as_bytes s) = s"
  by (simp add: from_utf8_lossy_def lossy_bytes_valid)

definition str_nul_free :: "string \<Rightarrow> bool" where
  "str_nul_free s \<longleftrightarrow> CHR 0x00 \<notin> set s"

lemma nul_notin_as_bytes [simp]: "0 \<in> set (as_bytes s) \<longleftrightarrow> \<not> str_nul_free s"
proof (induction s)
  case (Cons c s)
  have "(of_char c :: nat) = 0 \<longleftrightarrow> c = CHR 0x00"
    using of_char_eq_iff [of c "CHR 0x00", where ?'a = nat] by simp
  then have "(0 :: u8) = of_char c \<longleftrightarrow> CHR 0x00 = c"
    using unsigned_eq_0_iff [of "of_char c :: u8", where ?'a = nat] unfolding unat_of_char_u8 by metis
  with Cons show ?case unfolding as_bytes_def str_nul_free_def by simp
qed (simp add: as_bytes_def str_nul_free_def)

section \<open>Keys as separated parts\<close>

definition terminated :: "bytes list \<Rightarrow> bytes" where
  "terminated ps = concat (map (\<lambda>p. p @ [SEP]) ps)"

definition nul_free :: "bytes list \<Rightarrow> bool" where
  "nul_free ps \<longleftrightarrow> (\<forall>p \<in> set ps. SEP \<notin> set p)"

lemma terminated_simps [simp]:
  "terminated [] = []" "terminated (p # ps) = p @ SEP # terminated ps"
  "terminated (ps @ qs) = terminated ps @ terminated qs"
  by (simp_all add: terminated_def)

lemma nul_free_simps [simp]:
  "nul_free []" "nul_free (p # ps) \<longleftrightarrow> SEP \<notin> set p \<and> nul_free ps"
  "nul_free (ps @ qs) \<longleftrightarrow> nul_free ps \<and> nul_free qs"
  by (auto simp: nul_free_def)

lemma build_enumerate:
  "foldl (\<lambda>result (i, part). (if 0 < i then result @ [SEP] else result) @ part) acc (enumerate (Suc n) ps) =
   acc @ concat (map (\<lambda>p. SEP # p) ps)"
  by (induction ps arbitrary: acc n) simp_all

lemma separators_shift: "concat (map (\<lambda>p. SEP # p) (ps @ [q])) = SEP # terminated ps @ q"
  by (induction ps) simp_all

text \<open>\<open>build\<close> puts a separator after every part but the last.\<close>

lemma build_snoc: "build \<lparr>kb_parts = ps @ [q]\<rparr> = terminated ps @ q"
proof (cases ps)
  case (Cons p ps')
  then show ?thesis
    using separators_shift [of ps' q] by (simp add: build_def build_enumerate del: concat_map_singleton)
qed (simp add: build_def)

lemma kb_parts_calls [simp]:
  "kb_parts (push s kb) = kb_parts kb @ [as_bytes s]"
  "kb_parts (push_bytes bs kb) = kb_parts kb @ [bs]"
  "kb_parts (push_revision h kb) = kb_parts kb @ [encode_descending h]"
  "kb_parts key_builder_new = []"
  by (simp_all add: push_def push_bytes_def push_revision_def key_builder_new_def)

lemma build_parts: "kb_parts kb = ps @ [q] \<Longrightarrow> build kb = terminated ps @ q"
  using build_snoc [of ps q] by (cases kb) simp

lemma build_prefix_parts: "kb_parts kb = ps \<Longrightarrow> ps \<noteq> [] \<Longrightarrow> build_prefix kb = terminated ps"
  by (cases ps rule: rev_cases) (simp_all add: build_prefix_def build_parts)

text \<open>Keys built by a chain of calls.\<close>

lemma chain_parts: "kb_parts (chain (calls @ [c])) = kb_parts (c (chain calls))"
  by (simp add: chain_def)

lemma separated_prefix_iff:
  assumes "SEP \<notin> set p" and "SEP \<notin> set q"
  shows "prefix (p @ SEP # a) (q @ SEP # b) \<longleftrightarrow> p = q \<and> prefix a b"
proof
  assume "prefix (p @ SEP # a) (q @ SEP # b)"
  then obtain zs where "q @ SEP # b = p @ SEP # (a @ zs)" by (auto simp: prefix_def)
  with append_separator_eq_iff [OF assms(2,1)] show "p = q \<and> prefix a b" by (simp add: prefix_def)
qed simp

text \<open>A scan prefix selects the keys whose leading parts are its parts, whatever bytes follow them.\<close>

lemma terminated_prefix_iff:
  assumes "nul_free ps" and "nul_free qs" and "length ps \<le> length qs"
  shows "prefix (terminated ps) (terminated qs @ rest) \<longleftrightarrow> prefix ps qs"
  using assms
proof (induction ps arbitrary: qs)
  case (Cons p ps)
  then obtain q qs' where "qs = q # qs'" by (cases qs) auto
  with Cons show ?case by (simp add: separated_prefix_iff)
qed simp

lemma terminated_eq_iff:
  assumes "nul_free ps" and "nul_free qs" and "length ps = length qs"
  shows "terminated ps @ a = terminated qs @ b \<longleftrightarrow> ps = qs \<and> a = b"
  using assms(3,1,2) by (induction ps qs rule: list_induct2) (simp_all add: append_separator_eq_iff)

lemma append_less_same [simp]: "xs @ us < xs @ vs \<longleftrightarrow> us < (vs :: bytes)"
  by (simp add: append_less_append_iff)

lemma split_on_terminated: "nul_free ps \<Longrightarrow> split_on SEP (terminated ps @ q) = ps @ split_on SEP q"
  by (induction ps) (simp_all add: split_on_append)

section \<open>Versioned layouts\<close>

lemma decode_encode_descending [simp]: "decode_descending (encode_descending h) = Inr h"
  by (simp add: decode_descending_def encode_descending_def)

lemma extract_revision_append [simp]: "extract_revision_from_key (p @ encode_descending r) = Inr r"
  by (simp add: extract_revision_from_key_def decode_descending_revision_def)

text \<open>A key whose trailer is a revision decodes, and the trailer is the encoding of what it decodes to.\<close>

lemma extract_revision_total:
  assumes "16 \<le> length key"
  shows "\<exists>r p. extract_revision_from_key key = Inr r \<and> key = p @ encode_descending r"
proof -
  let ?t = "drop (length key - 16) key"
  have "length ?t = 16" using assms by simp
  then obtain r where "decode_descending ?t = Inr r" by (auto simp: decode_descending_def)
  moreover from encode_decode_descending [OF this]
  have "key = take (length key - 16) key @ encode_descending r" by simp
  ultimately show ?thesis
    using assms by (auto simp: extract_revision_from_key_def decode_descending_revision_def)
qed

lemma encode_descending_less: "encode_descending a < encode_descending b \<longleftrightarrow> b < a"
  by (auto simp: encode_descending_def append_less_append_iff u64_to_be_bytes_less_iff
      NOT_less_iff hlc_less_iff)

lemma encode_descending_le: "encode_descending a \<le> encode_descending b \<longleftrightarrow> b \<le> a"
  using encode_descending_less [of b a] by (metis linorder_not_le)

text \<open>
  What a reader of a versioned column family needs: the records of one subject lie together under its prefix, newest
  first, and each key gives its revision back.
\<close>

locale versioned_layout =
  fixes key :: "'a \<Rightarrow> hlc \<Rightarrow> bytes"
    and scan_prefix :: "'a \<Rightarrow> bytes"
    and parts :: "'a \<Rightarrow> bytes list"
  assumes key_layout: "key a r = scan_prefix a @ encode_descending r"
    and prefix_layout: "scan_prefix a = terminated (parts a)"
    and parts_length: "length (parts a) = length (parts b)"
    and parts_inj: "parts a = parts b \<Longrightarrow> a = b"
begin

lemma scan_exact:
  assumes "nul_free (parts a)" and "nul_free (parts b)"
  shows "prefix (scan_prefix a) (key b r) \<longleftrightarrow> a = b"
proof -
  have "prefix (parts a) (parts b) \<longleftrightarrow> parts a = parts b"
    using parts_length [of a b] by (auto simp: prefix_def)
  then show ?thesis
    using assms terminated_prefix_iff [of "parts a" "parts b" "encode_descending r"] parts_length [of a b] parts_inj
    by (auto simp: key_layout prefix_layout)
qed

lemma newest_first: "key a r < key a s \<longleftrightarrow> s < r"
  by (simp add: key_layout encode_descending_less)

lemma revision_of_key: "extract_revision_from_key (key a r) = Inr r"
  by (simp add: key_layout)

lemma key_injective:
  assumes "nul_free (parts a)" and "nul_free (parts b)"
  shows "key a r = key b s \<longleftrightarrow> a = b \<and> r = s"
  using assms terminated_eq_iff [of "parts a" "parts b"] parts_length [of a b] parts_inj
  by (auto simp: key_layout prefix_layout encode_descending_inj)

lemmas layout_facts = scan_exact newest_first revision_of_key key_injective

end

end
