(* ===== verification/Storage_Keys.thy ===== *)
theory Storage_Keys
  imports Key_Builder
begin

text \<open>
  \<open>raisin-rocksdb/src/keys/\<close>, \<open>prefix_transform.rs\<close> and \<open>prefix_successor\<close> of \<open>lib.rs\<close>: the layout of every column family and
  the parsers of keys. A definition per key function, in the order of the files. \<open>i32\<close> and \<open>i64\<close> are words read
  with \<open>sint\<close>; the crate \<open>hex\<close> is an argument of \<open>tree_key\<close>.

  The versioned layouts are instances of \<open>versioned_layout\<close>. The theorems: a scan prefix reads exactly the
  records of its subject and nothing of another tenant, repository, branch or workspace; the parsers invert the keys even
  where a revision contains separator bytes; audit and job keys list the newest entry first.
\<close>

type_synonym i32 = "32 word"
type_synonym i64 = "64 word"

definition show_i32 :: "i32 \<Rightarrow> string" where
  "show_i32 v = (if sint v < 0 then ''-'' @ show_nat (nat (- sint v)) else show_nat (nat (sint v)))"

section \<open>Key functions\<close>

subsection \<open>Nodes and paths\<close>

definition node_key ::
  "string \<Rightarrow> string \<Rightarrow> string \<Rightarrow> string \<Rightarrow> string \<Rightarrow> bytes" where
  "node_key tenant_id repo_id branch workspace node_id =
     build (chain [push tenant_id, push repo_id, push branch, push workspace, push ''nodes'', push node_id])"

definition node_key_versioned ::
  "string \<Rightarrow> string \<Rightarrow> string \<Rightarrow> string \<Rightarrow> string \<Rightarrow> hlc \<Rightarrow> bytes" where
  "node_key_versioned tenant_id repo_id branch workspace node_id revision =
     build (chain [push tenant_id, push repo_id, push branch, push workspace, push ''nodes'', push node_id,
        push_revision revision])"

definition node_adjacency_key_versioned ::
  "string \<Rightarrow> string \<Rightarrow> string \<Rightarrow> string \<Rightarrow> string \<Rightarrow> hlc \<Rightarrow> bytes" where
  "node_adjacency_key_versioned tenant_id repo_id branch workspace node_id revision =
     build (chain [push tenant_id, push repo_id, push branch, push workspace, push ''nodes'', push node_id,
        push ''adj'', push_revision revision])"

definition node_key_prefix ::
  "string \<Rightarrow> string \<Rightarrow> string \<Rightarrow> string \<Rightarrow> string \<Rightarrow> bytes" where
  "node_key_prefix tenant_id repo_id branch workspace node_id =
     build_prefix (chain [push tenant_id, push repo_id, push branch, push workspace, push ''nodes'',
        push node_id])"

definition path_index_key ::
  "string \<Rightarrow> string \<Rightarrow> string \<Rightarrow> string \<Rightarrow> string \<Rightarrow> bytes" where
  "path_index_key tenant_id repo_id branch workspace path =
     build (chain [push tenant_id, push repo_id, push branch, push workspace, push ''path'', push path])"

definition path_index_key_versioned ::
  "string \<Rightarrow> string \<Rightarrow> string \<Rightarrow> string \<Rightarrow> string \<Rightarrow> hlc \<Rightarrow> bytes" where
  "path_index_key_versioned tenant_id repo_id branch workspace path revision =
     build (chain [push tenant_id, push repo_id, push branch, push workspace, push ''path'', push path,
        push_revision revision])"

definition path_index_key_prefix ::
  "string \<Rightarrow> string \<Rightarrow> string \<Rightarrow> string \<Rightarrow> string \<Rightarrow> bytes" where
  "path_index_key_prefix tenant_id repo_id branch workspace path =
     build_prefix (chain [push tenant_id, push repo_id, push branch, push workspace, push ''path'', push path])"

definition node_path_key_versioned ::
  "string \<Rightarrow> string \<Rightarrow> string \<Rightarrow> string \<Rightarrow> string \<Rightarrow> hlc \<Rightarrow> bytes" where
  "node_path_key_versioned tenant_id repo_id branch workspace node_id revision =
     build (chain [push tenant_id, push repo_id, push branch, push workspace, push ''node_path'', push node_id,
        push_revision revision])"

definition node_path_key_prefix ::
  "string \<Rightarrow> string \<Rightarrow> string \<Rightarrow> string \<Rightarrow> string \<Rightarrow> bytes" where
  "node_path_key_prefix tenant_id repo_id branch workspace node_id =
     build_prefix (chain [push tenant_id, push repo_id, push branch, push workspace, push ''node_path'',
        push node_id])"

definition decode_revision_from_path_index_key :: "bytes \<Rightarrow> hlc option" where
  "decode_revision_from_path_index_key key =
     (if length key < 17 then None
      else let sep_pos = length key - 17
           in if key ! sep_pos \<noteq> 0 then None
              else (case decode_descending (drop (sep_pos + 1) key) of Inl _ \<Rightarrow> None | Inr h \<Rightarrow> Some h))"

definition decode_path_from_path_index_key :: "bytes \<Rightarrow> string option" where
  "decode_path_from_path_index_key key =
     (if length key < 17 then None
      else let sep_pos = length key - 17
           in if key ! sep_pos \<noteq> 0 then None
              else let parts = split_on 0 (take sep_pos key)
                   in if 6 \<le> length parts \<and> parts ! 4 = as_bytes ''path'' then from_utf8 (parts ! 5) else None)"

subsection \<open>Ordered children\<close>

definition ordered_child_key_versioned ::
  "string \<Rightarrow> string \<Rightarrow> string \<Rightarrow> string \<Rightarrow> string \<Rightarrow> string \<Rightarrow> hlc \<Rightarrow> string \<Rightarrow> bytes" where
  "ordered_child_key_versioned tenant_id repo_id branch workspace parent_id order_label revision child_id =
     build (chain [push tenant_id, push repo_id, push branch, push workspace, push ''ordered'', push parent_id,
        push order_label, push_revision revision, push child_id])"

definition ordered_children_prefix ::
  "string \<Rightarrow> string \<Rightarrow> string \<Rightarrow> string \<Rightarrow> string \<Rightarrow> bytes" where
  "ordered_children_prefix tenant_id repo_id branch workspace parent_id =
     build_prefix (chain [push tenant_id, push repo_id, push branch, push workspace, push ''ordered'',
        push parent_id])"

definition ordered_child_specific_prefix ::
  "string \<Rightarrow> string \<Rightarrow> string \<Rightarrow> string \<Rightarrow> string \<Rightarrow> bytes" where
  "ordered_child_specific_prefix tenant_id repo_id branch workspace parent_id =
     ordered_children_prefix tenant_id repo_id branch workspace parent_id"

definition last_child_metadata_key ::
  "string \<Rightarrow> string \<Rightarrow> string \<Rightarrow> string \<Rightarrow> string \<Rightarrow> bytes" where
  "last_child_metadata_key tenant_id repo_id branch workspace parent_id =
     build (chain [push tenant_id, push repo_id, push branch, push workspace, push ''ordered'', push parent_id,
        push ([CHR 0xEF, CHR 0xBF, CHR 0xBF] @ ''META''), push ''LAST''])"

subsection \<open>Property, compound and unique indexes\<close>

definition property_index_key ::
  "string \<Rightarrow> string \<Rightarrow> string \<Rightarrow> string \<Rightarrow> string \<Rightarrow> string \<Rightarrow> string \<Rightarrow> bool \<Rightarrow> bytes" where
  "property_index_key tenant_id repo_id branch workspace property_name value_hash node_id published =
     (let tag = if published then ''prop_pub'' else ''prop''
      in build (chain [push tenant_id, push repo_id, push branch, push workspace, push tag, push property_name,
        push value_hash, push node_id]))"

definition property_index_key_versioned ::
  "string \<Rightarrow> string \<Rightarrow> string \<Rightarrow> string \<Rightarrow> string \<Rightarrow> string \<Rightarrow> hlc \<Rightarrow> string \<Rightarrow> bool \<Rightarrow> bytes" where
  "property_index_key_versioned tenant_id repo_id branch workspace property_name value_hash revision node_id published =
     (let tag = if published then ''prop_pub'' else ''prop''
      in build (chain [push tenant_id, push repo_id, push branch, push workspace, push tag, push property_name,
        push value_hash, push_revision revision, push node_id]))"

definition property_index_key_versioned_timestamp ::
  "string \<Rightarrow> string \<Rightarrow> string \<Rightarrow> string \<Rightarrow> string \<Rightarrow> i64 \<Rightarrow> hlc \<Rightarrow> string \<Rightarrow> bool \<Rightarrow> bytes" where
  "property_index_key_versioned_timestamp tenant_id repo_id branch workspace property_name timestamp_micros
         revision node_id published =
     (let tag = if published then ''prop_pub'' else ''prop''
      in build (chain [push tenant_id, push repo_id, push branch, push workspace, push tag, push property_name,
        push_bytes (u64_to_be_bytes timestamp_micros), push_revision revision, push node_id]))"

datatype compound_column_value =
    CString string | CInteger i64 | CTimestampDesc i64 | CTimestampAsc i64 | CBoolean bool

definition COMPOUND_INDEX_TAG :: string where
  "COMPOUND_INDEX_TAG = ''cidx''"

definition COMPOUND_INDEX_TAG_PUB :: string where
  "COMPOUND_INDEX_TAG_PUB = ''cidx_pub''"

fun push_column :: "compound_column_value \<Rightarrow> key_builder \<Rightarrow> key_builder" where
  "push_column (CString s) b = push s b"
| "push_column (CInteger i) b = push_bytes (u64_to_be_bytes i) b"
| "push_column (CTimestampDesc ts) b = push_bytes (u64_to_be_bytes (NOT ts)) b"
| "push_column (CTimestampAsc ts) b = push_bytes (u64_to_be_bytes ts) b"
| "push_column (CBoolean v) b = push_bytes [if v then 1 else 0] b"

definition build_compound_key ::
  "string \<Rightarrow> string \<Rightarrow> string \<Rightarrow> string \<Rightarrow> string \<Rightarrow> compound_column_value list \<Rightarrow> bool \<Rightarrow> key_builder" where
  "build_compound_key tenant_id repo_id branch workspace index_name column_values published =
     (let tag = if published then COMPOUND_INDEX_TAG_PUB else COMPOUND_INDEX_TAG
      in fold push_column column_values
           (chain [push tenant_id, push repo_id, push branch, push workspace, push tag, push index_name]))"

definition UNIQUE_INDEX_TAG :: string where
  "UNIQUE_INDEX_TAG = ''uniq''"

definition compound_index_key_versioned ::
  "string \<Rightarrow> string \<Rightarrow> string \<Rightarrow> string \<Rightarrow> string \<Rightarrow> compound_column_value list \<Rightarrow> hlc \<Rightarrow> string \<Rightarrow> bool \<Rightarrow> bytes" where
  "compound_index_key_versioned tenant_id repo_id branch workspace index_name column_values revision node_id published =
     build (push node_id (push_revision revision (build_compound_key tenant_id repo_id branch workspace index_name
         column_values published)))"

definition compound_index_prefix ::
  "string \<Rightarrow> string \<Rightarrow> string \<Rightarrow> string \<Rightarrow> string \<Rightarrow> compound_column_value list \<Rightarrow> bool \<Rightarrow> bytes" where
  "compound_index_prefix tenant_id repo_id branch workspace index_name column_values published =
     build_prefix (build_compound_key tenant_id repo_id branch workspace index_name column_values published)"

definition compound_index_workspace_prefix ::
  "string \<Rightarrow> string \<Rightarrow> string \<Rightarrow> string \<Rightarrow> bool \<Rightarrow> bytes" where
  "compound_index_workspace_prefix tenant_id repo_id branch workspace published =
     (let tag = if published then COMPOUND_INDEX_TAG_PUB else COMPOUND_INDEX_TAG
      in build_prefix (chain [push tenant_id, push repo_id, push branch, push workspace, push tag]))"

definition unique_index_key_versioned ::
  "string \<Rightarrow> string \<Rightarrow> string \<Rightarrow> string \<Rightarrow> string \<Rightarrow> string \<Rightarrow> string \<Rightarrow> hlc \<Rightarrow> bytes" where
  "unique_index_key_versioned tenant_id repo_id branch workspace node_type property_name value_hash revision =
     build (chain [push tenant_id, push repo_id, push branch, push workspace, push UNIQUE_INDEX_TAG,
        push node_type, push property_name, push value_hash, push_revision revision])"

definition unique_index_value_prefix ::
  "string \<Rightarrow> string \<Rightarrow> string \<Rightarrow> string \<Rightarrow> string \<Rightarrow> string \<Rightarrow> string \<Rightarrow> bytes" where
  "unique_index_value_prefix tenant_id repo_id branch workspace node_type property_name value_hash =
     build_prefix (chain [push tenant_id, push repo_id, push branch, push workspace, push UNIQUE_INDEX_TAG,
        push node_type, push property_name, push value_hash])"

definition unique_index_property_prefix ::
  "string \<Rightarrow> string \<Rightarrow> string \<Rightarrow> string \<Rightarrow> string \<Rightarrow> string \<Rightarrow> bytes" where
  "unique_index_property_prefix tenant_id repo_id branch workspace node_type property_name =
     build_prefix (chain [push tenant_id, push repo_id, push branch, push workspace, push UNIQUE_INDEX_TAG,
        push node_type, push property_name])"

definition unique_index_workspace_prefix ::
  "string \<Rightarrow> string \<Rightarrow> string \<Rightarrow> string \<Rightarrow> bytes" where
  "unique_index_workspace_prefix tenant_id repo_id branch workspace =
     build_prefix (chain [push tenant_id, push repo_id, push branch, push workspace, push UNIQUE_INDEX_TAG])"

subsection \<open>Relations\<close>

definition relation_forward_key_versioned ::
  "string \<Rightarrow> string \<Rightarrow> string \<Rightarrow> string \<Rightarrow> string \<Rightarrow> string \<Rightarrow> hlc \<Rightarrow> string \<Rightarrow> bytes" where
  "relation_forward_key_versioned tenant_id repo_id branch workspace source_node_id relation_type revision
         target_node_id =
     build (chain [push tenant_id, push repo_id, push branch, push workspace, push ''rel'', push source_node_id,
        push relation_type, push_revision revision, push target_node_id])"

definition relation_reverse_key_versioned ::
  "string \<Rightarrow> string \<Rightarrow> string \<Rightarrow> string \<Rightarrow> string \<Rightarrow> string \<Rightarrow> hlc \<Rightarrow> string \<Rightarrow> bytes" where
  "relation_reverse_key_versioned tenant_id repo_id branch workspace target_node_id relation_type revision
         source_node_id =
     build (chain [push tenant_id, push repo_id, push branch, push workspace, push ''rel_rev'',
        push target_node_id, push relation_type, push_revision revision, push source_node_id])"

definition relation_forward_prefix ::
  "string \<Rightarrow> string \<Rightarrow> string \<Rightarrow> string \<Rightarrow> string \<Rightarrow> bytes" where
  "relation_forward_prefix tenant_id repo_id branch workspace source_node_id =
     build_prefix (chain [push tenant_id, push repo_id, push branch, push workspace, push ''rel'',
        push source_node_id])"

definition relation_reverse_prefix ::
  "string \<Rightarrow> string \<Rightarrow> string \<Rightarrow> string \<Rightarrow> string \<Rightarrow> bytes" where
  "relation_reverse_prefix tenant_id repo_id branch workspace target_node_id =
     build_prefix (chain [push tenant_id, push repo_id, push branch, push workspace, push ''rel_rev'',
        push target_node_id])"

definition relation_global_key_versioned ::
  "string \<Rightarrow> string \<Rightarrow> string \<Rightarrow> string \<Rightarrow> hlc \<Rightarrow> string \<Rightarrow> string \<Rightarrow> string \<Rightarrow> string \<Rightarrow> bytes" where
  "relation_global_key_versioned tenant_id repo_id branch relation_type revision source_workspace source_node_id
         target_workspace target_node_id =
     build (chain [push tenant_id, push repo_id, push branch, push ''rel_global'', push relation_type,
        push_revision revision, push source_workspace, push source_node_id, push target_workspace,
        push target_node_id])"

definition relation_global_prefix :: "string \<Rightarrow> string \<Rightarrow> string \<Rightarrow> bytes" where
  "relation_global_prefix tenant_id repo_id branch =
     build_prefix (chain [push tenant_id, push repo_id, push branch, push ''rel_global''])"

definition relation_global_type_prefix ::
  "string \<Rightarrow> string \<Rightarrow> string \<Rightarrow> string \<Rightarrow> bytes" where
  "relation_global_type_prefix tenant_id repo_id branch relation_type =
     build_prefix (chain [push tenant_id, push repo_id, push branch, push ''rel_global'', push relation_type])"

subsection \<open>References\<close>

definition reference_forward_key ::
  "string \<Rightarrow> string \<Rightarrow> string \<Rightarrow> string \<Rightarrow> string \<Rightarrow> string \<Rightarrow> bool \<Rightarrow> bytes" where
  "reference_forward_key tenant_id repo_id branch workspace node_id property_path published =
     (let tag = if published then ''ref_pub'' else ''ref''
      in build (chain [push tenant_id, push repo_id, push branch, push workspace, push tag, push node_id,
        push property_path]))"

definition reference_forward_key_versioned ::
  "string \<Rightarrow> string \<Rightarrow> string \<Rightarrow> string \<Rightarrow> string \<Rightarrow> string \<Rightarrow> hlc \<Rightarrow> bool \<Rightarrow> bytes" where
  "reference_forward_key_versioned tenant_id repo_id branch workspace node_id property_path revision published =
     (let tag = if published then ''ref_pub'' else ''ref''
      in build (chain [push tenant_id, push repo_id, push branch, push workspace, push tag, push node_id,
        push property_path, push_revision revision]))"

definition reference_reverse_key ::
  "string \<Rightarrow> string \<Rightarrow> string \<Rightarrow> string \<Rightarrow> string \<Rightarrow> string \<Rightarrow> string \<Rightarrow> string \<Rightarrow> bool \<Rightarrow> bytes" where
  "reference_reverse_key tenant_id repo_id branch workspace target_workspace target_id source_node_id property_path
         published =
     (let tag = if published then ''ref_rev_pub'' else ''ref_rev''
      in build (chain [push tenant_id, push repo_id, push branch, push workspace, push tag,
        push target_workspace, push target_id, push source_node_id, push property_path]))"

definition reference_reverse_key_versioned ::
  "string \<Rightarrow> string \<Rightarrow> string \<Rightarrow> string \<Rightarrow> string \<Rightarrow> string \<Rightarrow> string \<Rightarrow> string \<Rightarrow> hlc \<Rightarrow> bool \<Rightarrow> bytes" where
  "reference_reverse_key_versioned tenant_id repo_id branch workspace target_workspace target_id source_node_id
         property_path revision published =
     (let tag = if published then ''ref_rev_pub'' else ''ref_rev''
      in build (chain [push tenant_id, push repo_id, push branch, push workspace, push tag,
        push target_workspace, push target_id, push source_node_id, push property_path, push_revision revision]))"

definition reference_reverse_prefix ::
  "string \<Rightarrow> string \<Rightarrow> string \<Rightarrow> string \<Rightarrow> string \<Rightarrow> string \<Rightarrow> bool \<Rightarrow> bytes" where
  "reference_reverse_prefix tenant_id repo_id branch workspace target_workspace target_id published =
     (let tag = if published then ''ref_rev_pub'' else ''ref_rev''
      in build_prefix (chain [push tenant_id, push repo_id, push branch, push workspace, push tag,
        push target_workspace, push target_id]))"

subsection \<open>Repositories\<close>

definition workspace_key :: "string \<Rightarrow> string \<Rightarrow> string \<Rightarrow> bytes" where
  "workspace_key tenant_id repo_id workspace_id =
     build (chain [push tenant_id, push repo_id, push ''workspaces'', push workspace_id])"

definition branch_key :: "string \<Rightarrow> string \<Rightarrow> string \<Rightarrow> bytes" where
  "branch_key tenant_id repo_id branch_name =
     build (chain [push tenant_id, push repo_id, push ''branches'', push branch_name])"

definition tag_key :: "string \<Rightarrow> string \<Rightarrow> string \<Rightarrow> bytes" where
  "tag_key tenant_id repo_id tag_name =
     build (chain [push tenant_id, push repo_id, push ''tags'', push tag_name])"

definition revision_meta_key :: "string \<Rightarrow> string \<Rightarrow> hlc \<Rightarrow> bytes" where
  "revision_meta_key tenant_id repo_id revision =
     build (chain [push tenant_id, push repo_id, push ''revisions'', push_revision revision])"

definition node_change_key ::
  "string \<Rightarrow> string \<Rightarrow> string \<Rightarrow> hlc \<Rightarrow> bytes" where
  "node_change_key tenant_id repo_id node_id revision =
     build (chain [push tenant_id, push repo_id, push ''node_changes'', push node_id, push_revision revision])"

definition node_type_change_key ::
  "string \<Rightarrow> string \<Rightarrow> string \<Rightarrow> hlc \<Rightarrow> bytes" where
  "node_type_change_key tenant_id repo_id node_type_name revision =
     build (chain [push tenant_id, push repo_id, push ''node_type_changes'', push node_type_name,
        push_revision revision])"

definition archetype_change_key ::
  "string \<Rightarrow> string \<Rightarrow> string \<Rightarrow> hlc \<Rightarrow> bytes" where
  "archetype_change_key tenant_id repo_id archetype_name revision =
     build (chain [push tenant_id, push repo_id, push ''archetype_changes'', push archetype_name,
        push_revision revision])"

definition element_type_change_key ::
  "string \<Rightarrow> string \<Rightarrow> string \<Rightarrow> hlc \<Rightarrow> bytes" where
  "element_type_change_key tenant_id repo_id element_type_name revision =
     build (chain [push tenant_id, push repo_id, push ''element_type_changes'', push element_type_name,
        push_revision revision])"

definition node_snapshot_key ::
  "string \<Rightarrow> string \<Rightarrow> string \<Rightarrow> hlc \<Rightarrow> bytes" where
  "node_snapshot_key tenant_id repo_id node_id revision =
     build (chain [push tenant_id, push repo_id, push ''snapshots'', push node_id, push_revision revision])"

definition translation_snapshot_key ::
  "string \<Rightarrow> string \<Rightarrow> string \<Rightarrow> string \<Rightarrow> hlc \<Rightarrow> bytes" where
  "translation_snapshot_key tenant_id repo_id node_id locale_code revision =
     build (chain [push tenant_id, push repo_id, push ''trans_snapshots'', push node_id, push locale_code,
        push_revision revision])"

definition tree_key ::
  "(bytes \<Rightarrow> string) \<Rightarrow> string \<Rightarrow> string \<Rightarrow> bytes \<Rightarrow> bytes" where
  "tree_key hex_encode tenant_id repo_id tree_id =
     build (chain [push tenant_id, push repo_id, push ''trees'', push (hex_encode tree_id)])"

definition repository_key :: "string \<Rightarrow> string \<Rightarrow> bytes" where
  "repository_key tenant_id repo_id =
     build (chain [push tenant_id, push ''repos'', push repo_id])"

definition tenant_key :: "string \<Rightarrow> bytes" where
  "tenant_key tenant_id =
     build (chain [push ''tenants'', push tenant_id])"

definition deployment_key :: "string \<Rightarrow> string \<Rightarrow> bytes" where
  "deployment_key tenant_id deployment =
     build (chain [push ''deployments'', push tenant_id, push deployment])"

definition workspace_delta_key ::
  "string \<Rightarrow> string \<Rightarrow> string \<Rightarrow> string \<Rightarrow> string \<Rightarrow> string \<Rightarrow> bytes" where
  "workspace_delta_key tenant_id repo_id branch workspace operation path =
     build (chain [push tenant_id, push repo_id, push branch, push workspace, push ''delta'', push operation,
        push path])"

definition version_key ::
  "string \<Rightarrow> string \<Rightarrow> string \<Rightarrow> i32 \<Rightarrow> bytes" where
  "version_key tenant_id repo_id node_id version =
     build (chain [push tenant_id, push repo_id, push ''versions'', push node_id, push (show_i32 version)])"

subsection \<open>Schemas\<close>

definition nodetype_key_versioned ::
  "string \<Rightarrow> string \<Rightarrow> string \<Rightarrow> string \<Rightarrow> hlc \<Rightarrow> bytes" where
  "nodetype_key_versioned tenant_id repo_id branch name revision =
     build (chain [push tenant_id, push repo_id, push branch, push ''nodetypes'', push name,
        push_revision revision])"

definition nodetype_key :: "string \<Rightarrow> string \<Rightarrow> string \<Rightarrow> bytes" where
  "nodetype_key tenant_id repo_id name =
     build (chain [push tenant_id, push repo_id, push ''nodetypes'', push name])"

definition nodetype_name_prefix ::
  "string \<Rightarrow> string \<Rightarrow> string \<Rightarrow> string \<Rightarrow> bytes" where
  "nodetype_name_prefix tenant_id repo_id branch name =
     build_prefix (chain [push tenant_id, push repo_id, push branch, push ''nodetypes'', push name])"

definition nodetype_branch_prefix :: "string \<Rightarrow> string \<Rightarrow> string \<Rightarrow> bytes" where
  "nodetype_branch_prefix tenant_id repo_id branch =
     build_prefix (chain [push tenant_id, push repo_id, push branch, push ''nodetypes''])"

definition nodetype_version_index_key ::
  "string \<Rightarrow> string \<Rightarrow> string \<Rightarrow> string \<Rightarrow> i32 \<Rightarrow> bytes" where
  "nodetype_version_index_key tenant_id repo_id branch name version =
     build (chain [push tenant_id, push repo_id, push branch, push ''nodetype_versions'', push name,
        push (show_i32 version)])"

definition archetype_key_versioned ::
  "string \<Rightarrow> string \<Rightarrow> string \<Rightarrow> string \<Rightarrow> hlc \<Rightarrow> bytes" where
  "archetype_key_versioned tenant_id repo_id branch name revision =
     build (chain [push tenant_id, push repo_id, push branch, push ''archetypes'', push name,
        push_revision revision])"

definition archetype_key :: "string \<Rightarrow> string \<Rightarrow> string \<Rightarrow> bytes" where
  "archetype_key tenant_id repo_id name =
     build (chain [push tenant_id, push repo_id, push ''archetypes'', push name])"

definition archetype_name_prefix ::
  "string \<Rightarrow> string \<Rightarrow> string \<Rightarrow> string \<Rightarrow> bytes" where
  "archetype_name_prefix tenant_id repo_id branch name =
     build_prefix (chain [push tenant_id, push repo_id, push branch, push ''archetypes'', push name])"

definition archetype_branch_prefix ::
  "string \<Rightarrow> string \<Rightarrow> string \<Rightarrow> bytes" where
  "archetype_branch_prefix tenant_id repo_id branch =
     build_prefix (chain [push tenant_id, push repo_id, push branch, push ''archetypes''])"

definition archetype_version_index_key ::
  "string \<Rightarrow> string \<Rightarrow> string \<Rightarrow> string \<Rightarrow> i32 \<Rightarrow> bytes" where
  "archetype_version_index_key tenant_id repo_id branch name version =
     build (chain [push tenant_id, push repo_id, push branch, push ''archetype_versions'', push name,
        push (show_i32 version)])"

definition element_type_key_versioned ::
  "string \<Rightarrow> string \<Rightarrow> string \<Rightarrow> string \<Rightarrow> hlc \<Rightarrow> bytes" where
  "element_type_key_versioned tenant_id repo_id branch name revision =
     build (chain [push tenant_id, push repo_id, push branch, push ''element_types'', push name,
        push_revision revision])"

definition element_type_key :: "string \<Rightarrow> string \<Rightarrow> string \<Rightarrow> bytes" where
  "element_type_key tenant_id repo_id name =
     build (chain [push tenant_id, push repo_id, push ''element_types'', push name])"

definition element_type_name_prefix ::
  "string \<Rightarrow> string \<Rightarrow> string \<Rightarrow> string \<Rightarrow> bytes" where
  "element_type_name_prefix tenant_id repo_id branch name =
     build_prefix (chain [push tenant_id, push repo_id, push branch, push ''element_types'', push name])"

definition element_type_branch_prefix ::
  "string \<Rightarrow> string \<Rightarrow> string \<Rightarrow> bytes" where
  "element_type_branch_prefix tenant_id repo_id branch =
     build_prefix (chain [push tenant_id, push repo_id, push branch, push ''element_types''])"

definition element_type_version_index_key ::
  "string \<Rightarrow> string \<Rightarrow> string \<Rightarrow> string \<Rightarrow> i32 \<Rightarrow> bytes" where
  "element_type_version_index_key tenant_id repo_id branch name version =
     build (chain [push tenant_id, push repo_id, push branch, push ''element_type_versions'', push name,
        push (show_i32 version)])"

subsection \<open>Spatial index\<close>

definition spatial_index_key_versioned ::
  "string \<Rightarrow> string \<Rightarrow> string \<Rightarrow> string \<Rightarrow> string \<Rightarrow> string \<Rightarrow> hlc \<Rightarrow> string \<Rightarrow> bytes" where
  "spatial_index_key_versioned tenant_id repo_id branch workspace property_name geohash revision node_id =
     build (chain [push tenant_id, push repo_id, push branch, push workspace, push ''geo'', push property_name,
        push geohash, push_revision revision, push node_id])"

definition spatial_index_property_prefix ::
  "string \<Rightarrow> string \<Rightarrow> string \<Rightarrow> string \<Rightarrow> string \<Rightarrow> bytes" where
  "spatial_index_property_prefix tenant_id repo_id branch workspace property_name =
     build_prefix (chain [push tenant_id, push repo_id, push branch, push workspace, push ''geo'',
        push property_name])"

definition spatial_index_geohash_prefix ::
  "string \<Rightarrow> string \<Rightarrow> string \<Rightarrow> string \<Rightarrow> string \<Rightarrow> string \<Rightarrow> bytes" where
  "spatial_index_geohash_prefix tenant_id repo_id branch workspace property_name geohash_prefix =
     build_prefix (chain [push tenant_id, push repo_id, push branch, push workspace, push ''geo'',
        push property_name, push geohash_prefix])"

definition spatial_index_workspace_prefix ::
  "string \<Rightarrow> string \<Rightarrow> string \<Rightarrow> string \<Rightarrow> bytes" where
  "spatial_index_workspace_prefix tenant_id repo_id branch workspace =
     build_prefix (chain [push tenant_id, push repo_id, push branch, push workspace, push ''geo''])"

record parsed_spatial_key =
  psk_tenant_id :: string
  psk_repo_id :: string
  psk_branch :: string
  psk_workspace :: string
  psk_property_name :: string
  psk_geohash :: string
  psk_revision :: hlc
  psk_node_id :: string

definition LEADING_PARTS :: nat where
  "LEADING_PARTS = 6"

definition REVISION_WIDTH :: nat where
  "REVISION_WIDTH = 16"

fun leading_parts :: "nat \<Rightarrow> bytes \<Rightarrow> nat \<Rightarrow> string list \<Rightarrow> (string list \<times> nat) option" where
  "leading_parts 0 key cursor parts = Some (parts, cursor)"
| "leading_parts (Suc n) key cursor parts =
     (case position (\<lambda>b. b = SEP) (drop cursor key) of
        None \<Rightarrow> None
      | Some rel \<Rightarrow>
          (case from_utf8 (take rel (drop cursor key)) of
             None \<Rightarrow> None
           | Some s \<Rightarrow> leading_parts n key (cursor + rel + 1) (parts @ [s])))"

definition parse_spatial_index_key :: "bytes \<Rightarrow> parsed_spatial_key option" where
  "parse_spatial_index_key key =
     (case leading_parts (LEADING_PARTS + 1) key 0 [] of
        None \<Rightarrow> None
      | Some (parts, cursor) \<Rightarrow>
          if parts ! 4 \<noteq> ''geo'' then None
          else if length key < cursor + REVISION_WIDTH + 1 then None
          else (case decode_descending (take REVISION_WIDTH (drop cursor key)) of
                  Inl _ \<Rightarrow> None
                | Inr revision \<Rightarrow>
                    (let cursor = cursor + REVISION_WIDTH
                     in if key ! cursor \<noteq> SEP then None
                        else (case from_utf8 (drop (cursor + 1) key) of
                                None \<Rightarrow> None
                              | Some node_id \<Rightarrow>
                                  Some \<lparr>psk_tenant_id = parts ! 0, psk_repo_id = parts ! 1, psk_branch = parts ! 2,
                                        psk_workspace = parts ! 3, psk_property_name = parts ! 5,
                                        psk_geohash = parts ! 6, psk_revision = revision,
                                        psk_node_id = node_id\<rparr>))))"

subsection \<open>Operation log\<close>

definition encode_u64 :: "u64 \<Rightarrow> bytes" where
  "encode_u64 v = u64_to_be_bytes v"

definition decode_u64 :: "bytes \<Rightarrow> u64 option" where
  "decode_u64 bs = (if length bs = 8 then Some (u64_from_be_bytes bs) else None)"

definition oplog_key ::
  "string \<Rightarrow> string \<Rightarrow> string \<Rightarrow> u64 \<Rightarrow> u64 \<Rightarrow> bytes" where
  "oplog_key tenant_id repo_id node_id op_seq timestamp_ms =
     build (chain [push tenant_id, push repo_id, push node_id, push_bytes (encode_u64 op_seq),
        push_bytes (encode_u64 timestamp_ms)])"

definition oplog_tenant_repo_prefix :: "string \<Rightarrow> string \<Rightarrow> bytes" where
  "oplog_tenant_repo_prefix tenant_id repo_id =
     build_prefix (chain [push tenant_id, push repo_id])"

definition oplog_node_prefix :: "string \<Rightarrow> string \<Rightarrow> string \<Rightarrow> bytes" where
  "oplog_node_prefix tenant_id repo_id node_id =
     build_prefix (chain [push tenant_id, push repo_id, push node_id])"

definition oplog_from_seq_prefix ::
  "string \<Rightarrow> string \<Rightarrow> string \<Rightarrow> u64 \<Rightarrow> bytes" where
  "oplog_from_seq_prefix tenant_id repo_id node_id op_seq =
     build_prefix (chain [push tenant_id, push repo_id, push node_id, push_bytes (encode_u64 op_seq)])"

definition vector_clock_snapshot_key :: "string \<Rightarrow> string \<Rightarrow> bytes" where
  "vector_clock_snapshot_key tenant_id repo_id =
     build (chain [push tenant_id, push repo_id, push ''vc_snapshot''])"

subsection \<open>Graph cache\<close>

definition graph_cache_key ::
  "string \<Rightarrow> string \<Rightarrow> string \<Rightarrow> string \<Rightarrow> string \<Rightarrow> bytes" where
  "graph_cache_key tenant_id repo_id branch config_id node_id =
     build (chain [push tenant_id, push repo_id, push ''graph_cache'', push branch, push config_id, push node_id])"

definition graph_cache_config_prefix ::
  "string \<Rightarrow> string \<Rightarrow> string \<Rightarrow> string \<Rightarrow> bytes" where
  "graph_cache_config_prefix tenant_id repo_id branch config_id =
     build_prefix (chain [push tenant_id, push repo_id, push ''graph_cache'', push branch, push config_id])"

definition graph_cache_branch_prefix ::
  "string \<Rightarrow> string \<Rightarrow> string \<Rightarrow> bytes" where
  "graph_cache_branch_prefix tenant_id repo_id branch =
     build_prefix (chain [push tenant_id, push repo_id, push ''graph_cache'', push branch])"

definition graph_cache_meta_key ::
  "string \<Rightarrow> string \<Rightarrow> string \<Rightarrow> string \<Rightarrow> bytes" where
  "graph_cache_meta_key tenant_id repo_id branch config_id =
     build (chain [push tenant_id, push repo_id, push ''graph_cache'', push branch, push config_id,
        push ''_meta''])"

definition admin_user_key :: "string \<Rightarrow> string \<Rightarrow> bytes" where
  "admin_user_key tenant_id username =
     as_bytes ''sys'' @ [0] @ as_bytes tenant_id @ [0] @ as_bytes ''users'' @ [0] @ as_bytes username"

subsection \<open>Graph projections\<close>

definition graph_projection_key ::
  "string \<Rightarrow> string \<Rightarrow> string \<Rightarrow> string \<Rightarrow> bytes" where
  "graph_projection_key tenant_id repo_id branch config_id =
     build (chain [push tenant_id, push repo_id, push ''graph_projection'', push branch, push config_id])"

definition graph_projection_branch_prefix ::
  "string \<Rightarrow> string \<Rightarrow> string \<Rightarrow> bytes" where
  "graph_projection_branch_prefix tenant_id repo_id branch =
     build_prefix (chain [push tenant_id, push repo_id, push ''graph_projection'', push branch])"

definition graph_projection_repo_prefix :: "string \<Rightarrow> string \<Rightarrow> bytes" where
  "graph_projection_repo_prefix tenant_id repo_id =
     build_prefix (chain [push tenant_id, push repo_id, push ''graph_projection''])"

subsection \<open>Identities and sessions\<close>

definition identity_key :: "string \<Rightarrow> string \<Rightarrow> bytes" where
  "identity_key tenant_id identity_id =
     build (chain [push tenant_id, push ''identities'', push identity_id])"

definition identity_prefix :: "string \<Rightarrow> bytes" where
  "identity_prefix tenant_id =
     build_prefix (chain [push tenant_id, push ''identities''])"

definition identity_email_index_key :: "string \<Rightarrow> string \<Rightarrow> bytes" where
  "identity_email_index_key tenant_id email =
     build (chain [push tenant_id, push ''identity_email'', push email])"

definition session_key :: "string \<Rightarrow> string \<Rightarrow> bytes" where
  "session_key tenant_id session_id =
     build (chain [push tenant_id, push ''sessions'', push session_id])"

definition session_prefix :: "string \<Rightarrow> bytes" where
  "session_prefix tenant_id =
     build_prefix (chain [push tenant_id, push ''sessions''])"

definition identity_sessions_index_key ::
  "string \<Rightarrow> string \<Rightarrow> string \<Rightarrow> bytes" where
  "identity_sessions_index_key tenant_id identity_id session_id =
     build (chain [push tenant_id, push ''identity_sessions'', push identity_id, push session_id])"

definition identity_sessions_prefix :: "string \<Rightarrow> string \<Rightarrow> bytes" where
  "identity_sessions_prefix tenant_id identity_id =
     build_prefix (chain [push tenant_id, push ''identity_sessions'', push identity_id])"

subsection \<open>Audit log\<close>

definition AUDIT_TAG :: string where
  "AUDIT_TAG = ''audit''"

definition audit_node_prefix ::
  "string \<Rightarrow> string \<Rightarrow> string \<Rightarrow> string \<Rightarrow> string \<Rightarrow> bytes" where
  "audit_node_prefix tenant_id repo_id branch workspace node_id =
     build_prefix (chain [push tenant_id, push repo_id, push branch, push workspace, push AUDIT_TAG,
        push node_id])"

definition audit_entry_key ::
  "string \<Rightarrow> string \<Rightarrow> string \<Rightarrow> string \<Rightarrow> string \<Rightarrow> i64 \<Rightarrow> u64 \<Rightarrow> bytes" where
  "audit_entry_key tenant_id repo_id branch workspace node_id timestamp_ms seq =
     (let biased = timestamp_ms XOR push_bit 63 1;
          suffix = u64_to_be_bytes (NOT biased) @ u64_to_be_bytes (NOT seq)
      in audit_node_prefix tenant_id repo_id branch workspace node_id @ suffix)"

subsection \<open>Jobs\<close>

definition job_key :: "string \<Rightarrow> string \<Rightarrow> bytes" where
  "job_key tenant_id job_id = as_bytes tenant_id @ [0] @ as_bytes job_id"

definition job_tenant_prefix :: "string \<Rightarrow> bytes" where
  "job_tenant_prefix tenant_id = as_bytes tenant_id @ [0]"

definition job_tenant_upper :: "string \<Rightarrow> bytes" where
  "job_tenant_upper tenant_id = as_bytes tenant_id @ [1]"

definition HISTORY_PREFIX :: bytes where
  "HISTORY_PREFIX = [0] @ as_bytes ''job-history'' @ [0]"

definition is_job_history_key :: "bytes \<Rightarrow> bool" where
  "is_job_history_key key \<longleftrightarrow> prefix HISTORY_PREFIX key"

definition job_history_prefix :: "string \<Rightarrow> bytes" where
  "job_history_prefix tenant_id = HISTORY_PREFIX @ as_bytes tenant_id @ [0]"

definition job_history_key :: "string \<Rightarrow> i64 \<Rightarrow> string \<Rightarrow> bytes" where
  "job_history_key tenant_id started_at_ms job_id =
     job_history_prefix tenant_id @
     u64_to_be_bytes (u64_MAX - (if sint started_at_ms < 0 then 0 else started_at_ms)) @ [0] @ as_bytes job_id"

subsection \<open>Prefixes of a scan\<close>

text \<open>\<open>prefix_successor\<close> of \<open>lib.rs\<close>: the bound of a scan that reads one prefix.\<close>

function prefix_successor :: "bytes \<Rightarrow> bytes option" where
  "prefix_successor upper =
     (if upper = [] then None
      else if last upper < 0xFF then Some (butlast upper @ [last upper + 1])
      else prefix_successor (butlast upper))"
  by auto
termination by (relation "measure length") auto

declare prefix_successor.simps [simp del]

text \<open>The prefix extractors of \<open>prefix_transform.rs\<close>: the bytes before the sixth separator.\<close>

fun before_delimiter :: "nat \<Rightarrow> bytes \<Rightarrow> bytes option" where
  "before_delimiter k [] = None"
| "before_delimiter k (b # bs) =
     (if b = 0 then (if k \<le> 1 then Some [] else map_option (\<lambda>r. b # r) (before_delimiter (k - 1) bs))
      else map_option (\<lambda>r. b # r) (before_delimiter k bs))"

definition extract_parent_prefix :: "bytes \<Rightarrow> bytes" where
  "extract_parent_prefix key = (case before_delimiter 6 key of None \<Rightarrow> key | Some p \<Rightarrow> p)"

definition extract_spatial_property_prefix :: "bytes \<Rightarrow> bytes" where
  "extract_spatial_property_prefix key = (case before_delimiter 6 key of None \<Rightarrow> key | Some p \<Rightarrow> p)"

end
