(* ===== verification/Key_Layouts.thy ===== *)
theory Key_Layouts
  imports Storage_Keys
begin

text \<open>
  Correctness of the key layouts of \<open>Storage_Keys\<close>. The versioned column families are instances of the locale
  \<open>versioned_layout\<close>; the parsers of \<open>node_keys.rs\<close> and \<open>spatial_keys.rs\<close> invert the keys; \<open>prefix_successor\<close> bounds a scan.
\<close>

named_theorems key_defs "definitions of key functions"

lemma build_join:
  "build kb = (if kb_parts kb = [] then [] else terminated (butlast (kb_parts kb)) @ last (kb_parts kb))"
proof (cases "kb_parts kb" rule: rev_cases)
  case Nil
  then show ?thesis by (simp add: build_def)
next
  case (snoc ps q)
  then show ?thesis using build_parts [OF snoc] by simp
qed

lemma build_prefix_join: "build_prefix kb = (if kb_parts kb = [] then [SEP] else terminated (kb_parts kb))"
proof (cases "kb_parts kb = []")
  case True
  then show ?thesis by (simp add: build_prefix_def build_def)
qed (simp add: build_prefix_parts)

lemma kb_parts_chain [simp]:
  "kb_parts (chain calls) = kb_parts (fold (\<lambda>f kb. f kb) calls key_builder_new)"
  by (simp add: chain_def)

lemmas builder_simps = build_join build_prefix_join

declare
  node_key_versioned_def [key_defs] node_key_prefix_def [key_defs]
  path_index_key_versioned_def [key_defs] path_index_key_prefix_def [key_defs]
  node_path_key_versioned_def [key_defs] node_path_key_prefix_def [key_defs]
  unique_index_key_versioned_def [key_defs] unique_index_value_prefix_def [key_defs]
  nodetype_key_versioned_def [key_defs] nodetype_name_prefix_def [key_defs]
  archetype_key_versioned_def [key_defs] archetype_name_prefix_def [key_defs]
  element_type_key_versioned_def [key_defs] element_type_name_prefix_def [key_defs]
  tenant_prefix_def [key_defs] repo_prefix_def [key_defs] branch_prefix_def [key_defs] workspace_prefix_def [key_defs]

lemma prefix_map_as_bytes: "prefix (map as_bytes xs) (map as_bytes ys) \<longleftrightarrow> prefix xs ys"
proof (induction xs arbitrary: ys)
  case (Cons x xs)
  then show ?case by (cases ys) simp_all
qed simp

section \<open>Versioned layouts\<close>

abbreviation tagged_parts :: "string \<Rightarrow> string \<times> string \<times> string \<times> string \<times> string \<Rightarrow> bytes list" where
  "tagged_parts tag \<equiv> \<lambda>(t, r, b, w, x). map as_bytes [t, r, b, w, tag, x]"

abbreviation schema_parts :: "string \<Rightarrow> string \<times> string \<times> string \<times> string \<Rightarrow> bytes list" where
  "schema_parts tag \<equiv> \<lambda>(t, r, b, n). map as_bytes [t, r, b, tag, n]"

interpretation nodes_cf: versioned_layout
  "\<lambda>(t, r, b, w, n). node_key_versioned t r b w n" "\<lambda>(t, r, b, w, n). node_key_prefix t r b w n" "tagged_parts ''nodes''"
  by unfold_locales (auto simp: key_defs builder_simps)

interpretation path_index_cf: versioned_layout
  "\<lambda>(t, r, b, w, p). path_index_key_versioned t r b w p" "\<lambda>(t, r, b, w, p). path_index_key_prefix t r b w p"
  "tagged_parts ''path''"
  by unfold_locales (auto simp: key_defs builder_simps)

interpretation node_path_cf: versioned_layout
  "\<lambda>(t, r, b, w, n). node_path_key_versioned t r b w n" "\<lambda>(t, r, b, w, n). node_path_key_prefix t r b w n"
  "tagged_parts ''node_path''"
  by unfold_locales (auto simp: key_defs builder_simps)

interpretation unique_cf: versioned_layout
  "\<lambda>(t, r, b, w, y, p, v). unique_index_key_versioned t r b w y p v"
  "\<lambda>(t, r, b, w, y, p, v). unique_index_value_prefix t r b w y p v"
  "\<lambda>(t, r, b, w, y, p, v). map as_bytes [t, r, b, w, UNIQUE_INDEX_TAG, y, p, v]"
  by unfold_locales (auto simp: key_defs builder_simps)

interpretation nodetype_cf: versioned_layout
  "\<lambda>(t, r, b, n). nodetype_key_versioned t r b n" "\<lambda>(t, r, b, n). nodetype_name_prefix t r b n" "schema_parts ''nodetypes''"
  by unfold_locales (auto simp: key_defs builder_simps)

interpretation archetype_cf: versioned_layout
  "\<lambda>(t, r, b, n). archetype_key_versioned t r b n" "\<lambda>(t, r, b, n). archetype_name_prefix t r b n"
  "schema_parts ''archetypes''"
  by unfold_locales (auto simp: key_defs builder_simps)

interpretation element_type_cf: versioned_layout
  "\<lambda>(t, r, b, n). element_type_key_versioned t r b n" "\<lambda>(t, r, b, n). element_type_name_prefix t r b n"
  "schema_parts ''element_types''"
  by unfold_locales (auto simp: key_defs builder_simps)

lemma tag_nul_free [simp]:
  "str_nul_free ''nodes''" "str_nul_free ''path''" "str_nul_free ''node_path''" "str_nul_free ''geo''" "str_nul_free ''audit''"
  "str_nul_free ''ordered''"
  by (simp_all add: str_nul_free_def)

text \<open>
  The records of a node. For identifiers without a NUL byte: the scan prefix of a node selects exactly the keys of its
  versions, whatever bytes the revisions contain; the keys of one node run from the newest revision to the oldest; a key
  gives its revision back; and two keys are equal only for one node and one revision.
\<close>

theorem node_keys_scan:
  assumes "\<forall>s \<in> {t, r, b, w, n, t', r', b', w', n'}. str_nul_free s"
  shows "(prefix (node_key_prefix t r b w n) (node_key_versioned t' r' b' w' n' h) \<longleftrightarrow> (t, r, b, w, n) = (t', r', b', w', n')) \<and>
    (node_key_versioned t r b w n h < node_key_versioned t r b w n h' \<longleftrightarrow> h' < h) \<and>
    extract_revision_from_key (node_key_versioned t r b w n h) = Inr h \<and>
    (node_key_versioned t r b w n h = node_key_versioned t' r' b' w' n' h' \<longleftrightarrow>
       (t, r, b, w, n, h) = (t', r', b', w', n', h'))"
proof -
  let ?a = "(t, r, b, w, n)" and ?b = "(t', r', b', w', n')"
  have ok: "nul_free (tagged_parts ''nodes'' ?a)" "nul_free (tagged_parts ''nodes'' ?b)" using assms by auto
  show ?thesis
    using nodes_cf.scan_exact [OF ok, of h] nodes_cf.newest_first [of ?a h h'] nodes_cf.revision_of_key [of ?a h]
      nodes_cf.key_injective [OF ok, of h h'] by simp
qed

theorem node_keys_scan_witness:
  "prefix (node_key_prefix ''t'' ''r'' ''main'' ''ws'' ''n'') (node_key_versioned ''t'' ''r'' ''main'' ''ws'' ''n'' (hlc_new u64_MAX 7)) \<and>
   \<not> prefix (node_key_prefix ''t'' ''r'' ''main'' ''ws'' ''n'')
       (node_key_versioned ''t'' ''r'' ''main'' ''ws'' ''n2'' (hlc_new u64_MAX 7)) \<and>
   node_key_versioned ''t'' ''r'' ''main'' ''ws'' ''n'' (hlc_new 2 0) < node_key_versioned ''t'' ''r'' ''main'' ''ws'' ''n'' (hlc_new 1 5)"
proof -
  have "hlc_new 1 5 < hlc_new 2 0" by (simp add: hlc_less_iff)
  then show ?thesis
    using node_keys_scan [of "''t''" "''r''" "''main''" "''ws''" "''n''" "''t''" "''r''" "''main''" "''ws''" "''n''" "hlc_new u64_MAX 7" "hlc_new 1 5"]
      node_keys_scan [of "''t''" "''r''" "''main''" "''ws''" "''n''" "''t''" "''r''" "''main''" "''ws''" "''n2''" "hlc_new u64_MAX 7"]
      node_keys_scan [of "''t''" "''r''" "''main''" "''ws''" "''n''" "''t''" "''r''" "''main''" "''ws''" "''n''" "hlc_new 2 0" "hlc_new 1 5"]
    by (simp add: str_nul_free_def)
qed

text \<open>
  C32. Isolation of scopes. For identifiers without a NUL byte, a key of the column families of nodes lies under the prefix of
  a tenant, repository, branch or workspace exactly when it belongs to it.
\<close>

theorem scope_isolation:
  assumes "\<forall>s \<in> {t, r, b, w, n, t', r', b', w'}. str_nul_free s"
    and "key \<in> {node_key_versioned t r b w n h, path_index_key_versioned t r b w n h, node_path_key_versioned t r b w n h}"
  shows "(prefix (tenant_prefix t') key \<longleftrightarrow> t' = t) \<and> (prefix (repo_prefix t' r') key \<longleftrightarrow> (t', r') = (t, r)) \<and>
    (prefix (branch_prefix t' r' b') key \<longleftrightarrow> (t', r', b') = (t, r, b)) \<and>
    (prefix (workspace_prefix t' r' b' w') key \<longleftrightarrow> (t', r', b', w') = (t, r, b, w))"
proof -
  from assms(2) obtain tag where tag: "str_nul_free tag"
    and key: "key = terminated (tagged_parts tag (t, r, b, w, n)) @ encode_descending h"
    by (auto simp: key_defs builder_simps intro: that [of "''nodes''"] that [of "''path''"] that [of "''node_path''"])
  have scan: "prefix (terminated (map as_bytes ss)) key \<longleftrightarrow> prefix ss [t, r, b, w, tag, n]"
    if "\<forall>s \<in> set ss. str_nul_free s" "length ss \<le> 6" for ss
  proof -
    have "nul_free (map as_bytes ss)" and "nul_free (map as_bytes [t, r, b, w, tag, n])"
      using that(1) tag assms(1) by (simp_all add: nul_free_def)
    with that(2) have "prefix (terminated (map as_bytes ss)) key \<longleftrightarrow> prefix (map as_bytes ss) (map as_bytes [t, r, b, w, tag, n])"
      unfolding key prod.case by (intro terminated_prefix_iff) simp_all
    then show ?thesis unfolding prefix_map_as_bytes .
  qed
  show ?thesis
    using scan [of "[t']"] scan [of "[t', r']"] scan [of "[t', r', b']"] scan [of "[t', r', b', w']"] assms(1)
    by (simp add: key_defs builder_simps)
qed

theorem scope_isolation_witness:
  "prefix (workspace_prefix ''t'' ''r'' ''main'' ''ws'') (path_index_key_versioned ''t'' ''r'' ''main'' ''ws'' ''/a'' (hlc_new 1 0)) \<and>
   \<not> prefix (tenant_prefix ''t1'') (path_index_key_versioned ''t'' ''r'' ''main'' ''ws'' ''/a'' (hlc_new 1 0))"
  using scope_isolation [of "''t''" "''r''" "''main''" "''ws''" "''/a''" "''t''" "''r''" "''main''" "''ws''"
      "path_index_key_versioned ''t'' ''r'' ''main'' ''ws'' ''/a'' (hlc_new 1 0)" "hlc_new 1 0"]
    scope_isolation [of "''t''" "''r''" "''main''" "''ws''" "''/a''" "''t1''" "''r''" "''main''" "''ws''"
      "path_index_key_versioned ''t'' ''r'' ''main'' ''ws'' ''/a'' (hlc_new 1 0)" "hlc_new 1 0"]
  by (simp add: str_nul_free_def)

section \<open>Parsers of keys\<close>

lemma trailer_split:
  "length (p @ SEP # encode_descending h) - 17 = length p"
  "(p @ SEP # encode_descending h) ! length p = SEP"
  "drop (length p + 1) (p @ SEP # encode_descending h) = encode_descending h"
  "take (length p) (p @ SEP # encode_descending h) = p"
  by simp_all

text \<open>
  The key of a path gives its revision and its path back, for every revision, also one whose encoding contains
  separator bytes.
\<close>

theorem path_index_key_decodes:
  assumes "\<forall>s \<in> {t, r, b, w, path}. str_nul_free s" and "is_str path"
  shows "decode_revision_from_path_index_key (path_index_key_versioned t r b w path h) = Some h \<and>
    decode_path_from_path_index_key (path_index_key_versioned t r b w path h) = Some path"
proof -
  let ?p = "terminated (map as_bytes [t, r, b, w, ''path'']) @ as_bytes path"
  have key: "path_index_key_versioned t r b w path h = ?p @ SEP # encode_descending h"
    by (simp add: key_defs builder_simps)
  have "split_on SEP ?p = map as_bytes [t, r, b, w, ''path''] @ [as_bytes path]"
    using assms(1) split_on_terminated [of "map as_bytes [t, r, b, w, ''path'']" "as_bytes path"]
    by (simp add: split_on_notin del: terminated_simps)
  moreover have "\<not> length (?p @ SEP # encode_descending h) < 17" by simp
  ultimately show ?thesis
    using assms(2)
    unfolding key decode_revision_from_path_index_key_def decode_path_from_path_index_key_def trailer_split Let_def
    by (simp del: length_append terminated_simps)
qed

theorem path_index_key_decodes_witness:
  "decode_path_from_path_index_key (path_index_key_versioned ''t1'' ''r1'' ''main'' ''ws1'' ''/joba/t-000'' (hlc_new 0x1FF00FFFF00 u64_MAX)) =
     Some ''/joba/t-000''"
  using path_index_key_decodes [of "''t1''" "''r1''" "''main''" "''ws1''" "''/joba/t-000''" "hlc_new 0x1FF00FFFF00 u64_MAX"]
  by (simp add: str_nul_free_def as_bytes_def)

lemma position_separator: "SEP \<notin> set p \<Longrightarrow> position (\<lambda>b. b = SEP) (p @ SEP # r) = Some (length p)"
  by (induction p) auto

lemma leading_parts_correct:
  assumes "\<forall>s \<in> set ss. str_nul_free s \<and> is_str s"
  shows "leading_parts (length ss) (a @ terminated (map as_bytes ss) @ rest) (length a) parts =
    Some (parts @ ss, length a + length (terminated (map as_bytes ss)))"
  using assms
proof (induction ss arbitrary: a parts)
  case (Cons s ss)
  let ?key = "a @ terminated (map as_bytes (s # ss)) @ rest" and ?a = "a @ as_bytes s @ [SEP]"
  have "position (\<lambda>b. b = SEP) (drop (length a) ?key) = Some (length (as_bytes s))"
    using Cons.prems by (simp add: position_separator)
  moreover have "from_utf8 (take (length (as_bytes s)) (drop (length a) ?key)) = Some s" using Cons.prems by simp
  moreover have "leading_parts (length ss) (?a @ terminated (map as_bytes ss) @ rest) (length ?a) (parts @ [s]) =
      Some ((parts @ [s]) @ ss, length ?a + length (terminated (map as_bytes ss)))"
    using Cons.prems by (intro Cons.IH) simp
  ultimately show ?case by simp
qed simp

text \<open>
  The spatial parser inverts the spatial key: every component comes back, for every revision, also one that contains
  separator bytes.
\<close>

theorem spatial_key_roundtrip:
  assumes "\<forall>s \<in> {t, r, b, w, p, g}. str_nul_free s \<and> is_str s" and "is_str n"
  shows "parse_spatial_index_key (spatial_index_key_versioned t r b w p g h n) =
    Some \<lparr>psk_tenant_id = t, psk_repo_id = r, psk_branch = b, psk_workspace = w, psk_property_name = p, psk_geohash = g,
          psk_revision = h, psk_node_id = n\<rparr>"
proof -
  let ?ss = "[t, r, b, w, ''geo'', p, g]" and ?rest = "encode_descending h @ SEP # as_bytes n"
  let ?lead = "terminated (map as_bytes ?ss)"
  have key: "spatial_index_key_versioned t r b w p g h n = ?lead @ ?rest"
    by (simp add: spatial_index_key_versioned_def builder_simps)
  have "is_str ''geo''" by (simp add: as_bytes_def)
  then have "leading_parts (length ?ss) ([] @ ?lead @ ?rest) (length ([] :: bytes)) [] =
      Some ([] @ ?ss, length ([] :: bytes) + length ?lead)"
    using assms(1) by (intro leading_parts_correct) simp
  then have lead: "leading_parts (LEADING_PARTS + 1) (?lead @ ?rest) 0 [] = Some (?ss, length ?lead)"
    by (simp add: LEADING_PARTS_def numeral_eq_Suc del: terminated_simps leading_parts.simps list.map)
  have "take REVISION_WIDTH (drop (length ?lead) (?lead @ ?rest)) = encode_descending h"
    and "(?lead @ ?rest) ! (length ?lead + REVISION_WIDTH) = SEP"
    and "drop (length ?lead + REVISION_WIDTH + 1) (?lead @ ?rest) = as_bytes n"
    and "\<not> length (?lead @ ?rest) < length ?lead + REVISION_WIDTH + 1"
    by (simp_all add: REVISION_WIDTH_def nth_append del: terminated_simps list.map)
  then show ?thesis
    using assms(2) unfolding key parse_spatial_index_key_def lead Let_def option.case prod.case by simp
qed

theorem spatial_key_roundtrip_witness:
  "map_option psk_geohash (parse_spatial_index_key
     (spatial_index_key_versioned ''t'' ''r'' ''main'' ''ws'' ''loc'' ''u0nc'' (hlc_new u64_MAX 0) ''n1'')) = Some ''u0nc''"
  using spatial_key_roundtrip [of "''t''" "''r''" "''main''" "''ws''" "''loc''" "''u0nc''" "''n1''" "hlc_new u64_MAX 0"]
  by (simp add: str_nul_free_def as_bytes_def)

section \<open>The bound of a scan\<close>

lemma top_byte: "\<not> x < (0xFF :: u8) \<longleftrightarrow> x = 0xFF"
  using unat_u8_le [of x] by (simp add: word_less_nat_alt word_unat_eq_iff)

lemma prefix_imp_le: "prefix p k \<Longrightarrow> p \<le> (k :: bytes)"
proof (induction p arbitrary: k)
  case (Cons a p)
  then show ?case by (cases k) auto
qed simp

lemma between_last_iff:
  assumes "x < (0xFF :: u8)"
  shows "q @ [x] \<le> k \<and> k < q @ [x + 1] \<longleftrightarrow> prefix (q @ [x]) k"
proof (induction q arbitrary: k)
  case Nil
  have "unat x < 255" using assms by (simp add: word_less_nat_alt)
  then have suc: "unat (x + 1) = unat x + 1" by (simp add: unat_word_ariths)
  have le: "y < x + 1 \<longleftrightarrow> y \<le> x" for y :: u8
    unfolding word_less_nat_alt word_le_nat_alt suc by linarith
  show ?case
  proof (cases k)
    case (Cons y ys)
    have "(x < y \<or> x = y) \<and> y \<le> x \<longleftrightarrow> x = y" by (meson less_le_not_le order_refl)
    with Cons show ?thesis by (simp add: le)
  qed simp
next
  case (Cons a q)
  show ?case
  proof (cases k)
    case (Cons y k')
    then show ?thesis using Cons.IH [of k'] by auto
  qed simp
qed

text \<open>
  The bound of a prefix scan. The keys from the prefix up to its successor, or to the end of the column family when it has
  none, are exactly the keys that start with the prefix.
\<close>

lemma prefix_successor_exact:
  "(p \<le> k \<and> (case prefix_successor p of None \<Rightarrow> True | Some upper \<Rightarrow> k < upper)) \<longleftrightarrow> prefix p k"
proof (induction p rule: prefix_successor.induct)
  case (1 p)
  show ?case
  proof (cases p rule: rev_cases)
    case Nil
    then show ?thesis by (simp add: prefix_successor.simps [of "[]"])
  next
    case (snoc q x)
    show ?thesis
    proof (cases "x < 0xFF")
      case True
      with snoc between_last_iff [OF True, of q k] show ?thesis by (simp add: prefix_successor.simps [of "q @ [x]"])
    next
      case False
      then have x: "x = 0xFF" by (simp add: top_byte)
      have ps: "prefix_successor (q @ [x]) = prefix_successor q"
        using False by (subst prefix_successor.simps) simp
      have IH: "(q \<le> k \<and> (case prefix_successor q of None \<Rightarrow> True | Some upper \<Rightarrow> k < upper)) \<longleftrightarrow> prefix q k"
        using "1.IH" snoc x by simp
      have split: "q @ [x] \<le> q @ z \<longleftrightarrow> prefix [x] z" for z
        using append_less_same [of q z "[x]"] x by (cases z) (auto simp: not_less [symmetric] top_byte)
      show ?thesis unfolding ps snoc
      proof
        assume lhs: "q @ [x] \<le> k \<and> (case prefix_successor q of None \<Rightarrow> True | Some upper \<Rightarrow> k < upper)"
        have "q \<le> q @ [x]" by (rule prefix_imp_le) simp
        with lhs IH have "prefix q k" by (meson order_trans)
        then obtain z where "k = q @ z" by (auto simp: prefix_def)
        with lhs split show "prefix (q @ [x]) k" by simp
      next
        assume "prefix (q @ [x]) k"
        moreover from this have "prefix q k" by (rule append_prefixD)
        ultimately show "q @ [x] \<le> k \<and> (case prefix_successor q of None \<Rightarrow> True | Some upper \<Rightarrow> k < upper)"
          using IH prefix_imp_le by blast
      qed
    qed
  qed
qed

section \<open>Entries listed newest first\<close>

lemma xor_cancel: "v XOR m = w XOR m \<longleftrightarrow> v = (w :: u64)"
proof
  assume "v XOR m = w XOR m"
  then have "(v XOR m) XOR m = (w XOR m) XOR m" by (simp only:)
  then show "v = w" by (simp only: xor.assoc xor_self_eq xor.right_neutral)
qed simp

text \<open>
  Audit entries of a node are listed newest first: an entry comes before another exactly when its signed timestamp is later,
  or the timestamps agree and its sequence number is higher. This holds for times before the epoch as well.
\<close>

theorem audit_entries_newest_first:
  "audit_entry_key t r b w n ts sq < audit_entry_key t r b w n ts' sq' \<longleftrightarrow>
     sint ts' < sint ts \<or> (ts = ts' \<and> sq' < sq)"
proof -
  have "NOT (ts XOR push_bit 63 1) < NOT (ts' XOR push_bit 63 1) \<longleftrightarrow> sint ts' < sint ts"
    unfolding NOT_less_iff by (rule flip_sign_bit_less_iff)
  then show ?thesis
    unfolding audit_entry_key_def Let_def append_less_same
    by (simp add: append_less_append_iff u64_to_be_bytes_less_iff NOT_less_iff xor_cancel)
qed

lemma max_minus_less_iff: "u64_MAX - a < u64_MAX - b \<longleftrightarrow> b < (a :: u64)"
  using NOT_less_iff [of a b] by (simp add: not_eq_complement minus_diff_commute)

text \<open>
  The history of jobs lists the latest start first and, for jobs that started together, orders by identifier; a start
  before the epoch counts as the epoch. Keys of another tenant do not lie under the tenant's history prefix.
\<close>

theorem job_history_newest_first:
  "(job_history_key t a i < job_history_key t b j \<longleftrightarrow>
      max 0 (sint b) < max 0 (sint a) \<or> (max 0 (sint a) = max 0 (sint b) \<and> as_bytes i < as_bytes j)) \<and>
   (str_nul_free t \<and> str_nul_free t' \<longrightarrow> (prefix (job_history_prefix t) (job_history_key t' a i) \<longleftrightarrow> t = t'))"
proof -
  define clamp where "clamp x = (if sint x < 0 then 0 else x)" for x :: i64
  have key: "job_history_key t x i = job_history_prefix t @ u64_to_be_bytes (u64_MAX - clamp x) @ 0 # as_bytes i" for t x i
    by (simp add: job_history_key_def clamp_def)
  have clamp: "uint (clamp x) = max 0 (sint x)" for x using sint_nonneg [of x] by (simp add: clamp_def)
  have "clamp x < clamp y \<longleftrightarrow> max 0 (sint x) < max 0 (sint y)" for x y by (simp add: word_less_def clamp)
  moreover have "clamp x = clamp y \<longleftrightarrow> max 0 (sint x) = max 0 (sint y)" for x y by (simp add: word_uint_eq_iff clamp)
  ultimately have "job_history_key t a i < job_history_key t b j \<longleftrightarrow>
      max 0 (sint b) < max 0 (sint a) \<or> (max 0 (sint a) = max 0 (sint b) \<and> as_bytes i < as_bytes j)"
    unfolding key append_less_same
    by (simp add: append_less_append_iff u64_to_be_bytes_less_iff max_minus_less_iff)
  moreover have "prefix (job_history_prefix t) (job_history_key t' a i) \<longleftrightarrow> t = t'"
    if "str_nul_free t" "str_nul_free t'"
    using that by (simp add: job_history_prefix_def job_history_key_def separated_prefix_iff)
  ultimately show ?thesis by blast
qed

theorem job_history_newest_first_witness:
  "job_history_key ''a'' 200 ''newer'' < job_history_key ''a'' 100 ''older'' \<and>
   \<not> prefix (job_history_prefix ''b'') (job_history_key ''a'' 200 ''newer'')"
  using job_history_newest_first [of "''a''" 200 "''newer''" 100 "''older''" "''a''"]
    job_history_newest_first [of "''b''" 200 "''newer''" 100 "''older''" "''a''"]
  by (simp add: str_nul_free_def)

text \<open>
  The timestamp keys of the property index do not follow the order of the timestamps below zero: the key of a time before
  the epoch sorts after the key of every later time, since the bytes are those of the two's complement.
\<close>

theorem negative_timestamps_sort_last:
  assumes "sint early < 0" and "0 \<le> sint late"
  shows "property_index_key_versioned_timestamp t r b w p late h n pub <
    property_index_key_versioned_timestamp t r b w p early h' n' pub"
proof -
  have "late < early"
    using assms sint_nonneg_iff [of early] sint_nonneg_iff [of late] by (simp add: word_less_def)
  then show ?thesis
    by (simp add: property_index_key_versioned_timestamp_def Let_def builder_simps append_less_append_iff u64_to_be_bytes_less_iff)
qed

theorem negative_timestamps_sort_last_witness:
  "property_index_key_versioned_timestamp ''t'' ''r'' ''main'' ''ws'' ''created'' 5 (hlc_new 1 0) ''n'' False <
   property_index_key_versioned_timestamp ''t'' ''r'' ''main'' ''ws'' ''created'' (- 1) (hlc_new 1 0) ''n'' False"
  by (rule negative_timestamps_sort_last) simp_all

end
