(* ===== verification/Ordered_Children.thy ===== *)
theory Ordered_Children
  imports Key_Layouts
begin

text \<open>
  \<open>raisin-rocksdb/src/fractional_index/ops.rs\<close> and \<open>repositories/nodes/ordering/\<close> (\<open>labels.rs\<close>, \<open>key_parse.rs\<close>): the order labels of
  children and the keys that carry them. The crate \<open>fractional_index\<close> is the record \<open>fractional_lib\<close>, an argument of the
  operations; an error of the crate is its printed message. What the code relies on (\<open>append_lib\<close>) is stated of the crate
  as a hypothesis: printing and parsing round-trip, a new index sorts after the old one, no printed index is a prefix of
  another or contains a colon.
\<close>

section \<open>Text\<close>

definition find_in :: "string \<Rightarrow> string \<Rightarrow> nat list \<Rightarrow> nat option" where
  "find_in pat s is = List.find (\<lambda>i. prefix pat (drop i s)) is"

definition str_rfind :: "string \<Rightarrow> string \<Rightarrow> nat option" where
  "str_rfind pat s = find_in pat s (rev [0..<Suc (length s)])"

definition str_contains :: "string \<Rightarrow> string \<Rightarrow> bool" where
  "str_contains pat s \<longleftrightarrow> find_in pat s [0..<Suc (length s)] \<noteq> None"

definition hex_char :: "nat \<Rightarrow> char" where
  "hex_char d = (if d < 10 then char_of (48 + d) else char_of (87 + d))"

fun show_hex :: "nat \<Rightarrow> string" where
  "show_hex n = (if n < 16 then [hex_char n] else show_hex (n div 16) @ [hex_char (n mod 16)])"

declare show_hex.simps [simp del]

text \<open>The format \<open>{:016x}\<close>.\<close>

definition show_hex16 :: "nat \<Rightarrow> string" where
  "show_hex16 n = replicate (16 - length (show_hex n)) CHR ''0'' @ show_hex n"

section \<open>Fractional indexes\<close>

record 'f fractional_lib =
  fi_default :: 'f
  fi_from_string :: "string \<Rightarrow> string + 'f"
  fi_to_string :: "'f \<Rightarrow> string"
  fi_new_after :: "'f \<Rightarrow> 'f"
  fi_new_before :: "'f \<Rightarrow> 'f"
  fi_new_between :: "'f \<Rightarrow> 'f \<Rightarrow> 'f option"

definition WARNING_LENGTH :: nat where
  "WARNING_LENGTH = 48"

definition SEPARATOR :: string where
  "SEPARATOR = ''::''"

definition fi_first :: "'f fractional_lib \<Rightarrow> string" where
  "fi_first lib = fi_to_string lib (fi_default lib)"

definition fi_inc :: "'f fractional_lib \<Rightarrow> string \<Rightarrow> string + string" where
  "fi_inc lib label =
     (case fi_from_string lib label of
        Inl e \<Rightarrow> Inl (''Invalid fractional index: '' @ e)
      | Inr index \<Rightarrow> Inr (fi_to_string lib (fi_new_after lib index)))"

definition fi_prev :: "'f fractional_lib \<Rightarrow> string \<Rightarrow> string + string" where
  "fi_prev lib label =
     (case fi_from_string lib label of
        Inl e \<Rightarrow> Inl (''Invalid fractional index: '' @ e)
      | Inr index \<Rightarrow> Inr (fi_to_string lib (fi_new_before lib index)))"

definition fi_mid :: "'f fractional_lib \<Rightarrow> string \<Rightarrow> string \<Rightarrow> string + string" where
  "fi_mid lib a b =
     (if b \<le> a then Inl ''First label must be less than second label''
      else case fi_from_string lib a of
             Inl e \<Rightarrow> Inl (''Invalid fractional index a: '' @ e)
           | Inr index_a \<Rightarrow>
               (case fi_from_string lib b of
                  Inl e \<Rightarrow> Inl (''Invalid fractional index b: '' @ e)
                | Inr index_b \<Rightarrow>
                    (case fi_new_between lib index_a index_b of
                       None \<Rightarrow> Inl ''Cannot create midpoint between labels''
                     | Some middle \<Rightarrow> Inr (fi_to_string lib middle))))"

fun fi_between :: "'f fractional_lib \<Rightarrow> string option \<Rightarrow> string option \<Rightarrow> string + string" where
  "fi_between lib None None = Inr (fi_first lib)"
| "fi_between lib None (Some after_label) = fi_prev lib after_label"
| "fi_between lib (Some before_label) None = fi_inc lib before_label"
| "fi_between lib (Some before_label) (Some after_label) = fi_mid lib before_label after_label"

definition is_approaching_exhaustion :: "string \<Rightarrow> bool" where
  "is_approaching_exhaustion label \<longleftrightarrow> WARNING_LENGTH \<le> length label"

definition extract_fractional :: "string \<Rightarrow> string" where
  "extract_fractional label = (case str_rfind SEPARATOR label of None \<Rightarrow> label | Some pos \<Rightarrow> take pos label)"

definition format_label :: "string \<Rightarrow> hlc \<Rightarrow> string" where
  "format_label fractional revision = fractional @ SEPARATOR @ show_hex16 (unat (as_u128 revision))"

definition mint_append_label :: "'f fractional_lib \<Rightarrow> string option \<Rightarrow> hlc \<Rightarrow> string" where
  "mint_append_label lib last_label revision =
     (let fractional =
        (case last_label of
           Some l \<Rightarrow> (case fi_inc lib (extract_fractional l) of Inr label \<Rightarrow> label | Inl _ \<Rightarrow> fi_first lib)
         | None \<Rightarrow> fi_first lib)
      in format_label fractional revision)"

definition sorts_after :: "string \<Rightarrow> string \<Rightarrow> bool" where
  "sorts_after label other \<longleftrightarrow>
     extract_fractional other < extract_fractional label \<or>
     (extract_fractional label = extract_fractional other \<and> other < label)"

section \<open>Keys of ordered children\<close>

definition REVISION_LEN :: nat where
  "REVISION_LEN = 16"

record parsed_ordered_key =
  pok_order_label :: string
  pok_revision_bytes :: bytes
  pok_child_id :: string

definition pok_revision :: "parsed_ordered_key \<Rightarrow> hlc option" where
  "pok_revision k = (case decode_descending_revision (pok_revision_bytes k) of Inl _ \<Rightarrow> None | Inr h \<Rightarrow> Some h)"

definition is_metadata_label :: "string \<Rightarrow> bool" where
  "is_metadata_label order_label \<longleftrightarrow>
     list_ex (\<lambda>c. 0x80 \<le> (of_char c :: nat) \<or> c \<in> {CHR ''M'', CHR ''L'', CHR ''F''}) order_label \<and>
     (prefix [CHR 0xEF, CHR 0xBF, CHR 0xBF] order_label \<or> prefix [CHR 0xEF, CHR 0xBF, CHR 0xBD] order_label \<or>
      str_contains ''META'' order_label \<or> str_contains ''LAST'' order_label \<or> str_contains ''FIRST'' order_label)"

definition parse_ordered_child_key :: "bytes \<Rightarrow> bytes \<Rightarrow> parsed_ordered_key option" where
  "parse_ordered_child_key key pre =
     (if \<not> prefix pre key then None
      else let suffix = drop (length pre) key
           in case position (\<lambda>b. b = 0) suffix of
                None \<Rightarrow> None
              | Some label_end \<Rightarrow>
                  (case from_utf8 (take label_end suffix) of
                     None \<Rightarrow> None
                   | Some order_label \<Rightarrow>
                       if is_metadata_label order_label then None
                       else let revision_start = label_end + 1;
                                revision_end = revision_start + REVISION_LEN;
                                child_start = revision_end + 1
                            in if length suffix < child_start then None
                               else (case from_utf8 (drop child_start suffix) of
                                       None \<Rightarrow> None
                                     | Some child_id \<Rightarrow>
                                         Some \<lparr>pok_order_label = order_label,
                                               pok_revision_bytes = take REVISION_LEN (drop revision_start suffix),
                                               pok_child_id = child_id\<rparr>)))"

section \<open>Labels\<close>

lemma find_append: "List.find P (xs @ ys) = (case List.find P xs of None \<Rightarrow> List.find P ys | Some x \<Rightarrow> Some x)"
  by (induction xs) simp_all

lemma find_rev_upt:
  assumes "m < n" and "P m" and "\<And>i. \<lbrakk>m < i; i < n\<rbrakk> \<Longrightarrow> \<not> P i"
  shows "List.find P (rev [0..<n]) = Some m"
proof -
  have "[0..<n] = [0..<m] @ [m] @ [Suc m..<n]" using assms(1) upt_add_eq_append [of 0 m "n - m"] by (simp add: upt_rec)
  moreover have "List.find P (rev [Suc m..<n]) = None" using assms(3) by (auto simp: find_None_iff)
  ultimately show ?thesis using assms(2) by (simp add: find_append)
qed

lemma rfind_separator:
  assumes "CHR '':'' \<notin> set x"
  shows "str_rfind SEPARATOR (f @ SEPARATOR @ x) = Some (length f)"
  unfolding str_rfind_def find_in_def
proof (rule find_rev_upt)
  fix i assume "length f < i"
  then obtain k where i: "i = length f + Suc k" by (metis add_Suc_right less_imp_Suc_add)
  have "\<not> prefix ''::'' (drop k ('':'' @ x))"
  proof (cases k)
    case 0
    then show ?thesis using assms by (cases x) auto
  next
    case (Suc j)
    have "prefix ''::'' (drop j x) \<Longrightarrow> CHR '':'' \<in> set x"
      using set_drop_subset [of j x] by (auto simp: prefix_def)
    with Suc assms show ?thesis by auto
  qed
  then show "\<not> prefix SEPARATOR (drop i (f @ SEPARATOR @ x))" by (simp add: i SEPARATOR_def)
qed (simp_all add: SEPARATOR_def)

lemma hex_char_neq: "d < 16 \<Longrightarrow> hex_char d \<noteq> CHR '':''"
  by (auto simp: hex_char_def dest!: arg_cong [where f = "of_char :: char \<Rightarrow> nat"])

lemma show_hex_chars: "c \<in> set (show_hex n) \<Longrightarrow> \<exists>d < 16. c = hex_char d"
proof (induction n rule: show_hex.induct)
  case (1 n)
  then show ?case by (subst (asm) (2) show_hex.simps) (auto split: if_splits intro: exI [of _ "n mod 16"])
qed

lemma show_hex16_no_colon: "CHR '':'' \<notin> set (show_hex16 n)"
proof -
  have "CHR '':'' \<notin> set (show_hex n)" using show_hex_chars [of "CHR '':''" n] hex_char_neq by metis
  then show ?thesis by (simp add: show_hex16_def)
qed

lemma extract_format [simp]: "extract_fractional (format_label f h) = f"
  unfolding extract_fractional_def format_label_def rfind_separator [OF show_hex16_no_colon] by simp

lemma prefix_free_append_less:
  fixes f g :: "'a::linorder list"
  assumes "\<not> prefix f g" and "\<not> prefix g f"
  shows "f @ x < g @ y \<longleftrightarrow> f < g"
  using assms
proof (induction f arbitrary: g)
  case (Cons a f)
  then obtain b g' where "g = b # g'" by (cases g) auto
  with Cons show ?case by auto
qed simp

subsection \<open>The suffix\<close>

fun hex_digits :: "nat \<Rightarrow> nat list" where
  "hex_digits n = (if n < 16 then [n] else hex_digits (n div 16) @ [n mod 16])"

declare hex_digits.simps [simp del]

definition hex_val :: "nat list \<Rightarrow> nat" where
  "hex_val ds = foldl (\<lambda>acc d. acc * 16 + d) 0 ds"

lemma hex_val_snoc [simp]: "hex_val (ds @ [d]) = hex_val ds * 16 + d" "hex_val [] = 0"
  by (simp_all add: hex_val_def)

lemma hex_val_Cons [simp]: "hex_val (d # ds) = d * 16 ^ length ds + hex_val ds"
proof (induction ds rule: rev_induct)
  case (snoc e ds)
  then show ?case using hex_val_snoc(1) [of "d # ds" e] by (simp add: algebra_simps)
qed (simp add: hex_val_def)

lemma hex_digits_facts: "show_hex n = map hex_char (hex_digits n) \<and> hex_val (hex_digits n) = n \<and> (\<forall>d \<in> set (hex_digits n). d < 16)"
proof (induction n rule: hex_digits.induct)
  case (1 n)
  show ?case
  proof (cases "n < 16")
    case True
    then show ?thesis by (simp add: hex_digits.simps [of n] show_hex.simps [of n])
  next
    case False
    with 1 show ?thesis by (simp add: hex_digits.simps [of n] show_hex.simps [of n])
  qed
qed

lemma hex_val_lt: "\<forall>d \<in> set ds. d < 16 \<Longrightarrow> hex_val ds < 16 ^ length ds"
proof (induction ds rule: rev_induct)
  case (snoc d ds)
  then have "hex_val ds + 1 \<le> 16 ^ length ds" and "d < 16" by auto
  then have "(hex_val ds + 1) * 16 \<le> 16 ^ length ds * 16" by (intro mult_le_mono1)
  with \<open>d < 16\<close> show ?case by simp
qed simp

lemma hex_char_less_iff: "\<lbrakk>d < 16; e < 16\<rbrakk> \<Longrightarrow> hex_char d < hex_char e \<longleftrightarrow> d < e"
  by (simp add: hex_char_def less_char_def)

lemma hex_digits_less_iff:
  assumes "length ds = length es" and "\<forall>d \<in> set ds. d < 16" and "\<forall>d \<in> set es. d < 16"
  shows "map hex_char ds < map hex_char es \<longleftrightarrow> hex_val ds < hex_val es"
  using assms
proof (induction ds es rule: list_induct2)
  case (Cons d ds e es)
  have bounds: "hex_val ds < 16 ^ length es" "hex_val es < 16 ^ length es"
    using hex_val_lt [of ds] hex_val_lt [of es] Cons by simp_all
  have chars: "hex_char d < hex_char e \<longleftrightarrow> d < e" "hex_char d = hex_char e \<longleftrightarrow> d = e"
    using hex_char_less_iff [of d e] hex_char_less_iff [of e d] Cons.prems by (auto simp: not_less_iff_gr_or_eq)
  have step: "a < b \<Longrightarrow> a * 16 ^ length es + u < b * 16 ^ length es + v" if "u < 16 ^ length es" for a b u v :: nat
  proof -
    assume "a < b"
    then have "(a + 1) * 16 ^ length es \<le> b * 16 ^ length es" by (intro mult_le_mono1) simp
    with that show ?thesis by simp
  qed
  show ?case
    using Cons step [OF bounds(1), of d e "hex_val es"] step [OF bounds(2), of e d "hex_val ds"] chars
    by (cases d e rule: linorder_cases) auto
qed simp

lemma hex_char_0: "hex_char 0 = CHR ''0''"
  by (rule of_char_eqI [where ?'a = nat]) (simp add: hex_char_def)

lemma show_hex16_digits:
  "\<exists>ds. show_hex16 n = map hex_char ds \<and> hex_val ds = n \<and> (\<forall>d \<in> set ds. d < 16)"
proof -
  let ?k = "16 - length (show_hex n)"
  have "hex_val (replicate k 0 @ ds) = hex_val ds" for k ds by (induction k) simp_all
  then have "show_hex16 n = map hex_char (replicate ?k 0 @ hex_digits n) \<and> hex_val (replicate ?k 0 @ hex_digits n) = n \<and>
      (\<forall>d \<in> set (replicate ?k 0 @ hex_digits n). d < 16)"
    using hex_digits_facts [of n] by (auto simp: show_hex16_def hex_char_0)
  then show ?thesis by blast
qed

lemma show_hex16_less_iff:
  assumes "length (show_hex16 m) = length (show_hex16 n)"
  shows "show_hex16 m < show_hex16 n \<longleftrightarrow> m < n"
  using assms show_hex16_digits [of m] show_hex16_digits [of n] hex_digits_less_iff by (metis length_map)

lemma show_hex16_inj [simp]: "show_hex16 m = show_hex16 n \<longleftrightarrow> m = n"
  using show_hex16_less_iff [of m n] show_hex16_less_iff [of n m] by (metis linorder_neqE order_less_irrefl)

text \<open>
  Order labels. The fractional part of a formatted label comes back whatever it contains. For fractional parts of which
  none is a prefix of another, the order of the full labels, which is the order of the keys, is the order of the fractional
  parts; labels with the same fractional part are ordered by revision when their suffixes have the same length, and are
  equal only for one revision.
\<close>

theorem order_labels_agree:
  assumes "prefix f g \<or> prefix g f \<longrightarrow> f = g"
    and "length (show_hex16 (unat (as_u128 h))) = length (show_hex16 (unat (as_u128 k)))"
  shows "extract_fractional (format_label f h) = f \<and>
    (format_label f h < format_label g k \<longleftrightarrow> f < g \<or> (f = g \<and> h < k)) \<and>
    (sorts_after (format_label g k) (format_label f h) \<longleftrightarrow> format_label f h < format_label g k)"
proof -
  have tie: "show_hex16 (unat (as_u128 h)) < show_hex16 (unat (as_u128 k)) \<longleftrightarrow> h < k"
    using as_u128_order_embedding [of k h] by (simp add: show_hex16_less_iff [OF assms(2)] word_less_nat_alt)
  have less: "format_label f h < format_label g k \<longleftrightarrow> f < g \<or> (f = g \<and> h < k)"
  proof (cases "f = g")
    case True
    then show ?thesis by (simp add: format_label_def append_less_append_iff tie)
  next
    case False
    with assms(1) prefix_free_append_less [of f g] show ?thesis by (simp add: format_label_def)
  qed
  then show ?thesis by (auto simp: sorts_after_def)
qed

theorem order_labels_agree_witness:
  "format_label ''80'' (hlc_new 5 0) < format_label ''8180'' (hlc_new 3 0) \<and>
   format_label ''80'' (hlc_new 3 1) < format_label ''80'' (hlc_new 5 0)"
proof -
  have nums: "unat (as_u128 (hlc_new 5 0)) = 92233720368547758080" "unat (as_u128 (hlc_new 3 0)) = 55340232221128654848"
    "unat (as_u128 (hlc_new 3 1)) = 55340232221128654849"
    by (simp_all add: unat_as_u128)
  have lens: "length (show_hex 92233720368547758080) = 17" "length (show_hex 55340232221128654848) = 17"
    "length (show_hex 55340232221128654849) = 17"
    by (simp_all add: show_hex.simps)
  have "length (show_hex16 n) = max 16 (length (show_hex n))" for n by (simp add: show_hex16_def)
  with lens have "length (show_hex16 (unat (as_u128 h))) = 17" if "h \<in> {hlc_new 5 0, hlc_new 3 0, hlc_new 3 1}" for h
    using that by (auto simp: nums)
  then show ?thesis
    using order_labels_agree [of "''80''" "''8180''" "hlc_new 5 0" "hlc_new 3 0"]
      order_labels_agree [of "''80''" "''80''" "hlc_new 3 1" "hlc_new 5 0"]
    by (simp add: less_char_def hlc_less_iff)
qed

section \<open>Appending children\<close>

text \<open>What the minter relies on in the crate.\<close>

definition append_lib :: "'f fractional_lib \<Rightarrow> bool" where
  "append_lib lib \<longleftrightarrow>
     (\<forall>f. fi_from_string lib (fi_to_string lib f) = Inr f) \<and>
     (\<forall>f. fi_to_string lib f < fi_to_string lib (fi_new_after lib f)) \<and>
     (\<forall>f g. prefix (fi_to_string lib f) (fi_to_string lib g) \<longrightarrow> f = g)"

fun mint_all :: "'f fractional_lib \<Rightarrow> string option \<Rightarrow> hlc list \<Rightarrow> string list" where
  "mint_all lib last_label [] = []"
| "mint_all lib last_label (h # hs) =
     (let l = mint_append_label lib last_label h in l # mint_all lib (Some l) hs)"

lemma mint_after:
  "append_lib lib \<Longrightarrow> mint_append_label lib (Some (format_label (fi_to_string lib f) h)) k =
     format_label (fi_to_string lib (fi_new_after lib f)) k"
  by (simp add: mint_append_label_def fi_inc_def append_lib_def)

definition minted_before :: "string \<Rightarrow> string \<Rightarrow> bool" where
  "minted_before l l' \<longleftrightarrow> l < l' \<and> sorts_after l' l"

lemma append_lib_less:
  assumes "append_lib lib" and "fi_to_string lib f < fi_to_string lib g"
  shows "minted_before (format_label (fi_to_string lib f) h) (format_label (fi_to_string lib g) k)"
proof -
  have "\<not> prefix (fi_to_string lib f) (fi_to_string lib g)" "\<not> prefix (fi_to_string lib g) (fi_to_string lib f)"
    using assms by (auto simp: append_lib_def)
  with assms(2) have "format_label (fi_to_string lib f) h < format_label (fi_to_string lib g) k"
    by (simp add: format_label_def prefix_free_append_less)
  with assms(2) show ?thesis by (simp add: minted_before_def sorts_after_def)
qed

lemma mint_all_above:
  assumes "append_lib lib" and "fi_to_string lib f \<le> fi_to_string lib g"
    and "l \<in> set (mint_all lib (Some (format_label (fi_to_string lib g) h)) hs)"
  shows "\<exists>f' k. l = format_label (fi_to_string lib f') k \<and> fi_to_string lib f < fi_to_string lib f'"
  using assms(2,3)
proof (induction hs arbitrary: g h)
  case (Cons k hs)
  have "fi_to_string lib g < fi_to_string lib (fi_new_after lib g)" using assms(1) by (simp add: append_lib_def)
  with Cons.prems(1) have "fi_to_string lib f < fi_to_string lib (fi_new_after lib g)" by simp
  then show ?case using Cons.prems(2) Cons.IH [of "fi_new_after lib g" k] by (auto simp: mint_after [OF assms(1)] Let_def)
qed simp

lemma mint_all_sorted:
  assumes "append_lib lib"
  shows "sorted_wrt minted_before (mint_all lib (Some (format_label (fi_to_string lib g) h)) hs)"
proof (induction hs arbitrary: g h)
  case (Cons k hs)
  have "minted_before (format_label (fi_to_string lib (fi_new_after lib g)) k) l"
    if l: "l \<in> set (mint_all lib (Some (format_label (fi_to_string lib (fi_new_after lib g)) k)) hs)" for l
    using mint_all_above [OF assms _ l, of "fi_new_after lib g"] append_lib_less [OF assms] by auto
  with Cons show ?case by (simp add: mint_after [OF assms] Let_def)
qed simp

text \<open>
  C33. Appending children. Each minted label sorts after all labels minted before it under the same parent, in the order of the
  keys and in editorial order, whatever the revisions are.
\<close>

theorem appended_labels_increase:
  fixes lib :: "'f fractional_lib"
  assumes "append_lib lib"
  shows "sorted_wrt minted_before (mint_all lib None hs) \<and> length (mint_all lib None hs) = length hs"
proof -
  have len: "length (mint_all lib l hs) = length hs" for l hs by (induction hs arbitrary: l) (simp_all add: Let_def)
  have "sorted_wrt minted_before (mint_all lib None hs)"
  proof (cases hs)
    case (Cons k hs')
    let ?l = "format_label (fi_to_string lib (fi_default lib)) k"
    have "minted_before ?l l" if l: "l \<in> set (mint_all lib (Some ?l) hs')" for l
      using mint_all_above [OF assms _ l, of "fi_default lib"] append_lib_less [OF assms] by auto
    with Cons mint_all_sorted [OF assms] show ?thesis by (simp add: mint_append_label_def fi_first_def Let_def)
  qed simp
  with len show ?thesis by simp
qed

definition sample_lib :: "nat fractional_lib" where
  "sample_lib =
     \<lparr>fi_default = 0,
      fi_from_string = (\<lambda>s. let n = length s - 2 in if s = replicate n CHR ''f'' @ ''80'' then Inr n else Inl ''invalid''),
      fi_to_string = (\<lambda>n. replicate n CHR ''f'' @ ''80''), fi_new_after = Suc, fi_new_before = (\<lambda>n. n - 1),
      fi_new_between = (\<lambda>a b. if Suc a < b then Some (Suc a) else None)\<rparr>"

lemma sample_lib_append: "append_lib sample_lib"
proof -
  have less: "replicate n CHR ''f'' @ ''80'' < replicate (Suc n) CHR ''f'' @ ''80''" for n
    by (induction n) (simp_all add: less_char_def)
  have "f = g" if "prefix (replicate f CHR ''f'' @ ''80'') (replicate g CHR ''f'' @ ''80'')" for f g
    using that
  proof (induction f arbitrary: g)
    case 0
    then show ?case by (cases g) auto
  next
    case (Suc f)
    then show ?case by (cases g) auto
  qed
  with less show ?thesis by (simp add: append_lib_def sample_lib_def Let_def)
qed

theorem appended_labels_increase_witness:
  "sorted_wrt minted_before (mint_all sample_lib None [hlc_new 9 0, hlc_new 3 1])"
  using appended_labels_increase [OF sample_lib_append, of "[hlc_new 9 0, hlc_new 3 1]"] by simp

section \<open>Parsing a key\<close>

lemma hex_label_not_metadata:
  assumes "\<forall>c \<in> set label. (\<exists>d < 16. c = hex_char d) \<or> c = CHR '':''"
  shows "\<not> is_metadata_label label"
proof -
  have "(of_char (hex_char d) :: nat) < 0x80 \<and> hex_char d \<notin> {CHR ''M'', CHR ''L'', CHR ''F''}" if "d < 16" for d
    using that by (auto simp: hex_char_def dest!: arg_cong [where f = "of_char :: char \<Rightarrow> nat"])
  with assms show ?thesis by (fastforce simp: is_metadata_label_def list_ex_iff)
qed

text \<open>
  The key of an ordered child parses back into its label, its revision and its child, also when the revision contains
  separator bytes; a key of another parent and the cache entry of the parent are rejected.
\<close>

theorem ordered_child_key_roundtrip:
  assumes "\<forall>s \<in> {t, r, b, w, p, p', label}. str_nul_free s" and "is_str label" and "is_str child" and "\<not> is_metadata_label label"
  shows "(\<exists>k. parse_ordered_child_key (ordered_child_key_versioned t r b w p label h child) (ordered_children_prefix t r b w p) = Some k \<and>
      pok_order_label k = label \<and> pok_revision k = Some h \<and> pok_child_id k = child) \<and>
    (p \<noteq> p' \<longrightarrow> parse_ordered_child_key (ordered_child_key_versioned t r b w p' label h child) (ordered_children_prefix t r b w p) = None) \<and>
    parse_ordered_child_key (last_child_metadata_key t r b w p) (ordered_children_prefix t r b w p) = None"
proof -
  define pre where "pre q = terminated (map as_bytes [t, r, b, w, ''ordered'', q])" for q
  have layout: "ordered_children_prefix t r b w p = pre p"
    "ordered_child_key_versioned t r b w q label h child = pre q @ as_bytes label @ SEP # encode_descending h @ SEP # as_bytes child"
    "last_child_metadata_key t r b w p = pre p @ as_bytes ([CHR 0xEF, CHR 0xBF, CHR 0xBF] @ ''META'') @ SEP # as_bytes ''LAST''" for q
    by (simp_all add: pre_def ordered_children_prefix_def ordered_child_key_versioned_def last_child_metadata_key_def builder_simps)
  have "position (\<lambda>b. b = 0) (as_bytes label @ SEP # rest) = Some (length (as_bytes label))" for rest
    using assms(1) by (simp add: position_separator)
  then have ok: "parse_ordered_child_key (pre p @ as_bytes label @ SEP # encode_descending h @ SEP # as_bytes child) (pre p) =
      Some \<lparr>pok_order_label = label, pok_revision_bytes = encode_descending h, pok_child_id = child\<rparr>"
    using assms(2,3,4) by (simp add: parse_ordered_child_key_def Let_def REVISION_LEN_def)
  have "\<not> prefix (pre p) (pre q @ rest)" if "q = p'" "p \<noteq> p'" for q rest
    unfolding pre_def using assms(1) that by (subst terminated_prefix_iff) auto
  moreover have "parse_ordered_child_key (pre p @ as_bytes ([CHR 0xEF, CHR 0xBF, CHR 0xBF] @ ''META'') @ SEP # as_bytes ''LAST'') (pre p) = None"
  proof -
    have "position (\<lambda>b. b = 0) (as_bytes ([CHR 0xEF, CHR 0xBF, CHR 0xBF] @ ''META'') @ SEP # as_bytes ''LAST'') =
        Some (length (as_bytes ([CHR 0xEF, CHR 0xBF, CHR 0xBF] @ ''META'')))"
      by (rule position_separator) (simp add: str_nul_free_def)
    moreover have "is_str ([CHR 0xEF, CHR 0xBF, CHR 0xBF] @ ''META'')" by (simp add: as_bytes_def cont_byte_def)
    moreover have "is_metadata_label ([CHR 0xEF, CHR 0xBF, CHR 0xBF] @ ''META'')" by (simp add: is_metadata_label_def)
    ultimately show ?thesis by (simp add: parse_ordered_child_key_def Let_def)
  qed
  ultimately show ?thesis
    unfolding layout using ok by (auto simp: pok_revision_def decode_descending_revision_def) (simp add: parse_ordered_child_key_def)
qed

theorem ordered_child_key_roundtrip_witness:
  "\<exists>k. parse_ordered_child_key
      (ordered_child_key_versioned ''t'' ''r'' ''main'' ''ws'' ''parent-1'' ''80'' (hlc_new u64_MAX 0) ''child-nulls'')
      (ordered_children_prefix ''t'' ''r'' ''main'' ''ws'' ''parent-1'') = Some k \<and>
    pok_order_label k = ''80'' \<and> pok_revision k = Some (hlc_new u64_MAX 0) \<and> pok_child_id k = ''child-nulls''"
  using ordered_child_key_roundtrip [of "''t''" "''r''" "''main''" "''ws''" "''parent-1''" "''other''" "''80''" "''child-nulls''"
      "hlc_new u64_MAX 0"]
  by (simp add: str_nul_free_def as_bytes_def is_metadata_label_def)

text \<open>The suffix of a label is longer than sixteen characters for every timestamp but zero: here it has 27.\<close>

lemma label_suffix_length: "length (format_label ''80'' (hlc_new 1700000000000 42)) = 2 + 2 + 27"
proof -
  have "unat (as_u128 (hlc_new 1700000000000 42)) = 31359464925306237747200000000042"
    by (simp add: unat_as_u128)
  moreover have "length (show_hex 31359464925306237747200000000042) = 27" by (simp add: show_hex.simps)
  ultimately show ?thesis by (simp add: format_label_def SEPARATOR_def show_hex16_def)
qed

end
