(* ===== verification/Mvcc_Read.thy ===== *)
theory Mvcc_Read
  imports Key_Layouts
begin

text \<open>
  \<open>raisin-rocksdb/src/mvcc_read/\<close> (\<open>mod.rs\<close>, \<open>source.rs\<close>): reads bounded by a revision. RocksDB is the record \<open>rocks_db\<close> of
  the calls the code makes: which column families exist, what a raw iterator yields from a seek under an upper bound
  together with the status it ends with, and point lookups. What the code relies on is the predicate \<open>cf_content\<close>: an
  iterator yields the entries of the column family in key order and a lookup finds them. A valid iterator has no error, so
  the status is read where the entries run out.

  The trait \<open>VersionedRead\<close> is the record \<open>versioned_read\<close> of its methods over a state, and its contract the locale
  \<open>versioned_source\<close>, interpreted by \<open>DbRead\<close>, by \<open>SnapshotRead\<close> and, over any source, by \<open>Recorded\<close>.
\<close>

type_synonym 'a result = "string + 'a"
type_synonym entries = "(bytes \<times> bytes) list"

section \<open>The database\<close>

record rocks_db =
  rdb_cfs :: "string list"
  rdb_iter :: "string \<Rightarrow> bytes option \<Rightarrow> bytes \<Rightarrow> entries \<times> string option"
  rdb_get :: "string \<Rightarrow> bytes \<Rightarrow> bytes option result"

definition cf_handle :: "rocks_db \<Rightarrow> string \<Rightarrow> unit result" where
  "cf_handle db name =
     (if name \<in> set (rdb_cfs db) then Inr ()
      else Inl (''Column family '' @ [CHR 0x27] @ name @ [CHR 0x27] @ '' not found''))"

definition NEWEST :: hlc where
  "NEWEST = \<lparr>hlc_timestamp_ms = u64_MAX, hlc_counter = u64_MAX\<rparr>"

definition within :: "hlc option \<Rightarrow> hlc \<Rightarrow> bool" where
  "within max_revision r \<longleftrightarrow> (case max_revision of None \<Rightarrow> True | Some m \<Rightarrow> r \<le> m)"

definition seek_key :: "bytes \<Rightarrow> hlc option \<Rightarrow> bytes" where
  "seek_key pre max_revision =
     (case max_revision of Some m \<Rightarrow> pre @ encode_descending m | None \<Rightarrow> pre)"

definition status_result :: "string option \<Rightarrow> 'a \<Rightarrow> 'a result" where
  "status_result status x = (case status of None \<Rightarrow> Inr x | Some e \<Rightarrow> Inl e)"

fun newest_loop ::
  "(hlc \<Rightarrow> bytes \<Rightarrow> 'r) \<Rightarrow> bytes \<Rightarrow> hlc option \<Rightarrow> entries \<Rightarrow> string option \<Rightarrow> 'r option result" where
  "newest_loop read pre max_revision [] status = status_result status None"
| "newest_loop read pre max_revision ((key, v) # es) status =
     (if \<not> prefix pre key then Inr None
      else case extract_revision_from_key key of
             Inr revision \<Rightarrow>
               if within max_revision revision then Inr (Some (read revision v))
               else newest_loop read pre max_revision es status
           | Inl _ \<Rightarrow> newest_loop read pre max_revision es status)"

definition newest_at_or_before_with ::
  "rocks_db \<Rightarrow> string \<Rightarrow> bytes \<Rightarrow> hlc option \<Rightarrow> (hlc \<Rightarrow> bytes \<Rightarrow> 'r) \<Rightarrow> 'r option result" where
  "newest_at_or_before_with db cf pre max_revision read =
     (case rdb_iter db cf (prefix_successor pre) (seek_key pre max_revision) of
        (es, status) \<Rightarrow> newest_loop read pre max_revision es status)"

definition newest_at_or_before ::
  "rocks_db \<Rightarrow> string \<Rightarrow> bytes \<Rightarrow> hlc option \<Rightarrow> (hlc \<times> bytes) option result" where
  "newest_at_or_before db cf pre max_revision = newest_at_or_before_with db cf pre max_revision Pair"

fun any_loop ::
  "(hlc \<Rightarrow> bytes \<Rightarrow> bool) \<Rightarrow> bytes \<Rightarrow> hlc \<Rightarrow> entries \<Rightarrow> string option \<Rightarrow> bool result" where
  "any_loop matches pre max_revision [] status = status_result status False"
| "any_loop matches pre max_revision ((key, v) # es) status =
     (if \<not> prefix pre key then Inr False
      else case extract_revision_from_key key of
             Inr revision \<Rightarrow>
               if revision \<le> max_revision \<and> matches revision v then Inr True
               else any_loop matches pre max_revision es status
           | Inl _ \<Rightarrow> any_loop matches pre max_revision es status)"

definition any_at_or_before ::
  "rocks_db \<Rightarrow> string \<Rightarrow> bytes \<Rightarrow> hlc \<Rightarrow> (hlc \<Rightarrow> bytes \<Rightarrow> bool) \<Rightarrow> bool result" where
  "any_at_or_before db cf pre max_revision matches =
     (case rdb_iter db cf (prefix_successor pre) (seek_key pre (Some max_revision)) of
        (es, status) \<Rightarrow> any_loop matches pre max_revision es status)"

section \<open>Read sources\<close>

text \<open>
  \<open>vr_stream\<close> is the iterator a \<open>scan\<close> runs on: what it yields from the seek, and its final status. \<open>vr_has_cf\<close> is
  \<open>db().cf_handle(..)\<close>.
\<close>

record 's versioned_read =
  vr_newest :: "'s \<Rightarrow> string \<Rightarrow> bytes \<Rightarrow> hlc option \<Rightarrow> (hlc \<times> bytes) option result \<times> 's"
  vr_stream :: "'s \<Rightarrow> string \<Rightarrow> bytes \<Rightarrow> bytes \<Rightarrow> (entries \<times> string option) result \<times> 's"
  vr_get :: "'s \<Rightarrow> string \<Rightarrow> bytes \<Rightarrow> bytes option result \<times> 's"
  vr_has_cf :: "'s \<Rightarrow> string \<Rightarrow> bool"

fun scan_loop ::
  "bytes \<Rightarrow> (bytes \<Rightarrow> bytes \<Rightarrow> 'a \<Rightarrow> 'a \<times> bool) \<Rightarrow> 'a \<Rightarrow> entries \<Rightarrow> string option \<Rightarrow> 'a result" where
  "scan_loop pre visit st [] status = status_result status st"
| "scan_loop pre visit st ((key, v) # es) status =
     (if \<not> prefix pre key then Inr st
      else case visit key v st of
             (st', True) \<Rightarrow> Inr st'
           | (st', False) \<Rightarrow> scan_loop pre visit st' es status)"

definition vr_scan ::
  "'s versioned_read \<Rightarrow> 's \<Rightarrow> string \<Rightarrow> bytes \<Rightarrow> bytes \<Rightarrow> (bytes \<Rightarrow> bytes \<Rightarrow> 'a \<Rightarrow> 'a \<times> bool) \<Rightarrow> 'a \<Rightarrow> 'a result \<times> 's" where
  "vr_scan vr s cf pre seek visit st =
     (case vr_stream vr s cf pre seek of
        (Inl e, s') \<Rightarrow> (Inl e, s')
      | (Inr (es, status), s') \<Rightarrow> (scan_loop pre visit st es status, s'))"

definition db_read_newest ::
  "rocks_db \<Rightarrow> string \<Rightarrow> bytes \<Rightarrow> hlc option \<Rightarrow> (hlc \<times> bytes) option result \<times> rocks_db" where
  "db_read_newest db cf pre max_revision =
     (case cf_handle db cf of
        Inl e \<Rightarrow> (Inl e, db)
      | Inr _ \<Rightarrow> (newest_at_or_before_with db cf pre max_revision Pair, db))"

definition db_read_stream ::
  "rocks_db \<Rightarrow> string \<Rightarrow> bytes \<Rightarrow> bytes \<Rightarrow> (entries \<times> string option) result \<times> rocks_db" where
  "db_read_stream db cf pre seek =
     (case cf_handle db cf of
        Inl e \<Rightarrow> (Inl e, db)
      | Inr _ \<Rightarrow> (Inr (rdb_iter db cf (prefix_successor pre) seek), db))"

definition db_read_get :: "rocks_db \<Rightarrow> string \<Rightarrow> bytes \<Rightarrow> bytes option result \<times> rocks_db" where
  "db_read_get db cf key =
     (case cf_handle db cf of Inl e \<Rightarrow> (Inl e, db) | Inr _ \<Rightarrow> (rdb_get db cf key, db))"

definition DbRead :: "rocks_db versioned_read" where
  "DbRead = \<lparr>vr_newest = db_read_newest, vr_stream = db_read_stream, vr_get = db_read_get,
             vr_has_cf = (\<lambda>db cf. cf \<in> set (rdb_cfs db))\<rparr>"

record snapshot_read =
  sr_db :: rocks_db
  sr_snapshot :: "rocks_db option"
  sr_iters :: "string list"
  sr_seeks :: u64

definition snapshot_read_new :: "rocks_db \<Rightarrow> rocks_db \<Rightarrow> snapshot_read" where
  "snapshot_read_new db snapshot = \<lparr>sr_db = db, sr_snapshot = Some snapshot, sr_iters = [], sr_seeks = 0\<rparr>"

definition snapshot_read_live :: "rocks_db \<Rightarrow> snapshot_read" where
  "snapshot_read_live db = \<lparr>sr_db = db, sr_snapshot = None, sr_iters = [], sr_seeks = 0\<rparr>"

definition sr_view :: "snapshot_read \<Rightarrow> rocks_db" where
  "sr_view s = (case sr_snapshot s of Some v \<Rightarrow> v | None \<Rightarrow> sr_db s)"

definition sr_iter :: "snapshot_read \<Rightarrow> string \<Rightarrow> snapshot_read result" where
  "sr_iter s cf =
     (if cf \<in> set (sr_iters s) then Inr s
      else case cf_handle (sr_db s) cf of
             Inl e \<Rightarrow> Inl e
           | Inr _ \<Rightarrow> Inr (s\<lparr>sr_iters := sr_iters s @ [cf]\<rparr>))"

definition snapshot_read_newest ::
  "snapshot_read \<Rightarrow> string \<Rightarrow> bytes \<Rightarrow> hlc option \<Rightarrow> (hlc \<times> bytes) option result \<times> snapshot_read" where
  "snapshot_read_newest s cf pre max_revision =
     (let s = s\<lparr>sr_seeks := sr_seeks s + 1\<rparr>
      in case sr_iter s cf of
           Inl e \<Rightarrow> (Inl e, s)
         | Inr s \<Rightarrow>
             (case rdb_iter (sr_view s) cf None (seek_key pre max_revision) of
                (es, status) \<Rightarrow> (newest_loop Pair pre max_revision es status, s)))"

definition snapshot_read_stream ::
  "snapshot_read \<Rightarrow> string \<Rightarrow> bytes \<Rightarrow> bytes \<Rightarrow> (entries \<times> string option) result \<times> snapshot_read" where
  "snapshot_read_stream s cf pre seek =
     (let s = s\<lparr>sr_seeks := sr_seeks s + 1\<rparr>
      in case sr_iter s cf of Inl e \<Rightarrow> (Inl e, s) | Inr s \<Rightarrow> (Inr (rdb_iter (sr_view s) cf None seek), s))"

definition snapshot_read_get ::
  "snapshot_read \<Rightarrow> string \<Rightarrow> bytes \<Rightarrow> bytes option result \<times> snapshot_read" where
  "snapshot_read_get s cf key =
     (case cf_handle (sr_db s) cf of Inl e \<Rightarrow> (Inl e, s) | Inr _ \<Rightarrow> (rdb_get (sr_view s) cf key, s))"

definition SnapshotRead :: "snapshot_read versioned_read" where
  "SnapshotRead = \<lparr>vr_newest = snapshot_read_newest, vr_stream = snapshot_read_stream, vr_get = snapshot_read_get,
                   vr_has_cf = (\<lambda>s cf. cf \<in> set (rdb_cfs (sr_db s)))\<rparr>"

fun opt_max :: "hlc option \<Rightarrow> hlc option \<Rightarrow> hlc option" where
  "opt_max None b = b"
| "opt_max a None = a"
| "opt_max (Some a) (Some b) = Some (max a b)"

definition recorded_newest ::
  "'s versioned_read \<Rightarrow> 's \<times> hlc option \<Rightarrow> string \<Rightarrow> bytes \<Rightarrow> hlc option
     \<Rightarrow> (hlc \<times> bytes) option result \<times> ('s \<times> hlc option)" where
  "recorded_newest vr rs cf pre max_revision =
     (case vr_newest vr (fst rs) cf pre max_revision of
        (Inr (Some (revision, v)), s) \<Rightarrow> (Inr (Some (revision, v)), (s, opt_max (snd rs) (Some revision)))
      | (res, s) \<Rightarrow> (res, (s, snd rs)))"

definition Recorded :: "'s versioned_read \<Rightarrow> ('s \<times> hlc option) versioned_read" where
  "Recorded vr =
     \<lparr>vr_newest = recorded_newest vr,
      vr_stream = (\<lambda>rs cf pre seek. case vr_stream vr (fst rs) cf pre seek of (res, s) \<Rightarrow> (res, (s, snd rs))),
      vr_get = (\<lambda>rs cf key. case vr_get vr (fst rs) cf key of (res, s) \<Rightarrow> (res, (s, snd rs))),
      vr_has_cf = (\<lambda>rs cf. vr_has_cf vr (fst rs) cf)\<rparr>"

definition recorded_new :: "'s \<Rightarrow> 's \<times> hlc option" where
  "recorded_new inner = (inner, None)"

definition recorded_newest_seen :: "'s \<times> hlc option \<Rightarrow> hlc option" where
  "recorded_newest_seen rs = snd rs"

section \<open>What a source is over\<close>

definition cf_content :: "rocks_db \<Rightarrow> string \<Rightarrow> entries \<Rightarrow> bool" where
  "cf_content db cf es \<longleftrightarrow>
     cf \<in> set (rdb_cfs db) \<and> sorted_wrt (<) (map fst es) \<and>
     (\<forall>upper seek. rdb_iter db cf upper seek =
        (filter (\<lambda>(k, v). seek \<le> k \<and> (case upper of None \<Rightarrow> True | Some u \<Rightarrow> k < u)) es, None)) \<and>
     (\<forall>k. rdb_get db cf k = Inr (map_of es k))"

text \<open>Every key under the prefix is the prefix and a revision.\<close>

definition versioned_under :: "bytes \<Rightarrow> entries \<Rightarrow> bool" where
  "versioned_under pre es \<longleftrightarrow> (\<forall>(k, v) \<in> set es. prefix pre k \<longrightarrow> length k = length pre + 16)"

definition entries_under :: "bytes \<Rightarrow> bytes \<Rightarrow> entries \<Rightarrow> entries" where
  "entries_under pre seek es = filter (\<lambda>(k, v). prefix pre k \<and> seek \<le> k) es"

definition version_of :: "bytes \<Rightarrow> bytes \<times> bytes \<Rightarrow> (hlc \<times> bytes) option" where
  "version_of pre e =
     (if prefix pre (fst e) then (case extract_revision_from_key (fst e) of Inr r \<Rightarrow> Some (r, snd e) | Inl _ \<Rightarrow> None) else None)"

text \<open>
  The reference: walk all entries under the prefix from the newest on and take the first that is not above the bound.
\<close>

definition walk_newest :: "bytes \<Rightarrow> hlc option \<Rightarrow> entries \<Rightarrow> (hlc \<times> bytes) option" where
  "walk_newest pre max_revision es =
     List.find (\<lambda>(r, v). within max_revision r) (List.map_filter (version_of pre) es)"

lemma map_filter_Cons: "List.map_filter f (x # xs) = (case f x of None \<Rightarrow> List.map_filter f xs | Some y \<Rightarrow> y # List.map_filter f xs)"
  by (auto simp: List.map_filter_def split: option.split)

lemma map_filter_Nil: "List.map_filter f [] = []"
  by (simp add: List.map_filter_def)

lemmas map_filter_rec = map_filter_Nil map_filter_Cons

lemma newest_loop_walk:
  "newest_loop Pair pre m es None = Inr (walk_newest pre m (takeWhile (\<lambda>(k, v). prefix pre k) es))"
proof (induction es)
  case (Cons e es)
  obtain k v where e: "e = (k, v)" by (cases e)
  show ?case
    using Cons unfolding e
    by (cases "extract_revision_from_key k") (auto simp: walk_newest_def map_filter_rec version_of_def)
qed (simp add: walk_newest_def map_filter_rec status_result_def)

lemma versioned_key:
  assumes "prefix pre k" and "length k = length pre + 16"
  obtains r where "k = pre @ encode_descending r" and "extract_revision_from_key k = Inr r"
proof -
  from assms obtain t where t: "k = pre @ t" "length t = 16" by (auto simp: prefix_def)
  then obtain r where "decode_descending t = Inr r" by (auto simp: decode_descending_def)
  then have "t = encode_descending r" by (simp add: encode_decode_descending)
  with t that [of r] show thesis by simp
qed

lemma seek_skips:
  assumes "prefix pre k" and "length k = length pre + 16" and "\<not> seek_key pre m \<le> k"
  shows "\<exists>r. extract_revision_from_key k = Inr r \<and> \<not> within m r"
proof -
  from versioned_key [OF assms(1,2)] obtain r where r: "k = pre @ encode_descending r" "extract_revision_from_key k = Inr r" .
  from assms(3) obtain x where m: "m = Some x" using prefix_imp_le [OF assms(1)] by (cases m) (auto simp: seek_key_def)
  have "encode_descending r < encode_descending x" using assms(3) by (simp add: m r(1) seek_key_def not_le)
  then show ?thesis using r(2) by (simp add: m within_def encode_descending_less)
qed

lemma walk_from_seek:
  "versioned_under pre es \<Longrightarrow> walk_newest pre m (entries_under pre (seek_key pre m) es) = walk_newest pre m es"
proof (induction es)
  case (Cons e es)
  obtain k v where e: "e = (k, v)" by (cases e)
  from Cons have IH: "walk_newest pre m (entries_under pre (seek_key pre m) es) = walk_newest pre m es"
    and wf: "prefix pre k \<Longrightarrow> length k = length pre + 16"
    by (simp_all add: versioned_under_def e)
  show ?case
  proof (cases "prefix pre k \<and> \<not> seek_key pre m \<le> k")
    case True
    with wf seek_skips [of pre k m] obtain r where "extract_revision_from_key k = Inr r" "\<not> within m r" by auto
    with True IH show ?thesis by (simp add: e entries_under_def walk_newest_def map_filter_rec version_of_def)
  next
    case False
    with IH show ?thesis
      by (cases "prefix pre k") (simp_all add: e entries_under_def walk_newest_def map_filter_rec version_of_def split: sum.split)
  qed
qed (simp add: entries_under_def)

lemma takeWhile_filter_initial:
  assumes "sorted_wrt (\<lambda>x y. P y \<longrightarrow> P x) xs"
  shows "takeWhile P xs = filter P xs"
  using assms
proof (induction xs)
  case (Cons x xs)
  then show ?case by (cases "P x") (auto simp: filter_False)
qed simp

lemma sorted_filter_fst: "sorted_wrt (<) (map fst es) \<Longrightarrow> sorted_wrt (<) (map fst (filter P es))"
  by (simp add: sorted_wrt_map sorted_wrt_filter)

lemma stream_prefix:
  assumes "sorted_wrt (<) (map fst es)" and "prefix pre seek" and "upper \<in> {None, prefix_successor pre}"
  shows "takeWhile (\<lambda>(k, v). prefix pre k)
      (filter (\<lambda>(k, v). seek \<le> k \<and> (case upper of None \<Rightarrow> True | Some u \<Rightarrow> k < u)) es) = entries_under pre seek es"
proof -
  let ?B = "\<lambda>(k, v). seek \<le> k \<and> (case upper of None \<Rightarrow> True | Some u \<Rightarrow> k < u)"
  have le: "pre \<le> seek" using assms(2) by (rule prefix_imp_le)
  have initial: "prefix pre k" if "k < l" "seek \<le> k" "prefix pre l" for k l
  proof -
    have "pre \<le> k" using le that(2) by (rule order_trans)
    moreover have "case prefix_successor pre of None \<Rightarrow> True | Some u \<Rightarrow> k < u"
      using that(1,3) prefix_successor_exact [of pre l] by (auto split: option.splits)
    ultimately show ?thesis using prefix_successor_exact [of pre k] by blast
  qed
  have "sorted_wrt (\<lambda>x y. (case y of (l, w) \<Rightarrow> prefix pre l) \<longrightarrow> (case x of (k, v) \<Rightarrow> prefix pre k)) (filter ?B es)"
    using sorted_filter_fst [OF assms(1), of ?B] unfolding sorted_wrt_map
    by (rule sorted_wrt_mono_rel [rotated]) (auto intro: initial)
  then have "takeWhile (\<lambda>(k, v). prefix pre k) (filter ?B es) = filter (\<lambda>(k, v). prefix pre k) (filter ?B es)"
    by (rule takeWhile_filter_initial)
  also have "\<dots> = entries_under pre seek es"
  proof -
    have "prefix pre k \<and> seek \<le> k \<and> (case upper of None \<Rightarrow> True | Some u \<Rightarrow> k < u) \<longleftrightarrow> prefix pre k \<and> seek \<le> k" for k
      using assms(3) prefix_successor_exact [of pre k] by auto
    then show ?thesis by (auto simp: entries_under_def intro!: filter_cong)
  qed
  finally show ?thesis .
qed

lemma prefix_seek_key [simp]: "prefix pre (seek_key pre m)"
  by (simp add: seek_key_def split: option.split)

lemma scan_loop_takeWhile:
  "scan_loop pre visit st es None = scan_loop pre visit st (takeWhile (\<lambda>(k, v). prefix pre k) es) None"
  by (induction pre visit st es "None :: string option" rule: scan_loop.induct)
    (auto simp: status_result_def split: prod.splits bool.splits)

section \<open>The contract of a source\<close>

locale versioned_source =
  fixes vr :: "'s versioned_read"
    and sees :: "'s \<Rightarrow> string \<Rightarrow> entries \<Rightarrow> bool"
  assumes newest_law: "\<lbrakk>sees s cf es; versioned_under pre es\<rbrakk>
      \<Longrightarrow> \<exists>s'. vr_newest vr s cf pre m = (Inr (walk_newest pre m es), s') \<and> sees s' = sees s"
    and stream_law: "\<lbrakk>sees s cf es; prefix pre seek\<rbrakk>
      \<Longrightarrow> \<exists>es' s'. vr_stream vr s cf pre seek = (Inr (es', None), s') \<and> sees s' = sees s \<and>
            takeWhile (\<lambda>(k, v). prefix pre k) es' = entries_under pre seek es"
    and get_law: "sees s cf es \<Longrightarrow> \<exists>s'. vr_get vr s cf k = (Inr (map_of es k), s') \<and> sees s' = sees s"
    and sorted_law: "sees s cf es \<Longrightarrow> sorted_wrt (<) (map fst es)"
    and has_law: "sees s cf es \<Longrightarrow> vr_has_cf vr s cf"
begin

lemma scan_law:
  assumes "sees s cf es" and "prefix pre seek"
  shows "\<exists>s'. vr_scan vr s cf pre seek visit st = (scan_loop pre visit st (entries_under pre seek es) None, s') \<and> sees s' = sees s"
proof -
  from stream_law [OF assms] obtain es' s' where st: "vr_stream vr s cf pre seek = (Inr (es', None), s')" "sees s' = sees s"
    "takeWhile (\<lambda>(k, v). prefix pre k) es' = entries_under pre seek es" by blast
  then show ?thesis using scan_loop_takeWhile [of pre visit st es'] by (simp add: vr_scan_def)
qed

end

lemma cf_content_stream:
  assumes "cf_content db cf es" and "prefix pre seek" and "upper \<in> {None, prefix_successor pre}"
  shows "\<exists>es'. rdb_iter db cf upper seek = (es', None) \<and> takeWhile (\<lambda>(k, v). prefix pre k) es' = entries_under pre seek es"
  using assms stream_prefix [of es pre seek upper] by (simp add: cf_content_def)

lemma cf_content_newest:
  assumes "cf_content db cf es" and "versioned_under pre es" and "upper \<in> {None, prefix_successor pre}"
  shows "(case rdb_iter db cf upper (seek_key pre m) of (es', status) \<Rightarrow> newest_loop Pair pre m es' status) =
    Inr (walk_newest pre m es)"
proof -
  from cf_content_stream [OF assms(1) prefix_seek_key assms(3)] obtain es' where
    "rdb_iter db cf upper (seek_key pre m) = (es', None)" "takeWhile (\<lambda>(k, v). prefix pre k) es' = entries_under pre (seek_key pre m) es"
    by blast
  then show ?thesis using walk_from_seek [OF assms(2), of m] by (simp add: newest_loop_walk)
qed

lemma cf_handle_content [simp]: "cf_content db cf es \<Longrightarrow> cf_handle db cf = Inr ()"
  by (simp add: cf_handle_def cf_content_def)

interpretation db_read: versioned_source DbRead cf_content
proof
  fix s cf es and pre :: bytes and m
  assume "cf_content s cf es" "versioned_under pre es"
  then show "\<exists>s'. vr_newest DbRead s cf pre m = (Inr (walk_newest pre m es), s') \<and> cf_content s' = cf_content s"
    using cf_content_newest [of s cf es pre "prefix_successor pre" m]
    by (simp add: DbRead_def db_read_newest_def newest_at_or_before_with_def)
next
  fix s cf es and pre seek :: bytes
  assume "cf_content s cf es" "prefix pre seek"
  then show "\<exists>es' s'. vr_stream DbRead s cf pre seek = (Inr (es', None), s') \<and> cf_content s' = cf_content s \<and>
      takeWhile (\<lambda>(k, v). prefix pre k) es' = entries_under pre seek es"
    using cf_content_stream [of s cf es pre seek "prefix_successor pre"] by (auto simp: DbRead_def db_read_stream_def)
qed (auto simp: DbRead_def db_read_get_def cf_content_def cf_handle_def)

abbreviation snapshot_sees :: "snapshot_read \<Rightarrow> string \<Rightarrow> entries \<Rightarrow> bool" where
  "snapshot_sees s cf es \<equiv> cf \<in> set (rdb_cfs (sr_db s)) \<and> cf_content (sr_view s) cf es"

lemma sr_view_update [simp]:
  "sr_view (s\<lparr>sr_seeks := n\<rparr>) = sr_view s" "sr_view (s\<lparr>sr_iters := is\<rparr>) = sr_view s"
  by (simp_all add: sr_view_def split: option.split)

lemma sr_iter_sees:
  assumes "cf \<in> set (rdb_cfs (sr_db s))"
  shows "\<exists>s'. sr_iter s cf = Inr s' \<and> sr_db s' = sr_db s \<and> sr_view s' = sr_view s"
  using assms by (simp add: sr_iter_def cf_handle_def)

interpretation snapshot_read: versioned_source SnapshotRead snapshot_sees
proof
  fix s cf es and pre :: bytes and m
  assume "snapshot_sees s cf es" "versioned_under pre es"
  then show "\<exists>s'. vr_newest SnapshotRead s cf pre m = (Inr (walk_newest pre m es), s') \<and> snapshot_sees s' = snapshot_sees s"
    using cf_content_newest [of "sr_view s" cf es pre None m] sr_iter_sees [of cf "s\<lparr>sr_seeks := sr_seeks s + 1\<rparr>"]
    by (auto simp: SnapshotRead_def snapshot_read_newest_def Let_def split: prod.splits)
next
  fix s cf es and pre seek :: bytes
  assume "snapshot_sees s cf es" "prefix pre seek"
  then show "\<exists>es' s'. vr_stream SnapshotRead s cf pre seek = (Inr (es', None), s') \<and> snapshot_sees s' = snapshot_sees s \<and>
      takeWhile (\<lambda>(k, v). prefix pre k) es' = entries_under pre seek es"
    using cf_content_stream [of "sr_view s" cf es pre seek None] sr_iter_sees [of cf "s\<lparr>sr_seeks := sr_seeks s + 1\<rparr>"]
    by (auto simp: SnapshotRead_def snapshot_read_stream_def Let_def)
qed (auto simp: SnapshotRead_def snapshot_read_get_def cf_content_def cf_handle_def)

lemma recorded_source:
  assumes "versioned_source (vr :: 's versioned_read) sees"
  shows "versioned_source (Recorded vr) (\<lambda>rs. sees (fst rs))"
proof
  fix rs :: "'s \<times> hlc option" and cf es and pre :: bytes and m
  assume a: "sees (fst rs) cf es" "versioned_under pre es"
  from versioned_source.newest_law [OF assms a, of m] obtain s' where
    "vr_newest vr (fst rs) cf pre m = (Inr (walk_newest pre m es), s')" "sees s' = sees (fst rs)" by blast
  then show "\<exists>rs'. vr_newest (Recorded vr) rs cf pre m = (Inr (walk_newest pre m es), rs') \<and> sees (fst rs') = sees (fst rs)"
    by (simp add: Recorded_def recorded_newest_def split: option.split prod.split)
next
  fix rs :: "'s \<times> hlc option" and cf es and pre seek :: bytes
  assume a: "sees (fst rs) cf es" "prefix pre seek"
  from versioned_source.stream_law [OF assms a]
  show "\<exists>es' rs'. vr_stream (Recorded vr) rs cf pre seek = (Inr (es', None), rs') \<and> sees (fst rs') = sees (fst rs) \<and>
      takeWhile (\<lambda>(k, v). prefix pre k) es' = entries_under pre seek es"
    by (auto simp: Recorded_def)
next
  fix rs :: "'s \<times> hlc option" and cf es k
  assume "sees (fst rs) cf es"
  from versioned_source.get_law [OF assms this, of k]
  show "\<exists>rs'. vr_get (Recorded vr) rs cf k = (Inr (map_of es k), rs') \<and> sees (fst rs') = sees (fst rs)"
    by (auto simp: Recorded_def)
qed (auto simp: Recorded_def dest: versioned_source.sorted_law [OF assms] versioned_source.has_law [OF assms])

interpretation recorded_snapshot: versioned_source "Recorded SnapshotRead" "\<lambda>rs. snapshot_sees (fst rs)"
  by (rule recorded_source) (rule snapshot_read.versioned_source_axioms)

section \<open>The newest version\<close>

lemma version_of_versioned:
  assumes "versioned_under pre es" and "e \<in> set es"
  shows "version_of pre e = Some (r, v) \<longleftrightarrow> e = (pre @ encode_descending r, v)"
proof
  assume "version_of pre e = Some (r, v)"
  then have p: "prefix pre (fst e)" "extract_revision_from_key (fst e) = Inr r" "snd e = v"
    by (auto simp: version_of_def split: if_splits sum.splits)
  moreover have "length (fst e) = length pre + 16" using assms p(1) by (auto simp: versioned_under_def)
  ultimately show "e = (pre @ encode_descending r, v)" by (metis Inr_inject prod.collapse versioned_key)
qed (simp add: version_of_def)

lemma set_versions:
  assumes "versioned_under pre es"
  shows "(r, v) \<in> set (List.map_filter (version_of pre) es) \<longleftrightarrow> (pre @ encode_descending r, v) \<in> set es"
proof -
  have "(r, v) \<in> set (List.map_filter (version_of pre) es) \<longleftrightarrow> (\<exists>e \<in> set es. version_of pre e = Some (r, v))"
    by (induction es) (auto simp: map_filter_rec split: option.splits)
  then show ?thesis using version_of_versioned [OF assms] by auto
qed

lemma sorted_versions:
  assumes "sorted_wrt (<) (map fst es)" and "versioned_under pre es"
  shows "sorted_wrt (\<lambda>a b. fst b < fst a) (List.map_filter (version_of pre) es)"
  using assms
proof (induction es)
  case (Cons e es)
  have wf: "versioned_under pre es" using Cons.prems(2) by (simp add: versioned_under_def)
  then have IH: "sorted_wrt (\<lambda>a b. fst b < fst a) (List.map_filter (version_of pre) es)" using Cons by simp
  show ?case
  proof (cases "version_of pre e")
    case (Some x)
    obtain r v where x: "x = (r, v)" by (cases x)
    then have e: "e = (pre @ encode_descending r, v)"
      using Some version_of_versioned [OF Cons.prems(2), of e r v] by simp
    have "r' < r" if "(r', v') \<in> set (List.map_filter (version_of pre) es)" for r' v'
    proof -
      have "(pre @ encode_descending r', v') \<in> set es" using that set_versions [OF wf] by simp
      then have "fst e < pre @ encode_descending r'" using Cons.prems(1) by force
      then show ?thesis by (simp add: e encode_descending_less)
    qed
    with IH Some x show ?thesis by (auto simp: map_filter_rec)
  qed (simp add: map_filter_rec IH)
qed (simp add: map_filter_rec)

lemma find_sorted:
  assumes "sorted_wrt R xs" and "List.find P xs = Some x"
  shows "x \<in> set xs \<and> P x \<and> (\<forall>y \<in> set xs. P y \<longrightarrow> y = x \<or> R x y)"
  using assms by (induction xs) (auto split: if_splits)

lemma map_of_sorted:
  "sorted_wrt (<) (map fst es) \<Longrightarrow> map_of es k = Some v \<longleftrightarrow> (k, v) \<in> set (es :: entries)"
  by (simp add: strict_sorted_iff)

definition newest_of :: "(hlc \<Rightarrow> bytes option) \<Rightarrow> hlc option \<Rightarrow> (hlc \<times> bytes) option \<Rightarrow> bool" where
  "newest_of history m res \<longleftrightarrow>
     (case res of
        None \<Rightarrow> \<forall>r. within m r \<longrightarrow> history r = None
      | Some (r, v) \<Rightarrow> history r = Some v \<and> within m r \<and> (\<forall>r'. within m r' \<and> history r' \<noteq> None \<longrightarrow> r' \<le> r))"

lemma walk_newest_of:
  assumes "sorted_wrt (<) (map fst es)" and "versioned_under pre es"
  shows "newest_of (\<lambda>r. map_of es (pre @ encode_descending r)) m (walk_newest pre m es)"
proof -
  let ?vs = "List.map_filter (version_of pre) es" and ?P = "\<lambda>(r, v). within m r"
  have mem: "map_of es (pre @ encode_descending r) = Some v \<longleftrightarrow> (r, v) \<in> set ?vs" for r v
    using map_of_sorted [OF assms(1)] set_versions [OF assms(2)] by simp
  show ?thesis
  proof (cases "walk_newest pre m es")
    case None
    then have "\<not> within m r" if "(r, v) \<in> set ?vs" for r v using that by (auto simp: walk_newest_def find_None_iff)
    then have "map_of es (pre @ encode_descending r) = None" if "within m r" for r
      using that mem [of r] by (cases "map_of es (pre @ encode_descending r)") auto
    then show ?thesis by (simp add: None newest_of_def)
  next
    case (Some x)
    obtain r v where x: "x = (r, v)" by (cases x)
    from find_sorted [OF sorted_versions [OF assms], of ?P x] Some
    have "x \<in> set ?vs" "?P x" "\<forall>y \<in> set ?vs. ?P y \<longrightarrow> y = x \<or> fst y < fst x" by (simp_all add: walk_newest_def)
    then have "(r, v) \<in> set ?vs" "within m r" "\<And>r' v'. \<lbrakk>(r', v') \<in> set ?vs; within m r'\<rbrakk> \<Longrightarrow> r' \<le> r"
      unfolding x by fastforce+
    then show ?thesis using Some x mem by (fastforce simp: newest_of_def)
  qed
qed

text \<open>
  C31. The newest version at or before a bound. Over a column family whose keys under the prefix are versions, the seek returns
  what the walk from the newest key would return, and that is the version with the greatest revision within the bound, or
  nothing if no version is within it.
\<close>

theorem newest_at_or_before_correct:
  assumes "cf_content db cf es" and "versioned_under pre es"
  shows "newest_at_or_before db cf pre m = Inr (walk_newest pre m es) \<and>
    newest_of (\<lambda>r. map_of es (pre @ encode_descending r)) m (walk_newest pre m es)"
  using cf_content_newest [OF assms, of "prefix_successor pre" m] walk_newest_of [OF _ assms(2)] assms(1)
  by (simp add: newest_at_or_before_def newest_at_or_before_with_def cf_content_def)

text \<open>A database given by the contents of its column families.\<close>

definition sample_db :: "(string \<times> entries) list \<Rightarrow> rocks_db" where
  "sample_db cfs =
     \<lparr>rdb_cfs = map fst cfs,
      rdb_iter = (\<lambda>cf upper seek.
        (filter (\<lambda>(k, v). seek \<le> k \<and> (case upper of None \<Rightarrow> True | Some u \<Rightarrow> k < u))
           (case map_of cfs cf of None \<Rightarrow> [] | Some es \<Rightarrow> es), None)),
      rdb_get = (\<lambda>cf k. Inr (map_of (case map_of cfs cf of None \<Rightarrow> [] | Some es \<Rightarrow> es) k))\<rparr>"

lemma sample_db_content:
  "map_of cfs cf = Some es \<Longrightarrow> sorted_wrt (<) (map fst es) \<Longrightarrow> cf_content (sample_db cfs) cf es"
  by (force simp: cf_content_def sample_db_def dest: map_of_SomeD)

theorem newest_at_or_before_correct_witness:
  "newest_at_or_before (sample_db [(''nodes'', [([7] @ encode_descending (hlc_new 3 0), [1]), ([7] @ encode_descending (hlc_new 1 0), [2])])])
     ''nodes'' [7] (Some (hlc_new 2 9)) = Inr (Some (hlc_new 1 0, [2]))"
proof -
  let ?es = "[([7] @ encode_descending (hlc_new 3 0), [1]), ([7] @ encode_descending (hlc_new 1 0), [2])] :: entries"
  have "sorted_wrt (<) (map fst ?es)" by (simp add: encode_descending_less hlc_less_iff)
  then have "cf_content (sample_db [(''nodes'', ?es)]) ''nodes'' ?es" by (intro sample_db_content) simp_all
  moreover have "versioned_under [7] ?es" by (simp add: versioned_under_def)
  moreover have "walk_newest [7] (Some (hlc_new 2 9)) ?es = Some (hlc_new 1 0, [2])"
    using extract_revision_append [of "[7]" "hlc_new 3 0"] extract_revision_append [of "[7]" "hlc_new 1 0"]
    by (simp add: walk_newest_def map_filter_rec version_of_def within_def hlc_le_iff)
  ultimately show ?thesis using newest_at_or_before_correct by simp
qed

end
