(* ===== verification/Node_Read.thy ===== *)
theory Node_Read
  imports Mvcc_Read
begin

text \<open>
  \<open>raisin-rocksdb/src/mvcc_read/\<close> (\<open>point.rs\<close>, \<open>node_path.rs\<close>, \<open>node_decode.rs\<close>, \<open>baseline.rs\<close>): the reads of one node on top of
  a read source: the entry of a path, the path of a node by the rule that the newer record decides, the decoded node, and
  the versions below and above a revision. A computation over a source is a function of its state; \<open>?\<close> is \<open>src_bind\<close> and
  \<open>if let Ok(..)\<close> is \<open>src_ok\<close>. The MessagePack decoding of a blob is the record \<open>node_codec\<close>, an argument.

  The theorems: a read gives the same answer from every source over the same contents, so single and batched reads agree;
  the reader that holds a blob and the one that does not decide a path alike; the baseline reads return what their bounds
  say.
\<close>

section \<open>Computations over a source\<close>

datatype read_error =
    StorageError string
  | NodeDeleted string
  | InvalidPathEncoding
  | PathNotFound string hlc
  | DeserializationError string
  | DeletedAtVersion string
  | BadKey key_error

type_synonym ('s, 'a) src = "'s \<Rightarrow> (read_error + 'a) \<times> 's"

definition src_return :: "'a \<Rightarrow> ('s, 'a) src" where
  "src_return x s = (Inr x, s)"

definition src_fail :: "read_error \<Rightarrow> ('s, 'a) src" where
  "src_fail e s = (Inl e, s)"

definition src_bind :: "('s, 'a) src \<Rightarrow> ('a \<Rightarrow> ('s, 'b) src) \<Rightarrow> ('s, 'b) src" where
  "src_bind m f s = (case m s of (Inl e, s') \<Rightarrow> (Inl e, s') | (Inr x, s') \<Rightarrow> f x s')"

definition src_ok :: "('s, 'a) src \<Rightarrow> ('s, 'a option) src" where
  "src_ok m s = (case m s of (Inl _, s') \<Rightarrow> (Inr None, s') | (Inr x, s') \<Rightarrow> (Inr (Some x), s'))"

definition newest_in ::
  "'s versioned_read \<Rightarrow> string \<Rightarrow> bytes \<Rightarrow> hlc option \<Rightarrow> ('s, (hlc \<times> bytes) option) src" where
  "newest_in vr cf pre max_revision s =
     (case vr_newest vr s cf pre max_revision of (res, s') \<Rightarrow> (map_sum StorageError id res, s'))"

section \<open>Scopes and column families\<close>

record node_scope =
  ns_tenant_id :: string
  ns_repo_id :: string
  ns_branch :: string
  ns_workspace :: string
  ns_node_id :: string

record embedded_path =
  ep_blob_revision :: hlc
  ep_path :: string

abbreviation "NODES \<equiv> ''nodes''"
abbreviation "PATH_INDEX \<equiv> ''path_index''"
abbreviation "NODE_PATH \<equiv> ''node_path''"

definition nodes_prefix :: "node_scope \<Rightarrow> bytes" where
  "nodes_prefix sc = node_key_prefix (ns_tenant_id sc) (ns_repo_id sc) (ns_branch sc) (ns_workspace sc) (ns_node_id sc)"

definition node_path_prefix :: "node_scope \<Rightarrow> bytes" where
  "node_path_prefix sc =
     node_path_key_prefix (ns_tenant_id sc) (ns_repo_id sc) (ns_branch sc) (ns_workspace sc) (ns_node_id sc)"

definition path_prefix :: "node_scope \<Rightarrow> string \<Rightarrow> bytes" where
  "path_prefix sc path = path_index_key_prefix (ns_tenant_id sc) (ns_repo_id sc) (ns_branch sc) (ns_workspace sc) path"

section \<open>The entry of a path\<close>

definition path_index_entry_in ::
  "'s versioned_read \<Rightarrow> string \<Rightarrow> string \<Rightarrow> string \<Rightarrow> string \<Rightarrow> string \<Rightarrow> hlc option
     \<Rightarrow> ('s, (hlc \<times> string option) option) src" where
  "path_index_entry_in vr tenant_id repo_id branch workspace path max_revision =
     src_bind (newest_in vr PATH_INDEX (path_index_key_prefix tenant_id repo_id branch workspace path) max_revision)
       (\<lambda>res. src_return
          (map_option (\<lambda>(revision, v). (revision, if is_tombstone_value v then None else Some (from_utf8_lossy v))) res))"

section \<open>The path of a node\<close>

definition embedded_path_may_win :: "hlc option \<Rightarrow> hlc \<Rightarrow> bool" where
  "embedded_path_may_win indexed_revision blob_revision \<longleftrightarrow>
     (case indexed_revision of None \<Rightarrow> True | Some indexed \<Rightarrow> indexed \<le> blob_revision)"

definition path_index_confirms :: "'s versioned_read \<Rightarrow> node_scope \<Rightarrow> embedded_path \<Rightarrow> ('s, bool) src" where
  "path_index_confirms vr sc emb =
     src_bind (newest_in vr PATH_INDEX (path_prefix sc (ep_path emb)) (Some (ep_blob_revision emb)))
       (\<lambda>entry. src_return
          (case entry of
             Some (rv, i) \<Rightarrow> rv = ep_blob_revision emb \<and> i = as_bytes (ns_node_id sc)
           | None \<Rightarrow> False))"

definition embedded_path_wins_in ::
  "'s versioned_read \<Rightarrow> node_scope \<Rightarrow> (hlc \<times> bytes) option \<Rightarrow> embedded_path \<Rightarrow> ('s, bool) src" where
  "embedded_path_wins_in vr sc indexed emb =
     (case indexed of
        None \<Rightarrow> src_return True
      | Some (indexed_revision, indexed_value) \<Rightarrow>
          (case hlc_cmp indexed_revision (ep_blob_revision emb) of
             Less \<Rightarrow> src_return True
           | Greater \<Rightarrow> src_return False
           | Equal \<Rightarrow>
               if indexed_value = as_bytes (ep_path emb) then src_return True
               else path_index_confirms vr sc emb))"

definition indexed_path :: "node_scope \<Rightarrow> hlc \<Rightarrow> (hlc \<times> bytes) option \<Rightarrow> read_error + string" where
  "indexed_path sc read_at indexed =
     (case indexed of
        Some (_, v) \<Rightarrow>
          if is_tombstone_value v then Inl (NodeDeleted (ns_node_id sc))
          else (case from_utf8 v of Some p \<Rightarrow> Inr p | None \<Rightarrow> Inl InvalidPathEncoding)
      | None \<Rightarrow> Inl (PathNotFound (ns_node_id sc) read_at))"

definition materialize_path_in ::
  "'s versioned_read \<Rightarrow> node_scope \<Rightarrow> hlc \<Rightarrow> embedded_path option \<Rightarrow> ('s, string) src" where
  "materialize_path_in vr sc read_at embedded =
     src_bind (newest_in vr NODE_PATH (node_path_prefix sc) (Some read_at)) (\<lambda>indexed.
       case embedded of
         Some emb \<Rightarrow>
           src_bind (embedded_path_wins_in vr sc indexed emb) (\<lambda>wins.
             if wins then src_return (ep_path emb) else (\<lambda>s. (indexed_path sc read_at indexed, s)))
       | None \<Rightarrow> (\<lambda>s. (indexed_path sc read_at indexed, s)))"

definition materialize_path :: "rocks_db \<Rightarrow> node_scope \<Rightarrow> hlc \<Rightarrow> embedded_path option \<Rightarrow> read_error + string" where
  "materialize_path db sc read_at embedded = fst (materialize_path_in DbRead sc read_at embedded db)"

section \<open>Decoding a blob\<close>

text \<open>
  A decoded storage node is the path it embeds, if any, and the node it becomes under a path. \<open>nc_head\<close> decodes it without
  its properties.
\<close>

record 'n node_codec =
  nc_head :: "bytes \<Rightarrow> (string option \<times> (string \<Rightarrow> 'n)) option"
  nc_storage :: "bytes \<Rightarrow> (string option \<times> (string \<Rightarrow> 'n)) option"
  nc_node :: "bytes \<Rightarrow> string + 'n"
  nc_path :: "'n \<Rightarrow> string"
  nc_with_path :: "string \<Rightarrow> 'n \<Rightarrow> 'n"
  nc_with_workspace :: "string \<Rightarrow> 'n \<Rightarrow> 'n"

datatype properties_mode = Load | Skip

definition storage_embedded_path :: "string option \<Rightarrow> string option" where
  "storage_embedded_path p = (case p of Some x \<Rightarrow> if x \<noteq> [] then Some x else None | None \<Rightarrow> None)"

definition embedded_path_of :: "'n node_codec \<Rightarrow> bytes \<Rightarrow> string option" where
  "embedded_path_of nc v =
     (case nc_head nc v of
        Some (p, _) \<Rightarrow> storage_embedded_path p
      | None \<Rightarrow> (case nc_node nc v of Inr node \<Rightarrow> if nc_path nc node \<noteq> [] then Some (nc_path nc node) else None | Inl _ \<Rightarrow> None))"

definition deserialize_node_with_path_in ::
  "'s versioned_read \<Rightarrow> 'n node_codec \<Rightarrow> bytes \<Rightarrow> node_scope \<Rightarrow> hlc \<Rightarrow> hlc \<Rightarrow> properties_mode \<Rightarrow> ('s, 'n) src" where
  "deserialize_node_with_path_in vr nc v sc read_at blob_revision mode =
     (let path_for = (\<lambda>p. materialize_path_in vr sc read_at
            (map_option (\<lambda>x. \<lparr>ep_blob_revision = blob_revision, ep_path = x\<rparr>) p));
          fallback =
            (case nc_node nc v of
               Inl e \<Rightarrow> src_fail (DeserializationError e)
             | Inr node \<Rightarrow>
                 src_bind (src_ok (path_for (if nc_path nc node \<noteq> [] then Some (nc_path nc node) else None))) (\<lambda>path.
                   src_return (case path of Some p \<Rightarrow> nc_with_path nc p node | None \<Rightarrow> node)))
      in case (case mode of Skip \<Rightarrow> nc_head nc v | Load \<Rightarrow> nc_storage nc v) of
           Some (p, into_node) \<Rightarrow>
             src_bind (src_ok (path_for (storage_embedded_path p))) (\<lambda>path.
               case path of Some q \<Rightarrow> src_return (into_node q) | None \<Rightarrow> fallback)
         | None \<Rightarrow> fallback)"

definition deserialize_node_with_path_as ::
  "rocks_db \<Rightarrow> 'n node_codec \<Rightarrow> bytes \<Rightarrow> node_scope \<Rightarrow> hlc \<Rightarrow> hlc \<Rightarrow> properties_mode \<Rightarrow> read_error + 'n" where
  "deserialize_node_with_path_as db nc v sc read_at blob_revision mode =
     fst (deserialize_node_with_path_in DbRead nc v sc read_at blob_revision mode db)"

definition deserialize_node_with_path ::
  "rocks_db \<Rightarrow> 'n node_codec \<Rightarrow> bytes \<Rightarrow> node_scope \<Rightarrow> hlc \<Rightarrow> hlc \<Rightarrow> read_error + 'n" where
  "deserialize_node_with_path db nc v sc read_at blob_revision =
     deserialize_node_with_path_as db nc v sc read_at blob_revision Load"

definition decode_entry_with_path ::
  "rocks_db \<Rightarrow> 'n node_codec \<Rightarrow> bytes \<Rightarrow> bytes \<Rightarrow> node_scope \<Rightarrow> hlc \<Rightarrow> read_error + 'n" where
  "decode_entry_with_path db nc key v sc read_at =
     (if is_tombstone_value v then Inl (DeletedAtVersion (ns_node_id sc))
      else case extract_revision_from_key key of
             Inl e \<Rightarrow> Inl (BadKey e)
           | Inr blob_revision \<Rightarrow> deserialize_node_with_path db nc v sc read_at blob_revision)"

definition node_version_in ::
  "'s versioned_read \<Rightarrow> 'n node_codec \<Rightarrow> node_scope \<Rightarrow> hlc \<Rightarrow> properties_mode \<Rightarrow> ('s, (hlc \<times> 'n option) option) src" where
  "node_version_in vr nc sc at mode =
     src_bind (newest_in vr NODES (nodes_prefix sc) (Some at)) (\<lambda>res.
       case res of
         None \<Rightarrow> src_return None
       | Some (revision, v) \<Rightarrow>
           if is_tombstone_value v then src_return (Some (revision, None))
           else src_bind (deserialize_node_with_path_in vr nc v sc at revision mode) (\<lambda>node.
                  src_return (Some (revision, Some node))))"

definition node_record_revision_in :: "'s versioned_read \<Rightarrow> node_scope \<Rightarrow> hlc \<Rightarrow> ('s, hlc option) src" where
  "node_record_revision_in vr sc at =
     src_bind (newest_in vr NODES (nodes_prefix sc) (Some at)) (\<lambda>blob.
       src_bind (newest_in vr NODE_PATH (node_path_prefix sc) (Some at)) (\<lambda>path.
         src_return (opt_max (map_option fst blob) (map_option fst path))))"

section \<open>The current path\<close>

record current_path_record =
  cp_revision :: hlc
  cp_path :: "string option"

definition db_newest :: "rocks_db \<Rightarrow> string \<Rightarrow> bytes \<Rightarrow> hlc option \<Rightarrow> (hlc \<times> bytes) option result" where
  "db_newest db cf pre m = (case cf_handle db cf of Inl e \<Rightarrow> Inl e | Inr _ \<Rightarrow> newest_at_or_before db cf pre m)"

definition current_path ::
  "rocks_db \<Rightarrow> 'n node_codec \<Rightarrow> node_scope \<Rightarrow> hlc option \<Rightarrow> read_error + current_path_record option" where
  "current_path db nc sc max_revision =
     (case db_newest db NODE_PATH (node_path_prefix sc) max_revision of
        Inl e \<Rightarrow> Inl (StorageError e)
      | Inr indexed \<Rightarrow>
          (case db_newest db NODES (nodes_prefix sc) max_revision of
             Inl e \<Rightarrow> Inl (StorageError e)
           | Inr newest \<Rightarrow>
               (let from_index = map_option (\<lambda>(revision, v).
                      \<lparr>cp_revision = revision,
                       cp_path = if is_tombstone_value v then None else Some (from_utf8_lossy v)\<rparr>) indexed;
                    blob = (case newest of
                      None \<Rightarrow> None
                    | Some (rv, v) \<Rightarrow>
                        if is_tombstone_value v \<or> \<not> embedded_path_may_win (map_option fst indexed) rv then None
                        else map_option (\<lambda>path. (rv, path)) (embedded_path_of nc v))
                in case blob of
                     None \<Rightarrow> Inr from_index
                   | Some (blob_revision, path) \<Rightarrow>
                       (case fst (embedded_path_wins_in DbRead sc indexed
                                    \<lparr>ep_blob_revision = blob_revision, ep_path = path\<rparr> db) of
                          Inl e \<Rightarrow> Inl e
                        | Inr True \<Rightarrow> Inr (Some \<lparr>cp_revision = blob_revision, cp_path = Some path\<rparr>)
                        | Inr False \<Rightarrow> Inr from_index))))"

section \<open>The baseline reader\<close>

definition node_version_at_or_before ::
  "rocks_db \<Rightarrow> 'n node_codec \<Rightarrow> node_scope \<Rightarrow> hlc option \<Rightarrow> read_error + (hlc \<times> 'n option) option" where
  "node_version_at_or_before db nc sc max_revision =
     (case db_newest db NODES (nodes_prefix sc) max_revision of
        Inl e \<Rightarrow> Inl (StorageError e)
      | Inr None \<Rightarrow> Inr None
      | Inr (Some (revision, v)) \<Rightarrow>
          if is_tombstone_value v then Inr (Some (revision, None))
          else (case deserialize_node_with_path db nc v sc revision revision of
                  Inl e \<Rightarrow> Inl e
                | Inr node \<Rightarrow> Inr (Some (revision, Some (nc_with_workspace nc (ns_workspace sc) node)))))"

definition hlc_predecessor :: "hlc \<Rightarrow> hlc option" where
  "hlc_predecessor r =
     (if hlc_timestamp_ms r = 0 \<and> hlc_counter r = 0 then None
      else if hlc_counter r = 0 then Some (hlc_new (hlc_timestamp_ms r - 1) u64_MAX)
      else Some (hlc_new (hlc_timestamp_ms r) (hlc_counter r - 1)))"

definition node_version_before ::
  "rocks_db \<Rightarrow> 'n node_codec \<Rightarrow> node_scope \<Rightarrow> hlc \<Rightarrow> read_error + (hlc \<times> 'n option) option" where
  "node_version_before db nc sc revision =
     (case hlc_predecessor revision of
        Some bound \<Rightarrow> node_version_at_or_before db nc sc (Some bound)
      | None \<Rightarrow> Inr None)"

fun versions_loop ::
  "bytes \<Rightarrow> hlc option \<Rightarrow> (hlc \<Rightarrow> bytes \<Rightarrow> 'a \<Rightarrow> read_error + 'a) \<Rightarrow> 'a \<Rightarrow> entries \<Rightarrow> string option \<Rightarrow> read_error + 'a" where
  "versions_loop pre over visit st [] status = map_sum StorageError id (status_result status st)"
| "versions_loop pre over visit st ((key, v) # es) status =
     (if \<not> prefix pre key \<or> length key \<noteq> length pre + 16 then Inr st
      else case extract_revision_from_key key of
             Inl _ \<Rightarrow> versions_loop pre over visit st es status
           | Inr at \<Rightarrow>
               if (case over of None \<Rightarrow> False | Some a \<Rightarrow> at \<le> a) then Inr st
               else (case visit at v st of
                       Inl e \<Rightarrow> Inl e
                     | Inr st' \<Rightarrow> versions_loop pre over visit st' es status))"

definition scan_versions ::
  "rocks_db \<Rightarrow> node_scope \<Rightarrow> hlc option \<Rightarrow> (hlc \<Rightarrow> bytes \<Rightarrow> 'a \<Rightarrow> read_error + 'a) \<Rightarrow> 'a \<Rightarrow> read_error + 'a" where
  "scan_versions db sc over visit st =
     (case cf_handle db NODES of
        Inl e \<Rightarrow> Inl (StorageError e)
      | Inr _ \<Rightarrow>
          (case rdb_iter db NODES (prefix_successor (nodes_prefix sc)) (nodes_prefix sc) of
             (es, status) \<Rightarrow> versions_loop (nodes_prefix sc) over visit st es status))"

definition stored_version :: "rocks_db \<Rightarrow> 'n node_codec \<Rightarrow> node_scope \<Rightarrow> hlc \<Rightarrow> bytes \<Rightarrow> read_error + (hlc \<times> 'n option)" where
  "stored_version db nc sc at v =
     (if is_tombstone_value v then Inr (at, None)
      else case deserialize_node_with_path db nc v sc at at of
             Inl e \<Rightarrow> Inl e
           | Inr node \<Rightarrow> Inr (at, Some (nc_with_workspace nc (ns_workspace sc) node)))"

definition node_versions_above ::
  "rocks_db \<Rightarrow> 'n node_codec \<Rightarrow> node_scope \<Rightarrow> hlc \<Rightarrow> read_error + (hlc \<times> 'n option) list" where
  "node_versions_above db nc sc revision =
     map_sum id rev
       (scan_versions db sc (Some revision)
          (\<lambda>at v out. case stored_version db nc sc at v of Inl e \<Rightarrow> Inl e | Inr x \<Rightarrow> Inr (out @ [x])) [])"

section \<open>Every source gives the same answer\<close>

definition view_read :: "(string \<Rightarrow> entries) \<Rightarrow> unit versioned_read" where
  "view_read C =
     \<lparr>vr_newest = (\<lambda>_ cf pre m. (Inr (walk_newest pre m (C cf)), ())),
      vr_stream = (\<lambda>_ cf pre seek. (Inr (entries_under pre seek (C cf), None), ())),
      vr_get = (\<lambda>_ cf k. (Inr (map_of (C cf) k), ())), vr_has_cf = (\<lambda>_ _. True)\<rparr>"

definition view_ok :: "(string \<Rightarrow> entries) \<Rightarrow> node_scope \<Rightarrow> bool" where
  "view_ok C sc \<longleftrightarrow>
     versioned_under (nodes_prefix sc) (C NODES) \<and> versioned_under (node_path_prefix sc) (C NODE_PATH) \<and>
     (\<forall>p. versioned_under (path_prefix sc p) (C PATH_INDEX))"

definition agrees :: "('s \<Rightarrow> bool) \<Rightarrow> ('s, 'a) src \<Rightarrow> (unit, 'a) src \<Rightarrow> bool" where
  "agrees ok m m' \<longleftrightarrow> (\<forall>s. ok s \<longrightarrow> fst (m s) = fst (m' ()) \<and> ok (snd (m s)))"

lemma agreesD: "agrees ok m m' \<Longrightarrow> ok s \<Longrightarrow> fst (m s) = fst (m' ())"
  by (simp add: agrees_def)

named_theorems agree_rules "computations that give the same answer over two sources"

lemma agrees_return [agree_rules]: "agrees ok (src_return x) (src_return x)"
  by (simp add: agrees_def src_return_def)

lemma agrees_fail [agree_rules]: "agrees ok (src_fail e) (src_fail e)"
  by (simp add: agrees_def src_fail_def)

lemma agrees_const [agree_rules]: "agrees ok (\<lambda>s. (res, s)) (\<lambda>s. (res, s))"
  by (simp add: agrees_def)

lemma agrees_bind [agree_rules]:
  assumes "agrees ok m m'" and "\<And>x. agrees ok (f x) (f' x)"
  shows "agrees ok (src_bind m f) (src_bind m' f')"
  unfolding agrees_def
proof (intro allI impI)
  fix s assume "ok s"
  with assms(1) have "fst (m s) = fst (m' ())" and "ok (snd (m s))" by (auto simp: agrees_def)
  with assms(2) show "fst (src_bind m f s) = fst (src_bind m' f' ()) \<and> ok (snd (src_bind m f s))"
    by (auto simp: src_bind_def agrees_def split: prod.splits sum.splits)
qed

lemma agrees_ok [agree_rules]: "agrees ok m m' \<Longrightarrow> agrees ok (src_ok m) (src_ok m')"
  by (fastforce simp: agrees_def src_ok_def split: prod.splits sum.splits)

lemma agrees_if [agree_rules]: "agrees ok a a' \<Longrightarrow> agrees ok b b' \<Longrightarrow> agrees ok (if c then a else b) (if c then a' else b')"
  by simp

lemma agrees_option [agree_rules]:
  "agrees ok a a' \<Longrightarrow> (\<And>x. agrees ok (f x) (f' x)) \<Longrightarrow>
   agrees ok (case z of None \<Rightarrow> a | Some x \<Rightarrow> f x) (case z of None \<Rightarrow> a' | Some x \<Rightarrow> f' x)"
  by (cases z) simp_all

lemma agrees_prod [agree_rules]:
  "(\<And>x y. agrees ok (f x y) (f' x y)) \<Longrightarrow> agrees ok (case z of (x, y) \<Rightarrow> f x y) (case z of (x, y) \<Rightarrow> f' x y)"
  by (cases z) simp

lemma agrees_sum [agree_rules]:
  "(\<And>x. agrees ok (f x) (f' x)) \<Longrightarrow> (\<And>x. agrees ok (g x) (g' x)) \<Longrightarrow>
   agrees ok (case z of Inl x \<Rightarrow> f x | Inr x \<Rightarrow> g x) (case z of Inl x \<Rightarrow> f' x | Inr x \<Rightarrow> g' x)"
  by (cases z) simp_all

lemma agrees_cmp [agree_rules]:
  "agrees ok a a' \<Longrightarrow> agrees ok b b' \<Longrightarrow> agrees ok c c' \<Longrightarrow>
   agrees ok (case z of Less \<Rightarrow> a | Equal \<Rightarrow> b | Greater \<Rightarrow> c) (case z of Less \<Rightarrow> a' | Equal \<Rightarrow> b' | Greater \<Rightarrow> c')"
  by (cases z) simp_all

context versioned_source
begin

lemma agrees_newest:
  assumes "versioned_under pre (C cf)" and "cf \<in> cfs"
  shows "agrees (\<lambda>s. \<forall>cf \<in> cfs. sees s cf (C cf)) (newest_in vr cf pre m) (newest_in (view_read C) cf pre m)"
  unfolding agrees_def
proof (intro allI impI)
  fix s assume s: "\<forall>cf \<in> cfs. sees s cf (C cf)"
  from newest_law [OF bspec [OF s assms(2)] assms(1), of m] obtain s' where
    "vr_newest vr s cf pre m = (Inr (walk_newest pre m (C cf)), s')" "sees s' = sees s" by blast
  with s show "fst (newest_in vr cf pre m s) = fst (newest_in (view_read C) cf pre m ()) \<and>
      (\<forall>c \<in> cfs. sees (snd (newest_in vr cf pre m s)) c (C c))"
    by (simp add: newest_in_def view_read_def)
qed

lemma agrees_materialize:
  assumes "view_ok C sc" and "{NODE_PATH, PATH_INDEX} \<subseteq> cfs"
  shows "agrees (\<lambda>s. \<forall>cf \<in> cfs. sees s cf (C cf))
    (materialize_path_in vr sc at emb) (materialize_path_in (view_read C) sc at emb)"
  unfolding materialize_path_in_def embedded_path_wins_in_def path_index_confirms_def
  by (intro agree_rules agrees_newest; use assms in \<open>simp add: view_ok_def\<close>)

lemma agrees_node_version:
  assumes "view_ok C sc" and "{NODES, NODE_PATH, PATH_INDEX} \<subseteq> cfs"
  shows "agrees (\<lambda>s. \<forall>cf \<in> cfs. sees s cf (C cf))
    (node_version_in vr nc sc at mode) (node_version_in (view_read C) nc sc at mode)"
  unfolding node_version_in_def deserialize_node_with_path_in_def Let_def
  by (intro agree_rules agrees_newest agrees_materialize; use assms in \<open>simp add: view_ok_def\<close>)

lemma agrees_record_revision:
  assumes "view_ok C sc" and "{NODES, NODE_PATH} \<subseteq> cfs"
  shows "agrees (\<lambda>s. \<forall>cf \<in> cfs. sees s cf (C cf))
    (node_record_revision_in vr sc at) (node_record_revision_in (view_read C) sc at)"
  unfolding node_record_revision_in_def
  by (intro agree_rules agrees_newest; use assms in \<open>simp add: view_ok_def\<close>)

end

text \<open>
  Single and batched reads agree. Over the same contents, reading a node through iterators pinned to a snapshot, with or
  without recording, gives the answer of the read on the live database, and so does the revision a reader compares them by.
\<close>

theorem batched_reads_agree:
  fixes nc :: "'n node_codec"
  assumes "\<forall>cf \<in> {NODES, NODE_PATH, PATH_INDEX}. cf_content db cf (C cf) \<and> snapshot_sees s cf (C cf)" and "view_ok C sc"
  shows "fst (node_version_in SnapshotRead nc sc at mode s) = fst (node_version_in DbRead nc sc at mode db) \<and>
    fst (node_version_in (Recorded SnapshotRead) nc sc at mode (recorded_new s)) = fst (node_version_in DbRead nc sc at mode db) \<and>
    fst (node_record_revision_in SnapshotRead sc at s) = fst (node_record_revision_in DbRead sc at db)"
proof -
  let ?cfs = "{NODES, NODE_PATH, PATH_INDEX}"
  have "\<forall>cf \<in> ?cfs. snapshot_sees (fst (recorded_new s)) cf (C cf)" using assms(1) by (simp add: recorded_new_def)
  moreover have "\<forall>cf \<in> ?cfs. snapshot_sees s cf (C cf)" "\<forall>cf \<in> ?cfs. cf_content db cf (C cf)" using assms(1) by blast+
  moreover have all: "{NODES, NODE_PATH, PATH_INDEX} \<subseteq> ?cfs" "{NODES, NODE_PATH} \<subseteq> ?cfs" by simp_all
  ultimately show ?thesis
    using agreesD [OF snapshot_read.agrees_node_version [OF assms(2) all(1)], of s nc at mode]
      agreesD [OF db_read.agrees_node_version [OF assms(2) all(1)], of db nc at mode]
      agreesD [OF recorded_snapshot.agrees_node_version [OF assms(2) all(1)], of "recorded_new s" nc at mode]
      agreesD [OF snapshot_read.agrees_record_revision [OF assms(2) all(2)], of s at]
      agreesD [OF db_read.agrees_record_revision [OF assms(2) all(2)], of db at]
    by presburger
qed

section \<open>One rule for the path\<close>

lemma db_newest_content:
  "\<lbrakk>cf_content db cf es; versioned_under pre es\<rbrakk> \<Longrightarrow> db_newest db cf pre m = Inr (walk_newest pre m es)"
  using cf_content_newest [of db cf es pre "prefix_successor pre" m]
  by (simp add: db_newest_def newest_at_or_before_def newest_at_or_before_with_def)

lemma newest_in_db:
  "\<lbrakk>cf_content db cf es; versioned_under pre es\<rbrakk> \<Longrightarrow> newest_in DbRead cf pre m db = (Inr (walk_newest pre m es), db)"
  using cf_content_newest [of db cf es pre "prefix_successor pre" m]
  by (simp add: newest_in_def DbRead_def db_read_newest_def newest_at_or_before_with_def)

lemma path_wins_db:
  assumes "cf_content db PATH_INDEX (C PATH_INDEX)" and "view_ok C sc"
  shows "\<exists>w. embedded_path_wins_in DbRead sc indexed emb db = (Inr w, db) \<and>
    (\<forall>rv v. indexed = Some (rv, v) \<and> ep_blob_revision emb < rv \<longrightarrow> \<not> w)"
proof -
  have "newest_in DbRead PATH_INDEX (path_prefix sc p) m db = (Inr (walk_newest (path_prefix sc p) m (C PATH_INDEX)), db)" for p m
    using assms by (intro newest_in_db) (simp_all add: view_ok_def)
  then show ?thesis
    by (auto simp: embedded_path_wins_in_def path_index_confirms_def src_bind_def src_return_def hlc_cmp_cmp_of cmp_of_def
        split: option.split)
qed

text \<open>
  The path rule is one rule. At a revision at which the newest blob of a node is live, the resolver that starts from no blob
  gives the path of the reader that holds the blob: the same path, a deleted node where the other reports one, and nothing
  where the other finds no path. The entries of \<open>NODE_PATH\<close> are taken to be valid text.
\<close>

theorem current_path_agrees:
  fixes nc :: "'n node_codec"
  assumes "\<forall>cf \<in> {NODES, NODE_PATH, PATH_INDEX}. cf_content db cf (C cf)" and "view_ok C sc"
    and "walk_newest (nodes_prefix sc) (Some at) (C NODES) = Some (rb, v)" and "\<not> is_tombstone_value v"
    and "\<forall>(k, x) \<in> set (C NODE_PATH). utf8_valid x"
  shows "\<exists>cp. current_path db nc sc (Some at) = Inr cp \<and>
    materialize_path db sc at (map_option (\<lambda>p. \<lparr>ep_blob_revision = rb, ep_path = p\<rparr>) (embedded_path_of nc v)) =
      (case cp of
         None \<Rightarrow> Inl (PathNotFound (ns_node_id sc) at)
       | Some c \<Rightarrow> (case cp_path c of None \<Rightarrow> Inl (NodeDeleted (ns_node_id sc)) | Some p \<Rightarrow> Inr p))"
proof -
  define idx where "idx = walk_newest (node_path_prefix sc) (Some at) (C NODE_PATH)"
  have dbn: "db_newest db NODE_PATH (node_path_prefix sc) (Some at) = Inr idx"
    "db_newest db NODES (nodes_prefix sc) (Some at) = Inr (Some (rb, v))"
    "newest_in DbRead NODE_PATH (node_path_prefix sc) (Some at) db = (Inr idx, db)"
    using assms(1,2) db_newest_content [of db NODE_PATH "C NODE_PATH" "node_path_prefix sc" "Some at"]
      db_newest_content [of db NODES "C NODES" "nodes_prefix sc" "Some at"] newest_in_db [of db NODE_PATH "C NODE_PATH" "node_path_prefix sc"]
    by (simp_all add: view_ok_def idx_def assms(3))
  have utf: "from_utf8 x = Some (from_utf8_lossy x)" if "idx = Some (r, x)" for r x
  proof -
    have "(r, x) \<in> set (List.map_filter (version_of (node_path_prefix sc)) (C NODE_PATH))"
      using that unfolding idx_def walk_newest_def find_Some_iff by (metis nth_mem)
    then have "(node_path_prefix sc @ encode_descending r, x) \<in> set (C NODE_PATH)"
      using assms(2) by (simp add: set_versions view_ok_def)
    with assms(5) show ?thesis by (auto simp: from_utf8_def from_utf8_lossy_def lossy_bytes_valid)
  qed
  show ?thesis
  proof (cases "embedded_path_of nc v")
    case None
    then show ?thesis using utf
      by (cases idx) (auto simp: current_path_def dbn materialize_path_def materialize_path_in_def src_bind_def indexed_path_def Let_def assms(4))
  next
    case (Some p)
    let ?emb = "\<lparr>ep_blob_revision = rb, ep_path = p\<rparr>"
    from path_wins_db [of db C sc idx ?emb] assms(1,2) obtain w where w: "embedded_path_wins_in DbRead sc idx ?emb db = (Inr w, db)"
      "\<forall>rv v. idx = Some (rv, v) \<and> rb < rv \<longrightarrow> \<not> w" by auto
    show ?thesis using utf w Some
      by (cases idx; cases w) (auto simp: current_path_def dbn materialize_path_def materialize_path_in_def src_bind_def
          src_return_def indexed_path_def embedded_path_may_win_def Let_def assms(4))
  qed
qed

section \<open>The baseline reads\<close>

lemma u64_less_pred_iff:
  assumes "y \<noteq> 0"
  shows "x < y \<longleftrightarrow> x \<le> y - (1 :: u64)"
proof -
  have pos: "0 < unat y" using assms unsigned_eq_0_iff [of y, where ?'a = nat] by auto
  then have "unat (y - 1) = unat y - 1" by (simp add: unat_sub_if_size)
  with pos show ?thesis unfolding word_less_nat_alt word_le_nat_alt by linarith
qed

lemma predecessor_greatest:
  "case hlc_predecessor r of None \<Rightarrow> \<not> r' < r | Some p \<Rightarrow> r' < r \<longleftrightarrow> r' \<le> p"
proof -
  consider "hlc_timestamp_ms r = 0" "hlc_counter r = 0" | "hlc_timestamp_ms r \<noteq> 0" "hlc_counter r = 0" | "hlc_counter r \<noteq> 0"
    by blast
  then show ?thesis
  proof cases
    case 1
    then show ?thesis by (simp add: hlc_predecessor_def hlc_less_iff)
  next
    case 2
    then show ?thesis
      using u64_less_pred_iff [OF 2(1), of "hlc_timestamp_ms r'"] by (auto simp: hlc_predecessor_def hlc_less_iff hlc_le_iff)
  next
    case 3
    then show ?thesis
      using u64_less_pred_iff [OF 3, of "hlc_counter r'"] by (simp add: hlc_predecessor_def hlc_less_iff hlc_le_iff)
  qed
qed

lemma walk_newest_strict:
  assumes "hlc_predecessor r = Some p"
  shows "walk_newest pre (Some p) es = List.find (\<lambda>(a, v). a < r) (List.map_filter (version_of pre) es)"
proof -
  have "within (Some p) a \<longleftrightarrow> a < r" for a using predecessor_greatest [of a r] assms by (simp add: within_def)
  then show ?thesis by (simp add: walk_newest_def)
qed

fun collect_versions :: "(hlc \<Rightarrow> bytes \<Rightarrow> read_error + 'x) \<Rightarrow> 'x list \<Rightarrow> (hlc \<times> bytes) list \<Rightarrow> read_error + 'x list" where
  "collect_versions f out [] = Inr out"
| "collect_versions f out ((a, v) # vs) = (case f a v of Inl e \<Rightarrow> Inl e | Inr x \<Rightarrow> collect_versions f (out @ [x]) vs)"

lemma collect_versions_iff:
  "collect_versions f out vs = Inr res \<longleftrightarrow> (\<exists>xs. list_all2 (\<lambda>(a, v) x. f a v = Inr x) vs xs \<and> res = out @ xs)"
proof (induction f out vs rule: collect_versions.induct)
  case (2 f out a v vs)
  then show ?case by (cases "f a v") (auto simp: list_all2_Cons1)
qed auto

lemma all2_results:
  assumes "list_all2 (\<lambda>(a, v) x. f a v = Inr x) vs xs"
  shows "x \<in> set xs \<longleftrightarrow> (\<exists>a v. (a, v) \<in> set vs \<and> f a v = Inr x)"
  using assms by (induction vs xs rule: list_all2_induct) auto

lemma collect_versions_returns:
  "(\<And>a v. (a, v) \<in> set vs \<Longrightarrow> \<exists>x. f a v = Inr x) \<Longrightarrow> \<exists>res. collect_versions f out vs = Inr res"
proof (induction f out vs rule: collect_versions.induct)
  case (2 f out a v vs)
  from "2.prems" [of a v] obtain x where "f a v = Inr x" by auto
  with 2 show ?case by auto
qed simp

lemma versions_loop_collect:
  assumes "\<forall>(k, v) \<in> set es. prefix pre k \<and> length k = length pre + 16"
  shows "versions_loop pre (Some r) (\<lambda>a v out. case f a v of Inl e \<Rightarrow> Inl e | Inr x \<Rightarrow> Inr (out @ [x])) out es None =
    collect_versions f out (takeWhile (\<lambda>(a, v). r < a) (List.map_filter (version_of pre) es))"
  using assms
proof (induction es arbitrary: out)
  case (Cons e es)
  obtain k v where e: "e = (k, v)" by (cases e)
  from Cons.prems have k: "prefix pre k" "length k = length pre + 16" by (simp_all add: e)
  from versioned_key [OF k] obtain a where a: "extract_revision_from_key k = Inr a" by blast
  have "version_of pre e = Some (a, v)" using k(1) a by (simp add: e version_of_def)
  with Cons k a show ?case
    by (cases "f a v") (auto simp: e map_filter_rec not_le [symmetric])
qed (simp add: map_filter_rec status_result_def)

lemma entries_under_versions:
  "List.map_filter (version_of pre) (entries_under pre pre es) = List.map_filter (version_of pre) es"
proof (induction es)
  case (Cons e es)
  show ?case
  proof (cases "prefix pre (fst e)")
    case True
    with Cons prefix_imp_le [OF True] show ?thesis
      by (auto simp: entries_under_def map_filter_rec split: option.split prod.split)
  next
    case False
    then have "version_of pre e = None" by (simp add: version_of_def)
    with Cons False show ?thesis by (auto simp: entries_under_def map_filter_rec split: prod.split)
  qed
qed (simp add: entries_under_def)

lemma takeWhile_versions:
  assumes "sorted_wrt (\<lambda>a b. fst b < fst a) vs"
  shows "takeWhile (\<lambda>(a, v). r < a) vs = filter (\<lambda>(a, v). (r :: hlc) < a) vs"
proof (rule takeWhile_filter_initial, rule sorted_wrt_mono_rel [OF _ assms])
  fix x y :: "hlc \<times> 'b"
  assume "fst y < fst x"
  then show "(case y of (a, v) \<Rightarrow> r < a) \<longrightarrow> (case x of (a, v) \<Rightarrow> r < a)" by (auto split: prod.splits)
qed

lemma node_versions_above_collect:
  assumes "cf_content db NODES es" and "versioned_under (nodes_prefix sc) es"
  shows "node_versions_above db nc sc r =
    map_sum id rev (collect_versions (stored_version db nc sc) []
      (filter (\<lambda>(a, v). r < a) (List.map_filter (version_of (nodes_prefix sc)) es)))"
proof -
  let ?p = "nodes_prefix sc"
  from cf_content_stream [OF assms(1), of ?p ?p "prefix_successor ?p"] obtain es' where
    es': "rdb_iter db NODES (prefix_successor ?p) ?p = (es', None)" "takeWhile (\<lambda>(k, v). prefix ?p k) es' = entries_under ?p ?p es"
    by auto
  have "rdb_iter db NODES (prefix_successor ?p) ?p = (entries_under ?p ?p es, None)"
  proof -
    have "\<forall>(k, v) \<in> set es'. prefix ?p k"
      using assms(1) es'(1) prefix_successor_exact [of ?p] by (auto simp: cf_content_def)
    then show ?thesis using es' by (metis (mono_tags, lifting) takeWhile_eq_all_conv)
  qed
  moreover have "\<forall>(k, v) \<in> set (entries_under ?p ?p es). prefix ?p k \<and> length k = length ?p + 16"
    using assms(2) by (auto simp: entries_under_def versioned_under_def)
  moreover have "sorted_wrt (<) (map fst es)" using assms(1) by (simp add: cf_content_def)
  note sorted_versions [OF this assms(2)]
  ultimately show ?thesis
    using cf_handle_content [OF assms(1)]
    by (simp add: node_versions_above_def scan_versions_def versions_loop_collect entries_under_versions takeWhile_versions)
qed

lemma stored_version_fst: "stored_version db nc sc a v = Inr x \<Longrightarrow> fst x = a"
  by (auto simp: stored_version_def split: if_splits sum.splits)

lemma node_version_at_stored:
  assumes "cf_content db NODES es" and "versioned_under (nodes_prefix sc) es"
  shows "node_version_at_or_before db nc sc m =
    (case walk_newest (nodes_prefix sc) m es of None \<Rightarrow> Inr None | Some (a, v) \<Rightarrow> map_sum id Some (stored_version db nc sc a v))"
  using db_newest_content [OF assms, of m]
  by (auto simp: node_version_at_or_before_def stored_version_def split: option.split sum.split)

text \<open>
  The baseline reads. The version before a revision is the stored version with the greatest revision strictly below it, if
  there is one; the versions above a revision, when all of them decode, are exactly the stored versions strictly above it,
  oldest first, and the call then succeeds.
\<close>

theorem baseline_reads:
  fixes nc :: "'n node_codec"
  assumes "cf_content db NODES es" and "versioned_under (nodes_prefix sc) es"
  defines "history \<equiv> \<lambda>a. map_of es (nodes_prefix sc @ encode_descending a)"
  shows "(\<exists>res. newest_of (\<lambda>a. if a < r then history a else None) None res \<and>
      node_version_before db nc sc r =
        (case res of None \<Rightarrow> Inr None | Some (a, v) \<Rightarrow> map_sum id Some (stored_version db nc sc a v))) \<and>
    (\<forall>out. node_versions_above db nc sc r = Inr out \<longrightarrow>
      sorted_wrt (\<lambda>x y. fst x < fst y) out \<and>
      (\<forall>x. x \<in> set out \<longleftrightarrow> (\<exists>a v. r < a \<and> history a = Some v \<and> stored_version db nc sc a v = Inr x))) \<and>
    ((\<forall>a v. r < a \<and> history a = Some v \<longrightarrow> (\<exists>x. stored_version db nc sc a v = Inr x)) \<longrightarrow>
      (\<exists>out. node_versions_above db nc sc r = Inr out))"
proof (intro conjI allI impI)
  let ?p = "nodes_prefix sc" and ?vs = "List.map_filter (version_of (nodes_prefix sc)) es"
  have srt: "sorted_wrt (<) (map fst es)" using assms(1) by (simp add: cf_content_def)
  have mem: "history a = Some v \<longleftrightarrow> (a, v) \<in> set ?vs" for a v
    using map_of_sorted [OF srt] set_versions [OF assms(2)] by (simp add: history_def)
  have desc: "sorted_wrt (\<lambda>a b. fst b < fst a) ?vs" by (rule sorted_versions [OF srt assms(2)])
  show "\<exists>res. newest_of (\<lambda>a. if a < r then history a else None) None res \<and>
      node_version_before db nc sc r =
        (case res of None \<Rightarrow> Inr None | Some (a, v) \<Rightarrow> map_sum id Some (stored_version db nc sc a v))"
  proof (cases "hlc_predecessor r")
    case None
    then have "\<not> a < r" for a using predecessor_greatest [of a r] by simp
    with None show ?thesis by (intro exI [of _ None]) (simp add: newest_of_def node_version_before_def)
  next
    case (Some p)
    then have lt: "a < r \<longleftrightarrow> within (Some p) a" for a using predecessor_greatest [of a r] by (simp add: within_def)
    have "newest_of (\<lambda>a. if a < r then history a else None) None (walk_newest ?p (Some p) es)"
      using walk_newest_of [OF srt assms(2), of "Some p"] unfolding newest_of_def history_def lt
      by (auto simp: within_def split: option.splits)
    then show ?thesis
      using node_version_at_stored [OF assms(1,2), of nc "Some p"] Some by (auto simp: node_version_before_def)
  qed
  let ?above = "filter (\<lambda>(a, v). r < a) ?vs"
  have above: "node_versions_above db nc sc r = map_sum id rev (collect_versions (stored_version db nc sc) [] ?above)"
    by (rule node_versions_above_collect [OF assms(1,2)])
  have Ball_above: "(a, v) \<in> set ?above \<longleftrightarrow> r < a \<and> history a = Some v" for a v using mem by auto
  {
    fix out assume "node_versions_above db nc sc r = Inr out"
    then obtain xs where xs: "list_all2 (\<lambda>(a, v) x. stored_version db nc sc a v = Inr x) ?above xs" "out = rev xs"
      unfolding above by (cases "collect_versions (stored_version db nc sc) [] ?above") (auto simp: collect_versions_iff)
    have "list_all2 (\<lambda>e x. fst x = fst e) ?above xs"
      using xs(1) by (rule list_all2_mono) (auto dest: stored_version_fst)
    then have fsts: "map fst xs = map fst ?above" by (simp add: list_all2_conv_all_nth list_eq_iff_nth_eq)
    have "sorted_wrt (\<lambda>a b. b < a) (map fst ?above)" using sorted_wrt_filter [OF desc] by (simp add: sorted_wrt_map)
    then have "sorted_wrt (\<lambda>x y. fst y < fst x) xs" unfolding fsts [symmetric] by (simp add: sorted_wrt_map)
    then show "sorted_wrt (\<lambda>x y. fst x < fst y) out" by (simp add: xs(2) sorted_wrt_rev)
    show "x \<in> set out \<longleftrightarrow> (\<exists>a v. r < a \<and> history a = Some v \<and> stored_version db nc sc a v = Inr x)" for x
      using all2_results [OF xs(1), of x] unfolding Ball_above by (simp add: xs(2) conj_assoc)
  }
  assume "\<forall>a v. r < a \<and> history a = Some v \<longrightarrow> (\<exists>x. stored_version db nc sc a v = Inr x)"
  then have "\<exists>res. collect_versions (stored_version db nc sc) [] ?above = Inr res"
    using Ball_above by (intro collect_versions_returns) blast
  then show "\<exists>out. node_versions_above db nc sc r = Inr out" unfolding above by auto
qed

section \<open>A sample database\<close>

definition sample_scope :: node_scope where
  "sample_scope = \<lparr>ns_tenant_id = ''t'', ns_repo_id = ''r'', ns_branch = ''main'', ns_workspace = ''ws'', ns_node_id = ''n''\<rparr>"

definition sample_codec :: "string node_codec" where
  "sample_codec =
     \<lparr>nc_head = (\<lambda>_. Some (None, id)), nc_storage = (\<lambda>_. Some (None, id)), nc_node = (\<lambda>_. Inl ''not a node''),
      nc_path = id, nc_with_path = (\<lambda>p _. p), nc_with_workspace = (\<lambda>_ n. n)\<rparr>"

definition sample_cfs :: "(string \<times> entries) list" where
  "sample_cfs =
     [(NODES, [(nodes_prefix sample_scope @ encode_descending (hlc_new 2 0), [1]),
               (nodes_prefix sample_scope @ encode_descending (hlc_new 1 0), [1])]),
      (NODE_PATH, [(node_path_prefix sample_scope @ encode_descending (hlc_new 1 0), as_bytes ''/a'')]),
      (PATH_INDEX, [])]"

abbreviation sample_view :: "string \<Rightarrow> entries" where
  "sample_view cf \<equiv> (case map_of sample_cfs cf of None \<Rightarrow> [] | Some es \<Rightarrow> es)"

lemma sample_view_content:
  "\<forall>cf \<in> {NODES, NODE_PATH, PATH_INDEX}. cf_content (sample_db sample_cfs) cf (sample_view cf)"
proof
  fix cf assume cf: "cf \<in> {NODES, NODE_PATH, PATH_INDEX}"
  have "encode_descending (hlc_new 2 0) < encode_descending (hlc_new 1 0)" by (simp add: encode_descending_less hlc_less_iff)
  with cf show "cf_content (sample_db sample_cfs) cf (sample_view cf)"
    by (intro sample_db_content) (auto simp: sample_cfs_def)
qed

lemma sample_view_ok: "view_ok sample_view sample_scope"
  by (simp add: view_ok_def sample_cfs_def versioned_under_def)

theorem batched_reads_agree_witness:
  "fst (node_version_in SnapshotRead sample_codec sample_scope (hlc_new 3 0) Load
      (snapshot_read_new (sample_db sample_cfs) (sample_db sample_cfs))) =
   fst (node_version_in DbRead sample_codec sample_scope (hlc_new 3 0) Load (sample_db sample_cfs))"
proof -
  have "\<forall>cf \<in> {NODES, NODE_PATH, PATH_INDEX}. cf_content (sample_db sample_cfs) cf (sample_view cf) \<and>
      snapshot_sees (snapshot_read_new (sample_db sample_cfs) (sample_db sample_cfs)) cf (sample_view cf)"
    using sample_view_content by (auto simp: snapshot_read_new_def sr_view_def cf_content_def)
  from batched_reads_agree [OF this sample_view_ok, of sample_codec "hlc_new 3 0" Load] show ?thesis by blast
qed

lemma sample_walk:
  "walk_newest (nodes_prefix sample_scope) (Some (hlc_new 3 0)) (sample_view NODES) = Some (hlc_new 2 0, [1])"
  by (simp add: sample_cfs_def walk_newest_def map_filter_rec version_of_def within_def hlc_le_iff)

theorem current_path_agrees_witness:
  "\<exists>cp. current_path (sample_db sample_cfs) sample_codec sample_scope (Some (hlc_new 3 0)) = Inr cp \<and>
    materialize_path (sample_db sample_cfs) sample_scope (hlc_new 3 0) None =
      (case cp of
         None \<Rightarrow> Inl (PathNotFound (ns_node_id sample_scope) (hlc_new 3 0))
       | Some c \<Rightarrow> (case cp_path c of None \<Rightarrow> Inl (NodeDeleted (ns_node_id sample_scope)) | Some p \<Rightarrow> Inr p))"
proof -
  have "\<not> is_tombstone_value [1]" by (simp add: is_tombstone_value_def TOMBSTONE_VALUE_def as_bytes_def)
  moreover have "\<forall>(k, x) \<in> set (sample_view NODE_PATH). utf8_valid x" by (simp add: sample_cfs_def as_bytes_def)
  moreover have "embedded_path_of sample_codec [1] = None"
    by (simp add: sample_codec_def embedded_path_of_def storage_embedded_path_def)
  ultimately show ?thesis
    using current_path_agrees [OF sample_view_content sample_view_ok sample_walk, of sample_codec] by simp
qed

theorem baseline_reads_witness:
  "\<exists>res. newest_of (\<lambda>a. if a < hlc_new 2 0 then map_of (sample_view NODES) (nodes_prefix sample_scope @ encode_descending a) else None)
      None res \<and>
    node_version_before (sample_db sample_cfs) sample_codec sample_scope (hlc_new 2 0) =
      (case res of
         None \<Rightarrow> Inr None
       | Some (a, v) \<Rightarrow> map_sum id Some (stored_version (sample_db sample_cfs) sample_codec sample_scope a v))"
proof -
  have "cf_content (sample_db sample_cfs) NODES (sample_view NODES)" using sample_view_content by blast
  moreover have "versioned_under (nodes_prefix sample_scope) (sample_view NODES)" using sample_view_ok by (simp add: view_ok_def)
  ultimately show ?thesis using baseline_reads by blast
qed

end
