(* ===== verification/Node_Lifeline.thy ===== *)
theory Node_Lifeline
  imports Node_Read
begin

text \<open>
  \<open>raisin-rocksdb/src/mvcc_read/deletes.rs\<close> and \<open>node_delete_index/\<close> (\<open>mod.rs\<close>, \<open>state.rs\<close>, \<open>lifeline.rs\<close>): whether a version of an
  overlay has been ended by a delete of its node. The lifeline is read by walking the records of the node or, where the
  branch has a complete index of deletes, from the index, confirming each entry the answer rests on. The JSON decoding of
  the state record is an argument; the memo of confirmations, a \<open>RefCell\<close>, is part of the returned lifeline.

  The main theorem is the equivalence the module documentation argues: with an index that names every tombstone, the indexed
  answer is the walked answer, and both are the rule.
\<close>

abbreviation "NODE_DELETES \<equiv> ''node_deletes''"
abbreviation "INDEX_STATUS \<equiv> ''index_status''"

definition scan_in ::
  "'s versioned_read \<Rightarrow> string \<Rightarrow> bytes \<Rightarrow> bytes \<Rightarrow> (bytes \<Rightarrow> bytes \<Rightarrow> 'a \<Rightarrow> 'a \<times> bool) \<Rightarrow> 'a \<Rightarrow> ('s, 'a) src" where
  "scan_in vr cf pre seek visit st s =
     (case vr_scan vr s cf pre seek visit st of (res, s') \<Rightarrow> (map_sum StorageError id res, s'))"

section \<open>The walk\<close>

definition walk_visit ::
  "bytes \<Rightarrow> hlc option \<Rightarrow> (hlc \<Rightarrow> bool \<Rightarrow> 'a \<Rightarrow> 'a \<times> bool) \<Rightarrow> bytes \<Rightarrow> bytes \<Rightarrow> u64 \<times> 'a \<Rightarrow> (u64 \<times> 'a) \<times> bool" where
  "walk_visit pre bound visit key v acc =
     (let read = fst acc + word_of_nat (length key + length v)
      in if length key = length pre + 16 then
           (case extract_revision_from_key key of
              Inr at \<Rightarrow>
                if within bound at then
                  (case visit at (is_tombstone_value v) (snd acc) of (st, brk) \<Rightarrow> ((read, st), brk))
                else ((read, snd acc), False)
            | Inl _ \<Rightarrow> ((read, snd acc), False))
         else ((read, snd acc), False))"

definition walk_prefix_in ::
  "'s versioned_read \<Rightarrow> bytes \<Rightarrow> hlc option \<Rightarrow> (hlc \<Rightarrow> bool \<Rightarrow> 'a \<Rightarrow> 'a \<times> bool) \<Rightarrow> 'a \<Rightarrow> ('s, u64 \<times> 'a) src" where
  "walk_prefix_in vr pre bound visit st =
     scan_in vr NODES pre (seek_key pre bound) (walk_visit pre bound visit) (0, st)"

definition walked_in ::
  "'s versioned_read \<Rightarrow> node_scope \<Rightarrow> hlc \<Rightarrow> hlc option \<Rightarrow> ('s, u64 \<times> (hlc \<times> bool) list) src" where
  "walked_in vr sc from_rev bound =
     walk_prefix_in vr (nodes_prefix sc) bound (\<lambda>at tomb records. (records @ [(at, tomb)], at < from_rev)) []"

fun walked_ends :: "(hlc \<times> bool) list \<Rightarrow> hlc \<Rightarrow> bool" where
  "walked_ends [] version = False"
| "walked_ends ((at, tomb) # records) version =
     (if version < at then (if tomb then True else walked_ends records version) else tomb)"

definition record_at_or_before_in :: "'s versioned_read \<Rightarrow> bytes \<Rightarrow> hlc \<Rightarrow> ('s, (hlc \<times> bool) option) src" where
  "record_at_or_before_in vr node_prefix at =
     src_bind (walk_prefix_in vr node_prefix (Some at) (\<lambda>rv tomb found. (Some (rv, tomb), True)) None)
       (\<lambda>(read, found). src_return found)"

definition deletes_in_range_counted ::
  "rocks_db \<Rightarrow> node_scope \<Rightarrow> hlc \<Rightarrow> hlc option \<Rightarrow> read_error + (hlc list \<times> u64)" where
  "deletes_in_range_counted db sc from_rev bound =
     (if (case bound of None \<Rightarrow> False | Some b \<Rightarrow> b < from_rev) then Inr ([], 0)
      else map_sum id (\<lambda>(read, found). (found, read))
        (fst (walk_prefix_in DbRead (nodes_prefix sc) bound
           (\<lambda>at tomb found. if at < from_rev then (found, True) else (if tomb then found @ [at] else found, False)) [] db)))"

definition deletes_in_range :: "rocks_db \<Rightarrow> node_scope \<Rightarrow> hlc \<Rightarrow> hlc option \<Rightarrow> read_error + hlc list" where
  "deletes_in_range db sc from_rev bound = map_sum id fst (deletes_in_range_counted db sc from_rev bound)"

section \<open>The index of deletes\<close>

definition node_deletes_prefix :: "node_scope \<Rightarrow> bytes" where
  "node_deletes_prefix sc =
     build_prefix (chain [push (ns_tenant_id sc), push (ns_repo_id sc), push (ns_branch sc), push (ns_workspace sc),
       push (ns_node_id sc)])"

definition delete_entry_key :: "node_scope \<Rightarrow> hlc \<Rightarrow> bytes" where
  "delete_entry_key sc revision = node_deletes_prefix sc @ encode_descending revision"

datatype index_status = NotBuilt | Building | Ready

record node_delete_index_state =
  nds_status :: index_status
  nds_generation :: u64
  nds_updated_at :: string

definition delete_state_key :: "string \<Rightarrow> string \<Rightarrow> string \<Rightarrow> bytes" where
  "delete_state_key tenant_id repo_id branch =
     build (chain [push tenant_id, push repo_id, push branch, push ''ndel_state''])"

definition state_read_in ::
  "'s versioned_read \<Rightarrow> (bytes \<Rightarrow> node_delete_index_state option) \<Rightarrow> node_scope \<Rightarrow> ('s, node_delete_index_state option) src" where
  "state_read_in vr decode sc s =
     (case vr_get vr s INDEX_STATUS (delete_state_key (ns_tenant_id sc) (ns_repo_id sc) (ns_branch sc)) of
        (Inl e, s') \<Rightarrow> (Inl (StorageError e), s')
      | (Inr v, s') \<Rightarrow> (Inr (Option.bind v decode), s'))"

definition ready_in ::
  "'s versioned_read \<Rightarrow> (bytes \<Rightarrow> node_delete_index_state option) \<Rightarrow> node_scope \<Rightarrow> ('s, bool) src" where
  "ready_in vr decode sc s =
     (if \<not> vr_has_cf vr s INDEX_STATUS \<or> \<not> vr_has_cf vr s NODE_DELETES then (Inr False, s)
      else src_bind (state_read_in vr decode sc)
             (\<lambda>st. src_return (case st of None \<Rightarrow> False | Some x \<Rightarrow> nds_status x = Ready)) s)"

section \<open>The indexed lifeline\<close>

record indexed_lifeline =
  il_nodes_prefix :: bytes
  il_deletes :: "hlc list"
  il_confirmed :: "bool option list"

definition entries_visit ::
  "bytes \<Rightarrow> hlc option \<Rightarrow> hlc \<Rightarrow> bytes \<Rightarrow> bytes \<Rightarrow> hlc list \<times> hlc option \<Rightarrow> (hlc list \<times> hlc option) \<times> bool" where
  "entries_visit pre bound stop_below key v acc =
     (if length key \<noteq> length pre + 16 then (acc, False)
      else case extract_revision_from_key key of
             Inl _ \<Rightarrow> (acc, False)
           | Inr at \<Rightarrow>
               if \<not> within bound at then (acc, False)
               else if at < stop_below then ((fst acc @ [at], Some at), True)
               else ((fst acc @ [at], snd acc), False))"

definition scan_entries ::
  "'s versioned_read \<Rightarrow> bytes \<Rightarrow> bytes \<Rightarrow> hlc option \<Rightarrow> hlc \<Rightarrow> hlc list \<Rightarrow> ('s, hlc list \<times> hlc option) src" where
  "scan_entries vr pre seek bound stop_below out =
     scan_in vr NODE_DELETES pre seek (entries_visit pre bound stop_below) (out, None)"

definition il_confirm :: "'s versioned_read \<Rightarrow> indexed_lifeline \<Rightarrow> nat \<Rightarrow> ('s, bool \<times> indexed_lifeline) src" where
  "il_confirm vr il index =
     (let memo = il_confirmed il
      in if index < length memo \<and> memo ! index \<noteq> None then src_return (the (memo ! index), il)
         else let at = il_deletes il ! index
              in src_bind (record_at_or_before_in vr (il_nodes_prefix il) at) (\<lambda>found.
                   let confirmed = (case found of None \<Rightarrow> False | Some (rv, tomb) \<Rightarrow> rv = at \<and> tomb);
                       memo = memo @ replicate (index + 1 - length memo) None
                   in src_return (confirmed, il\<lparr>il_confirmed := memo[index := Some confirmed]\<rparr>)))"

partial_function (option) il_phase2 ::
  "'s versioned_read \<Rightarrow> bytes \<Rightarrow> hlc option \<Rightarrow> indexed_lifeline \<Rightarrow> hlc option \<Rightarrow> 's \<Rightarrow> ((read_error + indexed_lifeline) \<times> 's) option"
where
  "il_phase2 vr pre bound il below s =
     (case below of
        None \<Rightarrow> Some (Inr il, s)
      | Some at \<Rightarrow>
          (case il_confirm vr il (length (il_deletes il) - 1) s of
             (Inl e, s1) \<Rightarrow> Some (Inl e, s1)
           | (Inr (confirmed, il1), s1) \<Rightarrow>
               if confirmed then Some (Inr il1, s1)
               else (case scan_entries vr pre (pre @ encode_descending at @ [0]) bound at (il_deletes il1) s1 of
                  (Inl e, s2) \<Rightarrow> Some (Inl e, s2)
                | (Inr (deletes, below'), s2) \<Rightarrow> il_phase2 vr pre bound (il1\<lparr>il_deletes := deletes\<rparr>) below' s2)))"

definition il_read_in ::
  "'s versioned_read \<Rightarrow> node_scope \<Rightarrow> hlc \<Rightarrow> hlc option \<Rightarrow> 's \<Rightarrow> ((read_error + indexed_lifeline) \<times> 's) option" where
  "il_read_in vr sc from_rev bound s =
     (let pre = node_deletes_prefix sc;
          il = \<lparr>il_nodes_prefix = nodes_prefix sc, il_deletes = [], il_confirmed = []\<rparr>
      in case scan_entries vr pre (seek_key pre bound) bound from_rev [] s of
           (Inl e, s1) \<Rightarrow> Some (Inl e, s1)
         | (Inr (deletes, below), s1) \<Rightarrow> il_phase2 vr pre bound (il\<lparr>il_deletes := deletes\<rparr>) below s1)"

fun il_ends_from :: "'s versioned_read \<Rightarrow> hlc \<Rightarrow> nat \<Rightarrow> hlc list \<Rightarrow> indexed_lifeline \<Rightarrow> ('s, bool \<times> indexed_lifeline) src" where
  "il_ends_from vr version index [] il = src_return (False, il)"
| "il_ends_from vr version index (at # rest) il =
     src_bind (il_confirm vr il index) (\<lambda>(confirmed, il').
       if version < at then
         (if confirmed then src_return (True, il') else il_ends_from vr version (index + 1) rest il')
       else if \<not> confirmed then il_ends_from vr version (index + 1) rest il'
       else if at = version then src_return (True, il')
       else src_bind (record_at_or_before_in vr (il_nodes_prefix il') version) (\<lambda>found.
              src_return (case found of None \<Rightarrow> False | Some (_, tomb) \<Rightarrow> tomb, il')))"

definition il_ends_in :: "'s versioned_read \<Rightarrow> indexed_lifeline \<Rightarrow> hlc \<Rightarrow> ('s, bool \<times> indexed_lifeline) src" where
  "il_ends_in vr il version = il_ends_from vr version 0 (il_deletes il) il"

section \<open>The lifeline of a node\<close>

datatype lifeline_kind = Walked "(hlc \<times> bool) list" | Indexed indexed_lifeline

record node_lifeline =
  nl_kind :: lifeline_kind
  nl_bytes_read :: u64

definition lifeline_read_in ::
  "'s versioned_read \<Rightarrow> (bytes \<Rightarrow> node_delete_index_state option) \<Rightarrow> node_scope \<Rightarrow> hlc \<Rightarrow> hlc option \<Rightarrow> 's
     \<Rightarrow> ((read_error + node_lifeline) \<times> 's) option" where
  "lifeline_read_in vr decode sc from_rev bound s =
     (case ready_in vr decode sc s of
        (Inl e, s1) \<Rightarrow> Some (Inl e, s1)
      | (Inr True, s1) \<Rightarrow>
          map_option (\<lambda>(res, s2). (map_sum id (\<lambda>il. \<lparr>nl_kind = Indexed il, nl_bytes_read = 0\<rparr>) res, s2))
            (il_read_in vr sc from_rev bound s1)
      | (Inr False, s1) \<Rightarrow>
          Some (src_bind (walked_in vr sc from_rev bound)
                  (\<lambda>(read, records). src_return \<lparr>nl_kind = Walked records, nl_bytes_read = read\<rparr>) s1))"

definition lifeline_ends_in :: "'s versioned_read \<Rightarrow> node_lifeline \<Rightarrow> hlc \<Rightarrow> ('s, bool \<times> node_lifeline) src" where
  "lifeline_ends_in vr nl version =
     (case nl_kind nl of
        Walked records \<Rightarrow> src_return (walked_ends records version, nl)
      | Indexed il \<Rightarrow>
          src_bind (il_ends_in vr il version) (\<lambda>(res, il'). src_return (res, nl\<lparr>nl_kind := Indexed il'\<rparr>)))"

section \<open>Scans as runs over versions\<close>

definition recs :: "bytes \<Rightarrow> entries \<Rightarrow> (hlc \<times> bool) list" where
  "recs pre es = map (\<lambda>(r, v). (r, is_tombstone_value v)) (List.map_filter (version_of pre) es)"

definition revs_under :: "bytes \<Rightarrow> entries \<Rightarrow> hlc list" where
  "revs_under pre es = map fst (List.map_filter (version_of pre) es)"

fun run_visit :: "(hlc \<Rightarrow> bool \<Rightarrow> 'a \<Rightarrow> 'a \<times> bool) \<Rightarrow> 'a \<Rightarrow> (hlc \<times> bool) list \<Rightarrow> 'a" where
  "run_visit visit st [] = st"
| "run_visit visit st ((r, t) # rs) =
     (case visit r t st of (st', True) \<Rightarrow> st' | (st', False) \<Rightarrow> run_visit visit st' rs)"

definition all_versions :: "bytes \<Rightarrow> entries \<Rightarrow> bool" where
  "all_versions pre es \<longleftrightarrow> (\<forall>(k, v) \<in> set es. prefix pre k \<and> length k = length pre + 16)"

lemma all_versions_Cons:
  assumes "all_versions pre ((k, v) # es)"
  obtains r where "prefix pre k" and "length k = length pre + 16" and "extract_revision_from_key k = Inr r"
    and "k = pre @ encode_descending r" and "all_versions pre es"
    and "List.map_filter (version_of pre) ((k, v) # es) = (r, v) # List.map_filter (version_of pre) es"
proof -
  have k: "prefix pre k" "length k = length pre + 16" "all_versions pre es" using assms by (auto simp: all_versions_def)
  from versioned_key [OF k(1,2)] obtain r where r: "k = pre @ encode_descending r" "extract_revision_from_key k = Inr r" .
  then have "version_of pre (k, v) = Some (r, v)" using k(1) by (simp add: version_of_def)
  with that [OF k(1,2) r(2,1) k(3)] show thesis by (simp add: map_filter_rec)
qed

lemma all_versions_under: "versioned_under pre es \<Longrightarrow> all_versions pre (entries_under pre seek es)"
  by (auto simp: all_versions_def versioned_under_def entries_under_def)

lemma walk_scan:
  assumes "all_versions pre es"
  shows "\<exists>n'. scan_loop pre (walk_visit pre bound visit) (n, st) es None =
    Inr (n', run_visit visit st (filter (\<lambda>(r, t). within bound r) (recs pre es)))"
  using assms
proof (induction es arbitrary: n st)
  case (Cons e es)
  obtain k v where e: "e = (k, v)" by (cases e)
  from all_versions_Cons [OF Cons.prems [unfolded e]] obtain r where
    r: "prefix pre k" "length k = length pre + 16" "extract_revision_from_key k = Inr r" "all_versions pre es"
      "List.map_filter (version_of pre) ((k, v) # es) = (r, v) # List.map_filter (version_of pre) es" .
  obtain st' brk where v: "visit r (is_tombstone_value v) st = (st', brk)" by fastforce
  show ?case
    using Cons.IH [OF r(4)] r(1-3) v unfolding e recs_def r(5)
    by (cases "within bound r"; cases brk) (auto simp: walk_visit_def Let_def)
qed (simp add: recs_def map_filter_rec status_result_def)

lemma versions_from_seek:
  assumes "versioned_under pre es"
  shows "filter (\<lambda>(r, v). within bound r) (List.map_filter (version_of pre) (entries_under pre (seek_key pre bound) es)) =
    filter (\<lambda>(r, v). within bound r) (List.map_filter (version_of pre) es)"
  using assms
proof (induction es)
  case (Cons e es)
  obtain k v where e: "e = (k, v)" by (cases e)
  have IH: "filter (\<lambda>(r, v). within bound r) (List.map_filter (version_of pre) (entries_under pre (seek_key pre bound) es)) =
      filter (\<lambda>(r, v). within bound r) (List.map_filter (version_of pre) es)"
    and wf: "prefix pre k \<Longrightarrow> length k = length pre + 16"
    using Cons by (simp_all add: versioned_under_def e)
  show ?case
  proof (cases "prefix pre k \<and> \<not> seek_key pre bound \<le> k")
    case True
    with wf seek_skips [of pre k bound] obtain r where "extract_revision_from_key k = Inr r" "\<not> within bound r" by auto
    then have "version_of pre (k, v) = Some (r, v)" using True by (simp add: version_of_def)
    with True IH \<open>\<not> within bound r\<close> show ?thesis by (simp add: e entries_under_def map_filter_rec)
  next
    case False
    moreover have "\<not> prefix pre k \<Longrightarrow> version_of pre (k, v) = None" by (simp add: version_of_def)
    ultimately show ?thesis
      using IH by (cases "prefix pre k") (auto simp: e entries_under_def map_filter_rec split: option.split)
  qed
qed (simp add: entries_under_def)

lemma recs_from_seek:
  "versioned_under pre es \<Longrightarrow> filter (\<lambda>(r, t). within bound r) (recs pre (entries_under pre (seek_key pre bound) es)) =
     filter (\<lambda>(r, t). within bound r) (recs pre es)"
  using versions_from_seek [of pre es bound] by (simp add: recs_def filter_map o_def case_prod_unfold)

lemma revs_from_seek:
  "versioned_under pre es \<Longrightarrow> filter (within bound) (revs_under pre (entries_under pre (seek_key pre bound) es)) =
     filter (within bound) (revs_under pre es)"
  using versions_from_seek [of pre es bound] by (simp add: revs_under_def filter_map o_def case_prod_unfold)

lemma revs_after:
  assumes "versioned_under pre es"
  shows "revs_under pre (entries_under pre (pre @ encode_descending at @ [0]) es) = filter (\<lambda>d. d < at) (revs_under pre es)"
  using assms
proof (induction es)
  case (Cons e es)
  obtain k v where e: "e = (k, v)" by (cases e)
  have IH: "revs_under pre (entries_under pre (pre @ encode_descending at @ [0]) es) = filter (\<lambda>d. d < at) (revs_under pre es)"
    and wf: "prefix pre k \<Longrightarrow> length k = length pre + 16"
    using Cons by (simp_all add: versioned_under_def e)
  show ?case
  proof (cases "prefix pre k")
    case True
    from versioned_key [OF True wf [OF True]] obtain r where r: "k = pre @ encode_descending r" "extract_revision_from_key k = Inr r" .
    have "encode_descending at @ [0] \<le> encode_descending r \<longleftrightarrow> encode_descending at < encode_descending r"
      using append_less_append_iff [of "encode_descending r" "encode_descending at" "[]" "[0]"] by (auto simp: not_less [symmetric])
    moreover have "pre @ encode_descending at @ [0] \<le> k \<longleftrightarrow> encode_descending at @ [0] \<le> encode_descending r"
      using append_less_same [of pre "encode_descending r" "encode_descending at @ [0]"] by (simp add: r(1) not_less [symmetric])
    ultimately have "pre @ encode_descending at @ [0] \<le> k \<longleftrightarrow> r < at" by (simp add: encode_descending_less)
    moreover have "version_of pre (k, v) = Some (r, v)" using True r(2) by (simp add: version_of_def)
    ultimately show ?thesis using True IH by (auto simp: e entries_under_def revs_under_def map_filter_rec)
  next
    case False
    then have "version_of pre (k, v) = None" by (simp add: version_of_def)
    with False IH show ?thesis by (simp add: e entries_under_def revs_under_def map_filter_rec)
  qed
qed (simp add: entries_under_def revs_under_def map_filter_rec)

lemma entries_scan:
  assumes "all_versions pre es"
  shows "scan_loop pre (entries_visit pre bound stop) (out, b) es None =
    (let L = filter (within bound) (revs_under pre es)
     in case dropWhile (\<lambda>d. stop \<le> d) L of
          [] \<Rightarrow> Inr (out @ L, b)
        | d # _ \<Rightarrow> Inr (out @ takeWhile (\<lambda>d. stop \<le> d) L @ [d], Some d))"
  using assms
proof (induction es arbitrary: out)
  case (Cons e es)
  obtain k v where e: "e = (k, v)" by (cases e)
  from all_versions_Cons [OF Cons.prems [unfolded e]] obtain r where
    r: "prefix pre k" "length k = length pre + 16" "extract_revision_from_key k = Inr r" "all_versions pre es"
      "List.map_filter (version_of pre) ((k, v) # es) = (r, v) # List.map_filter (version_of pre) es" .
  have L: "revs_under pre ((k, v) # es) = r # revs_under pre es" unfolding revs_under_def r(5) by simp
  consider "\<not> within bound r" | "within bound r" "r < stop" | "within bound r" "stop \<le> r" by fastforce
  then show ?case
  proof cases
    case 1
    with Cons.IH [OF r(4), of out] r(1-3) show ?thesis unfolding e L by (simp add: entries_visit_def)
  next
    case 2
    then have "\<not> stop \<le> r" by simp
    with 2 r(1-3) show ?thesis unfolding e L by (simp add: entries_visit_def Let_def)
  next
    case 3
    then have "entries_visit pre bound stop k v (out, b) = ((out @ [r], b), False)"
      using r(2,3) by (simp add: entries_visit_def not_less [symmetric])
    with 3 Cons.IH [OF r(4), of "out @ [r]"] r(1) show ?thesis
      unfolding e L by (cases "dropWhile (\<lambda>d. stop \<le> d) (filter (within bound) (revs_under pre es))")
        (simp_all add: Let_def del: dropWhile_eq_Nil_conv)
  qed
qed (simp add: revs_under_def map_filter_rec status_result_def)

section \<open>The rule\<close>

text \<open>
  A version is ended at a bound if the node has a tombstone above the version within the bound, or its newest record at or
  below the version is a tombstone.
\<close>

definition ended :: "(hlc \<times> bool) list \<Rightarrow> hlc option \<Rightarrow> hlc \<Rightarrow> bool" where
  "ended rs bound version \<longleftrightarrow>
     (\<exists>t. (t, True) \<in> set rs \<and> version < t \<and> within bound t) \<or>
     (\<exists>t. List.find (\<lambda>(r, b). r \<le> version) rs = Some (t, True))"

abbreviation descending :: "(hlc \<times> 'b) list \<Rightarrow> bool" where
  "descending rs \<equiv> sorted_wrt (\<lambda>a b. fst b < fst a) rs"

lemma find_descending:
  assumes "descending rs"
  shows "List.find (\<lambda>(r, b). r \<le> d) rs = Some (d, b) \<longleftrightarrow> (d, b) \<in> set rs"
  using assms by (induction rs) auto

lemma walked_ends_iff:
  assumes "descending rs"
  shows "walked_ends rs version \<longleftrightarrow>
    (\<exists>t. (t, True) \<in> set rs \<and> version < t) \<or> (\<exists>t. List.find (\<lambda>(r, b). r \<le> version) rs = Some (t, True))"
  using assms
proof (induction rs)
  case (Cons x rs)
  obtain r b where x: "x = (r, b)" by (cases x)
  have "\<not> version < t" if "(t, True) \<in> set rs" "\<not> version < r" for t using Cons.prems that x by fastforce
  with Cons x show ?case by (auto simp: not_less)
qed simp

lemma find_filter_within:
  "within bound version \<Longrightarrow>
   List.find (\<lambda>(r, b). r \<le> version) (filter (\<lambda>(r, b). within bound r) rs) = List.find (\<lambda>(r, b). r \<le> version) rs"
  by (induction rs) (auto simp: within_def split: option.splits)

lemma descending_filter: "descending rs \<Longrightarrow> descending (filter P rs)"
  by (rule sorted_wrt_filter)

lemma walked_ends_ended:
  assumes "descending rs" and "within bound version"
  shows "walked_ends (filter (\<lambda>(r, b). within bound r) rs) version \<longleftrightarrow> ended rs bound version"
  using walked_ends_iff [OF descending_filter [OF assms(1), of "\<lambda>(r, b). within bound r"], of version] assms(2)
  by (auto simp: ended_def find_filter_within)

text \<open>The walk stops at the first record below \<open>from\<close>; nothing after it matters for a version from there on.\<close>

lemma walked_records:
  assumes "from_rev \<le> version"
  shows "walked_ends (run_visit (\<lambda>at tomb records. (records @ [(at, tomb)], at < from_rev)) pre rs) version =
    walked_ends (pre @ rs) version"
proof (induction rs arbitrary: pre)
  case (Cons x rs)
  obtain r b where x: "x = (r, b)" by (cases x)
  have stop: "walked_ends (p @ (r, b) # q) version = walked_ends (p @ [(r, b)]) version" if "r < from_rev" for p q
    using that assms by (induction p) auto
  show ?case using Cons [of "pre @ [(r, b)]"] stop [of pre rs] by (cases "r < from_rev") (simp_all add: x)
qed simp

subsection \<open>The indexed answer\<close>

fun ends_pure :: "(hlc \<Rightarrow> bool) \<Rightarrow> bool \<Rightarrow> hlc \<Rightarrow> hlc list \<Rightarrow> bool" where
  "ends_pure conf tomb version [] = False"
| "ends_pure conf tomb version (d # ds) =
     (if version < d then (if conf d then True else ends_pure conf tomb version ds)
      else if \<not> conf d then ends_pure conf tomb version ds
      else if d = version then True else tomb)"

lemma ends_pure_iff:
  assumes "sorted_wrt (\<lambda>a b. b < a) ds" and "conf version \<Longrightarrow> tomb"
  shows "ends_pure conf tomb version ds \<longleftrightarrow>
    (\<exists>d \<in> set ds. version < d \<and> conf d) \<or> ((\<exists>d \<in> set ds. d \<le> version \<and> conf d) \<and> tomb)"
  using assms
proof (induction ds)
  case (Cons d ds)
  have "\<not> version < e" if "e \<in> set ds" "\<not> version < d" for e using Cons.prems(1) that by fastforce
  with Cons show ?case by (auto simp: not_less)
qed simp

definition names_tombstones :: "(hlc \<times> bool) list \<Rightarrow> hlc list \<Rightarrow> bool" where
  "names_tombstones rs ds \<longleftrightarrow> (\<forall>t. (t, True) \<in> set rs \<longrightarrow> t \<in> set ds)"

lemma ends_pure_ended:
  assumes desc: "descending rs" and L: "filter (within bound) ds = front @ rest" "sorted_wrt (\<lambda>a b. b < a) ds"
    and compl: "names_tombstones rs ds" and bounds: "within bound version" "from_rev \<le> version"
    and stop: "rest = [] \<or> (front \<noteq> [] \<and> last front < from_rev \<and> (last front, True) \<in> set rs)"
  defines "conf \<equiv> \<lambda>d. (d, True) \<in> set rs"
  shows "ends_pure conf (\<exists>t. List.find (\<lambda>(r, b). r \<le> version) rs = Some (t, True)) version front \<longleftrightarrow> ended rs bound version"
proof -
  let ?tomb = "\<exists>t. List.find (\<lambda>(r, b). r \<le> version) rs = Some (t, True)"
  have srt: "sorted_wrt (\<lambda>a b. b < a) (front @ rest)" using sorted_wrt_filter [OF L(2), of "within bound"] L(1) by simp
  then have front: "sorted_wrt (\<lambda>a b. b < a) front" by (simp add: sorted_wrt_append)
  have pure: "ends_pure conf ?tomb version front \<longleftrightarrow>
      (\<exists>d \<in> set front. version < d \<and> conf d) \<or> ((\<exists>d \<in> set front. d \<le> version \<and> conf d) \<and> ?tomb)"
    by (rule ends_pure_iff [OF front]) (use find_descending [OF desc, of version True] in \<open>auto simp: conf_def\<close>)
  have rest: "d < from_rev" if "d \<in> set rest" for d
  proof -
    have "last front < from_rev" "front \<noteq> []" using stop that by auto
    moreover have "d < last front" using srt that \<open>front \<noteq> []\<close> by (simp add: sorted_wrt_append)
    ultimately show ?thesis by simp
  qed
  have mem: "d \<in> set front \<or> d \<in> set rest" if "conf d" "within bound d" for d
  proof -
    have "d \<in> set (filter (within bound) ds)" using that compl by (simp add: conf_def names_tombstones_def)
    then show ?thesis unfolding L(1) by simp
  qed
  have in_bound: "within bound d" if "d \<in> set front" for d
  proof -
    have "d \<in> set (filter (within bound) ds)" using that unfolding L(1) by simp
    then show ?thesis by simp
  qed
  have "(\<exists>d \<in> set front. version < d \<and> conf d) \<longleftrightarrow> (\<exists>t. (t, True) \<in> set rs \<and> version < t \<and> within bound t)"
  proof
    assume "\<exists>t. (t, True) \<in> set rs \<and> version < t \<and> within bound t"
    then obtain t where t: "conf t" "version < t" "within bound t" by (auto simp: conf_def)
    then have "t \<notin> set rest" using rest [of t] bounds(2) by auto
    with mem t show "\<exists>d \<in> set front. version < d \<and> conf d" by blast
  qed (use in_bound conf_def in auto)
  moreover have "\<exists>d \<in> set front. d \<le> version \<and> conf d" if ?tomb
  proof -
    from that obtain t where t: "List.find (\<lambda>(r, b). r \<le> version) rs = Some (t, True)" by blast
    then have "(t, True) \<in> set rs" "t \<le> version" unfolding find_Some_iff by (auto, metis nth_mem)
    moreover from this bounds(1) have "within bound t" by (auto simp: within_def split: option.splits)
    ultimately consider "t \<in> set front" | "t \<in> set rest" using mem by (auto simp: conf_def)
    then show ?thesis
    proof cases
      case 2
      with stop have "last front \<in> set front" "last front < from_rev" "conf (last front)" by (auto simp: conf_def)
      with bounds(2) show ?thesis by (meson less_imp_le order_trans)
    qed (use \<open>(t, True) \<in> set rs\<close> \<open>t \<le> version\<close> conf_def in auto)
  qed
  ultimately show ?thesis unfolding pure ended_def by blast
qed

section \<open>Reading through a source\<close>

lemma descending_recs: "sorted_wrt (<) (map fst es) \<Longrightarrow> versioned_under pre es \<Longrightarrow> descending (recs pre es)"
  using sorted_versions [of es pre] by (simp add: recs_def sorted_wrt_map case_prod_unfold)

lemma sorted_revs: "sorted_wrt (<) (map fst es) \<Longrightarrow> versioned_under pre es \<Longrightarrow> sorted_wrt (\<lambda>a b. b < a) (revs_under pre es)"
  using sorted_versions [of es pre] by (simp add: revs_under_def sorted_wrt_map)

definition memo_ok :: "(hlc \<Rightarrow> bool) \<Rightarrow> indexed_lifeline \<Rightarrow> bool" where
  "memo_ok conf il \<longleftrightarrow> (\<forall>i b. i < length (il_confirmed il) \<and> il_confirmed il ! i = Some b \<longrightarrow>
     i < length (il_deletes il) \<and> b = conf (il_deletes il ! i))"

definition find_upto :: "(hlc \<times> bool) list \<Rightarrow> hlc \<Rightarrow> (hlc \<times> bool) option" where
  "find_upto rs at = List.find (\<lambda>(r, b). r \<le> at) rs"

lemma memo_ok_append: "memo_ok conf il \<Longrightarrow> memo_ok conf (il\<lparr>il_deletes := il_deletes il @ ds\<rparr>)"
  by (force simp: memo_ok_def nth_append)

lemma filter_below_last:
  assumes "sorted_wrt (\<lambda>a b. b < a) (ds @ M)" and "ds \<noteq> []"
  shows "filter (\<lambda>d :: hlc. d < last ds) (ds @ M) = M"
proof -
  have "\<not> d < last ds" if "d \<in> set ds" for d
    using that assms by (induction ds rule: rev_induct) (auto simp: sorted_wrt_append)
  moreover have "d < last ds" if "d \<in> set M" for d using that assms by (simp add: sorted_wrt_append)
  ultimately show ?thesis by (simp add: filter_id_conv filter_empty_conv)
qed

definition index_ready :: "(bytes \<Rightarrow> node_delete_index_state option) \<Rightarrow> node_scope \<Rightarrow> entries \<Rightarrow> bool" where
  "index_ready decode sc ix \<longleftrightarrow>
     (case Option.bind (map_of ix (delete_state_key (ns_tenant_id sc) (ns_repo_id sc) (ns_branch sc))) decode of
        None \<Rightarrow> False
      | Some x \<Rightarrow> nds_status x = Ready)"

lemma run_first: "run_visit (\<lambda>rv tomb found. (Some (rv, tomb), True)) None rs = (case rs of [] \<Rightarrow> None | x # _ \<Rightarrow> Some x)"
  by (cases rs) auto

lemma first_filter_find: "(case filter P xs of [] \<Rightarrow> None | x # _ \<Rightarrow> Some x) = List.find P xs"
  by (induction xs) auto

context versioned_source
begin

lemma scan_in_law:
  assumes "sees s cf es" and "prefix pre seek"
  shows "\<exists>s'. scan_in vr cf pre seek visit st s =
      (map_sum StorageError id (scan_loop pre visit st (entries_under pre seek es) None), s') \<and> sees s' = sees s"
  using scan_law [OF assms, of visit st] by (auto simp: scan_in_def)

lemma walk_law:
  assumes "sees s NODES es" and "versioned_under pre es"
  shows "\<exists>n s'. walk_prefix_in vr pre bound visit st s =
      (Inr (n, run_visit visit st (filter (\<lambda>(r, b). within bound r) (recs pre es))), s') \<and> sees s' = sees s"
proof -
  from walk_scan [OF all_versions_under [OF assms(2), of "seek_key pre bound"], of bound visit 0 st] obtain n where
    "scan_loop pre (walk_visit pre bound visit) (0, st) (entries_under pre (seek_key pre bound) es) None =
       Inr (n, run_visit visit st (filter (\<lambda>(r, b). within bound r) (recs pre es)))"
    unfolding recs_from_seek [OF assms(2)] by blast
  then show ?thesis
    using scan_in_law [OF assms(1) prefix_seek_key, of pre bound "walk_visit pre bound visit" "(0, st)"]
    by (auto simp: walk_prefix_in_def)
qed

lemma record_law:
  assumes "sees s NODES es" and "versioned_under pre es"
  shows "\<exists>s'. record_at_or_before_in vr pre at s = (Inr (find_upto (recs pre es) at), s') \<and> sees s' = sees s"
proof -
  have "within (Some at) = (\<lambda>r. r \<le> at)" by (simp add: within_def fun_eq_iff)
  then show ?thesis
    using walk_law [OF assms, of "Some at" "\<lambda>rv tomb found. (Some (rv, tomb), True)" None]
    by (auto simp: record_at_or_before_in_def src_bind_def src_return_def run_first first_filter_find find_upto_def)
qed

lemma confirm_law:
  assumes "sees s NODES es" and "versioned_under (il_nodes_prefix il) es" and "index < length (il_deletes il)"
    and "memo_ok (\<lambda>d. (d, True) \<in> set (recs (il_nodes_prefix il) es)) il"
  shows "\<exists>il' s'. il_confirm vr il index s =
      (Inr ((il_deletes il ! index, True) \<in> set (recs (il_nodes_prefix il) es), il'), s') \<and> sees s' = sees s \<and>
      il_deletes il' = il_deletes il \<and> il_nodes_prefix il' = il_nodes_prefix il \<and>
      memo_ok (\<lambda>d. (d, True) \<in> set (recs (il_nodes_prefix il) es)) il'"
proof -
  let ?rs = "recs (il_nodes_prefix il) es" and ?at = "il_deletes il ! index"
  show ?thesis
  proof (cases "index < length (il_confirmed il) \<and> il_confirmed il ! index \<noteq> None")
    case True
    then show ?thesis using assms(4) by (auto simp: il_confirm_def src_return_def memo_ok_def Let_def)
  next
    case False
    have "descending ?rs" by (rule descending_recs [OF sorted_law [OF assms(1)] assms(2)])
    then have "(case find_upto ?rs ?at of None \<Rightarrow> False | Some (rv, tomb) \<Rightarrow> rv = ?at \<and> tomb) \<longleftrightarrow> (?at, True) \<in> set ?rs"
      using find_descending [of ?rs ?at True] by (auto simp: find_upto_def split: option.splits)
    moreover from record_law [OF assms(1,2), of ?at] obtain s' where
      "record_at_or_before_in vr (il_nodes_prefix il) ?at s = (Inr (find_upto ?rs ?at), s')" "sees s' = sees s" by blast
    ultimately show ?thesis
      using False assms(3,4)
      by (auto simp: il_confirm_def src_bind_def src_return_def Let_def memo_ok_def nth_list_update nth_append split: if_splits)
  qed
qed

lemma scan_entries_law:
  assumes "sees s NODE_DELETES es" and "versioned_under pre es" and "prefix pre seek"
    and "filter (within bound) (revs_under pre (entries_under pre seek es)) = L"
  shows "\<exists>s'. scan_entries vr pre seek bound stop out s =
      (Inr (case dropWhile (\<lambda>d. stop \<le> d) L of
              [] \<Rightarrow> (out @ L, None)
            | d # _ \<Rightarrow> (out @ takeWhile (\<lambda>d. stop \<le> d) L @ [d], Some d)), s') \<and> sees s' = sees s"
proof -
  have "scan_loop pre (entries_visit pre bound stop) (out, None) (entries_under pre seek es) None =
      Inr (case dropWhile (\<lambda>d. stop \<le> d) L of
              [] \<Rightarrow> (out @ L, None)
            | d # _ \<Rightarrow> (out @ takeWhile (\<lambda>d. stop \<le> d) L @ [d], Some d))"
    using entries_scan [OF all_versions_under [OF assms(2)], of bound stop out None seek]
    by (cases "dropWhile (\<lambda>d. stop \<le> d) L") (simp_all add: assms(4) Let_def del: dropWhile_eq_Nil_conv)
  with scan_in_law [OF assms(1,3), of "entries_visit pre bound stop" "(out, None)"]
  show ?thesis by (auto simp: scan_entries_def)
qed

lemma phase2_step:
  fixes es ns pre np bound
  defines "D \<equiv> filter (within bound) (revs_under pre es)" and "conf \<equiv> \<lambda>d. (d, True) \<in> set (recs np ns)"
  assumes "sees s NODE_DELETES es" and "versioned_under pre es" and "sees s NODES ns" and "versioned_under np ns"
    and "D = ds @ M" and "ds \<noteq> []" and "memo_ok conf il" and "il_deletes il = ds" and "il_nodes_prefix il = np"
  shows "\<exists>il' s'. sees s' = sees s \<and> il_nodes_prefix il' = np \<and> memo_ok conf il' \<and>
      (if conf (last ds)
       then il_phase2 vr pre bound il (Some (last ds)) s = Some (Inr il', s') \<and> il_deletes il' = ds
       else il_deletes il' = ds @ take 1 M \<and>
         il_phase2 vr pre bound il (Some (last ds)) s =
         il_phase2 vr pre bound il' (case M of [] \<Rightarrow> None | d # _ \<Rightarrow> Some d) s')"
proof -
  from confirm_law [OF assms(5), of il "length ds - 1"] assms(6-) obtain il1 s1 where
    c: "il_confirm vr il (length ds - 1) s = (Inr (conf (last ds), il1), s1)" "sees s1 = sees s"
      "il_deletes il1 = ds" "il_nodes_prefix il1 = np" "memo_ok conf il1"
    by (fastforce simp: conf_def last_conv_nth)
  have D: "sorted_wrt (\<lambda>a b. b < a) D"
    unfolding D_def by (rule sorted_wrt_filter [OF sorted_revs [OF sorted_law [OF assms(3)] assms(4)]])
  have "filter (within bound) (revs_under pre (entries_under pre (pre @ encode_descending (last ds) @ [0]) es)) =
      filter (\<lambda>d. d < last ds) D"
    by (simp add: revs_after [OF assms(4)] D_def conj_commute)
  also have "\<dots> = M" using filter_below_last [of ds M] D assms(7,8) by simp
  finally have sc: "filter (within bound) (revs_under pre (entries_under pre (pre @ encode_descending (last ds) @ [0]) es)) = M" .
  have "dropWhile (\<lambda>d. last ds \<le> d) M = M \<and> takeWhile (\<lambda>d. last ds \<le> d) M = []"
    using D assms(7,8) by (cases M) (auto simp: sorted_wrt_append not_le)
  with scan_entries_law [of s1, OF _ assms(4) _ sc, of "last ds" ds] assms(3) c(2) obtain s2 where
    s2: "scan_entries vr pre (pre @ encode_descending (last ds) @ [0]) bound (last ds) ds s1 =
      (Inr (ds @ take 1 M, case M of [] \<Rightarrow> None | d # _ \<Rightarrow> Some d), s2)" "sees s2 = sees s"
    by (auto split: list.splits)
  have m: "memo_ok conf (il1\<lparr>il_deletes := ds @ take 1 M\<rparr>)" using memo_ok_append [OF c(5), of "take 1 M"] c(3) by simp
  show ?thesis
  proof (cases "conf (last ds)")
    case True
    then show ?thesis using c assms(10) by (auto simp: il_phase2.simps [of _ _ _ il])
  next
    case False
    then have "il_phase2 vr pre bound il (Some (last ds)) s =
        il_phase2 vr pre bound (il1\<lparr>il_deletes := ds @ take 1 M\<rparr>) (case M of [] \<Rightarrow> None | d # _ \<Rightarrow> Some d) s2"
      using c s2 assms(10) by (simp add: il_phase2.simps [of _ _ _ il])
    with False s2(2) c(4) m show ?thesis by (intro exI [of _ "il1\<lparr>il_deletes := ds @ take 1 M\<rparr>"] exI [of _ s2]) simp
  qed
qed

lemma phase2_law:
  fixes es ns pre np bound from_rev
  defines "D \<equiv> filter (within bound) (revs_under pre es)" and "conf \<equiv> \<lambda>d. (d, True) \<in> set (recs np ns)"
  assumes "sees s NODE_DELETES es" and "versioned_under pre es" and "sees s NODES ns" and "versioned_under np ns"
    and "D = ds @ M" and "ds \<noteq> []" and "last ds < from_rev" and "memo_ok conf il"
    and "il_deletes il = ds" and "il_nodes_prefix il = np"
  shows "\<exists>il' s' rest. il_phase2 vr pre bound il (Some (last ds)) s = Some (Inr il', s') \<and> sees s' = sees s \<and>
      il_nodes_prefix il' = np \<and> memo_ok conf il' \<and> D = il_deletes il' @ rest \<and>
      (rest = [] \<or> il_deletes il' \<noteq> [] \<and> last (il_deletes il') < from_rev \<and> conf (last (il_deletes il')))"
  using assms(3,5,7-)
proof (induction M arbitrary: ds il s)
  case Nil
  from phase2_step [OF Nil.prems(1) assms(4) Nil.prems(2) assms(6), of bound ds "[]" il] Nil.prems
  show ?case by (auto simp: D_def conf_def il_phase2.simps split: if_splits)
next
  case (Cons d M)
  from phase2_step [OF Cons.prems(1) assms(4) Cons.prems(2) assms(6), of bound ds "d # M" il] Cons.prems obtain il' s' where
    st: "sees s' = sees s" "il_nodes_prefix il' = np" "memo_ok conf il'"
      "conf (last ds) \<Longrightarrow> il_phase2 vr pre bound il (Some (last ds)) s = Some (Inr il', s') \<and> il_deletes il' = ds"
      "\<not> conf (last ds) \<Longrightarrow> il_deletes il' = ds @ [d] \<and>
         il_phase2 vr pre bound il (Some (last ds)) s = il_phase2 vr pre bound il' (Some d) s'"
    by (auto simp: D_def conf_def split: if_splits)
  show ?case
  proof (cases "conf (last ds)")
    case True
    with st Cons.prems show ?thesis by auto
  next
    case False
    have "d < last ds"
      using sorted_wrt_filter [OF sorted_revs [OF sorted_law [OF assms(3)] assms(4)], of "within bound"] Cons.prems(3,4)
      by (simp add: D_def sorted_wrt_append)
    with Cons.IH [of s' "ds @ [d]" il'] st False Cons.prems show ?thesis by auto
  qed
qed

lemma il_read_law:
  fixes es ns sc bound from_rev
  defines "D \<equiv> filter (within bound) (revs_under (node_deletes_prefix sc) es)"
    and "conf \<equiv> \<lambda>d. (d, True) \<in> set (recs (nodes_prefix sc) ns)"
  assumes "sees s NODE_DELETES es" and "versioned_under (node_deletes_prefix sc) es"
    and "sees s NODES ns" and "versioned_under (nodes_prefix sc) ns"
  shows "\<exists>il s' rest. il_read_in vr sc from_rev bound s = Some (Inr il, s') \<and> sees s' = sees s \<and>
      il_nodes_prefix il = nodes_prefix sc \<and> memo_ok conf il \<and> D = il_deletes il @ rest \<and>
      (rest = [] \<or> il_deletes il \<noteq> [] \<and> last (il_deletes il) < from_rev \<and> conf (last (il_deletes il)))"
proof -
  let ?pre = "node_deletes_prefix sc" and ?il = "\<lparr>il_nodes_prefix = nodes_prefix sc, il_deletes = [], il_confirmed = []\<rparr>"
  have D: "filter (within bound) (revs_under ?pre (entries_under ?pre (seek_key ?pre bound) es)) = D"
    unfolding D_def by (rule revs_from_seek [OF assms(4)])
  have memo: "memo_ok conf (?il\<lparr>il_deletes := ds\<rparr>)" for ds by (simp add: memo_ok_def)
  show ?thesis
  proof (cases "dropWhile (\<lambda>d. from_rev \<le> d) D")
    case Nil
    from scan_entries_law [OF assms(3,4) prefix_seek_key D, of from_rev "[]"] Nil obtain s1 where
      "scan_entries vr ?pre (seek_key ?pre bound) bound from_rev [] s = (Inr (D, None), s1)" "sees s1 = sees s"
      by auto
    with memo show ?thesis by (auto simp: il_read_in_def Let_def il_phase2.simps)
  next
    case (Cons d M)
    let ?ds = "takeWhile (\<lambda>d. from_rev \<le> d) D @ [d]"
    have d: "d < from_rev" "D = ?ds @ M"
      using dropWhile_eq_Cons_conv [of "\<lambda>d. from_rev \<le> d" D d M] Cons by (auto simp: not_le)
    from scan_entries_law [OF assms(3,4) prefix_seek_key D, of from_rev "[]"] Cons obtain s1 where
      s1: "scan_entries vr ?pre (seek_key ?pre bound) bound from_rev [] s = (Inr (?ds, Some d), s1)" "sees s1 = sees s"
      by auto
    then have "il_read_in vr sc from_rev bound s = il_phase2 vr ?pre bound (?il\<lparr>il_deletes := ?ds\<rparr>) (Some (last ?ds)) s1"
      by (simp add: il_read_in_def Let_def)
    then show ?thesis
      using phase2_law [of s1 es ?pre ns "nodes_prefix sc" bound ?ds M from_rev "?il\<lparr>il_deletes := ?ds\<rparr>"] assms(3-6) s1(2) d memo
      unfolding D_def [symmetric] by (simp add: conf_def)
  qed
qed

lemma ends_law:
  fixes ns np version
  defines "conf \<equiv> \<lambda>d. (d, True) \<in> set (recs np ns)" and "tomb \<equiv> \<exists>t. find_upto (recs np ns) version = Some (t, True)"
  assumes "sees s NODES ns" and "versioned_under np ns" and "il_nodes_prefix il = np" and "memo_ok conf il"
    and "ds = drop index (il_deletes il)"
  shows "\<exists>il' s'. il_ends_from vr version index ds il s = (Inr (ends_pure conf tomb version ds, il'), s') \<and> sees s' = sees s"
  using assms(3,5-)
proof (induction ds arbitrary: index il s)
  case (Cons d ds)
  from Cons.prems(4) have d: "index < length (il_deletes il)" "il_deletes il ! index = d" "drop (Suc index) (il_deletes il) = ds"
    by (metis drop_eq_Nil list.distinct(1) not_le, metis nth_via_drop, metis drop_Suc list.sel(3) tl_drop)
  from confirm_law [OF Cons.prems(1), of il index] Cons.prems assms(4) d obtain il1 s1 where
    c: "il_confirm vr il index s = (Inr (conf d, il1), s1)" "sees s1 = sees s"
      "il_deletes il1 = il_deletes il" "il_nodes_prefix il1 = np" "memo_ok conf il1"
    by (auto simp: conf_def)
  have IH: "\<exists>il' s'. il_ends_from vr version (Suc index) ds il1 s1 = (Inr (ends_pure conf tomb version ds, il'), s') \<and> sees s' = sees s"
    using Cons.IH [of s1 il1 "Suc index"] c d(3) Cons.prems(1) by simp
  from record_law [of s1 ns np version] c(2) Cons.prems(1) assms(4) obtain s2 where
    "record_at_or_before_in vr np version s1 = (Inr (find_upto (recs np ns) version), s2)" "sees s2 = sees s" by auto
  moreover have "(case find_upto (recs np ns) version of None \<Rightarrow> False | Some (_, t) \<Rightarrow> t) = tomb"
    by (auto simp: tomb_def split: option.split)
  ultimately show ?case using c IH by (auto simp: src_bind_def src_return_def)
qed (auto simp: src_return_def)

lemma ready_law:
  assumes "sees s INDEX_STATUS ix" and "sees s NODE_DELETES es"
  shows "\<exists>s'. ready_in vr decode sc s = (Inr (index_ready decode sc ix), s') \<and> sees s' = sees s"
  using get_law [OF assms(1), of "delete_state_key (ns_tenant_id sc) (ns_repo_id sc) (ns_branch sc)"]
    has_law [OF assms(1)] has_law [OF assms(2)]
  by (auto simp: ready_in_def state_read_in_def index_ready_def src_bind_def src_return_def)

lemma walked_law:
  assumes "sees s NODES ns" and "versioned_under (nodes_prefix sc) ns" and "from_rev \<le> version" and "within bound version"
  shows "\<exists>n records s'. walked_in vr sc from_rev bound s = (Inr (n, records), s') \<and> sees s' = sees s \<and>
    walked_ends records version = ended (recs (nodes_prefix sc) ns) bound version"
  using walk_law [OF assms(1,2), of bound "\<lambda>at tomb records. (records @ [(at, tomb)], at < from_rev)" "[]"]
    walked_records [OF assms(3), of "[]"] walked_ends_ended [OF descending_recs [OF sorted_law [OF assms(1)] assms(2)] assms(4)]
  by (auto simp: walked_in_def)

lemma lifeline_law:
  assumes "sees s NODES ns" and "sees s NODE_DELETES es" and "sees s INDEX_STATUS ix"
    and "versioned_under (nodes_prefix sc) ns" and "versioned_under (node_deletes_prefix sc) es"
    and "index_ready decode sc ix \<Longrightarrow> names_tombstones (recs (nodes_prefix sc) ns) (revs_under (node_deletes_prefix sc) es)"
    and "from_rev \<le> version" and "within bound version"
  shows "\<exists>nl nl' s' s''. lifeline_read_in vr decode sc from_rev bound s = Some (Inr nl, s') \<and>
    lifeline_ends_in vr nl version s' = (Inr (ended (recs (nodes_prefix sc) ns) bound version, nl'), s'')"
proof -
  from ready_law [OF assms(3,2)] obtain s1 where
    r: "ready_in vr decode sc s = (Inr (index_ready decode sc ix), s1)" "sees s1 = sees s" by blast
  show ?thesis
  proof (cases "index_ready decode sc ix")
    case True
    from il_read_law [of s1 es sc ns from_rev bound] r(2) assms(1,2,4,5) obtain il s2 rest where
      il: "il_read_in vr sc from_rev bound s1 = Some (Inr il, s2)" "sees s2 = sees s" "il_nodes_prefix il = nodes_prefix sc"
        "memo_ok (\<lambda>d. (d, True) \<in> set (recs (nodes_prefix sc) ns)) il"
        "filter (within bound) (revs_under (node_deletes_prefix sc) es) = il_deletes il @ rest"
        "rest = [] \<or> il_deletes il \<noteq> [] \<and> last (il_deletes il) < from_rev \<and>
           (last (il_deletes il), True) \<in> set (recs (nodes_prefix sc) ns)"
      by auto
    have "ends_pure (\<lambda>d. (d, True) \<in> set (recs (nodes_prefix sc) ns)) (\<exists>t. find_upto (recs (nodes_prefix sc) ns) version = Some (t, True))
        version (il_deletes il) \<longleftrightarrow> ended (recs (nodes_prefix sc) ns) bound version"
      unfolding find_upto_def
      by (rule ends_pure_ended [OF descending_recs [OF sorted_law [OF assms(1)] assms(4)] il(5)
            sorted_revs [OF sorted_law [OF assms(2)] assms(5)] assms(6) [OF True] assms(8,7) il(6)])
    with ends_law [of s2 ns "nodes_prefix sc" il "il_deletes il" 0 version] il assms(1,4) r True show ?thesis
      by (auto simp: lifeline_read_in_def lifeline_ends_in_def il_ends_in_def src_bind_def src_return_def)
  next
    case False
    with walked_law [of s1 ns sc from_rev version bound] r assms(1,4,7,8) show ?thesis
      by (auto simp: lifeline_read_in_def lifeline_ends_in_def src_bind_def src_return_def)
  qed
qed

end

text \<open>
  C7. The lifeline of a node. Reading it returns, over every source, and tells of each version in its range whether a delete has
  ended it, by the rule: from the index on a branch where the index is ready and names every tombstone of the node, by
  walking the records of the node elsewhere. The entries of the index need not be exact.
\<close>

theorem lifeline_is_the_rule:
  assumes "cf_content db NODES ns" and "cf_content db NODE_DELETES es" and "cf_content db INDEX_STATUS ix"
    and "versioned_under (nodes_prefix sc) ns" and "versioned_under (node_deletes_prefix sc) es"
    and "index_ready decode sc ix \<Longrightarrow> names_tombstones (recs (nodes_prefix sc) ns) (revs_under (node_deletes_prefix sc) es)"
    and "from_rev \<le> version" and "within bound version"
  shows "(\<exists>nl s'. lifeline_read_in DbRead decode sc from_rev bound db = Some (Inr nl, s') \<and>
      map_sum id fst (fst (lifeline_ends_in DbRead nl version s')) = Inr (ended (recs (nodes_prefix sc) ns) bound version)) \<and>
    (\<exists>nl s'. lifeline_read_in SnapshotRead decode sc from_rev bound (snapshot_read_new db db) = Some (Inr nl, s') \<and>
      map_sum id fst (fst (lifeline_ends_in SnapshotRead nl version s')) = Inr (ended (recs (nodes_prefix sc) ns) bound version))"
proof -
  have "snapshot_sees (snapshot_read_new db db) cf x" if "cf_content db cf x" for cf x
    using that by (simp add: snapshot_read_new_def sr_view_def cf_content_def)
  from snapshot_read.lifeline_law [OF this this this assms(4-), OF assms(1-3)] db_read.lifeline_law [OF assms]
  show ?thesis by force
qed

text \<open>A node deleted at 2, an index that also names a delete at 3 that is gone.\<close>

definition deleted_nodes :: entries where
  "deleted_nodes = [(nodes_prefix sample_scope @ encode_descending (hlc_new 2 0), TOMBSTONE_VALUE),
                    (nodes_prefix sample_scope @ encode_descending (hlc_new 1 0), [1])]"

definition deleted_entries :: entries where
  "deleted_entries = [(delete_entry_key sample_scope (hlc_new 3 0), []), (delete_entry_key sample_scope (hlc_new 2 0), [])]"

definition ready_state :: "bytes \<Rightarrow> node_delete_index_state option" where
  "ready_state b = Some \<lparr>nds_status = Ready, nds_generation = 1, nds_updated_at = []\<rparr>"

definition deleted_status :: entries where
  "deleted_status = [(delete_state_key ''t'' ''r'' ''main'', [9])]"

abbreviation deleted_db :: rocks_db where
  "deleted_db \<equiv> sample_db [(NODES, deleted_nodes), (NODE_DELETES, deleted_entries), (INDEX_STATUS, deleted_status)]"

lemma deleted_recs: "recs (nodes_prefix sample_scope) deleted_nodes = [(hlc_new 2 0, True), (hlc_new 1 0, False)]"
  by (simp add: recs_def deleted_nodes_def map_filter_rec version_of_def is_tombstone_value_def TOMBSTONE_VALUE_def as_bytes_def)

lemma deleted_revs: "revs_under (node_deletes_prefix sample_scope) deleted_entries = [hlc_new 3 0, hlc_new 2 0]"
  by (simp add: revs_under_def deleted_entries_def delete_entry_key_def map_filter_rec version_of_def)

theorem lifeline_is_the_rule_witness:
  "\<exists>nl s'. lifeline_read_in DbRead ready_state sample_scope (hlc_new 1 0) (Some (hlc_new 5 0)) deleted_db = Some (Inr nl, s') \<and>
     map_sum id fst (fst (lifeline_ends_in DbRead nl (hlc_new 1 0) s')) = Inr True"
proof -
  have srt: "sorted_wrt (<) (map fst deleted_nodes)" "sorted_wrt (<) (map fst deleted_entries)" "sorted_wrt (<) (map fst deleted_status)"
    by (simp_all add: deleted_nodes_def deleted_entries_def delete_entry_key_def deleted_status_def encode_descending_less hlc_less_iff)
  then have "cf_content deleted_db NODES deleted_nodes" "cf_content deleted_db NODE_DELETES deleted_entries" "cf_content deleted_db INDEX_STATUS deleted_status"
    by (intro sample_db_content; simp)+
  moreover have "versioned_under (nodes_prefix sample_scope) deleted_nodes" by (simp add: versioned_under_def deleted_nodes_def)
  moreover have "versioned_under (node_deletes_prefix sample_scope) deleted_entries"
    by (simp add: versioned_under_def deleted_entries_def delete_entry_key_def)
  moreover have "names_tombstones [(hlc_new 2 0, True), (hlc_new 1 0, False)] [hlc_new 3 0, hlc_new 2 0]"
    by (simp add: names_tombstones_def)
  moreover have "within (Some (hlc_new 5 0)) (hlc_new 1 0)" by (simp add: within_def hlc_le_iff)
  moreover have "ended [(hlc_new 2 0, True), (hlc_new 1 0, False)] (Some (hlc_new 5 0)) (hlc_new 1 0)"
    unfolding ended_def by (rule disjI1, rule exI [of _ "hlc_new 2 0"]) (simp add: within_def hlc_le_iff hlc_less_iff)
  ultimately show ?thesis
    using lifeline_is_the_rule [of deleted_db deleted_nodes deleted_entries deleted_status sample_scope ready_state "hlc_new 1 0" "hlc_new 1 0"
      "Some (hlc_new 5 0)"]
    unfolding deleted_recs deleted_revs by auto
qed

end
