(* ===== verification/Delete_Index_State.thy ===== *)
theory Delete_Index_State
  imports Node_Lifeline "HOL-Library.AList"
begin

text \<open>
  \<open>raisin-rocksdb/src/node_delete_index/\<close> (\<open>state.rs\<close>, \<open>branch_copy.rs\<close>) and \<open>management/async_indexing/node_key_parse.rs\<close>: who may
  call the index of deletes of a branch ready. The state is the column family \<open>INDEX_STATUS\<close>, the table of branches that a
  copy is writing into, and a script of faults: each call into RocksDB or serde takes the next item, an error or none, so
  every \<open>?\<close> is a branch. A call runs under the mutex of \<open>transitions()\<close>, so it is one step. The JSON codec of the record and
  the clock are arguments.

  Around it stands a transition system of branches, backfills and copies, whose calls into this module are the definitions
  below. Its invariant is the completeness that the readers of \<open>Node_Lifeline\<close> assume: a branch that is called ready has an
  entry for every tombstone.
\<close>

type_synonym branch_scope = "string \<times> string \<times> string"

record index_db =
  ix_status :: entries
  ix_copying :: "(branch_scope \<times> nat) list"
  ix_faults :: "string option list"

record state_codec =
  sc_encode :: "node_delete_index_state \<Rightarrow> string + bytes"
  sc_decode :: "bytes \<Rightarrow> node_delete_index_state option"
  sc_now :: string

section \<open>The record\<close>

definition fallible :: "(index_db, unit) src" where
  "fallible s =
     (case ix_faults s of
        [] \<Rightarrow> (Inr (), s)
      | None # fs \<Rightarrow> (Inr (), s\<lparr>ix_faults := fs\<rparr>)
      | Some e # fs \<Rightarrow> (Inl (StorageError e), s\<lparr>ix_faults := fs\<rparr>))"

definition scope_key :: "branch_scope \<Rightarrow> bytes" where
  "scope_key sc = (case sc of (tenant_id, repo_id, branch) \<Rightarrow> delete_state_key tenant_id repo_id branch)"

definition state_read :: "state_codec \<Rightarrow> branch_scope \<Rightarrow> (index_db, node_delete_index_state option) src" where
  "state_read cd sc =
     src_bind fallible (\<lambda>_ s. (Inr (Option.bind (map_of (ix_status s) (scope_key sc)) (sc_decode cd)), s))"

definition is_ready :: "state_codec \<Rightarrow> branch_scope \<Rightarrow> (index_db, bool) src" where
  "is_ready cd sc =
     src_bind (src_ok (state_read cd sc)) (\<lambda>res.
       src_return (case Option.bind res id of None \<Rightarrow> False | Some st \<Rightarrow> nds_status st = Ready))"

definition put_state :: "state_codec \<Rightarrow> entries \<Rightarrow> bytes \<Rightarrow> index_status \<Rightarrow> u64 \<Rightarrow> (index_db, entries) src" where
  "put_state cd batch key status generation =
     (case sc_encode cd \<lparr>nds_status = status, nds_generation = generation, nds_updated_at = sc_now cd\<rparr> of
        Inl e \<Rightarrow> src_fail (StorageError (''node delete index state encode: '' @ e))
      | Inr bs \<Rightarrow> src_bind fallible (\<lambda>_. src_return (batch @ [(key, bs)])))"

definition write_batch :: "entries \<Rightarrow> (index_db, unit) src" where
  "write_batch batch =
     src_bind fallible (\<lambda>_ s. (Inr (), s\<lparr>ix_status := fold (\<lambda>(k, v). AList.update k v) batch (ix_status s)\<rparr>))"

section \<open>Builds\<close>

definition begin_build :: "state_codec \<Rightarrow> branch_scope \<Rightarrow> u64 option \<Rightarrow> (index_db, u64 \<times> bool) src" where
  "begin_build cd sc resume =
     src_bind (state_read cd sc) (\<lambda>current.
       if (case (resume, current) of
             (Some generation, Some st) \<Rightarrow> nds_status st = Building \<and> nds_generation st = generation
           | _ \<Rightarrow> False)
       then src_return (the resume, True)
       else let generation = (case current of None \<Rightarrow> 0 | Some st \<Rightarrow> nds_generation st) + 1
            in src_bind (put_state cd [] (scope_key sc) Building generation) (\<lambda>batch.
                 src_bind (write_batch batch) (\<lambda>_. src_return (generation, False))))"

definition in_progress :: "branch_scope \<Rightarrow> index_db \<Rightarrow> bool" where
  "in_progress sc s \<longleftrightarrow> hm_get (ix_copying s) sc \<noteq> None"

definition finish_build :: "state_codec \<Rightarrow> branch_scope \<Rightarrow> u64 \<Rightarrow> (index_db, bool) src" where
  "finish_build cd sc generation s =
     src_bind
       (if in_progress sc s then src_return False
        else src_bind (state_read cd sc) (\<lambda>current. src_return
               (case current of None \<Rightarrow> False | Some st \<Rightarrow> nds_status st = Building \<and> nds_generation st = generation)))
       (\<lambda>still.
          if still then
            src_bind (put_state cd [] (scope_key sc) Ready generation) (\<lambda>batch.
              src_bind (write_batch batch) (\<lambda>_. src_return True))
          else src_return False) s"

definition invalidate_locked :: "state_codec \<Rightarrow> branch_scope \<Rightarrow> (index_db, u64 option) src" where
  "invalidate_locked cd sc =
     src_bind (state_read cd sc) (\<lambda>current.
       case current of
         None \<Rightarrow> src_return None
       | Some st \<Rightarrow>
           let generation = nds_generation st + 1
           in src_bind (put_state cd [] (scope_key sc) NotBuilt generation) (\<lambda>batch.
                src_bind (write_batch batch) (\<lambda>_. src_return (Some generation))))"

definition invalidate :: "state_codec \<Rightarrow> branch_scope \<Rightarrow> (index_db, u64 option) src" where
  "invalidate cd sc = invalidate_locked cd sc"

definition RECORD :: string where
  "RECORD = ''ndel_state''"

definition state_shaped :: "bytes \<Rightarrow> bool" where
  "state_shaped key \<longleftrightarrow> suffix (0 # as_bytes RECORD) key \<and> length (filter (\<lambda>b. b = 0) key) = 3"

fun mark_loop :: "state_codec \<Rightarrow> entries \<Rightarrow> entries \<Rightarrow> nat \<Rightarrow> (index_db, entries \<times> nat) src" where
  "mark_loop cd [] batch n = src_return (batch, n)"
| "mark_loop cd ((key, v) # es) batch n =
     (case (if state_shaped key then sc_decode cd v else None) of
        None \<Rightarrow> mark_loop cd es batch n
      | Some st \<Rightarrow>
          src_bind (put_state cd batch key NotBuilt (nds_generation st + 1)) (\<lambda>batch. mark_loop cd es batch (n + 1)))"

definition mark_all_not_built :: "state_codec \<Rightarrow> (index_db, nat) src" where
  "mark_all_not_built cd s =
     src_bind fallible (\<lambda>_.
       src_bind (mark_loop cd (ix_status s) [] 0) (\<lambda>(batch, n).
         src_bind fallible (\<lambda>_.
           src_bind (write_batch batch) (\<lambda>_. src_return n)))) s"

definition stage_forget_branch :: "bytes list \<Rightarrow> branch_scope \<Rightarrow> (index_db, bytes list) src" where
  "stage_forget_branch deletes sc = src_bind fallible (\<lambda>_. src_return (deletes @ [scope_key sc]))"

text \<open>The write of the batch in which the caller stages the delete.\<close>

definition write_deletes :: "bytes list \<Rightarrow> (index_db, unit) src" where
  "write_deletes ks = src_bind fallible (\<lambda>_ s. (Inr (), s\<lparr>ix_status := fold AList.delete ks (ix_status s)\<rparr>))"

section \<open>Copies into a branch\<close>

record copy_ticket =
  ct_target_generation :: u64
  ct_source_generation :: u64

definition copying_add :: "branch_scope \<Rightarrow> index_db \<Rightarrow> index_db" where
  "copying_add sc s =
     s\<lparr>ix_copying := hm_insert sc (case hm_get (ix_copying s) sc of None \<Rightarrow> 1 | Some n \<Rightarrow> n + 1) (ix_copying s)\<rparr>"

definition copying_remove :: "branch_scope \<Rightarrow> index_db \<Rightarrow> index_db" where
  "copying_remove sc s =
     (case hm_get (ix_copying s) sc of
        None \<Rightarrow> s
      | Some n \<Rightarrow>
          s\<lparr>ix_copying := (if n - 1 = 0 then hm_remove sc (ix_copying s) else hm_insert sc (n - 1) (ix_copying s))\<rparr>)"

definition before_branch_copy ::
  "state_codec \<Rightarrow> string \<Rightarrow> string \<Rightarrow> string \<Rightarrow> string \<Rightarrow> (index_db, copy_ticket option) src" where
  "before_branch_copy cd tenant_id repo_id source target =
     src_bind (state_read cd (tenant_id, repo_id, target)) (\<lambda>target_state.
     src_bind (state_read cd (tenant_id, repo_id, source)) (\<lambda>source_state.
     src_bind (invalidate_locked cd (tenant_id, repo_id, target)) (\<lambda>invalidated s.
       let s = copying_add (tenant_id, repo_id, target) s
       in case invalidated of
            None \<Rightarrow> (Inr None, s)
          | Some target_generation \<Rightarrow>
              (Inr (case (target_state, source_state) of
                      (Some t, Some x) \<Rightarrow>
                        if nds_status t = Ready \<and> nds_status x = Ready
                        then Some \<lparr>ct_target_generation = target_generation, ct_source_generation = nds_generation x\<rparr>
                        else None
                    | _ \<Rightarrow> None), s))))"

definition ticket_holds :: "state_codec \<Rightarrow> string \<Rightarrow> string \<Rightarrow> string \<Rightarrow> string \<Rightarrow> copy_ticket \<Rightarrow> (index_db, bool) src" where
  "ticket_holds cd tenant_id repo_id source target ticket =
     src_bind (state_read cd (tenant_id, repo_id, source)) (\<lambda>source_state.
     src_bind (state_read cd (tenant_id, repo_id, target)) (\<lambda>target_state.
       src_return
         ((case source_state of
             None \<Rightarrow> False
           | Some st \<Rightarrow> nds_status st = Ready \<and> nds_generation st = ct_source_generation ticket) \<and>
          (case target_state of
             None \<Rightarrow> False
           | Some st \<Rightarrow> nds_status st = NotBuilt \<and> nds_generation st = ct_target_generation ticket))))"

definition after_branch_copy ::
  "state_codec \<Rightarrow> string \<Rightarrow> string \<Rightarrow> string \<Rightarrow> string \<Rightarrow> copy_ticket option \<Rightarrow> (index_db, bool) src" where
  "after_branch_copy cd tenant_id repo_id source target ticket s =
     (let s = copying_remove (tenant_id, repo_id, target) s
      in src_bind
           (case ticket of None \<Rightarrow> src_return False | Some t \<Rightarrow> ticket_holds cd tenant_id repo_id source target t)
           (\<lambda>held.
              if held then
                src_bind (put_state cd [] (scope_key (tenant_id, repo_id, target)) Ready (ct_target_generation (the ticket)))
                  (\<lambda>batch. src_bind (write_batch batch) (\<lambda>_. src_return True))
              else src_bind (invalidate_locked cd (tenant_id, repo_id, target)) (\<lambda>_. src_return False)) s)"

section \<open>What the calls do to the records\<close>

definition scope_ok :: "branch_scope \<Rightarrow> bool" where
  "scope_ok sc \<longleftrightarrow> (case sc of (t, r, b) \<Rightarrow> str_nul_free t \<and> str_nul_free r \<and> str_nul_free b)"

definition codec_ok :: "state_codec \<Rightarrow> bool" where
  "codec_ok cd \<longleftrightarrow> (\<forall>st bs. sc_encode cd st = Inr bs \<longrightarrow> sc_decode cd bs = Some st)"

type_synonym records = "branch_scope \<Rightarrow> (index_status \<times> u64) option"

definition records :: "state_codec \<Rightarrow> index_db \<Rightarrow> records" where
  "records cd s sc =
     (if scope_ok sc
      then map_option (\<lambda>st. (nds_status st, nds_generation st))
             (Option.bind (map_of (ix_status s) (scope_key sc)) (sc_decode cd))
      else None)"

definition unchanged :: "index_db \<Rightarrow> index_db \<Rightarrow> bool" where
  "unchanged s s' \<longleftrightarrow> ix_status s' = ix_status s \<and> ix_copying s' = ix_copying s"

lemma unchanged_refl [simp]: "unchanged s s"
  by (simp add: unchanged_def)

lemma unchanged_trans [trans]: "unchanged a b \<Longrightarrow> unchanged b c \<Longrightarrow> unchanged a c"
  by (simp add: unchanged_def)

lemma scope_key_parts:
  "scope_key (t, r, b) = terminated [as_bytes t, as_bytes r, as_bytes b] @ as_bytes ''ndel_state''"
  unfolding scope_key_def delete_state_key_def prod.case by (rule build_parts) (simp add: chain_def)

lemma scope_key_eq_iff:
  assumes "scope_ok a" and "scope_ok b"
  shows "scope_key a = scope_key b \<longleftrightarrow> a = b"
proof -
  obtain t r c t' r' c' where ab: "a = (t, r, c)" "b = (t', r', c')" by (cases a; cases b)
  have "nul_free (map as_bytes [t, r, c])" "nul_free (map as_bytes [t', r', c'])" using assms by (auto simp: ab scope_ok_def)
  from terminated_eq_iff [OF this] show ?thesis unfolding ab scope_key_parts by simp
qed

lemma src_bind_cases:
  assumes "src_bind m f s = (res, s')"
  obtains (err) e where "m s = (Inl e, s')" and "res = Inl e" | (ok) x s1 where "m s = (Inr x, s1)" and "f x s1 = (res, s')"
  using assms by (auto simp: src_bind_def split: prod.splits sum.splits)

lemma fallible_unchanged: "fallible s = (res, s') \<Longrightarrow> unchanged s s'"
  by (auto simp: fallible_def unchanged_def split: list.splits option.splits)

lemma state_read_result:
  assumes "state_read cd sc s = (res, s')"
  shows "unchanged s s'"
    and "res = Inr cur \<Longrightarrow> scope_ok sc \<Longrightarrow> map_option (\<lambda>st. (nds_status st, nds_generation st)) cur = records cd s sc"
  using assms unfolding state_read_def
  by (auto elim!: src_bind_cases dest: fallible_unchanged simp: records_def unchanged_def)

definition stamped :: "state_codec \<Rightarrow> branch_scope \<Rightarrow> index_status \<Rightarrow> u64 \<Rightarrow> 'a \<Rightarrow> (index_db, 'a) src" where
  "stamped cd sc st g x =
     src_bind (put_state cd [] (scope_key sc) st g) (\<lambda>batch. src_bind (write_batch batch) (\<lambda>_. src_return x))"

lemma stamped_result:
  assumes "codec_ok cd" and "scope_ok sc" and "stamped cd sc st g x s = (res, s')"
  shows "(\<exists>e. res = Inl e) \<and> unchanged s s' \<or>
    res = Inr x \<and> ix_copying s' = ix_copying s \<and> records cd s' = (records cd s)(sc := Some (st, g)) \<and>
    (distinct (map fst (ix_status s)) \<longrightarrow> distinct (map fst (ix_status s')))"
proof (cases "sc_encode cd \<lparr>nds_status = st, nds_generation = g, nds_updated_at = sc_now cd\<rparr>")
  case (Inl e)
  then show ?thesis using assms(3) by (auto simp: stamped_def put_state_def src_bind_def src_fail_def)
next
  case (Inr bs)
  from assms(3) [unfolded stamped_def] show ?thesis
  proof (cases rule: src_bind_cases)
    case (err e)
    then show ?thesis using Inr by (auto simp: put_state_def src_return_def elim!: src_bind_cases dest: fallible_unchanged)
  next
    case (ok batch s1)
    then have b: "batch = [(scope_key sc, bs)]" "unchanged s s1"
      using Inr by (auto simp: put_state_def src_return_def elim!: src_bind_cases dest: fallible_unchanged)
    from ok(2) show ?thesis
    proof (cases rule: src_bind_cases)
      case (err e)
      then show ?thesis using b by (auto simp: write_batch_def elim!: src_bind_cases dest: fallible_unchanged intro: unchanged_trans)
    next
      case (ok u s2)
      then have s2: "ix_status s2 = AList.update (scope_key sc) bs (ix_status s)" "ix_copying s2 = ix_copying s" "s' = s2" "res = Inr x"
        using b by (auto simp: write_batch_def src_return_def unchanged_def elim!: src_bind_cases dest!: fallible_unchanged)
      have "sc_decode cd bs = Some \<lparr>nds_status = st, nds_generation = g, nds_updated_at = sc_now cd\<rparr>"
        using assms(1) Inr by (auto simp: codec_ok_def)
      then have "records cd s2 sc' = ((records cd s)(sc := Some (st, g))) sc'" for sc'
        using scope_key_eq_iff [of sc sc'] assms(2) by (auto simp: records_def s2(1) update_conv')
      with s2 show ?thesis by (auto simp: distinct_update)
    qed
  qed
qed

lemma records_copying [simp]: "records cd (s\<lparr>ix_copying := c\<rparr>) = records cd s"
  by (simp add: fun_eq_iff records_def)

lemma records_unchanged: "unchanged s s' \<Longrightarrow> records cd s' = records cd s"
  by (simp add: fun_eq_iff records_def unchanged_def)

lemma read_records:
  assumes "state_read cd sc s = (Inr cur, s')" and "scope_ok sc"
  shows "unchanged s s'" and "records cd s sc = (case cur of None \<Rightarrow> None | Some st \<Rightarrow> Some (nds_status st, nds_generation st))"
  using state_read_result [OF assms(1)] assms(2) by (auto split: option.split)

lemma read_error: "state_read cd sc s = (Inl e, s') \<Longrightarrow> unchanged s s'"
  by (rule state_read_result)

text \<open>A call that fails leaves the records as they were, and so does one that returns without a stamp.\<close>

definition kept :: "state_codec \<Rightarrow> index_db \<Rightarrow> index_db \<Rightarrow> bool" where
  "kept cd s s' \<longleftrightarrow> records cd s' = records cd s \<and> ix_copying s' = ix_copying s \<and>
     (distinct (map fst (ix_status s)) \<longrightarrow> distinct (map fst (ix_status s')))"

definition stamps :: "state_codec \<Rightarrow> branch_scope \<Rightarrow> index_status \<Rightarrow> u64 \<Rightarrow> index_db \<Rightarrow> index_db \<Rightarrow> bool" where
  "stamps cd sc st g s s' \<longleftrightarrow> records cd s' = (records cd s)(sc := Some (st, g)) \<and> ix_copying s' = ix_copying s \<and>
     (distinct (map fst (ix_status s)) \<longrightarrow> distinct (map fst (ix_status s')))"

lemma kept_unchanged: "unchanged s s' \<Longrightarrow> kept cd s s'"
  by (simp add: kept_def records_unchanged) (simp add: unchanged_def)

lemma stamps_of_stamped:
  assumes "codec_ok cd" and "scope_ok sc" and "unchanged s s1" and "stamped cd sc st g x s1 = (res, s')"
  shows "(\<exists>e. res = Inl e) \<and> kept cd s s' \<or> res = Inr x \<and> stamps cd sc st g s s'"
  using stamped_result [OF assms(1,2,4)] kept_unchanged [OF assms(3), of cd] kept_unchanged [of s1 s' cd]
  by (auto simp: stamps_def kept_def)

lemma begin_build_result:
  assumes "codec_ok cd" and "scope_ok sc" and "begin_build cd sc resume s = (res, s')"
  shows "case res of
      Inl _ \<Rightarrow> kept cd s s'
    | Inr (g, True) \<Rightarrow> kept cd s s' \<and> resume = Some g \<and> records cd s sc = Some (Building, g)
    | Inr (g, False) \<Rightarrow> g = (case records cd s sc of None \<Rightarrow> 0 | Some (_, n) \<Rightarrow> n) + 1 \<and> stamps cd sc Building g s s'"
  using assms(3) unfolding begin_build_def
proof (cases rule: src_bind_cases)
  case (err e)
  then show ?thesis by (simp add: kept_unchanged [OF read_error])
next
  case (ok cur s1)
  note rd = read_records [OF ok(1) assms(2)] and k = kept_unchanged [OF read_records(1) [OF ok(1) assms(2)]]
  show ?thesis
  proof (cases "case (resume, cur) of (Some g, Some st) \<Rightarrow> nds_status st = Building \<and> nds_generation st = g | _ \<Rightarrow> False")
    case True
    then show ?thesis using ok(2) rd(2) k by (auto simp: src_return_def split: option.splits)
  next
    case False
    let ?g = "(case cur of None \<Rightarrow> 0 | Some st \<Rightarrow> nds_generation st) + 1"
    have "stamped cd sc Building ?g (?g, False) s1 = (res, s')"
      using ok(2) False unfolding stamped_def Let_def by (simp add: case_prod_unfold)
    from stamps_of_stamped [OF assms(1,2) rd(1) this] rd(2) show ?thesis by (auto split: option.split)
  qed
qed

lemma finish_build_result:
  assumes "codec_ok cd" and "scope_ok sc" and "finish_build cd sc g s = (res, s')"
  shows "if res = Inr True then \<not> in_progress sc s \<and> records cd s sc = Some (Building, g) \<and> stamps cd sc Ready g s s'
    else kept cd s s'"
proof (cases "in_progress sc s")
  case True
  then show ?thesis using assms(3) by (auto simp: finish_build_def src_bind_def src_return_def kept_unchanged)
next
  case False
  have "src_bind (src_bind (state_read cd sc) (\<lambda>current. src_return
        (case current of None \<Rightarrow> False | Some st \<Rightarrow> nds_status st = Building \<and> nds_generation st = g)))
      (\<lambda>still. if still then stamped cd sc Ready g True else src_return False) s = (res, s')"
    using assms(3) False unfolding finish_build_def stamped_def by simp
  then show ?thesis
  proof (cases rule: src_bind_cases)
    case (err e)
    then show ?thesis by (auto simp: src_return_def elim!: src_bind_cases intro: kept_unchanged [OF read_error])
  next
    case (ok still s1)
    from ok(1) obtain cur where rd: "state_read cd sc s = (Inr cur, s1)"
      and st: "still = (case cur of None \<Rightarrow> False | Some st \<Rightarrow> nds_status st = Building \<and> nds_generation st = g)"
      by (auto simp: src_return_def elim!: src_bind_cases)
    note k = kept_unchanged [OF read_records(1) [OF rd assms(2)]]
    show ?thesis
    proof (cases still)
      case True
      then have "records cd s sc = Some (Building, g)" using read_records(2) [OF rd assms(2)] st by (auto split: option.splits)
      with stamps_of_stamped [OF assms(1,2) read_records(1) [OF rd assms(2)], of Ready g True res s'] ok(2) True False
      show ?thesis by auto
    qed (use ok(2) k in \<open>auto simp: src_return_def\<close>)
  qed
qed

lemma invalidate_result:
  assumes "codec_ok cd" and "scope_ok sc" and "invalidate_locked cd sc s = (res, s')"
  shows "case res of
      Inl _ \<Rightarrow> kept cd s s'
    | Inr None \<Rightarrow> kept cd s s' \<and> records cd s sc = None
    | Inr (Some g) \<Rightarrow> \<exists>st n. records cd s sc = Some (st, n) \<and> g = n + 1 \<and> stamps cd sc NotBuilt g s s'"
  using assms(3) unfolding invalidate_locked_def
proof (cases rule: src_bind_cases)
  case (err e)
  then show ?thesis by (simp add: kept_unchanged [OF read_error])
next
  case (ok cur s1)
  note rd = read_records [OF ok(1) assms(2)] and k = kept_unchanged [OF read_records(1) [OF ok(1) assms(2)]]
  show ?thesis
  proof (cases cur)
    case None
    then show ?thesis using ok(2) rd(2) k by (simp add: src_return_def) auto
  next
    case (Some st)
    have "stamped cd sc NotBuilt (nds_generation st + 1) (Some (nds_generation st + 1)) s1 = (res, s')"
      using ok(2) by (simp add: Some stamped_def Let_def)
    from stamps_of_stamped [OF assms(1,2) rd(1) this] rd(2) Some show ?thesis by auto
  qed
qed

lemma put_state_result:
  assumes "codec_ok cd" and "put_state cd batch key st g s = (Inr batch', s')"
  shows "unchanged s s'" and "\<exists>bs. batch' = batch @ [(key, bs)] \<and>
    sc_decode cd bs = Some \<lparr>nds_status = st, nds_generation = g, nds_updated_at = sc_now cd\<rparr>"
  using assms unfolding put_state_def codec_ok_def
  by (auto simp: src_fail_def src_return_def split: sum.splits elim!: src_bind_cases dest: fallible_unchanged)

lemma put_state_error: "put_state cd batch key st g s = (Inl e, s') \<Longrightarrow> unchanged s s'"
  unfolding put_state_def
  by (auto simp: src_fail_def src_return_def split: sum.splits elim!: src_bind_cases dest: fallible_unchanged)

lemma mark_loop_error: "mark_loop cd es batch n s = (Inl e, s') \<Longrightarrow> codec_ok cd \<Longrightarrow> unchanged s s'"
proof (induction cd es batch n arbitrary: s rule: mark_loop.induct)
  case (2 cd key v es batch n)
  show ?case
  proof (cases "if state_shaped key then sc_decode cd v else None")
    case None
    with 2 show ?thesis by simp
  next
    case (Some st)
    with 2(3) have "src_bind (put_state cd batch key NotBuilt (nds_generation st + 1)) (\<lambda>batch. mark_loop cd es batch (n + 1)) s = (Inl e, s')"
      by simp
    then show ?thesis
    proof (cases rule: src_bind_cases)
      case (ok b s1)
      from unchanged_trans [OF put_state_result(1) [OF 2(4) ok(1)] 2(2) [OF Some ok(2) 2(4)]] show ?thesis .
    qed (simp add: put_state_error)
  qed
qed (simp add: src_return_def)

definition marks :: "state_codec \<Rightarrow> entries \<Rightarrow> entries \<Rightarrow> bool" where
  "marks cd es ms \<longleftrightarrow>
     (\<forall>(k, bs) \<in> set ms. \<exists>v st x. (k, v) \<in> set es \<and> sc_decode cd v = Some st \<and>
        sc_decode cd bs = Some \<lparr>nds_status = NotBuilt, nds_generation = nds_generation st + 1, nds_updated_at = x\<rparr>) \<and>
     (\<forall>(k, v) \<in> set es. state_shaped k \<and> sc_decode cd v \<noteq> None \<longrightarrow> k \<in> fst ` set ms)"

lemma marks_Cons: "marks cd es ms \<Longrightarrow> \<not> (state_shaped k \<and> sc_decode cd v \<noteq> None) \<Longrightarrow> marks cd ((k, v) # es) ms"
  unfolding marks_def by fastforce

lemma marks_both:
  "marks cd es ms \<Longrightarrow> sc_decode cd v = Some st \<Longrightarrow>
   sc_decode cd bs = Some \<lparr>nds_status = NotBuilt, nds_generation = nds_generation st + 1, nds_updated_at = x\<rparr> \<Longrightarrow>
   marks cd ((k, v) # es) ((k, bs) # ms)"
  unfolding marks_def by fastforce

lemma mark_loop_result:
  "mark_loop cd es batch n s = (Inr (batch', n'), s') \<Longrightarrow> codec_ok cd \<Longrightarrow>
   unchanged s s' \<and> (\<exists>ms. batch' = batch @ ms \<and> marks cd es ms)"
proof (induction cd es batch n arbitrary: s rule: mark_loop.induct)
  case (1 cd batch n)
  then show ?case by (auto simp: src_return_def marks_def)
next
  case (2 cd key v es batch n)
  show ?case
  proof (cases "if state_shaped key then sc_decode cd v else None")
    case None
    with 2 marks_Cons [of cd es _ key v] show ?thesis by (fastforce split: if_splits)
  next
    case (Some st)
    with 2(3) have "src_bind (put_state cd batch key NotBuilt (nds_generation st + 1)) (\<lambda>batch. mark_loop cd es batch (n + 1)) s =
        (Inr (batch', n'), s')" by simp
    then show ?thesis
    proof (cases rule: src_bind_cases)
      case (ok b s1)
      from put_state_result [OF 2(4) ok(1)] obtain bs where
        bs: "unchanged s s1" "b = batch @ [(key, bs)]"
          "sc_decode cd bs = Some \<lparr>nds_status = NotBuilt, nds_generation = nds_generation st + 1, nds_updated_at = sc_now cd\<rparr>"
        by blast
      from 2(2) [OF Some ok(2) 2(4)] obtain ms where "unchanged s1 s'" "batch' = b @ ms" "marks cd es ms" by blast
      moreover have "sc_decode cd v = Some st" using Some by (simp split: if_splits)
      ultimately show ?thesis using bs marks_both [of cd es ms v st bs "sc_now cd" key] unchanged_trans by auto
    qed simp
  qed
qed

lemma map_of_fold_update:
  "map_of (fold (\<lambda>(k, v). AList.update k v) ms al) = map_of al ++ map_of (rev ms)"
  by (induction ms arbitrary: al) (auto simp: update_conv' map_add_def fun_eq_iff split: option.splits)

lemma distinct_fold_update:
  "distinct (map fst al) \<Longrightarrow> distinct (map fst (fold (\<lambda>(k, v). AList.update k v) ms al))"
  by (induction ms arbitrary: al) (auto simp: distinct_update)

lemma scope_key_shaped: "scope_ok sc \<Longrightarrow> state_shaped (scope_key sc)"
proof -
  assume "scope_ok sc"
  then obtain t r b where sc: "sc = (t, r, b)" "str_nul_free t" "str_nul_free r" "str_nul_free b"
    by (cases sc) (auto simp: scope_ok_def)
  have z: "filter (\<lambda>b. b = 0) (as_bytes x) = []" if "str_nul_free x" for x
    using that nul_notin_as_bytes [of x] by (auto simp: filter_empty_conv)
  have "str_nul_free ''ndel_state''" by (simp add: str_nul_free_def)
  with z sc show ?thesis by (simp add: state_shaped_def scope_key_parts RECORD_def suffix_def)
qed

lemma marked_record:
  assumes "distinct (map fst es)" and "marks cd es ms" and "scope_ok sc"
  defines "read \<equiv> \<lambda>al. map_option (\<lambda>st. (nds_status st, nds_generation st)) (Option.bind (map_of al (scope_key sc)) (sc_decode cd))"
  shows "read (fold (\<lambda>(k, v). AList.update k v) ms es) = map_option (\<lambda>(st, g). (NotBuilt, g + 1)) (read es)"
proof -
  let ?k = "scope_key sc"
  show ?thesis
  proof (cases "map_of (rev ms) ?k")
    case (Some bs)
    then have "(?k, bs) \<in> set ms" using map_of_SomeD [of "rev ms"] by simp
    then obtain v st x where v: "(?k, v) \<in> set es" "sc_decode cd v = Some st"
      "sc_decode cd bs = Some \<lparr>nds_status = NotBuilt, nds_generation = nds_generation st + 1, nds_updated_at = x\<rparr>"
      using assms(2) unfolding marks_def by fastforce
    with assms(1) have "map_of es ?k = Some v" by simp
    with Some v show ?thesis by (simp add: read_def map_of_fold_update)
  next
    case None
    then have none: "?k \<notin> fst ` set ms" by (simp add: map_of_eq_None_iff)
    have "sc_decode cd v = None" if "map_of es ?k = Some v" for v
    proof (rule ccontr)
      assume "sc_decode cd v \<noteq> None"
      with map_of_SomeD [OF that] assms(2) scope_key_shaped [OF assms(3)] have "?k \<in> fst ` set ms" unfolding marks_def by fastforce
      with none show False ..
    qed
    with None show ?thesis by (cases "map_of es ?k") (simp_all add: read_def map_of_fold_update map_add_def)
  qed
qed

lemma mark_all_result:
  assumes "codec_ok cd" and "distinct (map fst (ix_status s))" and "mark_all_not_built cd s = (res, s')"
  shows "ix_copying s' = ix_copying s \<and> distinct (map fst (ix_status s')) \<and>
    (case res of
       Inl _ \<Rightarrow> kept cd s s'
     | Inr _ \<Rightarrow> records cd s' = (\<lambda>sc. map_option (\<lambda>(st, g). (NotBuilt, g + 1)) (records cd s sc)))"
proof (cases res)
  case (Inl e)
  then have "unchanged s s'"
    using assms(3) unfolding mark_all_not_built_def write_batch_def
    by (auto simp: src_return_def elim!: src_bind_cases dest!: fallible_unchanged mark_loop_error [OF _ assms(1)] mark_loop_result [OF _ assms(1)]
        intro: unchanged_trans)
  then show ?thesis using Inl assms(2) by (simp add: kept_unchanged) (simp add: unchanged_def)
next
  case (Inr n)
  then obtain batch k s1 s2 s3 s4 where r: "fallible s = (Inr (), s1)" "mark_loop cd (ix_status s) [] 0 s1 = (Inr (batch, k), s2)"
    "fallible s2 = (Inr (), s3)" "write_batch batch s3 = (Inr (), s4)" "s' = s4"
    using assms(3) unfolding mark_all_not_built_def by (auto simp: src_return_def elim!: src_bind_cases)
  from mark_loop_result [OF r(2) assms(1)] have ms: "unchanged s1 s2" "marks cd (ix_status s) batch" by auto
  from r(1,3) ms(1) have "unchanged s s3" by (meson fallible_unchanged unchanged_trans)
  moreover from r(4) have "ix_copying s4 = ix_copying s3" "ix_status s4 = fold (\<lambda>(k, v). AList.update k v) batch (ix_status s3)"
    by (auto simp: write_batch_def unchanged_def elim!: src_bind_cases dest!: fallible_unchanged)
  ultimately have s': "ix_copying s' = ix_copying s" "ix_status s' = fold (\<lambda>(k, v). AList.update k v) batch (ix_status s)"
    by (simp_all add: r(5) unchanged_def)
  moreover have "records cd s' = (\<lambda>sc. map_option (\<lambda>(st, g). (NotBuilt, g + 1)) (records cd s sc))"
    using marked_record [OF assms(2) ms(2)] by (auto simp: records_def s' fun_eq_iff)
  ultimately show ?thesis using Inr assms(2) by (simp add: distinct_fold_update)
qed

lemma forget_result:
  assumes "scope_ok sc" and "src_bind (stage_forget_branch [] sc) write_deletes s = (res, s')"
  shows "ix_copying s' = ix_copying s \<and> (distinct (map fst (ix_status s)) \<longrightarrow> distinct (map fst (ix_status s'))) \<and>
    (case res of Inl _ \<Rightarrow> kept cd s s' | Inr _ \<Rightarrow> records cd s' = (records cd s)(sc := None))"
proof (cases res)
  case (Inl e)
  then have "unchanged s s'"
    using assms(2) unfolding stage_forget_branch_def write_deletes_def
    by (auto simp: src_return_def elim!: src_bind_cases dest!: fallible_unchanged intro: unchanged_trans)
  then show ?thesis using Inl by (simp add: kept_unchanged) (simp add: unchanged_def)
next
  case (Inr u)
  then have s': "ix_copying s' = ix_copying s" "ix_status s' = AList.delete (scope_key sc) (ix_status s)"
    using assms(2) unfolding stage_forget_branch_def write_deletes_def
    by (auto simp: src_return_def unchanged_def elim!: src_bind_cases dest!: fallible_unchanged)
  then have "records cd s' = (records cd s)(sc := None)"
    using scope_key_eq_iff [OF _ assms(1)] assms(1) by (auto simp: records_def fun_eq_iff delete_conv')
  with s' Inr show ?thesis by (simp add: distinct_delete)
qed

lemma before_copy_result:
  assumes "codec_ok cd" and "scope_ok (t, r, src)" and "scope_ok (t, r, tgt)" and "before_branch_copy cd t r src tgt s = (res, s')"
  shows "case res of
      Inl _ \<Rightarrow> kept cd s s'
    | Inr ticket \<Rightarrow> ix_copying s' = ix_copying (copying_add (t, r, tgt) s) \<and>
        (distinct (map fst (ix_status s)) \<longrightarrow> distinct (map fst (ix_status s'))) \<and>
        (case records cd s (t, r, tgt) of
           None \<Rightarrow> ticket = None \<and> records cd s' = records cd s
         | Some (st, n) \<Rightarrow> records cd s' = (records cd s)((t, r, tgt) := Some (NotBuilt, n + 1)) \<and>
             (\<forall>k. ticket = Some k \<longrightarrow> st = Ready \<and> ct_target_generation k = n + 1 \<and>
                records cd s (t, r, src) = Some (Ready, ct_source_generation k)))"
  using assms(4) unfolding before_branch_copy_def
proof (cases rule: src_bind_cases)
  case (err e)
  then show ?thesis by (simp add: kept_unchanged [OF read_error])
next
  case (ok ts s1)
  note t = read_records [OF ok(1) assms(3)]
  from ok(2) show ?thesis
  proof (cases rule: src_bind_cases)
    case (err e)
    with t(1) show ?thesis by (simp add: kept_unchanged [OF unchanged_trans [OF _ read_error]])
  next
    case (ok ss s2)
    note x = read_records [OF ok(1) assms(2)]
    have s2: "unchanged s s2" using t(1) x(1) by (rule unchanged_trans)
    then have rec2: "records cd s2 = records cd s" "records cd s1 = records cd s" using t(1) by (simp_all add: records_unchanged)
    from ok(2) show ?thesis
    proof (cases rule: src_bind_cases)
      case (err e)
      with invalidate_result [OF assms(1,3) err(1)] s2 rec2 show ?thesis by (simp add: kept_def unchanged_def)
    next
      case (ok inv s3)
      from invalidate_result [OF assms(1,3) ok(1)] ok(2) show ?thesis
        using t x s2 rec2
        by (auto simp: kept_def stamps_def unchanged_def copying_add_def Let_def split: option.splits if_splits)
    qed
  qed
qed

lemma ticket_holds_result:
  assumes "scope_ok (t, r, src)" and "scope_ok (t, r, tgt)" and "ticket_holds cd t r src tgt k s = (res, s')"
  shows "unchanged s s' \<and> (\<forall>held. res = Inr held \<longrightarrow> held = (records cd s (t, r, src) = Some (Ready, ct_source_generation k) \<and>
    records cd s (t, r, tgt) = Some (NotBuilt, ct_target_generation k)))"
  using assms(3) unfolding ticket_holds_def
proof (cases rule: src_bind_cases)
  case (err e)
  then show ?thesis by (simp add: read_error)
next
  case (ok x s1)
  note x = read_records [OF ok(1) assms(1)]
  from ok(2) show ?thesis
  proof (cases rule: src_bind_cases)
    case (err e)
    then show ?thesis using unchanged_trans [OF x(1)] read_error by auto
  next
    case (ok y s2)
    note y = read_records [OF ok(1) assms(2)]
    show ?thesis
      using ok(2) unchanged_trans [OF x(1) y(1)] x(2) y(2) records_unchanged [OF x(1), of cd]
      by (auto simp: src_return_def split: option.splits)
  qed
qed

lemma after_copy_result:
  assumes "codec_ok cd" and "scope_ok (t, r, src)" and "scope_ok (t, r, tgt)" and "after_branch_copy cd t r src tgt ticket s = (res, s')"
  shows "ix_copying s' = ix_copying (copying_remove (t, r, tgt) s) \<and>
    (distinct (map fst (ix_status s)) \<longrightarrow> distinct (map fst (ix_status s'))) \<and>
    (case res of
       Inl _ \<Rightarrow> records cd s' = records cd s
     | Inr True \<Rightarrow> \<exists>k. ticket = Some k \<and> records cd s (t, r, src) = Some (Ready, ct_source_generation k) \<and>
         records cd s (t, r, tgt) = Some (NotBuilt, ct_target_generation k) \<and>
         records cd s' = (records cd s)((t, r, tgt) := Some (Ready, ct_target_generation k))
     | Inr False \<Rightarrow> records cd s' = (records cd s)((t, r, tgt) := map_option (\<lambda>(_, n). (NotBuilt, n + 1)) (records cd s (t, r, tgt))))"
proof -
  define s0 where "s0 = copying_remove (t, r, tgt) s"
  have s0: "ix_status s0 = ix_status s" "records cd s0 = records cd s"
    by (auto simp: s0_def copying_remove_def split: option.split)
  have "src_bind (case ticket of None \<Rightarrow> src_return False | Some k \<Rightarrow> ticket_holds cd t r src tgt k)
      (\<lambda>held. if held then stamped cd (t, r, tgt) Ready (ct_target_generation (the ticket)) True
              else src_bind (invalidate_locked cd (t, r, tgt)) (\<lambda>_. src_return False)) s0 = (res, s')"
    using assms(4) unfolding after_branch_copy_def stamped_def s0_def Let_def .
  then show ?thesis
  proof (cases rule: src_bind_cases)
    case (err e)
    then have "unchanged s0 s'" using ticket_holds_result [OF assms(2,3)] by (auto simp: src_return_def split: option.splits)
    then show ?thesis using err s0 records_unchanged [of s0 s' cd] by (simp add: unchanged_def s0_def)
  next
    case (ok held s1)
    then have u: "unchanged s0 s1" and h: "held \<Longrightarrow> \<exists>k. ticket = Some k \<and> records cd s (t, r, src) = Some (Ready, ct_source_generation k) \<and>
        records cd s (t, r, tgt) = Some (NotBuilt, ct_target_generation k)"
      using ticket_holds_result [OF assms(2,3), of cd _ s0 "Inr held" s1] s0(2) by (auto simp: src_return_def split: option.splits)
    note r1 = records_unchanged [OF u, of cd]
    show ?thesis
    proof (cases held)
      case True
      with ok(2) h stamps_of_stamped [OF assms(1,3) u, of Ready "ct_target_generation (the ticket)" True res s'] s0 show ?thesis
        by (auto simp: kept_def stamps_def s0_def)
    next
      case False
      with ok(2) have "src_bind (invalidate_locked cd (t, r, tgt)) (\<lambda>_. src_return False) s1 = (res, s')" by simp
      then show ?thesis
      proof (cases rule: src_bind_cases)
        case (err e)
        with invalidate_result [OF assms(1,3) err(1)] u r1 s0 show ?thesis by (simp add: kept_def unchanged_def s0_def)
      next
        case (ok inv s2)
        with invalidate_result [OF assms(1,3) ok(1)] u r1 s0 show ?thesis
          by (auto simp: kept_def stamps_def unchanged_def s0_def src_return_def fun_eq_iff split: option.splits)
      qed
    qed
  qed
qed

end
