(* ===== verification/Delete_Index_Runs.thy ===== *)
theory Delete_Index_Runs
  imports Delete_Index_State
begin

text \<open>
  Branches, backfills and copies around the readiness records of \<open>Delete_Index_State\<close>. A branch holds the tombstones of its
  nodes and the entries of its delete index. Deletes write both in one batch (\<open>stage_delete\<close>); a backfill begins a build, opens
  an iterator over the tombstones of that moment, writes the entry of each and finishes (\<open>backfill.rs\<close>); a copy of a branch
  brings tombstones first and entries after (\<open>copy_branch_indexes_blocking\<close>). Steps of different runs interleave freely, and
  every call may fail by a fault of the script. The invariant: a branch called ready has all entries.
\<close>

type_synonym tombstone = "string \<times> string \<times> hlc"

record backfill =
  bf_scope :: branch_scope
  bf_generation :: u64
  bf_view :: "tombstone set option"

record copy_run =
  cr_tenant :: string
  cr_repo :: string
  cr_source :: string
  cr_target :: string
  cr_ticket :: "copy_ticket option"
  cr_copied :: "tombstone set"
  cr_entries :: bool

abbreviation source_of :: "copy_run \<Rightarrow> branch_scope" where
  "source_of c \<equiv> (cr_tenant c, cr_repo c, cr_source c)"

abbreviation target_of :: "copy_run \<Rightarrow> branch_scope" where
  "target_of c \<equiv> (cr_tenant c, cr_repo c, cr_target c)"

record index_world =
  w_db :: index_db
  w_tombs :: "branch_scope \<Rightarrow> tombstone set"
  w_entries :: "branch_scope \<Rightarrow> tombstone set"
  w_backfills :: "backfill list"
  w_copies :: "copy_run list"

definition room :: "state_codec \<Rightarrow> index_world \<Rightarrow> bool" where
  "room cd w \<longleftrightarrow> (\<forall>sc st g. records cd (w_db w) sc = Some (st, g) \<longrightarrow> g \<noteq> u64_MAX)"

definition ncopies :: "copy_run list \<Rightarrow> branch_scope \<Rightarrow> nat" where
  "ncopies cs b = length (filter (\<lambda>c. target_of c = b) cs)"

inductive index_step :: "state_codec \<Rightarrow> index_world \<Rightarrow> index_world \<Rightarrow> bool" for cd where
  delete_node:
    "index_step cd w (w\<lparr>w_tombs := (w_tombs w)(b := insert x (w_tombs w b)),
                        w_entries := (w_entries w)(b := insert x (w_entries w b))\<rparr>)"
| begin_backfill:
    "\<lbrakk>room cd w; scope_ok b; begin_build cd b None (w_db w) = (res, s)\<rbrakk> \<Longrightarrow>
     index_step cd w (w\<lparr>w_db := s,
       w_backfills := (case res of
                         Inl _ \<Rightarrow> w_backfills w
                       | Inr (g, _) \<Rightarrow> \<lparr>bf_scope = b, bf_generation = g, bf_view = None\<rparr> # w_backfills w)\<rparr>)"
| resume_backfill:
    "\<lbrakk>room cd w; w_backfills w = ps @ p # qs; bf_view p = Some V; V \<inter> w_tombs w (bf_scope p) \<subseteq> V';
      begin_build cd (bf_scope p) (Some (bf_generation p)) (w_db w) = (res, s)\<rbrakk> \<Longrightarrow>
     index_step cd w (w\<lparr>w_db := s,
       w_backfills := (case res of
                         Inl _ \<Rightarrow> w_backfills w
                       | Inr (g, continued) \<Rightarrow>
                           ps @ p\<lparr>bf_generation := g, bf_view := (if continued then Some V' else None)\<rparr> # qs)\<rparr>)"
| open_scan:
    "\<lbrakk>w_backfills w = ps @ p # qs; bf_view p = None\<rbrakk> \<Longrightarrow>
     index_step cd w (w\<lparr>w_backfills := ps @ p\<lparr>bf_view := Some (w_tombs w (bf_scope p))\<rparr> # qs\<rparr>)"
| write_entry:
    "\<lbrakk>w_backfills w = ps @ p # qs; bf_view p = Some V; x \<in> V\<rbrakk> \<Longrightarrow>
     index_step cd w (w\<lparr>w_entries := (w_entries w)(bf_scope p := insert x (w_entries w (bf_scope p))),
       w_backfills := ps @ p\<lparr>bf_view := Some (V - {x})\<rparr> # qs\<rparr>)"
| finish_backfill:
    "\<lbrakk>w_backfills w = ps @ p # qs; bf_view p = Some {};
      finish_build cd (bf_scope p) (bf_generation p) (w_db w) = (res, s)\<rbrakk> \<Longrightarrow>
     index_step cd w (w\<lparr>w_db := s, w_backfills := ps @ qs\<rparr>)"
| abandon_backfill:
    "w_backfills w = ps @ p # qs \<Longrightarrow> index_step cd w (w\<lparr>w_backfills := ps @ qs\<rparr>)"
| invalidate_branch:
    "\<lbrakk>room cd w; scope_ok b; invalidate cd b (w_db w) = (res, s)\<rbrakk> \<Longrightarrow> index_step cd w (w\<lparr>w_db := s\<rparr>)"
| mark_all:
    "\<lbrakk>room cd w; mark_all_not_built cd (w_db w) = (res, s)\<rbrakk> \<Longrightarrow> index_step cd w (w\<lparr>w_db := s\<rparr>)"
| forget_branch:
    "\<lbrakk>scope_ok b; src_bind (stage_forget_branch [] b) write_deletes (w_db w) = (res, s);
      \<forall>p \<in> set (w_backfills w). bf_scope p \<noteq> b;
      \<forall>c \<in> set (w_copies w). cr_ticket c \<noteq> None \<longrightarrow> target_of c \<noteq> b \<and> source_of c \<noteq> b\<rbrakk> \<Longrightarrow>
     index_step cd w (w\<lparr>w_db := s\<rparr>)"
| begin_copy:
    "\<lbrakk>room cd w; scope_ok (t, r, src); scope_ok (t, r, tgt); before_branch_copy cd t r src tgt (w_db w) = (res, s)\<rbrakk> \<Longrightarrow>
     index_step cd w (w\<lparr>w_db := s,
       w_copies := (case res of
                      Inl _ \<Rightarrow> w_copies w
                    | Inr ticket \<Rightarrow> \<lparr>cr_tenant = t, cr_repo = r, cr_source = src, cr_target = tgt, cr_ticket = ticket,
                        cr_copied = {}, cr_entries = False\<rparr> # w_copies w)\<rparr>)"
| copy_tombstone:
    "\<lbrakk>w_copies w = as @ c # bs; \<not> cr_entries c; x \<in> w_tombs w (source_of c)\<rbrakk> \<Longrightarrow>
     index_step cd w (w\<lparr>w_tombs := (w_tombs w)(target_of c := insert x (w_tombs w (target_of c))),
       w_copies := as @ c\<lparr>cr_copied := insert x (cr_copied c)\<rparr> # bs\<rparr>)"
| copy_entries:
    "\<lbrakk>w_copies w = as @ c # bs; cr_copied c \<inter> w_entries w (source_of c) \<subseteq> N; N \<subseteq> w_entries w (source_of c)\<rbrakk> \<Longrightarrow>
     index_step cd w (w\<lparr>w_entries := (w_entries w)(target_of c := w_entries w (target_of c) \<union> N),
       w_copies := as @ c\<lparr>cr_entries := True\<rparr> # bs\<rparr>)"
| end_copy:
    "\<lbrakk>room cd w; w_copies w = as @ c # bs;
      after_branch_copy cd (cr_tenant c) (cr_repo c) (cr_source c) (cr_target c)
        (if copied then cr_ticket c else None) (w_db w) = (Inr res, s);
      copied \<longrightarrow> cr_entries c\<rbrakk> \<Longrightarrow>
     index_step cd w (w\<lparr>w_db := s, w_copies := as @ bs\<rparr>)"

definition index_start :: "index_world \<Rightarrow> bool" where
  "index_start w \<longleftrightarrow> ix_status (w_db w) = [] \<and> ix_copying (w_db w) = [] \<and> w_backfills w = [] \<and> w_copies w = []"

section \<open>The invariant\<close>

type_synonym branch_sets = "branch_scope \<Rightarrow> tombstone set"

definition ready_complete :: "records \<Rightarrow> branch_sets \<Rightarrow> branch_sets \<Rightarrow> copy_run list \<Rightarrow> bool" where
  "ready_complete R T E cs \<longleftrightarrow> (\<forall>b g. R b = Some (Ready, g) \<longrightarrow> T b \<subseteq> E b \<and> ncopies cs b = 0)"

definition backfill_ok :: "records \<Rightarrow> branch_sets \<Rightarrow> branch_sets \<Rightarrow> copy_run list \<Rightarrow> backfill \<Rightarrow> bool" where
  "backfill_ok R T E cs p \<longleftrightarrow>
     (\<exists>st g. R (bf_scope p) = Some (st, g) \<and> bf_generation p \<le> g \<and>
        (\<forall>V. bf_view p = Some V \<and> st = Building \<and> g = bf_generation p \<and> ncopies cs (bf_scope p) = 0 \<longrightarrow>
           T (bf_scope p) \<subseteq> E (bf_scope p) \<union> V))"

definition copy_ok :: "records \<Rightarrow> branch_sets \<Rightarrow> branch_sets \<Rightarrow> copy_run list \<Rightarrow> copy_run \<Rightarrow> bool" where
  "copy_ok R T E cs c \<longleftrightarrow>
     (\<forall>k. cr_ticket c = Some k \<longrightarrow>
        (\<exists>st g. R (source_of c) = Some (st, g) \<and> ct_source_generation k \<le> g \<and> (g = ct_source_generation k \<longrightarrow> st = Ready)) \<and>
        (\<exists>st g. R (target_of c) = Some (st, g) \<and> ct_target_generation k \<le> g \<and>
           (g = ct_target_generation k \<longrightarrow> ncopies cs (target_of c) = 1 \<and>
              (st = NotBuilt \<and> R (source_of c) = Some (Ready, ct_source_generation k) \<longrightarrow>
                 cr_copied c \<subseteq> E (source_of c) \<and>
                 T (target_of c) \<subseteq> E (target_of c) \<union> (if cr_entries c then {} else cr_copied c)))))"

definition runs_ok :: "records \<Rightarrow> branch_sets \<Rightarrow> branch_sets \<Rightarrow> backfill list \<Rightarrow> copy_run list \<Rightarrow> bool" where
  "runs_ok R T E ps cs \<longleftrightarrow>
     ready_complete R T E cs \<and> (\<forall>p \<in> set ps. backfill_ok R T E cs p) \<and> (\<forall>c \<in> set cs. copy_ok R T E cs c)"

definition index_inv :: "state_codec \<Rightarrow> index_world \<Rightarrow> bool" where
  "index_inv cd w \<longleftrightarrow>
     runs_ok (records cd (w_db w)) (w_tombs w) (w_entries w) (w_backfills w) (w_copies w) \<and>
     distinct (map fst (ix_status (w_db w))) \<and>
     (\<forall>b. hm_get (ix_copying (w_db w)) b = (if ncopies (w_copies w) b = 0 then None else Some (ncopies (w_copies w) b))) \<and>
     (\<forall>p \<in> set (w_backfills w). scope_ok (bf_scope p)) \<and>
     (\<forall>c \<in> set (w_copies w). scope_ok (source_of c) \<and> scope_ok (target_of c))"

lemma ready_completeD: "ready_complete R T E cs \<Longrightarrow> R b = Some (Ready, g) \<Longrightarrow> T b \<subseteq> E b \<and> ncopies cs b = 0"
  unfolding ready_complete_def by blast

lemma ncopies_simps [simp]:
  "ncopies [] b = 0" "ncopies (c # cs) b = (if target_of c = b then 1 else 0) + ncopies cs b"
  "ncopies (cs @ ds) b = ncopies cs b + ncopies ds b"
  by (simp_all add: ncopies_def)

lemma ncopies_mem: "c \<in> set cs \<Longrightarrow> 0 < ncopies cs (target_of c)"
  by (auto simp: ncopies_def filter_empty_conv)

definition advance :: "records \<Rightarrow> records \<Rightarrow> bool" where
  "advance R R' \<longleftrightarrow> (\<forall>b. R' b = R b \<or> (\<exists>st' g'. R' b = Some (st', g') \<and> st' \<noteq> Ready \<and> (\<forall>st g. R b = Some (st, g) \<longrightarrow> g < g')))"

lemma advance_cases:
  assumes "advance R R'" and "R b = Some (st, g)"
  obtains "R' b = Some (st, g)" | st' g' where "R' b = Some (st', g')" and "st' \<noteq> Ready" and "g < g'"
  using assms unfolding advance_def by metis

lemma backfill_ok_advance:
  assumes "backfill_ok R T E cs p" and "advance R R'"
  shows "backfill_ok R' T E cs p"
proof -
  from assms(1) obtain st g where r: "R (bf_scope p) = Some (st, g)" "bf_generation p \<le> g"
    "\<And>V. bf_view p = Some V \<and> st = Building \<and> g = bf_generation p \<and> ncopies cs (bf_scope p) = 0 \<Longrightarrow> T (bf_scope p) \<subseteq> E (bf_scope p) \<union> V"
    by (auto simp: backfill_ok_def)
  from assms(2) r(1) show ?thesis by (cases rule: advance_cases) (use r in \<open>auto simp: backfill_ok_def\<close>)
qed

lemma copy_ok_advance:
  assumes "copy_ok R T E cs c" and "advance R R'"
  shows "copy_ok R' T E cs c"
proof (cases "cr_ticket c")
  case (Some k)
  with assms(1) obtain st g st1 g1 where r: "R (source_of c) = Some (st, g)" "ct_source_generation k \<le> g"
      "g = ct_source_generation k \<longrightarrow> st = Ready" "R (target_of c) = Some (st1, g1)" "ct_target_generation k \<le> g1"
    by (auto simp: copy_ok_def)
  from assms(2) r(1) show ?thesis
  proof (cases rule: advance_cases)
    case 1
    from assms(2) r(4) show ?thesis by (cases rule: advance_cases) (use 1 r Some assms(1) in \<open>auto simp: copy_ok_def\<close>)
  next
    case (2 st' g')
    from assms(2) r(4) show ?thesis by (cases rule: advance_cases) (use 2 r Some assms(1) in \<open>auto simp: copy_ok_def\<close>)
  qed
qed (simp add: copy_ok_def)

lemma runs_ok_advance:
  assumes "runs_ok R T E ps cs" and "advance R R'"
  shows "runs_ok R' T E ps cs"
proof -
  have "ready_complete R' T E cs"
    using assms unfolding runs_ok_def ready_complete_def advance_def by (metis option.inject prod.inject)
  with assms show ?thesis by (auto simp: runs_ok_def intro: backfill_ok_advance copy_ok_advance)
qed

lemma runs_ok_entries:
  assumes "runs_ok R T E ps cs" and "\<And>b. E b \<subseteq> E' b"
  shows "runs_ok R T E' ps cs"
proof -
  have le: "A \<subseteq> E b \<Longrightarrow> A \<subseteq> E' b" "A \<subseteq> E b \<union> B \<Longrightarrow> A \<subseteq> E' b \<union> B" for A B b using assms(2) [of b] by blast+
  have "backfill_ok R T E' cs p" if "backfill_ok R T E cs p" for p using that le unfolding backfill_ok_def by metis
  moreover have "copy_ok R T E' cs c" if "copy_ok R T E cs c" for c using that le unfolding copy_ok_def by metis
  moreover have "ready_complete R T E' cs" using assms(1) le by (auto simp: runs_ok_def ready_complete_def)
  ultimately show ?thesis using assms(1) by (auto simp: runs_ok_def)
qed

lemma runs_ok_delete:
  assumes "runs_ok R T E ps cs"
  shows "runs_ok R (T(b := insert x (T b))) (E(b := insert x (E b))) ps cs" (is "runs_ok R ?T ?E ps cs")
proof -
  have le: "T a \<subseteq> E a \<Longrightarrow> ?T a \<subseteq> ?E a" "T a \<subseteq> E a \<union> B \<Longrightarrow> ?T a \<subseteq> ?E a \<union> B" "A \<subseteq> E a \<Longrightarrow> A \<subseteq> ?E a" for a A B by auto
  have "backfill_ok R ?T ?E cs p" if "backfill_ok R T E cs p" for p using that le unfolding backfill_ok_def by metis
  moreover have "copy_ok R ?T ?E cs c" if "copy_ok R T E cs c" for c using that le unfolding copy_ok_def by metis
  moreover have "ready_complete R ?T ?E cs" using assms(1) le unfolding runs_ok_def ready_complete_def by metis
  ultimately show ?thesis using assms(1) by (auto simp: runs_ok_def)
qed

lemma runs_ok_backfills:
  assumes "runs_ok R T E ps cs" and "\<And>p. p \<in> set ps' \<Longrightarrow> p \<in> set ps \<or> backfill_ok R T E cs p"
  shows "runs_ok R T E ps' cs"
  using assms by (auto simp: runs_ok_def)

lemma runs_ok_finish:
  assumes "runs_ok R T E ps cs" and "R b = Some (Building, g)" and "ncopies cs b = 0" and "T b \<subseteq> E b"
  shows "runs_ok (R(b := Some (Ready, g))) T E ps cs" (is "runs_ok ?R T E ps cs")
proof -
  have "copy_ok ?R T E cs c" if c: "copy_ok R T E cs c" "c \<in> set cs" for c
  proof -
    have "target_of c \<noteq> b" using ncopies_mem [OF c(2)] assms(3) by auto
    moreover have "R (source_of c) = Some (st, ct_source_generation k) \<Longrightarrow> st = Ready" if "cr_ticket c = Some k" for k st
      using that c(1) by (auto simp: copy_ok_def)
    ultimately show ?thesis using c(1) assms(2) unfolding copy_ok_def by (auto simp: fun_upd_def)
  qed
  moreover have "backfill_ok ?R T E cs p" if "backfill_ok R T E cs p" for p
    using that assms(2) by (auto simp: backfill_ok_def)
  moreover have "ready_complete ?R T E cs" using assms by (auto simp: runs_ok_def ready_complete_def)
  ultimately show ?thesis using assms(1) by (auto simp: runs_ok_def)
qed

lemma ready_complete_fewer:
  "ready_complete R T E cs \<Longrightarrow> (\<And>b. ncopies cs' b \<le> ncopies cs b) \<Longrightarrow> ready_complete R T E cs'"
  unfolding ready_complete_def by (metis le_zero_eq)

text \<open>
  A copy that ends leaves a target whose generation is above that of every backfill begun before and of every other ticket.
\<close>

definition raised :: "records \<Rightarrow> branch_scope \<Rightarrow> records \<Rightarrow> bool" where
  "raised R b R' \<longleftrightarrow> (\<forall>a. a \<noteq> b \<longrightarrow> R' a = R a) \<and>
     (case R b of None \<Rightarrow> R' b = None | Some (_, g) \<Rightarrow> \<exists>g'. R' b = Some (NotBuilt, g') \<and> g < g')"

lemma raised_other: "raised R b R' \<Longrightarrow> a \<noteq> b \<Longrightarrow> R' a = R a"
  unfolding raised_def by blast

lemma raised_advance: "raised R b R' \<Longrightarrow> advance R R'"
  unfolding advance_def
proof
  fix a
  assume r: "raised R b R'"
  show "R' a = R a \<or> (\<exists>st' g'. R' a = Some (st', g') \<and> st' \<noteq> Ready \<and> (\<forall>st g. R a = Some (st, g) \<longrightarrow> g < g'))"
    using r raised_other [OF r, of a] by (cases "a = b") (auto simp: raised_def split: option.splits)
qed

lemma backfill_ok_raised:
  assumes "backfill_ok R T E cs p" and "raised R b R'" and "\<And>a. a \<noteq> b \<Longrightarrow> ncopies cs' a = ncopies cs a \<and> T' a = T a"
    and "\<And>a. E a \<subseteq> E' a"
  shows "backfill_ok R' T' E' cs' p"
proof (cases "bf_scope p = b")
  case True
  from assms(1) obtain st g where "R b = Some (st, g)" "bf_generation p \<le> g" using True by (auto simp: backfill_ok_def)
  moreover from this assms(2) obtain g' where "R' b = Some (NotBuilt, g')" "g < g'" by (auto simp: raised_def)
  ultimately show ?thesis using True by (simp add: backfill_ok_def)
next
  case False
  have le: "A \<subseteq> E a \<union> B \<Longrightarrow> A \<subseteq> E' a \<union> B" for A B a using assms(4) [of a] by blast
  from False assms(1,2) le show ?thesis using assms(3) [OF False] unfolding backfill_ok_def raised_def by metis
qed

lemma copy_ok_raised:
  assumes "copy_ok R T E cs c" and "raised R b R'" and "\<And>a. a \<noteq> b \<Longrightarrow> ncopies cs' a = ncopies cs a"
  shows "copy_ok R' T E cs' c"
proof (cases "cr_ticket c")
  case (Some k)
  have c: "copy_ok R' T E cs c" using copy_ok_advance [OF assms(1) raised_advance [OF assms(2)]] .
  show ?thesis
  proof (cases "target_of c = b")
    case True
    with assms(1) Some obtain st g where "R b = Some (st, g)" "ct_target_generation k \<le> g" by (auto simp: copy_ok_def)
    moreover from this assms(2) obtain g' where "R' b = Some (NotBuilt, g')" "g < g'" by (auto simp: raised_def)
    ultimately show ?thesis using True Some c by (auto simp: copy_ok_def)
  next
    case False
    with c assms(3) [OF False] show ?thesis unfolding copy_ok_def by simp
  qed
qed (simp add: copy_ok_def)

lemma runs_ok_raised:
  assumes "runs_ok R T E ps cs" and "raised R b R'" and "\<And>a. a \<noteq> b \<Longrightarrow> ncopies cs' a = ncopies cs a"
    and "\<And>c. c \<in> set cs' \<Longrightarrow> c \<in> set cs \<or> copy_ok R' T E cs' c"
  shows "runs_ok R' T E ps cs'"
proof -
  have "ready_complete R' T E cs'"
    unfolding ready_complete_def
  proof (intro allI impI)
    fix a g
    assume a: "R' a = Some (Ready, g)"
    have "a \<noteq> b" using a assms(2) by (auto simp: raised_def split: option.splits)
    then have "R a = Some (Ready, g)" "ncopies cs' a = ncopies cs a" using a raised_other [OF assms(2)] assms(3) by simp_all
    then show "T a \<subseteq> E a \<and> ncopies cs' a = 0" using ready_completeD [of R T E cs a] assms(1) by (simp add: runs_ok_def)
  qed
  moreover have "backfill_ok R' T E cs' p" if "p \<in> set ps" for p
    by (rule backfill_ok_raised [OF _ assms(2)]) (use that assms(1,3) in \<open>auto simp: runs_ok_def\<close>)
  moreover have "copy_ok R' T E cs' c" if "c \<in> set cs'" for c
    using assms(4) [OF that] copy_ok_raised [OF _ assms(2,3)] assms(1) by (auto simp: runs_ok_def)
  ultimately show ?thesis by (simp add: runs_ok_def)
qed

lemma runs_ok_begin_copy:
  assumes "runs_ok R T E ps cs" and "raised R (target_of c) R'" and "cr_copied c = {}"
    and "\<And>k. cr_ticket c = Some k \<Longrightarrow> R (source_of c) = Some (Ready, ct_source_generation k) \<and>
      (\<exists>g. R (target_of c) = Some (Ready, g)) \<and> R' (target_of c) = Some (NotBuilt, ct_target_generation k)"
  shows "runs_ok R' T E ps (c # cs)"
proof (rule runs_ok_raised [OF assms(1,2)])
  fix d
  assume "d \<in> set (c # cs)"
  moreover have "copy_ok R' T E (c # cs) c"
  proof (cases "cr_ticket c")
    case (Some k)
    with assms(4) obtain g where k: "R (source_of c) = Some (Ready, ct_source_generation k)" "R (target_of c) = Some (Ready, g)"
      "R' (target_of c) = Some (NotBuilt, ct_target_generation k)" by blast
    have t: "T (target_of c) \<subseteq> E (target_of c)" "ncopies cs (target_of c) = 0" "g < ct_target_generation k"
      using ready_completeD [of R T E cs "target_of c" g] assms(1,2) k(2,3) by (simp_all add: runs_ok_def raised_def)
    have "\<exists>st g. R' (source_of c) = Some (st, g) \<and> ct_source_generation k \<le> g \<and> (g = ct_source_generation k \<longrightarrow> st = Ready)"
    proof (cases "source_of c = target_of c")
      case True
      with k(1,2) have "g = ct_source_generation k" by simp
      with True k(3) t(3) show ?thesis by auto
    qed (use raised_other [OF assms(2)] k(1) in auto)
    with Some k(3) t(1,2) assms(3) show ?thesis by (simp add: copy_ok_def)
  qed (simp add: copy_ok_def)
  ultimately show "d \<in> set cs \<or> copy_ok R' T E (c # cs) d" by auto
qed auto

lemma runs_ok_end_copy:
  assumes "runs_ok R T E ps (as @ c # bs)" and "raised R (target_of c) R'"
  shows "runs_ok R' T E ps (as @ bs)"
  by (rule runs_ok_raised [OF assms]) auto

lemma runs_ok_restamp:
  assumes "runs_ok R T E ps (as @ c # bs)" and "cr_ticket c = Some k" and "cr_entries c"
    and "R (source_of c) = Some (Ready, ct_source_generation k)" and "R (target_of c) = Some (NotBuilt, ct_target_generation k)"
  shows "runs_ok (R(target_of c := Some (Ready, ct_target_generation k))) T E ps (as @ bs)" (is "runs_ok ?R T E ps ?cs")
proof -
  have c: "copy_ok R T E (as @ c # bs) c" using assms(1) by (simp add: runs_ok_def)
  then have one: "ncopies ?cs (target_of c) = 0" and full: "T (target_of c) \<subseteq> E (target_of c)"
    using assms(2-5) by (simp_all add: copy_ok_def)
  have other: "ncopies ?cs b = ncopies (as @ c # bs) b" if "b \<noteq> target_of c" for b using that by auto
  have "ready_complete ?R T E ?cs"
    using assms(1) one full other unfolding runs_ok_def ready_complete_def by (metis fun_upd_apply)
  moreover have "backfill_ok ?R T E ?cs p" if "p \<in> set ps" for p
  proof -
    have "backfill_ok R T E (as @ c # bs) p" using that assms(1) by (simp add: runs_ok_def)
    then show ?thesis using assms(5) other [of "bf_scope p"] by (cases "bf_scope p = target_of c") (auto simp: backfill_ok_def)
  qed
  moreover have "copy_ok ?R T E ?cs d" if "d \<in> set ?cs" for d
  proof -
    have d: "copy_ok R T E (as @ c # bs) d" "target_of d \<noteq> target_of c"
      using that assms(1) ncopies_mem [OF that] one by (auto simp: runs_ok_def)
    have "R (source_of d) = Some (st, ct_source_generation k') \<Longrightarrow> st = Ready" if "cr_ticket d = Some k'" for k' st
      using that d(1) by (auto simp: copy_ok_def)
    then show ?thesis using d other [OF d(2)] assms(5) unfolding copy_ok_def by (auto simp: fun_upd_def)
  qed
  ultimately show ?thesis by (simp add: runs_ok_def)
qed

lemma ncopies_update [simp]: "ncopies (as @ c\<lparr>cr_copied := X\<rparr> # bs) = ncopies (as @ c # bs)" "ncopies (as @ c\<lparr>cr_entries := x\<rparr> # bs) = ncopies (as @ c # bs)"
  by (simp_all add: fun_eq_iff)

lemma runs_ok_copy_tombstone:
  assumes "runs_ok R T E ps (as @ c # bs)" and "\<not> cr_entries c" and "x \<in> T (source_of c)"
  shows "runs_ok R (T(target_of c := insert x (T (target_of c)))) E ps (as @ c\<lparr>cr_copied := insert x (cr_copied c)\<rparr> # bs)"
    (is "runs_ok R ?T E ps ?cs")
proof -
  let ?old = "as @ c # bs"
  have pos: "0 < ncopies ?old (target_of c)" by simp
  have same: "ncopies ?cs = ncopies ?old" by simp
  have other: "?T b = T b" if "b \<noteq> target_of c" for b using that by simp
  have ready: "ready_complete R T E ?old" using assms(1) by (simp add: runs_ok_def)
  have "ready_complete R ?T E ?cs"
    unfolding ready_complete_def same
  proof (intro allI impI)
    fix b g
    assume "R b = Some (Ready, g)"
    from ready_completeD [OF ready this] pos other show "?T b \<subseteq> E b \<and> ncopies ?old b = 0" by (metis less_irrefl)
  qed
  moreover have "backfill_ok R ?T E ?cs p" if "p \<in> set ps" for p
    using that assms(1) pos other [of "bf_scope p"] unfolding runs_ok_def backfill_ok_def same by (metis less_irrefl)
  moreover have "copy_ok R ?T E ?cs d" if "d \<in> set as \<union> set bs" for d
  proof -
    have d: "copy_ok R T E ?old d" using that assms(1) by (auto simp: runs_ok_def)
    show ?thesis
    proof (cases "target_of d = target_of c")
      case True
      with that have "1 < ncopies ?old (target_of d)" using ncopies_mem [of d as] ncopies_mem [of d bs] by auto
      with d show ?thesis unfolding copy_ok_def same by (metis less_irrefl)
    next
      case False
      with d other [OF False] show ?thesis unfolding copy_ok_def same by simp
    qed
  qed
  moreover have "copy_ok R ?T E ?cs (c\<lparr>cr_copied := insert x (cr_copied c)\<rparr>)"
  proof -
    have c: "copy_ok R T E ?old c" using assms(1) by (simp add: runs_ok_def)
    have "x \<in> E (source_of c)" if "R (source_of c) = Some (Ready, g)" for g using ready_completeD [OF ready that] assms(3) by blast
    with c assms(2) show ?thesis unfolding copy_ok_def same by (auto; blast)
  qed
  ultimately show ?thesis by (auto simp: runs_ok_def)
qed

lemma runs_ok_copy_entries:
  assumes "runs_ok R T E ps (as @ c # bs)" and "cr_copied c \<inter> E (source_of c) \<subseteq> N"
  shows "runs_ok R T (E(target_of c := E (target_of c) \<union> N)) ps (as @ c\<lparr>cr_entries := True\<rparr> # bs)" (is "runs_ok R T ?E ps ?cs")
proof -
  have same: "ncopies ?cs = ncopies (as @ c # bs)" by simp
  have up: "E b \<subseteq> ?E b" for b by auto
  have old: "runs_ok R T ?E ps (as @ c # bs)" by (rule runs_ok_entries [OF assms(1) up])
  moreover have "copy_ok R T ?E ?cs (c\<lparr>cr_entries := True\<rparr>)"
  proof -
    have c: "copy_ok R T E (as @ c # bs) c" "copy_ok R T ?E (as @ c # bs) c" using assms(1) old by (simp_all add: runs_ok_def)
    have "T (target_of c) \<subseteq> ?E (target_of c)"
      if "T (target_of c) \<subseteq> E (target_of c) \<union> (if cr_entries c then {} else cr_copied c)" "cr_copied c \<subseteq> E (source_of c)"
    proof -
      have "T (target_of c) \<subseteq> E (target_of c) \<union> cr_copied c" using that(1) by (auto split: if_splits)
      moreover have "cr_copied c \<subseteq> N" using that(2) assms(2) by blast
      ultimately show ?thesis by auto
    qed
    with c show ?thesis unfolding copy_ok_def same by (auto; blast)
  qed
  ultimately show ?thesis unfolding runs_ok_def ready_complete_def backfill_ok_def copy_ok_def same by auto
qed

lemma runs_ok_forget:
  assumes "runs_ok R T E ps cs" and "\<forall>p \<in> set ps. bf_scope p \<noteq> b"
    and "\<forall>c \<in> set cs. cr_ticket c \<noteq> None \<longrightarrow> target_of c \<noteq> b \<and> source_of c \<noteq> b"
  shows "runs_ok (R(b := None)) T E ps cs"
proof -
  have "copy_ok (R(b := None)) T E cs c" if "c \<in> set cs" for c
  proof (cases "cr_ticket c")
    case (Some k)
    then have "(R(b := None)) (target_of c) = R (target_of c)" "(R(b := None)) (source_of c) = R (source_of c)" using that assms(3) by auto
    with that assms(1) show ?thesis unfolding runs_ok_def copy_ok_def by simp
  qed (simp add: copy_ok_def)
  moreover have "backfill_ok (R(b := None)) T E cs p" if "p \<in> set ps" for p
    using that assms(1,2) unfolding runs_ok_def backfill_ok_def by (metis fun_upd_other)
  moreover have "ready_complete (R(b := None)) T E cs"
    using assms(1) unfolding runs_ok_def ready_complete_def by (metis fun_upd_apply option.distinct(1))
  ultimately show ?thesis by (simp add: runs_ok_def)
qed

section \<open>Every step keeps the invariant\<close>

lemma inv_db:
  assumes "index_inv cd w" and "runs_ok (records cd s) (w_tombs w) (w_entries w) (w_backfills w) (w_copies w)"
    and "distinct (map fst (ix_status s))" and "ix_copying s = ix_copying (w_db w)"
  shows "index_inv cd (w\<lparr>w_db := s\<rparr>)"
  using assms by (simp add: index_inv_def)

lemma inv_kept:
  assumes "index_inv cd w" and "kept cd (w_db w) s"
  shows "index_inv cd (w\<lparr>w_db := s\<rparr>)"
  using assms by (intro inv_db) (simp_all add: kept_def index_inv_def)

lemma inv_advance:
  assumes "index_inv cd w" and "advance (records cd (w_db w)) (records cd s)"
    and "distinct (map fst (ix_status (w_db w))) \<longrightarrow> distinct (map fst (ix_status s))" and "ix_copying s = ix_copying (w_db w)"
  shows "index_inv cd (w\<lparr>w_db := s\<rparr>)"
  using assms by (intro inv_db) (auto simp: index_inv_def intro: runs_ok_advance)

lemma inv_backfills:
  assumes "index_inv cd w" and "\<And>p. p \<in> set ps \<Longrightarrow> p \<in> set (w_backfills w) \<or>
      scope_ok (bf_scope p) \<and> backfill_ok (records cd (w_db w)) (w_tombs w) (w_entries w) (w_copies w) p"
  shows "index_inv cd (w\<lparr>w_backfills := ps\<rparr>)"
  using assms runs_ok_backfills [of "records cd (w_db w)" "w_tombs w" "w_entries w" "w_backfills w" "w_copies w" ps]
  unfolding index_inv_def by (simp; blast)

lemma room_step: "room cd w \<Longrightarrow> records cd (w_db w) b = Some (st, g) \<Longrightarrow> g < g + 1"
  unfolding room_def by (metis u64_less_Suc)

lemma stamps_advance:
  assumes "stamps cd b st g s s'" and "st \<noteq> Ready" and "\<And>st0 g0. records cd s b = Some (st0, g0) \<Longrightarrow> g0 < g"
  shows "advance (records cd s) (records cd s')"
  using assms by (auto simp: stamps_def advance_def)

lemma inv_begin_build:
  assumes "codec_ok cd" and "index_inv cd w" and "room cd w" and "scope_ok b" and "begin_build cd b resume (w_db w) = (res, s)"
  shows "index_inv cd (w\<lparr>w_db := s\<rparr>) \<and>
    (\<forall>g cont. res = Inr (g, cont) \<longrightarrow> records cd s b = Some (Building, g) \<and>
       (cont \<longrightarrow> resume = Some g \<and> records cd s = records cd (w_db w)))"
proof -
  note r = begin_build_result [OF assms(1,4,5)]
  consider (kept) "kept cd (w_db w) s" "\<And>g. res \<noteq> Inr (g, False)" | (new) g where "res = Inr (g, False)"
    by (cases res) (use r in \<open>auto split: bool.splits\<close>)
  then show ?thesis
  proof cases
    case kept
    then have "records cd s = records cd (w_db w)" by (simp add: kept_def)
    with inv_kept [OF assms(2) kept(1)] r kept(2) show ?thesis by (auto split: sum.splits bool.splits)
  next
    case new
    with r have g: "g = (case records cd (w_db w) b of None \<Rightarrow> 0 | Some (_, n) \<Rightarrow> n) + 1" and st: "stamps cd b Building g (w_db w) s"
      by auto
    have "advance (records cd (w_db w)) (records cd s)"
      by (rule stamps_advance [OF st]) (use g room_step [OF assms(3)] in auto)
    with inv_advance [OF assms(2)] st new show ?thesis by (simp add: stamps_def)
  qed
qed

lemma begin_backfill_inv:
  assumes "codec_ok cd" and "index_inv cd w" and "room cd w" and "scope_ok b" and "begin_build cd b None (w_db w) = (res, s)"
  shows "index_inv cd (w\<lparr>w_db := s,
      w_backfills := (case res of
         Inl _ \<Rightarrow> w_backfills w
       | Inr (g, _) \<Rightarrow> \<lparr>bf_scope = b, bf_generation = g, bf_view = None\<rparr> # w_backfills w)\<rparr>)"
proof -
  note r = inv_begin_build [OF assms]
  have "index_inv cd (w\<lparr>w_db := s\<rparr>\<lparr>w_backfills := (case res of
         Inl _ \<Rightarrow> w_backfills w
       | Inr (g, _) \<Rightarrow> \<lparr>bf_scope = b, bf_generation = g, bf_view = None\<rparr> # w_backfills w)\<rparr>)"
    by (rule inv_backfills) (use r assms(4) in \<open>auto simp: backfill_ok_def split: sum.splits\<close>)
  then show ?thesis by simp
qed

lemma resume_backfill_inv:
  assumes "codec_ok cd" and "index_inv cd w" and "room cd w" and "w_backfills w = ps @ p # qs" and "bf_view p = Some V"
    and "V \<inter> w_tombs w (bf_scope p) \<subseteq> V'"
    and "begin_build cd (bf_scope p) (Some (bf_generation p)) (w_db w) = (Inr (g, continued), s)"
  shows "index_inv cd (w\<lparr>w_db := s,
      w_backfills := ps @ p\<lparr>bf_generation := g, bf_view := (if continued then Some V' else None)\<rparr> # qs\<rparr>)"
proof -
  have ok: "scope_ok (bf_scope p)" "backfill_ok (records cd (w_db w)) (w_tombs w) (w_entries w) (w_copies w) p"
    using assms(2,4) by (auto simp: index_inv_def runs_ok_def)
  note r = inv_begin_build [OF assms(1-3) ok(1) assms(7)]
  have "backfill_ok (records cd s) (w_tombs w) (w_entries w) (w_copies w)
      (p\<lparr>bf_generation := g, bf_view := (if continued then Some V' else None)\<rparr>)"
  proof (cases continued)
    case True
    then have "bf_generation p = g" "records cd s = records cd (w_db w)" using r by auto
    with ok(2) r assms(5,6) show ?thesis unfolding backfill_ok_def by (auto; blast)
  qed (use r in \<open>auto simp: backfill_ok_def\<close>)
  then have "index_inv cd (w\<lparr>w_db := s\<rparr>\<lparr>w_backfills := ps @ p\<lparr>bf_generation := g, bf_view := (if continued then Some V' else None)\<rparr> # qs\<rparr>)"
    using r ok(1) assms(4) by (intro inv_backfills) auto
  then show ?thesis by simp
qed

lemma open_scan_inv:
  assumes "index_inv cd w" and "w_backfills w = ps @ p # qs" and "bf_view p = None"
  shows "index_inv cd (w\<lparr>w_backfills := ps @ p\<lparr>bf_view := Some (w_tombs w (bf_scope p))\<rparr> # qs\<rparr>)"
proof -
  have "scope_ok (bf_scope p)" "backfill_ok (records cd (w_db w)) (w_tombs w) (w_entries w) (w_copies w) p"
    using assms by (auto simp: index_inv_def runs_ok_def)
  then show ?thesis using assms(1,2) by (intro inv_backfills) (auto simp: backfill_ok_def)
qed

lemma write_entry_inv:
  assumes "index_inv cd w" and "w_backfills w = ps @ p # qs" and "bf_view p = Some V"
  shows "index_inv cd (w\<lparr>w_entries := (w_entries w)(bf_scope p := insert x (w_entries w (bf_scope p))),
      w_backfills := ps @ p\<lparr>bf_view := Some (V - {x})\<rparr> # qs\<rparr>)"
proof -
  let ?E = "(w_entries w)(bf_scope p := insert x (w_entries w (bf_scope p)))"
  have p: "scope_ok (bf_scope p)" "backfill_ok (records cd (w_db w)) (w_tombs w) (w_entries w) (w_copies w) p"
    using assms by (auto simp: index_inv_def runs_ok_def)
  have "runs_ok (records cd (w_db w)) (w_tombs w) ?E (w_backfills w) (w_copies w)"
    by (rule runs_ok_entries [of _ _ "w_entries w"]) (use assms(1) in \<open>auto simp: index_inv_def\<close>)
  then have "index_inv cd (w\<lparr>w_entries := ?E\<rparr>)" using assms(1) by (simp add: index_inv_def)
  moreover have "backfill_ok (records cd (w_db w)) (w_tombs w) ?E (w_copies w) (p\<lparr>bf_view := Some (V - {x})\<rparr>)"
    using p(2) assms(3) unfolding backfill_ok_def by (auto; blast)
  ultimately have "index_inv cd (w\<lparr>w_entries := ?E\<rparr>\<lparr>w_backfills := ps @ p\<lparr>bf_view := Some (V - {x})\<rparr> # qs\<rparr>)"
    using p(1) assms(2) by (intro inv_backfills) auto
  then show ?thesis by simp
qed

lemma abandon_inv: "index_inv cd w \<Longrightarrow> w_backfills w = ps @ p # qs \<Longrightarrow> index_inv cd (w\<lparr>w_backfills := ps @ qs\<rparr>)"
  by (rule inv_backfills) auto

lemma finish_backfill_inv:
  assumes "codec_ok cd" and "index_inv cd w" and "w_backfills w = ps @ p # qs" and "bf_view p = Some {}"
    and "finish_build cd (bf_scope p) (bf_generation p) (w_db w) = (res, s)"
  shows "index_inv cd (w\<lparr>w_db := s, w_backfills := ps @ qs\<rparr>)"
proof -
  let ?R = "records cd (w_db w)" and ?b = "bf_scope p"
  have p: "scope_ok ?b" "backfill_ok ?R (w_tombs w) (w_entries w) (w_copies w) p"
    using assms(2,3) by (auto simp: index_inv_def runs_ok_def)
  note r = finish_build_result [OF assms(1) p(1) assms(5)]
  have "index_inv cd (w\<lparr>w_db := s\<rparr>)"
  proof (cases "res = Inr True")
    case True
    then have r: "\<not> in_progress ?b (w_db w)" "?R ?b = Some (Building, bf_generation p)" "stamps cd ?b Ready (bf_generation p) (w_db w) s"
      using r by simp_all
    have "ncopies (w_copies w) ?b = 0"
      using r(1) assms(2) unfolding in_progress_def index_inv_def by (metis option.distinct(1))
    moreover have "w_tombs w ?b \<subseteq> w_entries w ?b" using p(2) r(2) assms(4) calculation by (simp add: backfill_ok_def)
    ultimately show ?thesis
      using runs_ok_finish [of ?R _ _ _ _ ?b] r(2,3) assms(2) by (intro inv_db) (simp_all add: index_inv_def stamps_def)
  qed (use r inv_kept [OF assms(2)] in simp)
  then have "index_inv cd (w\<lparr>w_db := s\<rparr>\<lparr>w_backfills := ps @ qs\<rparr>)" by (rule abandon_inv) (simp add: assms(3))
  then show ?thesis by simp
qed

lemma invalidate_inv:
  assumes "codec_ok cd" and "index_inv cd w" and "room cd w" and "scope_ok b" and "invalidate cd b (w_db w) = (res, s)"
  shows "index_inv cd (w\<lparr>w_db := s\<rparr>)"
proof -
  note r = invalidate_result [OF assms(1,4) assms(5) [unfolded invalidate_def]]
  consider "kept cd (w_db w) s" | st n where "records cd (w_db w) b = Some (st, n)" "stamps cd b NotBuilt (n + 1) (w_db w) s"
    using r by (auto split: sum.splits option.splits)
  then show ?thesis
  proof cases
    case 2
    have "advance (records cd (w_db w)) (records cd s)"
      by (rule stamps_advance [OF 2(2)]) (use 2(1) room_step [OF assms(3) 2(1)] in auto)
    with 2(2) inv_advance [OF assms(2)] show ?thesis by (simp add: stamps_def)
  qed (rule inv_kept [OF assms(2)])
qed

lemma mark_all_inv:
  assumes "codec_ok cd" and "index_inv cd w" and "room cd w" and "mark_all_not_built cd (w_db w) = (res, s)"
  shows "index_inv cd (w\<lparr>w_db := s\<rparr>)"
proof -
  have d: "distinct (map fst (ix_status (w_db w)))" using assms(2) by (simp add: index_inv_def)
  note r = mark_all_result [OF assms(1) d assms(4)]
  show ?thesis
  proof (cases res)
    case (Inr n)
    then have R: "records cd s = (\<lambda>b. map_option (\<lambda>(st, g). (NotBuilt, g + 1)) (records cd (w_db w) b))" using r by simp
    have "advance (records cd (w_db w)) (records cd s)"
      unfolding advance_def
    proof
      fix b
      show "records cd s b = records cd (w_db w) b \<or>
        (\<exists>st' g'. records cd s b = Some (st', g') \<and> st' \<noteq> Ready \<and> (\<forall>st g. records cd (w_db w) b = Some (st, g) \<longrightarrow> g < g'))"
        using R room_step [OF assms(3), of b] by (cases "records cd (w_db w) b") auto
    qed
    with inv_advance [OF assms(2)] r show ?thesis by simp
  qed (use r inv_kept [OF assms(2)] in simp)
qed

lemma forget_inv:
  assumes "index_inv cd w" and "scope_ok b" and "src_bind (stage_forget_branch [] b) write_deletes (w_db w) = (res, s)"
    and "\<forall>p \<in> set (w_backfills w). bf_scope p \<noteq> b"
    and "\<forall>c \<in> set (w_copies w). cr_ticket c \<noteq> None \<longrightarrow> target_of c \<noteq> b \<and> source_of c \<noteq> b"
  shows "index_inv cd (w\<lparr>w_db := s\<rparr>)"
proof -
  note r = forget_result [OF assms(2,3), of cd]
  show ?thesis
  proof (cases res)
    case (Inr u)
    with r runs_ok_forget [OF _ assms(4,5)] assms(1) show ?thesis by (intro inv_db) (simp_all add: index_inv_def)
  qed (use r inv_kept [OF assms(1)] in simp)
qed

lemma inv_count:
  "index_inv cd w \<Longrightarrow> hm_get (ix_copying (w_db w)) b = (if ncopies (w_copies w) b = 0 then None else Some (ncopies (w_copies w) b))"
  unfolding index_inv_def by blast

lemma copying_add_get:
  "hm_get (ix_copying (copying_add b s)) a = (if a = b then Some (case hm_get (ix_copying s) b of None \<Rightarrow> 1 | Some n \<Rightarrow> n + 1)
     else hm_get (ix_copying s) a)"
  by (simp add: copying_add_def update_conv')

lemma copying_remove_get:
  "hm_get (ix_copying (copying_remove b s)) a = (if a = b then (case hm_get (ix_copying s) b of None \<Rightarrow> None | Some n \<Rightarrow> if n - 1 = 0 then None else Some (n - 1))
     else hm_get (ix_copying s) a)"
  by (simp add: copying_remove_def update_conv' delete_conv' split: option.split)

lemma begin_copy_inv:
  assumes "codec_ok cd" and "index_inv cd w" and "room cd w" and "scope_ok (t, r, src)" and "scope_ok (t, r, tgt)"
    and "before_branch_copy cd t r src tgt (w_db w) = (Inr ticket, s)"
  defines "c \<equiv> \<lparr>cr_tenant = t, cr_repo = r, cr_source = src, cr_target = tgt, cr_ticket = ticket, cr_copied = {}, cr_entries = False\<rparr>"
  shows "index_inv cd (w\<lparr>w_db := s, w_copies := c # w_copies w\<rparr>)"
proof -
  let ?R = "records cd (w_db w)"
  note b = before_copy_result [OF assms(1,4,5,6), simplified]
  have "raised ?R (target_of c) (records cd s)"
    unfolding raised_def using b room_step [OF assms(3), of "(t, r, tgt)"] by (auto simp: c_def split: option.splits)
  moreover have "?R (source_of c) = Some (Ready, ct_source_generation k) \<and> (\<exists>g. ?R (target_of c) = Some (Ready, g)) \<and>
      records cd s (target_of c) = Some (NotBuilt, ct_target_generation k)" if "cr_ticket c = Some k" for k
    using that b by (auto simp: c_def split: option.splits)
  ultimately have "runs_ok (records cd s) (w_tombs w) (w_entries w) (w_backfills w) (c # w_copies w)"
    using assms(2) by (intro runs_ok_begin_copy) (auto simp: index_inv_def c_def)
  moreover have "hm_get (ix_copying s) a = (if ncopies (c # w_copies w) a = 0 then None else Some (ncopies (c # w_copies w) a))" for a
    using inv_count [OF assms(2)] b by (simp add: copying_add_get c_def)
  ultimately show ?thesis using assms(2,4,5) b by (simp add: index_inv_def c_def)
qed

lemma copy_tombstone_inv:
  assumes "index_inv cd w" and "w_copies w = as @ c # bs" and "\<not> cr_entries c" and "x \<in> w_tombs w (source_of c)"
  shows "index_inv cd (w\<lparr>w_tombs := (w_tombs w)(target_of c := insert x (w_tombs w (target_of c))),
      w_copies := as @ c\<lparr>cr_copied := insert x (cr_copied c)\<rparr> # bs\<rparr>)"
  using assms runs_ok_copy_tombstone [of "records cd (w_db w)" "w_tombs w" "w_entries w" "w_backfills w" as c bs x]
  unfolding index_inv_def by simp

lemma copy_entries_inv:
  assumes "index_inv cd w" and "w_copies w = as @ c # bs" and "cr_copied c \<inter> w_entries w (source_of c) \<subseteq> N"
  shows "index_inv cd (w\<lparr>w_entries := (w_entries w)(target_of c := w_entries w (target_of c) \<union> N),
      w_copies := as @ c\<lparr>cr_entries := True\<rparr> # bs\<rparr>)"
  using assms runs_ok_copy_entries [of "records cd (w_db w)" "w_tombs w" "w_entries w" "w_backfills w" as c bs N]
  unfolding index_inv_def by simp

lemma end_copy_inv:
  assumes "codec_ok cd" and "index_inv cd w" and "room cd w" and "w_copies w = as @ c # bs"
    and "after_branch_copy cd (cr_tenant c) (cr_repo c) (cr_source c) (cr_target c)
        (if copied then cr_ticket c else None) (w_db w) = (Inr res, s)"
    and "copied \<longrightarrow> cr_entries c"
  shows "index_inv cd (w\<lparr>w_db := s, w_copies := as @ bs\<rparr>)"
proof -
  let ?R = "records cd (w_db w)" and ?b = "target_of c"
  have ok: "scope_ok (source_of c)" "scope_ok ?b" "runs_ok ?R (w_tombs w) (w_entries w) (w_backfills w) (as @ c # bs)"
    using assms(2,4) by (auto simp: index_inv_def)
  note r = after_copy_result [OF assms(1) ok(1,2) assms(5), simplified]
  have "runs_ok (records cd s) (w_tombs w) (w_entries w) (w_backfills w) (as @ bs)"
  proof (cases res)
    case True
    with r runs_ok_restamp [OF ok(3)] assms(6) show ?thesis by (auto split: if_splits)
  next
    case False
    then have "records cd s = ?R(?b := map_option (\<lambda>(_, n). (NotBuilt, n + 1)) (?R ?b))" using r by simp
    then have "raised ?R ?b (records cd s)" using room_step [OF assms(3), of ?b] by (auto simp: raised_def split: option.splits)
    from runs_ok_end_copy [OF ok(3) this] show ?thesis .
  qed
  moreover have "hm_get (ix_copying s) a = (if ncopies (as @ bs) a = 0 then None else Some (ncopies (as @ bs) a))" for a
    using inv_count [OF assms(2)] assms(4) r by (auto simp: copying_remove_get)
  ultimately show ?thesis using assms(2,4) r by (auto simp: index_inv_def)
qed

lemma index_step_inv:
  assumes "codec_ok cd" and "index_step cd w w'" and "index_inv cd w"
  shows "index_inv cd w'"
  using assms(2)
proof (cases rule: index_step.cases)
  case (delete_node b x)
  then show ?thesis using assms(3) runs_ok_delete unfolding index_inv_def by simp
next
  case (begin_backfill b res s)
  show ?thesis unfolding begin_backfill(1) by (rule begin_backfill_inv [OF assms(1,3) begin_backfill(2-)])
next
  case (resume_backfill ps p qs V V' res s)
  show ?thesis
  proof (cases res)
    case (Inl e)
    have "scope_ok (bf_scope p)" using assms(3) resume_backfill(3) by (simp add: index_inv_def)
    then have "index_inv cd (w\<lparr>w_db := s\<rparr>)"
      using begin_build_result [OF assms(1) _ resume_backfill(6)] inv_kept [OF assms(3), of s] Inl by simp
    with resume_backfill(1) Inl show ?thesis by (simp add: index_inv_def)
  next
    case (Inr r)
    obtain g continued where r: "r = (g, continued)" by (cases r)
    show ?thesis
      using resume_backfill_inv [OF assms(1,3) resume_backfill(2-5) resume_backfill(6) [unfolded Inr r]] resume_backfill(1) Inr r by simp
  qed
next
  case (open_scan ps p qs)
  show ?thesis unfolding open_scan(1) by (rule open_scan_inv [OF assms(3) open_scan(2-)])
next
  case (write_entry ps p qs V x)
  show ?thesis unfolding write_entry(1) by (rule write_entry_inv [OF assms(3) write_entry(2,3)])
next
  case (finish_backfill ps p qs res s)
  show ?thesis unfolding finish_backfill(1) by (rule finish_backfill_inv [OF assms(1,3) finish_backfill(2-)])
next
  case (abandon_backfill ps p qs)
  show ?thesis unfolding abandon_backfill(1) by (rule abandon_inv [OF assms(3) abandon_backfill(2)])
next
  case (invalidate_branch b res s)
  show ?thesis unfolding invalidate_branch(1) by (rule invalidate_inv [OF assms(1,3) invalidate_branch(2-)])
next
  case (mark_all res s)
  show ?thesis unfolding mark_all(1) by (rule mark_all_inv [OF assms(1,3) mark_all(2-)])
next
  case (forget_branch b res s)
  show ?thesis unfolding forget_branch(1) by (rule forget_inv [OF assms(3) forget_branch(2-)])
next
  case (begin_copy t r src tgt res s)
  show ?thesis
  proof (cases res)
    case (Inl e)
    with begin_copy before_copy_result [OF assms(1) begin_copy(3-5)] inv_kept [OF assms(3), of s] show ?thesis by simp
  next
    case (Inr ticket)
    with begin_copy begin_copy_inv [OF assms(1,3), of t r src tgt ticket s] show ?thesis by simp
  qed
next
  case (copy_tombstone as c bs x)
  show ?thesis unfolding copy_tombstone(1) by (rule copy_tombstone_inv [OF assms(3) copy_tombstone(2-)])
next
  case (copy_entries as c bs N)
  show ?thesis unfolding copy_entries(1) by (rule copy_entries_inv [OF assms(3) copy_entries(2,3)])
next
  case (end_copy as c bs copied res s)
  show ?thesis unfolding end_copy(1) by (rule end_copy_inv [OF assms(1,3) end_copy(2-)])
qed

lemma index_start_inv: "index_start w \<Longrightarrow> index_inv cd w"
  by (simp add: index_start_def index_inv_def runs_ok_def ready_complete_def records_def)

lemma index_reachable_inv:
  assumes "codec_ok cd" and "index_start w" and "(index_step cd)\<^sup>*\<^sup>* w w'"
  shows "index_inv cd w'"
  using assms(3) by (induction rule: rtranclp_induct) (use assms(1,2) index_start_inv index_step_inv in blast)+

lemma is_ready_record:
  assumes "scope_ok b" and "is_ready cd b s = (Inr True, s')"
  shows "\<exists>g. records cd s b = Some (Ready, g)"
proof (cases "state_read cd b s")
  case (Pair res s1)
  with assms(2) obtain st where "res = Inr (Some st)" "nds_status st = Ready"
    by (auto simp: is_ready_def src_bind_def src_ok_def src_return_def split: sum.splits option.splits)
  with read_records(2) [of cd b s _ s1] Pair assms(1) show ?thesis by auto
qed

text \<open>
  C8. A branch that is called ready has an entry for every tombstone. This holds after any interleaving of deletes, backfills
  (resumed and abandoned ones too), copies into and out of branches, invalidations and deletions of branches, whatever calls
  fail on the way, provided that a branch is forgotten only while no run that relies on its record is under way, that no
  generation reaches the largest number, and that the call that ends a copy does not itself fail.
\<close>

theorem ready_index_complete:
  assumes "codec_ok cd" and "index_start w" and "(index_step cd)\<^sup>*\<^sup>* w w'" and "scope_ok b"
    and "is_ready cd b (w_db w') = (Inr True, s)"
  shows "w_tombs w' b \<subseteq> w_entries w' b \<and> \<not> in_progress b (w_db w')"
proof -
  from is_ready_record [OF assms(4,5)] obtain g where "records cd (w_db w') b = Some (Ready, g)" ..
  moreover have inv: "index_inv cd w'" by (rule index_reachable_inv [OF assms(1-3)])
  moreover from this have "ready_complete (records cd (w_db w')) (w_tombs w') (w_entries w') (w_copies w')"
    by (simp add: index_inv_def runs_ok_def)
  ultimately show ?thesis using ready_completeD [of "records cd (w_db w')"] inv_count [OF inv, of b] by (simp add: in_progress_def)
qed

section \<open>Runs of the model\<close>

definition byte_codec :: state_codec where
  "byte_codec =
     \<lparr>sc_encode = (\<lambda>st. if nds_updated_at st = []
         then Inr ((case nds_status st of NotBuilt \<Rightarrow> 0 | Building \<Rightarrow> 1 | Ready \<Rightarrow> 2) # u64_to_be_bytes (nds_generation st))
         else Inl ''time''),
      sc_decode = (\<lambda>bs. case bs of [] \<Rightarrow> None
         | x # g \<Rightarrow> Some \<lparr>nds_status = (if x = 0 then NotBuilt else if x = 1 then Building else Ready),
                        nds_generation = u64_from_be_bytes g, nds_updated_at = []\<rparr>),
      sc_now = []\<rparr>"

lemma byte_codec_ok: "codec_ok byte_codec"
  by (auto simp: codec_ok_def byte_codec_def split: index_status.splits if_splits)

definition main_branch :: branch_scope where
  "main_branch = (''t'', ''r'', ''main'')"

definition db_with :: "(branch_scope \<times> u8 \<times> u64) list \<Rightarrow> string option list \<Rightarrow> index_db" where
  "db_with sts fs =
     \<lparr>ix_status = map (\<lambda>(b, st, g). (scope_key b, st # u64_to_be_bytes g)) sts, ix_copying = [], ix_faults = fs\<rparr>"

lemmas calls =
  begin_build_def finish_build_def is_ready_def state_read_def put_state_def write_batch_def fallible_def src_bind_def src_return_def
  src_ok_def in_progress_def byte_codec_def db_with_def stage_forget_branch_def write_deletes_def

lemma build_run:
  "begin_build byte_codec main_branch None (db_with [] []) = (Inr (1, False), db_with [(main_branch, 1, 1)] [])"
  "finish_build byte_codec main_branch 1 (db_with [(main_branch, 1, 1)] []) = (Inr True, db_with [(main_branch, 2, 1)] [])"
  "is_ready byte_codec main_branch (db_with [(main_branch, 2, 1)] []) = (Inr True, db_with [(main_branch, 2, 1)] [])"
  "src_bind (stage_forget_branch [] main_branch) write_deletes (db_with [(main_branch, 1, 1)] []) = (Inr (), db_with [] [])"
  by (simp_all add: calls)

definition upgraded_world :: index_world where
  "upgraded_world =
     \<lparr>w_db = db_with [] [], w_tombs = (\<lambda>_. {(''ws'', ''n'', hlc_new 1 0)}), w_entries = (\<lambda>_. {}), w_backfills = [], w_copies = []\<rparr>"

theorem ready_index_complete_witness:
  "\<exists>w'. (index_step byte_codec)\<^sup>*\<^sup>* upgraded_world w' \<and> fst (is_ready byte_codec main_branch (w_db w')) = Inr True \<and>
     w_tombs w' main_branch = {(''ws'', ''n'', hlc_new 1 0)} \<and> w_tombs w' main_branch \<subseteq> w_entries w' main_branch"
proof -
  let ?x = "(''ws'', ''n'', hlc_new 1 0)" and ?p = "\<lparr>bf_scope = main_branch, bf_generation = 1, bf_view = None\<rparr>"
  let ?w1 = "upgraded_world\<lparr>w_db := db_with [(main_branch, 1, 1)] [], w_backfills := [?p]\<rparr>"
  let ?w2 = "?w1\<lparr>w_backfills := [?p\<lparr>bf_view := Some {?x}\<rparr>]\<rparr>"
  let ?w3 = "?w2\<lparr>w_entries := (w_entries ?w2)(main_branch := {?x}), w_backfills := [?p\<lparr>bf_view := Some {}\<rparr>]\<rparr>"
  let ?w4 = "?w3\<lparr>w_db := db_with [(main_branch, 2, 1)] [], w_backfills := []\<rparr>"
  have ok: "scope_ok main_branch" by (simp add: scope_ok_def main_branch_def str_nul_free_def)
  have "room byte_codec upgraded_world" by (simp add: room_def upgraded_world_def records_def db_with_def)
  from index_step.begin_backfill [OF this ok, of "Inr (1, False)" "db_with [(main_branch, 1, 1)] []"]
  have 1: "index_step byte_codec upgraded_world ?w1" by (simp add: upgraded_world_def build_run(1))
  have 2: "index_step byte_codec ?w1 ?w2"
    using index_step.open_scan [of ?w1 "[]" ?p "[]" byte_codec] by (simp add: upgraded_world_def)
  have 3: "index_step byte_codec ?w2 ?w3"
    using index_step.write_entry [of ?w2 "[]" "?p\<lparr>bf_view := Some {?x}\<rparr>" "[]" "{?x}" ?x byte_codec] by (simp add: upgraded_world_def)
  have 4: "index_step byte_codec ?w3 ?w4"
    using index_step.finish_backfill [of ?w3 "[]" "?p\<lparr>bf_view := Some {}\<rparr>" "[]" byte_codec "Inr True" "db_with [(main_branch, 2, 1)] []"]
      build_run(2) by simp
  from 1 2 3 4 have run: "(index_step byte_codec)\<^sup>*\<^sup>* upgraded_world ?w4" by (meson converse_rtranclp_into_rtranclp rtranclp.rtrancl_refl)
  moreover have "index_start upgraded_world" by (simp add: index_start_def upgraded_world_def db_with_def)
  moreover have "is_ready byte_codec main_branch (w_db ?w4) = (Inr True, db_with [(main_branch, 2, 1)] [])" using build_run(3) by simp
  ultimately show ?thesis
    using ready_index_complete [OF byte_codec_ok, of upgraded_world ?w4 main_branch] ok by (intro exI [of _ ?w4]) (simp add: upgraded_world_def)
qed

text \<open>
  Forgetting a branch restarts its generations: a backfill begun before the branch was forgotten still finishes the build that
  was begun after, under the same number.
\<close>

lemma forgotten_generation_reused:
  "\<exists>s1 s2 s3 s4. begin_build byte_codec main_branch None (db_with [] []) = (Inr (1, False), s1) \<and>
     src_bind (stage_forget_branch [] main_branch) write_deletes s1 = (Inr (), s2) \<and>
     begin_build byte_codec main_branch None s2 = (Inr (1, False), s3) \<and>
     finish_build byte_codec main_branch 1 s3 = (Inr True, s4)"
  using build_run by blast

text \<open>
  When the last call of a copy fails to read the record, the branch is no longer marked as being copied into and its record
  keeps the generation of a backfill begun during the copy, which then stamps it ready.
\<close>

lemma failed_end_of_copy_unguarded:
  "\<exists>s1 s2. after_branch_copy byte_codec ''t'' ''r'' ''dev'' ''main'' None
       ((db_with [(main_branch, 1, 1)] [Some ''io''])\<lparr>ix_copying := [(main_branch, 1)]\<rparr>) = (Inl (StorageError ''io''), s1) \<and>
     finish_build byte_codec main_branch 1 s1 = (Inr True, s2)"
  by (simp add: after_branch_copy_def invalidate_locked_def copying_remove_def main_branch_def calls)

end
