(* ===== verification/History_Gc.thy ===== *)
theory History_Gc
  imports Node_Read
begin

text \<open>
  \<open>raisin-rocksdb/src/management/history_gc/\<close> (\<open>mod.rs\<close>, \<open>layout.rs\<close>, \<open>retention.rs\<close>, \<open>pins.rs\<close>, \<open>node_delete_translations.rs\<close>):
  which versions of a record a collection of old revisions removes. A policy and the pins of a repository give a plan per
  branch; the layout of a column family finds the revision in a key and with it the group of the versions of one record; the
  plan selects the survivors of a group. The JSON codec of a policy and the MessagePack codecs of branches, tags and
  revisions are arguments. Batching, statistics, blobs and compaction are not modelled.

  The main theorem: reads at the head, at a revision from the cutoff on and at a pin return after the collection what they
  returned before, where a deleted record and an absent one read alike.
\<close>

section \<open>Retention policies\<close>

record history_retention =
  keep_days :: "32 word option"
  keep_revisions :: "u64 option"

definition KEEP_ALL :: history_retention where
  "KEEP_ALL = \<lparr>keep_days = None, keep_revisions = None\<rparr>"

definition is_keep_all :: "history_retention \<Rightarrow> bool" where
  "is_keep_all p \<longleftrightarrow> keep_days p = None \<and> keep_revisions p = None"

abbreviation "REGISTRY \<equiv> ''registry''"
abbreviation "ALL_BRANCHES \<equiv> ''*''"

definition policy_key :: "string \<Rightarrow> string \<Rightarrow> string \<Rightarrow> bytes" where
  "policy_key tenant_id repo_id branch =
     build (chain [push tenant_id, push ''history_retention'', push repo_id, push branch])"

definition get_policy ::
  "rocks_db \<Rightarrow> (bytes \<Rightarrow> string + history_retention) \<Rightarrow> string \<Rightarrow> string \<Rightarrow> string \<Rightarrow> history_retention option result" where
  "get_policy db decode tenant_id repo_id branch =
     (case cf_handle db REGISTRY of
        Inl e \<Rightarrow> Inl e
      | Inr _ \<Rightarrow>
          (case rdb_get db REGISTRY (policy_key tenant_id repo_id branch) of
             Inl e \<Rightarrow> Inl e
           | Inr None \<Rightarrow> Inr None
           | Inr (Some bs) \<Rightarrow>
               (case decode bs of Inl e \<Rightarrow> Inl (''invalid history retention policy: '' @ e) | Inr p \<Rightarrow> Inr (Some p))))"

definition resolve_policy ::
  "rocks_db \<Rightarrow> (bytes \<Rightarrow> string + history_retention) \<Rightarrow> string \<Rightarrow> string \<Rightarrow> string \<Rightarrow> history_retention
     \<Rightarrow> history_retention result" where
  "resolve_policy db decode tenant_id repo_id branch default_policy =
     (case get_policy db decode tenant_id repo_id branch of
        Inl e \<Rightarrow> Inl e
      | Inr (Some p) \<Rightarrow> Inr p
      | Inr None \<Rightarrow>
          (case get_policy db decode tenant_id repo_id ALL_BRANCHES of
             Inl e \<Rightarrow> Inl e
           | Inr (Some p) \<Rightarrow> Inr p
           | Inr None \<Rightarrow> Inr default_policy))"

section \<open>Plans\<close>

record scope_plan =
  sp_cutoff :: hlc
  sp_pins :: "hlc list"

definition hlc_at_ms :: "u64 \<Rightarrow> hlc" where
  "hlc_at_ms ms = hlc_new ms u64_MAX"

text \<open>The revisions of the commit log, newest first, with the branch each was committed on.\<close>

fun nth_newest_loop ::
  "(string \<times> u64) list \<Rightarrow> (string \<times> hlc) list \<Rightarrow> (string \<times> u64) list \<Rightarrow> (string \<times> hlc) list \<Rightarrow> (string \<times> hlc) list" where
  "nth_newest_loop wanted [] counts found = found"
| "nth_newest_loop wanted ((branch, revision) # metas) counts found =
     (case hm_get wanted branch of
        None \<Rightarrow> nth_newest_loop wanted metas counts found
      | Some n \<Rightarrow>
          if hm_get found branch \<noteq> None then nth_newest_loop wanted metas counts found
          else let c = (case hm_get counts branch of None \<Rightarrow> 0 | Some x \<Rightarrow> x) + 1;
                   counts = hm_insert branch c counts
               in if n \<le> c
                  then let found = hm_insert branch revision found
                       in if length found = length wanted then found else nth_newest_loop wanted metas counts found
                  else nth_newest_loop wanted metas counts found)"

definition nth_newest_revisions :: "(string \<times> u64) list \<Rightarrow> (string \<times> hlc) list \<Rightarrow> (string \<times> hlc) list" where
  "nth_newest_revisions wanted metas = (if wanted = [] then [] else nth_newest_loop wanted metas [] [])"

definition branch_cutoff :: "u64 \<Rightarrow> hlc \<Rightarrow> (string \<times> hlc) list \<Rightarrow> string \<Rightarrow> history_retention \<Rightarrow> hlc option" where
  "branch_cutoff now safety nth_rev branch policy =
     (let by_time = map_option (\<lambda>d. hlc_at_ms (saturating_sub now (ucast d * 86400000))) (keep_days policy);
          by_count = (case keep_revisions policy of Some _ \<Rightarrow> Some (hm_get nth_rev branch) | None \<Rightarrow> None)
      in map_option (\<lambda>c. min c safety)
           (case (by_time, by_count) of
              (None, None) \<Rightarrow> None
            | (_, Some None) \<Rightarrow> None
            | (Some t, None) \<Rightarrow> Some t
            | (None, Some (Some c)) \<Rightarrow> Some c
            | (Some t, Some (Some c)) \<Rightarrow> Some (min t c)))"

definition wanted_counts :: "(string \<times> history_retention) list \<Rightarrow> (string \<times> u64) list" where
  "wanted_counts policies =
     foldl (\<lambda>m (b, p). case keep_revisions p of None \<Rightarrow> m | Some n \<Rightarrow> hm_insert b (max n 1) m) [] policies"

definition sorted_pins :: "hlc list \<Rightarrow> hlc list" where
  "sorted_pins pins = remdups_adj (rev (sort pins))"

fun plan_branches ::
  "u64 \<Rightarrow> hlc \<Rightarrow> (string \<times> hlc) list \<Rightarrow> hlc list \<Rightarrow> (string \<times> history_retention) list
     \<Rightarrow> (string \<times> scope_plan) list \<Rightarrow> hlc option \<Rightarrow> bool \<Rightarrow> (string \<times> scope_plan) list \<times> hlc option \<times> bool" where
  "plan_branches now safety nth_rev repo_pins [] plans repo_cutoff every = (plans, repo_cutoff, every)"
| "plan_branches now safety nth_rev repo_pins ((branch, policy) # rest) plans repo_cutoff every =
     (case branch_cutoff now safety nth_rev branch policy of
        Some c \<Rightarrow>
          plan_branches now safety nth_rev repo_pins rest
            (hm_insert branch \<lparr>sp_cutoff = c, sp_pins = filter (\<lambda>p. p < c) repo_pins\<rparr> plans)
            (Some (case repo_cutoff of None \<Rightarrow> c | Some rc \<Rightarrow> min rc c)) every
      | None \<Rightarrow> plan_branches now safety nth_rev repo_pins rest plans repo_cutoff False)"

definition plan_repo ::
  "u64 \<Rightarrow> u64 \<Rightarrow> (string \<times> hlc) list \<Rightarrow> hlc list \<Rightarrow> (string \<times> history_retention) list
     \<Rightarrow> (string \<times> scope_plan) list \<times> scope_plan option" where
  "plan_repo now min_age_ms metas pins policies =
     (let safety = hlc_at_ms (saturating_sub now min_age_ms);
          repo_pins = sorted_pins pins
      in case plan_branches now safety (nth_newest_revisions (wanted_counts policies) metas) repo_pins policies [] None True of
           (plans, repo_cutoff, every) \<Rightarrow>
             (plans, if every
                     then map_option (\<lambda>c. \<lparr>sp_cutoff = c, sp_pins = filter (\<lambda>p. p < c) repo_pins\<rparr>) repo_cutoff
                     else None))"

section \<open>Survivors\<close>

fun rposition :: "('a \<Rightarrow> bool) \<Rightarrow> 'a list \<Rightarrow> nat option" where
  "rposition P [] = None"
| "rposition P (x # xs) =
     (case rposition P xs of Some i \<Rightarrow> Some (Suc i) | None \<Rightarrow> if P x then Some 0 else None)"

definition keep_point :: "hlc list \<Rightarrow> hlc \<Rightarrow> bool list \<Rightarrow> bool list" where
  "keep_point revs point keep =
     (case position (\<lambda>r. r \<le> point) revs of Some i \<Rightarrow> keep[i := True] | None \<Rightarrow> keep)"

lemma rposition_None: "rposition P xs = None \<longleftrightarrow> (\<forall>x \<in> set xs. \<not> P x)"
  by (induction xs) (auto split: option.splits)

lemma rposition_Some: "rposition P xs = Some i \<Longrightarrow> i < length xs \<and> P (xs ! i) \<and> (\<forall>j. i < j \<and> j < length xs \<longrightarrow> \<not> P (xs ! j))"
proof (induction xs arbitrary: i)
  case (Cons x xs)
  have "\<not> P (xs ! j)" if "rposition P xs = None" "j < length xs" for j using that by (simp add: rposition_None)
  with Cons show ?case by (cases "rposition P xs") (auto simp: nth_Cons split: if_splits nat.splits)
qed simp

lemma count_list_update_less: "i < length keep \<Longrightarrow> keep ! i \<Longrightarrow> count_list (keep[i := False]) True < count_list keep True"
  by (induction keep arbitrary: i) (auto simp: nth_Cons split: nat.splits)

function drop_orphans :: "bool list \<Rightarrow> bool list \<Rightarrow> bool list" where
  "drop_orphans tomb keep =
     (case rposition (\<lambda>k. k) keep of
        None \<Rightarrow> keep
      | Some i \<Rightarrow> if tomb ! i then drop_orphans tomb (keep[i := False]) else keep)"
  by pat_completeness auto

termination
  by (relation "measure (\<lambda>(tomb, keep). count_list keep True)") (auto dest!: rposition_Some intro: count_list_update_less)

declare drop_orphans.simps [simp del]

definition select_survivors :: "hlc list \<Rightarrow> bool list \<Rightarrow> scope_plan \<Rightarrow> bool \<Rightarrow> bool list" where
  "select_survivors revs tomb plan drop_orphan_tombstones =
     (let keep = foldl (\<lambda>keep point. keep_point revs point keep) (map (\<lambda>r. sp_cutoff plan < r) revs)
                   (sp_cutoff plan # sp_pins plan)
      in if drop_orphan_tombstones then drop_orphans tomb keep else keep)"

definition keep_generation_starts :: "bool list \<Rightarrow> bool list \<Rightarrow> bool list" where
  "keep_generation_starts tomb keep =
     foldl (\<lambda>keep i. if tomb ! i \<and> keep ! i \<and> \<not> tomb ! (i - 1) then keep[i - 1 := True] else keep) keep [1..<length tomb]"

text \<open>The decision of \<open>close_chunk\<close> for one group, whose versions are sorted newest first.\<close>

definition group_survivors :: "bool \<Rightarrow> bool \<Rightarrow> scope_plan \<Rightarrow> (hlc \<times> bool) list \<Rightarrow> bool list" where
  "group_survivors drop_orphan_tombstones node_chunk plan versions =
     (if length versions < 2 \<and> \<not> (drop_orphan_tombstones \<and> snd (versions ! 0)) then map (\<lambda>_. True) versions
      else let revs = map fst versions; tomb = map snd versions;
               keep = select_survivors revs tomb plan drop_orphan_tombstones
           in if node_chunk then keep_generation_starts tomb keep else keep)"

section \<open>Reads of a group\<close>

text \<open>A read takes the first version, newest first, that is within its bound. The retained reads are those the plan protects.\<close>

definition retained :: "scope_plan \<Rightarrow> hlc option \<Rightarrow> bool" where
  "retained plan m \<longleftrightarrow> (case m of None \<Rightarrow> True | Some r \<Rightarrow> sp_cutoff plan \<le> r \<or> r \<in> set (sp_pins plan))"

definition kept_of :: "'a list \<Rightarrow> bool list \<Rightarrow> 'a list" where
  "kept_of xs keep = map fst (filter snd (zip xs keep))"

lemma position_least: "position P xs = Some i \<Longrightarrow> j < i \<Longrightarrow> \<not> P (xs ! j)"
  by (induction xs arbitrary: i j) (auto simp: nth_Cons split: if_splits nat.splits)

lemma position_None: "position P xs = None \<longleftrightarrow> (\<forall>x \<in> set xs. \<not> P x)"
  by (induction xs) auto

lemma position_eqI: "i < length xs \<Longrightarrow> P (xs ! i) \<Longrightarrow> (\<And>j. j < i \<Longrightarrow> \<not> P (xs ! j)) \<Longrightarrow> position P xs = Some i"
proof (induction xs arbitrary: i)
  case (Cons x xs)
  show ?case
  proof (cases i)
    case 0
    then show ?thesis using Cons.prems by simp
  next
    case (Suc k)
    then have "position P xs = Some k" using Cons.prems(1,2) Cons.prems(3) [of "Suc _"] by (intro Cons.IH) auto
    moreover have "\<not> P x" using Cons.prems(3) [of 0] Suc by simp
    ultimately show ?thesis using Suc by simp
  qed
qed simp

lemma find_position: "List.find P xs = map_option (\<lambda>i. xs ! i) (position P xs)"
  by (induction xs) (auto simp: option.map_comp o_def)

lemma find_kept_None:
  assumes "length keep = length xs" and "\<And>j. j < length xs \<Longrightarrow> keep ! j \<Longrightarrow> \<not> P (xs ! j)"
  shows "List.find P (kept_of xs keep) = None"
  using assms by (auto simp: find_None_iff kept_of_def set_zip)

lemma find_kept:
  assumes "length keep = length xs" and "position P xs = Some i" and "keep ! i"
  shows "List.find P (kept_of xs keep) = Some (xs ! i)"
  using assms
proof (induction xs arbitrary: keep i)
  case (Cons x xs)
  then obtain k ks where keep: "keep = k # ks" by (cases keep) auto
  show ?case
  proof (cases "P x")
    case True
    with Cons.prems keep show ?thesis by (simp add: kept_of_def)
  next
    case False
    with Cons.prems obtain j where "position P xs = Some j" "i = Suc j" by auto
    with Cons.IH [of ks j] Cons.prems keep False show ?thesis by (simp add: kept_of_def)
  qed
qed simp

lemma length_keep_point [simp]: "length (keep_point revs p keep) = length keep"
  by (simp add: keep_point_def split: option.split)

lemma update_True: "ks ! i \<Longrightarrow> i < length ks \<Longrightarrow> ks[k := True] ! i"
  by (cases "k = i") simp_all

lemma keep_point_mono: "keep ! i \<Longrightarrow> i < length keep \<Longrightarrow> keep_point revs p keep ! i"
  by (simp add: keep_point_def update_True split: option.split)

abbreviation keep_points :: "hlc list \<Rightarrow> bool list \<Rightarrow> hlc list \<Rightarrow> bool list" where
  "keep_points revs \<equiv> foldl (\<lambda>keep point. keep_point revs point keep)"

lemma length_keep_points [simp]: "length (keep_points revs keep ps) = length keep"
  by (induction ps arbitrary: keep) simp_all

lemma keep_points_mono: "keep ! i \<Longrightarrow> i < length keep \<Longrightarrow> keep_points revs keep ps ! i"
  by (induction ps arbitrary: keep) (simp_all add: keep_point_mono)

lemma keep_points_hit:
  assumes "p \<in> set ps" and "position (\<lambda>r. r \<le> p) revs = Some i" and "length keep = length revs"
  shows "keep_points revs keep ps ! i"
  using assms
proof (induction ps arbitrary: keep)
  case (Cons q ps)
  have i: "i < length revs" using position_Some [OF Cons.prems(2)] by simp
  show ?case
  proof (cases "p = q")
    case True
    with i Cons.prems(2,3) have "keep_point revs q keep ! i" by (simp add: keep_point_def)
    with i Cons.prems(3) show ?thesis by (simp add: keep_points_mono)
  next
    case False
    with Cons.prems show ?thesis by (simp add: Cons.IH)
  qed
qed simp

lemma drop_orphans_result:
  assumes "length keep = length tomb"
  shows "length (drop_orphans tomb keep) = length keep \<and>
    (\<forall>i < length keep. drop_orphans tomb keep ! i \<longrightarrow> keep ! i) \<and>
    (\<forall>i < length keep. keep ! i \<and> \<not> drop_orphans tomb keep ! i \<longrightarrow> tomb ! i \<and> (\<forall>j < length keep. drop_orphans tomb keep ! j \<longrightarrow> j < i))"
  using assms
proof (induction tomb keep rule: drop_orphans.induct)
  case (1 tomb keep)
  show ?case
  proof (cases "rposition (\<lambda>k. k) keep")
    case None
    then show ?thesis by (simp add: drop_orphans.simps [of tomb keep])
  next
    case (Some k)
    note k = rposition_Some [OF Some]
    show ?thesis
    proof (cases "tomb ! k")
      case True
      let ?keep = "keep[k := False]"
      have eq: "drop_orphans tomb keep = drop_orphans tomb ?keep" using Some True by (simp add: drop_orphans.simps [of tomb keep])
      note IH = 1(1) [OF Some True, simplified, OF 1(2)]
      have "j < k" if "j < length keep" "drop_orphans tomb ?keep ! j" for j
      proof -
        have "?keep ! j" using IH that 1(2) by auto
        then have "j \<noteq> k" "keep ! j" using that(1) k by (auto simp: nth_list_update split: if_splits)
        with k that(1) show ?thesis by (metis linorder_neqE_nat)
      qed
      then show ?thesis unfolding eq using IH k True 1(2) by (auto simp: nth_list_update split: if_splits)
    next
      case False
      then show ?thesis using Some by (simp add: drop_orphans.simps [of tomb keep])
    qed
  qed
qed

text \<open>Of the versions a retained read resolves to, only tombstones are dropped, and then with everything older.\<close>

definition selects :: "(hlc \<times> bool) list \<Rightarrow> scope_plan \<Rightarrow> bool \<Rightarrow> bool list \<Rightarrow> bool" where
  "selects versions plan drops keep \<longleftrightarrow> length keep = length versions \<and>
     (\<forall>m i. retained plan m \<and> position (within m) (map fst versions) = Some i \<and> \<not> keep ! i \<longrightarrow>
        drops \<and> snd (versions ! i) \<and> (\<forall>j < length keep. keep ! j \<longrightarrow> j < i))"

lemma within_Some: "within (Some r) = (\<lambda>x. x \<le> r)"
  by (simp add: within_def fun_eq_iff)

lemma retained_kept:
  assumes "retained plan m" and "position (within m) revs = Some i"
  shows "keep_points revs (map (\<lambda>r. sp_cutoff plan < r) revs) (sp_cutoff plan # sp_pins plan) ! i"
proof -
  have i: "i < length revs" "within m (revs ! i)" "\<And>j. j < i \<Longrightarrow> \<not> within m (revs ! j)"
    using position_Some [OF assms(2)] position_least [OF assms(2)] by auto
  consider (new) "sp_cutoff plan < revs ! i" | (pin) r where "m = Some r" "r \<in> set (sp_pins plan)" | (old) "revs ! i \<le> sp_cutoff plan"
    "case m of None \<Rightarrow> True | Some r \<Rightarrow> sp_cutoff plan \<le> r"
    using assms(1) by (cases "sp_cutoff plan < revs ! i"; cases m) (auto simp: retained_def not_less)
  then show ?thesis
  proof cases
    case new
    then show ?thesis using i(1) by (intro keep_points_mono) simp_all
  next
    case pin
    then have "position (\<lambda>x. x \<le> r) revs = Some i" using assms(2) by (simp add: within_Some)
    with pin(2) show ?thesis by (intro keep_points_hit [of r]) simp_all
  next
    case old
    have "position (\<lambda>x. x \<le> sp_cutoff plan) revs = Some i"
    proof (rule position_eqI)
      show "i < length revs" "revs ! i \<le> sp_cutoff plan" by (fact i(1), fact old(1))
      fix j
      assume "j < i"
      from i(3) [OF this] old(2) show "\<not> revs ! j \<le> sp_cutoff plan" by (auto simp: within_def split: option.splits)
    qed
    then show ?thesis by (intro keep_points_hit [of "sp_cutoff plan"]) simp_all
  qed
qed

lemma survivors_selects: "selects versions plan drops (select_survivors (map fst versions) (map snd versions) plan drops)"
proof -
  let ?revs = "map fst versions" and ?tomb = "map snd versions"
  let ?keep = "keep_points ?revs (map (\<lambda>r. sp_cutoff plan < r) ?revs) (sp_cutoff plan # sp_pins plan)"
  have len: "length ?keep = length versions" by (simp del: foldl_Cons)
  have kept: "?keep ! i" if "retained plan m" "position (within m) ?revs = Some i" for m i using retained_kept [OF that] .
  show ?thesis
  proof (cases drops)
    case True
    then have "select_survivors ?revs ?tomb plan drops = drop_orphans ?tomb ?keep" by (simp add: select_survivors_def)
    with True len kept drop_orphans_result [of ?keep ?tomb] position_Some [of _ ?revs] show ?thesis unfolding selects_def by fastforce
  next
    case False
    then have "select_survivors ?revs ?tomb plan drops = ?keep" by (simp add: select_survivors_def)
    with len kept show ?thesis unfolding selects_def by auto
  qed
qed

lemma generation_starts_result:
  assumes "length keep = length tomb"
  shows "length (keep_generation_starts tomb keep) = length keep \<and>
    (\<forall>i < length keep. keep ! i \<longrightarrow> keep_generation_starts tomb keep ! i) \<and>
    (\<forall>i < length keep. keep_generation_starts tomb keep ! i \<longrightarrow> (\<exists>j \<ge> i. j < length keep \<and> keep ! j))"
proof -
  let ?f = "\<lambda>ks i. if tomb ! i \<and> ks ! i \<and> \<not> tomb ! (i - 1) then ks[i - 1 := True] else ks"
  have "length (foldl ?f ks is) = length ks \<and> (\<forall>i < length ks. ks ! i \<longrightarrow> foldl ?f ks is ! i) \<and>
      (\<forall>i < length ks. foldl ?f ks is ! i \<longrightarrow> (\<exists>j \<ge> i. j < length ks \<and> ks ! j))"
    if "\<forall>i \<in> set is. i < length ks" for ks "is"
    using that
  proof (induction "is" arbitrary: ks)
    case (Cons k "is")
    have k: "k < length ks" using Cons.prems by simp
    let ?ks = "?f ks k"
    have len: "length ?ks = length ks" by simp
    have IH: "length (foldl ?f ?ks is) = length ks" "\<And>i. i < length ks \<Longrightarrow> ?ks ! i \<Longrightarrow> foldl ?f ?ks is ! i"
      "\<And>i. i < length ks \<Longrightarrow> foldl ?f ?ks is ! i \<Longrightarrow> \<exists>j \<ge> i. j < length ks \<and> ?ks ! j"
      using Cons.IH [of ?ks] Cons.prems unfolding len by auto
    have up: "?ks ! i" if "ks ! i" "i < length ks" for i using that by (simp add: update_True)
    have down: "\<exists>j \<ge> i. j < length ks \<and> ks ! j" if "?ks ! i" "i < length ks" for i
      using that k by (cases "ks ! i") (auto simp: nth_list_update split: if_splits intro: exI [of _ k])
    have "\<exists>j \<ge> i. j < length ks \<and> ks ! j" if "i < length ks" "foldl ?f ?ks is ! i" for i
      using IH(3) [OF that] down by (meson order_trans)
    with IH(1,2) up show ?case unfolding foldl_Cons by blast
  qed auto
  from this [of "[1..<length tomb]" keep] assms show ?thesis by (simp add: keep_generation_starts_def)
qed

lemma generation_starts_selects:
  assumes "selects versions plan drops keep"
  shows "selects versions plan drops (keep_generation_starts (map snd versions) keep)"
proof -
  have len: "length keep = length versions" using assms by (simp add: selects_def)
  note g = generation_starts_result [of keep "map snd versions", simplified, OF len]
  show ?thesis
    unfolding selects_def
  proof (intro conjI allI impI)
    show "length (keep_generation_starts (map snd versions) keep) = length versions" using g len by simp
  next
    fix m i
    assume a: "retained plan m \<and> position (within m) (map fst versions) = Some i \<and> \<not> keep_generation_starts (map snd versions) keep ! i"
    then have "i < length versions" using position_Some [of "within m" "map fst versions" i] by simp
    with a g len have "\<not> keep ! i" by auto
    with a assms have d: "drops \<and> snd (versions ! i) \<and> (\<forall>j < length keep. keep ! j \<longrightarrow> j < i)" unfolding selects_def by blast
    then show drops "snd (versions ! i)" by simp_all
    fix j
    assume "j < length (keep_generation_starts (map snd versions) keep)" "keep_generation_starts (map snd versions) keep ! j"
    then obtain j' where "j \<le> j'" "j' < length keep" "keep ! j'" using g len by auto
    with d show "j < i" by (meson le_less_trans)
  qed
qed

lemma group_selects: "selects versions plan drops (group_survivors drops node_chunk plan versions)"
proof (cases "length versions < 2 \<and> \<not> (drops \<and> snd (versions ! 0))")
  case True
  then show ?thesis using position_Some [of _ "map fst versions"] unfolding group_survivors_def selects_def by fastforce
next
  case False
  then have "group_survivors drops node_chunk plan versions =
      (let keep = select_survivors (map fst versions) (map snd versions) plan drops
       in if node_chunk then keep_generation_starts (map snd versions) keep else keep)"
    unfolding group_survivors_def Let_def by (rule if_not_P)
  then show ?thesis using survivors_selects generation_starts_selects by (simp add: Let_def)
qed

definition visible :: "(hlc \<times> bytes) option \<Rightarrow> (hlc \<times> bytes) option" where
  "visible res = (case res of Some (r, v) \<Rightarrow> if is_tombstone_value v then None else Some (r, v) | None \<Rightarrow> None)"

lemma find_survivors:
  fixes vs :: "(hlc \<times> bytes) list"
  assumes "selects (map (\<lambda>(r, v). (r, is_tombstone_value v)) vs) plan drops keep" and "retained plan m"
  shows "visible (List.find (\<lambda>(r, v). within m r) (kept_of vs keep)) = visible (List.find (\<lambda>(r, v). within m r) vs)"
    and "\<not> drops \<Longrightarrow> List.find (\<lambda>(r, v). within m r) (kept_of vs keep) = List.find (\<lambda>(r, v). within m r) vs"
proof -
  let ?P = "\<lambda>(r :: hlc, v :: bytes). within m r" and ?vs = "map (\<lambda>(r, v). (r, is_tombstone_value v)) vs"
  have pos: "position (within m) (map fst ?vs) = position ?P vs" by (induction vs) auto
  have len: "length keep = length vs" using assms(1) by (simp add: selects_def)
  have "visible (List.find ?P (kept_of vs keep)) = visible (List.find ?P vs) \<and> (\<not> drops \<longrightarrow> List.find ?P (kept_of vs keep) = List.find ?P vs)"
  proof (cases "position ?P vs")
    case None
    then have "List.find ?P (kept_of vs keep) = None" using len by (intro find_kept_None) (auto simp: position_None dest: nth_mem)
    with None show ?thesis by (simp add: find_position)
  next
    case (Some i)
    note i = position_Some [OF Some] position_least [OF Some]
    show ?thesis
    proof (cases "keep ! i")
      case True
      with find_kept [OF len Some] Some have "List.find ?P (kept_of vs keep) = List.find ?P vs" using find_position [of ?P vs] by simp
      then show ?thesis by simp
    next
      case False
      with assms Some pos have d: "drops" "snd (?vs ! i)" "\<And>j. j < length keep \<Longrightarrow> keep ! j \<Longrightarrow> j < i"
        unfolding selects_def by auto
      then have "List.find ?P (kept_of vs keep) = None" using i len by (intro find_kept_None) auto
      moreover have "visible (List.find ?P vs) = None" using Some d(2) i(1) by (simp add: find_position visible_def case_prod_unfold)
      ultimately show ?thesis using d(1) by (simp add: visible_def)
    qed
  qed
  then show "visible (List.find ?P (kept_of vs keep)) = visible (List.find ?P vs)"
    and "\<not> drops \<Longrightarrow> List.find ?P (kept_of vs keep) = List.find ?P vs" by simp_all
qed

section \<open>Pruning a record\<close>

text \<open>The entries left once the keys of the versions under a prefix that do not survive are deleted.\<close>

definition prune_under :: "bool \<Rightarrow> bool \<Rightarrow> scope_plan \<Rightarrow> bytes \<Rightarrow> entries \<Rightarrow> entries" where
  "prune_under drops node_chunk plan pre es =
     (let vs = List.map_filter (version_of pre) es;
          keep = group_survivors drops node_chunk plan (map (\<lambda>(r, v). (r, is_tombstone_value v)) vs);
          gone = map (\<lambda>(r, v). pre @ encode_descending r) (kept_of vs (map Not keep))
      in filter (\<lambda>(k, v). k \<notin> set gone) es)"

lemma encode_descending_inject: "encode_descending a = encode_descending b \<longleftrightarrow> a = b"
  by (metis decode_encode_descending sum.inject(2))

lemma map_filter_filter:
  assumes "\<And>x y. x \<in> set xs \<Longrightarrow> f x = Some y \<Longrightarrow> P x \<longleftrightarrow> Q y"
  shows "List.map_filter f (filter P xs) = filter Q (List.map_filter f xs)"
  using assms by (induction xs) (auto simp: map_filter_rec split: option.splits)

lemma kept_of_filter:
  assumes "distinct (map fst vs)" and "length keep = length vs"
  shows "filter (\<lambda>(r, v). r \<notin> fst ` set (kept_of vs (map Not keep))) vs = kept_of vs keep"
  using assms
proof (induction vs arbitrary: keep)
  case (Cons x vs)
  then obtain k ks where keep: "keep = k # ks" "length ks = length vs" by (cases keep) auto
  have sub: "fst ` set (kept_of vs (map Not ks)) \<subseteq> fst ` set vs" unfolding kept_of_def by (force dest: set_zip_leftD)
  have x: "fst x \<notin> fst ` set vs" using Cons.prems(1) by simp
  have IH: "filter (\<lambda>(r, v). r \<notin> fst ` set (kept_of vs (map Not ks))) vs = kept_of vs ks" using Cons keep by simp
  have same: "filter (\<lambda>(r, v). r \<noteq> fst x \<and> Q r) vs = filter (\<lambda>(r, v). Q r) vs" for Q
  proof (rule filter_cong [OF refl])
    fix y
    assume "y \<in> set vs"
    with x have "fst y \<noteq> fst x" by (metis image_eqI)
    then show "(case y of (r, v) \<Rightarrow> r \<noteq> fst x \<and> Q r) = (case y of (r, v) \<Rightarrow> Q r)" by (simp add: case_prod_unfold)
  qed
  show ?case
  proof (cases k)
    case True
    then show ?thesis using IH x sub keep by (auto simp: kept_of_def case_prod_unfold)
  next
    case False
    then show ?thesis using IH same [of "\<lambda>r. r \<notin> fst ` set (kept_of vs (map Not ks))"] keep
      by (simp add: kept_of_def case_prod_unfold)
  qed
qed (simp add: kept_of_def)

lemma versions_pruned:
  assumes "sorted_wrt (<) (map fst es)" and "versioned_under pre es"
  defines "vs \<equiv> List.map_filter (version_of pre) es"
  shows "List.map_filter (version_of pre) (prune_under drops node_chunk plan pre es) =
    kept_of vs (group_survivors drops node_chunk plan (map (\<lambda>(r, v). (r, is_tombstone_value v)) vs))"
proof -
  let ?keep = "group_survivors drops node_chunk plan (map (\<lambda>(r, v). (r, is_tombstone_value v)) vs)"
  have len: "length ?keep = length vs" using group_selects [of "map (\<lambda>(r, v). (r, is_tombstone_value v)) vs"] by (simp add: selects_def)
  have "sorted_wrt (\<lambda>a b. fst b < fst a) vs" unfolding vs_def by (rule sorted_versions [OF assms(1,2)])
  then have "distinct (map fst vs)" by (induction vs) auto
  from kept_of_filter [OF this len] show ?thesis
    unfolding prune_under_def Let_def vs_def [symmetric]
    by (subst map_filter_filter [where Q = "\<lambda>(r, v). r \<notin> fst ` set (kept_of vs (map Not ?keep))"])
      (force simp: vs_def [symmetric] version_of_versioned [OF assms(2)] encode_descending_inject)+
qed

lemma prune_sorted: "sorted_wrt (<) (map fst es) \<Longrightarrow> sorted_wrt (<) (map fst (prune_under drops node_chunk plan pre es))"
  unfolding prune_under_def Let_def by (simp add: sorted_wrt_map sorted_wrt_filter)

lemma prune_versioned: "versioned_under pre es \<Longrightarrow> versioned_under pre (prune_under drops node_chunk plan pre es)"
  unfolding prune_under_def Let_def by (auto simp: versioned_under_def)

text \<open>
  C9. Retained reads do not change. At the head, at any revision from the cutoff on and at any pin, the newest version of a record
  after its group has been pruned is the one before; where tombstones of records with nothing older may be dropped, a
  deleted record may read as absent, and in no case does an older version show.
\<close>

theorem pruning_keeps_retained_reads:
  assumes "cf_content db cf es" and "cf_content db' cf (prune_under drops node_chunk plan pre es)" and "versioned_under pre es"
    and "retained plan m"
  shows "map_sum id visible (newest_at_or_before db' cf pre m) = map_sum id visible (newest_at_or_before db cf pre m) \<and>
    (\<not> drops \<longrightarrow> newest_at_or_before db' cf pre m = newest_at_or_before db cf pre m)"
proof -
  let ?vs = "List.map_filter (version_of pre) es"
  have srt: "sorted_wrt (<) (map fst es)" using assms(1) by (simp add: cf_content_def)
  have "newest_at_or_before db cf pre m = Inr (walk_newest pre m es)"
    "newest_at_or_before db' cf pre m = Inr (walk_newest pre m (prune_under drops node_chunk plan pre es))"
    using cf_content_newest [OF assms(1,3), of "prefix_successor pre" m]
      cf_content_newest [OF assms(2) prune_versioned [OF assms(3)], of "prefix_successor pre" m]
    by (simp_all add: newest_at_or_before_def newest_at_or_before_with_def)
  then show ?thesis
    using find_survivors [where vs = ?vs and drops = drops, OF group_selects [of _ plan drops node_chunk] assms(4)]
    by (simp add: walk_newest_def versions_pruned [OF srt assms(3)])
qed

text \<open>A node with versions at 9, 5, 3 and 1, a cutoff at 6 and a pin at 2: the version at 3 goes.\<close>

definition gc_plan :: scope_plan where
  "gc_plan = \<lparr>sp_cutoff = hlc_new 6 0, sp_pins = [hlc_new 2 0]\<rparr>"

definition gc_entries :: entries where
  "gc_entries = map (\<lambda>ms. (nodes_prefix sample_scope @ encode_descending (hlc_new ms 0), [1])) [9, 5, 3, 1]"

lemma gc_versions:
  "List.map_filter (version_of (nodes_prefix sample_scope)) gc_entries = map (\<lambda>ms. (hlc_new ms 0, [1])) [9, 5, 3, 1]"
  by (simp add: gc_entries_def map_filter_rec version_of_def)

lemma gc_survivors:
  "group_survivors True True gc_plan (map (\<lambda>ms. (hlc_new ms 0, False)) [9, 5, 3, 1]) = [True, True, False, True]"
  by (simp add: group_survivors_def gc_plan_def select_survivors_def Let_def keep_point_def hlc_le_iff hlc_less_iff
      drop_orphans.simps keep_generation_starts_def upt_rec)

theorem pruning_keeps_retained_reads_witness:
  "map_sum id visible (newest_at_or_before
       (sample_db [(NODES, prune_under True True gc_plan (nodes_prefix sample_scope) gc_entries)]) NODES (nodes_prefix sample_scope)
       (Some (hlc_new 7 0))) = Inr (Some (hlc_new 5 0, [1]))"
proof -
  let ?pre = "nodes_prefix sample_scope"
  have srt: "sorted_wrt (<) (map fst gc_entries)" by (simp add: gc_entries_def encode_descending_less hlc_less_iff)
  then have c: "cf_content (sample_db [(NODES, gc_entries)]) NODES gc_entries" by (intro sample_db_content) simp_all
  have c': "cf_content (sample_db [(NODES, prune_under True True gc_plan ?pre gc_entries)]) NODES (prune_under True True gc_plan ?pre gc_entries)"
    by (intro sample_db_content prune_sorted srt) simp
  have v: "versioned_under ?pre gc_entries" by (simp add: versioned_under_def gc_entries_def)
  have "retained gc_plan (Some (hlc_new 7 0))" by (simp add: retained_def gc_plan_def hlc_le_iff)
  from pruning_keeps_retained_reads [OF c c' v this] have
    "map_sum id visible (newest_at_or_before (sample_db [(NODES, prune_under True True gc_plan ?pre gc_entries)]) NODES ?pre (Some (hlc_new 7 0))) =
     map_sum id visible (newest_at_or_before (sample_db [(NODES, gc_entries)]) NODES ?pre (Some (hlc_new 7 0)))" by blast
  moreover have "newest_at_or_before (sample_db [(NODES, gc_entries)]) NODES ?pre (Some (hlc_new 7 0)) = Inr (Some (hlc_new 5 0, [1]))"
    using cf_content_newest [OF c v, of "prefix_successor ?pre" "Some (hlc_new 7 0)"]
    by (simp add: newest_at_or_before_def newest_at_or_before_with_def walk_newest_def gc_versions within_def hlc_le_iff)
  moreover have "visible (Some (hlc_new 5 0, [1])) = Some (hlc_new 5 0, [1])"
    by (simp add: visible_def is_tombstone_value_def TOMBSTONE_VALUE_def as_bytes_def)
  ultimately show ?thesis by simp
qed

section \<open>What a plan retains\<close>

definition revisions_on :: "string \<Rightarrow> (string \<times> hlc) list \<Rightarrow> hlc list" where
  "revisions_on branch metas = map snd (filter (\<lambda>(b, _). b = branch) metas)"

definition counts_ok :: "(string \<times> u64) list \<Rightarrow> (string \<times> hlc) list \<Rightarrow> (string \<times> u64) list \<Rightarrow> (string \<times> hlc) list \<Rightarrow> bool" where
  "counts_ok wanted seen counts found \<longleftrightarrow>
     (\<forall>b n. hm_get wanted b = Some n \<and> hm_get found b = None \<longrightarrow>
        unat (case hm_get counts b of None \<Rightarrow> 0 | Some c \<Rightarrow> c) = length (revisions_on b seen) \<and> length (revisions_on b seen) < unat n)"

definition found_ok :: "(string \<times> u64) list \<Rightarrow> (string \<times> hlc) list \<Rightarrow> (string \<times> hlc) list \<Rightarrow> bool" where
  "found_ok wanted metas found \<longleftrightarrow>
     (\<forall>b r. hm_get found b = Some r \<longrightarrow> (\<exists>n. hm_get wanted b = Some n \<and> 0 < unat n \<and> unat n \<le> length (revisions_on b metas) \<and>
        r = revisions_on b metas ! (unat n - 1)))"

lemma revisions_on_snoc: "revisions_on b (xs @ [(b', r)]) = revisions_on b xs @ (if b' = b then [r] else [])"
  by (simp add: revisions_on_def)

lemma revisions_on_append: "revisions_on b (xs @ ys) = revisions_on b xs @ revisions_on b ys"
  by (simp add: revisions_on_def)

lemma nth_newest_step:
  assumes "counts_ok wanted seen counts found" and "hm_get wanted b = Some n" and "hm_get found b = None"
  defines "c \<equiv> (case hm_get counts b of None \<Rightarrow> 0 | Some x \<Rightarrow> x) + 1"
  shows "unat c = Suc (length (revisions_on b seen))" and "unat c \<le> unat n"
proof -
  have "unat (c - 1) = length (revisions_on b seen)" "length (revisions_on b seen) < unat n"
    using assms(1-3) by (auto simp: counts_ok_def c_def)
  moreover from this have "c - 1 \<noteq> u64_MAX" using unat_u64_lt [of n] by (auto simp: unat_u64_MAX)
  ultimately show "unat c = Suc (length (revisions_on b seen))" "unat c \<le> unat n" using unat_u64_Suc [of "c - 1"] by simp_all
qed

lemma nth_newest_loop_found:
  assumes "counts_ok wanted seen counts found" and "found_ok wanted (seen @ metas) found"
  shows "found_ok wanted (seen @ metas) (nth_newest_loop wanted metas counts found)"
  using assms
proof (induction metas arbitrary: seen counts found)
  case (Cons x metas)
  obtain b r where x: "x = (b, r)" by (cases x)
  have IH: "counts_ok wanted (seen @ [x]) counts' found' \<Longrightarrow> found_ok wanted (seen @ x # metas) found' \<Longrightarrow>
      found_ok wanted (seen @ x # metas) (nth_newest_loop wanted metas counts' found')" for counts' found'
    using Cons.IH [of "seen @ [x]"] by simp
  show ?case
  proof (cases "hm_get wanted b = None \<or> hm_get found b \<noteq> None")
    case True
    then have "counts_ok wanted (seen @ [x]) counts found" using Cons.prems(1) by (auto simp: counts_ok_def revisions_on_snoc x)
    with IH Cons.prems(2) True show ?thesis by (auto simp: x split: option.split)
  next
    case False
    then obtain n where n: "hm_get wanted b = Some n" "hm_get found b = None" by auto
    let ?c = "(case hm_get counts b of None \<Rightarrow> 0 | Some x \<Rightarrow> x) + 1"
    note c = nth_newest_step [OF Cons.prems(1) n]
    have at: "revisions_on b (seen @ x # metas) ! length (revisions_on b seen) = r"
      "length (revisions_on b seen) < length (revisions_on b (seen @ x # metas))"
      by (simp_all add: x revisions_on_def nth_append)
    show ?thesis
    proof (cases "n \<le> ?c")
      case True
      then have "unat n = Suc (length (revisions_on b seen))" using c by (simp add: word_le_nat_alt)
      then have f: "found_ok wanted (seen @ x # metas) (hm_insert b r found)"
        using Cons.prems(2) at n(1) by (auto simp: found_ok_def update_conv')
      moreover have "counts_ok wanted (seen @ [x]) (hm_insert b ?c counts) (hm_insert b r found)"
        using Cons.prems(1) by (auto simp: counts_ok_def update_conv' revisions_on_snoc x)
      ultimately show ?thesis using IH n True by (simp add: x Let_def)
    next
      case False
      then have "unat ?c < unat n" using c(2) by (simp add: word_le_nat_alt)
      then have "counts_ok wanted (seen @ [x]) (hm_insert b ?c counts) found"
        using Cons.prems(1) c(1) n by (auto simp: counts_ok_def update_conv' revisions_on_snoc x)
      with IH Cons.prems(2) n False show ?thesis by (simp add: x Let_def)
    qed
  qed
qed simp

lemma wanted_counts_acc:
  assumes "distinct (map fst policies)"
  shows "hm_get (foldl (\<lambda>m (b, p). case keep_revisions p of None \<Rightarrow> m | Some n \<Rightarrow> hm_insert b (max n 1) m) m policies) b =
    (case Option.bind (map_of policies b) keep_revisions of None \<Rightarrow> hm_get m b | Some n \<Rightarrow> Some (max n 1))"
  using assms
proof (induction policies arbitrary: m)
  case (Cons x policies)
  obtain b' p where x: "x = (b', p)" by (cases x)
  have "map_of policies b' = None" using Cons.prems by (simp add: x map_of_eq_None_iff)
  with Cons show ?case by (cases "keep_revisions p") (auto simp: x update_conv' split: option.split)
qed simp

lemma nth_newest_found:
  assumes "distinct (map fst policies)" and "map_of policies b = Some p" and "keep_revisions p = Some n"
    and "hm_get (nth_newest_revisions (wanted_counts policies) metas) b = Some r"
  shows "unat (max n 1) \<le> length (revisions_on b metas) \<and> r = revisions_on b metas ! (unat (max n 1) - 1)"
proof -
  let ?w = "wanted_counts policies"
  have w: "hm_get ?w a = map_option (\<lambda>n. max n 1) (Option.bind (map_of policies a) keep_revisions)" for a
    using wanted_counts_acc [OF assms(1), of "[]" a] by (simp add: wanted_counts_def split: option.split)
  have "0 < unat (max k (1 :: u64))" for k
  proof -
    have "(1 :: u64) \<le> max k 1" by simp
    then show ?thesis unfolding word_le_nat_alt by simp
  qed
  with w have "counts_ok ?w [] [] []" by (auto simp: counts_ok_def revisions_on_def)
  from nth_newest_loop_found [OF this, of metas] have ok: "found_ok ?w metas (nth_newest_loop ?w metas [] [])" by (simp add: found_ok_def)
  have "hm_get (nth_newest_loop ?w metas [] []) b = Some r" using assms(4) by (simp add: nth_newest_revisions_def split: if_splits)
  with ok obtain k where "hm_get ?w b = Some k" "unat k \<le> length (revisions_on b metas)" "r = revisions_on b metas ! (unat k - 1)"
    unfolding found_ok_def by blast
  then show ?thesis using w [of b] assms(2,3) by simp
qed

lemma plan_branches_plan:
  assumes "distinct (map fst policies)"
  shows "hm_get (fst (plan_branches now safety nth_rev pins policies plans rc every)) b =
    (case Option.bind (map_of policies b) (branch_cutoff now safety nth_rev b) of
       None \<Rightarrow> hm_get plans b
     | Some c \<Rightarrow> Some \<lparr>sp_cutoff = c, sp_pins = filter (\<lambda>p. p < c) pins\<rparr>)"
  using assms
proof (induction policies arbitrary: plans rc every)
  case (Cons x policies)
  obtain b' p where x: "x = (b', p)" by (cases x)
  have "map_of policies b' = None" using Cons.prems by (simp add: x map_of_eq_None_iff)
  with Cons show ?case by (cases "branch_cutoff now safety nth_rev b' p") (auto simp: x update_conv' split: option.split)
qed simp

lemma cutoff_limits:
  assumes "branch_cutoff now safety nth_rev branch policy = Some c"
  shows "c \<le> safety" and "keep_days policy = Some d \<Longrightarrow> c \<le> hlc_at_ms (saturating_sub now (ucast d * 86400000))"
    and "keep_revisions policy = Some n \<Longrightarrow> \<exists>r. hm_get nth_rev branch = Some r \<and> c \<le> r"
  using assms by (auto simp: branch_cutoff_def Let_def min_le_iff_disj split: option.splits)

definition in_window :: "u64 \<Rightarrow> u64 \<Rightarrow> (string \<times> hlc) list \<Rightarrow> hlc list \<Rightarrow> string \<Rightarrow> history_retention \<Rightarrow> hlc \<Rightarrow> bool" where
  "in_window now min_age_ms metas pins branch policy r \<longleftrightarrow>
     hlc_at_ms (saturating_sub now min_age_ms) \<le> r \<or>
     (\<exists>d. keep_days policy = Some d \<and> hlc_at_ms (saturating_sub now (ucast d * 86400000)) \<le> r) \<or>
     (\<exists>n. keep_revisions policy = Some n \<and> r \<in> set (take (unat (max n 1)) (revisions_on branch metas))) \<or>
     r \<in> set pins"

text \<open>
  C10. A plan honours the policy of its branch. Every revision younger than the minimum age, every one within the days the policy
  keeps, every one of the newest revisions it keeps of the branch and every pin of the repository is retained; a policy that
  keeps everything gives the branch no plan.
\<close>

theorem plan_honours_policy:
  assumes "distinct (map fst policies)" and "map_of policies branch = Some policy"
    and "sorted_wrt (\<lambda>a b. b \<le> a) (revisions_on branch metas)"
    and "plan_repo now min_age_ms metas pins policies = (plans, repo_plan)"
  shows "(\<forall>plan r. hm_get plans branch = Some plan \<and> in_window now min_age_ms metas pins branch policy r \<longrightarrow> retained plan (Some r)) \<and>
    (is_keep_all policy \<longrightarrow> hm_get plans branch = None)"
proof -
  let ?safety = "hlc_at_ms (saturating_sub now min_age_ms)" and ?nth_rev = "nth_newest_revisions (wanted_counts policies) metas"
  have plans: "hm_get plans branch = map_option (\<lambda>c. \<lparr>sp_cutoff = c, sp_pins = filter (\<lambda>p. p < c) (sorted_pins pins)\<rparr>)
      (branch_cutoff now ?safety ?nth_rev branch policy)"
    using assms(4) plan_branches_plan [OF assms(1), of now ?safety ?nth_rev "sorted_pins pins" "[]" None True branch] assms(2)
    by (auto simp: plan_repo_def Let_def split: prod.splits option.splits)
  have "retained plan (Some r)" if "hm_get plans branch = Some plan" "in_window now min_age_ms metas pins branch policy r" for plan r
  proof -
    from that(1) plans obtain c where c: "branch_cutoff now ?safety ?nth_rev branch policy = Some c"
      "plan = \<lparr>sp_cutoff = c, sp_pins = filter (\<lambda>p. p < c) (sorted_pins pins)\<rparr>" by auto
    note lim = cutoff_limits [OF c(1)]
    have newest: "c \<le> r" if n: "keep_revisions policy = Some n" "r \<in> set (take (unat (max n 1)) (revisions_on branch metas))" for n
    proof -
      from lim(3) [OF n(1)] obtain r' where r': "hm_get ?nth_rev branch = Some r'" "c \<le> r'" by blast
      note nf = nth_newest_found [OF assms(1,2) n(1) r'(1)]
      from n(2) obtain i where i: "i < unat (max n 1)" "i < length (revisions_on branch metas)" "r = revisions_on branch metas ! i"
        by (auto simp: in_set_conv_nth)
      have "revisions_on branch metas ! (unat (max n 1) - 1) \<le> r"
      proof (cases "i = unat (max n 1) - 1")
        case False
        with i have "i < unat (max n 1) - 1" "unat (max n 1) - 1 < length (revisions_on branch metas)" using nf by linarith+
        then show ?thesis using sorted_wrt_nth_less [OF assms(3), of i "unat (max n 1) - 1"] i(3) by simp
      qed (simp add: i(3))
      with nf r'(2) show ?thesis by simp
    qed
    have "c \<le> r \<or> r \<in> set pins"
      using that(2) lim(1) lim(2) newest unfolding in_window_def by (meson order_trans)
    then show ?thesis using c(2) by (auto simp: retained_def sorted_pins_def)
  qed
  moreover have "hm_get plans branch = None" if "is_keep_all policy"
    using that plans by (simp add: is_keep_all_def branch_cutoff_def)
  ultimately show ?thesis by blast
qed

theorem plan_honours_policy_witness:
  "\<exists>plans repo_plan plan.
     plan_repo 2000 600 [(''main'', hlc_new 1900 0), (''main'', hlc_new 900 0), (''main'', hlc_new 100 0)] [hlc_new 50 0]
       [(''main'', \<lparr>keep_days = None, keep_revisions = Some 2\<rparr>)] = (plans, repo_plan) \<and>
     hm_get plans ''main'' = Some plan \<and> retained plan (Some (hlc_new 900 0)) \<and> retained plan (Some (hlc_new 50 0))"
proof -
  let ?metas = "[(''main'', hlc_new 1900 0), (''main'', hlc_new 900 0), (''main'', hlc_new 100 0)]"
  let ?policy = "\<lparr>keep_days = None, keep_revisions = Some 2\<rparr>" and ?plan = "\<lparr>sp_cutoff = hlc_new 900 0, sp_pins = [hlc_new 50 0]\<rparr>"
  let ?pins = "[hlc_new 50 0]"
  have cut: "min (hlc_new 900 0) (hlc_at_ms 1400) = hlc_new 900 0" by (simp add: min_def hlc_at_ms_def hlc_le_iff)
  have two: "\<not> (2 :: u64) \<le> 1" by (simp add: word_le_nat_alt)
  have "\<exists>rp. plan_repo 2000 600 ?metas ?pins [(''main'', ?policy)] = ([(''main'', ?plan)], rp)"
    by (simp add: plan_repo_def wanted_counts_def nth_newest_revisions_def branch_cutoff_def saturating_sub_def cut two
        sorted_pins_def hlc_less_iff Let_def)
  then obtain rp where run: "plan_repo 2000 600 ?metas ?pins [(''main'', ?policy)] = ([(''main'', ?plan)], rp)" ..
  moreover have "\<forall>plan r. hm_get [(''main'', ?plan)] ''main'' = Some plan \<and> in_window 2000 600 ?metas ?pins ''main'' ?policy r \<longrightarrow> retained plan (Some r)"
    using plan_honours_policy [OF _ _ _ run, of "''main''" ?policy] by (simp add: revisions_on_def hlc_le_iff)
  moreover have "in_window 2000 600 ?metas ?pins ''main'' ?policy (hlc_new 900 0)" "in_window 2000 600 ?metas ?pins ''main'' ?policy (hlc_new 50 0)"
    by (simp_all add: in_window_def revisions_on_def two)
  ultimately show ?thesis by auto
qed

end
