(* ===== verification/Graph_Projection.thy ===== *)
theory Graph_Projection
  imports Raisin_Prelude "HOL-Library.Product_Lexorder" "HOL-Library.List_Lexorder" "HOL-Library.Char_ord"
begin

text \<open>
  \<open>raisin-graph-algorithms/src/projection/mod.rs\<close>: the projection of the relations of a repository to a graph over dense
  indices. The compressed rows are a structure of the crate \<open>petgraph\<close>; the record \<open>csr_lib\<close> has the calls the code makes
  and \<open>csr_laws\<close> what its documentation promises. The lemmas relate a projection to the graph it was built from; the
  algorithms of the crate rest on them. Weights are a type parameter.
\<close>

lemma unat_of_nat_u32: "i < 2 ^ 32 \<Longrightarrow> unat (of_nat i :: u32) = i"
  by (simp only: unat_of_nat) simp

lemma of_nat_unat_u32: "of_nat (unat w) = (w :: u32)"
  by simp

section \<open>Compressed sparse rows\<close>

record 'g csr_lib =
  csr_default :: 'g
  csr_from_sorted_edges :: "(u32 \<times> u32) list \<Rightarrow> 'g option"
  csr_node_count :: "'g \<Rightarrow> nat"
  csr_edge_count :: "'g \<Rightarrow> nat"
  csr_neighbors_slice :: "'g \<Rightarrow> u32 \<Rightarrow> u32 list"

definition csr_from_edges :: "'g csr_lib \<Rightarrow> (u32 \<times> u32) list \<Rightarrow> 'g" where
  "csr_from_edges lib es = (case csr_from_sorted_edges lib es of Some g \<Rightarrow> g | None \<Rightarrow> csr_default lib)"

section \<open>The projection\<close>

record ('g, 'w) graph_projection =
  gp_graph :: 'g
  gp_backward_graph :: "'g option"
  gp_edge_weights :: "'w list option"
  gp_id_map :: "(string, u32) hash_map"
  gp_reverse_map :: "string list"

definition projection_new :: "'g csr_lib \<Rightarrow> ('g, 'w) graph_projection" where
  "projection_new lib =
     \<lparr>gp_graph = csr_default lib, gp_backward_graph = None, gp_edge_weights = None, gp_id_map = [], gp_reverse_map = []\<rparr>"

text \<open>The loop over \<open>nodes.into_iter().enumerate()\<close>; the cast of the index to \<open>u32\<close> wraps.\<close>

definition id_mapping :: "string list \<Rightarrow> (string, u32) hash_map" where
  "id_mapping nodes = foldl (\<lambda>m (i, node_id). hm_insert node_id (of_nat i) m) [] (enumerate 0 nodes)"

definition edge_ids :: "(string, u32) hash_map \<Rightarrow> (string \<times> string) list \<Rightarrow> (u32 \<times> u32) list" where
  "edge_ids id_map edges =
     List.map_filter (\<lambda>(src, dst). case (hm_get id_map src, hm_get id_map dst) of (Some u, Some v) \<Rightarrow> Some (u, v) | _ \<Rightarrow> None) edges"

definition from_parts :: "'g csr_lib \<Rightarrow> string list \<Rightarrow> (string \<times> string) list \<Rightarrow> ('g, 'w) graph_projection" where
  "from_parts lib nodes edges =
     (let id_map = id_mapping nodes;
          edge_list = sort (edge_ids id_map edges)
      in \<lparr>gp_graph = csr_from_edges lib edge_list, gp_backward_graph = None, gp_edge_weights = None,
          gp_id_map = id_map, gp_reverse_map = nodes\<rparr>)"

definition weighted_edge_ids :: "(string, u32) hash_map \<Rightarrow> (string \<times> string \<times> 'w) list \<Rightarrow> (u32 \<times> u32 \<times> 'w) list" where
  "weighted_edge_ids id_map edges =
     List.map_filter
       (\<lambda>(src, dst, weight). case (hm_get id_map src, hm_get id_map dst) of (Some u, Some v) \<Rightarrow> Some (u, v, weight) | _ \<Rightarrow> None)
       edges"

definition from_parts_weighted ::
  "'g csr_lib \<Rightarrow> string list \<Rightarrow> (string \<times> string \<times> 'w) list \<Rightarrow> ('g, 'w) graph_projection" where
  "from_parts_weighted lib nodes edges =
     (let id_map = id_mapping nodes;
          sorted_edges = sort_key (\<lambda>(u, v, w). (u, v)) (weighted_edge_ids id_map edges)
      in \<lparr>gp_graph = csr_from_edges lib (map (\<lambda>(u, v, w). (u, v)) sorted_edges), gp_backward_graph = None,
          gp_edge_weights = Some (map (\<lambda>(u, v, w). w) sorted_edges), gp_id_map = id_map, gp_reverse_map = nodes\<rparr>)"

text \<open>A relation as the storage returns it: its source, its target and its weight.\<close>

definition unique_nodes :: "(string \<times> string \<times> 'w option) list \<Rightarrow> string list" where
  "unique_nodes relations = sorted_list_of_set (set (concat (map (\<lambda>(s, t, _). [s, t]) relations)))"

definition from_storage ::
  "'g csr_lib \<Rightarrow> string + (string \<times> string \<times> 'w option) list \<Rightarrow> string + ('g, 'w) graph_projection" where
  "from_storage lib scan =
     map_sum id (\<lambda>relations. from_parts lib (unique_nodes relations) (map (\<lambda>(s, t, _). (s, t)) relations)) scan"

definition from_storage_weighted ::
  "'g csr_lib \<Rightarrow> 'w \<Rightarrow> string + (string \<times> string \<times> 'w option) list \<Rightarrow> string + ('g, 'w) graph_projection" where
  "from_storage_weighted lib one scan =
     map_sum id (\<lambda>relations.
       let nodes = unique_nodes relations;
           edges = map (\<lambda>(s, t, w). (s, t, case w of Some x \<Rightarrow> x | None \<Rightarrow> one)) relations
       in if \<exists>(s, t, w) \<in> set relations. w \<noteq> None then from_parts_weighted lib nodes edges
          else from_parts lib nodes (map (\<lambda>(s, t, w). (s, t)) edges)) scan"

definition gp_node_count :: "('g, 'w) graph_projection \<Rightarrow> nat" where
  "gp_node_count p = length (gp_reverse_map p)"

definition get_id :: "('g, 'w) graph_projection \<Rightarrow> string \<Rightarrow> u32 option" where
  "get_id p node_id = hm_get (gp_id_map p) node_id"

definition get_node_id :: "('g, 'w) graph_projection \<Rightarrow> u32 \<Rightarrow> string option" where
  "get_node_id p i = (if unat i < length (gp_reverse_map p) then Some (gp_reverse_map p ! unat i) else None)"

definition edge_weight :: "'w \<Rightarrow> ('g, 'w) graph_projection \<Rightarrow> nat \<Rightarrow> 'w" where
  "edge_weight one p i =
     (case gp_edge_weights p of None \<Rightarrow> one | Some ws \<Rightarrow> if i < length ws then ws ! i else one)"

definition gp_edge_count :: "'g csr_lib \<Rightarrow> ('g, 'w) graph_projection \<Rightarrow> nat" where
  "gp_edge_count lib p = csr_edge_count lib (gp_graph p)"

text \<open>The slice of a node, guarded as every caller guards it: \<open>if u < graph.node_count()\<close>.\<close>

definition nbrs :: "'g csr_lib \<Rightarrow> 'g \<Rightarrow> nat \<Rightarrow> u32 list" where
  "nbrs lib g u = (if u < csr_node_count lib g then csr_neighbors_slice lib g (of_nat u) else [])"

definition ensure_backward_graph :: "'g csr_lib \<Rightarrow> ('g, 'w) graph_projection \<Rightarrow> ('g, 'w) graph_projection" where
  "ensure_backward_graph lib p =
     (if gp_backward_graph p \<noteq> None then p
      else let reversed_edges = concat (map (\<lambda>u. map (\<lambda>v. (v, of_nat u)) (nbrs lib (gp_graph p) u)) [0..<gp_node_count p])
           in p\<lparr>gp_backward_graph := Some (csr_from_edges lib (sort reversed_edges))\<rparr>)"

text \<open>The last loop of every algorithm: the value of index \<open>i\<close> under the name of the node.\<close>

definition by_node_id :: "('g, 'w) graph_projection \<Rightarrow> 'a list \<Rightarrow> (string, 'a) hash_map" where
  "by_node_id p xs =
     foldl (\<lambda>result (i, x). case get_node_id p (of_nat i) of None \<Rightarrow> result | Some node_id \<Rightarrow> hm_insert node_id x result) []
       (enumerate 0 xs)"

section \<open>What the crate promises\<close>

text \<open>
  The documentation of \<open>Csr::from_sorted_edges\<close>: the edges must be sorted and unique, anything else is the error
  \<open>EdgesNotSorted\<close>; the graph has the nodes up to the largest endpoint; a slice has the targets of the edges of its node.
\<close>

definition csr_rows :: "'g csr_lib \<Rightarrow> (u32 \<times> u32) list \<Rightarrow> 'g \<Rightarrow> bool" where
  "csr_rows lib es g \<longleftrightarrow>
     (\<forall>(u, v) \<in> set es. unat u < csr_node_count lib g \<and> unat v < csr_node_count lib g) \<and>
     (\<forall>u. unat u < csr_node_count lib g \<longrightarrow> csr_neighbors_slice lib g u = map snd (filter (\<lambda>e. fst e = u) es)) \<and>
     csr_node_count lib g \<le> 2 ^ 32 \<and> csr_edge_count lib g = length es"

definition csr_laws :: "'g csr_lib \<Rightarrow> bool" where
  "csr_laws lib \<longleftrightarrow>
     csr_rows lib [] (csr_default lib) \<and>
     (\<forall>es. case csr_from_sorted_edges lib es of
             Some g \<Rightarrow> sorted_wrt (<) es \<and> csr_rows lib es g
           | None \<Rightarrow> \<not> sorted_wrt (<) es)"

lemma csr_laws_Some: "csr_laws lib \<Longrightarrow> sorted_wrt (<) es \<Longrightarrow> csr_rows lib es (csr_from_edges lib es)"
  by (auto simp: csr_laws_def csr_from_edges_def split: option.splits) (metis option.distinct(1))

lemma csr_laws_None: "csr_laws lib \<Longrightarrow> \<not> sorted_wrt (<) es \<Longrightarrow> csr_rows lib [] (csr_from_edges lib es)"
  by (auto simp: csr_laws_def csr_from_edges_def split: option.splits)

text \<open>An instance: the rows are the edges themselves.\<close>

definition edge_list_csr :: "(u32 \<times> u32) list csr_lib" where
  "edge_list_csr =
     \<lparr>csr_default = [],
      csr_from_sorted_edges = (\<lambda>es. if sorted_wrt (<) es then Some es else None),
      csr_node_count = (\<lambda>es. foldr (\<lambda>(u, v) n. max (max (Suc (unat u)) (Suc (unat v))) n) es 0),
      csr_edge_count = length,
      csr_neighbors_slice = (\<lambda>es u. map snd (filter (\<lambda>e. fst e = u) es))\<rparr>"

lemma edge_list_csr_bound: "foldr (\<lambda>(u, v) n. max (max (Suc (unat u)) (Suc (unat v))) n) es 0 \<le> 2 ^ 32" for es :: "(u32 \<times> u32) list"
proof (induction es)
  case (Cons e es)
  have "Suc (unat w) \<le> 2 ^ 32" for w :: u32 using unsigned_less [of w, where ?'a = nat] by simp
  with Cons show ?case by (simp add: case_prod_unfold)
qed simp

lemma edge_list_csr_counts:
  "(u, v) \<in> set es \<Longrightarrow>
   unat u < foldr (\<lambda>(u, v) n. max (max (Suc (unat u)) (Suc (unat v))) n) es 0 \<and>
   unat v < foldr (\<lambda>(u, v) n. max (max (Suc (unat u)) (Suc (unat v))) n) es 0" for es :: "(u32 \<times> u32) list"
  by (induction es) (auto simp: less_max_iff_disj)

lemma edge_list_csr_laws [simp]: "csr_laws edge_list_csr"
  using edge_list_csr_bound by (auto simp: csr_laws_def csr_rows_def edge_list_csr_def dest: edge_list_csr_counts)

section \<open>The graph of a projection\<close>

text \<open>The edges of an index graph, and the edges between known nodes of the input.\<close>

definition graph_edges :: "'g csr_lib \<Rightarrow> 'g \<Rightarrow> (nat \<times> nat) set" where
  "graph_edges lib g = {(u, v). \<exists>w \<in> set (nbrs lib g u). unat w = v}"

definition known_edges :: "string list \<Rightarrow> (string \<times> string) list \<Rightarrow> (string \<times> string) list" where
  "known_edges nodes edges = filter (\<lambda>(s, t). s \<in> set nodes \<and> t \<in> set nodes) edges"

lemma csr_rows_nbrs:
  assumes "csr_rows lib es g"
  shows "nbrs lib g u = map snd (filter (\<lambda>e. unat (fst e) = u) es)"
proof (cases "u < csr_node_count lib g")
  case True
  moreover from this have "unat (of_nat u :: u32) = u" using assms by (intro unat_of_nat_u32) (simp add: csr_rows_def)
  ultimately show ?thesis using assms
    by (auto simp: nbrs_def csr_rows_def intro!: arg_cong [where f = "map snd"] filter_cong)
next
  case False
  with assms have "filter (\<lambda>e. unat (fst e) = u) es = []" by (force simp: csr_rows_def filter_empty_conv)
  with False show ?thesis by (simp add: nbrs_def)
qed

lemma csr_rows_edges: "csr_rows lib es g \<Longrightarrow> graph_edges lib g = (\<lambda>(u, v). (unat u, unat v)) ` set es"
  by (force simp: graph_edges_def csr_rows_nbrs)

lemma id_mapping_notin: "x \<notin> set nodes \<Longrightarrow> hm_get (foldl (\<lambda>m (i, node_id). hm_insert node_id (f i) m) m (enumerate n nodes)) x = hm_get m x"
  by (induction nodes arbitrary: m n) (auto simp: hm_simps)

lemma id_mapping_nth:
  "distinct nodes \<Longrightarrow> i < length nodes \<Longrightarrow>
   hm_get (foldl (\<lambda>m (i, node_id). hm_insert node_id (f i) m) m (enumerate n nodes)) (nodes ! i) = Some (f (n + i))"
proof (induction nodes arbitrary: m n i)
  case (Cons x nodes)
  then show ?case by (cases i) (auto simp: id_mapping_notin hm_simps)
qed simp

lemma id_mapping_Some:
  "distinct nodes \<Longrightarrow> hm_get (id_mapping nodes) x = Some j \<longleftrightarrow> (\<exists>i < length nodes. nodes ! i = x \<and> j = of_nat i)"
  unfolding id_mapping_def
  by (cases "x \<in> set nodes") (auto simp: id_mapping_nth id_mapping_notin in_set_conv_nth nth_eq_iff_index_eq)

definition node_index :: "string list \<Rightarrow> string \<Rightarrow> nat" where
  "node_index nodes x = length (takeWhile (\<lambda>y. y \<noteq> x) nodes)"

lemma node_index_nth [simp]: "distinct nodes \<Longrightarrow> i < length nodes \<Longrightarrow> node_index nodes (nodes ! i) = i"
proof (induction nodes arbitrary: i)
  case (Cons x nodes)
  then show ?case by (cases i) (auto simp: node_index_def)
qed simp

lemma node_index_less [simp]: "x \<in> set nodes \<Longrightarrow> node_index nodes x < length nodes"
  unfolding node_index_def by (induction nodes) auto

lemma nth_node_index [simp]: "x \<in> set nodes \<Longrightarrow> nodes ! node_index nodes x = x"
  unfolding node_index_def by (induction nodes) auto

lemma id_mapping_index:
  "distinct nodes \<Longrightarrow> hm_get (id_mapping nodes) x = (if x \<in> set nodes then Some (of_nat (node_index nodes x)) else None)"
  using id_mapping_Some [of nodes x] by (auto simp: in_set_conv_nth) (metis not_Some_eq)

lemma edge_ids_known:
  "distinct nodes \<Longrightarrow>
   edge_ids (id_mapping nodes) edges =
     map (\<lambda>(s, t). (of_nat (node_index nodes s), of_nat (node_index nodes t))) (known_edges nodes edges)"
  by (induction edges) (auto simp: edge_ids_def known_edges_def id_mapping_index map_filter_simps split: if_splits option.splits)

lemma unat_node_index:
  assumes "x \<in> set nodes" "length nodes \<le> 2 ^ 32"
  shows "unat (of_nat (node_index nodes x) :: u32) = node_index nodes x"
  using node_index_less [OF assms(1)] assms(2) by (intro unat_of_nat_u32) simp

lemma node_index_inject: "x \<in> set nodes \<Longrightarrow> y \<in> set nodes \<Longrightarrow> node_index nodes x = node_index nodes y \<longleftrightarrow> x = y"
  by (metis nth_node_index)

lemma edge_ids_distinct:
  assumes "distinct nodes" "length nodes \<le> 2 ^ 32"
  shows "distinct (edge_ids (id_mapping nodes) edges) \<longleftrightarrow> distinct (known_edges nodes edges)"
proof -
  let ?f = "\<lambda>(s, t). (of_nat (node_index nodes s) :: u32, of_nat (node_index nodes t) :: u32)"
  have "inj_on ?f (set (known_edges nodes edges))"
  proof (rule inj_onI)
    fix a b
    assume ab: "a \<in> set (known_edges nodes edges)" "b \<in> set (known_edges nodes edges)" and eq: "?f a = ?f b"
    obtain s t s' t' where p: "a = (s, t)" "b = (s', t')" by fastforce
    with ab have mem: "s \<in> set nodes" "t \<in> set nodes" "s' \<in> set nodes" "t' \<in> set nodes" by (auto simp: known_edges_def)
    from eq p have "unat (of_nat (node_index nodes s) :: u32) = unat (of_nat (node_index nodes s') :: u32)"
      "unat (of_nat (node_index nodes t) :: u32) = unat (of_nat (node_index nodes t') :: u32)" by simp_all
    then show "a = b" using mem p by (simp add: unat_node_index [OF _ assms(2)] node_index_inject)
  qed
  then show ?thesis by (simp add: edge_ids_known [OF assms(1)] distinct_map)
qed

lemma sort_strict: "sorted_wrt (<) (sort xs) \<longleftrightarrow> distinct (xs :: 'a :: linorder list)"
  using strict_sorted_iff [of "sort xs"] by simp

definition indexed_edges :: "string list \<Rightarrow> (string \<times> string) list \<Rightarrow> (nat \<times> nat) set" where
  "indexed_edges nodes edges = (\<lambda>(s, t). (node_index nodes s, node_index nodes t)) ` set (known_edges nodes edges)"

text \<open>A projection of distinct nodes and distinct edges has exactly the given graph.\<close>

lemma from_parts_edges:
  assumes "csr_laws lib" and "distinct nodes" and "length nodes \<le> 2 ^ 32" and "distinct (known_edges nodes edges)"
  shows "graph_edges lib (gp_graph (from_parts lib nodes edges)) = indexed_edges nodes edges"
proof -
  let ?es = "sort (edge_ids (id_mapping nodes) edges)"
  have "csr_rows lib ?es (csr_from_edges lib ?es)"
    using assms by (intro csr_laws_Some) (simp_all add: sort_strict edge_ids_distinct)
  then show ?thesis
    by (force simp: from_parts_def Let_def csr_rows_edges edge_ids_known [OF assms(2)] indexed_edges_def known_edges_def
        unat_node_index [OF _ assms(3)] image_image case_prod_unfold intro!: image_cong)
qed

lemma from_parts_fields [simp]:
  "gp_reverse_map (from_parts lib nodes edges) = nodes" "gp_id_map (from_parts lib nodes edges) = id_mapping nodes"
  "gp_node_count (from_parts lib nodes edges) = length nodes"
  by (simp_all add: from_parts_def Let_def gp_node_count_def)

lemma indexed_edges_bound: "(u, v) \<in> indexed_edges nodes edges \<Longrightarrow> u < length nodes \<and> v < length nodes"
  by (auto simp: indexed_edges_def known_edges_def)

lemma by_node_id_result:
  assumes "gp_reverse_map p = nodes" "distinct nodes" "length nodes \<le> 2 ^ 32" "length xs = length nodes"
  shows "hm_get (by_node_id p xs) x = (if x \<in> set nodes then Some (xs ! node_index nodes x) else None)"
proof -
  have get: "get_node_id p (of_nat i) = Some (nodes ! i)" if "i < length nodes" for i
  proof -
    have "unat (of_nat i :: u32) = i" using that assms(3) by (intro unat_of_nat_u32) simp
    with that assms(1) show ?thesis by (simp add: get_node_id_def)
  qed
  have "hm_get (foldl (\<lambda>result (i, x). case get_node_id p (of_nat i) of None \<Rightarrow> result | Some node_id \<Rightarrow> hm_insert node_id x result) m
          (enumerate n ys)) x =
        (if x \<in> set (take (length ys) (drop n nodes)) then Some (ys ! (node_index nodes x - n)) else hm_get m x)"
    if "n + length ys = length nodes" for ys m n
    using that
  proof (induction ys arbitrary: m n)
    case (Cons y ys)
    then have n: "n < length nodes" by simp
    then have d: "drop n nodes = nodes ! n # drop (Suc n) nodes" by (simp add: Cons_nth_drop_Suc)
    have ni: "nodes ! n \<notin> set (drop (Suc n) nodes)" using assms(2) n by (metis d distinct.simps(2) distinct_drop)
    have "n < node_index nodes x" if "x \<in> set (drop (Suc n) nodes)"
    proof -
      from that obtain k where "k < length nodes - Suc n" "x = drop (Suc n) nodes ! k" by (auto simp: in_set_conv_nth)
      then have "x = nodes ! (Suc n + k)" "Suc n + k < length nodes" by auto
      then show ?thesis using assms(2) by simp
    qed
    then show ?case using Cons.IH [of "Suc n"] Cons.prems n ni assms(2)
      by (auto simp: get d hm_simps nth_Cons' dest: in_set_takeD)
  qed simp
  from this [of 0 xs "[]"] assms(4) show ?thesis by (simp add: by_node_id_def)
qed

section \<open>Repeated edges\<close>

text \<open>Two edges between the same nodes are not unique: the constructor fails and the projection has no edge at all.\<close>

lemma repeated_edge_empties_graph:
  assumes "csr_laws lib" and "distinct nodes" and "length nodes \<le> 2 ^ 32" and "\<not> distinct (known_edges nodes edges)"
  shows "graph_edges lib (gp_graph (from_parts lib nodes edges)) = {}"
proof -
  let ?es = "sort (edge_ids (id_mapping nodes) edges)"
  have "csr_rows lib [] (csr_from_edges lib ?es)" using assms by (intro csr_laws_None) (simp_all add: sort_strict edge_ids_distinct)
  then show ?thesis by (simp add: from_parts_def Let_def csr_rows_edges)
qed

text \<open>So do two relations of different types between the same nodes, when the relations of all types are projected.\<close>

lemma two_relation_types_empty_graph:
  assumes "csr_laws lib" and "2 * length relations \<le> 2 ^ 32" and "\<not> distinct (map (\<lambda>(s, t, w). (s, t)) relations)"
  shows "\<exists>p. from_storage lib (Inr relations) = Inr p \<and> graph_edges lib (gp_graph p) = {}"
proof -
  let ?names = "concat (map (\<lambda>(s, t, w). [s, t]) relations)" and ?pairs = "map (\<lambda>(s, t, w). (s, t)) relations"
  have "set (unique_nodes relations) = set ?names" unfolding unique_nodes_def by (rule set_sorted_list_of_set, rule List.finite_set)
  then have "known_edges (unique_nodes relations) ?pairs = ?pairs"
    unfolding known_edges_def by (intro filter_True) force
  moreover have "length (unique_nodes relations) \<le> length ?names" unfolding unique_nodes_def by (simp only: length_sorted_list_of_set card_length)
  moreover have "length ?names = 2 * length relations" by (induction relations) auto
  ultimately show ?thesis using repeated_edge_empties_graph [OF assms(1), of "unique_nodes relations" ?pairs] assms(2,3)
    by (simp add: from_storage_def unique_nodes_def)
qed

end
