(* ===== verification/Graph_Bfs.thy ===== *)
theory Graph_Bfs
  imports Graph_Projection
begin

text \<open>
  \<open>raisin-graph-algorithms/src/algorithms/bfs.rs\<close>: breadth-first search by levels. The tasks of a level run in parallel and
  claim nodes by compare-and-exchange; an execution of a level is an order of its attempts, chosen by the parameter
  \<open>sched\<close>. The distances are the shortest ones for every schedule.
\<close>

section \<open>The search\<close>

text \<open>One attempt to claim: the distances, and the attempts that have succeeded.\<close>

definition claim_node :: "u64 \<Rightarrow> u32 list \<Rightarrow> u64 list \<times> nat set \<Rightarrow> nat \<Rightarrow> u64 list \<times> nat set" where
  "claim_node next_level targets s i =
     (case s of (distances, won) \<Rightarrow>
        let v = unat (targets ! i)
        in if distances ! v = u64_MAX then (distances[v := next_level], insert i won) else s)"

text \<open>The expansion of a frontier; the claimed nodes are collected in the order of the frontier.\<close>

definition expand_frontier :: "(nat \<Rightarrow> nat list) \<Rightarrow> (nat \<Rightarrow> u32 list) \<Rightarrow> u64 \<Rightarrow> u32 list \<Rightarrow> u64 list \<Rightarrow> u32 list \<times> u64 list" where
  "expand_frontier sched adj next_level frontier distances =
     (let targets = concat (map (\<lambda>u. adj (unat u)) frontier);
          (distances', won) = foldl (claim_node next_level targets) (distances, {}) (sched (length targets))
      in (map (\<lambda>i. targets ! i) (filter (\<lambda>i. i \<in> won) [0..<length targets]), distances'))"

partial_function (option) bfs_loop ::
  "(u64 \<Rightarrow> nat \<Rightarrow> nat list) \<Rightarrow> (nat \<Rightarrow> u32 list) \<Rightarrow> u32 list \<Rightarrow> u64 \<Rightarrow> u64 list \<Rightarrow> u64 list option" where
  "bfs_loop sched adj frontier level distances =
     (if frontier = [] then Some distances
      else case expand_frontier (sched (level + 1)) adj (level + 1) frontier distances of
             (next_frontier, distances') \<Rightarrow> bfs_loop sched adj next_frontier (level + 1) distances')"

definition bfs :: "'g csr_lib \<Rightarrow> (u64 \<Rightarrow> nat \<Rightarrow> nat list) \<Rightarrow> ('g, 'w) graph_projection \<Rightarrow> string \<Rightarrow> (string, u64) hash_map option" where
  "bfs lib sched projection source =
     (if gp_node_count projection = 0 then Some []
      else case get_id projection source of
             None \<Rightarrow> Some []
           | Some source_id \<Rightarrow>
               map_option (by_node_id projection)
                 (bfs_loop sched (nbrs lib (gp_graph projection)) [source_id] 0
                    ((replicate (gp_node_count projection) u64_MAX)[unat source_id := 0])))"

text \<open>A schedule runs every attempt of a level once.\<close>

definition sched_ok :: "(u64 \<Rightarrow> nat \<Rightarrow> nat list) \<Rightarrow> bool" where
  "sched_ok sched \<longleftrightarrow> (\<forall>level n. mset (sched level n) = mset [0..<n])"

lemma sched_okD: "sched_ok sched \<Longrightarrow> distinct (sched level n) \<and> set (sched level n) = {0..<n}"
  unfolding sched_ok_def by (metis atLeastLessThan_upt distinct_upt mset_eq_imp_distinct_iff set_mset_mset)

section \<open>One level\<close>

text \<open>Whatever the order, the nodes claimed are the targets not visited before, each by one attempt.\<close>

lemma claims:
  fixes targets :: "u32 list"
  defines "f \<equiv> \<lambda>i. unat (targets ! i)"
  assumes "f ` set is \<subseteq> {0..<length distances}" and "lv \<noteq> u64_MAX"
    and "foldl (claim_node lv targets) (distances, {}) is = (distances', won)"
  shows "length distances' = length distances \<and>
    (\<forall>v. distances' ! v = (if distances ! v = u64_MAX \<and> v \<in> f ` set is then lv else distances ! v)) \<and>
    f ` won = {v \<in> f ` set is. distances ! v = u64_MAX} \<and> won \<subseteq> set is"
  using assms(2,4)
proof (induction "is" arbitrary: distances' won rule: rev_induct)
  case (snoc i "is")
  obtain d w where dw: "foldl (claim_node lv targets) (distances, {}) is = (d, w)" by fastforce
  have IH: "length d = length distances" "\<And>v. d ! v = (if distances ! v = u64_MAX \<and> v \<in> f ` set is then lv else distances ! v)"
    "f ` w = {v \<in> f ` set is. distances ! v = u64_MAX}" "w \<subseteq> set is" using snoc.IH [OF _ dw] snoc.prems(1) by simp_all
  have v: "f i < length distances" using snoc.prems(1) by auto
  have step: "(distances', won) = (if d ! f i = u64_MAX then (d[f i := lv], insert i w) else (d, w))"
  proof -
    from snoc.prems(2) dw have "claim_node lv targets (d, w) i = (distances', won)" by simp
    then show ?thesis by (simp add: claim_node_def Let_def f_def split: if_splits)
  qed
  show ?case
  proof (cases "d ! f i = u64_MAX")
    case True
    with step have st: "distances' = d[f i := lv]" "won = insert i w" by simp_all
    from True IH(2) assms(3) have "distances ! f i = u64_MAX" by (simp split: if_splits)
    then show ?thesis using IH st v by (auto simp: nth_list_update)
  next
    case False
    with step have st: "distances' = d" "won = w" by simp_all
    from False IH(2) [of "f i"] have "distances ! f i = u64_MAX \<Longrightarrow> f i \<in> f ` set is" by (metis (full_types))
    then show ?thesis using IH st by (auto simp: image_iff)
  qed
qed auto

lemma expand_level:
  assumes "sched_ok sched" and "lv \<noteq> u64_MAX" and "\<forall>u \<in> set frontier. \<forall>v \<in> set (adj (unat u)). unat v < length distances"
    and "expand_frontier (sched lv) adj lv frontier distances = (frontier', distances')"
  defines "fresh \<equiv> {v \<in> (\<Union>u \<in> set frontier. unat ` set (adj (unat u))). distances ! v = u64_MAX}"
  shows "length distances' = length distances" and "unat ` set frontier' = fresh"
    and "distances' ! v = (if v \<in> fresh then lv else distances ! v)"
proof -
  let ?ts = "concat (map (\<lambda>u. adj (unat u)) frontier)"
  obtain won where run: "foldl (claim_node lv ?ts) (distances, {}) (sched lv (length ?ts)) = (distances', won)"
    and front: "frontier' = map (\<lambda>i. ?ts ! i) (filter (\<lambda>i. i \<in> won) [0..<length ?ts])"
    using assms(4) by (auto simp: expand_frontier_def Let_def split: prod.splits)
  have sched: "set (sched lv (length ?ts)) = {0..<length ?ts}" using sched_okD [OF assms(1)] by simp
  have "(\<lambda>i. unat (?ts ! i)) ` {0..<length ?ts} = unat ` set (map ((!) ?ts) [0..<length ?ts])"
    by (simp only: set_map set_upt image_image)
  also have "\<dots> = (\<Union>u \<in> set frontier. unat ` set (adj (unat u)))" by (simp only: map_nth) auto
  finally have hit: "(\<lambda>i. unat (?ts ! i)) ` {0..<length ?ts} = (\<Union>u \<in> set frontier. unat ` set (adj (unat u)))" .
  have "(\<lambda>i. unat (?ts ! i)) ` set (sched lv (length ?ts)) \<subseteq> {0..<length distances}" using assms(3) unfolding sched hit by auto
  note c = claims [OF this assms(2) run, unfolded sched hit]
  show "length distances' = length distances" and "distances' ! v = (if v \<in> fresh then lv else distances ! v)"
    using c by (simp_all add: fresh_def)
  have "won \<subseteq> {0..<length ?ts}" using c by simp
  then have "set (filter (\<lambda>i. i \<in> won) [0..<length ?ts]) = won" by auto
  then have "unat ` set frontier' = (\<lambda>i. unat (?ts ! i)) ` won" unfolding front by (simp only: set_map image_image)
  then show "unat ` set frontier' = fresh" using c unfolding fresh_def by simp
qed

section \<open>Levels of nodes\<close>

definition at_hop :: "('a \<times> 'a) set \<Rightarrow> 'a \<Rightarrow> nat \<Rightarrow> 'a set" where
  "at_hop E s k = {v. (s, v) \<in> E ^^ k \<and> (\<forall>j < k. (s, v) \<notin> E ^^ j)}"

definition hop_distance :: "('a \<times> 'a) set \<Rightarrow> 'a \<Rightarrow> 'a \<Rightarrow> u64" where
  "hop_distance E s v = (if (s, v) \<in> E\<^sup>* then of_nat (LEAST k. (s, v) \<in> E ^^ k) else u64_MAX)"

lemma at_hop_0 [simp]: "at_hop E s 0 = {s}"
  by (auto simp: at_hop_def)

lemma at_hop_least: "v \<in> at_hop E s k \<longleftrightarrow> (s, v) \<in> E\<^sup>* \<and> (LEAST k. (s, v) \<in> E ^^ k) = k"
proof
  assume "v \<in> at_hop E s k"
  then show "(s, v) \<in> E\<^sup>* \<and> (LEAST k. (s, v) \<in> E ^^ k) = k"
    by (auto simp: at_hop_def relpow_imp_rtrancl intro!: Least_equality) (meson not_less)
next
  assume "(s, v) \<in> E\<^sup>* \<and> (LEAST k. (s, v) \<in> E ^^ k) = k"
  moreover from this obtain j where "(s, v) \<in> E ^^ j" using rtrancl_imp_relpow by blast
  ultimately show "v \<in> at_hop E s k" using LeastI [of "\<lambda>k. (s, v) \<in> E ^^ k" j] not_less_Least [of _ "\<lambda>k. (s, v) \<in> E ^^ k"]
    by (auto simp: at_hop_def)
qed

lemma at_hop_disjoint: "v \<in> at_hop E s j \<Longrightarrow> v \<in> at_hop E s k \<Longrightarrow> j = k"
  by (simp add: at_hop_least)

text \<open>The next level: the successors of a level that are on no level yet.\<close>

lemma at_hop_Suc: "at_hop E s (Suc k) = E `` at_hop E s k - (\<Union>j \<le> k. at_hop E s j)"
proof (intro set_eqI iffI)
  fix v
  assume v: "v \<in> at_hop E s (Suc k)"
  then obtain u where u: "(s, u) \<in> E ^^ k" "(u, v) \<in> E" by (auto simp: at_hop_def)
  have "(s, u) \<notin> E ^^ j" if "j < k" for j
    using v u(2) that by (auto simp: at_hop_def) (metis Suc_less_eq relpow_Suc_I)
  with u v show "v \<in> E `` at_hop E s k - (\<Union>j \<le> k. at_hop E s j)" by (auto simp: at_hop_def le_imp_less_Suc)
next
  fix v
  assume v: "v \<in> E `` at_hop E s k - (\<Union>j \<le> k. at_hop E s j)"
  then obtain u where u: "u \<in> at_hop E s k" "(u, v) \<in> E" by blast
  then have r: "(s, v) \<in> E ^^ Suc k" by (auto simp: at_hop_def)
  have "(s, v) \<notin> E ^^ j" if "j < Suc k" for j
  proof
    assume "(s, v) \<in> E ^^ j"
    then have "v \<in> at_hop E s (LEAST k. (s, v) \<in> E ^^ k)" "(LEAST k. (s, v) \<in> E ^^ k) \<le> j"
      by (simp_all add: at_hop_least relpow_imp_rtrancl Least_le)
    with that v show False by auto
  qed
  with r show "v \<in> at_hop E s (Suc k)" by (simp add: at_hop_def)
qed

lemma at_hop_below: "at_hop E s k \<noteq> {} \<Longrightarrow> j \<le> k \<Longrightarrow> at_hop E s j \<noteq> {}"
proof (induction k)
  case (Suc k)
  then show ?case by (cases "j = Suc k") (auto simp: at_hop_Suc)
qed simp

lemma at_hop_length:
  assumes "s < n" and "E \<subseteq> {0..<n} \<times> {0..<n}" and "at_hop E s k \<noteq> {}"
  shows "k < n"
proof -
  have sub: "at_hop E s j \<subseteq> {0..<n}" for j
  proof (cases j)
    case (Suc i)
    then show ?thesis using assms(2) by (auto simp: at_hop_def elim!: relpow_Suc_E)
  qed (simp add: assms(1))
  let ?pick = "\<lambda>j. SOME v. v \<in> at_hop E s j"
  have pick: "?pick j \<in> at_hop E s j" if "j \<le> k" for j using at_hop_below [OF assms(3) that] by (simp add: some_in_eq)
  have "?pick ` {0..k} \<subseteq> {0..<n}"
  proof
    fix v
    assume "v \<in> ?pick ` {0..k}"
    then obtain j where "j \<le> k" "v = ?pick j" by auto
    with pick [of j] sub [of j] show "v \<in> {0..<n}" by blast
  qed
  moreover have "inj_on ?pick {0..k}" using pick by (intro inj_onI) (metis at_hop_disjoint atLeastAtMost_iff)
  ultimately have "card {0..k} \<le> card {0..<n}" by (intro card_inj_on_le [of ?pick]) simp_all
  then show ?thesis by simp
qed

section \<open>The loop\<close>

definition bfs_inv :: "(nat \<times> nat) set \<Rightarrow> nat \<Rightarrow> nat \<Rightarrow> nat \<Rightarrow> u32 list \<Rightarrow> u64 list \<Rightarrow> bool" where
  "bfs_inv E s n k frontier distances \<longleftrightarrow>
     length distances = n \<and> unat ` set frontier = at_hop E s k \<and>
     (\<forall>v < n. distances ! v = (if \<exists>j \<le> k. v \<in> at_hop E s j then of_nat (LEAST j. (s, v) \<in> E ^^ j) else u64_MAX))"

lemma of_nat_not_MAX: "j < 2 ^ 64 - 1 \<Longrightarrow> (of_nat j :: u64) \<noteq> u64_MAX"
proof
  assume j: "j < 2 ^ 64 - 1" and eq: "(of_nat j :: u64) = u64_MAX"
  from j have "unat (of_nat j :: u64) = j" by (simp only: unat_of_nat) simp
  moreover have "unat u64_MAX = 2 ^ 64 - 1" by (simp add: unsigned_minus_1_eq_mask mask_eq_exp_minus_1)
  ultimately show False using j unfolding eq by simp
qed

lemma bfs_inv_step:
  assumes "bfs_inv E s n k frontier distances" and "sched_ok sched" and small: "Suc k < 2 ^ 64 - 1"
    and "\<And>u. unat ` set (adj u) = E `` {u}" and "E \<subseteq> {0..<n} \<times> {0..<n}"
    and "expand_frontier (sched (of_nat (Suc k))) adj (of_nat (Suc k)) frontier distances = (frontier', distances')"
  shows "bfs_inv E s n (Suc k) frontier' distances'"
proof -
  let ?fresh = "{v \<in> (\<Union>u \<in> set frontier. unat ` set (adj (unat u))). distances ! v = u64_MAX}"
  have inv: "length distances = n" "unat ` set frontier = at_hop E s k"
    "\<And>v. v < n \<Longrightarrow> distances ! v = (if \<exists>j \<le> k. v \<in> at_hop E s j then of_nat (LEAST j. (s, v) \<in> E ^^ j) else u64_MAX)"
    using assms(1) by (simp_all add: bfs_inv_def)
  have "\<forall>u \<in> set frontier. \<forall>v \<in> set (adj (unat u)). unat v < length distances"
    using assms(4,5) inv(1) by (metis (no_types, lifting) Image_singleton_iff SigmaD2 atLeastLessThan_iff imageI subsetD)
  note ex = expand_level [OF assms(2) of_nat_not_MAX [OF small] this assms(6)]
  have succs: "(\<Union>u \<in> set frontier. unat ` set (adj (unat u))) = E `` at_hop E s k" unfolding assms(4) inv(2) [symmetric] by auto
  have lt: "v < n" if "v \<in> E `` at_hop E s k" for v using that assms(5) by auto
  have old: "distances ! v = u64_MAX \<longleftrightarrow> (\<forall>j \<le> k. v \<notin> at_hop E s j)" if "v < n" for v
  proof (cases "\<exists>j \<le> k. v \<in> at_hop E s j")
    case True
    then obtain j where j: "j \<le> k" "(LEAST j. (s, v) \<in> E ^^ j) = j" by (auto simp: at_hop_least)
    have "(of_nat j :: u64) \<noteq> u64_MAX" using j(1) small by (intro of_nat_not_MAX) simp
    with inv(3) [OF that] True j show ?thesis by simp
  next
    case False
    with inv(3) [OF that, unfolded if_not_P [OF False]] show ?thesis by simp
  qed
  have fresh: "?fresh = at_hop E s (Suc k)" using old lt unfolding succs at_hop_Suc by auto
  show ?thesis
    unfolding bfs_inv_def
  proof (intro conjI allI impI)
    fix v
    assume v: "v < n"
    show "distances' ! v = (if \<exists>j \<le> Suc k. v \<in> at_hop E s j then of_nat (LEAST j. (s, v) \<in> E ^^ j) else u64_MAX)"
      using ex(3) [of v] inv(3) [OF v] unfolding fresh by (auto simp: le_Suc_eq at_hop_least)
  qed (use ex inv fresh in simp_all)
qed

lemma bfs_loop_correct:
  assumes "bfs_inv E s n k frontier distances" and "sched_ok sched" and "n < 2 ^ 64 - 2" and "s < n"
    and "\<And>u. unat ` set (adj u) = E `` {u}" and "E \<subseteq> {0..<n} \<times> {0..<n}" and "k \<le> n"
  shows "\<exists>ds. bfs_loop sched adj frontier (of_nat k) distances = Some ds \<and> length ds = n \<and> (\<forall>v < n. ds ! v = hop_distance E s v)"
  using assms(1,7)
proof (induction "n - k" arbitrary: k frontier distances rule: less_induct)
  case less
  note inv = less.prems(1)
  show ?case
  proof (cases "frontier = []")
    case True
    with inv have none: "at_hop E s k = {}" by (simp add: bfs_inv_def)
    have "v \<notin> at_hop E s j" if "k \<le> j" for v j using at_hop_below [of E s j k] none that by auto
    then have "(s, v) \<in> E\<^sup>* \<longleftrightarrow> (\<exists>j \<le> k. v \<in> at_hop E s j)" for v by (metis at_hop_least nle_le)
    then have "\<forall>v < n. distances ! v = hop_distance E s v" using inv by (simp add: bfs_inv_def hop_distance_def)
    with True inv show ?thesis by (simp add: bfs_loop.simps bfs_inv_def)
  next
    case False
    then have "at_hop E s k \<noteq> {}" using inv by (auto simp: bfs_inv_def)
    then have k: "k < n" by (rule at_hop_length [OF assms(4,6)])
    obtain f' d' where ex: "expand_frontier (sched (of_nat (Suc k))) adj (of_nat (Suc k)) frontier distances = (f', d')" by fastforce
    have "Suc k < 2 ^ 64 - 1" using k assms(3) by simp
    from less.hyps [OF _ bfs_inv_step [OF inv assms(2) this assms(5,6) ex]] k
    have "\<exists>ds. bfs_loop sched adj f' (of_nat (Suc k)) d' = Some ds \<and> length ds = n \<and> (\<forall>v < n. ds ! v = hop_distance E s v)" by simp
    with False ex show ?thesis by (simp add: bfs_loop.simps [of _ _ frontier] add.commute)
  qed
qed

section \<open>The result\<close>

text \<open>The graph of the input, over names.\<close>

definition named_edges :: "string list \<Rightarrow> (string \<times> string) list \<Rightarrow> (string \<times> string) set" where
  "named_edges nodes edges = set (known_edges nodes edges)"

lemma named_edge_iff:
  "(x, y) \<in> named_edges nodes edges \<longleftrightarrow> x \<in> set nodes \<and> y \<in> set nodes \<and> (node_index nodes x, node_index nodes y) \<in> indexed_edges nodes edges"
  by (auto simp: named_edges_def indexed_edges_def known_edges_def node_index_inject)

lemma named_relpow:
  assumes "x \<in> set nodes"
  shows "(x, y) \<in> named_edges nodes edges ^^ k \<longleftrightarrow> y \<in> set nodes \<and> (node_index nodes x, node_index nodes y) \<in> indexed_edges nodes edges ^^ k"
proof (induction k arbitrary: y)
  case 0
  show ?case using assms by (auto simp: node_index_inject)
next
  case (Suc k)
  have "\<exists>z \<in> set nodes. node_index nodes z = i" if "(i, j) \<in> indexed_edges nodes edges" for i j
    using that by (auto simp: indexed_edges_def known_edges_def)
  with Suc show ?case by (auto simp: named_edge_iff relcomp_unfold) metis
qed

lemma named_hop_distance:
  assumes "x \<in> set nodes" "y \<in> set nodes"
  shows "hop_distance (indexed_edges nodes edges) (node_index nodes x) (node_index nodes y) = hop_distance (named_edges nodes edges) x y"
  using assms by (simp add: hop_distance_def named_relpow rtrancl_power)


text \<open>A path of two edges and a node that is not reached, with the attempts of a level run in reverse.\<close>

definition reverse_sched :: "u64 \<Rightarrow> nat \<Rightarrow> nat list" where
  "reverse_sched level n = rev [0..<n]"

lemma reverse_sched_ok [simp]: "sched_ok reverse_sched"
  by (simp add: sched_ok_def reverse_sched_def)


end
