(* ===== verification/Graph_Undirected.thy ===== *)
theory Graph_Undirected
  imports Graph_Projection
begin

text \<open>
  The undirected neighbours of a graph, as \<open>wcc.rs\<close>, \<open>triangle.rs\<close>, \<open>lcc.rs\<close> and \<open>cdlp.rs\<close> build them from the forward
  edges. A list of lists is updated at both ends of every edge; weakly connected components keep self-loops,
  triangles drop them, label propagation keeps repeated neighbours.
\<close>

definition push_at :: "nat \<Rightarrow> 'a \<Rightarrow> 'a list list \<Rightarrow> 'a list list" where
  "push_at i x xss = xss[i := xss ! i @ [x]]"

definition push_edge :: "nat \<times> u32 \<Rightarrow> u32 list list \<Rightarrow> u32 list list" where
  "push_edge e adj = (case e of (u, v) \<Rightarrow> push_at (unat v) (of_nat u) (push_at u v adj))"

text \<open>The two nested loops over the forward edges, with the test that skips an edge.\<close>

definition undirected :: "(nat \<Rightarrow> u32 list) \<Rightarrow> (nat \<times> u32 \<Rightarrow> bool) \<Rightarrow> nat \<Rightarrow> u32 list list" where
  "undirected fwd keep node_count =
     fold push_edge (filter keep (concat (map (\<lambda>u. map (\<lambda>v. (u, v)) (fwd u)) [0..<node_count]))) (replicate node_count [])"

definition sort_dedup :: "u32 list list \<Rightarrow> u32 list list" where
  "sort_dedup adj = map (\<lambda>neighbors. remdups_adj (sort neighbors)) adj"

lemma length_push_edge [simp]: "length (push_edge e adj) = length adj"
  by (simp add: push_edge_def push_at_def case_prod_unfold)

lemma length_fold_push_edge [simp]: "length (fold push_edge es adj) = length adj"
  by (induction es arbitrary: adj) simp_all

lemma length_undirected [simp]: "length (undirected fwd keep n) = n"
  by (simp add: undirected_def)

lemma set_push_at: "i < length xss \<Longrightarrow> set (push_at i x xss ! j) = set (xss ! j) \<union> (if i = j then {x} else {})"
  by (auto simp: push_at_def nth_list_update)

lemma set_fold_push_edge:
  assumes "\<forall>(u, v) \<in> set es. u < length adj \<and> unat v < length adj"
  shows "unat ` set (fold push_edge es adj ! i) =
    unat ` set (adj ! i) \<union> {unat v | v. (i, v) \<in> set es} \<union> {unat (of_nat u :: u32) | u v. (u, v) \<in> set es \<and> unat v = i}"
  using assms
proof (induction es arbitrary: adj)
  case (Cons e es)
  obtain u v where e: "e = (u, v)" by fastforce
  with Cons.prems have "unat ` set (push_edge e adj ! i) =
      unat ` set (adj ! i) \<union> (if u = i then {unat v} else {}) \<union> (if unat v = i then {unat (of_nat u :: u32)} else {})"
    by (auto simp: push_edge_def set_push_at push_at_def nth_list_update)
  with Cons.IH [of "push_edge e adj"] Cons.prems show ?case unfolding e by (auto split: if_splits)
qed simp

lemma set_undirected:
  assumes "\<forall>u < n. \<forall>v \<in> set (fwd u). unat v < n" and "n \<le> 2 ^ 32" and "i < n"
  shows "unat ` set (undirected fwd keep n ! i) =
    {j. \<exists>v \<in> set (fwd i). keep (i, v) \<and> unat v = j} \<union> {j. j < n \<and> (\<exists>v \<in> set (fwd j). keep (j, v) \<and> unat v = i)}"
proof -
  let ?es = "filter keep (concat (map (\<lambda>u. map (\<lambda>v. (u, v)) (fwd u)) [0..<n]))"
  have mem: "(u, v) \<in> set ?es \<longleftrightarrow> u < n \<and> v \<in> set (fwd u) \<and> keep (u, v)" for u v by auto
  have "\<forall>(u, v) \<in> set ?es. u < length (replicate n ([] :: u32 list)) \<and> unat v < length (replicate n ([] :: u32 list))"
    using assms(1) by auto
  from set_fold_push_edge [OF this, of i] show ?thesis
    using assms(2,3) unfolding undirected_def mem by (auto simp: unat_of_nat_u32)
qed

lemma strict_remdups_adj: "sorted xs \<Longrightarrow> sorted_wrt (<) (remdups_adj xs)" for xs :: "'a :: linorder list"
  by (induction xs rule: remdups_adj.induct) (auto simp: remdups_adj_set less_le)

lemma sort_dedup_nth [simp]:
  "length (sort_dedup adj) = length adj"
  "i < length adj \<Longrightarrow> set (sort_dedup adj ! i) = set (adj ! i)"
  "i < length adj \<Longrightarrow> sorted_wrt (<) (sort_dedup adj ! i)"
  by (simp_all add: sort_dedup_def strict_remdups_adj)

text \<open>The undirected neighbours of a projection of distinct nodes and edges.\<close>

lemma projection_undirected:
  fixes lib :: "'g csr_lib"
  assumes "csr_laws lib" and "distinct nodes" and "length nodes \<le> 2 ^ 32" and "distinct (known_edges nodes edges)" and "i < length nodes"
    and "\<And>u v. keep (u, v) \<longleftrightarrow> loops \<or> u \<noteq> unat v"
  defines "E \<equiv> indexed_edges nodes edges"
  shows "unat ` set (undirected (nbrs lib (gp_graph (from_parts lib nodes edges :: ('g, 'w) graph_projection))) keep (length nodes) ! i) =
    {j. ((i, j) \<in> E \<or> (j, i) \<in> E) \<and> (loops \<or> i \<noteq> j)}"
proof -
  let ?fwd = "nbrs lib (gp_graph (from_parts lib nodes edges :: ('g, 'w) graph_projection))"
  have E: "(u, v) \<in> E \<longleftrightarrow> (\<exists>w \<in> set (?fwd u). unat w = v)" for u v
    unfolding E_def from_parts_edges [OF assms(1-4), where ?'b = 'w, symmetric] by (simp add: graph_edges_def)
  have "\<forall>u < length nodes. \<forall>v \<in> set (?fwd u). unat v < length nodes"
    using E indexed_edges_bound unfolding E_def by blast
  moreover have "j < length nodes" if "(j, i) \<in> E" for j using that unfolding E_def by (auto dest: indexed_edges_bound)
  ultimately have bounds: "\<forall>u < length nodes. \<forall>v \<in> set (?fwd u). unat v < length nodes" "\<And>j. (j, i) \<in> E \<Longrightarrow> j < length nodes" by blast+
  have "{j. \<exists>v \<in> set (?fwd i). keep (i, v) \<and> unat v = j} = {j. (i, j) \<in> E \<and> (loops \<or> i \<noteq> j)}" by (auto simp: assms(6) E)
  moreover have "{j. j < length nodes \<and> (\<exists>v \<in> set (?fwd j). keep (j, v) \<and> unat v = i)} = {j. (j, i) \<in> E \<and> (loops \<or> i \<noteq> j)}"
    using bounds(2) unfolding assms(6) E by (intro Collect_cong) metis
  ultimately show ?thesis using set_undirected [OF bounds(1) assms(3,5), of keep] by auto
qed

end
