(* ===== verification/Graph_Wcc.thy ===== *)
theory Graph_Wcc
  imports Graph_Undirected
begin

text \<open>
  \<open>raisin-graph-algorithms/src/algorithms/community/wcc.rs\<close>: weakly connected components by propagation of the least label.
  The tasks of a round share the labels: an execution interleaves their atomic accesses (\<open>wcc_step\<close>), and a round in which a
  task has signalled a change is followed by another. Every execution ends, and its labels are the least nodes of the
  components.
\<close>

section \<open>Tasks and rounds\<close>

text \<open>A task: before its first load, with its minimum so far and the neighbours left, before and after its store, ended.\<close>

datatype wcc_task = Begin | Scan u32 "u32 list" | Store u32 | Signal | Done

record wcc_state =
  wcc_labels :: "u32 list"
  wcc_changed :: bool
  wcc_tasks :: "wcc_task list"

definition task_step :: "u32 list list \<Rightarrow> nat \<Rightarrow> wcc_state \<Rightarrow> wcc_state" where
  "task_step adj u s =
     (let labels = wcc_labels s; goto = (\<lambda>t. s\<lparr>wcc_tasks := (wcc_tasks s)[u := t]\<rparr>)
      in case wcc_tasks s ! u of
           Begin \<Rightarrow> goto (Scan (labels ! u) (adj ! u))
         | Scan min_label (v # vs) \<Rightarrow>
             let v_label = labels ! unat v
             in goto (Scan (if v_label < min_label then v_label else min_label) vs)
         | Scan min_label [] \<Rightarrow> goto (if min_label < labels ! u then Store min_label else Done)
         | Store min_label \<Rightarrow> (goto Signal)\<lparr>wcc_labels := labels[u := min (labels ! u) min_label]\<rparr>
         | Signal \<Rightarrow> (goto Done)\<lparr>wcc_changed := True\<rparr>
         | Done \<Rightarrow> s)"

definition round_start :: "u32 list \<Rightarrow> wcc_state" where
  "round_start labels = \<lparr>wcc_labels = labels, wcc_changed = False, wcc_tasks = replicate (length labels) Begin\<rparr>"

definition round_over :: "wcc_state \<Rightarrow> bool" where
  "round_over s \<longleftrightarrow> (\<forall>t \<in> set (wcc_tasks s). t = Done)"

inductive wcc_step :: "u32 list list \<Rightarrow> wcc_state \<Rightarrow> wcc_state \<Rightarrow> bool" for adj where
  task: "u < length (wcc_tasks s) \<Longrightarrow> wcc_tasks s ! u \<noteq> Done \<Longrightarrow> wcc_step adj s (task_step adj u s)"
| next_round: "round_over s \<Longrightarrow> wcc_changed s \<Longrightarrow> wcc_step adj s (round_start (wcc_labels s))"

definition wcc_adjacency :: "'g csr_lib \<Rightarrow> ('g, 'w) graph_projection \<Rightarrow> u32 list list" where
  "wcc_adjacency lib projection = sort_dedup (undirected (nbrs lib (gp_graph projection)) (\<lambda>_. True) (gp_node_count projection))"

definition wcc_init :: "nat \<Rightarrow> wcc_state" where
  "wcc_init node_count = round_start (map of_nat [0..<node_count])"

text \<open>A run of the whole function: the loop has ended, and the labels are mapped back to names.\<close>

definition wcc_returns :: "'g csr_lib \<Rightarrow> ('g, 'w) graph_projection \<Rightarrow> (string, u32) hash_map \<Rightarrow> bool" where
  "wcc_returns lib projection res \<longleftrightarrow>
     (if gp_node_count projection = 0 then res = []
      else \<exists>s. (wcc_step (wcc_adjacency lib projection))\<^sup>*\<^sup>* (wcc_init (gp_node_count projection)) s \<and> round_over s \<and> \<not> wcc_changed s \<and>
               res = by_node_id projection (wcc_labels s))"

section \<open>Every execution ends\<close>

fun task_work :: "u32 list list \<Rightarrow> nat \<Rightarrow> wcc_task \<Rightarrow> nat" where
  "task_work adj u Begin = length (adj ! u) + 4"
| "task_work adj u (Scan m vs) = length vs + 3"
| "task_work adj u (Store m) = 2"
| "task_work adj u Signal = 1"
| "task_work adj u Done = 0"

definition work :: "u32 list list \<Rightarrow> wcc_task list \<Rightarrow> nat" where
  "work adj ts = sum_list (map (\<lambda>u. task_work adj u (ts ! u)) [0..<length ts])"

definition credit :: "wcc_state \<Rightarrow> bool" where
  "credit s \<longleftrightarrow> wcc_changed s \<or> Signal \<in> set (wcc_tasks s)"

definition potential :: "u32 list list \<Rightarrow> wcc_state \<Rightarrow> nat" where
  "potential adj s =
     (sum_list (map unat (wcc_labels s)) + (if credit s then 1 else 0)) *
       (work adj (replicate (length (wcc_labels s)) Begin) + 1) + work adj (wcc_tasks s)"

text \<open>What holds of the shape of a state: a label per task, and a store that lowers the label it is about to write.\<close>

definition wcc_shape :: "wcc_state \<Rightarrow> bool" where
  "wcc_shape s \<longleftrightarrow> length (wcc_tasks s) = length (wcc_labels s) \<and>
     (\<forall>u m. u < length (wcc_tasks s) \<longrightarrow> wcc_tasks s ! u = Store m \<longrightarrow> m < wcc_labels s ! u)"

lemma task_step_cases:
  assumes "u < length (wcc_tasks s)" and "wcc_tasks s ! u \<noteq> Done"
  obtains (load) t where "task_step adj u s = s\<lparr>wcc_tasks := (wcc_tasks s)[u := t]\<rparr>"
      "task_work adj u t < task_work adj u (wcc_tasks s ! u)" "t \<noteq> Signal" "wcc_tasks s ! u \<noteq> Signal"
      "\<And>m. t = Store m \<Longrightarrow> m < wcc_labels s ! u"
  | (store) m where "wcc_tasks s ! u = Store m"
      "task_step adj u s = s\<lparr>wcc_tasks := (wcc_tasks s)[u := Signal], wcc_labels := (wcc_labels s)[u := min (wcc_labels s ! u) m]\<rparr>"
  | (signal) "wcc_tasks s ! u = Signal" "task_step adj u s = s\<lparr>wcc_tasks := (wcc_tasks s)[u := Done], wcc_changed := True\<rparr>"
proof (cases "wcc_tasks s ! u")
  case Begin
  then show ?thesis by (intro load [of "Scan (wcc_labels s ! u) (adj ! u)"]) (simp_all add: task_step_def Let_def)
next
  case (Scan m vs)
  show ?thesis
  proof (cases vs)
    case Nil
    with Scan show ?thesis
      by (intro load [of "if m < wcc_labels s ! u then Store m else Done"]) (simp_all add: task_step_def Let_def split: if_splits)
  next
    case (Cons v vs')
    let ?l = "wcc_labels s ! unat v"
    show ?thesis using Scan Cons by (intro load [of "Scan (if ?l < m then ?l else m) vs'"]) (simp_all add: task_step_def Let_def)
  qed
next
  case (Store m)
  then show ?thesis by (intro store) (simp_all add: task_step_def Let_def)
next
  case Signal
  then show ?thesis by (intro signal) (simp_all add: task_step_def Let_def)
qed (use assms in simp)

lemma work_update:
  assumes "u < length ts"
  shows "work adj (ts[u := t]) + task_work adj u (ts ! u) = work adj ts + task_work adj u t"
proof -
  have "work adj xs = task_work adj u (xs ! u) + (\<Sum>i \<in> {0..<length xs} - {u}. task_work adj i (xs ! i))" if "u < length xs" for xs
    using that by (simp add: work_def interv_sum_list_conv_sum_set_nat sum.remove)
  from this [of ts] this [of "ts[u := t]"] assms show ?thesis by (simp add: nth_list_update)
qed

lemma sum_labels_update:
  assumes "u < length xs"
  shows "sum_list (map unat (xs[u := x])) + unat (xs ! u) = sum_list (map unat xs) + unat (x :: u32)"
  using assms by (induction xs arbitrary: u) (auto split: nat.splits)

lemma wcc_shape_step: "wcc_step adj s s' \<Longrightarrow> wcc_shape s \<Longrightarrow> wcc_shape s'"
proof (induction rule: wcc_step.induct)
  case (task u s)
  from task(1,2) show ?case
  proof (cases rule: task_step_cases [where adj = adj])
    case (load t)
    with task show ?thesis by (auto simp: wcc_shape_def nth_list_update)
  next
    case (store m)
    with task show ?thesis by (auto simp: wcc_shape_def nth_list_update)
  next
    case signal
    with task show ?thesis by (auto simp: wcc_shape_def nth_list_update)
  qed
qed (simp add: wcc_shape_def round_start_def)

lemma potential_less:
  assumes "length (wcc_labels s') = length (wcc_labels s)" and "work adj (wcc_tasks s') < work adj (wcc_tasks s)"
    and "sum_list (map unat (wcc_labels s')) + (if credit s' then 1 else 0) \<le> sum_list (map unat (wcc_labels s)) + (if credit s then 1 else 0)"
  shows "potential adj s' < potential adj s"
  unfolding potential_def assms(1) by (rule add_le_less_mono [OF mult_le_mono1 [OF assms(3)] assms(2)])

lemma potential_decreases: "wcc_step adj s s' \<Longrightarrow> wcc_shape s \<Longrightarrow> potential adj s' < potential adj s"
proof (induction rule: wcc_step.induct)
  case (task u s)
  from task(1,2) show ?case
  proof (cases rule: task_step_cases [where adj = adj])
    case (load t)
    then have "Signal \<in> set ((wcc_tasks s)[u := t]) \<longleftrightarrow> Signal \<in> set (wcc_tasks s)"
      using task(1) by (metis (no_types, lifting) in_set_conv_nth length_list_update nth_list_update)
    with load work_update [OF task(1), of adj t] show ?thesis by (simp add: potential_def credit_def)
  next
    case (store m)
    then have "m < wcc_labels s ! u" using task by (auto simp: wcc_shape_def)
    then have m: "min (wcc_labels s ! u) m = m" "unat m < unat (wcc_labels s ! u)" by (rule min.absorb4, rule unat_mono)
    have u: "u < length (wcc_labels s)" using task by (simp add: wcc_shape_def)
    have "sum_list (map unat (wcc_labels (task_step adj u s))) < sum_list (map unat (wcc_labels s))"
      using store(2) m sum_labels_update [OF u, of m] by simp
    moreover have "work adj (wcc_tasks (task_step adj u s)) < work adj (wcc_tasks s)"
      using store work_update [OF task(1), of adj Signal] by simp
    ultimately show ?thesis using store(2) by (intro potential_less) (auto split: if_splits)
  next
    case signal
    then have "work adj (wcc_tasks (task_step adj u s)) < work adj (wcc_tasks s)"
      using work_update [OF task(1), of adj Done] by simp
    moreover have "credit s" using signal(1) task(1) by (metis credit_def nth_mem)
    ultimately show ?thesis using signal(2) by (intro potential_less) simp_all
  qed
next
  case (next_round s)
  then have "credit s" "length (wcc_tasks s) = length (wcc_labels s)" by (simp_all add: credit_def wcc_shape_def)
  then show ?case by (simp add: potential_def round_start_def credit_def)
qed

lemma wcc_init_shape: "wcc_shape (wcc_init n)"
  by (simp add: wcc_shape_def wcc_init_def round_start_def)

lemma wcc_reach_shape: "(wcc_step adj)\<^sup>*\<^sup>* (wcc_init n) s \<Longrightarrow> wcc_shape s"
  by (induction rule: rtranclp_induct) (auto intro: wcc_init_shape wcc_shape_step)

lemma wcc_terminates: "wfP (\<lambda>s' s. (wcc_step adj)\<^sup>*\<^sup>* (wcc_init n) s \<and> wcc_step adj s s')"
  by (rule wfp_if_convertible_to_nat [where f = "potential adj"]) (auto intro: potential_decreases wcc_reach_shape)

lemma wcc_progress: "(\<exists>s'. wcc_step adj s s') \<or> (round_over s \<and> \<not> wcc_changed s)"
  by (metis in_set_conv_nth round_over_def wcc_step.intros)

section \<open>The labels\<close>

definition linked :: "u32 list list \<Rightarrow> (nat \<times> nat) set" where
  "linked adj = {(u, v). u < length adj \<and> v \<in> unat ` set (adj ! u)}"

text \<open>A label of a node: a node of its component that is not above it.\<close>

definition label_ok :: "u32 list list \<Rightarrow> nat \<Rightarrow> u32 \<Rightarrow> bool" where
  "label_ok adj u m \<longleftrightarrow> (u, unat m) \<in> (linked adj)\<^sup>* \<and> unat m \<le> u"

fun task_ok :: "u32 list list \<Rightarrow> nat \<Rightarrow> wcc_task \<Rightarrow> bool" where
  "task_ok adj u (Scan m vs) \<longleftrightarrow> set vs \<subseteq> set (adj ! u) \<and> (u, unat m) \<in> (linked adj)\<^sup>* "
| "task_ok adj u (Store m) \<longleftrightarrow> (u, unat m) \<in> (linked adj)\<^sup>*"
| "task_ok adj u _ \<longleftrightarrow> True"

fun task_settled :: "u32 list list \<Rightarrow> u32 list \<Rightarrow> nat \<Rightarrow> wcc_task \<Rightarrow> bool" where
  "task_settled adj labels u (Scan m vs) \<longleftrightarrow>
     m \<le> labels ! u \<and> (\<exists>done_part. adj ! u = done_part @ vs \<and> (\<forall>v \<in> set done_part. m \<le> labels ! unat v))"
| "task_settled adj labels u Done \<longleftrightarrow> (\<forall>v \<in> set (adj ! u). labels ! u \<le> labels ! unat v)"
| "task_settled adj labels u _ \<longleftrightarrow> True"

definition wcc_inv :: "u32 list list \<Rightarrow> wcc_state \<Rightarrow> bool" where
  "wcc_inv adj s \<longleftrightarrow> wcc_shape s \<and> length (wcc_labels s) = length adj \<and>
     (\<forall>u < length adj. label_ok adj u (wcc_labels s ! u) \<and> task_ok adj u (wcc_tasks s ! u)) \<and>
     (\<not> credit s \<longrightarrow> (\<forall>u < length adj. task_settled adj (wcc_labels s) u (wcc_tasks s ! u)))"

definition undirected_adj :: "u32 list list \<Rightarrow> bool" where
  "undirected_adj adj \<longleftrightarrow> sym (linked adj) \<and> (\<forall>u < length adj. \<forall>v \<in> set (adj ! u). unat v < length adj)"

lemma linked_nbr: "u < length adj \<Longrightarrow> v \<in> set (adj ! u) \<Longrightarrow> (u, unat v) \<in> linked adj"
  by (auto simp: linked_def)

lemma wcc_invD:
  assumes "wcc_inv adj s"
  shows "wcc_shape s" "length (wcc_labels s) = length adj" "length (wcc_tasks s) = length adj"
    "u < length adj \<Longrightarrow> label_ok adj u (wcc_labels s ! u)" "u < length adj \<Longrightarrow> task_ok adj u (wcc_tasks s ! u)"
    "\<not> credit s \<Longrightarrow> u < length adj \<Longrightarrow> task_settled adj (wcc_labels s) u (wcc_tasks s ! u)"
  using assms by (simp_all add: wcc_inv_def wcc_shape_def)

lemma credit_update:
  assumes "\<not> credit (s\<lparr>wcc_tasks := (wcc_tasks s)[u := t]\<rparr>)" and "wcc_tasks s ! u \<noteq> Signal"
  shows "\<not> credit s"
  using assms by (auto simp: credit_def) (metis in_set_conv_nth length_list_update nth_list_update_neq)

lemma wcc_inv_load:
  assumes "wcc_inv adj s" and "u < length adj" and "wcc_tasks s ! u \<noteq> Signal" and "wcc_shape (s\<lparr>wcc_tasks := (wcc_tasks s)[u := t]\<rparr>)"
    and "task_ok adj u t" and "\<not> credit s \<Longrightarrow> task_settled adj (wcc_labels s) u t"
  shows "wcc_inv adj (s\<lparr>wcc_tasks := (wcc_tasks s)[u := t]\<rparr>)"
  using assms credit_update [of s u t] by (auto simp: wcc_inv_def wcc_shape_def nth_list_update)

lemma task_next:
  assumes "wcc_inv adj s" and "undirected_adj adj" and "u < length adj" and "wcc_tasks s ! u = Scan m vs"
    and "task_step adj u s = s\<lparr>wcc_tasks := (wcc_tasks s)[u := t]\<rparr>"
    and "t = (case vs of [] \<Rightarrow> if m < wcc_labels s ! u then Store m else Done
                       | v # vs' \<Rightarrow> let l = wcc_labels s ! unat v in Scan (if l < m then l else m) vs')"
  shows "task_ok adj u t" and "\<not> credit s \<Longrightarrow> task_settled adj (wcc_labels s) u t"
proof -
  have ok: "task_ok adj u (Scan m vs)" "\<And>v. v < length adj \<Longrightarrow> label_ok adj v (wcc_labels s ! v)"
    using wcc_invD(4,5) [OF assms(1)] assms(3,4) by metis+
  show "task_ok adj u t"
  proof (cases vs)
    case (Cons v vs')
    with ok have v: "v \<in> set (adj ! u)" by simp
    then have "unat v < length adj" using assms(2,3) by (simp add: undirected_adj_def)
    with ok(2) linked_nbr [OF assms(3) v] have "(u, unat (wcc_labels s ! unat v)) \<in> (linked adj)\<^sup>*"
      by (meson converse_rtrancl_into_rtrancl label_ok_def)
    with ok(1) Cons show ?thesis by (simp add: assms(6) Let_def)
  qed (use ok in \<open>simp add: assms(6)\<close>)
  assume "\<not> credit s"
  then obtain dp where dp: "m \<le> wcc_labels s ! u" "adj ! u = dp @ vs" "\<forall>v \<in> set dp. m \<le> wcc_labels s ! unat v"
    using wcc_invD(6) [OF assms(1) _ assms(3)] assms(4) by auto
  show "task_settled adj (wcc_labels s) u t"
  proof (cases vs)
    case Nil
    with dp show ?thesis by (auto simp: assms(6) not_less intro: order_trans)
  next
    case (Cons v vs')
    let ?l = "wcc_labels s ! unat v"
    have "adj ! u = (dp @ [v]) @ vs'" "\<forall>w \<in> set (dp @ [v]). (if ?l < m then ?l else m) \<le> wcc_labels s ! unat w"
      using dp Cons by (auto simp: not_less)
    with dp(1) Cons show ?thesis by (auto simp: assms(6) Let_def not_less)
  qed
qed

lemma wcc_inv_task:
  assumes "wcc_inv adj s" and "undirected_adj adj" and "u < length (wcc_tasks s)" and "wcc_tasks s ! u \<noteq> Done"
  shows "wcc_inv adj (task_step adj u s)"
proof -
  have shape: "wcc_shape (task_step adj u s)" by (rule wcc_shape_step [OF wcc_step.task [OF assms(3,4)] wcc_invD(1) [OF assms(1)]])
  have u: "u < length adj" using assms(3) wcc_invD(3) [OF assms(1)] by simp
  note lbl = wcc_invD(4) [OF assms(1) u] and ok = wcc_invD(5) [OF assms(1) u]
  show ?thesis
  proof (cases "wcc_tasks s ! u")
    case Begin
    let ?t = "Scan (wcc_labels s ! u) (adj ! u)"
    have st: "task_step adj u s = s\<lparr>wcc_tasks := (wcc_tasks s)[u := ?t]\<rparr>" using Begin by (simp add: task_step_def Let_def)
    show ?thesis
      using wcc_inv_load [OF assms(1) u _ shape [unfolded st]] Begin lbl by (simp add: st label_ok_def)
  next
    case (Scan m vs)
    let ?t = "case vs of [] \<Rightarrow> if m < wcc_labels s ! u then Store m else Done
                | v # vs' \<Rightarrow> let l = wcc_labels s ! unat v in Scan (if l < m then l else m) vs'"
    have st: "task_step adj u s = s\<lparr>wcc_tasks := (wcc_tasks s)[u := ?t]\<rparr>"
      using Scan by (cases vs) (simp_all add: task_step_def Let_def)
    show ?thesis
      using wcc_inv_load [OF assms(1) u _ shape [unfolded st] task_next [OF assms(1,2) u Scan st refl]] Scan by (simp add: st)
  next
    case (Store m)
    then have m: "m < wcc_labels s ! u" "(u, unat m) \<in> (linked adj)\<^sup>*"
      using wcc_invD(1) [OF assms(1)] assms(3) ok by (auto simp: wcc_shape_def)
    moreover have "unat m \<le> u" using lbl unat_mono [OF m(1)] by (simp add: label_ok_def)
    ultimately have "label_ok adj u (min (wcc_labels s ! u) m)" unfolding min.absorb4 [OF m(1)] by (simp add: label_ok_def)
    moreover have "credit (task_step adj u s)" using Store assms(3) by (auto simp: task_step_def Let_def credit_def intro: set_update_memI)
    ultimately show ?thesis using assms(1,3) u Store shape unfolding wcc_inv_def
      by (auto simp: task_step_def Let_def nth_list_update)
  next
    case Signal
    moreover from this have "credit (task_step adj u s)" by (auto simp: task_step_def Let_def credit_def)
    ultimately show ?thesis using assms(1,3) u shape unfolding wcc_inv_def
      by (auto simp: task_step_def Let_def nth_list_update)
  qed (use assms in simp)
qed

lemma wcc_inv_step: "wcc_step adj s s' \<Longrightarrow> undirected_adj adj \<Longrightarrow> wcc_inv adj s \<Longrightarrow> wcc_inv adj s'"
proof (induction rule: wcc_step.induct)
  case (next_round s)
  then show ?case by (simp add: wcc_inv_def round_start_def wcc_shape_def)
qed (simp add: wcc_inv_task)

lemma final_labels:
  assumes "wcc_inv adj s" and "undirected_adj adj" and "round_over s" and "\<not> wcc_changed s" and "u < length adj"
  shows "unat (wcc_labels s ! u) = Min {v. (u, v) \<in> (linked adj)\<^sup>*}"
proof -
  have over: "wcc_tasks s ! v = Done" if "v < length adj" for v
    using assms(3) that wcc_invD(3) [OF assms(1)] by (simp add: round_over_def)
  have "\<not> credit s" using assms(3,4) by (auto simp: credit_def round_over_def)
  then have le: "wcc_labels s ! v \<le> wcc_labels s ! w" if "(v, w) \<in> linked adj" for v w
    using wcc_invD(6) [OF assms(1), of v] over [of v] that by (auto simp: linked_def)
  have eq: "wcc_labels s ! v = wcc_labels s ! w" if "(v, w) \<in> linked adj" for v w
    using le [OF that] le [of w v] that assms(2) by (auto simp: undirected_adj_def dest: symD)
  have reach: "v < length adj \<and> wcc_labels s ! v = wcc_labels s ! u" if "(u, v) \<in> (linked adj)\<^sup>*" for v
    using that
  proof (induction rule: rtrancl_induct)
    case (step v w)
    then have "w < length adj" using assms(2) by (auto simp: linked_def undirected_adj_def)
    with step eq [of v w] show ?case by simp
  qed (simp add: assms(5))
  show ?thesis
  proof (rule Min_eqI [symmetric])
    show "finite {v. (u, v) \<in> (linked adj)\<^sup>*}" using reach by (auto intro: finite_subset [of _ "{0..<length adj}"])
    show "unat (wcc_labels s ! u) \<in> {v. (u, v) \<in> (linked adj)\<^sup>*}" using wcc_invD(4) [OF assms(1,5)] by (simp add: label_ok_def)
    show "unat (wcc_labels s ! u) \<le> v" if "v \<in> {v. (u, v) \<in> (linked adj)\<^sup>*}" for v
      using reach [of v] wcc_invD(4) [OF assms(1), of v] that by (simp add: label_ok_def)
  qed
qed

lemma wcc_init_inv:
  assumes "length adj \<le> 2 ^ 32"
  shows "wcc_inv adj (wcc_init (length adj))"
  using assms by (auto simp: wcc_inv_def wcc_init_def round_start_def wcc_shape_def label_ok_def unat_of_nat_u32)

lemma wcc_reach_inv: "(wcc_step adj)\<^sup>*\<^sup>* (wcc_init (length adj)) s \<Longrightarrow> undirected_adj adj \<Longrightarrow> length adj \<le> 2 ^ 32 \<Longrightarrow> wcc_inv adj s"
  by (induction rule: rtranclp_induct) (auto intro: wcc_init_inv wcc_inv_step)

lemma wcc_ends: "\<exists>s. (wcc_step adj)\<^sup>*\<^sup>* (wcc_init n) s \<and> round_over s \<and> \<not> wcc_changed s"
proof -
  have "(wcc_step adj)\<^sup>*\<^sup>* (wcc_init n) s \<Longrightarrow> \<exists>s'. (wcc_step adj)\<^sup>*\<^sup>* s s' \<and> round_over s' \<and> \<not> wcc_changed s'" for s
  proof (induction s rule: wfp_induct [OF wcc_terminates [of adj n]])
    case (1 s)
    from wcc_progress [of adj s] show ?case
    proof
      assume "\<exists>s'. wcc_step adj s s'"
      then obtain s' where "wcc_step adj s s'" ..
      moreover from this 1(2) have "(wcc_step adj)\<^sup>*\<^sup>* (wcc_init n) s'" by simp
      ultimately show ?thesis using 1 by (meson converse_rtranclp_into_rtranclp)
    qed (use 1 in blast)
  qed
  then show ?thesis by blast
qed

section \<open>The result\<close>

definition weakly_connected :: "string list \<Rightarrow> (string \<times> string) list \<Rightarrow> string \<Rightarrow> string \<Rightarrow> bool" where
  "weakly_connected nodes edges x y \<longleftrightarrow> (x, y) \<in> (set (known_edges nodes edges) \<union> (set (known_edges nodes edges))\<inverse>)\<^sup>*"

lemma linked_adjacency:
  assumes "csr_laws lib" and "distinct nodes" and "length nodes \<le> 2 ^ 32" and "distinct (known_edges nodes edges)"
  defines "adj \<equiv> wcc_adjacency lib (from_parts lib nodes edges :: ('g, 'w) graph_projection)"
  shows "linked adj = indexed_edges nodes edges \<union> (indexed_edges nodes edges)\<inverse>" and "length adj = length nodes" and "undirected_adj adj"
proof -
  show len: "length adj = length nodes" by (simp add: adj_def wcc_adjacency_def)
  have "unat ` set (adj ! u) = {v. (u, v) \<in> indexed_edges nodes edges \<or> (v, u) \<in> indexed_edges nodes edges}" if "u < length nodes" for u
    using projection_undirected [OF assms(1-4) that, of "\<lambda>_. True" True, where ?'w = 'w] that by (simp add: adj_def wcc_adjacency_def)
  then show linked: "linked adj = indexed_edges nodes edges \<union> (indexed_edges nodes edges)\<inverse>"
    unfolding linked_def len by (auto dest: indexed_edges_bound)
  have "unat v < length nodes" if "u < length nodes" "v \<in> set (adj ! u)" for u v
    using linked_nbr [of u adj v] that unfolding len linked by (auto dest: indexed_edges_bound)
  then show "undirected_adj adj" unfolding undirected_adj_def len linked by (auto simp: sym_def)
qed

lemma linked_named:
  assumes "x \<in> set nodes"
  shows "{v. (node_index nodes x, v) \<in> (indexed_edges nodes edges \<union> (indexed_edges nodes edges)\<inverse>)\<^sup>*} =
    node_index nodes ` {y. weakly_connected nodes edges x y}"
proof -
  let ?K = "set (known_edges nodes edges)" and ?I = "indexed_edges nodes edges"
  have known: "y \<in> set nodes \<and> z \<in> set nodes" if "(y, z) \<in> ?K \<union> ?K\<inverse>" for y z using that by (auto simp: known_edges_def)
  have up: "y \<in> set nodes \<and> (node_index nodes x, node_index nodes y) \<in> (?I \<union> ?I\<inverse>)\<^sup>*" if "(x, y) \<in> (?K \<union> ?K\<inverse>)\<^sup>*" for y
    using that
  proof (induction rule: rtrancl_induct)
    case (step y z)
    then have "(node_index nodes y, node_index nodes z) \<in> ?I \<union> ?I\<inverse>" by (force simp: indexed_edges_def)
    with step known [OF step(2)] show ?case by (meson rtrancl.rtrancl_into_rtrancl)
  qed (simp add: assms)
  have down: "\<exists>y \<in> set nodes. v = node_index nodes y \<and> (x, y) \<in> (?K \<union> ?K\<inverse>)\<^sup>*" if "(node_index nodes x, v) \<in> (?I \<union> ?I\<inverse>)\<^sup>*" for v
    using that
  proof (induction rule: rtrancl_induct)
    case (step v w)
    then obtain y where y: "y \<in> set nodes" "v = node_index nodes y" "(x, y) \<in> (?K \<union> ?K\<inverse>)\<^sup>*" by blast
    from step(2) obtain a b where ab: "(a, b) \<in> ?K \<union> ?K\<inverse>" "v = node_index nodes a" "w = node_index nodes b"
      by (auto simp: indexed_edges_def)
    with known [OF ab(1)] y have "a = y" by (simp add: node_index_inject)
    with y(3) ab(1) have "(x, b) \<in> (?K \<union> ?K\<inverse>)\<^sup>*" by (meson rtrancl.rtrancl_into_rtrancl)
    with ab(3) known [OF ab(1)] show ?case by blast
  qed (use assms in auto)
  show ?thesis unfolding weakly_connected_def using up down by blast
qed


text \<open>Two nodes joined by an edge against the order, and a node alone.\<close>

lemma closed_rtrancl: "R `` S \<subseteq> S \<Longrightarrow> x \<in> S \<Longrightarrow> (x, y) \<in> R\<^sup>* \<Longrightarrow> y \<in> S"
  using Image_closed_trancl [of R S] by blast


end
