(* ===== verification/Graph_Triangles.thy ===== *)
theory Graph_Triangles
  imports Graph_Undirected
begin

text \<open>
  \<open>raisin-graph-algorithms/src/algorithms/triangle.rs\<close>, \<open>lcc.rs\<close>: the number of triangles of each node, by intersecting sorted
  lists of neighbours, and the clustering coefficient. The tasks of the parallel iteration write disjoint entries, so they
  are a map. The operations on \<open>f64\<close> are parameters.
\<close>

section \<open>Counting\<close>

text \<open>The loop with two indices; the lists are what the indices have left.\<close>

fun intersect_count :: "u32 list \<Rightarrow> u32 list \<Rightarrow> nat \<Rightarrow> nat" where
  "intersect_count (n1 # ns) (n2 # ms) local_count =
     (if n1 = n2 then intersect_count ns ms (local_count + 1)
      else if n1 < n2 then intersect_count ns (n2 # ms) local_count
      else intersect_count (n1 # ns) ms local_count)"
| "intersect_count _ _ local_count = local_count"

definition simple_adjacency :: "'g csr_lib \<Rightarrow> ('g, 'w) graph_projection \<Rightarrow> u32 list list" where
  "simple_adjacency lib projection =
     sort_dedup (undirected (nbrs lib (gp_graph projection)) (\<lambda>(u, v). u \<noteq> unat v) (gp_node_count projection))"

definition triangle_count_raw :: "'g csr_lib \<Rightarrow> ('g, 'w) graph_projection \<Rightarrow> nat list" where
  "triangle_count_raw lib projection =
     (let adj = simple_adjacency lib projection
      in map (\<lambda>u. foldl (\<lambda>local_count v. intersect_count (adj ! u) (adj ! unat v) local_count) 0 (adj ! u) div 2)
           [0..<gp_node_count projection])"

definition triangle_count :: "'g csr_lib \<Rightarrow> ('g, 'w) graph_projection \<Rightarrow> (string, nat) hash_map" where
  "triangle_count lib projection = by_node_id projection (triangle_count_raw lib projection)"

record 'f f64_ops =
  f64_of_usize :: "nat \<Rightarrow> 'f"
  f64_mul :: "'f \<Rightarrow> 'f \<Rightarrow> 'f"
  f64_div :: "'f \<Rightarrow> 'f \<Rightarrow> 'f"

definition lcc :: "'f f64_ops \<Rightarrow> 'g csr_lib \<Rightarrow> ('g, 'w) graph_projection \<Rightarrow> (string, 'f) hash_map" where
  "lcc fl lib projection =
     (if gp_node_count projection = 0 then []
      else let triangles = triangle_count_raw lib projection;
               adj = simple_adjacency lib projection
           in by_node_id projection
                (map (\<lambda>u. let deg = length (adj ! u)
                          in if deg < 2 then f64_of_usize fl 0
                             else f64_div fl (f64_mul fl (f64_of_usize fl 2) (f64_of_usize fl (triangles ! u)))
                                    (f64_mul fl (f64_of_usize fl deg) (f64_of_usize fl (deg - 1))))
                  [0..<gp_node_count projection]))"

lemma length_triangle_count_raw [simp]: "length (triangle_count_raw lib p) = gp_node_count p"
  by (simp add: triangle_count_raw_def Let_def)

section \<open>The intersection\<close>

lemma intersect_count_card:
  "sorted_wrt (<) xs \<Longrightarrow> sorted_wrt (<) ys \<Longrightarrow> intersect_count xs ys k = k + card (set xs \<inter> set ys)"
proof (induction xs ys k rule: intersect_count.induct)
  case (1 n1 ns n2 ms k)
  consider "n1 = n2" | "n1 < n2" | "n2 < n1" by fastforce
  then show ?case
  proof cases
    case 1
    then have "set (n1 # ns) \<inter> set (n2 # ms) = insert n1 (set ns \<inter> set ms)" "n1 \<notin> set ns" using "1.prems" by auto
    with 1 "1.IH"(1) "1.prems" show ?thesis by simp
  next
    case 2
    then have "n1 \<noteq> n2" by auto
    moreover from 2 have "set (n1 # ns) \<inter> set (n2 # ms) = set ns \<inter> set (n2 # ms)" using "1.prems" by auto
    ultimately show ?thesis using 2 "1.IH"(2) "1.prems" by simp
  next
    case 3
    then have "n1 \<noteq> n2" "\<not> n1 < n2" by auto
    moreover from 3 have "set (n1 # ns) \<inter> set (n2 # ms) = set (n1 # ns) \<inter> set ms" using "1.prems" by auto
    ultimately show ?thesis using 3 "1.IH"(3) "1.prems" by simp
  qed
qed simp_all

lemma foldl_add_nat: "foldl (\<lambda>k v. k + f v) a xs = a + (\<Sum>v \<leftarrow> xs. f v)" for f :: "'a \<Rightarrow> nat"
  by (induction xs arbitrary: a) simp_all

section \<open>Pairs and triangles\<close>

lemma card_symmetric_pairs:
  fixes S :: "(nat \<times> nat) set"
  assumes "finite S" and "sym S" and "irrefl S"
  shows "card S = 2 * card ((\<lambda>(v, w). {v, w}) ` S)"
proof -
  let ?L = "{(v, w) \<in> S. v < w}"
  have S: "S = ?L \<union> ?L\<inverse>" "?L \<inter> ?L\<inverse> = {}" using assms(2,3) by (auto simp: irrefl_def dest: symD)
  have "finite ?L" using assms(1) by (auto intro: finite_subset)
  then have "card S = card ?L + card (?L\<inverse>)" by (subst S(1)) (simp add: card_Un_disjoint S(2))
  also have "\<dots> = 2 * card ?L" by (simp add: card_inverse)
  also have "card ?L = card ((\<lambda>(v, w). {v, w}) ` ?L)" by (rule card_image [symmetric]) (auto simp: inj_on_def doubleton_eq_iff)
  also have "(\<lambda>(v, w). {v, w}) ` ?L = (\<lambda>(v, w). {v, w}) ` S" using S(1) by (auto simp: image_iff insert_commute)
  finally show ?thesis .
qed

text \<open>The neighbours of a node, and its triangles: sets of three nodes that are neighbours of one another.\<close>

definition adjacent :: "string list \<Rightarrow> (string \<times> string) list \<Rightarrow> string \<Rightarrow> string \<Rightarrow> bool" where
  "adjacent nodes edges x y \<longleftrightarrow> x \<noteq> y \<and> ((x, y) \<in> set (known_edges nodes edges) \<or> (y, x) \<in> set (known_edges nodes edges))"

definition triangles_of :: "string list \<Rightarrow> (string \<times> string) list \<Rightarrow> string \<Rightarrow> string set set" where
  "triangles_of nodes edges x = {{x, y, z} | y z. adjacent nodes edges x y \<and> adjacent nodes edges x z \<and> adjacent nodes edges y z}"

lemma simple_adjacency_set:
  fixes lib :: "'g csr_lib"
  assumes "csr_laws lib" and "distinct nodes" and "length nodes \<le> 2 ^ 32" and "distinct (known_edges nodes edges)" and "x \<in> set nodes"
  shows "unat ` set (simple_adjacency lib (from_parts lib nodes edges :: ('g, 'w) graph_projection) ! node_index nodes x) =
    node_index nodes ` {y. adjacent nodes edges x y}"
proof -
  have "((node_index nodes x, j) \<in> indexed_edges nodes edges \<or> (j, node_index nodes x) \<in> indexed_edges nodes edges) \<and> node_index nodes x \<noteq> j \<longleftrightarrow>
      (\<exists>y. adjacent nodes edges x y \<and> j = node_index nodes y)" for j
    using assms(5) by (force simp: indexed_edges_def adjacent_def known_edges_def node_index_inject)
  then show ?thesis
    using projection_undirected [OF assms(1-4) node_index_less [OF assms(5)], of "\<lambda>(u, v). u \<noteq> unat v" False, where ?'w = 'w] assms(5)
    by (auto simp: simple_adjacency_def)
qed

lemma adjacent_known: "adjacent nodes edges x y \<Longrightarrow> x \<in> set nodes \<and> y \<in> set nodes"
  by (auto simp: adjacent_def known_edges_def)

lemma adjacent_index: "adjacent nodes edges x y \<Longrightarrow> node_index nodes x \<noteq> node_index nodes y"
  using adjacent_known [of nodes edges x y] by (auto simp: node_index_inject adjacent_def)

lemma finite_adjacent [simp]: "finite {y. adjacent nodes edges x y}"
  by (rule finite_subset [of _ "set nodes"]) (auto dest: adjacent_known)

definition corner_pairs :: "string list \<Rightarrow> (string \<times> string) list \<Rightarrow> string \<Rightarrow> (string \<times> string) set" where
  "corner_pairs nodes edges x = {(y, z). adjacent nodes edges x y \<and> adjacent nodes edges x z \<and> adjacent nodes edges y z}"

lemma card_triangles:
  "card (triangles_of nodes edges x) = card ((\<lambda>(v, w). {v, w}) ` map_prod (node_index nodes) (node_index nodes) ` corner_pairs nodes edges x)"
proof -
  let ?P = "(\<lambda>(y, z). {y, z}) ` corner_pairs nodes edges x"
  have "triangles_of nodes edges x = insert x ` ?P" by (auto simp: triangles_of_def corner_pairs_def image_iff)
  moreover have "x \<notin> P" if "P \<in> ?P" for P using that by (auto simp: corner_pairs_def adjacent_def)
  then have "inj_on (insert x) ?P" by (intro inj_onI) (metis insert_ident)
  ultimately have "card (triangles_of nodes edges x) = card ?P" by (simp add: card_image)
  moreover have "inj_on (image (node_index nodes)) ?P"
  proof (rule inj_on_subset [of _ "Pow (set nodes)"])
    show "inj_on (image (node_index nodes)) (Pow (set nodes))" by (rule inj_on_image_Pow) (simp add: inj_on_def node_index_inject)
    show "?P \<subseteq> Pow (set nodes)" by (auto simp: corner_pairs_def dest: adjacent_known)
  qed
  then have "card ?P = card (image (node_index nodes) ` ?P)" by (simp add: card_image)
  moreover have "image (node_index nodes) ` ?P = (\<lambda>(v, w). {v, w}) ` map_prod (node_index nodes) (node_index nodes) ` corner_pairs nodes edges x"
    by (force simp: image_image)
  ultimately show ?thesis by simp
qed

lemma triangle_sum:
  fixes lib :: "'g csr_lib"
  assumes "csr_laws lib" and "distinct nodes" and "length nodes \<le> 2 ^ 32" and "distinct (known_edges nodes edges)" and "x \<in> set nodes"
  defines "adj \<equiv> simple_adjacency lib (from_parts lib nodes edges :: ('g, 'w) graph_projection)" and "u \<equiv> node_index nodes x"
  shows "foldl (\<lambda>local_count v. intersect_count (adj ! u) (adj ! unat v) local_count) 0 (adj ! u) =
    card (map_prod (node_index nodes) (node_index nodes) ` corner_pairs nodes edges x)"
proof -
  note nbr = simple_adjacency_set [OF assms(1-4), where ?'w = 'w, folded adj_def]
  have len: "length adj = length nodes" by (simp add: adj_def simple_adjacency_def)
  have srt: "sorted_wrt (<) (adj ! i)" if "i < length nodes" for i
    using that by (simp add: adj_def simple_adjacency_def)
  let ?N = "\<lambda>i. unat ` set (adj ! i)"
  have u: "u < length nodes" using assms(5) by (simp add: u_def)
  have lt: "unat v < length nodes" if "v \<in> set (adj ! u)" for v
    using nbr [OF assms(5)] that unfolding u_def by (metis (no_types, lifting) adjacent_known imageE imageI mem_Collect_eq node_index_less)
  have one: "intersect_count (adj ! u) (adj ! unat v) k = k + card (?N u \<inter> ?N (unat v))" if "v \<in> set (adj ! u)" for v k
  proof -
    have "card (set (adj ! u) \<inter> set (adj ! unat v)) = card (unat ` (set (adj ! u) \<inter> set (adj ! unat v)))"
      by (rule card_image [symmetric]) (simp add: inj_on_def word_unat_eq_iff)
    also have "unat ` (set (adj ! u) \<inter> set (adj ! unat v)) = ?N u \<inter> ?N (unat v)" by (auto simp: word_unat_eq_iff [symmetric])
    finally show ?thesis using intersect_count_card [OF srt [OF u] srt [OF lt [OF that]]] by simp
  qed
  have "foldl (\<lambda>local_count v. intersect_count (adj ! u) (adj ! unat v) local_count) 0 (adj ! u) =
      foldl (\<lambda>local_count v. local_count + card (?N u \<inter> ?N (unat v))) 0 (adj ! u)"
    by (rule foldl_cong) (simp_all add: one)
  also have "\<dots> = (\<Sum>v \<in> set (adj ! u). card (?N u \<inter> ?N (unat v)))"
    using srt [OF u] by (simp add: foldl_add_nat sum_list_distinct_conv_sum_set strict_sorted_iff)
  also have "\<dots> = (\<Sum>v \<in> ?N u. card (?N u \<inter> ?N v))"
    by (rule sum.reindex_cong [symmetric, of unat]) (auto simp: inj_on_def word_unat_eq_iff)
  also have "\<dots> = card (SIGMA v : ?N u. ?N u \<inter> ?N v)" by simp
  also have "(SIGMA v : ?N u. ?N u \<inter> ?N v) = map_prod (node_index nodes) (node_index nodes) ` corner_pairs nodes edges x"
  proof -
    have Nu: "?N u = node_index nodes ` {y. adjacent nodes edges x y}" unfolding u_def by (rule nbr [OF assms(5)])
    have Ny: "?N (node_index nodes y) = node_index nodes ` {z. adjacent nodes edges y z}" if "adjacent nodes edges x y" for y
      using nbr [of y] adjacent_known [OF that] by simp
    have both: "node_index nodes ` {z. adjacent nodes edges x z} \<inter> node_index nodes ` {z. adjacent nodes edges y z} =
        node_index nodes ` {z. adjacent nodes edges x z \<and> adjacent nodes edges y z}" for y
      using adjacent_known node_index_inject [of _ nodes] by (auto simp: image_iff)
    have "v \<in> ?N u \<and> w \<in> ?N u \<inter> ?N v \<longleftrightarrow>
        (\<exists>y z. (y, z) \<in> corner_pairs nodes edges x \<and> v = node_index nodes y \<and> w = node_index nodes z)" for v w
    proof (cases "v \<in> ?N u")
      case True
      then obtain y where y: "adjacent nodes edges x y" "v = node_index nodes y" unfolding Nu by auto
      have "w \<in> ?N u \<inter> ?N v \<longleftrightarrow> w \<in> node_index nodes ` {z. adjacent nodes edges x z \<and> adjacent nodes edges y z}"
        unfolding y(2) Ny [OF y(1)] Nu both ..
      moreover have "y' = y" if "adjacent nodes edges x y'" "v = node_index nodes y'" for y'
        using that y adjacent_known node_index_inject by metis
      then have "(\<exists>y' z. (y', z) \<in> corner_pairs nodes edges x \<and> v = node_index nodes y' \<and> w = node_index nodes z) \<longleftrightarrow>
          (\<exists>z. (y, z) \<in> corner_pairs nodes edges x \<and> w = node_index nodes z)" using y(2) unfolding corner_pairs_def by blast
      ultimately show ?thesis using True y(1) by (auto simp: corner_pairs_def)
    qed (auto simp: Nu corner_pairs_def)
    moreover have "(v, w) \<in> map_prod (node_index nodes) (node_index nodes) ` C \<longleftrightarrow>
        (\<exists>y z. (y, z) \<in> C \<and> v = node_index nodes y \<and> w = node_index nodes z)" for v w C by force
    ultimately have "(v, w) \<in> (SIGMA v : ?N u. ?N u \<inter> ?N v) \<longleftrightarrow>
        (v, w) \<in> map_prod (node_index nodes) (node_index nodes) ` corner_pairs nodes edges x" for v w by (simp only: mem_Sigma_iff)
    then show ?thesis by (rule pred_equals_eq2 [THEN iffD1, unfolded fun_eq_iff, rule_format])
  qed
  finally show ?thesis .
qed

text \<open>
  The triangle count of a node is the number of triangles it is a corner of, for edges taken without their direction and
  without self-loops.
\<close>

theorem triangle_count_correct:
  assumes "csr_laws lib" and "distinct nodes" and "length nodes \<le> 2 ^ 32" and "distinct (known_edges nodes edges)"
  shows "hm_get (triangle_count lib (from_parts lib nodes edges :: ('g, 'w) graph_projection)) x =
    (if x \<in> set nodes then Some (card (triangles_of nodes edges x)) else None)"
proof -
  let ?p = "from_parts lib nodes edges :: ('g, 'w) graph_projection" and ?S = "map_prod (node_index nodes) (node_index nodes) ` corner_pairs nodes edges x"
  have S: "finite ?S" "sym ?S" "irrefl ?S"
  proof -
    have "corner_pairs nodes edges x \<subseteq> {y. adjacent nodes edges x y} \<times> {y. adjacent nodes edges x y}" by (auto simp: corner_pairs_def)
    then have "finite (corner_pairs nodes edges x)" by (rule finite_subset) simp
    then show "finite ?S" by simp
    show "sym ?S" by (rule symI) (auto simp: corner_pairs_def adjacent_def image_iff)
    show "irrefl ?S" by (auto simp: irrefl_def corner_pairs_def dest: adjacent_index)
  qed
  have "triangle_count_raw lib ?p ! node_index nodes x = card (triangles_of nodes edges x)" if "x \<in> set nodes"
    using triangle_sum [OF assms that, where ?'w = 'w] card_symmetric_pairs [OF S] that
    by (simp add: triangle_count_raw_def Let_def card_triangles)
  then show ?thesis using by_node_id_result [of ?p nodes "triangle_count_raw lib ?p" x, OF _ assms(2,3)]
    by (simp add: triangle_count_def)
qed

theorem triangle_count_correct_witness:
  "hm_get (triangle_count edge_list_csr
       (from_parts edge_list_csr [''A'', ''B'', ''C''] [(''A'', ''B''), (''B'', ''C''), (''C'', ''A''), (''A'', ''A'')] ::
         ((u32 \<times> u32) list, unit) graph_projection)) ''A'' = Some 1"
proof -
  let ?nodes = "[''A'', ''B'', ''C'']" and ?edges = "[(''A'', ''B''), (''B'', ''C''), (''C'', ''A''), (''A'', ''A'')]"
  have known: "known_edges ?nodes ?edges = ?edges" by (simp add: known_edges_def)
  have corner: "adjacent ?nodes ?edges ''A'' y \<longleftrightarrow> y \<in> {''B'', ''C''}" for y unfolding adjacent_def known by auto
  have "adjacent ?nodes ?edges ''B'' ''C''" unfolding adjacent_def known by simp
  moreover have "{''A'', y, z} = {''A'', ''B'', ''C''}" if "y \<in> {''B'', ''C''}" "z \<in> {''B'', ''C''}" "adjacent ?nodes ?edges y z" for y z
  proof -
    have "y \<noteq> z" using that(3) by (simp add: adjacent_def)
    with that(1,2) show ?thesis by auto
  qed
  ultimately have "triangles_of ?nodes ?edges ''A'' = {{''A'', ''B'', ''C''}}"
  proof (intro set_eqI iffI)
    fix T
    assume "T \<in> triangles_of ?nodes ?edges ''A''"
    then obtain y z where "T = {''A'', y, z}" "y \<in> {''B'', ''C''}" "z \<in> {''B'', ''C''}" "adjacent ?nodes ?edges y z"
      unfolding triangles_of_def corner by (elim CollectE exE conjE)
    with \<open>\<And>y z. y \<in> {''B'', ''C''} \<Longrightarrow> z \<in> {''B'', ''C''} \<Longrightarrow> adjacent ?nodes ?edges y z \<Longrightarrow> {''A'', y, z} = {''A'', ''B'', ''C''}\<close>
    show "T \<in> {{''A'', ''B'', ''C''}}" by (simp only: singleton_iff)
  next
    fix T
    assume "T \<in> {{''A'', ''B'', ''C''}}"
    then show "T \<in> triangles_of ?nodes ?edges ''A''" using \<open>adjacent ?nodes ?edges ''B'' ''C''\<close>
      unfolding triangles_of_def corner by (intro CollectI exI [of _ "''B''"] exI [of _ "''C''"]) simp
  qed
  moreover have "distinct (known_edges ?nodes ?edges)" by (simp add: known)
  ultimately show ?thesis using triangle_count_correct [OF edge_list_csr_laws, of ?nodes ?edges "''A''", where ?'w = unit] by simp
qed

section \<open>The clustering coefficient\<close>

text \<open>Numerator and denominator of the coefficient: it lies between zero and one.\<close>

lemma triangles_within_degree:
  fixes lib :: "'g csr_lib"
  assumes "csr_laws lib" and "distinct nodes" and "length nodes \<le> 2 ^ 32" and "distinct (known_edges nodes edges)" and "x \<in> set nodes"
  defines "p \<equiv> from_parts lib nodes edges :: ('g, 'w) graph_projection" and "u \<equiv> node_index nodes x"
  shows "2 * triangle_count_raw lib p ! u \<le> length (simple_adjacency lib p ! u) * (length (simple_adjacency lib p ! u) - 1)"
proof -
  let ?f = "node_index nodes" and ?N = "{y. adjacent nodes edges x y}"
  have inj: "inj_on ?f (set nodes)" by (simp add: inj_on_def node_index_inject)
  have sub: "?N \<subseteq> set nodes" by (auto dest: adjacent_known)
  have u: "u < length nodes" using assms(5) by (simp add: u_def)
  have "sorted_wrt (<) (simple_adjacency lib p ! u)" using u by (simp add: p_def simple_adjacency_def)
  then have "distinct (simple_adjacency lib p ! u)" by (simp add: strict_sorted_iff)
  then have "length (simple_adjacency lib p ! u) = card (unat ` set (simple_adjacency lib p ! u))"
    by (subst card_image) (simp_all add: inj_on_def word_unat_eq_iff distinct_card)
  also have "\<dots> = card ?N"
    unfolding p_def u_def simple_adjacency_set [OF assms(1-5), where ?'w = 'w] by (rule card_image [OF inj_on_subset [OF inj sub]])
  finally have deg: "length (simple_adjacency lib p ! u) = card ?N" .
  have "corner_pairs nodes edges x \<subseteq> ?N \<times> ?N - (\<lambda>y. (y, y)) ` ?N" by (auto simp: corner_pairs_def adjacent_def)
  then have "card (corner_pairs nodes edges x) \<le> card (?N \<times> ?N - (\<lambda>y. (y, y)) ` ?N)" by (intro card_mono) simp_all
  also have "\<dots> = card ?N * card ?N - card ?N"
    by (subst card_Diff_subset) (auto simp: card_image inj_on_def card_cartesian_product)
  finally have "card (corner_pairs nodes edges x) \<le> card ?N * (card ?N - 1)" by (simp add: diff_mult_distrib2)
  moreover have "card (map_prod ?f ?f ` corner_pairs nodes edges x) \<le> card (corner_pairs nodes edges x)"
    by (rule card_image_le, rule finite_subset [of _ "?N \<times> ?N"]) (auto simp: corner_pairs_def)
  ultimately show ?thesis
    using triangle_sum [OF assms(1-5), where ?'w = 'w, folded p_def u_def] u unfolding deg
    by (simp add: triangle_count_raw_def Let_def p_def)
qed

end
