(* ===== verification/Graph_Cdlp.thy ===== *)
theory Graph_Cdlp
  imports Graph_Undirected
begin

text \<open>
  \<open>raisin-graph-algorithms/src/algorithms/cdlp.rs\<close>: communities by label propagation, in a fixed number of synchronous rounds.
  The scan of the sorted labels of the neighbours finds the most frequent one, the least of them on a tie.
\<close>

section \<open>Rounds\<close>

text \<open>The scan over runs of equal labels; the counters are \<open>u32\<close>.\<close>

fun mode_loop :: "u32 list \<Rightarrow> u32 \<Rightarrow> u32 \<Rightarrow> u32 \<Rightarrow> u32 \<Rightarrow> u32" where
  "mode_loop [] best_label best_count current_label current_count =
     (if best_count < current_count \<or> (current_count = best_count \<and> current_label < best_label) then current_label else best_label)"
| "mode_loop (nl # rest) best_label best_count current_label current_count =
     (if nl = current_label then mode_loop rest best_label best_count current_label (current_count + 1)
      else if best_count < current_count \<or> (current_count = best_count \<and> current_label < best_label)
           then mode_loop rest current_label current_count nl 1
           else mode_loop rest best_label best_count nl 1)"

definition most_frequent :: "u32 list \<Rightarrow> u32" where
  "most_frequent neighbor_labels =
     (let ls = sort neighbor_labels in mode_loop (tl ls) (ls ! 0) 1 (ls ! 0) 1)"

definition cdlp_adjacency :: "'g csr_lib \<Rightarrow> ('g, 'w) graph_projection \<Rightarrow> u32 list list" where
  "cdlp_adjacency lib projection = map sort (undirected (nbrs lib (gp_graph projection)) (\<lambda>_. True) (gp_node_count projection))"

definition cdlp_round :: "u32 list list \<Rightarrow> u32 list \<Rightarrow> u32 list" where
  "cdlp_round adj labels =
     map (\<lambda>u. if adj ! u = [] then labels ! u else most_frequent (map (\<lambda>v. labels ! unat v) (adj ! u))) [0..<length labels]"

definition cdlp :: "'g csr_lib \<Rightarrow> ('g, 'w) graph_projection \<Rightarrow> nat \<Rightarrow> (string, u32) hash_map" where
  "cdlp lib projection max_iterations =
     (if gp_node_count projection = 0 then []
      else by_node_id projection
             ((cdlp_round (cdlp_adjacency lib projection) ^^ max_iterations) (map of_nat [0..<gp_node_count projection])))"

section \<open>The most frequent label\<close>

definition beats :: "u32 list \<Rightarrow> u32 \<Rightarrow> u32 \<Rightarrow> bool" where
  "beats xs l l' \<longleftrightarrow> count_list xs l' < count_list xs l \<or> (count_list xs l' = count_list xs l \<and> l \<le> l')"

lemma u32_count_less: "m < 2 ^ 32 \<Longrightarrow> n < 2 ^ 32 \<Longrightarrow> (of_nat m :: u32) < of_nat n \<longleftrightarrow> m < n"
  by (simp add: word_less_nat_alt unat_of_nat_u32)

lemma u32_count_eq: "m < 2 ^ 32 \<Longrightarrow> n < 2 ^ 32 \<Longrightarrow> (of_nat m :: u32) = of_nat n \<longleftrightarrow> m = n"
  by (metis unat_of_nat_u32)

definition is_best :: "u32 list \<Rightarrow> u32 \<Rightarrow> nat \<Rightarrow> bool" where
  "is_best xs b k \<longleftrightarrow> b \<in> set xs \<and> k = count_list xs b \<and> (\<forall>x \<in> set xs. beats xs b x)"

definition best_so_far :: "u32 list \<Rightarrow> u32 \<Rightarrow> u32 \<Rightarrow> nat \<Rightarrow> bool" where
  "best_so_far done_part l b k \<longleftrightarrow> (if done_part = [] then b = l \<and> k = 1 else is_best done_part b k)"

lemma count_replicate: "count_list (replicate c l) x = (if x = l then c else 0)"
  by (induction c) auto

lemma end_of_run:
  assumes "best_so_far done_part l b k" and "0 < c" and "\<forall>x \<in> set done_part. x < l"
  shows "is_best (done_part @ replicate c l) (if k < c \<or> (c = k \<and> l < b) then l else b) (if k < c \<or> (c = k \<and> l < b) then c else k)"
proof (cases "done_part = []")
  case True
  with assms show ?thesis by (auto simp: best_so_far_def is_best_def beats_def count_replicate)
next
  case False
  have l: "l \<notin> set done_part" "count_list done_part l = 0" using assms(3) by (auto simp: count_list_0_iff)
  from False assms(1) have b: "b \<in> set done_part" "k = count_list done_part b" "\<forall>x \<in> set done_part. beats done_part b x"
    by (simp_all add: best_so_far_def is_best_def)
  have bl: "b < l" "b \<noteq> l" using assms(3) b(1) l(1) by auto
  have le: "count_list done_part x \<le> k" if "x \<in> set done_part" for x using b(2,3) that by (auto simp: beats_def)
  show ?thesis
  proof (cases "k < c")
    case True
    with le l assms(2) show ?thesis by (auto simp: is_best_def beats_def count_replicate intro: le_less_trans)
  next
    case False
    moreover from bl(1) have "\<not> l < b" by (rule order_less_not_sym)
    ultimately show ?thesis using b l bl by (auto simp: is_best_def beats_def count_replicate split: if_splits)
  qed
qed

text \<open>The loop has read \<open>done_part\<close> and, of the current label, \<open>c\<close> copies.\<close>

lemma mode_loop_best:
  assumes "sorted (done_part @ replicate c l @ rest)" and "0 < c" and "\<forall>x \<in> set done_part. x < l"
    and "length (done_part @ replicate c l @ rest) < 2 ^ 32" and "best_so_far done_part l b k"
  shows "\<exists>n. is_best (done_part @ replicate c l @ rest) (mode_loop rest b (of_nat k) l (of_nat c)) n"
  using assms
proof (induction rest arbitrary: done_part c l b k)
  case Nil
  have "k < 2 ^ 32" "c < 2 ^ 32" using Nil.prems(4,5) count_le_length [of done_part b] by (auto simp: best_so_far_def is_best_def split: if_splits)
  with end_of_run [OF Nil.prems(5,2,3)] show ?case by (auto simp: u32_count_less u32_count_eq)
next
  case (Cons nl rest)
  have "k < 2 ^ 32" "c < 2 ^ 32" using Cons.prems(4,5) count_le_length [of done_part b] by (auto simp: best_so_far_def is_best_def split: if_splits)
  note cmp = u32_count_less [OF this] u32_count_eq [OF this(2,1)]
  show ?case
  proof (cases "nl = l")
    case True
    have run: "replicate c l @ nl # rest = replicate (Suc c) l @ rest" by (simp add: True replicate_app_Cons_same)
    have step: "mode_loop (nl # rest) b (of_nat k) l (of_nat c) = mode_loop rest b (of_nat k) l (of_nat (Suc c))"
      by (simp add: True add.commute)
    show ?thesis unfolding step run by (rule Cons.IH [OF Cons.prems(1) [unfolded run] zero_less_Suc Cons.prems(3) Cons.prems(4) [unfolded run] Cons.prems(5)])
  next
    case False
    let ?take = "k < c \<or> (c = k \<and> l < b)" and ?run = "done_part @ replicate c l"
    have "l \<le> nl" using Cons.prems(1,2) by (simp add: sorted_append)
    with False have "l < nl" by simp
    then have less: "\<forall>x \<in> set ?run. x < nl" using Cons.prems(2,3) by (auto intro: less_trans)
    have best: "best_so_far ?run nl (if ?take then l else b) (if ?take then c else k)"
      using end_of_run [OF Cons.prems(5,2,3)] Cons.prems(2) by (simp add: best_so_far_def)
    have run: "done_part @ replicate c l @ nl # rest = ?run @ replicate 1 nl @ rest" by simp
    have step: "mode_loop (nl # rest) b (of_nat k) l (of_nat c) =
        mode_loop rest (if ?take then l else b) (of_nat (if ?take then c else k)) nl (of_nat 1)" using False cmp by simp
    show ?thesis unfolding step run
      by (rule Cons.IH [OF Cons.prems(1) [unfolded run] zero_less_one less Cons.prems(4) [unfolded run] best])
  qed
qed

text \<open>
  A round of label propagation gives a node the most frequent label of its neighbours, the least one on a tie; the labels of
  a reciprocal edge count twice. A node without neighbours keeps its label.
\<close>

theorem cdlp_round_mode:
  assumes "u < length labels" and "length (adj ! u) < 2 ^ 32"
  defines "ls \<equiv> map (\<lambda>v. labels ! unat v) (adj ! u)"
  shows "cdlp_round adj labels ! u =
    (if ls = [] then labels ! u else Min {l \<in> set ls. \<forall>l'. count_list ls l' \<le> count_list ls l})"
proof (cases "adj ! u = []")
  case False
  let ?s = "sort ls"
  have ls: "ls \<noteq> []" "length ?s < 2 ^ 32" using False assms(2) by (simp_all add: ls_def)
  then obtain x xs where s: "?s = x # xs" by (metis length_0_conv length_sort list.exhaust)
  have sx: "sorted (x # xs)" using s by (metis sorted_sort)
  have "\<exists>n. is_best (x # xs) (mode_loop xs x 1 x 1) n"
    using mode_loop_best [of "[]" 1 x xs x 1] sx ls(2) s by (simp add: best_so_far_def)
  moreover have "mode_loop xs x 1 x 1 = most_frequent ls" by (simp add: most_frequent_def s)
  ultimately have "\<exists>n. is_best ?s (most_frequent ls) n" by (simp only: s)
  moreover have "count_list ?s l = count_list ls l" for l by (metis count_mset mset_sort)
  ultimately have best: "most_frequent ls \<in> set ls" "\<And>l. l \<in> set ls \<Longrightarrow> beats ls (most_frequent ls) l"
    by (auto simp: is_best_def beats_def)
  have "count_list ls l' \<le> count_list ls (most_frequent ls)" for l'
    using best(2) [of l'] by (cases "l' \<in> set ls") (auto simp: beats_def)
  moreover have "most_frequent ls \<le> l" if "l \<in> set ls" "\<forall>l'. count_list ls l' \<le> count_list ls l" for l
  proof -
    have "\<not> count_list ls l < count_list ls (most_frequent ls)" using that(2) by (simp add: not_less)
    with best(2) [OF that(1)] show ?thesis by (simp add: beats_def)
  qed
  ultimately have "Min {l \<in> set ls. \<forall>l'. count_list ls l' \<le> count_list ls l} = most_frequent ls" using best(1) by (intro Min_eqI) auto
  with False ls(1) assms(1) show ?thesis by (simp add: cdlp_round_def ls_def)
qed (use assms(1) in \<open>simp add: cdlp_round_def ls_def\<close>)

theorem cdlp_round_mode_witness:
  "cdlp_round [[1, 2, 3, 3], [], [], []] [0, 7, 5, 5] ! 0 = 5 \<and> cdlp_round [[1, 2, 3, 3], [], [], []] [0, 7, 5, 5] ! 1 = 7"
proof -
  let ?labels = "[0, 7, 5, 5 :: u32]" and ?adj = "[[1, 2, 3, 3], [], [], []] :: u32 list list" and ?ls = "[7, 5, 5, 5 :: u32]"
  have ls: "map (\<lambda>v. ?labels ! unat v) (?adj ! 0) = ?ls" by simp
  have "Min {l \<in> set ?ls. \<forall>l'. count_list ?ls l' \<le> count_list ?ls l} = 5"
    by (rule Min_eqI) (auto split: if_splits)
  then have "cdlp_round ?adj ?labels ! 0 = 5" using cdlp_round_mode [of 0 ?labels ?adj, unfolded ls] by simp
  moreover have "cdlp_round ?adj ?labels ! 1 = 7" using cdlp_round_mode [of 1 ?labels ?adj] by simp
  ultimately show ?thesis ..
qed

end
