(* ===== verification/Flow_Json.thy ===== *)
theory Flow_Json
  imports Rust_Codec
begin

text \<open>
  JSON documents as the flow runtime handles them: \<open>serde_json::Value\<close> and the accessors the code calls. An object is an
  association list with distinct keys; the position of an entry has no meaning, and equality of documents (\<open>json_eq\<close>)
  does not look at it. A float is its 64 bits.
\<close>

datatype json_number =
    PosInt u64
  | NegInt u64
  | Float u64

datatype json =
    JNull
  | JBool bool
  | JNumber json_number
  | JString string
  | JArray "json list"
  | JObject "(string \<times> json) list"

fun jget :: "string \<Rightarrow> json \<Rightarrow> json option" where
  "jget k (JObject m) = hm_get m k"
| "jget k _ = None"

fun json_as_str :: "json \<Rightarrow> string option" where
  "json_as_str (JString s) = Some s"
| "json_as_str _ = None"

fun as_bool :: "json \<Rightarrow> bool option" where
  "as_bool (JBool b) = Some b"
| "as_bool _ = None"

fun as_u64 :: "json \<Rightarrow> u64 option" where
  "as_u64 (JNumber (PosInt n)) = Some n"
| "as_u64 _ = None"

fun as_object :: "json \<Rightarrow> (string \<times> json) list option" where
  "as_object (JObject m) = Some m"
| "as_object _ = None"

fun as_array :: "json \<Rightarrow> json list option" where
  "as_array (JArray xs) = Some xs"
| "as_array _ = None"

text \<open>\<open>Value::pointer\<close> for tokens that are not array indexes.\<close>

fun jpointer :: "string list \<Rightarrow> json \<Rightarrow> json option" where
  "jpointer [] v = Some v"
| "jpointer (t # ts) v = Option.bind (jget t v) (jpointer ts)"

abbreviation json_u64 :: "u64 \<Rightarrow> json" where
  "json_u64 n \<equiv> JNumber (PosInt n)"

definition json_opt_str :: "string option \<Rightarrow> json" where
  "json_opt_str s = (case s of None \<Rightarrow> JNull | Some x \<Rightarrow> JString x)"

text \<open>Equality of two floats of a document, which are finite: the two zeros are equal.\<close>

definition f64_eq :: "u64 \<Rightarrow> u64 \<Rightarrow> bool" where
  "f64_eq a b \<longleftrightarrow> a = b \<or> (push_bit 1 a = 0 \<and> push_bit 1 b = 0)"

fun number_eq :: "json_number \<Rightarrow> json_number \<Rightarrow> bool" where
  "number_eq (PosInt a) (PosInt b) = (a = b)"
| "number_eq (NegInt a) (NegInt b) = (a = b)"
| "number_eq (Float a) (Float b) = f64_eq a b"
| "number_eq _ _ = False"

fun json_eq :: "json \<Rightarrow> json \<Rightarrow> bool" where
  "json_eq JNull JNull = True"
| "json_eq (JBool a) (JBool b) = (a = b)"
| "json_eq (JNumber a) (JNumber b) = number_eq a b"
| "json_eq (JString a) (JString b) = (a = b)"
| "json_eq (JArray xs) (JArray ys) = list_all2 json_eq xs ys"
| "json_eq (JObject m) (JObject m') =
     (length m = length m' \<and> (\<forall>e \<in> set m. case hm_get m' (fst e) of None \<Rightarrow> False | Some w \<Rightarrow> json_eq (snd e) w))"
| "json_eq _ _ = False"

lemma number_eq_refl [simp]: "number_eq a a"
  by (cases a) (simp_all add: f64_eq_def)

fun json_wf :: "json \<Rightarrow> bool" where
  "json_wf (JArray xs) = list_all json_wf xs"
| "json_wf (JObject m) = (hm_wf m \<and> list_all (\<lambda>e. json_wf (snd e)) m)"
| "json_wf _ = True"

lemma json_eq_refl: "json_wf v \<Longrightarrow> json_eq v v"
proof (induction v)
  case (JArray xs)
  then show ?case by (auto simp: list_all_iff intro!: list.rel_refl_strong)
next
  case (JObject m)
  then have "json_eq (snd e) (snd e)" if "e \<in> set m" for e
    using that by (cases e) (auto simp: list_all_iff snds.simps)
  moreover have "hm_get m (fst e) = Some (snd e)" if "e \<in> set m" for e
    using JObject.prems that by (cases e) simp
  ultimately show ?case by simp
qed simp_all

end
