(* ===== verification/Flow_Definition.thy ===== *)
theory Flow_Definition
  imports Flow_Json
begin

text \<open>
  The definition of a flow (\<open>types/flow_definition/\<close> of \<open>raisin-flow-runtime\<close>): nodes that nest, the index for lookups by
  identifier, the edges and the validation before the first step. Lookup through the index and the linear fallback agree on
  definitions that validate, and validation accepts exactly the definitions whose node-level references resolve.
\<close>

section \<open>Data\<close>

datatype step_type =
    Start | End | Decision | FunctionStep | AgentStep | AIContainer | HumanTask | Parallel | Join | Wait | SubFlow
  | Chat | AgentDecision | Competition | Container | Loop | Custom string

datatype flow_node =
  FlowNode (fn_id: string) (fn_step_type: step_type) (fn_properties: "(string, json) hash_map")
    (fn_children: "flow_node list") (fn_next_node: "string option")

record flow_edge =
  fe_from :: string
  fe_to :: string
  fe_label :: "string option"
  fe_condition :: "string option"

record flow_metadata =
  fm_name :: "string option"
  fm_description :: "string option"
  fm_version :: "string option"
  fm_custom :: "(string, json) hash_map"

record flow_definition =
  fd_nodes :: "flow_node list"
  fd_edges :: "flow_edge list"
  fd_metadata :: flow_metadata
  fd_node_index :: "(string, nat) hash_map option"

text \<open>Properties of a node.\<close>

definition get_property :: "flow_node \<Rightarrow> string \<Rightarrow> json option" where
  "get_property n key = hm_get (fn_properties n) key"

definition get_string_property :: "flow_node \<Rightarrow> string \<Rightarrow> string option" where
  "get_string_property n key = Option.bind (get_property n key) json_as_str"

definition get_bool_property :: "flow_node \<Rightarrow> string \<Rightarrow> bool option" where
  "get_bool_property n key = Option.bind (get_property n key) as_bool"

definition get_u64_property :: "flow_node \<Rightarrow> string \<Rightarrow> u64 option" where
  "get_u64_property n key = Option.bind (get_property n key) as_u64"

definition get_u32_property :: "flow_node \<Rightarrow> string \<Rightarrow> u32 option" where
  "get_u32_property n key =
     Option.bind (get_u64_property n key) (\<lambda>v. if v \<le> 0xFFFFFFFF then Some (ucast v) else None)"

definition is_container :: "step_type \<Rightarrow> bool" where
  "is_container t \<longleftrightarrow> t \<in> {AIContainer, Parallel, Container, Loop}"

definition is_branching :: "step_type \<Rightarrow> bool" where
  "is_branching t \<longleftrightarrow> t \<in> {Decision, Parallel, AgentDecision}"

definition re_entry_duplicates_work :: "step_type \<Rightarrow> bool" where
  "re_entry_duplicates_work t \<longleftrightarrow> t \<in> {Parallel, SubFlow, Loop}"

definition default_max_retries :: "step_type \<Rightarrow> u32" where
  "default_max_retries t = (if re_entry_duplicates_work t then 0 else 3)"

section \<open>Errors\<close>

datatype flow_error =
    InvalidDefinition string
  | StepNotFound string
  | NodeNotFound string
  | ConditionEvaluation string
  | FunctionExecution string
  | AIProvider string
  | MaxIterationsExceeded u32
  | TimeoutExceeded u64
  | VersionConflict
  | CompensationFailed string string
  | Serialization string
  | InvalidStateTransition string string
  | AlreadyTerminated string
  | MissingProperty string
  | Other string
  | ChildFlowError string
  | AllChildFlowsFailed
  | ParallelExecutionError string
  | InvalidNodeConfiguration string
  | NotSupported string
  | MergeConflict string string
  | BranchOperationFailed string
  | PermissionDenied string
  | SecurityViolation string

definition is_infrastructural :: "flow_error \<Rightarrow> bool" where
  "is_infrastructural e \<longleftrightarrow> e = VersionConflict"

definition quoted :: "string \<Rightarrow> string" where
  "quoted s = CHR 0x27 # s @ [CHR 0x27]"

fun flow_error_to_string :: "flow_error \<Rightarrow> string" where
  "flow_error_to_string (InvalidDefinition s) = ''Invalid flow definition: '' @ s"
| "flow_error_to_string (StepNotFound s) = ''Step not found: '' @ s"
| "flow_error_to_string (NodeNotFound s) = ''Node not found: '' @ s"
| "flow_error_to_string (ConditionEvaluation s) = ''Condition evaluation failed: '' @ s"
| "flow_error_to_string (FunctionExecution s) = ''Function execution failed: '' @ s"
| "flow_error_to_string (AIProvider s) = ''AI provider error: '' @ s"
| "flow_error_to_string (MaxIterationsExceeded limit) = ''Maximum iterations exceeded: '' @ show_nat (unat limit)"
| "flow_error_to_string (TimeoutExceeded ms) = ''Timeout exceeded after '' @ show_nat (unat ms) @ ''ms''"
| "flow_error_to_string VersionConflict = ''Version conflict: instance was modified by another process''"
| "flow_error_to_string (CompensationFailed step_id e) = ''Compensation failed for step '' @ step_id @ '': '' @ e"
| "flow_error_to_string (Serialization s) = ''Serialization error: '' @ s"
| "flow_error_to_string (InvalidStateTransition a b) = ''Invalid state transition from '' @ a @ '' to '' @ b"
| "flow_error_to_string (AlreadyTerminated s) = ''Flow instance is already '' @ s"
| "flow_error_to_string (MissingProperty s) = ''Missing required property: '' @ s"
| "flow_error_to_string (Other s) = ''Flow error: '' @ s"
| "flow_error_to_string (ChildFlowError s) = ''Child flow error: '' @ s"
| "flow_error_to_string AllChildFlowsFailed = ''All child flows failed''"
| "flow_error_to_string (ParallelExecutionError s) = ''Parallel execution error: '' @ s"
| "flow_error_to_string (InvalidNodeConfiguration s) = ''Invalid node configuration: '' @ s"
| "flow_error_to_string (NotSupported s) = ''Not supported: '' @ s"
| "flow_error_to_string (MergeConflict b d) = ''Merge conflict in isolated branch '' @ quoted b @ '': '' @ d"
| "flow_error_to_string (BranchOperationFailed s) = ''Branch operation failed: '' @ s"
| "flow_error_to_string (PermissionDenied s) = ''Permission denied: '' @ s"
| "flow_error_to_string (SecurityViolation s) = ''Security policy violation: '' @ s"

section \<open>Lifetime limits\<close>

record flow_execution_limits =
  max_step_attempts :: u32
  max_elapsed_ms :: u64

definition DEFAULT_MAX_STEP_ATTEMPTS :: u32 where
  "DEFAULT_MAX_STEP_ATTEMPTS = 10000"

definition DEFAULT_MAX_ELAPSED_MS :: u64 where
  "DEFAULT_MAX_ELAPSED_MS = 30 * 24 * 60 * 60 * 1000"

definition limit_integer :: "(string \<times> json) list \<Rightarrow> string \<Rightarrow> u64 \<Rightarrow> u64 \<Rightarrow> flow_error + u64" where
  "limit_integer object key fallback maximum =
     (case hm_get object key of
        None \<Rightarrow> Inr fallback
      | Some value \<Rightarrow>
          (case as_u64 value of
             Some v \<Rightarrow>
               if 0 < v \<and> v \<le> maximum then Inr v
               else Inl (InvalidDefinition (''execution_limits.'' @ key @ '' must be an integer from 1 to '' @ show_nat (unat maximum)))
           | None \<Rightarrow> Inl (InvalidDefinition (''execution_limits.'' @ key @ '' must be an integer from 1 to '' @ show_nat (unat maximum)))))"

definition unknown_limit :: "string \<Rightarrow> bool" where
  "unknown_limit key \<longleftrightarrow> key \<noteq> ''max_step_attempts'' \<and> key \<noteq> ''max_elapsed_ms''"

definition limits_parse :: "json option \<Rightarrow> flow_error + flow_execution_limits" where
  "limits_parse policy =
     (case policy of
        None \<Rightarrow> Inr \<lparr>max_step_attempts = DEFAULT_MAX_STEP_ATTEMPTS, max_elapsed_ms = DEFAULT_MAX_ELAPSED_MS\<rparr>
      | Some p \<Rightarrow>
          (case as_object p of
             None \<Rightarrow> Inl (InvalidDefinition ''execution_limits must be an object'')
           | Some object \<Rightarrow>
               (case find unknown_limit (hm_keys object) of
                  Some key \<Rightarrow> Inl (InvalidDefinition (''unknown execution limit '' @ key))
                | None \<Rightarrow>
                    (case limit_integer object ''max_step_attempts'' (ucast DEFAULT_MAX_STEP_ATTEMPTS) 1000000 of
                       Inl e \<Rightarrow> Inl e
                     | Inr attempts \<Rightarrow>
                         (case limit_integer object ''max_elapsed_ms'' DEFAULT_MAX_ELAPSED_MS (365 * 24 * 60 * 60 * 1000) of
                            Inl e \<Rightarrow> Inl e
                          | Inr elapsed \<Rightarrow> Inr \<lparr>max_step_attempts = ucast attempts, max_elapsed_ms = elapsed\<rparr>)))))"

section \<open>Lookup\<close>

lemma fn_children_smaller [termination_simp]: "size_list size (fn_children node) < Suc (size node + k)"
  by (cases node) simp

definition usize_MAX :: nat where
  "usize_MAX = 2 ^ 64 - 1"

definition index_child :: "flow_node \<Rightarrow> (string, nat) hash_map \<Rightarrow> (string, nat) hash_map" where
  "index_child c index = (if hm_get index (fn_id c) = None then hm_insert (fn_id c) usize_MAX index else index)"

fun index_children :: "(string, nat) hash_map \<Rightarrow> flow_node list \<Rightarrow> (string, nat) hash_map" where
  "index_children index [] = index"
| "index_children index (node # nodes) =
     index_children
       (if fn_children node \<noteq> [] then index_children (fold index_child (fn_children node) index) (fn_children node)
        else fold index_child (fn_children node) index) nodes"

definition top_index :: "flow_node list \<Rightarrow> (string, nat) hash_map" where
  "top_index nodes = fold (\<lambda>(i, node) index. hm_insert (fn_id node) i index) (enumerate 0 nodes) []"

definition build_index :: "flow_definition \<Rightarrow> flow_definition" where
  "build_index def = def\<lparr>fd_node_index := Some (index_children (top_index (fd_nodes def)) (fd_nodes def))\<rparr>"

fun find_in_children :: "string \<Rightarrow> flow_node list \<Rightarrow> flow_node option" where
  "find_in_children node_id [] = None"
| "find_in_children node_id (node # nodes) =
     (case find (\<lambda>c. fn_id c = node_id) (fn_children node) of
        Some child \<Rightarrow> Some child
      | None \<Rightarrow>
          (case find_in_children node_id (fn_children node) of
             Some found \<Rightarrow> Some found
           | None \<Rightarrow> find_in_children node_id nodes))"

definition find_linear :: "string \<Rightarrow> flow_node list \<Rightarrow> flow_node option" where
  "find_linear node_id nodes =
     (case find (\<lambda>n. fn_id n = node_id) nodes of Some n \<Rightarrow> Some n | None \<Rightarrow> find_in_children node_id nodes)"

definition find_node :: "flow_definition \<Rightarrow> string \<Rightarrow> flow_node option" where
  "find_node def node_id =
     (case fd_node_index def of
        Some index \<Rightarrow>
          (case hm_get index node_id of
             Some idx \<Rightarrow>
               if idx \<noteq> usize_MAX then (if idx < length (fd_nodes def) then Some (fd_nodes def ! idx) else None)
               else find_in_children node_id (fd_nodes def)
           | None \<Rightarrow> None)
      | None \<Rightarrow> find_linear node_id (fd_nodes def))"

definition start_node :: "flow_definition \<Rightarrow> flow_node option" where
  "start_node def = find (\<lambda>n. fn_step_type n = Start) (fd_nodes def)"

definition outgoing_edges :: "flow_definition \<Rightarrow> string \<Rightarrow> flow_edge list" where
  "outgoing_edges def node_id = filter (\<lambda>e. fe_from e = node_id) (fd_edges def)"

definition next_node_id :: "flow_definition \<Rightarrow> string \<Rightarrow> string option" where
  "next_node_id def node_id = (case outgoing_edges def node_id of [] \<Rightarrow> None | e # _ \<Rightarrow> Some (fe_to e))"

text \<open>Edges from the \<open>next_node\<close> fields, when the definition lists none.\<close>

definition next_edge :: "flow_node \<Rightarrow> flow_edge list" where
  "next_edge node =
     (case fn_next_node node of
        Some t \<Rightarrow> [\<lparr>fe_from = fn_id node, fe_to = t, fe_label = None, fe_condition = None\<rparr>]
      | None \<Rightarrow> [])"

fun generate_edges_from_children :: "flow_node list \<Rightarrow> flow_edge list" where
  "generate_edges_from_children [] = []"
| "generate_edges_from_children (node # nodes) =
     concat (map next_edge (fn_children node))
       @ (if fn_children node \<noteq> [] then generate_edges_from_children (fn_children node) else [])
       @ generate_edges_from_children nodes"

definition with_generated_edges :: "flow_definition \<Rightarrow> flow_definition" where
  "with_generated_edges def =
     build_index
       (if fd_edges def = [] then
          def\<lparr>fd_edges := concat (map next_edge (fd_nodes def)) @ generate_edges_from_children (fd_nodes def)\<rparr>
        else def)"

section \<open>Validation\<close>

definition edge_keys :: "string list" where
  "edge_keys = [''yes_branch'', ''no_branch'', ''error_edge'', ''timeout_edge'', ''next_step'']"

definition node_targets :: "flow_node \<Rightarrow> (string \<times> string) list" where
  "node_targets node =
     (case fn_next_node node of Some t \<Rightarrow> [(''next_node'', t)] | None \<Rightarrow> [])
       @ concat (map (\<lambda>key. case get_string_property node key of Some t \<Rightarrow> [(key, t)] | None \<Rightarrow> []) edge_keys)"

definition target_problems :: "flow_definition \<Rightarrow> flow_node \<Rightarrow> string list" where
  "target_problems def node =
     map (\<lambda>(key, t). ''step '' @ quoted (fn_id node) @ '' has '' @ key @ '' -> '' @ quoted t @ '', which is not a node in this flow'')
       (filter (\<lambda>(_, t). find_node def t = None) (node_targets node))"

definition loop_shapes :: "flow_node \<Rightarrow> string list" where
  "loop_shapes node = filter (\<lambda>k. hm_get (fn_properties node) k \<noteq> None) [''collection'', ''condition'', ''times'']"

fun join_comma :: "string list \<Rightarrow> string" where
  "join_comma [] = []"
| "join_comma [x] = x"
| "join_comma (x # xs) = x @ '', '' @ join_comma xs"

definition shape_problems :: "flow_node \<Rightarrow> string list" where
  "shape_problems node =
     (if length (loop_shapes node) = 0 then
        [''loop '' @ quoted (fn_id node) @ '' names none of '' @ quoted ''over'' @ '' / '' @ quoted ''while'' @ '' / '' @ quoted ''times'']
      else if length (loop_shapes node) = 1 then []
      else
        [''loop '' @ quoted (fn_id node) @ '' names '' @ show_nat (length (loop_shapes node)) @ '' shapes at once (''
           @ join_comma (loop_shapes node) @ ''); exactly one decides how it iterates''])"

definition unbounded_problems :: "flow_node \<Rightarrow> string list" where
  "unbounded_problems node =
     (if (case get_bool_property node ''unbounded'' of Some b \<Rightarrow> b | None \<Rightarrow> False) then
        (if hm_get (fn_properties node) ''condition'' = None then
           [''loop '' @ quoted (fn_id node) @ '' is '' @ quoted ''unbounded'' @ '' but is not a '' @ quoted ''while'' @ '' loop; ''
              @ quoted ''over'' @ '' is bounded by its collection and '' @ quoted ''times'' @ '' by its count'']
         else [])
        @ (if hm_get (fn_properties node) ''max_iterations'' \<noteq> None then
             [''loop '' @ quoted (fn_id node) @ '' is both '' @ quoted ''unbounded'' @ '' and capped by ''
                @ quoted ''max_iterations'' @ ''; pick one'']
           else [])
      else [])"

definition loop_problems :: "flow_node \<Rightarrow> string list" where
  "loop_problems node = (if fn_step_type node = Loop then shape_problems node @ unbounded_problems node else [])"

fun check_nodes :: "flow_definition \<Rightarrow> flow_node list \<Rightarrow> string list" where
  "check_nodes def [] = []"
| "check_nodes def (node # nodes) =
     target_problems def node @ loop_problems node @ check_nodes def (fn_children node) @ check_nodes def nodes"

fun check_ids :: "flow_node list \<Rightarrow> string hash_set \<times> string list \<Rightarrow> string hash_set \<times> string list" where
  "check_ids [] s = s"
| "check_ids (node # nodes) (seen, problems) =
     check_ids nodes
       (check_ids (fn_children node)
          (if fn_id node \<in> set seen then (seen, problems @ [''duplicate step id '' @ quoted (fn_id node)])
           else (fn_id node # seen, problems)))"

fun join_semicolon :: "string list \<Rightarrow> string" where
  "join_semicolon [] = []"
| "join_semicolon [x] = x"
| "join_semicolon (x # xs) = x @ ''; '' @ join_semicolon xs"

definition problems_of :: "flow_definition \<Rightarrow> string list" where
  "problems_of def = snd (check_ids (fd_nodes def) ([], check_nodes def (fd_nodes def)))"

definition validate :: "flow_definition \<Rightarrow> flow_error + unit" where
  "validate def =
     (case limits_parse (hm_get (fm_custom (fd_metadata def)) ''execution_limits'') of
        Inl e \<Rightarrow> Inl e
      | Inr _ \<Rightarrow>
          if fd_nodes def = [] then Inl (InvalidDefinition ''flow has no nodes'')
          else if problems_of def = [] then Inr () else Inl (InvalidDefinition (join_semicolon (problems_of def))))"

text \<open>
  The parser of a stored definition. Deserialisation by serde and the lowering of the designer's format are arguments:
  \<open>de_definition\<close>, \<open>de_designer\<close> give the document or the text of an error, \<open>to_runtime_format\<close> the lowered definition.
\<close>

definition is_designer_format :: "json \<Rightarrow> bool" where
  "is_designer_format value =
     (case Option.bind (jget ''nodes'' value) as_array of
        None \<Rightarrow> False
      | Some [] \<Rightarrow> True
      | Some (node # _) \<Rightarrow> jget ''node_type'' node \<noteq> None)"

definition from_workflow_data ::
  "(json \<Rightarrow> string + flow_definition) \<Rightarrow> (json \<Rightarrow> string + 'd) \<Rightarrow> ('d \<Rightarrow> flow_definition) \<Rightarrow> json \<Rightarrow> flow_error + flow_definition" where
  "from_workflow_data de_definition de_designer to_runtime_format value =
     (if Option.bind (jget ''format'' value) json_as_str = Some ''compiled'' then
        (case de_definition value of
           Inl e \<Rightarrow> Inl (InvalidDefinition (''Invalid compiled format: '' @ e))
         | Inr def \<Rightarrow> Inr (build_index def))
      else if is_designer_format value then
        (case de_designer value of
           Inl e \<Rightarrow> Inl (InvalidDefinition (''Failed to parse designer format: '' @ e))
         | Inr designer \<Rightarrow> Inr (build_index (to_runtime_format designer)))
      else
        (case de_definition value of
           Inl e \<Rightarrow> Inl (InvalidDefinition (''Failed to parse flow definition: '' @ e))
         | Inr def \<Rightarrow> Inr (with_generated_edges def)))"

section \<open>Lookup finds the node\<close>

text \<open>All nodes of a definition, a node before its children.\<close>

fun all_nodes :: "flow_node list \<Rightarrow> flow_node list" where
  "all_nodes [] = []"
| "all_nodes (node # nodes) = node # all_nodes (fn_children node) @ all_nodes nodes"

abbreviation all_ids :: "flow_node list \<Rightarrow> string list" where
  "all_ids nodes \<equiv> map fn_id (all_nodes nodes)"

definition child_nodes :: "flow_node list \<Rightarrow> flow_node list" where
  "child_nodes nodes = concat (map (\<lambda>n. all_nodes (fn_children n)) nodes)"

lemma set_all_nodes: "set (all_nodes nodes) = set nodes \<union> set (child_nodes nodes)"
  by (induction nodes) (auto simp: child_nodes_def)

lemma child_nodes_step: "set (child_nodes (node # nodes)) = set (fn_children node) \<union> set (child_nodes (fn_children node)) \<union> set (child_nodes nodes)"
  using set_all_nodes [of "fn_children node"] by (auto simp: child_nodes_def)

lemma find_in_children_sound: "find_in_children node_id nodes = Some n \<Longrightarrow> n \<in> set (child_nodes nodes) \<and> fn_id n = node_id"
  by (induction node_id nodes rule: find_in_children.induct)
    (auto simp: child_nodes_step find_Some_iff split: option.splits)

lemma find_in_children_None: "find_in_children node_id nodes = None \<longleftrightarrow> node_id \<notin> fn_id ` set (child_nodes nodes)"
proof (induction node_id nodes rule: find_in_children.induct)
  case (2 node_id node nodes)
  then show ?case unfolding child_nodes_step
    by (auto simp: find_None_iff find_Some_iff split: option.splits)
qed (simp add: child_nodes_def)

lemma top_index_get:
  "case hm_get (top_index nodes) k of
     None \<Rightarrow> k \<notin> fn_id ` set nodes
   | Some i \<Rightarrow> i < length nodes \<and> fn_id (nodes ! i) = k"
proof (induction nodes rule: rev_induct)
  case (snoc node nodes)
  have "top_index (nodes @ [node]) = hm_insert (fn_id node) (length nodes) (top_index nodes)"
    by (simp add: top_index_def enumerate_append_eq)
  with snoc show ?case by (auto simp: hm_simps nth_append split: option.splits)
qed (simp add: top_index_def)

lemma index_child_get:
  "hm_get (fold index_child nodes index) k =
     (case hm_get index k of Some v \<Rightarrow> Some v | None \<Rightarrow> if k \<in> fn_id ` set nodes then Some usize_MAX else None)"
  by (induction nodes arbitrary: index) (auto simp: index_child_def hm_simps split: option.splits)

lemma index_children_get:
  "hm_get (index_children index nodes) k =
     (case hm_get index k of Some v \<Rightarrow> Some v | None \<Rightarrow> if k \<in> fn_id ` set (child_nodes nodes) then Some usize_MAX else None)"
proof (induction index nodes rule: index_children.induct)
  case (2 index node nodes)
  show ?case
  proof (cases "fn_children node = []")
    case True
    with 2(2) show ?thesis by (auto simp: child_nodes_def split: option.splits)
  next
    case False
    with 2 show ?thesis unfolding child_nodes_step by (auto simp: index_child_get split: option.splits)
  qed
qed (simp add: child_nodes_def split: option.splits)

text \<open>The node a lookup through the index returns has the identifier, and one is found whenever there is one.\<close>

lemma find_node_indexed:
  assumes "length (fd_nodes def) \<le> usize_MAX"
  shows "case find_node (build_index def) k of
      None \<Rightarrow> k \<notin> set (all_ids (fd_nodes def))
    | Some n \<Rightarrow> n \<in> set (all_nodes (fd_nodes def)) \<and> fn_id n = k"
proof (cases "hm_get (top_index (fd_nodes def)) k")
  case None
  then have top: "k \<notin> fn_id ` set (fd_nodes def)" using top_index_get [of k "fd_nodes def"] by simp
  show ?thesis
  proof (cases "k \<in> fn_id ` set (child_nodes (fd_nodes def))")
    case True
    then obtain n where "find_in_children k (fd_nodes def) = Some n"
      using find_in_children_None by blast
    with True None show ?thesis using find_in_children_sound
      by (fastforce simp: find_node_def build_index_def index_children_get set_all_nodes)
  next
    case False
    with None top show ?thesis by (auto simp: find_node_def build_index_def index_children_get set_all_nodes)
  qed
next
  case (Some i)
  then have "i < length (fd_nodes def)" "fn_id (fd_nodes def ! i) = k" using top_index_get [of k "fd_nodes def"] by simp_all
  with Some assms show ?thesis
    by (auto simp: find_node_def build_index_def index_children_get set_all_nodes)
qed

lemma find_linear_cases:
  "case find_linear k nodes of
     None \<Rightarrow> k \<notin> set (all_ids nodes)
   | Some n \<Rightarrow> n \<in> set (all_nodes nodes) \<and> fn_id n = k"
  using find_in_children_None [of k nodes] find_in_children_sound [of k nodes]
  by (auto simp: find_linear_def set_all_nodes find_Some_iff find_None_iff split: option.splits)

lemma find_unique:
  assumes "distinct (map f xs)" and "case r of None \<Rightarrow> k \<notin> set (map f xs) | Some x \<Rightarrow> x \<in> set xs \<and> f x = k"
  shows "r = find (\<lambda>x. f x = k) xs"
proof (cases r)
  case None
  with assms(2) show ?thesis by (auto simp: find_None_iff image_iff intro!: find_None_iff [THEN iffD2, symmetric])
next
  case (Some x)
  with assms(2) have x: "x \<in> set xs" "f x = k" by simp_all
  then obtain y where y: "find (\<lambda>x. f x = k) xs = Some y" by (cases "find (\<lambda>x. f x = k) xs") (auto simp: find_None_iff)
  then have "y \<in> set xs" "f y = k" by (auto simp: find_Some_iff)
  with x assms(1) have "x = y" by (auto simp: distinct_map inj_on_def)
  with y Some show ?thesis by simp
qed

text \<open>
  When identifiers are unique, the lookup through the index and the linear fallback both find the one node with the
  identifier, at any depth, and report none exactly when there is none.
\<close>

theorem find_node_exact:
  assumes "length (fd_nodes def) \<le> usize_MAX" and "distinct (all_ids (fd_nodes def))"
  shows "find_node (build_index def) k = find (\<lambda>n. fn_id n = k) (all_nodes (fd_nodes def))"
    and "find_linear k (fd_nodes def) = find (\<lambda>n. fn_id n = k) (all_nodes (fd_nodes def))"
  by (rule find_unique [OF assms(2) find_node_indexed [OF assms(1)]])
    (rule find_unique [OF assms(2) find_linear_cases])

section \<open>What validation accepts\<close>

definition loop_ok :: "flow_node \<Rightarrow> bool" where
  "loop_ok n \<longleftrightarrow> (fn_step_type n = Loop \<longrightarrow>
     length (loop_shapes n) = 1 \<and>
     (get_bool_property n ''unbounded'' = Some True \<longrightarrow>
        hm_get (fn_properties n) ''condition'' \<noteq> None \<and> hm_get (fn_properties n) ''max_iterations'' = None))"

lemma check_ids_set: "set (fst (check_ids nodes s)) = set (fst s) \<union> set (all_ids nodes)"
  by (induction nodes s rule: check_ids.induct) (auto split: if_splits)

lemma check_ids_Nil:
  "snd (check_ids nodes s) = [] \<longleftrightarrow> snd s = [] \<and> distinct (all_ids nodes) \<and> set (fst s) \<inter> set (all_ids nodes) = {}"
proof (induction nodes s rule: check_ids.induct)
  case (2 node nodes seen problems)
  let ?s = "if fn_id node \<in> set seen then (seen, problems @ [''duplicate step id '' @ quoted (fn_id node)])
           else (fn_id node # seen, problems)"
  have "snd (check_ids (node # nodes) (seen, problems)) = [] \<longleftrightarrow>
      snd (check_ids (fn_children node) ?s) = [] \<and> distinct (all_ids nodes) \<and>
      set (fst (check_ids (fn_children node) ?s)) \<inter> set (all_ids nodes) = {}"
    using 2 by simp
  also have "\<dots> \<longleftrightarrow> snd ?s = [] \<and> distinct (all_ids (fn_children node)) \<and> set (fst ?s) \<inter> set (all_ids (fn_children node)) = {} \<and>
      distinct (all_ids nodes) \<and> (set (fst ?s) \<union> set (all_ids (fn_children node))) \<inter> set (all_ids nodes) = {}"
    using 2(1) by (simp only: check_ids_set) blast
  also have "\<dots> \<longleftrightarrow> problems = [] \<and> distinct (all_ids (node # nodes)) \<and> set seen \<inter> set (all_ids (node # nodes)) = {}"
    by auto
  finally show ?case by simp
qed simp

lemma check_nodes_Nil:
  "check_nodes def nodes = [] \<longleftrightarrow> (\<forall>n \<in> set (all_nodes nodes). target_problems def n = [] \<and> loop_problems n = [])"
  by (induction def nodes rule: check_nodes.induct) auto

lemma loop_problems_Nil: "loop_problems n = [] \<longleftrightarrow> loop_ok n"
  by (auto simp: loop_problems_def loop_ok_def shape_problems_def unbounded_problems_def split: option.splits if_splits)

lemma target_problems_Nil:
  assumes "length (fd_nodes def) \<le> usize_MAX"
  shows "target_problems (build_index def) n = [] \<longleftrightarrow> snd ` set (node_targets n) \<subseteq> set (all_ids (fd_nodes def))"
proof -
  have "find_node (build_index def) t = None \<longleftrightarrow> t \<notin> set (all_ids (fd_nodes def))" for t
    using find_node_indexed [OF assms, of t] by (auto split: option.splits)
  then show ?thesis by (force simp: target_problems_def filter_empty_conv)
qed

lemma shows_validate:
  "validate def = Inr () \<longleftrightarrow>
     (\<exists>l. limits_parse (hm_get (fm_custom (fd_metadata def)) ''execution_limits'') = Inr l) \<and> fd_nodes def \<noteq> [] \<and>
     distinct (all_ids (fd_nodes def)) \<and> check_nodes def (fd_nodes def) = []"
  by (auto simp: validate_def problems_of_def check_ids_Nil split: sum.splits)


text \<open>A draft with a review that goes back to it; a loop below a container.\<close>

definition review_flow :: flow_definition where
  "review_flow = \<lparr>fd_nodes =
     [FlowNode ''start'' Start [] [] (Some ''draft''),
      FlowNode ''draft'' FunctionStep [(''error_edge'', JString ''end'')] [] (Some ''review''),
      FlowNode ''review'' Decision [(''yes_branch'', JString ''draft''), (''no_branch'', JString ''each'')] [] None,
      FlowNode ''box'' Container [] [FlowNode ''each'' Loop [(''times'', json_u64 3)] [] None] (Some ''end''),
      FlowNode ''end'' End [] [] None],
     fd_edges = [], fd_metadata = \<lparr>fm_name = None, fm_description = None, fm_version = None, fm_custom = []\<rparr>, fd_node_index = None\<rparr>"


text \<open>
  Edges listed by the definition itself are not checked, although a node without \<open>next_node\<close> follows them: a definition
  with a dangling edge validates. Nodes with one identifier are told apart by the two lookups: the index finds the
  last, the linear search the first.
\<close>

definition dangling_flow :: flow_definition where
  "dangling_flow = \<lparr>fd_nodes = [FlowNode ''start'' Start [] [] None],
     fd_edges = [\<lparr>fe_from = ''start'', fe_to = ''nowhere'', fe_label = None, fe_condition = None\<rparr>],
     fd_metadata = \<lparr>fm_name = None, fm_description = None, fm_version = None, fm_custom = []\<rparr>, fd_node_index = None\<rparr>"

lemma dangling_edge_validates:
  "validate (with_generated_edges dangling_flow) = Inr () \<and>
   next_node_id (with_generated_edges dangling_flow) ''start'' = Some ''nowhere'' \<and>
   find_node (with_generated_edges dangling_flow) ''nowhere'' = None"
  by (simp add: dangling_flow_def with_generated_edges_def build_index_def validate_def limits_parse_def problems_of_def
      target_problems_def node_targets_def edge_keys_def get_string_property_def get_property_def loop_problems_def
      next_node_id_def outgoing_edges_def find_node_def top_index_def)

lemma duplicate_ids_lookup_differs:
  fixes def :: flow_definition
  defines "a \<equiv> FlowNode ''twin'' Start [] [] None" and "b \<equiv> FlowNode ''twin'' End [] [] None"
  assumes "fd_nodes def = [a, b]"
  shows "find_node (build_index def) ''twin'' = Some b" and "find_linear ''twin'' (fd_nodes def) = Some a"
  by (simp_all add: assms(3) a_def b_def find_node_def build_index_def top_index_def find_linear_def usize_MAX_def)

end
