(* ===== verification/Flow_Instance.thy ===== *)
theory Flow_Instance
  imports Flow_Definition
begin

text \<open>
  The instance of a running flow (\<open>types/flow_instance.rs\<close>, \<open>compensation.rs\<close>, \<open>test_config.rs\<close>, \<open>context.rs\<close>,
  \<open>execution_limits.rs\<close>, \<open>result.rs\<close>) and the helpers of the executor that work on it (\<open>runtime/executor/helpers.rs\<close>,
  \<open>runtime/retry.rs\<close>): limits, retries, visits, recorded outputs, checkpoints and forks. An instant is a number of
  nanoseconds; every instant that the code reads from the clock is an argument.
\<close>

type_synonym datetime = int

section \<open>Data\<close>

datatype flow_status = Pending | Running | Waiting | Completed | Failed | Cancelled | RolledBack

datatype wait_type = ToolCall | HumanTaskWait | Scheduled | Event | Retry | JoinWait | FunctionCall | ChatSession | AgentRun

record wait_info =
  wi_subscription_id :: string
  wi_wait_type :: wait_type
  wi_target_path :: "string option"
  wi_expected_event :: "string option"
  wi_timeout_at :: "datetime option"

datatype compensation_status = CompPending | CompExecuted | CompFailed string

record compensation_entry =
  ce_step_id :: string
  ce_completed_at :: datetime
  ce_compensation_fn :: string
  ce_compensation_input :: json
  ce_compensation_status :: compensation_status
  ce_executed_at :: "datetime option"

record flow_checkpoint =
  cp_seq :: u32
  cp_node_id :: string
  cp_variables :: json
  cp_visit :: u64
  cp_wait_info :: "wait_info option"
  cp_recorded_at :: datetime

record flow_metrics =
  fx_execution_attempts :: u64
  fx_total_duration_ms :: u64
  fx_step_count :: u32
  fx_retry_count :: u32
  fx_compensation_count :: u32
  fx_ai_iteration_count :: u32
  fx_ai_call_count :: u32
  fx_total_input_tokens :: u64
  fx_total_output_tokens :: u64
  fx_custom :: json

definition metrics_default :: flow_metrics where
  "metrics_default = \<lparr>fx_execution_attempts = 0, fx_total_duration_ms = 0, fx_step_count = 0, fx_retry_count = 0,
     fx_compensation_count = 0, fx_ai_iteration_count = 0, fx_ai_call_count = 0, fx_total_input_tokens = 0,
     fx_total_output_tokens = 0, fx_custom = JNull\<rparr>"

datatype mock_behavior = Real | Passthrough | MockOutput

record function_mock =
  mk_behavior :: mock_behavior
  mk_mock_output :: "json option"
  mk_mock_delay_ms :: "u64 option"

record test_run_config =
  tc_is_test_run :: bool
  tc_mock_functions :: "(string, function_mock) hash_map"
  tc_mock_agents :: "(string, function_mock) hash_map"
  tc_isolated_branch :: bool
  tc_branch_name :: "string option"
  tc_auto_discard :: bool

record flow_instance =
  ins_id :: string
  ins_version :: u32
  ins_flow_ref :: string
  ins_flow_version :: u32
  ins_flow_definition_snapshot :: json
  ins_status :: flow_status
  ins_current_node_id :: string
  ins_wait_info :: "wait_info option"
  ins_variables :: json
  ins_input :: json
  ins_output :: "json option"
  ins_compensation_stack :: "compensation_entry list"
  ins_error :: "string option"
  ins_retry_count :: u32
  ins_checkpoints :: "flow_checkpoint list"
  ins_started_at :: datetime
  ins_completed_at :: "datetime option"
  ins_parent_instance_ref :: "string option"
  ins_metrics :: flow_metrics
  ins_test_config :: "test_run_config option"

datatype step_result =
    Continue string json
  | WaitFor string json
  | SameStep json
  | Complete json
  | StepError flow_error

section \<open>Compensation entries\<close>

definition compensation_new :: "datetime \<Rightarrow> string \<Rightarrow> string \<Rightarrow> json \<Rightarrow> compensation_entry" where
  "compensation_new now step_id compensation_fn compensation_input =
     \<lparr>ce_step_id = step_id, ce_completed_at = now, ce_compensation_fn = compensation_fn,
      ce_compensation_input = compensation_input, ce_compensation_status = CompPending, ce_executed_at = None\<rparr>"

definition mark_executed :: "datetime \<Rightarrow> compensation_entry \<Rightarrow> compensation_entry" where
  "mark_executed now e = e\<lparr>ce_compensation_status := CompExecuted, ce_executed_at := Some now\<rparr>"

definition mark_failed :: "datetime \<Rightarrow> string \<Rightarrow> compensation_entry \<Rightarrow> compensation_entry" where
  "mark_failed now err e = e\<lparr>ce_compensation_status := CompFailed err, ce_executed_at := Some now\<rparr>"

definition is_pending :: "compensation_entry \<Rightarrow> bool" where
  "is_pending e \<longleftrightarrow> ce_compensation_status e = CompPending"

section \<open>Instances, checkpoints and forks\<close>

definition instance_new :: "string \<Rightarrow> datetime \<Rightarrow> string \<Rightarrow> u32 \<Rightarrow> json \<Rightarrow> json \<Rightarrow> string \<Rightarrow> flow_instance" where
  "instance_new instance_id now flow_ref flow_version snapshot input start_node_id =
     \<lparr>ins_id = instance_id, ins_version = 1, ins_flow_ref = flow_ref, ins_flow_version = flow_version,
      ins_flow_definition_snapshot = snapshot, ins_status = Pending, ins_current_node_id = start_node_id, ins_wait_info = None,
      ins_variables = JObject [], ins_input = input, ins_output = None, ins_compensation_stack = [], ins_error = None,
      ins_retry_count = 0, ins_checkpoints = [], ins_started_at = now, ins_completed_at = None,
      ins_parent_instance_ref = None, ins_metrics = metrics_default, ins_test_config = None\<rparr>"

definition is_terminated :: "flow_instance \<Rightarrow> bool" where
  "is_terminated i \<longleftrightarrow> ins_status i \<in> {Completed, Failed, Cancelled, RolledBack}"

definition checkpoint_limit :: "json \<Rightarrow> nat" where
  "checkpoint_limit def =
     unat (case Option.bind (Option.bind (Option.bind (jget ''metadata'' def) (jget ''custom'')) (jget ''checkpoints'')) as_u64 of
             Some n \<Rightarrow> n | None \<Rightarrow> 0)"

definition record_checkpoint :: "nat \<Rightarrow> u64 \<Rightarrow> datetime \<Rightarrow> flow_instance \<Rightarrow> flow_instance" where
  "record_checkpoint limit visit now i =
     (if limit = 0 then i
      else
        let seq = (if ins_checkpoints i = [] then 0 else cp_seq (last (ins_checkpoints i)) + 1);
            cps = ins_checkpoints i @ [\<lparr>cp_seq = seq, cp_node_id = ins_current_node_id i, cp_variables = ins_variables i,
                     cp_visit = visit, cp_wait_info = ins_wait_info i, cp_recorded_at = now\<rparr>]
        in i\<lparr>ins_checkpoints := drop (length cps - limit) cps\<rparr>)"

definition fork_from_checkpoint :: "flow_instance \<Rightarrow> u32 \<Rightarrow> string \<Rightarrow> datetime \<Rightarrow> flow_instance option" where
  "fork_from_checkpoint i seq new_id now =
     (case find (\<lambda>c. cp_seq c = seq) (ins_checkpoints i) of
        None \<Rightarrow> None
      | Some c \<Rightarrow>
          Some \<lparr>ins_id = new_id, ins_version = 1, ins_flow_ref = ins_flow_ref i, ins_flow_version = ins_flow_version i,
            ins_flow_definition_snapshot = ins_flow_definition_snapshot i, ins_status = Pending,
            ins_current_node_id = cp_node_id c, ins_wait_info = None, ins_variables = cp_variables c, ins_input = ins_input i,
            ins_output = None, ins_compensation_stack = [], ins_error = None, ins_retry_count = 0, ins_checkpoints = [],
            ins_started_at = now, ins_completed_at = None, ins_parent_instance_ref = None, ins_metrics = metrics_default,
            ins_test_config = ins_test_config i\<rparr>)"

section \<open>Lifetime limits\<close>

text \<open>\<open>signed_duration_since(..).num_milliseconds().max(0) as u64\<close>.\<close>

definition elapsed_ms_since :: "datetime \<Rightarrow> datetime \<Rightarrow> u64" where
  "elapsed_ms_since started now = word_of_int (max 0 ((now - started) div 1000000))"

definition charge_attempt :: "flow_execution_limits \<Rightarrow> datetime \<Rightarrow> flow_instance \<Rightarrow> flow_error + flow_instance" where
  "charge_attempt limits now i =
     (if max_elapsed_ms limits \<le> elapsed_ms_since (ins_started_at i) now then Inl (TimeoutExceeded (max_elapsed_ms limits))
      else
        let attempts = max (fx_execution_attempts (ins_metrics i)) (ucast (fx_step_count (ins_metrics i)))
        in if ucast (max_step_attempts limits) \<le> attempts then Inl (MaxIterationsExceeded (max_step_attempts limits))
           else Inr (i\<lparr>ins_metrics := (ins_metrics i)\<lparr>fx_execution_attempts := attempts + 1\<rparr>\<rparr>))"

section \<open>Retries\<close>

text \<open>The presets; the factor of the random jitter, which the executor does not use, is left out.\<close>

record retry_config =
  rc_max_retries :: u32
  rc_base_delay_ms :: u64
  rc_max_delay_ms :: u64

definition strategy_none :: retry_config where
  "strategy_none = \<lparr>rc_max_retries = 0, rc_base_delay_ms = 0, rc_max_delay_ms = 0\<rparr>"

definition strategy_quick :: retry_config where
  "strategy_quick = \<lparr>rc_max_retries = 3, rc_base_delay_ms = 1000, rc_max_delay_ms = 10000\<rparr>"

definition strategy_standard :: retry_config where
  "strategy_standard = \<lparr>rc_max_retries = 5, rc_base_delay_ms = 2000, rc_max_delay_ms = 60000\<rparr>"

definition strategy_aggressive :: retry_config where
  "strategy_aggressive = \<lparr>rc_max_retries = 10, rc_base_delay_ms = 5000, rc_max_delay_ms = 120000\<rparr>"

definition strategy_llm :: retry_config where
  "strategy_llm = \<lparr>rc_max_retries = 5, rc_base_delay_ms = 10000, rc_max_delay_ms = 120000\<rparr>"

definition retry_strategy_config :: "flow_node \<Rightarrow> retry_config option" where
  "retry_strategy_config step =
     (case Option.bind (hm_get (fn_properties step) ''retry_strategy'') json_as_str of
        None \<Rightarrow> None
      | Some name \<Rightarrow>
          if name = ''none'' then Some strategy_none
          else if name = ''quick'' then Some strategy_quick
          else if name = ''standard'' then Some strategy_standard
          else if name = ''aggressive'' then Some strategy_aggressive
          else if name = ''llm'' then Some strategy_llm
          else None)"

definition get_max_retries :: "flow_node \<Rightarrow> u32" where
  "get_max_retries step =
     (case get_u32_property step ''max_retries'' of
        Some n \<Rightarrow> n
      | None \<Rightarrow>
          (case retry_strategy_config step of
             Some c \<Rightarrow> rc_max_retries c
           | None \<Rightarrow> default_max_retries (fn_step_type step)))"

definition saturating_mul :: "u64 \<Rightarrow> u64 \<Rightarrow> u64" where
  "saturating_mul a b = (if unat a * unat b < 2 ^ 64 then a * b else u64_MAX)"

definition saturating_add_u64 :: "u64 \<Rightarrow> u64 \<Rightarrow> u64" where
  "saturating_add_u64 a b = (if unat a + unat b < 2 ^ 64 then a + b else u64_MAX)"

definition positive :: "u64 option \<Rightarrow> u64 option" where
  "positive v = (case v of Some n \<Rightarrow> if 0 < n then Some n else None | None \<Rightarrow> None)"

definition or_else :: "'a option \<Rightarrow> 'a option \<Rightarrow> 'a option" where
  "or_else a b = (case a of Some x \<Rightarrow> Some x | None \<Rightarrow> b)"

text \<open>The delay in milliseconds; \<open>2.saturating_pow\<close> of an exponent of at most 32 does not saturate.\<close>

definition calculate_backoff :: "u32 \<Rightarrow> flow_node option \<Rightarrow> int" where
  "calculate_backoff retry_count step =
     (let strategy = Option.bind step retry_strategy_config;
          base = or_else (Option.bind step (\<lambda>s. get_u64_property s ''retry_base_delay_ms'')) (map_option rc_base_delay_ms strategy)
      in case positive base of
           Some base_ms \<Rightarrow>
             let max_ms = (case positive (or_else (Option.bind step (\<lambda>s. get_u64_property s ''retry_max_delay_ms''))
                                            (map_option rc_max_delay_ms strategy)) of
                             Some m \<Rightarrow> m | None \<Rightarrow> u64_MAX);
                 factor = 2 ^ min (unat retry_count - 1) 32;
                 delay_ms = min (saturating_mul base_ms factor) max_ms
             in uint (min delay_ms 0x7FFFFFFFFFFFFFFF)
         | None \<Rightarrow>
             1000 * (if retry_count = 1 then 10 else if retry_count = 2 then 30 else if retry_count = 3 then 60 else 120))"

section \<open>Waits, outputs, usage\<close>

text \<open>Unicode case mapping and trimming are arguments.\<close>

definition parse_wait_type :: "(string \<Rightarrow> string) \<Rightarrow> string \<Rightarrow> wait_type" where
  "parse_wait_type to_lowercase s =
     (let l = to_lowercase s in
      if l = ''tool_call'' then ToolCall
      else if l = ''human_task'' then HumanTaskWait
      else if l = ''scheduled'' then Scheduled
      else if l = ''event'' then Event
      else if l = ''retry'' then Retry
      else if l = ''join'' then JoinWait
      else if l = ''function_call'' then FunctionCall
      else if l = ''chat_session'' then ChatSession
      else if l = ''agent_run'' then AgentRun
      else Event)"

definition project_output_key :: "(string \<Rightarrow> string) \<Rightarrow> flow_node \<Rightarrow> json \<Rightarrow> json" where
  "project_output_key trim step output =
     (case get_string_property step ''output_key'' of
        None \<Rightarrow> output
      | Some k \<Rightarrow>
          if trim k = [] then output
          else
            (case output of
               JObject m \<Rightarrow>
                 if hm_get m (trim k) \<noteq> None then JObject m
                 else
                   JObject (hm_insert (trim k)
                     (case or_else (hm_get m ''structured_output'') (or_else (hm_get m ''response'') (hm_get m ''result'')) of
                        Some primary \<Rightarrow> primary | None \<Rightarrow> JObject m) m)
             | _ \<Rightarrow> JObject [(trim k, output)]))"

definition find_u64 :: "string list \<Rightarrow> json \<Rightarrow> u64 option" where
  "find_u64 names v = foldr (\<lambda>n r. or_else (Option.bind (jget n v) as_u64) r) names None"

definition pick_usage :: "json \<Rightarrow> string list \<Rightarrow> u64 option" where
  "pick_usage v names =
     or_else (find_u64 names (case jget ''usage'' v of Some u \<Rightarrow> u | None \<Rightarrow> v)) (find_u64 names v)"

definition extract_token_usage :: "json \<Rightarrow> (u64 \<times> u64) option" where
  "extract_token_usage v =
     (case (pick_usage v [''input_tokens'', ''prompt_tokens''], pick_usage v [''output_tokens'', ''completion_tokens'']) of
        (None, None) \<Rightarrow> None
      | (i, out) \<Rightarrow> Some (case i of Some n \<Rightarrow> n | None \<Rightarrow> 0, case out of Some n \<Rightarrow> n | None \<Rightarrow> 0))"

section \<open>Visits\<close>

definition take_resume_reentry :: "flow_instance \<Rightarrow> bool \<times> flow_instance" where
  "take_resume_reentry i =
     (case ins_variables i of
        JObject vars \<Rightarrow> (hm_get vars ''__resume_reentry'' \<noteq> None, i\<lparr>ins_variables := JObject (hm_remove ''__resume_reentry'' vars)\<rparr>)
      | _ \<Rightarrow> (False, i))"

definition current_visit_count :: "flow_instance \<Rightarrow> string \<Rightarrow> u64" where
  "current_visit_count i step_id =
     (case Option.bind (Option.bind (jget ''__visits'' (ins_variables i)) (jget step_id)) as_u64 of Some n \<Rightarrow> n | None \<Rightarrow> 1)"

definition bump_visit_count :: "flow_instance \<Rightarrow> string \<Rightarrow> u64 \<times> flow_instance" where
  "bump_visit_count i step_id =
     (case ins_variables i of
        JObject vars \<Rightarrow>
          (let visits = (case hm_get vars ''__visits'' of Some v \<Rightarrow> v | None \<Rightarrow> JObject [])
           in case visits of
                JObject m \<Rightarrow>
                  let n = (case Option.bind (hm_get m step_id) as_u64 of Some n \<Rightarrow> n | None \<Rightarrow> 0) + 1
                  in (n, i\<lparr>ins_variables := JObject (hm_insert ''__visits'' (JObject (hm_insert step_id (json_u64 n) m)) vars)\<rparr>)
              | _ \<Rightarrow> (1, i\<lparr>ins_variables := JObject (hm_insert ''__visits'' visits vars)\<rparr>))
      | _ \<Rightarrow> (1, i))"

section \<open>Recorded outputs\<close>

definition MAX_HISTORY_PER_STEP :: nat where
  "MAX_HISTORY_PER_STEP = 20"

definition internal_key :: "string \<Rightarrow> bool" where
  "internal_key k \<longleftrightarrow> take 2 k = ''__'' \<or> k = ''step_outputs''"

type_synonym json_map = "(string \<times> json) list"

definition retract_key :: "string \<times> json \<Rightarrow> json_map \<Rightarrow> json_map" where
  "retract_key e vars =
     (if internal_key (fst e) then vars
      else case hm_get vars (fst e) of
             Some v \<Rightarrow> if json_eq v (snd e) then hm_remove (fst e) vars else vars
           | None \<Rightarrow> vars)"

definition retract_previous :: "string \<Rightarrow> json_map \<Rightarrow> json_map" where
  "retract_previous step_id vars =
     (case Option.bind (hm_get vars ''step_outputs'') (jget step_id) of
        Some (JObject prev) \<Rightarrow> fold retract_key prev vars
      | _ \<Rightarrow> vars)"

definition put_latest :: "string \<Rightarrow> json \<Rightarrow> json_map \<Rightarrow> json_map" where
  "put_latest step_id output vars =
     (case (case hm_get vars ''step_outputs'' of Some v \<Rightarrow> v | None \<Rightarrow> JObject []) of
        JObject outputs \<Rightarrow> hm_insert ''step_outputs'' (JObject (hm_insert step_id output outputs)) vars
      | v \<Rightarrow> hm_insert ''step_outputs'' v vars)"

definition push_history :: "json \<Rightarrow> json list \<Rightarrow> json list" where
  "push_history output entries =
     drop (length (entries @ [output]) - MAX_HISTORY_PER_STEP) (entries @ [output])"

definition put_history :: "string \<Rightarrow> json \<Rightarrow> json_map \<Rightarrow> json_map" where
  "put_history step_id output vars =
     (case (case hm_get vars ''__history'' of Some v \<Rightarrow> v | None \<Rightarrow> JObject []) of
        JObject history \<Rightarrow>
          hm_insert ''__history''
            (JObject (hm_insert step_id
               (case (case hm_get history step_id of Some v \<Rightarrow> v | None \<Rightarrow> JArray []) of
                  JArray entries \<Rightarrow> JArray (push_history output entries)
                | v \<Rightarrow> v) history)) vars
      | v \<Rightarrow> hm_insert ''__history'' v vars)"

definition merge_key :: "string \<times> json \<Rightarrow> json_map \<Rightarrow> json_map" where
  "merge_key e vars = (if internal_key (fst e) then vars else hm_insert (fst e) (snd e) vars)"

definition merge_flat :: "json \<Rightarrow> json_map \<Rightarrow> json_map" where
  "merge_flat output vars = (case output of JObject m \<Rightarrow> fold merge_key m vars | _ \<Rightarrow> vars)"

definition record_step_output :: "string \<Rightarrow> json \<Rightarrow> json_map \<Rightarrow> json_map" where
  "record_step_output step_id output vars =
     merge_flat output
       (hm_insert ''__last_output'' output (put_history step_id output (put_latest step_id output (retract_previous step_id vars))))"

section \<open>What is recorded\<close>

lemma internal_keys [simp]:
  "internal_key ''step_outputs''" "internal_key ''__history''" "internal_key ''__last_output''" "internal_key ''__visits''"
  by (simp_all add: internal_key_def)

lemma retract_key_get:
  "hm_get (retract_key e vars) k =
     (if k = fst e \<and> \<not> internal_key k \<and> (\<exists>v. hm_get vars k = Some v \<and> json_eq v (snd e)) then None else hm_get vars k)"
  by (auto simp: retract_key_def hm_simps split: option.splits)

lemma fold_retract_get:
  assumes "hm_wf prev"
  shows "hm_get (fold retract_key prev vars) k =
    (case (hm_get prev k, hm_get vars k) of
       (Some old, Some v) \<Rightarrow> if \<not> internal_key k \<and> json_eq v old then None else Some v
     | (_, r) \<Rightarrow> r)"
  using assms
proof (induction prev arbitrary: vars)
  case (Cons e prev)
  have "fst e \<notin> fst ` set prev" using Cons.prems by simp
  then have none: "hm_get prev (fst e) = None" by (simp add: map_of_eq_None_iff)
  show ?case
  proof (cases "k = fst e")
    case True
    with none Cons show ?thesis by (cases e) (auto simp: retract_key_get split: option.splits)
  next
    case False
    with Cons show ?thesis by (cases e) (auto simp: retract_key_get split: option.splits)
  qed
qed (simp split: option.splits)

lemma fold_merge_get:
  assumes "hm_wf m"
  shows "hm_get (fold merge_key m vars) k =
    (case hm_get m k of Some v \<Rightarrow> if internal_key k then hm_get vars k else Some v | None \<Rightarrow> hm_get vars k)"
  using assms
proof (induction m arbitrary: vars)
  case (Cons e m)
  have "fst e \<notin> fst ` set m" using Cons.prems by simp
  then have none: "hm_get m (fst e) = None" by (simp add: map_of_eq_None_iff)
  show ?case
  proof (cases "k = fst e")
    case True
    with none Cons show ?thesis by (cases e) (auto simp: merge_key_def hm_simps)
  next
    case False
    with Cons show ?thesis by (cases e) (auto simp: merge_key_def hm_simps split: option.splits)
  qed
qed simp

lemma merge_flat_get:
  assumes "json_wf output"
  shows "hm_get (merge_flat output vars) k =
    (case jget k output of Some v \<Rightarrow> if internal_key k then hm_get vars k else Some v | None \<Rightarrow> hm_get vars k)"
  using assms by (cases "output") (simp_all add: merge_flat_def fold_merge_get)

lemma put_latest_other: "k \<noteq> ''step_outputs'' \<Longrightarrow> hm_get (put_latest step_id output vars) k = hm_get vars k"
  by (simp add: put_latest_def hm_simps split: json.splits)

lemma put_history_other: "k \<noteq> ''__history'' \<Longrightarrow> hm_get (put_history step_id output vars) k = hm_get vars k"
  by (simp add: put_history_def hm_simps split: json.splits)

lemma retract_previous_internal:
  assumes "json_wf (JObject vars)" and "internal_key k"
  shows "hm_get (retract_previous step_id vars) k = hm_get vars k"
proof -
  have "hm_get (fold retract_key prev vs) k = hm_get vs k" for prev vs
    by (induction prev arbitrary: vs) (simp_all add: retract_key_get assms(2))
  then show ?thesis by (simp add: retract_previous_def split: option.splits json.splits)
qed

lemma json_wf_get: "json_wf v \<Longrightarrow> jget k v = Some w \<Longrightarrow> json_wf w"
  by (cases v) (auto simp: list_all_iff dest!: map_of_SomeD)

lemma retract_previous_get:
  assumes "json_wf (JObject vars)"
  shows "hm_get (retract_previous step_id vars) k =
    (case (Option.bind (Option.bind (hm_get vars ''step_outputs'') (jget step_id)) (jget k), hm_get vars k) of
       (Some old, Some v) \<Rightarrow> if \<not> internal_key k \<and> json_eq v old then None else Some v
     | (_, r) \<Rightarrow> r)"
proof (cases "Option.bind (hm_get vars ''step_outputs'') (jget step_id)")
  case (Some old)
  then obtain outs where outs: "jget ''step_outputs'' (JObject vars) = Some outs" "jget step_id outs = Some old"
    by (auto simp: bind_eq_Some_conv)
  have "json_wf old" using json_wf_get [OF json_wf_get [OF assms outs(1)] outs(2)] .
  with Some show ?thesis by (cases old) (simp_all add: retract_previous_def fold_retract_get split: option.splits)
qed (simp add: retract_previous_def split: option.splits)

text \<open>
  Recording the output of a step. The output is the latest one of the step and the last of its history, which keeps the
  last twenty. A variable that is not internal has the value the output gives it; otherwise it is removed if it still
  has the value the step gave it on its previous visit, and kept if another step changed it. No other internal variable changes:
  a step cannot write its own visit count.
\<close>

theorem recorded_output:
  assumes "json_wf (JObject vars)" and "json_wf output"
    and "hm_get vars ''step_outputs'' = Some (JObject outs)" and "hm_get vars ''__history'' = Some (JObject hist)"
    and "hm_get hist step_id = Some (JArray visits)"
  defines "vars' \<equiv> record_step_output step_id output vars"
  shows "hm_get vars' ''step_outputs'' = Some (JObject (hm_insert step_id output outs)) \<and>
    hm_get vars' ''__history'' = Some (JObject (hm_insert step_id (JArray (drop (length visits + 1 - 20) (visits @ [output]))) hist)) \<and>
    hm_get vars' ''__last_output'' = Some output \<and>
    (\<forall>k. internal_key k \<and> k \<notin> {''step_outputs'', ''__history'', ''__last_output''} \<longrightarrow> hm_get vars' k = hm_get vars k) \<and>
    (\<forall>k. \<not> internal_key k \<longrightarrow> hm_get vars' k =
       (case jget k output of
          Some v \<Rightarrow> Some v
        | None \<Rightarrow>
            (case (Option.bind (hm_get outs step_id) (jget k), hm_get vars k) of
               (Some old, Some v) \<Rightarrow> if json_eq v old then None else Some v
             | (_, r) \<Rightarrow> r)))"
proof (intro conjI allI impI)
  let ?r = "retract_previous step_id vars" and ?p = "put_latest step_id output (retract_previous step_id vars)"
  note internal = retract_previous_internal [OF assms(1)]
  have outs: "hm_get ?r ''step_outputs'' = Some (JObject outs)" and hist: "hm_get ?p ''__history'' = Some (JObject hist)"
    using assms(3,4) internal by (simp_all add: put_latest_other)
  have merge: "hm_get vars' k = hm_get (hm_insert ''__last_output'' output (put_history step_id output ?p)) k" if "internal_key k" for k
    unfolding vars'_def record_step_output_def merge_flat_get [OF assms(2)] by (simp add: that split: option.splits)
  show "hm_get vars' ''step_outputs'' = Some (JObject (hm_insert step_id output outs))"
    by (simp add: merge hm_simps put_history_other put_latest_def outs)
  show "hm_get vars' ''__history'' = Some (JObject (hm_insert step_id (JArray (drop (length visits + 1 - 20) (visits @ [output]))) hist))"
    by (simp add: merge hm_simps put_history_def hist assms(5) push_history_def MAX_HISTORY_PER_STEP_def)
  show "hm_get vars' ''__last_output'' = Some output" by (simp add: merge hm_simps)
  show "hm_get vars' k = hm_get vars k" if "internal_key k \<and> k \<notin> {''step_outputs'', ''__history'', ''__last_output''}" for k
    using that by (simp add: merge hm_simps put_history_other put_latest_other internal)
  fix k assume k: "\<not> internal_key k"
  then have "k \<noteq> ''step_outputs''" "k \<noteq> ''__history''" "k \<noteq> ''__last_output''" by auto
  then show "hm_get vars' k =
       (case jget k output of
          Some v \<Rightarrow> Some v
        | None \<Rightarrow>
            (case (Option.bind (hm_get outs step_id) (jget k), hm_get vars k) of
               (Some old, Some v) \<Rightarrow> if json_eq v old then None else Some v
             | (_, r) \<Rightarrow> r))"
    using k assms(3) unfolding vars'_def record_step_output_def merge_flat_get [OF assms(2)]
    by (simp add: hm_simps put_history_other put_latest_other retract_previous_get [OF assms(1)] split: option.splits)
qed

text \<open>A second visit of a step that produces less, after another step has taken over one of its variables.\<close>

theorem recorded_output_witness:
  "let vars = [(''step_outputs'', JObject [(''draft'', JObject [(''text'', JString ''v1''), (''tone'', JString ''formal''), (''n'', JNull)])]),
               (''__history'', JObject [(''draft'', JArray [JNull])]),
               (''text'', JString ''v1''), (''tone'', JString ''formal''), (''n'', JBool True)];
       vars' = record_step_output ''draft'' (JObject [(''text'', JString ''v2'')]) vars
   in hm_get vars' ''text'' = Some (JString ''v2'') \<and> hm_get vars' ''tone'' = None \<and> hm_get vars' ''n'' = Some (JBool True)"
proof -
  let ?out = "JObject [(''text'', JString ''v2'')]"
    and ?outs = "[(''draft'', JObject [(''text'', JString ''v1''), (''tone'', JString ''formal''), (''n'', JNull)])]"
    and ?hist = "[(''draft'', JArray [JNull])]"
  let ?vars = "[(''step_outputs'', JObject ?outs), (''__history'', JObject ?hist),
               (''text'', JString ''v1''), (''tone'', JString ''formal''), (''n'', JBool True)]"
  have "json_wf (JObject ?vars)" "json_wf ?out" by simp_all
  from recorded_output [OF this, of ?outs ?hist "''draft''" "[JNull]"] show ?thesis
    by (simp add: internal_key_def)
qed

section \<open>Limits and visits\<close>

text \<open>
  An attempt is charged only below both limits, it raises the counter by one without wrapping, and the counter never
  exceeds the limit of the policy.
\<close>

lemma unat_u32_as_u64: "unat (ucast w :: u64) = unat w" for w :: u32
proof -
  have "unat w < 2 ^ 64" using unsigned_less [of w, where ?'a = nat] by simp
  then show ?thesis by (simp add: unsigned_ucast_eq take_bit_nat_eq_self)
qed

lemma charge_attempt_Inr:
  assumes "charge_attempt limits now i = Inr i'"
  shows "unat (fx_execution_attempts (ins_metrics i')) =
      max (unat (fx_execution_attempts (ins_metrics i))) (unat (fx_step_count (ins_metrics i))) + 1"
    and "unat (fx_execution_attempts (ins_metrics i')) \<le> unat (max_step_attempts limits)"
    and "i' = i\<lparr>ins_metrics := (ins_metrics i)\<lparr>fx_execution_attempts := fx_execution_attempts (ins_metrics i')\<rparr>\<rparr>"
proof -
  let ?a = "max (fx_execution_attempts (ins_metrics i)) (ucast (fx_step_count (ins_metrics i)))"
  have a: "?a < ucast (max_step_attempts limits)" and i': "i' = i\<lparr>ins_metrics := (ins_metrics i)\<lparr>fx_execution_attempts := ?a + 1\<rparr>\<rparr>"
    using assms by (auto simp: charge_attempt_def Let_def not_le split: if_splits)
  have lim: "unat (ucast (max_step_attempts limits) :: u64) = unat (max_step_attempts limits)"
    by (simp add: unat_u32_as_u64)
  have "unat ?a < unat (max_step_attempts limits)" using unat_mono [OF a] lim by simp
  moreover have "unat (max_step_attempts limits) < 2 ^ 32" using unsigned_less [of "max_step_attempts limits"] by simp
  ultimately have s: "unat (?a + 1) = unat ?a + 1" by (simp add: unat_word_ariths)
  have m: "unat ?a = max (unat (fx_execution_attempts (ins_metrics i))) (unat (fx_step_count (ins_metrics i)))"
    by (simp add: max_def word_le_nat_alt unat_u32_as_u64)
  show "unat (fx_execution_attempts (ins_metrics i')) =
      max (unat (fx_execution_attempts (ins_metrics i))) (unat (fx_step_count (ins_metrics i))) + 1"
    using s m i' by simp
  show "unat (fx_execution_attempts (ins_metrics i')) \<le> unat (max_step_attempts limits)"
    using s i' \<open>unat ?a < unat (max_step_attempts limits)\<close> by simp
  show "i' = i\<lparr>ins_metrics := (ins_metrics i)\<lparr>fx_execution_attempts := fx_execution_attempts (ins_metrics i')\<rparr>\<rparr>"
    using i' by simp
qed

end
