(* ===== verification/Flow_Calls.thy ===== *)
theory Flow_Calls
  imports Flow_Instance
begin

text \<open>
  The environment of the flow executor. The code reaches the outside through the trait \<open>FlowCallbacks\<close>, the clock, the source of
  identifiers and the step handlers. A computation extends a history of such calls (the newest first), and the record \<open>flow_env\<close>
  answers each call as a function of the history so far: theorems hold for every environment, among them those in which
  other processes change the stored instance between two calls. A result is a value, an error of the code or a
  panic.
\<close>

text \<open>
  What a handler sees and may change. The fields \<open>error\<close> and \<open>context_stack\<close> of the code are empty whenever a handler is called and
  are not read back, so they are left out; the trigger is the document that serde accepts (\<open>parse_trigger_info\<close>).
\<close>

record flow_context =
  fc_instance_id :: string
  fc_trigger_info :: "json option"
  fc_input :: json
  fc_step_outputs :: "(string, json) hash_map"
  fc_variables :: "(string, json) hash_map"
  fc_current_output :: "json option"
  fc_compensation_stack :: "compensation_entry list"
  fc_flow_ref :: "string option"
  fc_step_attempt :: u32

datatype flow_event =
    StepStarted string "string option" string datetime
  | StepCompleted string json u64 "(u64 \<times> u64) option" datetime
  | StepFailed string string u64 datetime
  | FlowWaiting string string string datetime
  | FlowResumed string u64 datetime
  | FlowCompleted json u64 datetime
  | FlowFailed string "string option" u64 datetime
  | TextChunk string datetime
  | ToolCallStarted string string json datetime
  | ToolCallCompleted string json "string option" "u64 option" datetime
  | ThoughtChunk string datetime
  | ConversationCreated string string datetime
  | MessageSaved string string string datetime
  | Log string string "string option" datetime

datatype flow_call =
    LoadInstance string
  | SaveInstance flow_instance
  | SaveInstanceWithVersion flow_instance u32
  | EmitEvent string flow_event
  | QueueJob string json
  | QueueJobAt string json datetime
  | ExecuteFunction string json
  | PatchNode string string json
  | CurrentBranch
  | CreateBranch string "string option"
  | SwitchBranch string
  | DeleteBranch string
  | HasMergeConflicts string "string option"
  | MergeBranch string "string option"
  | RunHandler flow_node flow_context
  | ReadClock
  | ReadTimer
  | NewUuid
  | ValidatePermission string string string "string option"
  | AuditLog string json

type_synonym history = "flow_call list"

record flow_env =
  on_load_instance :: "history \<Rightarrow> string \<Rightarrow> flow_error + flow_instance"
  on_save_instance :: "history \<Rightarrow> flow_instance \<Rightarrow> flow_error + unit"
  on_save_instance_with_version :: "history \<Rightarrow> flow_instance \<Rightarrow> u32 \<Rightarrow> flow_error + unit"
  on_emit_event :: "history \<Rightarrow> string \<Rightarrow> flow_event \<Rightarrow> flow_error + unit"
  on_queue_job :: "history \<Rightarrow> string \<Rightarrow> json \<Rightarrow> flow_error + string"
  on_queue_job_at :: "history \<Rightarrow> string \<Rightarrow> json \<Rightarrow> datetime \<Rightarrow> flow_error + string"
  on_execute_function :: "history \<Rightarrow> string \<Rightarrow> json \<Rightarrow> flow_error + json"
  on_patch_node :: "history \<Rightarrow> string \<Rightarrow> string \<Rightarrow> json \<Rightarrow> flow_error + json"
  on_current_branch :: "history \<Rightarrow> flow_error + string"
  on_create_branch :: "history \<Rightarrow> string \<Rightarrow> string option \<Rightarrow> flow_error + json"
  on_switch_branch :: "history \<Rightarrow> string \<Rightarrow> flow_error + unit"
  on_delete_branch :: "history \<Rightarrow> string \<Rightarrow> flow_error + unit"
  on_has_merge_conflicts :: "history \<Rightarrow> string \<Rightarrow> string option \<Rightarrow> flow_error + bool"
  on_merge_branch :: "history \<Rightarrow> string \<Rightarrow> string option \<Rightarrow> flow_error + json"
  on_run_handler :: "history \<Rightarrow> flow_node \<Rightarrow> flow_context \<Rightarrow> (flow_error + step_result) \<times> flow_context"
  on_read_clock :: "history \<Rightarrow> datetime"
  on_read_timer :: "history \<Rightarrow> u64"
  on_new_uuid :: "history \<Rightarrow> string"
  on_validate_permission :: "history \<Rightarrow> string \<Rightarrow> string \<Rightarrow> string \<Rightarrow> string option \<Rightarrow> flow_error + bool"
  on_audit_log :: "history \<Rightarrow> string \<Rightarrow> json \<Rightarrow> flow_error + unit"
  add_millis :: "datetime \<Rightarrow> int \<Rightarrow> datetime option"
  to_rfc3339 :: "datetime \<Rightarrow> string"
  display_datetime :: "datetime \<Rightarrow> string"
  str_to_lowercase :: "string \<Rightarrow> string"
  str_trim :: "string \<Rightarrow> string"
  custom_type_name :: "string \<Rightarrow> string"
  parse_trigger_info :: "json \<Rightarrow> json option"
  parse_definition :: "json \<Rightarrow> flow_error + flow_definition"

datatype 'a flow_outcome = FlowOk 'a | FlowErr flow_error | FlowPanic

type_synonym 'a flow = "history \<Rightarrow> 'a flow_outcome \<times> history"

definition fl_return :: "'a \<Rightarrow> 'a flow" where
  "fl_return a h = (FlowOk a, h)"

definition fl_throw :: "flow_error \<Rightarrow> 'a flow" where
  "fl_throw e h = (FlowErr e, h)"

definition fl_bind :: "'a flow \<Rightarrow> ('a \<Rightarrow> 'b flow) \<Rightarrow> 'b flow" where
  "fl_bind m f h =
     (case m h of
        (FlowOk a, h') \<Rightarrow> f a h'
      | (FlowErr e, h') \<Rightarrow> (FlowErr e, h')
      | (FlowPanic, h') \<Rightarrow> (FlowPanic, h'))"

text \<open>A call whose error the code inspects, and a call whose error ends the function (\<open>?\<close>).\<close>

definition fl_try :: "flow_call \<Rightarrow> (history \<Rightarrow> 'a) \<Rightarrow> 'a flow" where
  "fl_try c answer h = (FlowOk (answer h), c # h)"

definition fl_lift :: "flow_error + 'a \<Rightarrow> 'a flow" where
  "fl_lift r = (case r of Inl e \<Rightarrow> fl_throw e | Inr a \<Rightarrow> fl_return a)"

definition fl_call :: "flow_call \<Rightarrow> (history \<Rightarrow> flow_error + 'a) \<Rightarrow> 'a flow" where
  "fl_call c answer = fl_bind (fl_try c answer) fl_lift"

definition utc_now :: "flow_env \<Rightarrow> datetime flow" where
  "utc_now env = fl_try ReadClock (on_read_clock env)"

definition read_timer :: "flow_env \<Rightarrow> u64 flow" where
  "read_timer env = fl_try ReadTimer (on_read_timer env)"

text \<open>\<open>Instant::elapsed().as_millis()\<close> against an instant read before.\<close>

definition elapsed :: "flow_env \<Rightarrow> u64 \<Rightarrow> u64 flow" where
  "elapsed env start = fl_bind (read_timer env) (\<lambda>t. fl_return (t - start))"

definition generate_subscription_id :: "flow_env \<Rightarrow> string flow" where
  "generate_subscription_id env = fl_try NewUuid (on_new_uuid env)"

text \<open>\<open>DateTime + Duration\<close>, which panics when the sum has no representation.\<close>

definition plus_millis :: "flow_env \<Rightarrow> datetime \<Rightarrow> int \<Rightarrow> datetime flow" where
  "plus_millis env t ms h = (case add_millis env t ms of Some t' \<Rightarrow> (FlowOk t', h) | None \<Rightarrow> (FlowPanic, h))"

text \<open>An event carries the time of its construction; the result of emitting it is dropped.\<close>

definition emit :: "flow_env \<Rightarrow> string \<Rightarrow> (datetime \<Rightarrow> flow_event) \<Rightarrow> unit flow" where
  "emit env instance_id mk =
     fl_bind (utc_now env) (\<lambda>ts.
       fl_bind (fl_try (EmitEvent instance_id (mk ts)) (\<lambda>h. on_emit_event env h instance_id (mk ts))) (\<lambda>_. fl_return ()))"

definition step_completed :: "string \<Rightarrow> json \<Rightarrow> u64 \<Rightarrow> datetime \<Rightarrow> flow_event" where
  "step_completed node_id out duration_ms ts = StepCompleted node_id out duration_ms (extract_token_usage out) ts"

section \<open>Running computations\<close>

lemma fl_bind_return [simp]: "fl_bind (fl_return a) f = f a"
  by (simp add: fl_bind_def fl_return_def fun_eq_iff)

lemma fl_bind_throw [simp]: "fl_bind (fl_throw e) f = fl_throw e"
  by (simp add: fl_bind_def fl_throw_def fun_eq_iff)

lemma fl_bind_assoc [simp]: "fl_bind (fl_bind m f) g = fl_bind m (\<lambda>a. fl_bind (f a) g)"
  by (auto simp: fl_bind_def fun_eq_iff split: prod.splits flow_outcome.splits)

lemma fl_bind_try [simp]: "fl_bind (fl_try c answer) f h = f (answer h) (c # h)"
  by (simp add: fl_bind_def fl_try_def)

text \<open>An emitted event adds a reading of the clock and the event to the history and always succeeds.\<close>

lemma emit_run [simp]:
  "emit env iid mk h = (FlowOk (), EmitEvent iid (mk (on_read_clock env h)) # ReadClock # h)"
  by (simp add: emit_def utc_now_def fl_return_def)

lemma fl_bind_emit [simp]:
  "fl_bind (emit env iid mk) f h = f () (EmitEvent iid (mk (on_read_clock env h)) # ReadClock # h)"
  by (simp add: fl_bind_def)

lemma fl_bind_now [simp]: "fl_bind (utc_now env) f h = f (on_read_clock env h) (ReadClock # h)"
  by (simp add: utc_now_def)

lemma fl_bind_elapsed [simp]: "fl_bind (elapsed env start) f h = f (on_read_timer env h - start) (ReadTimer # h)"
  by (simp add: elapsed_def read_timer_def)

text \<open>The calls of functions in a history, in the order they were made.\<close>

fun functions_run :: "history \<Rightarrow> (string \<times> json) list" where
  "functions_run [] = []"
| "functions_run (ExecuteFunction f x # h) = functions_run h @ [(f, x)]"
| "functions_run (_ # h) = functions_run h"

text \<open>The instances written by a history, the last one first.\<close>

fun instances_saved :: "history \<Rightarrow> flow_instance list" where
  "instances_saved [] = []"
| "instances_saved (SaveInstance i # h) = i # instances_saved h"
| "instances_saved (SaveInstanceWithVersion i v # h) = i # instances_saved h"
| "instances_saved (_ # h) = instances_saved h"

text \<open>The handlers run and the instances saved by a list of calls.\<close>

fun is_handler_run :: "flow_call \<Rightarrow> bool" where
  "is_handler_run (RunHandler _ _) = True"
| "is_handler_run _ = False"

definition handler_runs :: "history \<Rightarrow> nat" where
  "handler_runs h = length (filter is_handler_run h)"

lemma handler_runs_simps [simp]:
  "handler_runs [] = 0" "handler_runs (c # h) = (if is_handler_run c then 1 else 0) + handler_runs h"
  "handler_runs (h @ h') = handler_runs h + handler_runs h'"
  by (simp_all add: handler_runs_def)

lemma instances_saved_append [simp]: "instances_saved (h @ h') = instances_saved h @ instances_saved h'"
  by (induction h rule: instances_saved.induct) simp_all

lemma functions_run_append [simp]: "functions_run (h @ h') = functions_run h' @ functions_run h"
  by (induction h rule: functions_run.induct) simp_all

end
