(* ===== verification/Flow_Step.thy ===== *)
theory Flow_Step
  imports Flow_Calls
begin

text \<open>
  One step of a flow (\<open>runtime/executor/step_dispatch.rs\<close>, \<open>isolated_branch.rs\<close> and the context part of \<open>helpers.rs\<close>): the
  context built from the instance, disabled and mocked steps, the dispatch on the type of the step and the execution in an
  isolated branch. The handlers behind the dispatch are answers of the environment (\<open>RunHandler\<close>).
\<close>

section \<open>Context\<close>

definition build_context_from_instance :: "flow_env \<Rightarrow> flow_instance \<Rightarrow> flow_context" where
  "build_context_from_instance env inst =
     \<lparr>fc_instance_id = ins_id inst,
      fc_trigger_info = Option.bind (jget ''__trigger_info'' (ins_variables inst)) (parse_trigger_info env),
      fc_input = ins_input inst,
      fc_step_outputs = (case Option.bind (jget ''step_outputs'' (ins_variables inst)) as_object of Some m \<Rightarrow> m | None \<Rightarrow> []),
      fc_variables = (case ins_variables inst of JObject m \<Rightarrow> filter (\<lambda>(k, _). k \<noteq> ''step_outputs'') m | _ \<Rightarrow> []),
      fc_current_output = (case jget ''__last_output'' (ins_variables inst) of Some JNull \<Rightarrow> None | r \<Rightarrow> r),
      fc_compensation_stack = ins_compensation_stack inst,
      fc_flow_ref = Some (ins_flow_ref inst),
      fc_step_attempt = ins_retry_count inst\<rparr>"

definition sync_context_to_instance :: "flow_context \<Rightarrow> flow_instance \<Rightarrow> flow_instance" where
  "sync_context_to_instance c inst =
     inst\<lparr>ins_variables := JObject
            (if fc_step_outputs c = [] then fc_variables c
             else hm_insert ''step_outputs'' (JObject (fc_step_outputs c)) (fc_variables c)),
          ins_compensation_stack := fc_compensation_stack c\<rparr>"

section \<open>Dispatch\<close>

definition successor_or_end :: "flow_node \<Rightarrow> flow_definition \<Rightarrow> string" where
  "successor_or_end step def =
     (case or_else (fn_next_node step) (next_node_id def (fn_id step)) of Some n \<Rightarrow> n | None \<Rightarrow> ''end'')"

definition mock_for :: "flow_node \<Rightarrow> test_run_config \<Rightarrow> function_mock option" where
  "mock_for step tc =
     (case fn_step_type step of
        FunctionStep \<Rightarrow> Option.bind (get_string_property step ''function_ref'') (hm_get (tc_mock_functions tc))
      | t \<Rightarrow>
          if t \<in> {AgentStep, AIContainer, Chat} then
            Option.bind
              (or_else (get_string_property step ''agent_ref'')
                 (Option.bind (Option.bind (or_else (get_property step ''ai_config'') (get_property step ''chat_config''))
                    (jget ''agent_ref'')) json_as_str))
              (hm_get (tc_mock_agents tc))
          else None)"

definition mock_output_of :: "flow_node \<Rightarrow> flow_instance \<Rightarrow> function_mock \<Rightarrow> json" where
  "mock_output_of step inst mock =
     (if mk_behavior mock = MockOutput then (case mk_mock_output mock of Some v \<Rightarrow> v | None \<Rightarrow> JNull)
      else case get_property step ''arguments'' of Some v \<Rightarrow> v | None \<Rightarrow> ins_input inst)"

definition apply_test_mock :: "flow_node \<Rightarrow> flow_instance \<Rightarrow> flow_definition \<Rightarrow> step_result option" where
  "apply_test_mock step inst def =
     (case ins_test_config inst of
        None \<Rightarrow> None
      | Some tc \<Rightarrow>
          if \<not> tc_is_test_run tc then None
          else
            (case mock_for step tc of
               None \<Rightarrow> None
             | Some mock \<Rightarrow>
                 if mk_behavior mock = Real then None
                 else Some (Continue (successor_or_end step def) (mock_output_of step inst mock))))"

definition is_disabled :: "flow_node \<Rightarrow> bool" where
  "is_disabled step \<longleftrightarrow> get_bool_property step ''disabled'' = Some True"

text \<open>The output of an \<open>end\<close> node: the variables without the internal ones.\<close>

definition end_output :: "flow_instance \<Rightarrow> json" where
  "end_output inst =
     (case ins_variables inst of JObject m \<Rightarrow> JObject (filter (\<lambda>(k, _). \<not> internal_key k) m) | v \<Rightarrow> v)"

definition handler_types :: "step_type set" where
  "handler_types = {Decision, FunctionStep, AgentStep, AgentDecision, Competition, AIContainer, HumanTask, Chat, SubFlow, Loop,
     Wait, Parallel}"

type_synonym step_outcome = "(flow_error + step_result) \<times> flow_instance"

definition dispatch :: "flow_env \<Rightarrow> flow_node \<Rightarrow> flow_instance \<Rightarrow> flow_definition \<Rightarrow> step_outcome flow" where
  "dispatch env step inst def =
     (let ctx = build_context_from_instance env inst in
      if fn_step_type step = Start then
        (case or_else (fn_next_node step) (next_node_id def (fn_id step)) of
           None \<Rightarrow> fl_return (Inl (InvalidDefinition ''Start node has no next node''), inst)
         | Some n \<Rightarrow> fl_return (Inr (Continue n JNull), sync_context_to_instance ctx inst))
      else if fn_step_type step = End then
        fl_return (Inr (Complete (end_output inst)), sync_context_to_instance ctx inst)
      else if fn_step_type step \<in> handler_types then
        fl_bind (fl_try (RunHandler step ctx) (\<lambda>h. on_run_handler env h step ctx)) (\<lambda>(res, ctx').
          fl_return (res, sync_context_to_instance ctx' inst))
      else
        fl_return (Inr (Continue (case next_node_id def (fn_id step) of Some n \<Rightarrow> n | None \<Rightarrow> ''end'') JNull),
          sync_context_to_instance ctx inst))"

definition execute_step_inner :: "flow_env \<Rightarrow> flow_node \<Rightarrow> flow_instance \<Rightarrow> flow_definition \<Rightarrow> step_outcome flow" where
  "execute_step_inner env step inst def =
     (if is_disabled step then fl_return (Inr (Continue (successor_or_end step def) JNull), inst)
      else
        (case apply_test_mock step inst def of
           Some r \<Rightarrow> fl_return (Inr r, inst)
         | None \<Rightarrow> dispatch env step inst def))"

section \<open>Isolated branches\<close>

definition insert_vars :: "(string \<times> json) list \<Rightarrow> flow_instance \<Rightarrow> flow_instance" where
  "insert_vars es inst =
     (case ins_variables inst of
        JObject vars \<Rightarrow> inst\<lparr>ins_variables := JObject (fold (\<lambda>(k, v). hm_insert k v) es vars)\<rparr>
      | _ \<Rightarrow> inst)"

definition annotate :: "json \<Rightarrow> string \<Rightarrow> string option \<Rightarrow> json" where
  "annotate out branch_name base_branch =
     (let review = JObject [(''status'', JString ''awaiting_review''), (''branch'', JString branch_name),
                            (''base_branch'', json_opt_str base_branch)]
      in case out of
           JObject m \<Rightarrow> JObject (hm_insert ''branch_review'' review m)
         | _ \<Rightarrow> JObject [(''result'', out), (''branch_review'', review)])"

fun annotate_review_result :: "step_result \<Rightarrow> string \<Rightarrow> string option \<Rightarrow> step_result" where
  "annotate_review_result (Continue n out) b base = Continue n (annotate out b base)"
| "annotate_review_result (Complete out) b base = Complete (annotate out b base)"
| "annotate_review_result r b base = r"

definition merge_back :: "flow_env \<Rightarrow> flow_node \<Rightarrow> flow_instance \<Rightarrow> string \<Rightarrow> string option \<Rightarrow> step_result \<Rightarrow> step_outcome flow" where
  "merge_back env step inst branch_name original result =
     fl_bind (fl_try (HasMergeConflicts branch_name original) (\<lambda>h. on_has_merge_conflicts env h branch_name original)) (\<lambda>conflicts.
     if conflicts = Inr True then
       fl_return (Inl (MergeConflict branch_name (''Step '' @ fn_id step
         @ '' completed but changes conflict with concurrent modifications. Branch '' @ quoted branch_name @ '' preserved.'')), inst)
     else
       fl_bind (fl_try (MergeBranch branch_name original) (\<lambda>h. on_merge_branch env h branch_name original)) (\<lambda>merged.
       case merged of
         Inr _ \<Rightarrow>
           fl_bind (fl_try (DeleteBranch branch_name) (\<lambda>h. on_delete_branch env h branch_name)) (\<lambda>_. fl_return (Inr result, inst))
       | Inl (MergeConflict _ _) \<Rightarrow>
           fl_return (Inl (MergeConflict branch_name (''Merge conflict for step '' @ fn_id step @ ''. Branch ''
             @ quoted branch_name @ '' preserved.'')), inst)
       | Inl e \<Rightarrow>
           fl_return (Inl (BranchOperationFailed (''Failed to merge branch '' @ quoted branch_name @ '': '' @ flow_error_to_string e)), inst)))"

text \<open>What becomes of the branch of a successful step, after the switch back.\<close>

definition settle_branch ::
  "flow_env \<Rightarrow> flow_node \<Rightarrow> flow_instance \<Rightarrow> string \<Rightarrow> string option \<Rightarrow> step_result \<Rightarrow> step_outcome flow" where
  "settle_branch env step inst branch_name original result =
     (let strategy = (case get_string_property step ''branch_merge_strategy'' of Some s \<Rightarrow> s | None \<Rightarrow> ''auto'') in
      if strategy = ''review'' then
        fl_return (Inr (annotate_review_result result branch_name original),
          insert_vars [(''__review_branch'', JString branch_name), (''__review_base_branch'', json_opt_str original)] inst)
      else if strategy = ''discard'' then
        fl_bind (fl_try (DeleteBranch branch_name) (\<lambda>h. on_delete_branch env h branch_name)) (\<lambda>deleted.
          case deleted of Inl e \<Rightarrow> fl_return (Inl e, inst) | Inr _ \<Rightarrow> fl_return (Inr result, inst))
      else if strategy \<noteq> ''auto'' then
        fl_return (Inl (InvalidDefinition (''Unknown branch_merge_strategy '' @ quoted strategy @ '' on step '' @ quoted (fn_id step)
          @ ''; expected auto, review, or discard'')), inst)
      else merge_back env step inst branch_name original result)"

definition handle_branch_success ::
  "flow_env \<Rightarrow> flow_node \<Rightarrow> flow_instance \<Rightarrow> string \<Rightarrow> string option \<Rightarrow> step_result \<Rightarrow> step_outcome flow" where
  "handle_branch_success env step inst branch_name original result =
     (case original of
        None \<Rightarrow> settle_branch env step inst branch_name original result
      | Some orig \<Rightarrow>
          fl_bind (fl_try (SwitchBranch orig) (\<lambda>h. on_switch_branch env h orig)) (\<lambda>switched.
            case switched of
              Inl e \<Rightarrow>
                fl_return (Inl (BranchOperationFailed (''Failed to switch back to '' @ quoted orig @ '': '' @ flow_error_to_string e)), inst)
            | Inr _ \<Rightarrow> settle_branch env step inst branch_name original result))"

definition after_isolated ::
  "flow_env \<Rightarrow> flow_node \<Rightarrow> string \<Rightarrow> string \<Rightarrow> step_outcome \<Rightarrow> step_outcome flow" where
  "after_isolated env step branch_name original out =
     (case out of (res, inst) \<Rightarrow>
        (case res of
           Inr (Continue n v) \<Rightarrow> handle_branch_success env step inst branch_name (Some original) (Continue n v)
         | Inr (Complete v) \<Rightarrow> handle_branch_success env step inst branch_name (Some original) (Complete v)
         | Inr (StepError e) \<Rightarrow>
             fl_bind (fl_try (SwitchBranch original) (\<lambda>h. on_switch_branch env h original)) (\<lambda>_.
               fl_return (res, insert_vars [(''__failed_branch'', JString branch_name)] inst))
         | Inl e \<Rightarrow>
             fl_bind (fl_try (SwitchBranch original) (\<lambda>h. on_switch_branch env h original)) (\<lambda>_.
               fl_return (res, insert_vars [(''__failed_branch'', JString branch_name)] inst))
         | _ \<Rightarrow>
             fl_return (res, insert_vars [(''__isolated_branch'', JString branch_name), (''__original_branch'', JString original)] inst)))"

definition execute_step_in_isolated_branch ::
  "flow_env \<Rightarrow> flow_node \<Rightarrow> flow_instance \<Rightarrow> flow_definition \<Rightarrow> step_outcome flow" where
  "execute_step_in_isolated_branch env step inst def =
     (let branch_name = ''flow-step-'' @ ins_id inst @ ''-'' @ fn_id step in
      fl_bind (fl_try CurrentBranch (on_current_branch env)) (\<lambda>current.
      case current of
        Inl (NotSupported _) \<Rightarrow> execute_step_inner env step inst def
      | Inl e \<Rightarrow> fl_return (Inl e, inst)
      | Inr original \<Rightarrow>
          fl_bind (fl_try (CreateBranch branch_name (Some original)) (\<lambda>h. on_create_branch env h branch_name (Some original))) (\<lambda>created.
          case created of
            Inl (NotSupported _) \<Rightarrow> execute_step_inner env step inst def
          | Inl e \<Rightarrow>
              fl_return (Inl (BranchOperationFailed (''Failed to create isolated branch '' @ quoted branch_name @ '': '' @ flow_error_to_string e)), inst)
          | Inr _ \<Rightarrow>
              fl_bind (fl_try (SwitchBranch branch_name) (\<lambda>h. on_switch_branch env h branch_name)) (\<lambda>switched.
              case switched of
                Inl e \<Rightarrow>
                  fl_bind (fl_try (DeleteBranch branch_name) (\<lambda>h. on_delete_branch env h branch_name)) (\<lambda>_.
                    fl_return (Inl (BranchOperationFailed (''Failed to switch to branch '' @ quoted branch_name @ '': '' @ flow_error_to_string e)), inst))
              | Inr _ \<Rightarrow> fl_bind (execute_step_inner env step inst def) (after_isolated env step branch_name original)))))"

definition execute_step :: "flow_env \<Rightarrow> flow_node \<Rightarrow> flow_instance \<Rightarrow> flow_definition \<Rightarrow> step_outcome flow" where
  "execute_step env step inst def =
     (if get_bool_property step ''isolated_branch'' = Some True then execute_step_in_isolated_branch env step inst def
      else execute_step_inner env step inst def)"

end
