(* ===== verification/Flow_Compensation.thy ===== *)
theory Flow_Compensation
  imports Flow_Calls
begin

text \<open>
  Saga compensation (\<open>runtime/compensation.rs\<close>): when a flow fails, the pending entries of its stack run in the reverse order of
  completion. Each runs once, whatever the environment answers, and an entry that has run is never run again.
\<close>

definition execute_compensation :: "flow_env \<Rightarrow> compensation_entry \<Rightarrow> (flow_error + json) flow" where
  "execute_compensation env entry =
     fl_try (ExecuteFunction (ce_compensation_fn entry) (ce_compensation_input entry))
       (\<lambda>h. on_execute_function env h (ce_compensation_fn entry) (ce_compensation_input entry))"

definition compensate_at :: "flow_env \<Rightarrow> nat \<Rightarrow> flow_instance \<Rightarrow> flow_instance flow" where
  "compensate_at env idx inst =
     (let entry = ins_compensation_stack inst ! idx in
      if ce_compensation_status entry \<noteq> CompPending then fl_return inst
      else
        fl_bind (emit env (ins_id inst) (Log ''info''
          (''Executing compensation '' @ quoted (ce_compensation_fn entry) @ '' for step '' @ quoted (ce_step_id entry))
          (Some (ce_step_id entry)))) (\<lambda>_.
        fl_bind (execute_compensation env entry) (\<lambda>res.
        fl_bind
          (case res of
             Inr _ \<Rightarrow>
               fl_bind (utc_now env) (\<lambda>now. fl_return (mark_executed now entry,
                 inst\<lparr>ins_metrics := (ins_metrics inst)\<lparr>fx_compensation_count := fx_compensation_count (ins_metrics inst) + 1\<rparr>\<rparr>))
           | Inl e \<Rightarrow>
               fl_bind (utc_now env) (\<lambda>now.
               fl_bind (emit env (ins_id inst) (Log ''error''
                 (''Compensation '' @ quoted (ce_compensation_fn entry) @ '' for step '' @ quoted (ce_step_id entry)
                   @ '' failed: '' @ flow_error_to_string e)
                 (Some (ce_step_id entry)))) (\<lambda>_. fl_return (mark_failed now (flow_error_to_string e) entry, inst))))
          (\<lambda>(entry', inst').
             let saved = inst'\<lparr>ins_compensation_stack := (ins_compensation_stack inst')[idx := entry']\<rparr>
             in fl_bind (fl_try (SaveInstance saved) (\<lambda>h. on_save_instance env h saved)) (\<lambda>_. fl_return saved)))))"

fun rollback_loop :: "flow_env \<Rightarrow> nat list \<Rightarrow> flow_instance \<Rightarrow> flow_instance flow" where
  "rollback_loop env [] inst = fl_return inst"
| "rollback_loop env (idx # idxs) inst = fl_bind (compensate_at env idx inst) (rollback_loop env idxs)"

definition rollback_flow :: "flow_env \<Rightarrow> flow_instance \<Rightarrow> flow_instance flow" where
  "rollback_flow env inst =
     (if length (ins_compensation_stack inst) = 0 then fl_return inst
      else fl_bind (rollback_loop env (rev [0..<length (ins_compensation_stack inst)]) inst)
             (\<lambda>inst'. fl_return (inst'\<lparr>ins_status := RolledBack\<rparr>)))"

definition push_compensation :: "flow_env \<Rightarrow> flow_instance \<Rightarrow> string \<Rightarrow> string \<Rightarrow> json \<Rightarrow> flow_instance flow" where
  "push_compensation env inst step_id compensation_fn compensation_input =
     fl_bind (utc_now env) (\<lambda>now.
       fl_return (inst\<lparr>ins_compensation_stack :=
         ins_compensation_stack inst @ [compensation_new now step_id compensation_fn compensation_input]\<rparr>))"

section \<open>What a rollback does\<close>

text \<open>An entry after the rollback: the same step, and no longer pending if it was.\<close>

definition settled :: "compensation_entry \<Rightarrow> compensation_entry \<Rightarrow> bool" where
  "settled e e' \<longleftrightarrow>
     (if is_pending e then
        \<not> is_pending e' \<and> (\<exists>s t. e' = e\<lparr>ce_compensation_status := s, ce_executed_at := Some t\<rparr>)
      else e' = e)"

definition comp_call :: "compensation_entry \<Rightarrow> string \<times> json" where
  "comp_call e = (ce_compensation_fn e, ce_compensation_input e)"

text \<open>The parts of an instance that a rollback leaves alone.\<close>

definition same_flow :: "flow_instance \<Rightarrow> flow_instance \<Rightarrow> bool" where
  "same_flow i i' \<longleftrightarrow>
     i'\<lparr>ins_compensation_stack := [], ins_metrics := (ins_metrics i')\<lparr>fx_compensation_count := 0\<rparr>\<rparr> =
     i\<lparr>ins_compensation_stack := [], ins_metrics := (ins_metrics i)\<lparr>fx_compensation_count := 0\<rparr>\<rparr>"

lemma same_flow_refl [simp]: "same_flow i i"
  by (simp add: same_flow_def)

lemma same_flow_trans [trans]: "same_flow i j \<Longrightarrow> same_flow j k \<Longrightarrow> same_flow i k"
  by (simp add: same_flow_def)

lemma same_flowD:
  assumes "same_flow i i'"
  shows "ins_status i' = ins_status i" "ins_error i' = ins_error i" "ins_id i' = ins_id i" "ins_variables i' = ins_variables i"
    "ins_completed_at i' = ins_completed_at i" "ins_parent_instance_ref i' = ins_parent_instance_ref i"
    "fx_execution_attempts (ins_metrics i') = fx_execution_attempts (ins_metrics i)"
proof -
  note eq = assms [unfolded same_flow_def]
  show "ins_status i' = ins_status i" using arg_cong [OF eq, of ins_status] by simp
  show "ins_error i' = ins_error i" using arg_cong [OF eq, of ins_error] by simp
  show "ins_id i' = ins_id i" using arg_cong [OF eq, of ins_id] by simp
  show "ins_variables i' = ins_variables i" using arg_cong [OF eq, of ins_variables] by simp
  show "ins_completed_at i' = ins_completed_at i" using arg_cong [OF eq, of ins_completed_at] by simp
  show "ins_parent_instance_ref i' = ins_parent_instance_ref i" using arg_cong [OF eq, of ins_parent_instance_ref] by simp
  show "fx_execution_attempts (ins_metrics i') = fx_execution_attempts (ins_metrics i)"
    using arg_cong [OF eq, of "\<lambda>i. fx_execution_attempts (ins_metrics i)"] by simp
qed

lemma compensate_at_run:
  assumes "idx < length (ins_compensation_stack i)"
  obtains i' h' e' where "compensate_at env idx i h = (FlowOk i', h')"
    and "ins_compensation_stack i' = (ins_compensation_stack i)[idx := e']"
    and "settled (ins_compensation_stack i ! idx) e'"
    and "functions_run h' = functions_run h @ map comp_call (filter is_pending [ins_compensation_stack i ! idx])"
    and "same_flow i i'"
    and "\<exists>new. h' = new @ h \<and> handler_runs new = 0 \<and> (\<forall>j \<in> set (instances_saved new). j = i')"
proof -
  let ?e = "ins_compensation_stack i ! idx"
  let ?p = "emit env (ins_id i) (Log ''info''
          (''Executing compensation '' @ quoted (ce_compensation_fn ?e) @ '' for step '' @ quoted (ce_step_id ?e)) (Some (ce_step_id ?e))) h"
  show thesis
  proof (cases "is_pending ?e")
    case False
    then have run: "compensate_at env idx i h = (FlowOk i, h)" by (simp add: compensate_at_def is_pending_def fl_return_def)
    show thesis by (rule that [OF run, of ?e]) (use False in \<open>simp_all add: settled_def\<close>)
  next
    case True
    let ?h1 = "snd ?p"
    show thesis
    proof (cases "on_execute_function env ?h1 (ce_compensation_fn ?e) (ce_compensation_input ?e)")
      case (Inl e)
      let ?h2 = "ExecuteFunction (ce_compensation_fn ?e) (ce_compensation_input ?e) # ?h1"
      let ?e' = "mark_failed (on_read_clock env ?h2) (flow_error_to_string e) ?e"
      let ?i' = "i\<lparr>ins_compensation_stack := (ins_compensation_stack i)[idx := ?e']\<rparr>"
      let ?h' = "SaveInstance ?i' # snd (emit env (ins_id i) (Log ''error''
                 (''Compensation '' @ quoted (ce_compensation_fn ?e) @ '' for step '' @ quoted (ce_step_id ?e)
                   @ '' failed: '' @ flow_error_to_string e) (Some (ce_step_id ?e))) (ReadClock # ?h2))"
      have run: "compensate_at env idx i h = (FlowOk ?i', ?h')"
        using True Inl by (simp add: compensate_at_def is_pending_def execute_compensation_def fl_return_def Let_def)
      show thesis by (rule that [OF run, of ?e'])
        (use True in \<open>auto simp: settled_def is_pending_def mark_failed_def comp_call_def same_flow_def Cons_eq_append_conv\<close>)
    next
      case (Inr v)
      let ?h2 = "ExecuteFunction (ce_compensation_fn ?e) (ce_compensation_input ?e) # ?h1"
      let ?e' = "mark_executed (on_read_clock env ?h2) ?e"
      let ?i' = "i\<lparr>ins_metrics := (ins_metrics i)\<lparr>fx_compensation_count := fx_compensation_count (ins_metrics i) + 1\<rparr>,
          ins_compensation_stack := (ins_compensation_stack i)[idx := ?e']\<rparr>"
      let ?h' = "SaveInstance ?i' # ReadClock # ?h2"
      have run: "compensate_at env idx i h = (FlowOk ?i', ?h')"
        using True Inr by (simp add: compensate_at_def is_pending_def execute_compensation_def fl_return_def Let_def)
      show thesis by (rule that [OF run, of ?e'])
        (use True in \<open>auto simp: settled_def is_pending_def mark_executed_def comp_call_def same_flow_def\<close>)
    qed
  qed
qed

lemma rollback_loop_run:
  assumes "k \<le> length (ins_compensation_stack i)"
  shows "\<exists>i' h'. rollback_loop env (rev [0..<k]) i h = (FlowOk i', h') \<and>
    length (ins_compensation_stack i') = length (ins_compensation_stack i) \<and>
    (\<forall>j < length (ins_compensation_stack i).
       if j < k then settled (ins_compensation_stack i ! j) (ins_compensation_stack i' ! j)
       else ins_compensation_stack i' ! j = ins_compensation_stack i ! j) \<and>
    functions_run h' = functions_run h @ map comp_call (filter is_pending (rev (take k (ins_compensation_stack i)))) \<and>
    same_flow i i' \<and>
    (\<exists>new. h' = new @ h \<and> handler_runs new = 0 \<and> (\<forall>j \<in> set (instances_saved new). same_flow i j))"
  using assms
proof (induction k arbitrary: i h)
  case 0
  then show ?case by (simp add: fl_return_def)
next
  case (Suc k)
  let ?st = "ins_compensation_stack i"
  have k: "k < length ?st" using Suc.prems by simp
  obtain i1 h1 e' where one: "compensate_at env k i h = (FlowOk i1, h1)" "ins_compensation_stack i1 = ?st[k := e']"
    "settled (?st ! k) e'" "functions_run h1 = functions_run h @ map comp_call (filter is_pending [?st ! k])"
    "same_flow i i1"
    "\<exists>new. h1 = new @ h \<and> handler_runs new = 0 \<and> (\<forall>j \<in> set (instances_saved new). j = i1)"
    by (rule compensate_at_run [OF k, of env h])
  have "k \<le> length (ins_compensation_stack i1)" using one(2) k by simp
  from Suc.IH [OF this, of h1] obtain i' h' where rest: "rollback_loop env (rev [0..<k]) i1 h1 = (FlowOk i', h')"
    "length (ins_compensation_stack i') = length (ins_compensation_stack i1)"
    "\<forall>j < length (ins_compensation_stack i1).
       if j < k then settled (ins_compensation_stack i1 ! j) (ins_compensation_stack i' ! j)
       else ins_compensation_stack i' ! j = ins_compensation_stack i1 ! j"
    "functions_run h' = functions_run h1 @ map comp_call (filter is_pending (rev (take k (ins_compensation_stack i1))))"
    "same_flow i1 i'"
    "\<exists>new. h' = new @ h1 \<and> handler_runs new = 0 \<and> (\<forall>j \<in> set (instances_saved new). same_flow i1 j)"
    by blast
  have run: "rollback_loop env (rev [0..<Suc k]) i h = (FlowOk i', h')" using one(1) rest(1) by (simp add: fl_bind_def)
  moreover have "length (ins_compensation_stack i') = length ?st" using rest(2) one(2) by simp
  moreover have "if j < Suc k then settled (?st ! j) (ins_compensation_stack i' ! j)
       else ins_compensation_stack i' ! j = ?st ! j" if "j < length ?st" for j
    using rest(3) [rule_format, of j] that one(2,3) k by (cases "j = k") (auto split: if_splits)
  moreover have "functions_run h' = functions_run h @ map comp_call (filter is_pending (rev (take (Suc k) ?st)))"
    unfolding rest(4) one(4) one(2) take_Suc_conv_app_nth [OF k] by simp
  moreover have "same_flow i i'" using same_flow_trans [OF one(5) rest(5)] .
  moreover have "\<exists>new. h' = new @ h \<and> handler_runs new = 0 \<and> (\<forall>j \<in> set (instances_saved new). same_flow i j)"
  proof -
    from one(6) obtain a where a: "h1 = a @ h" "handler_runs a = 0" "\<forall>j \<in> set (instances_saved a). j = i1" by blast
    from rest(6) obtain b where b: "h' = b @ h1" "handler_runs b = 0" "\<forall>j \<in> set (instances_saved b). same_flow i1 j" by blast
    have "\<forall>j \<in> set (instances_saved (b @ a)). same_flow i j" using a(3) b(3) one(5) same_flow_trans [OF one(5)] by auto
    with a b show ?thesis by (intro exI [of _ "b @ a"]) simp
  qed
  ultimately show ?case by blast
qed

text \<open>
  C13. A rollback always returns. It runs the pending compensations of the stack and no other, each once, in the reverse order of
  completion; afterwards none is pending, entries that had run before are as they were, and the instance is rolled back
  unless there was nothing on the stack. Rolling back again runs nothing.
\<close>

theorem rollback_once_in_reverse:
  "\<exists>i' h'. rollback_flow env i h = (FlowOk i', h') \<and>
     functions_run h' = functions_run h @ map comp_call (filter is_pending (rev (ins_compensation_stack i))) \<and>
     list_all2 settled (ins_compensation_stack i) (ins_compensation_stack i') \<and>
     ins_status i' = (if ins_compensation_stack i = [] then ins_status i else RolledBack) \<and>
     (\<forall>h2. \<exists>i2 h2'. rollback_flow env i' h2 = (FlowOk i2, h2') \<and> functions_run h2' = functions_run h2)"
proof -
  have once: "\<exists>i' h'. rollback_flow env i h = (FlowOk i', h') \<and>
     functions_run h' = functions_run h @ map comp_call (filter is_pending (rev (ins_compensation_stack i))) \<and>
     list_all2 settled (ins_compensation_stack i) (ins_compensation_stack i') \<and>
     ins_status i' = (if ins_compensation_stack i = [] then ins_status i else RolledBack)" for i h
  proof (cases "ins_compensation_stack i = []")
    case True
    then show ?thesis by (simp add: rollback_flow_def fl_return_def)
  next
    case False
    from rollback_loop_run [of "length (ins_compensation_stack i)" i env h] obtain i' h' where
      run: "rollback_loop env (rev [0..<length (ins_compensation_stack i)]) i h = (FlowOk i', h')"
      and len: "length (ins_compensation_stack i') = length (ins_compensation_stack i)"
      and set: "\<forall>j < length (ins_compensation_stack i). settled (ins_compensation_stack i ! j) (ins_compensation_stack i' ! j)"
      and fns: "functions_run h' = functions_run h @ map comp_call (filter is_pending (rev (ins_compensation_stack i)))"
      by auto
    have "rollback_flow env i h = (FlowOk (i'\<lparr>ins_status := RolledBack\<rparr>), h')"
      using False run by (simp add: rollback_flow_def fl_bind_def fl_return_def)
    then show ?thesis using False len set fns by (simp add: list_all2_conv_all_nth)
  qed
  obtain i' h' where run: "rollback_flow env i h = (FlowOk i', h')"
    and fns: "functions_run h' = functions_run h @ map comp_call (filter is_pending (rev (ins_compensation_stack i)))"
    and all: "list_all2 settled (ins_compensation_stack i) (ins_compensation_stack i')"
    and st: "ins_status i' = (if ins_compensation_stack i = [] then ins_status i else RolledBack)"
    using once [of i h] by blast
  have "\<not> is_pending e" if "e \<in> set (ins_compensation_stack i')" for e
  proof -
    from that obtain j where j: "j < length (ins_compensation_stack i')" "e = ins_compensation_stack i' ! j" by (metis in_set_conv_nth)
    with all have "settled (ins_compensation_stack i ! j) e" by (simp add: list_all2_conv_all_nth)
    then show ?thesis by (auto simp: settled_def split: if_splits)
  qed
  then have "filter is_pending (rev (ins_compensation_stack i')) = []" by (simp add: filter_empty_conv)
  then have "\<forall>h2. \<exists>i2 h2'. rollback_flow env i' h2 = (FlowOk i2, h2') \<and> functions_run h2' = functions_run h2"
    using once [of i'] by (metis append_Nil2 list.simps(8))
  with run fns all st show ?thesis by blast
qed

end
