(* ===== verification/Flow_Executor.thy ===== *)
theory Flow_Executor
  imports Flow_Step Flow_Compensation
begin

text \<open>
  The executor (\<open>runtime/executor/execution_loop.rs\<close>, \<open>result_handlers.rs\<close>): steps run one after the other until the
  flow waits, completes or fails. An execution that loses a race on the version of its instance starts again, at most three
  times.
\<close>

section \<open>Results of a step\<close>

definition MAX_VERSION_CONFLICT_RETRIES :: u32 where
  "MAX_VERSION_CONFLICT_RETRIES = 3"

definition limits_policy :: "flow_instance \<Rightarrow> json option" where
  "limits_policy inst = jpointer [''metadata'', ''custom'', ''execution_limits''] (ins_flow_definition_snapshot inst)"

text \<open>The end of the lifetime of an instance; the limit is converted to a signed number.\<close>

definition lifetime_deadline :: "flow_env \<Rightarrow> flow_instance \<Rightarrow> datetime flow" where
  "lifetime_deadline env inst =
     fl_bind (fl_lift (limits_parse (limits_policy inst))) (\<lambda>limits.
       plus_millis env (ins_started_at inst) (sint (max_elapsed_ms limits)))"

definition calculate_timeout :: "flow_env \<Rightarrow> json \<Rightarrow> datetime option flow" where
  "calculate_timeout env metadata =
     (case Option.bind (jget ''timeout_ms'' metadata) as_u64 of
        None \<Rightarrow> fl_return None
      | Some ms \<Rightarrow> fl_bind (utc_now env) (\<lambda>now. fl_bind (plus_millis env now (sint ms)) (\<lambda>t. fl_return (Some t))))"

definition timeout_payload :: "flow_env \<Rightarrow> string \<Rightarrow> datetime \<Rightarrow> json" where
  "timeout_payload env instance_id at =
     JObject [(''instance_id'', JString instance_id), (''execution_type'', JString ''timeout_check''),
              (''timeout_at'', JString (to_rfc3339 env at))]"

definition schedule_check :: "flow_env \<Rightarrow> string \<Rightarrow> datetime \<Rightarrow> unit flow" where
  "schedule_check env instance_id at =
     fl_bind (fl_try (QueueJobAt ''FlowInstanceExecution'' (timeout_payload env instance_id at) at)
       (\<lambda>h. on_queue_job_at env h ''FlowInstanceExecution'' (timeout_payload env instance_id at) at)) (\<lambda>_. fl_return ())"

definition wait_info_of :: "flow_env \<Rightarrow> string \<Rightarrow> string \<Rightarrow> json \<Rightarrow> datetime option \<Rightarrow> wait_info" where
  "wait_info_of env subscription_id reason metadata timeout_at =
     \<lparr>wi_subscription_id = subscription_id, wi_wait_type = parse_wait_type (str_to_lowercase env) reason,
      wi_target_path = Option.bind (jget ''target_path'' metadata) json_as_str,
      wi_expected_event = Option.bind (jget ''expected_event'' metadata) json_as_str, wi_timeout_at = timeout_at\<rparr>"

text \<open>How an iteration of the loop ends. A lost race restarts the execution with one more conflict counted.\<close>

datatype ('s) iteration = Again 's | Return | Restart u32

definition handle_wait_result ::
  "flow_env \<Rightarrow> string \<Rightarrow> flow_instance \<Rightarrow> string \<Rightarrow> string \<Rightarrow> json \<Rightarrow> u32 \<Rightarrow> u32 \<Rightarrow> 's iteration flow" where
  "handle_wait_result env instance_id inst step_id reason metadata expected_version version_conflict_retries =
     fl_bind (emit env instance_id (FlowWaiting step_id reason reason)) (\<lambda>_.
     fl_bind (lifetime_deadline env inst) (\<lambda>deadline.
     fl_bind (calculate_timeout env metadata) (\<lambda>timeout.
     fl_bind (generate_subscription_id env) (\<lambda>subscription_id.
     let timeout_at = map_option (\<lambda>t. min t deadline) timeout;
         parked = inst\<lparr>ins_status := Waiting, ins_wait_info := Some (wait_info_of env subscription_id reason metadata timeout_at)\<rparr>
     in fl_bind (case timeout_at of Some t \<Rightarrow> schedule_check env instance_id t | None \<Rightarrow> fl_return ()) (\<lambda>_.
        fl_bind (fl_try (SaveInstanceWithVersion parked expected_version)
          (\<lambda>h. on_save_instance_with_version env h parked expected_version)) (\<lambda>saved.
        case saved of
          Inr _ \<Rightarrow> fl_return Return
        | Inl VersionConflict \<Rightarrow>
            if MAX_VERSION_CONFLICT_RETRIES \<le> version_conflict_retries then
              fl_throw (Other (''Flow '' @ instance_id @ '' exceeded max version conflict retries (''
                @ show_nat (unat MAX_VERSION_CONFLICT_RETRIES) @ '')''))
            else fl_return (Restart (version_conflict_retries + 1))
        | Inl e \<Rightarrow> fl_throw e))))))"

definition var_str :: "flow_instance \<Rightarrow> string \<Rightarrow> json" where
  "var_str inst key = json_opt_str (Option.bind (jget key (ins_variables inst)) json_as_str)"

definition resume_payload :: "flow_instance \<Rightarrow> string \<Rightarrow> string \<Rightarrow> json option \<Rightarrow> string option \<Rightarrow> json" where
  "resume_payload inst parent status out err =
     JObject [(''instance_id'', JString parent), (''execution_type'', JString ''resume''),
       (''resume_reason'', JString ''child_flow_terminal''),
       (''resume_data'', JObject [(''child_completed'', JBool True), (''child_instance_id'', JString (ins_id inst)),
          (''parent_step_id'', var_str inst ''__parent_step_id''), (''branch_id'', var_str inst ''__branch_id''),
          (''status'', JString status), (''output'', case out of Some v \<Rightarrow> v | None \<Rightarrow> JNull),
          (''error'', json_opt_str err)])]"

definition notify_parent_flow ::
  "flow_env \<Rightarrow> flow_instance \<Rightarrow> string \<Rightarrow> json option \<Rightarrow> string option \<Rightarrow> unit flow" where
  "notify_parent_flow env inst status out err =
     (case ins_parent_instance_ref inst of
        None \<Rightarrow> fl_return ()
      | Some parent \<Rightarrow>
          fl_bind (fl_try (QueueJob ''FlowInstanceExecution'' (resume_payload inst parent status out err))
            (\<lambda>h. on_queue_job env h ''FlowInstanceExecution'' (resume_payload inst parent status out err))) (\<lambda>_. fl_return ()))"

definition handle_complete_result ::
  "flow_env \<Rightarrow> string \<Rightarrow> flow_instance \<Rightarrow> string \<Rightarrow> json \<Rightarrow> u32 \<Rightarrow> u64 \<Rightarrow> u64 \<Rightarrow> unit flow" where
  "handle_complete_result env instance_id inst step_id out expected_version step_duration_ms flow_start =
     fl_bind (emit env instance_id (step_completed step_id out step_duration_ms)) (\<lambda>_.
     fl_bind (utc_now env) (\<lambda>now.
     fl_bind (elapsed env flow_start) (\<lambda>total_duration_ms.
     let done_inst = inst\<lparr>ins_status := Completed, ins_output := Some out, ins_completed_at := Some now,
           ins_metrics := (ins_metrics inst)\<lparr>fx_total_duration_ms := total_duration_ms\<rparr>\<rparr>
     in fl_bind (emit env instance_id (FlowCompleted out total_duration_ms)) (\<lambda>_.
        fl_bind (fl_call (SaveInstanceWithVersion done_inst expected_version)
          (\<lambda>h. on_save_instance_with_version env h done_inst expected_version)) (\<lambda>_.
        notify_parent_flow env done_inst ''completed'' (Some out) None)))))"

definition schedule_retry :: "flow_env \<Rightarrow> string \<Rightarrow> flow_instance \<Rightarrow> flow_node \<Rightarrow> u32 \<Rightarrow> unit flow" where
  "schedule_retry env instance_id inst0 step expected_version =
     (let inst = inst0\<lparr>ins_retry_count := ins_retry_count inst0 + 1,
            ins_metrics := (ins_metrics inst0)\<lparr>fx_retry_count := fx_retry_count (ins_metrics inst0) + 1\<rparr>\<rparr> in
      fl_bind (lifetime_deadline env inst) (\<lambda>deadline.
      fl_bind (utc_now env) (\<lambda>now.
      fl_bind (plus_millis env now (calculate_backoff (ins_retry_count inst) (Some step))) (\<lambda>t.
      fl_bind (generate_subscription_id env) (\<lambda>subscription_id.
      let retry_at = min t deadline;
          parked = inst\<lparr>ins_status := Waiting, ins_wait_info := Some \<lparr>wi_subscription_id = subscription_id, wi_wait_type = Retry,
            wi_target_path = None, wi_expected_event = None, wi_timeout_at = Some retry_at\<rparr>\<rparr>
      in fl_bind (fl_call (SaveInstanceWithVersion parked expected_version)
           (\<lambda>h. on_save_instance_with_version env h parked expected_version)) (\<lambda>_.
         schedule_check env instance_id retry_at))))))"

definition continues_after_error :: "flow_node \<Rightarrow> bool" where
  "continues_after_error step \<longleftrightarrow>
     Option.bind (hm_get (fn_properties step) ''continue_on_fail'') as_bool = Some True \<or>
     Option.bind (hm_get (fn_properties step) ''on_error'') json_as_str \<in> {Some ''continue'', Some ''skip''}"

definition fail_flow_terminally ::
  "flow_env \<Rightarrow> string \<Rightarrow> flow_instance \<Rightarrow> string \<Rightarrow> flow_error \<Rightarrow> u64 \<Rightarrow> 'a flow" where
  "fail_flow_terminally env instance_id inst failed_step_id err flow_start =
     fl_bind (utc_now env) (\<lambda>now.
     fl_bind (rollback_flow env (inst\<lparr>ins_status := Failed, ins_error := Some (flow_error_to_string err), ins_completed_at := Some now\<rparr>)) (\<lambda>failed.
     fl_bind (elapsed env flow_start) (\<lambda>total_duration_ms.
     fl_bind (emit env instance_id (FlowFailed (flow_error_to_string err) (Some failed_step_id) total_duration_ms)) (\<lambda>_.
     fl_bind (fl_call (SaveInstance failed) (\<lambda>h. on_save_instance env h failed)) (\<lambda>_.
     fl_bind (notify_parent_flow env failed ''failed'' None (Some (flow_error_to_string err))) (\<lambda>_.
     fl_throw err))))))"

definition error_var :: "flow_env \<Rightarrow> flow_error \<Rightarrow> string \<Rightarrow> datetime \<Rightarrow> (string \<times> json) list" where
  "error_var env err step_id now =
     [(''error_type'', JString ''step_error''), (''message'', JString (flow_error_to_string err)),
      (''step_id'', JString step_id), (''timestamp'', JString (to_rfc3339 env now))]"

text \<open>The clock is read only when the variables are an object.\<close>

definition set_error_var :: "flow_env \<Rightarrow> flow_instance \<Rightarrow> (datetime \<Rightarrow> (string \<times> json) list) \<Rightarrow> flow_instance flow" where
  "set_error_var env inst mk =
     (case ins_variables inst of
        JObject _ \<Rightarrow> fl_bind (utc_now env) (\<lambda>now. fl_return (insert_vars [(''error'', JObject (mk now))] inst))
      | _ \<Rightarrow> fl_return inst)"

text \<open>The boolean of the code: \<open>None\<close> to return from the loop, \<open>Some\<close> the instance to go on with.\<close>

definition handle_error_result ::
  "flow_env \<Rightarrow> string \<Rightarrow> flow_instance \<Rightarrow> flow_node \<Rightarrow> flow_definition \<Rightarrow> flow_error \<Rightarrow> u32 \<Rightarrow> u64 \<Rightarrow> u64 \<Rightarrow> flow_instance option flow" where
  "handle_error_result env instance_id inst step def err expected_version step_duration_ms flow_start =
     fl_bind (emit env instance_id (StepFailed (fn_id step) (flow_error_to_string err) step_duration_ms)) (\<lambda>_.
     if ins_retry_count inst < get_max_retries step then
       fl_bind (schedule_retry env instance_id inst step expected_version) (\<lambda>_. fl_return None)
     else
       (case Option.bind (hm_get (fn_properties step) ''error_edge'') json_as_str of
          Some error_target \<Rightarrow>
            fl_bind (set_error_var env inst (error_var env err (fn_id step))) (\<lambda>inst'.
              fl_return (Some (inst'\<lparr>ins_current_node_id := error_target, ins_retry_count := 0\<rparr>)))
        | None \<Rightarrow>
            if continues_after_error step then
              fl_bind (set_error_var env inst (\<lambda>now. error_var env err (fn_id step) now @ [(''continued'', JBool True)])) (\<lambda>inst'.
                fl_return (Some (inst'\<lparr>ins_current_node_id := (case next_node_id def (fn_id step) of Some n \<Rightarrow> n | None \<Rightarrow> ''end''),
                  ins_retry_count := 0\<rparr>)))
            else fail_flow_terminally env instance_id inst (fn_id step) err flow_start))"

section \<open>The loop\<close>

definition MAX_SAME_STEP_ITERATIONS :: u32 where
  "MAX_SAME_STEP_ITERATIONS = 100"

definition MAX_STEPS_PER_EXECUTION :: u32 where
  "MAX_STEPS_PER_EXECUTION = 10000"

record run_params =
  rp_instance_id :: string
  rp_definition :: flow_definition
  rp_limits :: flow_execution_limits
  rp_checkpoint_limit :: nat
  rp_expected_version :: u32
  rp_flow_start :: u64
  rp_retries :: u32

record loop_state =
  ls_instance :: flow_instance
  ls_same_step_count :: u32
  ls_steps :: u32

fun step_type_name :: "flow_env \<Rightarrow> step_type \<Rightarrow> string" where
  "step_type_name env Start = ''start''"
| "step_type_name env End = ''end''"
| "step_type_name env Decision = ''decision''"
| "step_type_name env FunctionStep = ''function_step''"
| "step_type_name env AgentStep = ''agent_step''"
| "step_type_name env AIContainer = ''a_i_container''"
| "step_type_name env HumanTask = ''human_task''"
| "step_type_name env Parallel = ''parallel''"
| "step_type_name env Join = ''join''"
| "step_type_name env Wait = ''wait''"
| "step_type_name env SubFlow = ''sub_flow''"
| "step_type_name env Chat = ''chat''"
| "step_type_name env AgentDecision = ''agent_decision''"
| "step_type_name env Competition = ''competition''"
| "step_type_name env Container = ''container''"
| "step_type_name env Loop = ''loop''"
| "step_type_name env (Custom name) = custom_type_name env name"

definition enter_step :: "flow_env \<Rightarrow> run_params \<Rightarrow> flow_node \<Rightarrow> flow_instance \<Rightarrow> flow_instance flow" where
  "enter_step env rp step inst =
     (case take_resume_reentry inst of (reentry, inst1) \<Rightarrow>
        if reentry then fl_return inst1
        else
          (case bump_visit_count inst1 (fn_id step) of (visit, inst2) \<Rightarrow>
             if rp_checkpoint_limit rp = 0 then fl_return inst2
             else fl_bind (utc_now env) (\<lambda>now. fl_return (record_checkpoint (rp_checkpoint_limit rp) visit now inst2))))"

definition charge_tokens :: "json \<Rightarrow> flow_instance \<Rightarrow> flow_instance" where
  "charge_tokens out inst =
     (case extract_token_usage out of
        None \<Rightarrow> inst
      | Some (inp, outp) \<Rightarrow>
          inst\<lparr>ins_metrics := (ins_metrics inst)
            \<lparr>fx_ai_call_count := fx_ai_call_count (ins_metrics inst) + 1,
             fx_total_input_tokens := saturating_add_u64 (fx_total_input_tokens (ins_metrics inst)) inp,
             fx_total_output_tokens := saturating_add_u64 (fx_total_output_tokens (ins_metrics inst)) outp\<rparr>\<rparr>)"

definition continue_to :: "flow_env \<Rightarrow> flow_node \<Rightarrow> string \<Rightarrow> json \<Rightarrow> flow_instance \<Rightarrow> flow_instance" where
  "continue_to env step next_id out0 inst =
     (let out = project_output_key (str_trim env) step out0;
          recorded = (case ins_variables inst of
                        JObject vars \<Rightarrow> inst\<lparr>ins_variables := JObject (record_step_output (fn_id step) out vars)\<rparr>
                      | _ \<Rightarrow> inst)
      in (charge_tokens out recorded)\<lparr>ins_current_node_id := next_id, ins_retry_count := 0\<rparr>)"

text \<open>An error of a step: to the result of the iteration, with the count of repetitions to go on with.\<close>

definition step_failed_at ::
  "flow_env \<Rightarrow> run_params \<Rightarrow> flow_node \<Rightarrow> flow_instance \<Rightarrow> u32 \<Rightarrow> u32 \<Rightarrow> flow_error \<Rightarrow> u64 \<Rightarrow> loop_state iteration flow" where
  "step_failed_at env rp step inst same steps err duration =
     fl_bind (handle_error_result env (rp_instance_id rp) inst step (rp_definition rp) err (rp_expected_version rp) duration
       (rp_flow_start rp)) (\<lambda>r.
     case r of
       None \<Rightarrow> fl_return Return
     | Some inst' \<Rightarrow> fl_return (Again \<lparr>ls_instance = inst', ls_same_step_count = same, ls_steps = steps\<rparr>))"

definition count_step :: "flow_instance \<Rightarrow> flow_instance" where
  "count_step inst = inst\<lparr>ins_metrics := (ins_metrics inst)\<lparr>fx_step_count := fx_step_count (ins_metrics inst) + 1\<rparr>\<rparr>"

definition after_step ::
  "flow_env \<Rightarrow> run_params \<Rightarrow> flow_node \<Rightarrow> u32 \<Rightarrow> u32 \<Rightarrow> step_outcome \<Rightarrow> u64 \<Rightarrow> loop_state iteration flow" where
  "after_step env rp step same steps out duration =
     (case out of (res, inst) \<Rightarrow>
        (case res of
           Inl e \<Rightarrow>
             fl_bind (emit env (rp_instance_id rp) (StepFailed (fn_id step) (flow_error_to_string e) duration)) (\<lambda>_.
             if is_infrastructural e then fl_throw e else step_failed_at env rp step inst same steps e duration)
         | Inr (Continue next_id v) \<Rightarrow>
             fl_bind (emit env (rp_instance_id rp) (step_completed (fn_id step) v duration)) (\<lambda>_.
             fl_return (Again \<lparr>ls_instance = continue_to env step next_id v (count_step inst), ls_same_step_count = 0, ls_steps = steps\<rparr>))
         | Inr (WaitFor reason metadata) \<Rightarrow>
             handle_wait_result env (rp_instance_id rp) (count_step inst) (fn_id step) reason metadata (rp_expected_version rp) (rp_retries rp)
         | Inr (Complete v) \<Rightarrow>
             fl_bind (handle_complete_result env (rp_instance_id rp) (count_step inst) (fn_id step) v (rp_expected_version rp) duration
               (rp_flow_start rp)) (\<lambda>_. fl_return Return)
         | Inr (StepError e) \<Rightarrow> step_failed_at env rp step (count_step inst) same steps e duration
         | Inr (SameStep metadata) \<Rightarrow>
             if MAX_SAME_STEP_ITERATIONS < same + 1 then
               step_failed_at env rp step (count_step inst) 0 steps (MaxIterationsExceeded MAX_SAME_STEP_ITERATIONS) duration
             else fl_return (Again \<lparr>ls_instance = count_step inst, ls_same_step_count = same + 1, ls_steps = steps\<rparr>)))"

definition loop_body :: "flow_env \<Rightarrow> run_params \<Rightarrow> loop_state \<Rightarrow> loop_state iteration flow" where
  "loop_body env rp ls =
     (case find_node (rp_definition rp) (ins_current_node_id (ls_instance ls)) of
        None \<Rightarrow> fl_throw (StepNotFound (ins_current_node_id (ls_instance ls)))
      | Some step \<Rightarrow>
          fl_bind (utc_now env) (\<lambda>now.
          case charge_attempt (rp_limits rp) now (ls_instance ls) of
            Inl err \<Rightarrow> fail_flow_terminally env (rp_instance_id rp) (ls_instance ls) (fn_id step) err (rp_flow_start rp)
          | Inr charged \<Rightarrow>
              if MAX_STEPS_PER_EXECUTION < ls_steps ls + 1 then
                fail_flow_terminally env (rp_instance_id rp) charged (fn_id step) (MaxIterationsExceeded MAX_STEPS_PER_EXECUTION) (rp_flow_start rp)
              else
                fl_bind (enter_step env rp step charged) (\<lambda>entered.
                fl_bind (read_timer env) (\<lambda>step_start.
                fl_bind (emit env (rp_instance_id rp) (StepStarted (fn_id step) (get_string_property step ''name'')
                  (step_type_name env (fn_step_type step)))) (\<lambda>_.
                fl_bind (execute_step env step entered (rp_definition rp)) (\<lambda>out.
                fl_bind (elapsed env step_start) (\<lambda>duration.
                after_step env rp step (ls_same_step_count ls) (ls_steps ls + 1) out duration)))))))"

text \<open>The loop; \<open>None\<close> is a loop that does not end.\<close>

partial_function (option) run_loop ::
  "flow_env \<Rightarrow> run_params \<Rightarrow> loop_state \<Rightarrow> history \<Rightarrow> (u32 option flow_outcome \<times> history) option" where
  "run_loop env rp ls h =
     (case loop_body env rp ls h of
        (FlowOk (Again ls'), h') \<Rightarrow> run_loop env rp ls' h'
      | (FlowOk Return, h') \<Rightarrow> Some (FlowOk None, h')
      | (FlowOk (Restart n), h') \<Rightarrow> Some (FlowOk (Some n), h')
      | (FlowErr e, h') \<Rightarrow> Some (FlowErr e, h')
      | (FlowPanic, h') \<Rightarrow> Some (FlowPanic, h'))"

section \<open>An execution\<close>

datatype prepared = Finished | Ready run_params loop_state

definition instance_path :: "string \<Rightarrow> string" where
  "instance_path instance_id = ''/flows/instances/'' @ instance_id"

definition mark_running :: "flow_env \<Rightarrow> flow_instance \<Rightarrow> flow_instance flow" where
  "mark_running env loaded =
     (if ins_status loaded = Pending then
        fl_bind (utc_now env) (\<lambda>now. fl_return (loaded\<lparr>ins_status := Running, ins_started_at := now\<rparr>))
      else fl_return loaded)"

text \<open>A fresh run is refused when its definition does not validate.\<close>

definition refuse_invalid :: "flow_env \<Rightarrow> flow_instance \<Rightarrow> flow_definition \<Rightarrow> unit flow" where
  "refuse_invalid env inst def =
     (if fx_step_count (ins_metrics inst) = 0 then
        (case validate def of
           Inr _ \<Rightarrow> fl_return ()
         | Inl e \<Rightarrow>
             fl_bind (utc_now env) (\<lambda>now.
               let failed = inst\<lparr>ins_status := Failed, ins_error := Some (flow_error_to_string e), ins_completed_at := Some now\<rparr>
               in fl_bind (fl_call (SaveInstance failed) (\<lambda>h. on_save_instance env h failed)) (\<lambda>_. fl_throw e)))
      else fl_return ())"

definition begin_loop :: "flow_env \<Rightarrow> string \<Rightarrow> u32 \<Rightarrow> u32 \<Rightarrow> flow_instance \<Rightarrow> flow_definition \<Rightarrow> prepared flow" where
  "begin_loop env instance_id version_conflict_retries expected_version inst def =
     fl_bind (read_timer env) (\<lambda>flow_start.
       case limits_parse (hm_get (fm_custom (fd_metadata def)) ''execution_limits'') of
         Inl e \<Rightarrow> fail_flow_terminally env instance_id inst (ins_current_node_id inst) e flow_start
       | Inr limits \<Rightarrow>
           fl_return (Ready
             \<lparr>rp_instance_id = instance_id, rp_definition = def, rp_limits = limits,
              rp_checkpoint_limit = checkpoint_limit (ins_flow_definition_snapshot inst), rp_expected_version = expected_version,
              rp_flow_start = flow_start, rp_retries = version_conflict_retries\<rparr>
             \<lparr>ls_instance = inst, ls_same_step_count = 0, ls_steps = 0\<rparr>))"

definition prepare_run :: "flow_env \<Rightarrow> string \<Rightarrow> u32 \<Rightarrow> prepared flow" where
  "prepare_run env instance_id version_conflict_retries =
     fl_bind (fl_call (LoadInstance (instance_path instance_id)) (\<lambda>h. on_load_instance env h (instance_path instance_id))) (\<lambda>loaded.
     if is_terminated loaded then fl_return Finished
     else
       fl_bind (mark_running env loaded) (\<lambda>inst.
       fl_bind (fl_lift (parse_definition env (ins_flow_definition_snapshot inst))) (\<lambda>def.
       fl_bind (refuse_invalid env inst def) (\<lambda>_.
       begin_loop env instance_id version_conflict_retries (ins_version loaded) inst def))))"

partial_function (option) execute_flow_with_retry ::
  "flow_env \<Rightarrow> string \<Rightarrow> u32 \<Rightarrow> history \<Rightarrow> (unit flow_outcome \<times> history) option" where
  "execute_flow_with_retry env instance_id retries h =
     (case prepare_run env instance_id retries h of
        (FlowOk Finished, h') \<Rightarrow> Some (FlowOk (), h')
      | (FlowErr e, h') \<Rightarrow> Some (FlowErr e, h')
      | (FlowPanic, h') \<Rightarrow> Some (FlowPanic, h')
      | (FlowOk (Ready rp ls), h') \<Rightarrow>
          Option.bind (run_loop env rp ls h') (\<lambda>(r, h'').
            case r of
              FlowOk None \<Rightarrow> Some (FlowOk (), h'')
            | FlowOk (Some n) \<Rightarrow> execute_flow_with_retry env instance_id n h''
            | FlowErr e \<Rightarrow> Some (FlowErr e, h'')
            | FlowPanic \<Rightarrow> Some (FlowPanic, h'')))"

definition execute_flow :: "flow_env \<Rightarrow> string \<Rightarrow> history \<Rightarrow> (unit flow_outcome \<times> history) option" where
  "execute_flow env instance_id = execute_flow_with_retry env instance_id 0"

end
