(* ===== verification/Flow_Runs.thy ===== *)
theory Flow_Runs
  imports Flow_Executor
begin

text \<open>
  What an execution does to the outside. \<open>traced Q m\<close> says that \<open>m\<close> returns, extends the history by some calls and that \<open>Q\<close> holds
  of these calls and the result, whatever the environment answers; the rules for it follow the structure of the code. On it rest the
  theorems about executions: they return, they never leave a stored instance running, a terminal failure is recorded,
  and the calls of handlers are counted in the instance.
\<close>

section \<open>Traces\<close>

definition traced :: "(history \<Rightarrow> 'a flow_outcome \<Rightarrow> bool) \<Rightarrow> 'a flow \<Rightarrow> bool" where
  "traced Q m \<longleftrightarrow> (\<forall>h. \<exists>new r. m h = (r, new @ h) \<and> Q new r)"

named_theorems trace_rules "rules for calls and results"

lemma traced_return [trace_rules]: "Q [] (FlowOk a) \<Longrightarrow> traced Q (fl_return a)"
  by (simp add: traced_def fl_return_def)

lemma traced_throw [trace_rules]: "Q [] (FlowErr e) \<Longrightarrow> traced Q (fl_throw e)"
  by (simp add: traced_def fl_throw_def)

lemma traced_try [trace_rules]: "(\<And>x. Q [c] (FlowOk x)) \<Longrightarrow> traced Q (fl_try c answer)"
  by (simp add: traced_def fl_try_def)

lemma traced_weaken: "traced Q m \<Longrightarrow> (\<And>new r. Q new r \<Longrightarrow> Q' new r) \<Longrightarrow> traced Q' m"
  unfolding traced_def by blast

lemma traced_bind:
  assumes "traced Q1 m" and "\<And>new a. Q1 new (FlowOk a) \<Longrightarrow> traced (\<lambda>new'. Q (new' @ new)) (f a)"
    and "\<And>new e. Q1 new (FlowErr e) \<Longrightarrow> Q new (FlowErr e)" and "\<And>new. Q1 new FlowPanic \<Longrightarrow> Q new FlowPanic"
  shows "traced Q (fl_bind m f)"
  unfolding traced_def
proof
  fix h
  obtain new r where m: "m h = (r, new @ h)" "Q1 new r" using assms(1) unfolding traced_def by blast
  show "\<exists>new r. fl_bind m f h = (r, new @ h) \<and> Q new r"
  proof (cases r)
    case (FlowOk a)
    with m(2) have "traced (\<lambda>new'. Q (new' @ new)) (f a)" by (simp add: assms(2))
    then obtain new' r' where f: "f a (new @ h) = (r', new' @ new @ h)" "Q (new' @ new) r'" unfolding traced_def by blast
    have "fl_bind m f h = (r', (new' @ new) @ h)" using m f FlowOk by (simp add: fl_bind_def)
    with f(2) show ?thesis by blast
  next
    case (FlowErr e)
    with m assms(3) [of new e] show ?thesis by (auto simp: fl_bind_def)
  next
    case FlowPanic
    with m assms(4) [of new] show ?thesis by (auto simp: fl_bind_def)
  qed
qed

lemma traced_bind_try [trace_rules]:
  "(\<And>x. traced (\<lambda>new'. Q (new' @ [c])) (f x)) \<Longrightarrow> traced Q (fl_bind (fl_try c answer) f)"
  by (rule traced_bind [where ?Q1.0 = "\<lambda>new r. new = [c] \<and> (\<exists>x. r = FlowOk x)"]) (auto simp: traced_def fl_try_def)

lemma traced_bind_now [trace_rules]:
  "(\<And>x. traced (\<lambda>new'. Q (new' @ [ReadClock])) (f x)) \<Longrightarrow> traced Q (fl_bind (utc_now env) f)"
  unfolding utc_now_def by (rule traced_bind_try)

lemma traced_bind_timer [trace_rules]:
  "(\<And>x. traced (\<lambda>new'. Q (new' @ [ReadTimer])) (f x)) \<Longrightarrow> traced Q (fl_bind (read_timer env) f)"
  unfolding read_timer_def by (rule traced_bind_try)

lemma traced_bind_elapsed [trace_rules]:
  "(\<And>x. traced (\<lambda>new'. Q (new' @ [ReadTimer])) (f x)) \<Longrightarrow> traced Q (fl_bind (elapsed env start) f)"
  unfolding elapsed_def fl_bind_assoc fl_bind_return by (rule traced_bind_timer)

lemma traced_bind_uuid [trace_rules]:
  "(\<And>x. traced (\<lambda>new'. Q (new' @ [NewUuid])) (f x)) \<Longrightarrow> traced Q (fl_bind (generate_subscription_id env) f)"
  unfolding generate_subscription_id_def by (rule traced_bind_try)

lemma traced_bind_emit [trace_rules]:
  "(\<And>ev. traced (\<lambda>new'. Q (new' @ [EmitEvent iid ev, ReadClock])) (f ())) \<Longrightarrow> traced Q (fl_bind (emit env iid mk) f)"
  by (rule traced_bind [where ?Q1.0 = "\<lambda>new r. \<exists>ev. new = [EmitEvent iid ev, ReadClock] \<and> r = FlowOk ()"]) (auto simp: traced_def)

lemma traced_bind_lift [trace_rules]:
  "\<lbrakk>\<And>e. r = Inl e \<Longrightarrow> Q [] (FlowErr e); \<And>a. r = Inr a \<Longrightarrow> traced Q (f a)\<rbrakk> \<Longrightarrow> traced Q (fl_bind (fl_lift r) f)"
  by (cases r) (simp_all add: fl_lift_def traced_throw)

lemma traced_bind_call [trace_rules]:
  "\<lbrakk>\<And>e. Q [c] (FlowErr e); \<And>a. traced (\<lambda>new'. Q (new' @ [c])) (f a)\<rbrakk> \<Longrightarrow> traced Q (fl_bind (fl_call c answer) f)"
  unfolding fl_call_def fl_bind_assoc by (intro traced_bind_try traced_bind_lift) simp_all

lemma traced_bind_plus [trace_rules]:
  "\<lbrakk>Q [] FlowPanic; \<And>t. traced Q (f t)\<rbrakk> \<Longrightarrow> traced Q (fl_bind (plus_millis env t0 ms) f)"
  by (rule traced_bind [where ?Q1.0 = "\<lambda>new r. new = [] \<and> (r = FlowPanic \<or> (\<exists>t. r = FlowOk t))"])
    (auto simp: traced_def plus_millis_def split: option.splits)

lemma traced_bind_return [trace_rules]: "traced Q (f a) \<Longrightarrow> traced Q (fl_bind (fl_return a) f)"
  by simp

lemma traced_if [trace_rules]: "\<lbrakk>b \<Longrightarrow> traced Q m; \<not> b \<Longrightarrow> traced Q m'\<rbrakk> \<Longrightarrow> traced Q (if b then m else m')"
  by simp

abbreviation attempts_of :: "flow_instance \<Rightarrow> u64" where
  "attempts_of i \<equiv> fx_execution_attempts (ins_metrics i)"

text \<open>A saved instance at rest: not running, with the attempts of the instance it comes from.\<close>

definition at_rest :: "flow_instance \<Rightarrow> flow_instance \<Rightarrow> bool" where
  "at_rest i j \<longleftrightarrow> ins_status j \<in> {Waiting, Completed, Failed, RolledBack} \<and> attempts_of j = attempts_of i"

definition all_at_rest :: "flow_instance \<Rightarrow> history \<Rightarrow> bool" where
  "all_at_rest i new \<longleftrightarrow> (\<forall>j \<in> set (instances_saved new). at_rest i j)"

section \<open>The results of a step\<close>

lemma lifetime_deadline_traced: "traced (\<lambda>new r. new = []) (lifetime_deadline env i)"
  by (auto simp: lifetime_deadline_def traced_def fl_bind_def fl_lift_def fl_throw_def fl_return_def plus_millis_def
      split: sum.splits option.splits)

lemma calculate_timeout_traced: "traced (\<lambda>new r. instances_saved new = [] \<and> handler_runs new = 0) (calculate_timeout env md)"
  unfolding calculate_timeout_def
  by (cases "Option.bind (jget ''timeout_ms'' md) as_u64") (simp_all, (intro trace_rules; simp)+)

lemma schedule_check_traced:
  "traced (\<lambda>new r. instances_saved new = [] \<and> handler_runs new = 0 \<and> r = FlowOk ()) (schedule_check env iid t)"
  unfolding schedule_check_def by (intro trace_rules) simp

lemma notify_traced:
  "traced (\<lambda>new r. instances_saved new = [] \<and> handler_runs new = 0 \<and> r = FlowOk ()) (notify_parent_flow env i st out err)"
  unfolding notify_parent_flow_def by (cases "ins_parent_instance_ref i") (simp_all, (intro trace_rules; simp)+)

lemma handle_wait_traced:
  "traced (\<lambda>new r. handler_runs new = 0 \<and> all_at_rest i new \<and>
     (case r of
        FlowOk Return \<Rightarrow> instances_saved new \<noteq> [] \<and> ins_status (hd (instances_saved new)) = Waiting
      | FlowOk (Restart n) \<Rightarrow> retries < MAX_VERSION_CONFLICT_RETRIES \<and> n = retries + 1
      | FlowOk (Again _) \<Rightarrow> False
      | _ \<Rightarrow> True)) (handle_wait_result env iid i sid reason md version retries)"
proof -
  have park: "traced (\<lambda>new r. instances_saved new = [] \<and> handler_runs new = 0 \<and> r = FlowOk ())
      (case t of Some t \<Rightarrow> schedule_check env iid t | None \<Rightarrow> fl_return ())" for t
    by (cases t) (simp_all add: schedule_check_traced traced_return)
  have conflict: "traced (\<lambda>new r. handler_runs (new @ [SaveInstanceWithVersion j version]) = 0 \<and>
      (case r of
        FlowOk Return \<Rightarrow> True
      | FlowOk (Restart n) \<Rightarrow> retries < MAX_VERSION_CONFLICT_RETRIES \<and> n = retries + 1
      | FlowOk (Again _) \<Rightarrow> False
      | _ \<Rightarrow> True) \<and> new = [])
     (case saved of
          Inr _ \<Rightarrow> fl_return Return
        | Inl VersionConflict \<Rightarrow>
            if MAX_VERSION_CONFLICT_RETRIES \<le> retries then
              fl_throw (Other (''Flow '' @ iid @ '' exceeded max version conflict retries (''
                @ show_nat (unat MAX_VERSION_CONFLICT_RETRIES) @ '')''))
            else fl_return (Restart (retries + 1))
        | Inl e \<Rightarrow> fl_throw e)" for j :: flow_instance and saved :: "flow_error + unit"
    by (auto simp: traced_def fl_return_def fl_throw_def not_le split: sum.splits flow_error.splits)
  show ?thesis
    unfolding handle_wait_result_def Let_def
    apply (rule traced_bind_emit)
    apply (rule traced_bind [OF lifetime_deadline_traced])
      apply (rule traced_bind [OF calculate_timeout_traced])
        apply (rule traced_bind_uuid)
        apply (rule traced_bind [OF park])
          apply (rule traced_bind_try)
          apply (rule traced_weaken [OF conflict])
          apply (auto simp: all_at_rest_def at_rest_def split: flow_outcome.splits iteration.splits)
    done
qed

lemma handle_complete_traced:
  "traced (\<lambda>new r. handler_runs new = 0 \<and> all_at_rest i new \<and>
     (r = FlowOk () \<longrightarrow> instances_saved new \<noteq> [] \<and> ins_status (hd (instances_saved new)) = Completed))
     (handle_complete_result env iid i sid out version duration start)"
  unfolding handle_complete_result_def Let_def
  by (intro trace_rules traced_weaken [OF notify_traced]) (auto simp: all_at_rest_def at_rest_def)

lemma schedule_retry_traced:
  "traced (\<lambda>new r. handler_runs new = 0 \<and> all_at_rest i new \<and>
     (r = FlowOk () \<longrightarrow> instances_saved new \<noteq> [] \<and> ins_status (hd (instances_saved new)) = Waiting))
     (schedule_retry env iid i step version)"
  unfolding schedule_retry_def Let_def
  by (rule traced_bind [OF lifetime_deadline_traced], intro trace_rules traced_weaken [OF schedule_check_traced])
    (auto simp: all_at_rest_def at_rest_def)

lemma rollback_traced:
  "traced (\<lambda>new r. \<exists>i'. r = FlowOk i' \<and> handler_runs new = 0 \<and>
     functions_run new = map comp_call (filter is_pending (rev (ins_compensation_stack i))) \<and>
     (\<forall>j \<in> set (instances_saved new). same_flow i j) \<and>
     ins_status i' = (if ins_compensation_stack i = [] then ins_status i else RolledBack) \<and>
     (\<exists>j. same_flow i j \<and> i' = j\<lparr>ins_status := ins_status i'\<rparr>)) (rollback_flow env i)"
proof (cases "ins_compensation_stack i = []")
  case True
  have ex: "\<exists>j. same_flow i j \<and> i = j\<lparr>ins_status := ins_status i\<rparr>" by (rule exI [of _ i]) simp
  have "traced (\<lambda>new r. new = [] \<and> r = FlowOk i) (rollback_flow env i)"
    using True by (simp add: rollback_flow_def traced_return)
  then show ?thesis by (rule traced_weaken) (use True ex in simp)
next
  case False
  have "\<exists>new r. rollback_flow env i h = (r, new @ h) \<and> (\<exists>i'. r = FlowOk i' \<and> handler_runs new = 0 \<and>
     functions_run new = map comp_call (filter is_pending (rev (ins_compensation_stack i))) \<and>
     (\<forall>j \<in> set (instances_saved new). same_flow i j) \<and> ins_status i' = RolledBack \<and>
     (\<exists>j. same_flow i j \<and> i' = j\<lparr>ins_status := ins_status i'\<rparr>))" for h
  proof -
    from rollback_loop_run [of "length (ins_compensation_stack i)" i env h] obtain i' new where
      run: "rollback_loop env (rev [0..<length (ins_compensation_stack i)]) i h = (FlowOk i', new @ h)"
      and fns: "functions_run (new @ h) = functions_run h @ map comp_call (filter is_pending (rev (ins_compensation_stack i)))"
      and same: "same_flow i i'" "\<forall>j \<in> set (instances_saved new). same_flow i j" "handler_runs new = 0"
      by auto
    have "rollback_flow env i h = (FlowOk (i'\<lparr>ins_status := RolledBack\<rparr>), new @ h)"
      using False run by (simp add: rollback_flow_def fl_bind_def fl_return_def)
    moreover have "functions_run new = map comp_call (filter is_pending (rev (ins_compensation_stack i)))" using fns by simp
    moreover have "\<exists>j. same_flow i j \<and> i'\<lparr>ins_status := RolledBack\<rparr> = j\<lparr>ins_status := ins_status (i'\<lparr>ins_status := RolledBack\<rparr>)\<rparr>"
      using same(1) by (intro exI [of _ i']) simp
    ultimately show ?thesis using same(2,3) by (intro exI [of _ new] exI [of _ "FlowOk (i'\<lparr>ins_status := RolledBack\<rparr>)"]) auto
  qed
  with False show ?thesis unfolding traced_def by auto
qed

text \<open>The rollback of an instance that has been marked as failed.\<close>

definition failed_with :: "flow_instance \<Rightarrow> flow_error \<Rightarrow> flow_instance \<Rightarrow> bool" where
  "failed_with i err j \<longleftrightarrow> ins_status j = (if ins_compensation_stack i = [] then Failed else RolledBack) \<and>
     ins_error j = Some (flow_error_to_string err) \<and> attempts_of j = attempts_of i \<and>
     ins_id j = ins_id i \<and> ins_variables j = ins_variables i \<and> ins_parent_instance_ref j = ins_parent_instance_ref i"

lemma failed_with_rest: "failed_with i err j \<Longrightarrow> at_rest i j"
  by (auto simp: failed_with_def at_rest_def)

lemma rollback_failed_traced:
  "traced (\<lambda>new r. \<exists>j. r = FlowOk j \<and> handler_runs new = 0 \<and> all_at_rest i new \<and> failed_with i err j \<and>
     functions_run new = map comp_call (filter is_pending (rev (ins_compensation_stack i))))
     (rollback_flow env (i\<lparr>ins_status := Failed, ins_error := Some (flow_error_to_string err), ins_completed_at := Some now\<rparr>))"
proof (rule traced_weaken [OF rollback_traced], elim exE conjE)
  let ?f = "i\<lparr>ins_status := Failed, ins_error := Some (flow_error_to_string err), ins_completed_at := Some now\<rparr>"
  fix new r i' j
  assume r: "r = FlowOk i'" "handler_runs new = 0" "functions_run new = map comp_call (filter is_pending (rev (ins_compensation_stack ?f)))"
    and saved: "\<forall>j \<in> set (instances_saved new). same_flow ?f j"
    and st: "ins_status i' = (if ins_compensation_stack ?f = [] then ins_status ?f else RolledBack)"
    and j: "same_flow ?f j" "i' = j\<lparr>ins_status := ins_status i'\<rparr>"
  have "at_rest i k" if "k \<in> set (instances_saved new)" for k
    using same_flowD [OF saved [rule_format, OF that]] by (simp add: at_rest_def)
  moreover have "failed_with i err (j\<lparr>ins_status := ins_status i'\<rparr>)"
    using same_flowD [OF j(1)] st by (simp add: failed_with_def)
  then have "failed_with i err i'" using j(2) by simp
  ultimately show "\<exists>j. r = FlowOk j \<and> handler_runs new = 0 \<and> all_at_rest i new \<and> failed_with i err j \<and>
     functions_run new = map comp_call (filter is_pending (rev (ins_compensation_stack i)))"
    using r by (simp add: all_at_rest_def)
qed

lemma fail_traced:
  "traced (\<lambda>new r. handler_runs new = 0 \<and> all_at_rest i new \<and> (\<exists>e. r = FlowErr e)) (fail_flow_terminally env iid i sid err start)"
  unfolding fail_flow_terminally_def
  by (rule traced_bind_now, rule traced_bind [OF rollback_failed_traced], intro trace_rules traced_bind [OF notify_traced])
    (auto simp: all_at_rest_def dest: failed_with_rest)

lemma set_error_var_traced:
  "traced (\<lambda>new r. instances_saved new = [] \<and> handler_runs new = 0 \<and> (\<exists>j. r = FlowOk j \<and> attempts_of j = attempts_of i))
     (set_error_var env i mk)"
  unfolding set_error_var_def insert_vars_def
  by (cases "ins_variables i") (simp_all, (intro trace_rules; simp)+)

lemma handle_error_traced:
  "traced (\<lambda>new r. handler_runs new = 0 \<and> all_at_rest i new \<and>
     (case r of
        FlowOk None \<Rightarrow> instances_saved new \<noteq> [] \<and> ins_status (hd (instances_saved new)) = Waiting
      | FlowOk (Some j) \<Rightarrow> instances_saved new = [] \<and> attempts_of j = attempts_of i
      | _ \<Rightarrow> True)) (handle_error_result env iid i step def err version duration start)"
proof -
  have go_on: "traced (\<lambda>new r. instances_saved new = [] \<and> handler_runs new = 0 \<and> (\<exists>j. r = FlowOk (Some j) \<and> attempts_of j = attempts_of i))
      (fl_bind (set_error_var env i mk) (\<lambda>inst'. fl_return (Some (inst'\<lparr>ins_current_node_id := n, ins_retry_count := 0\<rparr>))))" for mk n
    by (rule traced_bind [OF set_error_var_traced]) (auto intro!: traced_return)
  have retry: "traced (\<lambda>new r. handler_runs new = 0 \<and> all_at_rest i new \<and>
      (r = FlowOk None \<longrightarrow> instances_saved new \<noteq> [] \<and> ins_status (hd (instances_saved new)) = Waiting) \<and> (\<nexists>j. r = FlowOk (Some j)))
      (fl_bind (schedule_retry env iid i step version) (\<lambda>_. fl_return None))"
    by (rule traced_bind [OF schedule_retry_traced]) (auto intro!: traced_return)
  show ?thesis
    unfolding handle_error_result_def
  proof (rule traced_bind_emit, rule traced_if, goal_cases)
    case (1 ev)
    show ?case by (rule traced_weaken [OF retry]) (auto simp: all_at_rest_def split: flow_outcome.splits option.splits)
  next
    case (2 ev)
    note fail = traced_weaken [OF fail_traced] and on = traced_weaken [OF go_on]
    show ?case
      by (cases "Option.bind (hm_get (fn_properties step) ''error_edge'') json_as_str"; cases "continues_after_error step")
        (simp_all, (rule fail on, auto simp: all_at_rest_def)+)
  qed
qed

section \<open>Executing a step\<close>

text \<open>A step changes the variables and the compensation stack of the instance and runs at most one handler.\<close>

definition step_effect :: "flow_instance \<Rightarrow> history \<Rightarrow> step_outcome flow_outcome \<Rightarrow> bool" where
  "step_effect i new r \<longleftrightarrow> instances_saved new = [] \<and> handler_runs new \<le> 1 \<and>
     (\<exists>res j. r = FlowOk (res, j) \<and> ins_metrics j = ins_metrics i)"

lemma insert_vars_metrics [simp]: "ins_metrics (insert_vars es i) = ins_metrics i"
  by (simp add: insert_vars_def split: json.splits)

lemma sync_metrics [simp]: "ins_metrics (sync_context_to_instance c i) = ins_metrics i"
  by (simp add: sync_context_to_instance_def)

lemma dispatch_traced: "traced (step_effect i) (dispatch env step i def)"
  unfolding dispatch_def Let_def
  by (auto intro!: trace_rules simp: step_effect_def split: option.splits)

lemma execute_step_inner_traced: "traced (step_effect i) (execute_step_inner env step i def)"
  unfolding execute_step_inner_def
  by (auto intro!: traced_return dispatch_traced simp: step_effect_def split: option.splits)

definition branch_effect :: "flow_instance \<Rightarrow> history \<Rightarrow> step_outcome flow_outcome \<Rightarrow> bool" where
  "branch_effect i new r \<longleftrightarrow> instances_saved new = [] \<and> handler_runs new = 0 \<and>
     (\<exists>res j. r = FlowOk (res, j) \<and> ins_metrics j = ins_metrics i)"

lemma merge_back_traced: "traced (branch_effect i) (merge_back env step i b original res)"
  unfolding merge_back_def
  by (intro trace_rules) (auto intro!: trace_rules simp: branch_effect_def split: sum.splits flow_error.splits)

lemma settle_branch_traced: "traced (branch_effect i) (settle_branch env step i b original res)"
  unfolding settle_branch_def Let_def
  by (intro traced_if merge_back_traced trace_rules) (auto intro!: trace_rules simp: branch_effect_def split: sum.splits)

lemma branch_success_traced: "traced (branch_effect i) (handle_branch_success env step i b original res)"
proof (cases original)
  case (Some orig)
  have "traced (\<lambda>new. branch_effect i (new @ [SwitchBranch orig])) (settle_branch env step i b original res)"
    by (rule traced_weaken [OF settle_branch_traced]) (simp add: branch_effect_def)
  with Some show ?thesis unfolding handle_branch_success_def
    by (auto intro!: trace_rules simp: branch_effect_def split: sum.splits)
qed (simp add: handle_branch_success_def settle_branch_traced)

lemma after_isolated_traced: "traced (branch_effect i) (after_isolated env step b original (res, i))"
  unfolding after_isolated_def
  by (auto intro!: trace_rules branch_success_traced simp: branch_effect_def split: sum.splits step_result.splits)

lemma isolated_traced: "traced (step_effect i) (execute_step_in_isolated_branch env step i def)"
proof -
  have keep: "step_effect i (new @ [c]) r" if "step_effect i new r" "instances_saved [c] = []" "\<not> is_handler_run c" for new r c
    using that unfolding step_effect_def instances_saved_append by simp
  have inner: "traced (\<lambda>new. step_effect i (new @ cs)) (execute_step_inner env step i def)"
    if "instances_saved cs = []" "handler_runs cs = 0" for cs
    by (rule traced_weaken [OF execute_step_inner_traced]) (use that in \<open>auto simp: step_effect_def\<close>)
  have stop: "traced (\<lambda>new. step_effect i (new @ cs)) (fl_return (r, i))"
    if "instances_saved cs = []" "handler_runs cs = 0" for cs r
    by (rule traced_return) (use that in \<open>auto simp: step_effect_def\<close>)
  have run: "traced (\<lambda>new. step_effect i (new @ cs)) (fl_bind (execute_step_inner env step i def) (after_isolated env step b original))"
    if "instances_saved cs = []" "handler_runs cs = 0" for cs b original
  proof (rule traced_bind [OF execute_step_inner_traced])
    fix new out
    assume "step_effect i new (FlowOk out)"
    then obtain res j where out: "out = (res, j)" "ins_metrics j = ins_metrics i" "instances_saved new = []" "handler_runs new \<le> 1"
      by (auto simp: step_effect_def)
    show "traced (\<lambda>new'. step_effect i ((new' @ new) @ cs)) (after_isolated env step b original out)"
      unfolding out(1) by (rule traced_weaken [OF after_isolated_traced]) (use out that in \<open>auto simp: branch_effect_def step_effect_def\<close>)
  qed (auto simp: step_effect_def)
  show ?thesis
    unfolding execute_step_in_isolated_branch_def Let_def
    apply (rule traced_bind_try)
    apply (split sum.split, intro conjI allI impI)
     apply (split flow_error.split, intro conjI allI impI; (rule inner stop; simp))
    apply (rule traced_bind_try)
    apply (split sum.split, intro conjI allI impI)
     apply (split flow_error.split, intro conjI allI impI; simp only: append_assoc; (rule inner stop; simp))
    apply (rule traced_bind_try)
    apply (split sum.split, intro conjI allI impI)
     apply (rule traced_bind_try, simp only: append_assoc, rule stop; simp)
    apply (simp only: append_assoc, rule run; simp)
    done
qed

lemma execute_step_traced: "traced (step_effect i) (execute_step env step i def)"
  unfolding execute_step_def by (simp add: isolated_traced execute_step_inner_traced)

section \<open>An iteration of the loop\<close>

lemma enter_step_traced:
  "traced (\<lambda>new r. instances_saved new = [] \<and> handler_runs new = 0 \<and> (\<exists>j. r = FlowOk j \<and> ins_metrics j = ins_metrics i))
     (enter_step env rp step i)"
proof -
  have take: "ins_metrics (snd (take_resume_reentry i)) = ins_metrics i" for i
    by (simp add: take_resume_reentry_def split: json.splits)
  have bump: "ins_metrics (snd (bump_visit_count i sid)) = ins_metrics i" for i sid
    by (simp add: bump_visit_count_def Let_def split: json.splits)
  have recorded: "ins_metrics (record_checkpoint n v t i) = ins_metrics i" for n v t i
    by (simp add: record_checkpoint_def Let_def)
  obtain re i1 where t: "take_resume_reentry i = (re, i1)" by force
  obtain v i2 where b: "bump_visit_count i1 (fn_id step) = (v, i2)" by force
  have "ins_metrics i1 = ins_metrics i" "ins_metrics i2 = ins_metrics i" using take [of i] bump [of i1 "fn_id step"] t b by simp_all
  then show ?thesis unfolding enter_step_def t using b by (auto intro!: trace_rules simp: recorded)
qed

lemma count_step_attempts [simp]: "attempts_of (count_step i) = attempts_of i"
  by (simp add: count_step_def)

lemma continue_to_attempts [simp]: "attempts_of (continue_to env step n out i) = attempts_of i"
  by (simp add: continue_to_def charge_tokens_def Let_def split: json.splits option.splits)

lemma at_rest_count [simp]: "all_at_rest (count_step i) = all_at_rest i"
  by (simp add: all_at_rest_def at_rest_def fun_eq_iff)

text \<open>How the rest of an iteration may end, from the instance after its step.\<close>

definition iteration_end :: "run_params \<Rightarrow> u32 \<Rightarrow> flow_instance \<Rightarrow> history \<Rightarrow> loop_state iteration flow_outcome \<Rightarrow> bool" where
  "iteration_end rp steps i new r \<longleftrightarrow> handler_runs new = 0 \<and> all_at_rest i new \<and>
     (case r of
        FlowOk (Again ls) \<Rightarrow> instances_saved new = [] \<and> ls_steps ls = steps \<and> attempts_of (ls_instance ls) = attempts_of i
      | FlowOk Return \<Rightarrow> instances_saved new \<noteq> [] \<and> ins_status (hd (instances_saved new)) \<in> {Waiting, Completed}
      | FlowOk (Restart n) \<Rightarrow> rp_retries rp < MAX_VERSION_CONFLICT_RETRIES \<and> n = rp_retries rp + 1
      | _ \<Rightarrow> True)"

lemma step_failed_traced: "traced (iteration_end rp steps i) (step_failed_at env rp step i same steps err duration)"
  unfolding step_failed_at_def
  by (rule traced_bind [OF handle_error_traced])
    (auto intro!: trace_rules simp: iteration_end_def split: option.splits)

lemma after_step_traced: "traced (iteration_end rp steps i) (after_step env rp step same steps (res, i) duration)"
proof -
  have quiet: "iteration_end rp steps i (new @ [EmitEvent iid ev, ReadClock]) r" if "iteration_end rp steps i new r" for new r iid ev
    using that by (auto simp: iteration_end_def all_at_rest_def split: flow_outcome.splits iteration.splits)
  have count: "iteration_end rp steps (count_step j) = iteration_end rp steps j" for j
    by (auto simp: iteration_end_def fun_eq_iff split: flow_outcome.splits iteration.splits)
  note failed = step_failed_traced [of rp steps "count_step i", unfolded count]
  show ?thesis
  proof (cases res)
    case (Inl e)
    have "traced (\<lambda>new'. iteration_end rp steps i (new' @ [EmitEvent iid ev, ReadClock]))
        (step_failed_at env rp step i same steps e duration)" for ev iid
      by (rule traced_weaken [OF step_failed_traced]) (rule quiet)
    then show ?thesis unfolding after_step_def Inl
      by (auto intro!: trace_rules simp: iteration_end_def all_at_rest_def)
  next
    case (Inr r)
    then show ?thesis
    proof (cases r)
      case (Continue n v)
      then show ?thesis unfolding after_step_def Inr by (auto intro!: trace_rules simp: iteration_end_def all_at_rest_def)
    next
      case (WaitFor reason md)
      have "traced (iteration_end rp steps i) (handle_wait_result env (rp_instance_id rp) (count_step i) (fn_id step) reason md
          (rp_expected_version rp) (rp_retries rp))"
        by (rule traced_weaken [OF handle_wait_traced]) (auto simp: iteration_end_def split: flow_outcome.splits iteration.splits)
      then show ?thesis unfolding after_step_def Inr WaitFor by simp
    next
      case (Complete v)
      have "traced (iteration_end rp steps i) (fl_bind (handle_complete_result env (rp_instance_id rp) (count_step i) (fn_id step) v
          (rp_expected_version rp) duration (rp_flow_start rp)) (\<lambda>_. fl_return Return))"
        by (rule traced_bind [OF handle_complete_traced]) (auto intro!: traced_return simp: iteration_end_def)
      then show ?thesis unfolding after_step_def Inr Complete by simp
    next
      case (StepError e)
      then show ?thesis unfolding after_step_def Inr using failed by simp
    next
      case (SameStep md)
      then show ?thesis unfolding after_step_def Inr using failed
        by (auto intro!: trace_rules simp: iteration_end_def all_at_rest_def)
    qed
  qed
qed

text \<open>
  An iteration that goes on has counted its step and charged an attempt, and has saved nothing. Every instance an iteration
  saves is at rest and has been charged for the handler the iteration ran.
\<close>

definition charged_save :: "run_params \<Rightarrow> nat \<Rightarrow> nat \<Rightarrow> flow_instance \<Rightarrow> bool" where
  "charged_save rp start runs j \<longleftrightarrow> ins_status j \<in> {Waiting, Completed, Failed, RolledBack} \<and>
     start + runs \<le> unat (attempts_of j) \<and> unat (attempts_of j) \<le> max start (unat (max_step_attempts (rp_limits rp)))"

definition iteration_ok :: "run_params \<Rightarrow> loop_state \<Rightarrow> history \<Rightarrow> loop_state iteration flow_outcome \<Rightarrow> bool" where
  "iteration_ok rp ls new r \<longleftrightarrow> handler_runs new \<le> (if ls_steps ls + 1 \<le> MAX_STEPS_PER_EXECUTION then 1 else 0) \<and>
     (\<forall>j \<in> set (instances_saved new). charged_save rp (unat (attempts_of (ls_instance ls))) (handler_runs new) j) \<and>
     (case r of
        FlowOk (Again ls') \<Rightarrow> instances_saved new = [] \<and> ls_steps ls' = ls_steps ls + 1 \<and> ls_steps ls + 1 \<le> MAX_STEPS_PER_EXECUTION \<and>
          unat (attempts_of (ls_instance ls)) < unat (attempts_of (ls_instance ls')) \<and>
          unat (attempts_of (ls_instance ls')) \<le> unat (max_step_attempts (rp_limits rp))
      | FlowOk Return \<Rightarrow> instances_saved new \<noteq> [] \<and> ins_status (hd (instances_saved new)) \<in> {Waiting, Completed}
      | FlowOk (Restart n) \<Rightarrow> rp_retries rp < MAX_VERSION_CONFLICT_RETRIES \<and> n = rp_retries rp + 1
      | _ \<Rightarrow> True)"

lemma loop_body_traced: "traced (iteration_ok rp ls) (loop_body env rp ls)"
proof (cases "find_node (rp_definition rp) (ins_current_node_id (ls_instance ls))")
  case None
  then show ?thesis unfolding loop_body_def by (auto intro!: trace_rules simp: iteration_ok_def)
next
  case (Some step)
  let ?i = "ls_instance ls"
  have failing: "traced (\<lambda>new. iteration_ok rp ls (new @ [ReadClock])) (fail_flow_terminally env (rp_instance_id rp) j sid err start)"
    if "unat (attempts_of ?i) \<le> unat (attempts_of j)"
      "unat (attempts_of j) \<le> max (unat (attempts_of ?i)) (unat (max_step_attempts (rp_limits rp)))" for j sid err start
    by (rule traced_weaken [OF fail_traced])
      (use that in \<open>auto simp: iteration_ok_def all_at_rest_def at_rest_def charged_save_def\<close>)
  have running: "traced (\<lambda>new. iteration_ok rp ls (new @ [ReadClock]))
      (fl_bind (enter_step env rp step charged) (\<lambda>entered.
                fl_bind (read_timer env) (\<lambda>step_start.
                fl_bind (emit env (rp_instance_id rp) (StepStarted (fn_id step) (get_string_property step ''name'')
                  (step_type_name env (fn_step_type step)))) (\<lambda>_.
                fl_bind (execute_step env step entered (rp_definition rp)) (\<lambda>out.
                fl_bind (elapsed env step_start) (\<lambda>duration.
                after_step env rp step (ls_same_step_count ls) (ls_steps ls + 1) out duration))))))"
    if "charge_attempt (rp_limits rp) now ?i = Inr charged" and "ls_steps ls + 1 \<le> MAX_STEPS_PER_EXECUTION" for now charged
  proof -
    note charge = charge_attempt_Inr(1,2) [OF that(1)] and steps = that(2)
    have finish: "iteration_ok rp ls (a @ ReadTimer # b @ EmitEvent iid ev # ReadClock # ReadTimer # c @ [ReadClock]) r"
      if "iteration_end rp (ls_steps ls + 1) j a r" "instances_saved b = []" "handler_runs b \<le> 1" "attempts_of j = attempts_of charged"
        "instances_saved c = []" "handler_runs c = 0" for a b c j r iid ev
    proof -
      have lt: "unat (attempts_of ?i) < unat (attempts_of charged)" and le: "unat (attempts_of charged) \<le> unat (max_step_attempts (rp_limits rp))"
        using charge by auto
      have "charged_save rp (unat (attempts_of ?i)) (handler_runs b) k" if "k \<in> set (instances_saved a)" for k
        using \<open>iteration_end rp (ls_steps ls + 1) j a r\<close> that lt le \<open>attempts_of j = attempts_of charged\<close> \<open>handler_runs b \<le> 1\<close>
        by (auto simp: iteration_end_def all_at_rest_def at_rest_def charged_save_def)
      moreover have "case r of
        FlowOk (Again ls') \<Rightarrow> instances_saved a = [] \<and> ls_steps ls' = ls_steps ls + 1 \<and> ls_steps ls + 1 \<le> MAX_STEPS_PER_EXECUTION \<and>
          unat (attempts_of ?i) < unat (attempts_of (ls_instance ls')) \<and>
          unat (attempts_of (ls_instance ls')) \<le> unat (max_step_attempts (rp_limits rp))
      | FlowOk Return \<Rightarrow> instances_saved a \<noteq> [] \<and> ins_status (hd (instances_saved a)) \<in> {Waiting, Completed}
      | FlowOk (Restart n) \<Rightarrow> rp_retries rp < MAX_VERSION_CONFLICT_RETRIES \<and> n = rp_retries rp + 1
      | _ \<Rightarrow> True"
        using \<open>iteration_end rp (ls_steps ls + 1) j a r\<close> lt le \<open>attempts_of j = attempts_of charged\<close> steps
        by (simp add: iteration_end_def split: flow_outcome.splits iteration.splits)
      moreover have runs: "handler_runs (a @ ReadTimer # b @ EmitEvent iid ev # ReadClock # ReadTimer # c @ [ReadClock]) = handler_runs b"
        using that(1,6) by (simp add: iteration_end_def)
      moreover have saved: "instances_saved (a @ ReadTimer # b @ EmitEvent iid ev # ReadClock # ReadTimer # c @ [ReadClock]) = instances_saved a"
        using that(2,5) by simp
      ultimately show ?thesis using that(3) steps unfolding iteration_ok_def runs saved by simp
    qed
    show ?thesis
      apply (rule traced_bind [OF enter_step_traced])
        apply (rule traced_bind_timer, rule traced_bind_emit)
        apply (rule traced_bind [OF execute_step_traced])
          apply (rule traced_bind_elapsed)
          apply (clarsimp simp: step_effect_def)
          apply (rule traced_weaken [OF after_step_traced])
          apply (erule finish [simplified]; simp)
         apply (simp_all add: step_effect_def)
      done
  qed
  show ?thesis
    unfolding loop_body_def Some option.case
  proof (rule traced_bind_now)
    fix now
    show "traced (\<lambda>new. iteration_ok rp ls (new @ [ReadClock]))
      (case charge_attempt (rp_limits rp) now ?i of
            Inl err \<Rightarrow> fail_flow_terminally env (rp_instance_id rp) ?i (fn_id step) err (rp_flow_start rp)
          | Inr charged \<Rightarrow>
              if MAX_STEPS_PER_EXECUTION < ls_steps ls + 1 then
                fail_flow_terminally env (rp_instance_id rp) charged (fn_id step) (MaxIterationsExceeded MAX_STEPS_PER_EXECUTION) (rp_flow_start rp)
              else
                fl_bind (enter_step env rp step charged) (\<lambda>entered.
                fl_bind (read_timer env) (\<lambda>step_start.
                fl_bind (emit env (rp_instance_id rp) (StepStarted (fn_id step) (get_string_property step ''name'')
                  (step_type_name env (fn_step_type step)))) (\<lambda>_.
                fl_bind (execute_step env step entered (rp_definition rp)) (\<lambda>out.
                fl_bind (elapsed env step_start) (\<lambda>duration.
                after_step env rp step (ls_same_step_count ls) (ls_steps ls + 1) out duration))))))"
    proof (cases "charge_attempt (rp_limits rp) now ?i")
      case (Inl err)
      show ?thesis unfolding Inl sum.case by (rule failing) simp_all
    next
      case (Inr charged)
      show ?thesis unfolding Inr sum.case
      proof (rule traced_if)
        show "traced (\<lambda>new. iteration_ok rp ls (new @ [ReadClock])) (fail_flow_terminally env (rp_instance_id rp) charged (fn_id step)
            (MaxIterationsExceeded MAX_STEPS_PER_EXECUTION) (rp_flow_start rp))"
          by (rule failing) (use charge_attempt_Inr(1,2) [OF Inr] in auto)
      qed (rule running [OF Inr], simp)
    qed
  qed
qed

section \<open>Executions\<close>

text \<open>
  A run of the loop returns after at most the steps that are left. Every instance it saves is at rest and counts the handlers the
  run has called, within the limit of the policy.
\<close>

definition run_ok :: "run_params \<Rightarrow> nat \<Rightarrow> nat \<Rightarrow> history \<Rightarrow> u32 option flow_outcome \<Rightarrow> bool" where
  "run_ok rp start budget new r \<longleftrightarrow> handler_runs new \<le> budget \<and>
     (\<forall>j \<in> set (instances_saved new). charged_save rp start (handler_runs new) j) \<and>
     (case r of
        FlowOk None \<Rightarrow> instances_saved new \<noteq> [] \<and> ins_status (hd (instances_saved new)) \<in> {Waiting, Completed}
      | FlowOk (Some n) \<Rightarrow> rp_retries rp < MAX_VERSION_CONFLICT_RETRIES \<and> n = rp_retries rp + 1
      | _ \<Rightarrow> True)"

lemma run_loop_last:
  assumes "loop_body env rp ls h = (r, new @ h)" and "iteration_ok rp ls new r" and "\<nexists>ls'. r = FlowOk (Again ls')"
    and "handler_runs new \<le> k"
  shows "\<exists>r' new. run_loop env rp ls h = Some (r', new @ h) \<and> run_ok rp (unat (attempts_of (ls_instance ls))) k new r'"
proof -
  define r' where "r' = (case r of FlowOk (Restart n) \<Rightarrow> FlowOk (Some n) | FlowOk _ \<Rightarrow> FlowOk None | FlowErr e \<Rightarrow> FlowErr e | FlowPanic \<Rightarrow> FlowPanic)"
  have "run_loop env rp ls h = Some (r', new @ h)"
    by (subst run_loop.simps) (use assms(1,3) in \<open>simp add: r'_def split: flow_outcome.splits iteration.splits\<close>)
  moreover have "run_ok rp (unat (attempts_of (ls_instance ls))) k new r'"
    using assms(2,3,4) by (auto simp: iteration_ok_def run_ok_def r'_def split: flow_outcome.splits iteration.splits)
  ultimately show ?thesis by blast
qed

lemma run_loop_ok:
  assumes "unat (ls_steps ls) + k = 10000"
  shows "\<exists>r new. run_loop env rp ls h = Some (r, new @ h) \<and> run_ok rp (unat (attempts_of (ls_instance ls))) k new r"
  using assms
proof (induction k arbitrary: ls h)
  case 0
  obtain r new where body: "loop_body env rp ls h = (r, new @ h)" and ok: "iteration_ok rp ls new r"
    using loop_body_traced [of rp ls env] unfolding traced_def by blast
  have "\<not> ls_steps ls + 1 \<le> MAX_STEPS_PER_EXECUTION"
    using 0 by (simp add: MAX_STEPS_PER_EXECUTION_def word_le_nat_alt unat_word_ariths)
  then have "\<nexists>ls'. r = FlowOk (Again ls')" using ok by (auto simp: iteration_ok_def)
  moreover have "handler_runs new \<le> 0" using ok \<open>\<not> ls_steps ls + 1 \<le> MAX_STEPS_PER_EXECUTION\<close> by (simp add: iteration_ok_def)
  ultimately show ?case by (rule run_loop_last [OF body ok])
next
  case (Suc k)
  obtain r new where body: "loop_body env rp ls h = (r, new @ h)" and ok: "iteration_ok rp ls new r"
    using loop_body_traced [of rp ls env] unfolding traced_def by blast
  have few: "handler_runs new \<le> 1" using ok by (simp add: iteration_ok_def split: if_splits)
  show ?case
  proof (cases "\<exists>ls'. r = FlowOk (Again ls')")
    case True
    then obtain ls' where r: "r = FlowOk (Again ls')" by blast
    have quiet: "instances_saved new = []" and step: "ls_steps ls' = ls_steps ls + 1"
      and att: "unat (attempts_of (ls_instance ls)) < unat (attempts_of (ls_instance ls'))"
        "unat (attempts_of (ls_instance ls')) \<le> unat (max_step_attempts (rp_limits rp))"
      using ok r by (simp_all add: iteration_ok_def)
    have "unat (ls_steps ls') + k = 10000" using Suc.prems step by (simp add: unat_word_ariths)
    from Suc.IH [OF this, of "new @ h"] obtain r' new' where
      rest: "run_loop env rp ls' (new @ h) = Some (r', new' @ new @ h)" "run_ok rp (unat (attempts_of (ls_instance ls'))) k new' r'"
      by blast
    have "run_loop env rp ls h = Some (r', (new' @ new) @ h)"
      by (subst run_loop.simps) (simp add: body r rest(1))
    moreover have saved: "instances_saved (new' @ new) = instances_saved new'" using quiet(1) by simp
    moreover have "charged_save rp (unat (attempts_of (ls_instance ls))) (handler_runs (new' @ new)) j"
      if "charged_save rp (unat (attempts_of (ls_instance ls'))) (handler_runs new') j" for j
      using that few att by (auto simp: charged_save_def)
    then have "run_ok rp (unat (attempts_of (ls_instance ls))) (Suc k) (new' @ new) r'"
      using rest(2) few unfolding run_ok_def saved by auto
    ultimately show ?thesis by blast
  qed (rule run_loop_last [OF body ok], use few in simp_all)
qed

definition saves_at_rest :: "history \<Rightarrow> bool" where
  "saves_at_rest new \<longleftrightarrow> (\<forall>j \<in> set (instances_saved new). ins_status j \<in> {Waiting, Completed, Failed, RolledBack})"

lemma saves_at_rest_append [simp]: "saves_at_rest (a @ b) \<longleftrightarrow> saves_at_rest a \<and> saves_at_rest b"
  by (auto simp: saves_at_rest_def)

definition found_terminated :: "flow_env \<Rightarrow> string \<Rightarrow> bool" where
  "found_terminated env iid \<longleftrightarrow> (\<exists>h i. on_load_instance env h (instance_path iid) = Inr i \<and> is_terminated i)"

text \<open>What the part before the loop may do.\<close>

definition prepared_ok :: "u32 \<Rightarrow> history \<Rightarrow> prepared flow_outcome \<Rightarrow> bool" where
  "prepared_ok retries new r \<longleftrightarrow> handler_runs new = 0 \<and> saves_at_rest new \<and> r \<noteq> FlowOk Finished \<and>
     (\<forall>rp ls. r = FlowOk (Ready rp ls) \<longrightarrow> instances_saved new = [] \<and> ls_steps ls = 0 \<and> rp_retries rp = retries)"

lemma prepared_ok_append:
  "prepared_ok retries (new @ cs) r \<longleftrightarrow> prepared_ok retries new r"
  if "instances_saved cs = []" "handler_runs cs = 0" for cs
  using that by (simp add: prepared_ok_def saves_at_rest_def)

lemma begin_loop_traced: "traced (prepared_ok retries) (begin_loop env iid retries version i def)"
proof -
  have fail: "traced (prepared_ok retries) (fail_flow_terminally env iid i sid e start)" for sid e start
    by (rule traced_weaken [OF fail_traced]) (auto simp: all_at_rest_def at_rest_def saves_at_rest_def prepared_ok_def)
  have ready: "traced (prepared_ok retries) (fl_return (Ready rp ls))" if "ls_steps ls = 0" "rp_retries rp = retries" for rp ls
    by (rule traced_return) (simp add: that prepared_ok_def saves_at_rest_def)
  show ?thesis
    unfolding begin_loop_def
    by (rule traced_bind_timer, unfold prepared_ok_append [of "[ReadTimer]", simplified]) (auto intro!: fail ready split: sum.splits)
qed

lemma mark_running_traced:
  "traced (\<lambda>new r. instances_saved new = [] \<and> handler_runs new = 0 \<and> (\<exists>j. r = FlowOk j)) (mark_running env i)"
  unfolding mark_running_def by (auto intro!: trace_rules)

lemma refuse_invalid_traced:
  "traced (\<lambda>new r. handler_runs new = 0 \<and> saves_at_rest new \<and> (r = FlowOk () \<longrightarrow> new = [])) (refuse_invalid env i def)"
  unfolding refuse_invalid_def Let_def by (auto intro!: trace_rules simp: saves_at_rest_def split: sum.splits)

lemma prepare_cases:
  obtains (Finished) new where "prepare_run env iid retries h = (FlowOk Finished, new @ h)" "new = [LoadInstance (instance_path iid)]"
      "found_terminated env iid"
  | (Loop) new r where "prepare_run env iid retries h = (r, new @ h)" "prepared_ok retries new r"
proof -
  let ?path = "instance_path iid"
  show thesis
  proof (cases "on_load_instance env h ?path")
    case (Inl e)
    then have "prepare_run env iid retries h = (FlowErr e, [LoadInstance ?path] @ h)"
      by (simp add: prepare_run_def fl_call_def fl_lift_def fl_throw_def)
    then show thesis by (rule Loop) (simp add: prepared_ok_def saves_at_rest_def)
  next
    case (Inr i)
    show thesis
    proof (cases "is_terminated i")
      case True
      with Inr have "prepare_run env iid retries h = (FlowOk Finished, [LoadInstance ?path] @ h)"
        by (simp add: prepare_run_def fl_call_def fl_lift_def fl_return_def)
      then show thesis by (rule Finished) (use True Inr in \<open>auto simp: found_terminated_def\<close>)
    next
      case False
      let ?m = "fl_bind (mark_running env i) (\<lambda>inst.
        fl_bind (fl_lift (parse_definition env (ins_flow_definition_snapshot inst))) (\<lambda>def.
        fl_bind (refuse_invalid env inst def) (\<lambda>_. begin_loop env iid retries (ins_version i) inst def)))"
      have "traced (prepared_ok retries) ?m"
        apply (rule traced_bind [OF mark_running_traced])
          apply (rule traced_bind_lift)
           apply (simp add: prepared_ok_def saves_at_rest_def)
          apply (rule traced_bind [OF refuse_invalid_traced])
            apply (rule traced_weaken [OF begin_loop_traced], simp add: prepared_ok_append)
           apply (auto simp: prepared_ok_def saves_at_rest_def)
        done
      then obtain r new where m: "?m (LoadInstance ?path # h) = (r, new @ LoadInstance ?path # h)" "prepared_ok retries new r"
        unfolding traced_def by blast
      have "prepare_run env iid retries h = (r, (new @ [LoadInstance ?path]) @ h)"
        using False Inr m(1) by (simp add: prepare_run_def fl_call_def fl_lift_def)
      then show thesis by (rule Loop) (use m(2) in \<open>simp add: prepared_ok_append\<close>)
    qed
  qed
qed

definition execution_ok :: "flow_env \<Rightarrow> string \<Rightarrow> nat \<Rightarrow> history \<Rightarrow> unit flow_outcome \<Rightarrow> bool" where
  "execution_ok env iid budget new r \<longleftrightarrow> handler_runs new \<le> budget \<and> saves_at_rest new \<and>
     (r = FlowOk () \<longrightarrow> found_terminated env iid \<or>
        instances_saved new \<noteq> [] \<and> ins_status (hd (instances_saved new)) \<in> {Waiting, Completed})"

lemma run_ok_rest: "run_ok rp start budget new r \<Longrightarrow> saves_at_rest new \<and> handler_runs new \<le> budget"
  by (auto simp: run_ok_def saves_at_rest_def charged_save_def)

lemma execute_with_retry_ok:
  assumes "unat retries + k = 3"
  shows "\<exists>r new. execute_flow_with_retry env iid retries h = Some (r, new @ h) \<and> execution_ok env iid (Suc k * 10000) new r"
  using assms
proof (induction k arbitrary: retries h rule: less_induct)
  case (less k retries h)
  show ?case
  proof (cases rule: prepare_cases [of env iid retries h])
    case (Finished new)
    then have "execute_flow_with_retry env iid retries h = Some (FlowOk (), new @ h)"
      by (subst execute_flow_with_retry.simps) simp
    moreover have "execution_ok env iid (Suc k * 10000) new (FlowOk ())"
      using Finished by (simp add: execution_ok_def saves_at_rest_def)
    ultimately show ?thesis by blast
  next
    case (Loop new r)
    show ?thesis
    proof (cases "\<exists>rp ls. r = FlowOk (Ready rp ls)")
      case False
      define r' :: "unit flow_outcome" where "r' = (case r of FlowErr e \<Rightarrow> FlowErr e | _ \<Rightarrow> FlowPanic)"
      have "r \<noteq> FlowOk Finished" using Loop(2) by (simp add: prepared_ok_def)
      then have "execute_flow_with_retry env iid retries h = Some (r', new @ h)" using False Loop(1)
        by (subst execute_flow_with_retry.simps) (auto simp: r'_def split: flow_outcome.splits prepared.splits)
      moreover have "execution_ok env iid (Suc k * 10000) new r'"
        using Loop(2) by (auto simp: execution_ok_def prepared_ok_def r'_def split: flow_outcome.splits)
      ultimately show ?thesis by blast
    next
      case True
      then obtain rp ls where r: "r = FlowOk (Ready rp ls)" by blast
      have ls: "instances_saved new = []" "handler_runs new = 0" "ls_steps ls = 0" "rp_retries rp = retries"
        using Loop(2) r by (simp_all add: prepared_ok_def)
      obtain r1 new1 where run: "run_loop env rp ls (new @ h) = Some (r1, new1 @ new @ h)"
        and ok: "run_ok rp (unat (attempts_of (ls_instance ls))) 10000 new1 r1"
        using run_loop_ok [of ls 10000 env rp "new @ h"] ls(3) by auto
      note unfold_run = execute_flow_with_retry.simps [of env iid retries h, unfolded Loop(1) r prod.case flow_outcome.case prepared.case run]
      show ?thesis
      proof (cases "\<exists>n. r1 = FlowOk (Some n)")
        case True
        then obtain n where r1: "r1 = FlowOk (Some n)" by blast
        have n: "retries < MAX_VERSION_CONFLICT_RETRIES" "n = retries + 1" using ok r1 ls(4) by (simp_all add: run_ok_def)
        then obtain k' where k': "k = Suc k'" "unat n + k' = 3"
          using less.prems by (cases k) (auto simp: MAX_VERSION_CONFLICT_RETRIES_def word_less_nat_alt unat_word_ariths)
        from less.IH [of k' n "new1 @ new @ h"] k' obtain r2 new2 where
          rest: "execute_flow_with_retry env iid n (new1 @ new @ h) = Some (r2, new2 @ new1 @ new @ h)"
            "execution_ok env iid (Suc k' * 10000) new2 r2" by auto
        have "execute_flow_with_retry env iid retries h = Some (r2, (new2 @ new1 @ new) @ h)"
          unfolding unfold_run using rest(1) r1 by simp
        moreover have "execution_ok env iid (Suc k * 10000) (new2 @ new1 @ new) r2"
          using rest(2) run_ok_rest [OF ok] ls k'(1) by (auto simp: execution_ok_def saves_at_rest_def)
        ultimately show ?thesis by blast
      next
        case False
        define r' where "r' = (case r1 of FlowOk _ \<Rightarrow> FlowOk () | FlowErr e \<Rightarrow> FlowErr e | FlowPanic \<Rightarrow> FlowPanic)"
        have "execute_flow_with_retry env iid retries h = Some (r', (new1 @ new) @ h)"
          unfolding unfold_run using False by (auto simp: r'_def split: flow_outcome.splits option.splits)
        moreover have "execution_ok env iid (Suc k * 10000) (new1 @ new) r'"
          using ok run_ok_rest [OF ok] ls False
          by (auto simp: execution_ok_def run_ok_def r'_def saves_at_rest_def split: flow_outcome.splits option.splits)
        ultimately show ?thesis by blast
      qed
    qed
  qed
qed

lemma execute_flow_ok: "\<exists>r new. execute_flow env iid h = Some (r, new @ h) \<and> execution_ok env iid 40000 new r"
  using execute_with_retry_ok [of 0 3 env iid h] by (simp add: execute_flow_def)

text \<open>
  C11. An execution returns, whatever the handlers and the callbacks answer: a cycle of steps and a step that asks to be repeated are
  stopped, and lost races end. At most ten thousand handlers run for each of its four attempts.
\<close>

theorem flow_execution_returns:
  "\<exists>r new. execute_flow env instance_id h = Some (r, new @ h) \<and> handler_runs new \<le> 4 * 10000"
  using execute_flow_ok [of env instance_id h] by (auto simp: execution_ok_def)


text \<open>
  The counter of attempts that is saved with an instance covers every handler that its run has called, and it does not exceed the
  limit of the policy once it is below it.
\<close>

theorem handler_calls_charged:
  assumes "run_loop env rp ls h = Some (r, new @ h)" and "ls_steps ls = 0" and "j \<in> set (instances_saved new)"
  shows "unat (attempts_of (ls_instance ls)) + handler_runs new \<le> unat (attempts_of j) \<and>
    unat (attempts_of j) \<le> max (unat (attempts_of (ls_instance ls))) (unat (max_step_attempts (rp_limits rp)))"
proof -
  obtain r' new' where "run_loop env rp ls h = Some (r', new' @ h)" "run_ok rp (unat (attempts_of (ls_instance ls))) 10000 new' r'"
    using run_loop_ok [of ls 10000 env rp h] assms(2) by auto
  with assms(1,3) show ?thesis by (auto simp: run_ok_def charged_save_def)
qed

section \<open>A failure is recorded\<close>

text \<open>The job that tells a waiting parent.\<close>

definition parent_notice :: "flow_instance \<Rightarrow> flow_error \<Rightarrow> history" where
  "parent_notice failed err =
     (case ins_parent_instance_ref failed of
        None \<Rightarrow> []
      | Some parent \<Rightarrow> [QueueJob ''FlowInstanceExecution'' (resume_payload failed parent ''failed'' None (Some (flow_error_to_string err)))])"

lemma fail_run:
  assumes "\<And>h i. on_save_instance env h i = Inr ()"
  shows "\<exists>failed new. fail_flow_terminally env iid i sid err start h = (FlowErr err, parent_notice failed err @ SaveInstance failed # new @ h) \<and>
    failed_with i err failed \<and> functions_run new = map comp_call (filter is_pending (rev (ins_compensation_stack i)))"
proof -
  let ?f = "i\<lparr>ins_status := Failed, ins_error := Some (flow_error_to_string err), ins_completed_at := Some (on_read_clock env h)\<rparr>"
  obtain failed new where roll: "rollback_flow env ?f (ReadClock # h) = (FlowOk failed, new @ ReadClock # h)" and f: "failed_with i err failed"
    and fns: "functions_run new = map comp_call (filter is_pending (rev (ins_compensation_stack i)))"
    using rollback_failed_traced [of i err env "on_read_clock env h"] unfolding traced_def by metis
  let ?ev = "EmitEvent iid (FlowFailed (flow_error_to_string err) (Some sid) (on_read_timer env (new @ ReadClock # h) - start)
      (on_read_clock env (ReadTimer # new @ ReadClock # h)))"
  let ?new = "?ev # ReadClock # ReadTimer # new @ [ReadClock]"
  have run: "fail_flow_terminally env iid i sid err start h =
      fl_bind (notify_parent_flow env failed ''failed'' None (Some (flow_error_to_string err))) (\<lambda>_. fl_throw err) (SaveInstance failed # ?new @ h)"
    by (simp add: fail_flow_terminally_def fl_bind_def [of "rollback_flow env ?f"] roll fl_call_def assms fl_lift_def)
  have "fail_flow_terminally env iid i sid err start h = (FlowErr err, parent_notice failed err @ SaveInstance failed # ?new @ h)"
    unfolding run by (simp add: notify_parent_flow_def fl_throw_def parent_notice_def split: option.splits)
  then show ?thesis using f fns by (intro exI [of _ failed] exI [of _ ?new]) simp
qed

text \<open>
  When a step fails, its retries are used up and neither an error edge nor the setting to continue is given, the failure is recorded: the
  pending compensations run in reverse order, then the instance is saved as failed, or as rolled back if it had compensations, with the
  text of the error, and the parent of the flow is told last. The error is returned.
\<close>

theorem exhausted_failure_recorded:
  assumes "\<And>h j. on_save_instance env h j = Inr ()"
    and "get_max_retries step \<le> ins_retry_count i" and "get_string_property step ''error_edge'' = None" and "\<not> continues_after_error step"
  shows "\<exists>failed new. handle_error_result env iid i step def err version duration start h =
      (FlowErr err, parent_notice failed err @ SaveInstance failed # new @ h) \<and>
    ins_status failed = (if ins_compensation_stack i = [] then Failed else RolledBack) \<and>
    ins_error failed = Some (flow_error_to_string err) \<and> ins_parent_instance_ref failed = ins_parent_instance_ref i \<and>
    functions_run new = map comp_call (filter is_pending (rev (ins_compensation_stack i)))"
proof -
  let ?ev = "[EmitEvent iid (StepFailed (fn_id step) (flow_error_to_string err) duration (on_read_clock env h)), ReadClock]"
  from fail_run [of env iid i "fn_id step" err start "?ev @ h", OF assms(1)] obtain failed new where
    run: "fail_flow_terminally env iid i (fn_id step) err start (?ev @ h) = (FlowErr err :: flow_instance option flow_outcome, parent_notice failed err @ SaveInstance failed # new @ ?ev @ h)"
    and f: "failed_with i err failed" "functions_run new = map comp_call (filter is_pending (rev (ins_compensation_stack i)))"
    by blast
  have edge: "Option.bind (hm_get (fn_properties step) ''error_edge'') json_as_str = None"
    using assms(3) by (simp add: get_string_property_def get_property_def)
  have "\<not> ins_retry_count i < get_max_retries step" using assms(2) by simp
  then have "handle_error_result env iid i step def err version duration start h =
      (FlowErr err, parent_notice failed err @ SaveInstance failed # (new @ ?ev) @ h)"
    using run assms(4) by (simp add: handle_error_result_def edge)
  moreover have "functions_run (new @ ?ev) = map comp_call (filter is_pending (rev (ins_compensation_stack i)))" using f(2) by simp
  ultimately show ?thesis using f(1) unfolding failed_with_def by blast
qed

text \<open>
  A node that does not exist ends the execution with an error and without a save: the instance stays as it was loaded. A definition that
  validates can lead there, since the successor of a failed step that continues defaults to \<open>end\<close>.
\<close>

lemma missing_step_unrecorded:
  "find_node (rp_definition rp) (ins_current_node_id (ls_instance ls)) = None \<Longrightarrow>
   run_loop env rp ls h = Some (FlowErr (StepNotFound (ins_current_node_id (ls_instance ls))), h)"
  by (subst run_loop.simps) (simp add: loop_body_def fl_throw_def)

definition lone_flow :: flow_definition where
  "lone_flow = build_index \<lparr>fd_nodes = [FlowNode ''work'' Parallel [(''continue_on_fail'', JBool True)] [] None],
     fd_edges = [], fd_metadata = \<lparr>fm_name = None, fm_description = None, fm_version = None, fm_custom = []\<rparr>, fd_node_index = None\<rparr>"

lemma continue_on_fail_leaves_flow:
  assumes "ins_retry_count i = 0"
  shows "validate lone_flow = Inr () \<and> (\<exists>step. find_node lone_flow ''work'' = Some step \<and>
    (\<exists>j h'. handle_error_result env iid i step lone_flow err version duration start h = (FlowOk (Some j), h') \<and>
       ins_current_node_id j = ''end'' \<and> find_node lone_flow (ins_current_node_id j) = None))"
proof -
  let ?step = "FlowNode ''work'' Parallel [(''continue_on_fail'', JBool True)] [] None"
  have "validate lone_flow = Inr ()"
    by (simp add: lone_flow_def build_index_def validate_def limits_parse_def problems_of_def
      target_problems_def node_targets_def edge_keys_def get_string_property_def get_property_def loop_problems_def)
  moreover have find: "find_node lone_flow ''work'' = Some ?step" "find_node lone_flow ''end'' = None"
    by (simp_all add: lone_flow_def build_index_def find_node_def top_index_def usize_MAX_def)
  moreover have "next_node_id lone_flow ''work'' = None" by (simp add: lone_flow_def build_index_def next_node_id_def outgoing_edges_def)
  moreover have "continues_after_error ?step" "get_max_retries ?step = 0" "Option.bind (hm_get (fn_properties ?step) ''error_edge'') json_as_str = None"
    by (simp_all add: continues_after_error_def get_max_retries_def get_u32_property_def get_u64_property_def get_property_def
        retry_strategy_config_def default_max_retries_def re_entry_duplicates_work_def)
  ultimately show ?thesis
    using assms by (auto simp: handle_error_result_def set_error_var_def fl_return_def split: json.splits)
qed

section \<open>A flow of one step\<close>

definition one_step :: flow_definition where
  "one_step = build_index \<lparr>fd_nodes = [FlowNode ''work'' FunctionStep [(''max_retries'', json_u64 0)] [] None],
     fd_edges = [], fd_metadata = \<lparr>fm_name = None, fm_description = None, fm_version = None, fm_custom = []\<rparr>, fd_node_index = None\<rparr>"

definition fresh :: flow_instance where
  "fresh = instance_new ''i'' 0 ''/f'' 1 JNull JNull ''work''"

text \<open>An environment in which every call succeeds and a handler completes the flow.\<close>

definition calm_env :: flow_env where
  "calm_env = \<lparr>on_load_instance = \<lambda>_ _. Inr fresh, on_save_instance = \<lambda>_ _. Inr (), on_save_instance_with_version = \<lambda>_ _ _. Inr (),
     on_emit_event = \<lambda>_ _ _. Inr (), on_queue_job = \<lambda>_ _ _. Inr [], on_queue_job_at = \<lambda>_ _ _ _. Inr [],
     on_execute_function = \<lambda>_ _ _. Inr JNull, on_patch_node = \<lambda>_ _ _ _. Inr JNull, on_current_branch = \<lambda>_. Inr ''main'',
     on_create_branch = \<lambda>_ _ _. Inr JNull, on_switch_branch = \<lambda>_ _. Inr (), on_delete_branch = \<lambda>_ _. Inr (),
     on_has_merge_conflicts = \<lambda>_ _ _. Inr False, on_merge_branch = \<lambda>_ _ _. Inr JNull,
     on_run_handler = \<lambda>_ _ c. (Inr (Complete JNull), c), on_read_clock = \<lambda>_. 0, on_read_timer = \<lambda>_. 0, on_new_uuid = \<lambda>_. [],
     on_validate_permission = \<lambda>_ _ _ _ _. Inr True, on_audit_log = \<lambda>_ _ _. Inr (),
     add_millis = \<lambda>t ms. Some (t + ms * 1000000), to_rfc3339 = \<lambda>_. [], display_datetime = \<lambda>_. [], str_to_lowercase = id,
     str_trim = id, custom_type_name = id, parse_trigger_info = Some, parse_definition = \<lambda>_. Inr one_step\<rparr>"

definition calm_limits :: flow_execution_limits where
  "calm_limits = \<lparr>max_step_attempts = DEFAULT_MAX_STEP_ATTEMPTS, max_elapsed_ms = DEFAULT_MAX_ELAPSED_MS\<rparr>"

definition calm_params :: run_params where
  "calm_params = \<lparr>rp_instance_id = ''i'', rp_definition = one_step, rp_limits = calm_limits, rp_checkpoint_limit = 0,
     rp_expected_version = 1, rp_flow_start = 0, rp_retries = 0\<rparr>"

definition calm_state :: loop_state where
  "calm_state = \<lparr>ls_instance = fresh\<lparr>ins_status := Running\<rparr>, ls_same_step_count = 0, ls_steps = 0\<rparr>"

lemma one_step_valid: "validate one_step = Inr ()" "fm_custom (fd_metadata one_step) = []"
  by (simp_all add: one_step_def build_index_def validate_def limits_parse_def problems_of_def
      target_problems_def node_targets_def edge_keys_def get_string_property_def get_property_def loop_problems_def)

lemma calm_prepare:
  "prepare_run calm_env ''i'' 0 h = (FlowOk (Ready calm_params calm_state), ReadTimer # ReadClock # LoadInstance (instance_path ''i'') # h)"
  by (simp add: prepare_run_def fl_call_def fl_lift_def calm_env_def fresh_def instance_new_def is_terminated_def mark_running_def
      refuse_invalid_def one_step_valid begin_loop_def limits_parse_def calm_params_def calm_state_def calm_limits_def read_timer_def
      fl_return_def checkpoint_limit_def metrics_default_def)

lemma calm_charge:
  "charge_attempt calm_limits 0 (ls_instance calm_state) =
     Inr (fresh\<lparr>ins_status := Running, ins_metrics := metrics_default\<lparr>fx_execution_attempts := 1\<rparr>\<rparr>)"
  by (simp add: charge_attempt_def calm_limits_def calm_state_def fresh_def instance_new_def elapsed_ms_since_def metrics_default_def
      DEFAULT_MAX_STEP_ATTEMPTS_def DEFAULT_MAX_ELAPSED_MS_def)

lemma calm_find: "find_node one_step ''work'' = Some (FlowNode ''work'' FunctionStep [(''max_retries'', json_u64 0)] [] None)"
  by (simp add: one_step_def build_index_def find_node_def top_index_def usize_MAX_def)

lemma calm_body:
  "\<exists>new j. loop_body calm_env calm_params calm_state h = (FlowOk Return, new @ h) \<and> instances_saved new = [j] \<and>
     handler_runs new = 1 \<and> unat (attempts_of j) = 1"
proof -
  have cur: "ins_current_node_id (ls_instance calm_state) = ''work''" by (simp add: calm_state_def fresh_def instance_new_def)
  have clock: "on_read_clock calm_env h = 0" "on_read_timer calm_env h = 0" for h by (simp_all add: calm_env_def)
  have rp: "rp_definition calm_params = one_step" "rp_limits calm_params = calm_limits" "ls_steps calm_state = 0" "rp_checkpoint_limit calm_params = 0"
    by (simp_all add: calm_params_def calm_state_def)
  have handler: "on_run_handler calm_env h s c = (Inr (Complete JNull), c)" for h s c by (simp add: calm_env_def)
  have saved: "on_save_instance_with_version calm_env h s c = Inr ()" for h s c by (simp add: calm_env_def)
  show ?thesis
    unfolding loop_body_def rp cur calm_find option.case
    apply (simp add: clock calm_charge MAX_STEPS_PER_EXECUTION_def enter_step_def take_resume_reentry_def bump_visit_count_def
        rp read_timer_def fresh_def instance_new_def execute_step_def get_bool_property_def get_property_def execute_step_inner_def
        is_disabled_def apply_test_mock_def dispatch_def handler_types_def)
    apply (simp add: handler saved after_step_def handle_complete_result_def Let_def fl_call_def fl_lift_def notify_parent_flow_def
        sync_context_to_instance_def build_context_from_instance_def count_step_def fl_return_def)
    done
qed

lemma calm_run: "\<exists>new j. run_loop calm_env calm_params calm_state h = Some (FlowOk None, new @ h) \<and> instances_saved new = [j] \<and>
    handler_runs new = 1 \<and> unat (attempts_of j) = 1"
  using calm_body [of h] by (subst run_loop.simps) auto

text \<open>The one step runs its handler, completes the flow and has been charged for it.\<close>

theorem handler_calls_charged_witness:
  "\<exists>r new j. run_loop calm_env calm_params calm_state [] = Some (r, new @ []) \<and> j \<in> set (instances_saved new) \<and> handler_runs new = 1 \<and>
     1 \<le> unat (attempts_of j) \<and> unat (attempts_of j) \<le> 10000"
proof -
  obtain new j where run: "run_loop calm_env calm_params calm_state [] = Some (FlowOk None, new @ [])" "instances_saved new = [j]" "handler_runs new = 1"
    using calm_run [of "[]"] by blast
  have "j \<in> set (instances_saved new)" using run(2) by simp
  from handler_calls_charged [OF run(1) _ this] run show ?thesis
    by (auto simp: calm_state_def calm_params_def calm_limits_def DEFAULT_MAX_STEP_ATTEMPTS_def fresh_def instance_new_def metrics_default_def)
qed


theorem exhausted_failure_recorded_witness:
  "\<exists>failed new. handle_error_result calm_env ''i'' (fresh\<lparr>ins_parent_instance_ref := Some ''p''\<rparr>)
      (FlowNode ''work'' FunctionStep [(''max_retries'', json_u64 0)] [] None) one_step (Other ''x'') 1 0 0 [] =
      (FlowErr (Other ''x''), parent_notice failed (Other ''x'') @ SaveInstance failed # new @ []) \<and>
    ins_status failed = Failed \<and> ins_error failed = Some ''Flow error: x'' \<and> parent_notice failed (Other ''x'') \<noteq> []"
proof -
  let ?i = "fresh\<lparr>ins_parent_instance_ref := Some ''p''\<rparr>" and ?step = "FlowNode ''work'' FunctionStep [(''max_retries'', json_u64 0)] [] None"
  have "on_save_instance calm_env h j = Inr ()" for h j by (simp add: calm_env_def)
  moreover have "get_max_retries ?step \<le> ins_retry_count ?i" "get_string_property ?step ''error_edge'' = None" "\<not> continues_after_error ?step"
    by (simp_all add: get_max_retries_def get_u32_property_def get_u64_property_def get_property_def get_string_property_def continues_after_error_def)
  ultimately obtain failed new where f: "handle_error_result calm_env ''i'' ?i ?step one_step (Other ''x'') 1 0 0 [] =
      (FlowErr (Other ''x''), parent_notice failed (Other ''x'') @ SaveInstance failed # new @ [])"
      "ins_status failed = (if ins_compensation_stack ?i = [] then Failed else RolledBack)"
      "ins_error failed = Some (flow_error_to_string (Other ''x''))" "ins_parent_instance_ref failed = ins_parent_instance_ref ?i"
    using exhausted_failure_recorded [of calm_env ?step ?i "''i''" one_step "Other ''x''" 1 0 0 "[]"] by blast
  then show ?thesis by (intro exI [of _ failed] exI [of _ new]) (simp add: fresh_def instance_new_def parent_notice_def)
qed

end
