(* ===== verification/Flow_Resume.thy ===== *)
theory Flow_Resume
  imports Flow_Runs
begin

text \<open>
  Resuming a waiting flow and enforcing its deadlines (\<open>runtime/resume/mod.rs\<close>). A resume takes the instance out of its wait, stores
  what was waited for and executes the flow; data for a flow that is not waiting yet is refused for redelivery, and a flow
  that has ended is left alone. A timeout check acts only when its time has come.
\<close>

section \<open>Operations\<close>

definition set_instance_variable :: "string \<Rightarrow> json \<Rightarrow> flow_instance \<Rightarrow> flow_instance" where
  "set_instance_variable key v inst =
     (case ins_variables inst of
        JObject vars \<Rightarrow> inst\<lparr>ins_variables := JObject (hm_insert key v vars)\<rparr>
      | _ \<Rightarrow> inst\<lparr>ins_variables := JObject [(key, v)]\<rparr>)"

definition chat_message :: "json \<Rightarrow> json" where
  "chat_message resume_data =
     (case or_else (jget ''message'' resume_data) (jget ''content'' resume_data) of Some m \<Rightarrow> m | None \<Rightarrow> resume_data)"

fun store_resume_data :: "wait_type \<Rightarrow> json \<Rightarrow> flow_instance \<Rightarrow> flow_instance" where
  "store_resume_data ToolCall d inst = set_instance_variable ''__last_tool_result'' d inst"
| "store_resume_data HumanTaskWait d inst =
     set_instance_variable ''__human_response_pending'' (JBool True) (set_instance_variable ''__human_response'' d inst)"
| "store_resume_data Retry d inst = inst"
| "store_resume_data Scheduled d inst = set_instance_variable ''__wait_elapsed_pending'' (JBool True) inst"
| "store_resume_data FunctionCall d inst = set_instance_variable ''__function_result'' d inst"
| "store_resume_data ChatSession d inst = set_instance_variable ''__chat_user_message'' (chat_message d) inst"
| "store_resume_data AgentRun d inst = set_instance_variable ''__agent_run_result'' d inst"
| "store_resume_data Event d inst = set_instance_variable ''__resume_data'' d inst"
| "store_resume_data JoinWait d inst = set_instance_variable ''__resume_data'' d inst"

definition process_resume_data :: "flow_instance \<Rightarrow> json \<Rightarrow> flow_instance" where
  "process_resume_data inst resume_data =
     (case ins_wait_info inst of
        Some w \<Rightarrow>
          (if wi_wait_type w = Retry then store_resume_data (wi_wait_type w) resume_data inst
           else set_instance_variable ''__resume_reentry'' (JBool True) (store_resume_data (wi_wait_type w) resume_data inst))
      | None \<Rightarrow>
          set_instance_variable ''__resume_reentry'' (JBool True) (set_instance_variable ''__resume_data'' resume_data inst))"

definition has_resume_data :: "json \<Rightarrow> bool" where
  "has_resume_data resume_data \<longleftrightarrow>
     resume_data \<noteq> JNull \<and> (case as_object resume_data of Some m \<Rightarrow> m \<noteq> [] | None \<Rightarrow> True)"

definition expected_event :: "string \<Rightarrow> string" where
  "expected_event run_id = ''agent_run:'' @ run_id"

text \<open>A result of an agent run that is not the one the flow waits for.\<close>

definition foreign_agent_run :: "flow_instance \<Rightarrow> json \<Rightarrow> bool" where
  "foreign_agent_run inst resume_data =
     (case Option.bind (jget ''agent_run_id'' resume_data) json_as_str of
        None \<Rightarrow> False
      | Some run_id \<Rightarrow>
          \<not> (case ins_wait_info inst of
               None \<Rightarrow> False
             | Some w \<Rightarrow> wi_wait_type w = AgentRun \<and> wi_expected_event w = Some (expected_event run_id)))"

definition timeout_message :: "flow_env \<Rightarrow> string \<Rightarrow> datetime \<Rightarrow> string" where
  "timeout_message env node_id timeout_at =
     ''Wait timed out at step '' @ quoted node_id @ '' (deadline was '' @ display_datetime env timeout_at @ '')''"

definition save_or_other :: "flow_env \<Rightarrow> flow_instance \<Rightarrow> string \<Rightarrow> unit flow" where
  "save_or_other env inst msg =
     fl_bind (fl_try (SaveInstance inst) (\<lambda>h. on_save_instance env h inst)) (\<lambda>r.
       case r of Inr _ \<Rightarrow> fl_return () | Inl e \<Rightarrow> fl_throw (Other (msg @ flow_error_to_string e)))"

definition fail_timed_out :: "flow_env \<Rightarrow> string \<Rightarrow> flow_instance \<Rightarrow> datetime \<Rightarrow> unit flow" where
  "fail_timed_out env instance_id inst timeout_at =
     (let node_id = ins_current_node_id inst; msg = timeout_message env node_id timeout_at in
      fl_bind (utc_now env) (\<lambda>now.
      let failed = inst\<lparr>ins_wait_info := None, ins_status := Failed, ins_error := Some msg, ins_completed_at := Some now\<rparr> in
      fl_bind (emit env instance_id (FlowFailed (''Wait timed out at step '' @ quoted node_id) (Some node_id) 0)) (\<lambda>_.
      fl_bind (save_or_other env failed ''Failed to save timed-out instance: '') (\<lambda>_.
      fl_bind (notify_parent_flow env failed ''failed'' None (Some msg)) (\<lambda>_.
      fl_throw (TimeoutExceeded 0))))))"

definition expire_task :: "flow_env \<Rightarrow> flow_instance \<Rightarrow> unit flow" where
  "expire_task env inst =
     (case ins_wait_info inst of
        Some w \<Rightarrow>
          (case wi_target_path w of
             Some path \<Rightarrow>
               if wi_wait_type w = HumanTaskWait then
                 fl_bind (fl_try (PatchNode ''raisin:access_control'' path (JObject [(''status'', JString ''expired'')]))
                   (\<lambda>h. on_patch_node env h ''raisin:access_control'' path (JObject [(''status'', JString ''expired'')]))) (\<lambda>_. fl_return ())
               else fl_return ()
           | None \<Rightarrow> fl_return ())
      | None \<Rightarrow> fl_return ())"

definition timeout_edge_of :: "flow_env \<Rightarrow> flow_instance \<Rightarrow> string option" where
  "timeout_edge_of env inst =
     (case parse_definition env (ins_flow_definition_snapshot inst) of
        Inl _ \<Rightarrow> None
      | Inr def \<Rightarrow> Option.bind (find_node def (ins_current_node_id inst)) (\<lambda>node. get_string_property node ''timeout_edge''))"

definition follow_timeout_edge :: "flow_env \<Rightarrow> flow_instance \<Rightarrow> datetime \<Rightarrow> string \<Rightarrow> unit flow" where
  "follow_timeout_edge env inst timeout_at timeout_target =
     fl_bind (utc_now env) (\<lambda>now.
       let step_id = ins_current_node_id inst;
           moved = (set_instance_variable ''error'' (JObject [(''error_type'', JString ''timeout''),
               (''message'', JString (timeout_message env step_id timeout_at)), (''step_id'', JString step_id),
               (''timestamp'', JString (to_rfc3339 env now))]) inst)
             \<lparr>ins_current_node_id := timeout_target, ins_wait_info := None, ins_status := Running, ins_retry_count := 0\<rparr>
       in save_or_other env moved ''Failed to save instance before timeout edge: '')"

type_synonym execution = "history \<Rightarrow> (unit flow_outcome \<times> history) option"

text \<open>A computation followed by an execution of the flow; an error of the first ends both.\<close>

definition then_execute :: "flow_env \<Rightarrow> string \<Rightarrow> unit flow \<Rightarrow> execution" where
  "then_execute env instance_id m h =
     (case m h of (FlowOk _, h') \<Rightarrow> execute_flow env instance_id h' | r \<Rightarrow> Some r)"

definition handle_timeout_expiry :: "flow_env \<Rightarrow> string \<Rightarrow> flow_instance \<Rightarrow> datetime \<Rightarrow> execution" where
  "handle_timeout_expiry env instance_id inst timeout_at h =
     (case timeout_edge_of env inst of
        Some timeout_target \<Rightarrow>
          then_execute env instance_id (fl_bind (expire_task env inst) (\<lambda>_. follow_timeout_edge env inst timeout_at timeout_target)) h
      | None \<Rightarrow> Some (fl_bind (expire_task env inst) (\<lambda>_. fail_timed_out env instance_id inst timeout_at) h))"

definition save_resumed :: "flow_env \<Rightarrow> flow_instance \<Rightarrow> u32 \<Rightarrow> unit flow" where
  "save_resumed env inst expected_version =
     fl_bind (fl_try (SaveInstanceWithVersion inst expected_version) (\<lambda>h. on_save_instance_with_version env h inst expected_version)) (\<lambda>r.
       case r of
         Inr _ \<Rightarrow> fl_return ()
       | Inl e \<Rightarrow> fl_throw (Other (''Failed to save instance before resuming: '' @ flow_error_to_string e)))"

text \<open>The deadline of a wait, when it is one: the time of a scheduled wait or of a retry is the time to wake up.\<close>

definition wait_deadline :: "flow_instance \<Rightarrow> datetime option" where
  "wait_deadline inst =
     (case ins_wait_info inst of
        Some w \<Rightarrow> if wi_wait_type w \<in> {Scheduled, Retry} then None else wi_timeout_at w
      | None \<Rightarrow> None)"

definition resumed :: "flow_instance \<Rightarrow> json \<Rightarrow> flow_instance" where
  "resumed inst resume_data = (process_resume_data inst resume_data)\<lparr>ins_wait_info := None, ins_status := Running\<rparr>"

definition resume_waiting :: "flow_env \<Rightarrow> string \<Rightarrow> flow_instance \<Rightarrow> json \<Rightarrow> execution" where
  "resume_waiting env instance_id inst resume_data h =
     (if foreign_agent_run inst resume_data then Some (FlowOk (), h)
      else
        (case wait_deadline inst of
           Some timeout_at \<Rightarrow>
             if on_read_clock env h > timeout_at then handle_timeout_expiry env instance_id inst timeout_at (ReadClock # h)
             else then_execute env instance_id (save_resumed env (resumed inst resume_data) (ins_version inst)) (ReadClock # h)
         | None \<Rightarrow> then_execute env instance_id (save_resumed env (resumed inst resume_data) (ins_version inst)) h))"

definition resume_flow :: "flow_env \<Rightarrow> string \<Rightarrow> json \<Rightarrow> execution" where
  "resume_flow env instance_id resume_data h =
     (let path = instance_path instance_id; h1 = LoadInstance path # h in
      case on_load_instance env h path of
        Inl e \<Rightarrow>
          Some (FlowErr (NodeNotFound (''Flow instance '' @ quoted instance_id @ '' not found: '' @ flow_error_to_string e)), h1)
      | Inr inst \<Rightarrow>
          (case ins_status inst of
             Waiting \<Rightarrow> resume_waiting env instance_id inst resume_data h1
           | Running \<Rightarrow> if has_resume_data resume_data then Some (FlowErr VersionConflict, h1) else Some (FlowOk (), h1)
           | Pending \<Rightarrow>
               if has_resume_data resume_data then Some (FlowErr VersionConflict, h1)
               else Some (FlowErr (InvalidStateTransition ''pending'' ''running''), h1)
           | _ \<Rightarrow> Some (FlowOk (), h1)))"

definition check_flow_timeout :: "flow_env \<Rightarrow> string \<Rightarrow> execution" where
  "check_flow_timeout env instance_id h =
     (let path = instance_path instance_id; h1 = LoadInstance path # h in
      case on_load_instance env h path of
        Inl _ \<Rightarrow> Some (FlowOk (), h1)
      | Inr inst \<Rightarrow>
          if ins_status inst \<noteq> Waiting then Some (FlowOk (), h1)
          else
            (case ins_wait_info inst of
               None \<Rightarrow> Some (FlowOk (), h1)
             | Some w \<Rightarrow>
                 let now = on_read_clock env h1; h2 = ReadClock # h1 in
                 if wi_wait_type w \<in> {Scheduled, Retry} then
                   (if (case wi_timeout_at w of Some t \<Rightarrow> now \<ge> t | None \<Rightarrow> True) then resume_flow env instance_id JNull h2
                    else Some (FlowOk (), h2))
                 else
                   (case wi_timeout_at w of
                      Some t \<Rightarrow> if now > t then handle_timeout_expiry env instance_id inst t h2 else Some (FlowOk (), h2)
                    | None \<Rightarrow> Some (FlowOk (), h2))))"

section \<open>Resuming\<close>

lemma execute_extends: "\<exists>r new. execute_flow env iid h = Some (r, new @ h)"
  using execute_flow_ok [of env iid h] by blast

lemma resume_flow_cases:
  assumes "on_load_instance env h (instance_path iid) = Inr i" and "\<not> foreign_agent_run i resume_data" and "wait_deadline i = None"
  defines "h1 \<equiv> LoadInstance (instance_path iid) # h"
  defines "taken \<equiv> resumed i resume_data"
  shows "resume_flow env iid resume_data h =
    (if is_terminated i then Some (FlowOk (), h1)
     else if ins_status i = Waiting then
       (case on_save_instance_with_version env h1 taken (ins_version i) of
          Inr _ \<Rightarrow> execute_flow env iid (SaveInstanceWithVersion taken (ins_version i) # h1)
        | Inl e \<Rightarrow> Some (FlowErr (Other (''Failed to save instance before resuming: '' @ flow_error_to_string e)),
                      SaveInstanceWithVersion taken (ins_version i) # h1))
     else if has_resume_data resume_data then Some (FlowErr VersionConflict, h1)
     else if ins_status i = Running then Some (FlowOk (), h1)
     else Some (FlowErr (InvalidStateTransition ''pending'' ''running''), h1))"
  using assms(1-3)
  by (cases "ins_status i") (simp_all add: resume_flow_def resume_waiting_def is_terminated_def h1_def taken_def then_execute_def
      save_resumed_def fl_return_def fl_throw_def Let_def split: sum.splits)

text \<open>The visits of a step that an instance has counted.\<close>

definition visits_of :: "flow_instance \<Rightarrow> string \<Rightarrow> u64" where
  "visits_of i step_id =
     (case Option.bind (Option.bind (jget ''__visits'' (ins_variables i)) (jget step_id)) as_u64 of Some n \<Rightarrow> n | None \<Rightarrow> 0)"

lemma set_variable_get:
  "jget k (ins_variables (set_instance_variable key v i)) = (if k = key then Some v else jget k (ins_variables i))"
  by (simp add: set_instance_variable_def hm_simps split: json.splits)

lemma set_variable_object: "\<exists>vars. ins_variables (set_instance_variable key v i) = JObject vars"
  by (simp add: set_instance_variable_def split: json.splits)

lemma store_keeps_visits: "jget ''__visits'' (ins_variables (store_resume_data w d i)) = jget ''__visits'' (ins_variables i)"
  by (cases w) (simp_all add: set_variable_get)

lemma take_reentry_run:
  assumes "ins_variables i = JObject vars"
  shows "take_resume_reentry i = (hm_get vars ''__resume_reentry'' \<noteq> None, i\<lparr>ins_variables := JObject (hm_remove ''__resume_reentry'' vars)\<rparr>)"
  using assms by (simp add: take_resume_reentry_def)

lemma bump_visits:
  assumes "ins_variables i = JObject vars" and "jget ''__visits'' (ins_variables i) \<in> {None} \<union> (Some ` range JObject)"
  shows "visits_of (snd (bump_visit_count i sid)) sid = visits_of i sid + 1"
  using assms by (auto simp: bump_visit_count_def visits_of_def Let_def hm_simps)

lemma record_checkpoint_variables [simp]: "ins_variables (record_checkpoint n v t i) = ins_variables i"
  by (simp add: record_checkpoint_def Let_def)

text \<open>
  A step that comes back for what it waited for continues its visit: after a resume the step that waited is entered with its count of visits
  unchanged and the data stored, and the marker that says so is used up. A step that is tried again after a failure counts a
  visit.
\<close>

theorem resumed_step_same_visit:
  assumes "ins_variables i = JObject vars" and "hm_get vars ''__resume_reentry'' = None"
    and "hm_get vars ''__visits'' \<in> {None} \<union> (Some ` range JObject)" and "ins_wait_info i = Some w"
  shows "\<exists>j h'. enter_step env rp step (resumed i resume_data) h = (FlowOk j, h') \<and>
    visits_of j (fn_id step) = (if wi_wait_type w = Retry then visits_of i (fn_id step) + 1 else visits_of i (fn_id step)) \<and>
    jget ''__resume_reentry'' (ins_variables j) = None \<and>
    (wi_wait_type w = FunctionCall \<longrightarrow> jget ''__function_result'' (ins_variables j) = Some resume_data)"
proof (cases "wi_wait_type w = Retry")
  case True
  let ?r = "resumed i resume_data"
  have r: "ins_variables ?r = JObject vars" using True assms(1,4) by (simp add: resumed_def process_resume_data_def)
  let ?i1 = "?r\<lparr>ins_variables := JObject (hm_remove ''__resume_reentry'' vars)\<rparr>"
  have v: "visits_of ?i1 sid = visits_of i sid" for sid using assms(1) by (simp add: visits_of_def hm_simps)
  have bump: "visits_of (snd (bump_visit_count ?i1 (fn_id step))) (fn_id step) = visits_of i (fn_id step) + 1"
    using bump_visits [of ?i1 "hm_remove ''__resume_reentry'' vars" "fn_id step"] assms(3) v by (simp add: hm_simps)
  have marker: "jget ''__resume_reentry'' (ins_variables (snd (bump_visit_count ?i1 sid))) = None" for sid
    by (auto simp: bump_visit_count_def Let_def hm_simps split: json.splits)
  obtain n j where b: "bump_visit_count ?i1 (fn_id step) = (n, j)" by force
  have taken: "take_resume_reentry ?r = (False, ?i1)" using take_reentry_run [OF r] assms(2) by simp
  show ?thesis
    unfolding enter_step_def taken prod.case b if_False
    using bump marker [of "fn_id step"] True b by (auto simp: fl_return_def visits_of_def)
next
  case False
  let ?r = "resumed i resume_data"
  let ?s = "store_resume_data (wi_wait_type w) resume_data i"
  have r: "ins_variables ?r = ins_variables (set_instance_variable ''__resume_reentry'' (JBool True) ?s)"
    using False assms(4) by (simp add: resumed_def process_resume_data_def)
  then obtain vs where vs: "ins_variables ?r = JObject vs" using set_variable_object by metis
  let ?j = "?r\<lparr>ins_variables := JObject (hm_remove ''__resume_reentry'' vs)\<rparr>"
  have get: "hm_get vs k = (if k = ''__resume_reentry'' then Some (JBool True) else jget k (ins_variables ?s))" for k
    using set_variable_get [of k "''__resume_reentry''" "JBool True" ?s] vs r by simp
  have "take_resume_reentry ?r = (True, ?j)" using take_reentry_run [OF vs] get by simp
  then have "enter_step env rp step ?r h = (FlowOk ?j, h)" by (simp add: enter_step_def fl_return_def)
  moreover have "visits_of ?j sid = visits_of i sid" for sid
    by (simp add: visits_of_def hm_simps get store_keeps_visits)
  moreover have "jget ''__resume_reentry'' (ins_variables ?j) = None" by (simp add: hm_simps)
  moreover have "jget ''__function_result'' (ins_variables ?j) = Some resume_data" if "wi_wait_type w = FunctionCall"
    using that by (simp add: hm_simps get set_variable_get)
  ultimately show ?thesis using False by auto
qed

theorem resumed_step_same_visit_witness:
  "\<exists>j h'. enter_step calm_env calm_params (FlowNode ''work'' FunctionStep [] [] None)
      (resumed (fresh\<lparr>ins_variables := JObject [(''__visits'', JObject [(''work'', json_u64 2)])],
         ins_wait_info := Some \<lparr>wi_subscription_id = [], wi_wait_type = FunctionCall, wi_target_path = None, wi_expected_event = None,
           wi_timeout_at = None\<rparr>\<rparr>) (JString ''done'')) [] = (FlowOk j, h') \<and>
    visits_of j ''work'' = 2 \<and> jget ''__function_result'' (ins_variables j) = Some (JString ''done'')"
proof -
  let ?w = "\<lparr>wi_subscription_id = [], wi_wait_type = FunctionCall, wi_target_path = None, wi_expected_event = None, wi_timeout_at = None\<rparr>"
  let ?vars = "[(''__visits'', JObject [(''work'', json_u64 2)])]"
  let ?i = "fresh\<lparr>ins_variables := JObject ?vars, ins_wait_info := Some ?w\<rparr>" and ?step = "FlowNode ''work'' FunctionStep [] [] None"
  have "ins_variables ?i = JObject ?vars" "hm_get ?vars ''__resume_reentry'' = None"
    "hm_get ?vars ''__visits'' \<in> {None} \<union> (Some ` range JObject)" "ins_wait_info ?i = Some ?w"
    by simp_all
  from resumed_step_same_visit [OF this, of calm_env calm_params ?step "JString ''done''" "[]"] show ?thesis
    by (auto simp: visits_of_def)
qed

section \<open>Deadlines\<close>

text \<open>A check that comes before its time, or for a flow that is not waiting, changes nothing.\<close>

lemma timeout_check_not_early:
  assumes "on_load_instance env h (instance_path iid) = Inr i"
    and "ins_status i = Waiting \<Longrightarrow> \<exists>w t. ins_wait_info i = Some w \<and> wi_timeout_at w = Some t \<and>
      on_read_clock env (LoadInstance (instance_path iid) # h) < t"
  shows "\<exists>new. check_flow_timeout env iid h = Some (FlowOk (), new @ h) \<and> set new \<subseteq> {LoadInstance (instance_path iid), ReadClock}"
proof (cases "ins_status i = Waiting")
  case False
  then have "check_flow_timeout env iid h = Some (FlowOk (), [LoadInstance (instance_path iid)] @ h)"
    using assms(1) by (simp add: check_flow_timeout_def Let_def)
  then show ?thesis by (intro exI [of _ "[LoadInstance (instance_path iid)]"]) simp
next
  case True
  with assms(2) obtain w t where "ins_wait_info i = Some w" "wi_timeout_at w = Some t" "on_read_clock env (LoadInstance (instance_path iid) # h) < t"
    by blast
  then have "check_flow_timeout env iid h = Some (FlowOk (), [ReadClock, LoadInstance (instance_path iid)] @ h)"
    using assms(1) True by (simp add: check_flow_timeout_def Let_def)
  then show ?thesis by (intro exI [of _ "[ReadClock, LoadInstance (instance_path iid)]"]) simp
qed

text \<open>
  A wait that passes its deadline without a timeout edge fails the flow without running its compensations: the pending entries stay on the stack
  of an instance that has ended.
\<close>

lemma timed_out_flow_not_compensated:
  "traced (\<lambda>new r. (\<exists>e. r = FlowErr e) \<and> functions_run new = [] \<and>
     (\<forall>j \<in> set (instances_saved new). is_terminated j \<and> ins_compensation_stack j = ins_compensation_stack i))
     (fail_timed_out env iid i t)"
proof -
  have notify: "traced (\<lambda>new r. functions_run new = [] \<and> instances_saved new = [] \<and> r = FlowOk ()) (notify_parent_flow env j st out err)" for j st out err
    unfolding notify_parent_flow_def by (cases "ins_parent_instance_ref j") (simp_all, (intro trace_rules; simp)+)
  have save: "traced (\<lambda>new r. new = [SaveInstance j] \<and> r \<noteq> FlowPanic) (save_or_other env j msg)" for j msg
    unfolding save_or_other_def by (auto intro!: trace_rules split: sum.splits)
  show ?thesis
    unfolding fail_timed_out_def Let_def
    by (intro traced_bind_now traced_bind_emit traced_bind [OF save] traced_bind [OF notify] traced_throw) (auto simp: is_terminated_def)
qed

text \<open>Resuming and checking a deadline return.\<close>

lemma then_execute_returns: "\<exists>r h'. then_execute env iid m h = Some (r, h')"
  unfolding then_execute_def using execute_extends [of env iid]
  by (auto split: prod.splits flow_outcome.splits) blast

lemma timeout_expiry_returns: "\<exists>r h'. handle_timeout_expiry env iid i t h = Some (r, h')"
  unfolding handle_timeout_expiry_def using then_execute_returns by (auto split: option.splits)

lemma resume_returns: "\<exists>r h'. resume_flow env iid d h = Some (r, h')"
  unfolding resume_flow_def resume_waiting_def Let_def
  using then_execute_returns timeout_expiry_returns by (auto split: sum.splits flow_status.splits option.splits)

lemma timeout_check_returns: "\<exists>r h'. check_flow_timeout env iid h = Some (r, h')"
  unfolding check_flow_timeout_def Let_def
  using resume_returns timeout_expiry_returns by (auto split: sum.splits option.splits)

end
