(* ===== verification/Flow_Expr.thy ===== *)
theory Flow_Expr
  imports Flow_Calls Rel_Eval
begin

text \<open>
  Expressions of flows (\<open>runtime/data_mapper.rs\<close>, \<open>FlowContext::to_json\<close>, \<open>handlers/collection.rs\<close>, the conversions between
  JSON and the values of \<open>raisin-rel\<close>): templates are split into literals and expressions, each expression is evaluated by the
  evaluator of \<open>Rel_Eval\<close> against the document of the context. Floats are their 64 bits; the parser of conditions, the
  arithmetic of floats and the printer and reader of serde are the record \<open>expr_lib\<close>.
\<close>

record expr_lib =
  el_rel :: "u64 rel_env"
  el_parse :: "string \<Rightarrow> string + u64 rel_expr"
  el_u64_to_f64 :: "u64 \<Rightarrow> u64"
  el_is_finite :: "u64 \<Rightarrow> bool"
  el_print :: "json \<Rightarrow> string"
  el_read_array :: "string \<Rightarrow> json list option"
  el_trim :: "string \<Rightarrow> string"

section \<open>Values of conditions and JSON\<close>

definition i64_max :: u64 where
  "i64_max = 0x7FFFFFFFFFFFFFFF"

fun rel_of_number :: "expr_lib \<Rightarrow> json_number \<Rightarrow> u64 rel_value" where
  "rel_of_number lib (PosInt n) = (if n \<le> i64_max then VInteger n else VFloat (el_u64_to_f64 lib n))"
| "rel_of_number lib (NegInt n) = VInteger n"
| "rel_of_number lib (Float f) = VFloat f"

fun rel_from_json :: "expr_lib \<Rightarrow> json \<Rightarrow> u64 rel_value" where
  "rel_from_json lib JNull = VNull"
| "rel_from_json lib (JBool b) = VBoolean b"
| "rel_from_json lib (JNumber n) = rel_of_number lib n"
| "rel_from_json lib (JString s) = VString s"
| "rel_from_json lib (JArray xs) = VArray (map (rel_from_json lib) xs)"
| "rel_from_json lib (JObject m) = VObject (map (\<lambda>e. (fst e, rel_from_json lib (snd e))) m)"

definition number_of_i64 :: "u64 \<Rightarrow> json_number" where
  "number_of_i64 i = (if i \<le> i64_max then PosInt i else NegInt i)"

fun rel_to_json :: "expr_lib \<Rightarrow> u64 rel_value \<Rightarrow> json" where
  "rel_to_json lib VNull = JNull"
| "rel_to_json lib (VBoolean b) = JBool b"
| "rel_to_json lib (VInteger i) = JNumber (number_of_i64 i)"
| "rel_to_json lib (VFloat f) = (if el_is_finite lib f then JNumber (Float f) else JNull)"
| "rel_to_json lib (VString s) = JString s"
| "rel_to_json lib (VArray xs) = JArray (map (rel_to_json lib) xs)"
| "rel_to_json lib (VObject m) = JObject (map (\<lambda>e. (fst e, rel_to_json lib (snd e))) m)"

text \<open>\<open>EvalContext::from_json\<close>, which refuses a document that is not an object.\<close>

definition ctx_from_json :: "expr_lib \<Rightarrow> json \<Rightarrow> string + u64 eval_context" where
  "ctx_from_json lib v =
     (case v of
        JObject m \<Rightarrow> Inr (fold (\<lambda>(k, x). ctx_set k (rel_from_json lib x)) m [])
      | _ \<Rightarrow> Inl ''Context must be a JSON object'')"

fun eval_error_to_string :: "eval_error \<Rightarrow> string" where
  "eval_error_to_string (UndefinedVariable v) = ''Undefined variable: '' @ v"
| "eval_error_to_string (GraphError m) = ''Graph traversal error: '' @ m"
| "eval_error_to_string (PropertyNotFound p t) = ''Property '' @ quoted p @ '' not found on '' @ t"
| "eval_error_to_string (IndexOutOfBounds i n) = ''Index '' @ show_i64 i @ '' out of bounds for array of length '' @ show_nat n"
| "eval_error_to_string (InvalidIndexType t) = ''Invalid index type: expected integer, got '' @ t"
| "eval_error_to_string (TypeError oper expected actual) =
     ''Type error in '' @ oper @ '': expected '' @ expected @ '', got '' @ actual"
| "eval_error_to_string (UnknownFunction f) = ''Unknown function: '' @ f"
| "eval_error_to_string (UnknownMethod f) = ''Unknown method: '' @ f"
| "eval_error_to_string (WrongArgCount f expected actual) =
     ''Wrong number of arguments for '' @ f @ '': expected '' @ show_nat expected @ '', got '' @ show_nat actual"
| "eval_error_to_string DivisionByZero = ''Division by zero''"
| "eval_error_to_string (IncomparableTypes l r) = ''Cannot compare '' @ l @ '' with '' @ r"

text \<open>\<open>raisin_rel::eval\<close>: the error is the printed \<open>RelError\<close>.\<close>

datatype 'a rel_result = RelOk 'a | RelErr string | RelPanic

definition rel_eval :: "expr_lib \<Rightarrow> string \<Rightarrow> u64 eval_context \<Rightarrow> u64 rel_value rel_result" where
  "rel_eval lib inp ctx =
     (case el_parse lib inp of
        Inl e \<Rightarrow> RelErr (''Parse error: '' @ e)
      | Inr expr \<Rightarrow>
          (case evaluate (el_rel lib) ctx expr of
             Ok v \<Rightarrow> RelOk v
           | Err e \<Rightarrow> RelErr (''Evaluation error: '' @ eval_error_to_string e)
           | Panic \<Rightarrow> RelPanic))"

section \<open>The document of a context\<close>

definition insert_some :: "string \<Rightarrow> json option \<Rightarrow> (string, json) hash_map \<Rightarrow> (string, json) hash_map" where
  "insert_some k x obj = (case x of Some v \<Rightarrow> hm_insert k v obj | None \<Rightarrow> obj)"

definition ctx_to_json :: "flow_context \<Rightarrow> json" where
  "ctx_to_json c =
     (let obj = insert_some ''trigger'' (fc_trigger_info c) [(''input'', fc_input c)];
          obj = (if fc_step_outputs c \<noteq> [] then hm_insert ''steps'' (JObject (fc_step_outputs c)) obj else obj);
          obj = fold (\<lambda>(k, v). hm_insert k v) (fc_variables c) obj;
          obj = insert_some ''visits'' (hm_get (fc_variables c) ''__visits'') obj;
          obj = insert_some ''history'' (hm_get (fc_variables c) ''__history'') obj
      in JObject (insert_some ''output'' (fc_current_output c) obj))"

section \<open>Templates\<close>

fun fo_bind :: "'a flow_outcome \<Rightarrow> ('a \<Rightarrow> 'b flow_outcome) \<Rightarrow> 'b flow_outcome" where
  "fo_bind (FlowOk a) f = f a"
| "fo_bind (FlowErr e) f = FlowErr e"
| "fo_bind FlowPanic f = FlowPanic"

definition evaluate_expression :: "expr_lib \<Rightarrow> flow_context \<Rightarrow> string \<Rightarrow> json flow_outcome" where
  "evaluate_expression lib c expr =
     (case ctx_from_json lib (ctx_to_json c) of
        Inl e \<Rightarrow> FlowErr (ConditionEvaluation (''Invalid evaluation context: '' @ e))
      | Inr ctx \<Rightarrow>
          (case rel_eval lib expr ctx of
             RelOk v \<Rightarrow> FlowOk (rel_to_json lib v)
           | RelErr e \<Rightarrow> FlowErr (ConditionEvaluation (''Evaluation failed for '' @ quoted expr @ '': '' @ e))
           | RelPanic \<Rightarrow> FlowPanic))"

datatype segment = SegLiteral string | SegExpr string

definition byte_range :: "string \<Rightarrow> nat \<Rightarrow> nat \<Rightarrow> string" where
  "byte_range s i j = take (j - i) (drop i s)"

text \<open>The scan for the brace that closes \<open>${\<close>: the depth and the position behind the last byte read.\<close>

fun close_brace :: "string \<Rightarrow> nat \<Rightarrow> nat \<Rightarrow> nat \<times> nat" where
  "close_brace [] depth j = (depth, j)"
| "close_brace (b # bs) depth j =
     (if depth = 0 then (depth, j)
      else close_brace bs (if b = CHR ''{'' then depth + 1 else if b = CHR ''}'' then depth - 1 else depth) (j + 1))"

fun find_close :: "string \<Rightarrow> nat option" where
  "find_close (a # b # bs) =
     (if a = CHR ''}'' \<and> b = CHR ''}'' then Some 0 else map_option Suc (find_close (b # bs)))"
| "find_close _ = None"

lemma close_brace_mono: "j \<le> snd (close_brace s d j)"
  by (induction s d j rule: close_brace.induct) (auto intro: le_trans)

lemma close_brace_pair: "(d', j') = close_brace s d j \<Longrightarrow> j \<le> j'"
  using close_brace_mono [of j s d] by (metis snd_conv)

function tokenize_at :: "expr_lib \<Rightarrow> string \<Rightarrow> nat \<Rightarrow> nat \<Rightarrow> segment list" where
  "tokenize_at lib s lit_start i =
     (if i < length s then
        if s ! i = CHR ''$'' \<and> i + 1 < length s \<and> s ! (i + 1) = CHR ''{'' then
          (case close_brace (drop (i + 2) s) 1 (i + 2) of (depth, j) \<Rightarrow>
             if depth = 0 then
               (if lit_start < i then [SegLiteral (byte_range s lit_start i)] else [])
                 @ SegExpr (el_trim lib (byte_range s (i + 2) (j - 1))) # tokenize_at lib s j j
             else tokenize_at lib s lit_start (i + 1))
        else if s ! i = CHR ''{'' \<and> i + 1 < length s \<and> s ! (i + 1) = CHR ''{'' then
          (case find_close (drop (i + 2) s) of
             Some rel_end \<Rightarrow>
               (if lit_start < i then [SegLiteral (byte_range s lit_start i)] else [])
                 @ SegExpr (el_trim lib (byte_range s (i + 2) (i + 2 + rel_end)))
                 # tokenize_at lib s (i + 2 + rel_end + 2) (i + 2 + rel_end + 2)
           | None \<Rightarrow> tokenize_at lib s lit_start (i + 1))
        else tokenize_at lib s lit_start (i + 1)
      else if lit_start < length s then [SegLiteral (byte_range s lit_start (length s))] else [])"
  by pat_completeness auto
termination
  by (relation "measure (\<lambda>(_, s, _, i). length s - i)") (auto dest!: close_brace_pair)

declare tokenize_at.simps [simp del]

definition tokenize :: "expr_lib \<Rightarrow> string \<Rightarrow> segment list" where
  "tokenize lib s = tokenize_at lib s 0 0"

definition stringify :: "expr_lib \<Rightarrow> json \<Rightarrow> string" where
  "stringify lib v = (case v of JNull \<Rightarrow> [] | JString s \<Rightarrow> s | _ \<Rightarrow> el_print lib v)"

fun str_contains :: "string \<Rightarrow> string \<Rightarrow> bool" where
  "str_contains pat [] = (pat = [])"
| "str_contains pat (c # cs) = (prefix pat (c # cs) \<or> str_contains pat cs)"

definition has_marker :: "string \<Rightarrow> bool" where
  "has_marker s \<longleftrightarrow> str_contains ''${'' s \<or> str_contains ''{{'' s"

definition is_expr :: "segment \<Rightarrow> bool" where
  "is_expr seg = (case seg of SegExpr _ \<Rightarrow> True | SegLiteral _ \<Rightarrow> False)"

definition blank_or_expr :: "expr_lib \<Rightarrow> segment \<Rightarrow> bool" where
  "blank_or_expr lib seg = (case seg of SegExpr _ \<Rightarrow> True | SegLiteral lit \<Rightarrow> el_trim lib lit = [])"

fun first_expr :: "segment list \<Rightarrow> string option" where
  "first_expr [] = None"
| "first_expr (SegExpr e # segs) = Some e"
| "first_expr (SegLiteral _ # segs) = first_expr segs"

fun interpolate :: "expr_lib \<Rightarrow> flow_context \<Rightarrow> segment list \<Rightarrow> string \<Rightarrow> string flow_outcome" where
  "interpolate lib c [] acc = FlowOk acc"
| "interpolate lib c (SegLiteral lit # segs) acc = interpolate lib c segs (acc @ lit)"
| "interpolate lib c (SegExpr e # segs) acc =
     fo_bind (evaluate_expression lib c e) (\<lambda>v. interpolate lib c segs (acc @ stringify lib v))"

definition resolve_string :: "expr_lib \<Rightarrow> flow_context \<Rightarrow> string \<Rightarrow> json flow_outcome" where
  "resolve_string lib c s =
     (if \<not> has_marker s then FlowOk (JString s)
      else
        let segments = tokenize lib s;
            expr_count = length (filter is_expr segments)
        in if expr_count = 1 \<and> list_all (blank_or_expr lib) segments then
             (case first_expr segments of Some e \<Rightarrow> evaluate_expression lib c e | None \<Rightarrow> FlowPanic)
           else if expr_count = 0 then FlowOk (JString s)
           else fo_bind (interpolate lib c segments []) (\<lambda>out. FlowOk (JString out)))"

fun data_map :: "expr_lib \<Rightarrow> flow_context \<Rightarrow> json \<Rightarrow> json flow_outcome"
  and data_map_items :: "expr_lib \<Rightarrow> flow_context \<Rightarrow> json list \<Rightarrow> json list flow_outcome"
  and data_map_fields :: "expr_lib \<Rightarrow> flow_context \<Rightarrow> (string \<times> json) list \<Rightarrow> (string \<times> json) list flow_outcome" where
  "data_map lib c (JString s) = resolve_string lib c s"
| "data_map lib c (JArray xs) = fo_bind (data_map_items lib c xs) (\<lambda>ys. FlowOk (JArray ys))"
| "data_map lib c (JObject m) = fo_bind (data_map_fields lib c m) (\<lambda>ys. FlowOk (JObject ys))"
| "data_map lib c v = FlowOk v"
| "data_map_items lib c [] = FlowOk []"
| "data_map_items lib c (x # xs) =
     fo_bind (data_map lib c x) (\<lambda>y. fo_bind (data_map_items lib c xs) (\<lambda>ys. FlowOk (y # ys)))"
| "data_map_fields lib c [] = FlowOk []"
| "data_map_fields lib c ((k, v) # m) =
     fo_bind (data_map lib c v) (\<lambda>y. fo_bind (data_map_fields lib c m) (\<lambda>ys. FlowOk ((k, y) # ys)))"

section \<open>Collections\<close>

definition object_entries :: "(string \<times> json) list \<Rightarrow> json list" where
  "object_entries m = map (\<lambda>(k, v). JObject [(''key'', JString k), (''value'', v)]) m"

function trim_start_matches :: "string \<Rightarrow> string \<Rightarrow> string" where
  "trim_start_matches pat s =
     (if pat \<noteq> [] \<and> prefix pat s then trim_start_matches pat (drop (length pat) s) else s)"
  by pat_completeness auto
termination
  by (relation "measure (\<lambda>(_, s). length s)") (auto simp: prefix_def)

declare trim_start_matches.simps [simp del]

definition var_name_of :: "string \<Rightarrow> string" where
  "var_name_of expr = trim_start_matches ''$'' (trim_start_matches ''$.'' expr)"

definition resolve_collection :: "expr_lib \<Rightarrow> flow_context \<Rightarrow> string \<Rightarrow> json list flow_outcome" where
  "resolve_collection lib c expr =
     (if has_marker expr then
        fo_bind (data_map lib c (JString expr)) (\<lambda>v.
          case v of
            JArray arr \<Rightarrow> FlowOk arr
          | JObject obj \<Rightarrow> FlowOk (object_entries obj)
          | other \<Rightarrow> FlowErr (InvalidNodeConfiguration
              (''Collection '' @ quoted expr @ '' resolved to a non-iterable value: '' @ el_print lib other)))
      else
        (case or_else (hm_get (fc_variables c) (var_name_of expr)) (jget (var_name_of expr) (fc_input c)) of
           Some (JArray arr) \<Rightarrow> FlowOk arr
         | Some (JObject obj) \<Rightarrow> FlowOk (object_entries obj)
         | Some _ \<Rightarrow> FlowErr (InvalidNodeConfiguration (''Collection '' @ quoted expr @ '' is not iterable''))
         | None \<Rightarrow>
             (case el_read_array lib expr of
                Some xs \<Rightarrow> FlowOk xs
              | None \<Rightarrow> FlowErr (InvalidNodeConfiguration (''Could not resolve collection: '' @ expr)))))"

section \<open>Conditions\<close>

definition evaluate_condition_with :: "string \<Rightarrow> expr_lib \<Rightarrow> flow_context \<Rightarrow> string \<Rightarrow> bool flow_outcome" where
  "evaluate_condition_with failed lib c condition =
     (case ctx_from_json lib (ctx_to_json c) of
        Inl e \<Rightarrow> FlowErr (ConditionEvaluation (''Invalid evaluation context: '' @ e))
      | Inr ctx \<Rightarrow>
          (case rel_eval lib condition ctx of
             RelOk v \<Rightarrow> FlowOk (is_truthy (el_rel lib) v)
           | RelErr e \<Rightarrow> FlowErr (ConditionEvaluation (failed @ e))
           | RelPanic \<Rightarrow> FlowPanic))"

section \<open>Values survive the evaluator\<close>

fun exact_number :: "expr_lib \<Rightarrow> json_number \<Rightarrow> bool" where
  "exact_number lib (PosInt n) = (n \<le> i64_max)"
| "exact_number lib (NegInt n) = (i64_max < n)"
| "exact_number lib (Float f) = el_is_finite lib f"

fun exact_json :: "expr_lib \<Rightarrow> json \<Rightarrow> bool" where
  "exact_json lib (JNumber n) = exact_number lib n"
| "exact_json lib (JArray xs) = list_all (exact_json lib) xs"
| "exact_json lib (JObject m) = list_all (\<lambda>e. exact_json lib (snd e)) m"
| "exact_json lib _ = True"

lemma rel_to_json_number: "exact_number lib n \<Longrightarrow> rel_to_json lib (rel_of_number lib n) = JNumber n"
  by (cases n) (auto simp: number_of_i64_def)

lemma rel_to_from_json: "exact_json lib v \<Longrightarrow> rel_to_json lib (rel_from_json lib v) = v"
proof (induction v)
  case (JArray xs)
  then show ?case by (auto simp: list_all_iff intro: map_idI)
next
  case (JObject m)
  then have "rel_to_json lib (rel_from_json lib (snd e)) = snd e" if "e \<in> set m" for e
    using that by (cases e) (auto simp: list_all_iff snds.simps)
  then show ?case by (auto simp: prod_eq_iff intro!: map_idI)
qed (auto simp: rel_to_json_number)

section \<open>Templates are read as they are written\<close>

text \<open>A template as its pieces; an expression is written in the first style (\<open>True\<close>) or the second.\<close>

fun render :: "(segment \<times> bool) list \<Rightarrow> string" where
  "render [] = []"
| "render ((SegLiteral lit, _) # ps) = lit @ render ps"
| "render ((SegExpr e, True) # ps) = ''${'' @ e @ ''}'' @ render ps"
| "render ((SegExpr e, False) # ps) = ''{{'' @ e @ ''}}'' @ render ps"

definition plain :: "string \<Rightarrow> bool" where
  "plain lit \<longleftrightarrow> lit \<noteq> [] \<and> CHR ''$'' \<notin> set lit \<and> CHR ''{'' \<notin> set lit"

definition brace_free :: "expr_lib \<Rightarrow> string \<Rightarrow> bool" where
  "brace_free lib e \<longleftrightarrow> CHR ''{'' \<notin> set e \<and> CHR ''}'' \<notin> set e \<and> el_trim lib e = e"

fun pieces_ok :: "expr_lib \<Rightarrow> bool \<Rightarrow> (segment \<times> bool) list \<Rightarrow> bool" where
  "pieces_ok lib after_lit [] = True"
| "pieces_ok lib after_lit ((SegLiteral lit, _) # ps) = (\<not> after_lit \<and> plain lit \<and> pieces_ok lib True ps)"
| "pieces_ok lib after_lit ((SegExpr e, _) # ps) = (brace_free lib e \<and> pieces_ok lib False ps)"

lemma close_brace_free:
  "CHR ''{'' \<notin> set e \<Longrightarrow> CHR ''}'' \<notin> set e \<Longrightarrow> close_brace (e @ CHR ''}'' # rest) 1 j = (0, j + length e + 1)"
proof (induction e arbitrary: j)
  case Nil
  show ?case by (cases rest) simp_all
qed auto

lemma find_close_free: "CHR ''}'' \<notin> set e \<Longrightarrow> find_close (e @ ''}}'' @ rest) = Some (length e)"
proof (induction e)
  case (Cons a e)
  then show ?case by (cases e) auto
qed simp

lemma tokenize_at_plain:
  assumes "CHR ''$'' \<notin> set lit" "CHR ''{'' \<notin> set lit"
  shows "tokenize_at lib (pre @ lit @ rest) ls (length pre) = tokenize_at lib (pre @ lit @ rest) ls (length (pre @ lit))"
  using assms
proof (induction lit arbitrary: pre)
  case (Cons a lit)
  have a: "a \<noteq> CHR ''$''" "a \<noteq> CHR ''{''" using Cons.prems by auto
  have "tokenize_at lib (pre @ (a # lit) @ rest) ls (length pre) = tokenize_at lib ((pre @ [a]) @ lit @ rest) ls (length (pre @ [a]))"
    by (subst tokenize_at.simps) (simp add: nth_append a)
  also have "\<dots> = tokenize_at lib ((pre @ [a]) @ lit @ rest) ls (length ((pre @ [a]) @ lit))"
    by (rule Cons.IH) (use Cons.prems in auto)
  finally show ?case by simp
qed simp

lemma byte_range_middle: "byte_range (pre @ xs @ ys) (length pre) (length pre + length xs) = xs"
  by (simp add: byte_range_def)

lemma tokenize_at_expr:
  fixes pre e :: string
  assumes "brace_free lib e" "ls \<le> length pre"
  defines "lit \<equiv> (if ls < length pre then [SegLiteral (byte_range pre ls (length pre))] else [])"
  shows "tokenize_at lib (pre @ ''${'' @ e @ ''}'' @ rest) ls (length pre) =
      lit @ SegExpr e # tokenize_at lib ((pre @ ''${'' @ e @ ''}'') @ rest) (length (pre @ ''${'' @ e @ ''}'')) (length (pre @ ''${'' @ e @ ''}''))"
    "tokenize_at lib (pre @ ''{{'' @ e @ ''}}'' @ rest) ls (length pre) =
      lit @ SegExpr e # tokenize_at lib ((pre @ ''{{'' @ e @ ''}}'') @ rest) (length (pre @ ''{{'' @ e @ ''}}'')) (length (pre @ ''{{'' @ e @ ''}}''))"
proof -
  have e: "CHR ''{'' \<notin> set e" "CHR ''}'' \<notin> set e" "el_trim lib e = e" using assms(1) by (simp_all add: brace_free_def)
  show "tokenize_at lib (pre @ ''${'' @ e @ ''}'' @ rest) ls (length pre) =
      lit @ SegExpr e # tokenize_at lib ((pre @ ''${'' @ e @ ''}'') @ rest) (length (pre @ ''${'' @ e @ ''}'')) (length (pre @ ''${'' @ e @ ''}''))"
    using assms(2) e close_brace_free [OF e(1,2), of rest "length pre + 2"]
    by (subst tokenize_at.simps) (simp add: nth_append lit_def byte_range_def ac_simps)
  show "tokenize_at lib (pre @ ''{{'' @ e @ ''}}'' @ rest) ls (length pre) =
      lit @ SegExpr e # tokenize_at lib ((pre @ ''{{'' @ e @ ''}}'') @ rest) (length (pre @ ''{{'' @ e @ ''}}'')) (length (pre @ ''{{'' @ e @ ''}}''))"
    using assms(2) e find_close_free [OF e(2), of rest]
    by (subst tokenize_at.simps) (simp add: nth_append lit_def byte_range_def ac_simps)
qed

lemma tokenize_at_render:
  assumes "pieces_ok lib after_lit ps" "after_lit \<Longrightarrow> ls < length pre" "\<not> after_lit \<Longrightarrow> ls = length pre" "ls \<le> length pre"
  shows "tokenize_at lib (pre @ render ps) ls (length pre) =
    (if after_lit then [SegLiteral (byte_range pre ls (length pre))] else []) @ map fst ps"
  using assms
proof (induction ps arbitrary: pre ls after_lit rule: render.induct)
  case 1
  then show ?case by (subst tokenize_at.simps) auto
next
  case (2 lit b ps)
  then have lit: "lit \<noteq> []" "CHR ''$'' \<notin> set lit" "CHR ''{'' \<notin> set lit" "\<not> after_lit" "pieces_ok lib True ps" "ls = length pre"
    by (auto simp: plain_def)
  have "tokenize_at lib ((pre @ lit) @ render ps) ls (length (pre @ lit)) = [SegLiteral (byte_range (pre @ lit) ls (length (pre @ lit)))] @ map fst ps"
    using 2(1) [of True ls "pre @ lit"] lit by simp
  then show ?case using tokenize_at_plain [OF lit(2,3), of lib pre "render ps" ls] lit(4,6) by (simp add: byte_range_def)
next
  case (3 e ps)
  then have "brace_free lib e" "pieces_ok lib False ps" by auto
  with 3(1) [of False "length (pre @ ''${'' @ e @ ''}'')" "pre @ ''${'' @ e @ ''}''"] tokenize_at_expr(1) [of lib e ls pre "render ps"] 3(3,4,5)
  show ?case by auto
next
  case (4 e ps)
  then have "brace_free lib e" "pieces_ok lib False ps" by auto
  with 4(1) [of False "length (pre @ ''{{'' @ e @ ''}}'')" "pre @ ''{{'' @ e @ ''}}''"] tokenize_at_expr(2) [of lib e ls pre "render ps"] 4(3,4,5)
  show ?case by auto
qed

lemma tokenize_render: "pieces_ok lib False ps \<Longrightarrow> tokenize lib (render ps) = map fst ps"
  using tokenize_at_render [of lib False ps 0 "[]"] by (simp add: tokenize_def)

section \<open>What a template resolves to\<close>

text \<open>A template of one expression and blank text keeps the type of its value.\<close>

definition whole :: "expr_lib \<Rightarrow> segment list \<Rightarrow> bool" where
  "whole lib segs \<longleftrightarrow> length (filter is_expr segs) = 1 \<and> list_all (blank_or_expr lib) segs"

definition piece_text :: "expr_lib \<Rightarrow> (string \<Rightarrow> json) \<Rightarrow> segment \<Rightarrow> string" where
  "piece_text lib val seg = (case seg of SegLiteral lit \<Rightarrow> lit | SegExpr e \<Rightarrow> stringify lib (val e))"

lemma str_contains_prefix: "prefix pat s \<Longrightarrow> str_contains pat s"
  by (cases s) auto

lemma str_contains_append: "str_contains pat ys \<Longrightarrow> str_contains pat (xs @ ys)"
  by (induction xs) auto

lemma has_marker_append: "has_marker ys \<Longrightarrow> has_marker (xs @ ys)"
  unfolding has_marker_def using str_contains_append by blast

lemma has_marker_render: "\<exists>seg \<in> fst ` set ps. is_expr seg \<Longrightarrow> has_marker (render ps)"
proof (induction ps rule: render.induct)
  case (2 lit b ps)
  then show ?case by (auto simp: is_expr_def intro: has_marker_append)
qed (auto simp: has_marker_def is_expr_def)

lemma interpolate_text:
  assumes "\<And>e. SegExpr e \<in> set segs \<Longrightarrow> evaluate_expression lib c e = FlowOk (val e)"
  shows "interpolate lib c segs acc = FlowOk (acc @ concat (map (piece_text lib val) segs))"
  using assms
proof (induction segs arbitrary: acc)
  case (Cons seg segs)
  then show ?case by (cases seg) (simp_all add: piece_text_def)
qed simp

lemma first_expr_Some: "filter is_expr segs \<noteq> [] \<Longrightarrow> \<exists>e. first_expr segs = Some e \<and> SegExpr e \<in> set segs"
  by (induction segs rule: first_expr.induct) (auto simp: is_expr_def)

lemma render_literals: "filter is_expr (map fst ps) = [] \<Longrightarrow> render ps = concat (map (piece_text lib val) (map fst ps))"
  by (induction ps rule: render.induct) (auto simp: is_expr_def piece_text_def)

lemma resolve_segments:
  assumes "has_marker s" "tokenize lib s = segs" and some: "filter is_expr segs \<noteq> []"
    and evals: "\<And>e. SegExpr e \<in> set segs \<Longrightarrow> evaluate_expression lib c e = FlowOk (val e)"
  shows "resolve_string lib c s =
    FlowOk (if whole lib segs then val (the (first_expr segs)) else JString (concat (map (piece_text lib val) segs)))"
proof -
  obtain e where e: "first_expr segs = Some e" "SegExpr e \<in> set segs" using first_expr_Some [OF some] by blast
  have "interpolate lib c segs [] = FlowOk (concat (map (piece_text lib val) segs))"
    using interpolate_text [of segs lib c val "[]"] evals by simp
  then show ?thesis using assms(1-3) e(1) evals [OF e(2)] by (auto simp: resolve_string_def whole_def Let_def)
qed

lemma resolve_rendered:
  assumes ok: "pieces_ok lib False ps"
    and evals: "\<And>e. SegExpr e \<in> fst ` set ps \<Longrightarrow> evaluate_expression lib c e = FlowOk (val e)"
  shows "data_map lib c (JString (render ps)) =
    FlowOk (if whole lib (map fst ps) then val (the (first_expr (map fst ps)))
      else JString (concat (map (piece_text lib val) (map fst ps))))"
proof (cases "filter is_expr (map fst ps) = []")
  case True
  show ?thesis unfolding render_literals [OF True, symmetric]
    using True by (simp add: resolve_string_def tokenize_render [OF ok] whole_def Let_def)
next
  case False
  then have "has_marker (render ps)" by (intro has_marker_render) (auto simp: filter_empty_conv)
  then show ?thesis
    using resolve_segments [OF _ tokenize_render [OF ok] False, of c val] evals by simp
qed

text \<open>A reference to a name of the document.\<close>

lemma ctx_set_fold:
  "hm_wf m \<Longrightarrow> hm_get (fold (\<lambda>(k, x). ctx_set k (f x)) m acc) k = (case hm_get m k of Some x \<Rightarrow> Some (f x) | None \<Rightarrow> hm_get acc k)"
proof (induction m arbitrary: acc)
  case (Cons e m)
  obtain a b where e: "e = (a, b)" by (cases e)
  have none: "hm_get m a = None" using Cons.prems by (simp add: e map_of_eq_None_iff)
  have "hm_get (fold (\<lambda>(k, x). ctx_set k (f x)) m (ctx_set a (f b) acc)) k =
    (case hm_get m k of Some x \<Rightarrow> Some (f x) | None \<Rightarrow> hm_get (ctx_set a (f b) acc) k)" using Cons by simp
  moreover have "hm_get (ctx_set a (f b) acc) k = (if k = a then Some (f b) else hm_get acc k)"
    by (simp add: ctx_set_def hm_simps)
  ultimately show ?case using none by (cases "k = a"; cases "hm_get m k") (simp_all add: e)
qed simp

lemma hm_wf_fold_insert: "hm_wf m \<Longrightarrow> hm_wf (fold (\<lambda>(k, v). hm_insert k v) vs m)"
  by (induction vs arbitrary: m) (auto split: prod.splits)

lemma hm_wf_insert_some: "hm_wf m \<Longrightarrow> hm_wf (insert_some k x m)"
  by (cases x) (simp_all add: insert_some_def)

lemma ctx_to_json_wf: "ctx_to_json c = JObject doc \<Longrightarrow> hm_wf doc"
  unfolding ctx_to_json_def Let_def json.inject
  by (erule subst) (intro hm_wf_insert_some hm_wf_fold_insert, simp add: hm_wf_insert_some)

lemma evaluate_reference:
  assumes "el_parse lib e = Inr (Variable k)" "ctx_to_json c = JObject doc" "hm_get doc k = Some v" "exact_json lib v"
  shows "evaluate_expression lib c e = FlowOk v"
proof -
  have "hm_get (fold (\<lambda>(k, x). ctx_set k (rel_from_json lib x)) doc []) k = Some (rel_from_json lib v)"
    using ctx_set_fold [OF ctx_to_json_wf [OF assms(2)], of "rel_from_json lib" "[]" k] assms(3) by simp
  then show ?thesis using assms rel_to_from_json [OF assms(4)]
    by (simp add: evaluate_expression_def ctx_from_json_def rel_eval_def eval_variable_def ctx_get_def ok_or_def)
qed


text \<open>
  A template that is one reference to a name of the context returns the value of that name unchanged: the conversion to the values of
  the evaluator and back loses nothing for integers of 64 bits with sign, finite floats and everything built from them.
\<close>

theorem reference_keeps_value:
  assumes "pieces_ok lib False ps" "whole lib (map fst ps)" "first_expr (map fst ps) = Some e" "el_parse lib e = Inr (Variable k)"
    and "ctx_to_json c = JObject doc" "hm_get doc k = Some v" "exact_json lib v"
  shows "data_map lib c (JString (render ps)) = FlowOk v"
proof -
  have "length (filter is_expr (map fst ps)) = Suc 0" using assms(2) by (simp only: whole_def One_nat_def)
  then obtain x where x: "filter is_expr (map fst ps) = [x]" by (metis length_0_conv length_Suc_conv)
  have only: "SegExpr e' = x" if "SegExpr e' \<in> set (map fst ps)" for e'
  proof -
    have "SegExpr e' \<in> set (filter is_expr (map fst ps))" using that by (simp add: is_expr_def)
    then show ?thesis unfolding x by simp
  qed
  have "SegExpr e = x" using only first_expr_Some [of "map fst ps"] assms(3) x by auto
  then have "evaluate_expression lib c e' = FlowOk v" if "SegExpr e' \<in> fst ` set ps" for e'
    using that only [of e'] evaluate_reference [OF assms(4-7)] by auto
  then show ?thesis using resolve_rendered [OF assms(1), of c "\<lambda>_. v"] assms(2) by simp
qed

text \<open>A library in which every expression is a name and floats are compared by their bits.\<close>

definition bit_env :: "u64 rel_env" where
  "bit_env =
     \<lparr>f_add = (+), f_sub = (-), f_mul = (*), f_div = (\<lambda>a _. a), f_rem = (\<lambda>_ _. 0), f_neg = uminus, f_abs = (\<lambda>a. a),
      f_lt = (<), f_epsilon = 1, f_partial_cmp = (\<lambda>_ _. None), f_is_zero = (\<lambda>a. a = 0),
      f_of_i64 = (\<lambda>a. a), f_fract_is_zero = (\<lambda>_. True), f_to_i64 = (\<lambda>a. a), f_to_string = (\<lambda>_. []),
      str_lower = (\<lambda>s. s), str_upper = (\<lambda>s. s), str_trim = (\<lambda>s. s)\<rparr>"

definition demo_lib :: expr_lib where
  "demo_lib = \<lparr>el_rel = bit_env, el_parse = (\<lambda>e. Inr (Variable e)), el_u64_to_f64 = (\<lambda>n. n), el_is_finite = (\<lambda>_. True),
     el_print = (\<lambda>_. []), el_read_array = (\<lambda>_. None),
     el_trim = (\<lambda>s. rev (dropWhile (\<lambda>c. c = CHR '' '') (rev (dropWhile (\<lambda>c. c = CHR '' '') s))))\<rparr>"

definition demo_context :: flow_context where
  "demo_context = \<lparr>fc_instance_id = ''i'', fc_trigger_info = None, fc_input = JString ''Ann'', fc_step_outputs = [],
     fc_variables = [(''items'', JArray [JBool True, JNull])], fc_current_output = None, fc_compensation_stack = [], fc_flow_ref = None,
     fc_step_attempt = 0\<rparr>"

lemma demo_document: "ctx_to_json demo_context = JObject [(''input'', JString ''Ann''), (''items'', JArray [JBool True, JNull])]"
  by (simp add: ctx_to_json_def demo_context_def insert_some_def)

lemma demo_parse: "el_parse demo_lib e = Inr (Variable e)"
  by (simp add: demo_lib_def)


theorem reference_keeps_value_witness:
  "data_map demo_lib demo_context (JString ''${items}'') = FlowOk (JArray [JBool True, JNull])"
proof -
  let ?ps = "[(SegExpr ''items'', True)]"
  have "data_map demo_lib demo_context (JString (render ?ps)) = FlowOk (JArray [JBool True, JNull])"
    by (rule reference_keeps_value [OF _ _ _ demo_parse demo_document])
      (auto simp: brace_free_def demo_lib_def whole_def is_expr_def blank_or_expr_def)
  then show ?thesis by simp
qed

end
