(* ===== verification/Flow_Handlers.thy ===== *)
theory Flow_Handlers
  imports Flow_Expr
begin

text \<open>
  Step handlers (\<open>handlers/decision.rs\<close>, \<open>function_step.rs\<close>, \<open>sub_flow.rs\<close>). A handler is \<open>async fn execute(step, &mut context,
  callbacks)\<close>: it returns a result of the step or an error, and its changes of the context remain in both cases, since the
  dispatch copies the context back before it looks at the result.
\<close>

type_synonym 'a handler = "flow_context \<Rightarrow> ((flow_error + 'a) \<times> flow_context) flow"

definition h_return :: "'a \<Rightarrow> 'a handler" where
  "h_return a c = fl_return (Inr a, c)"

definition h_throw :: "flow_error \<Rightarrow> 'a handler" where
  "h_throw e c = fl_return (Inl e, c)"

definition h_bind :: "'a handler \<Rightarrow> ('a \<Rightarrow> 'b handler) \<Rightarrow> 'b handler" where
  "h_bind m f c =
     fl_bind (m c) (\<lambda>(r, c'). case r of Inl e \<Rightarrow> fl_return (Inl e, c') | Inr a \<Rightarrow> f a c')"

definition h_context :: "flow_context handler" where
  "h_context c = fl_return (Inr c, c)"

definition h_modify :: "(flow_context \<Rightarrow> flow_context) \<Rightarrow> unit handler" where
  "h_modify g c = fl_return (Inr (), g c)"

text \<open>A computation without calls, a call whose result is inspected, and a call followed by \<open>?\<close>.\<close>

definition h_outcome :: "'a flow_outcome \<Rightarrow> 'a handler" where
  "h_outcome r c h =
     (case r of
        FlowOk a \<Rightarrow> (FlowOk (Inr a, c), h)
      | FlowErr e \<Rightarrow> (FlowOk (Inl e, c), h)
      | FlowPanic \<Rightarrow> (FlowPanic, h))"

definition h_try :: "flow_call \<Rightarrow> (history \<Rightarrow> 'a) \<Rightarrow> 'a handler" where
  "h_try q answer c = fl_bind (fl_try q answer) (\<lambda>a. fl_return (Inr a, c))"

definition h_call :: "flow_call \<Rightarrow> (history \<Rightarrow> flow_error + 'a) \<Rightarrow> 'a handler" where
  "h_call q answer = h_bind (h_try q answer) (\<lambda>r. case r of Inl e \<Rightarrow> h_throw e | Inr a \<Rightarrow> h_return a)"

definition h_now :: "flow_env \<Rightarrow> datetime handler" where
  "h_now env = h_try ReadClock (on_read_clock env)"

definition set_variable :: "string \<Rightarrow> json \<Rightarrow> flow_context \<Rightarrow> flow_context" where
  "set_variable k v c = c\<lparr>fc_variables := hm_insert k v (fc_variables c)\<rparr>"

definition remove_variable :: "string \<Rightarrow> flow_context \<Rightarrow> flow_context" where
  "remove_variable k c = c\<lparr>fc_variables := hm_remove k (fc_variables c)\<rparr>"

text \<open>\<open>context.variables.remove(key)\<close>, with the removed value.\<close>

definition h_take :: "string \<Rightarrow> json option handler" where
  "h_take k = h_bind h_context (\<lambda>c. h_bind (h_modify (remove_variable k)) (\<lambda>_. h_return (hm_get (fc_variables c) k)))"

definition next_or_end :: "flow_node \<Rightarrow> string" where
  "next_or_end step = (case fn_next_node step of Some n \<Rightarrow> n | None \<Rightarrow> ''end'')"

section \<open>Running a handler\<close>

lemma h_bind_simps [simp]:
  "h_bind (h_return a) f c h = f a c h"
  "h_bind (h_throw e) f c h = h_throw e c h"
  "h_bind h_context fc c h = fc c c h"
  "h_bind (h_modify g) fu c h = fu () (g c) h"
  "h_bind (h_outcome (FlowOk a)) f c h = f a c h"
  "h_bind (h_outcome (FlowErr e)) f c h = (FlowOk (Inl e, c), h)"
  "h_bind (h_outcome FlowPanic) f c h = (FlowPanic, h)"
  "h_bind (h_try q answer) f c h = f (answer h) c (q # h)"
  by (simp_all add: h_bind_def h_return_def h_throw_def h_context_def h_modify_def h_outcome_def h_try_def fl_bind_def fl_return_def fl_try_def)

lemma h_run_simps [simp]:
  "h_return a c h = (FlowOk (Inr a, c), h)"
  "h_throw e c h = (FlowOk (Inl e, c), h)"
  "h_outcome (FlowOk a) c h = (FlowOk (Inr a, c), h)"
  "h_outcome (FlowErr e) c h = (FlowOk (Inl e, c), h)"
  "h_outcome FlowPanic c h = (FlowPanic, h)"
  "h_modify g c h = (FlowOk (Inr (), g c), h)"
  by (simp_all add: h_return_def h_throw_def h_outcome_def h_modify_def fl_return_def)

lemma h_bind_assoc: "h_bind (h_bind m f) g = h_bind m (\<lambda>a. h_bind (f a) g)"
  by (rule ext) (auto simp: h_bind_def fl_bind_def fl_return_def fun_eq_iff split: prod.splits flow_outcome.splits sum.splits)

lemma get_set_variable [simp]:
  "hm_get (fc_variables (set_variable k v c)) k' = (if k' = k then Some v else hm_get (fc_variables c) k')"
  by (simp add: set_variable_def hm_simps)

lemma get_remove_variable [simp]:
  "hm_get (fc_variables (remove_variable k c)) k' = (if k' = k then None else hm_get (fc_variables c) k')"
  by (simp add: remove_variable_def hm_simps)

lemma h_bind_take [simp]: "h_bind (h_take k) f c h = f (hm_get (fc_variables c) k) (remove_variable k c) h"
  by (simp add: h_take_def h_bind_assoc)

section \<open>Decisions\<close>

definition evaluate_condition :: "expr_lib \<Rightarrow> flow_context \<Rightarrow> string \<Rightarrow> bool flow_outcome" where
  "evaluate_condition lib c condition = evaluate_condition_with ''Evaluation failed: '' lib c condition"

definition get_next_node :: "flow_node \<Rightarrow> bool \<Rightarrow> flow_error + string" where
  "get_next_node step condition_result =
     (let branch_key = (if condition_result then ''yes_branch'' else ''no_branch'') in
      case get_string_property step branch_key of
        Some n \<Rightarrow> Inr n
      | None \<Rightarrow> Inl (MissingProperty (''Decision node '' @ quoted (fn_id step) @ '' missing required property: '' @ branch_key)))"

definition execute_decision :: "expr_lib \<Rightarrow> flow_node \<Rightarrow> step_result handler" where
  "execute_decision lib step =
     (case get_string_property step ''condition'' of
        None \<Rightarrow> h_throw (MissingProperty (''Decision node '' @ quoted (fn_id step) @ '' missing required property: condition''))
      | Some condition \<Rightarrow>
          h_bind h_context (\<lambda>c.
          h_bind (h_outcome (evaluate_condition lib c condition)) (\<lambda>r.
          case get_next_node step r of
            Inl e \<Rightarrow> h_throw e
          | Inr n \<Rightarrow>
              h_bind (h_modify (set_variable (fn_id step @ ''_result'') (JBool r))) (\<lambda>_.
              h_return (Continue n (JObject [(''decision'', JBool r),
                (''branch_taken'', JString (if r then ''yes'' else ''no''))]))))))"

section \<open>Function steps\<close>

definition get_function_ref :: "flow_node \<Rightarrow> flow_error + string" where
  "get_function_ref step =
     (case get_string_property step ''function_ref'' of
        Some f \<Rightarrow> Inr f
      | None \<Rightarrow> Inl (MissingProperty (''Function step '' @ quoted (fn_id step) @ '' missing required property: function_ref'')))"

definition get_object :: "flow_node \<Rightarrow> string \<Rightarrow> (string \<times> json) list option" where
  "get_object step key = Option.bind (get_property step key) as_object"

definition build_arguments :: "expr_lib \<Rightarrow> flow_node \<Rightarrow> flow_context \<Rightarrow> json flow_outcome" where
  "build_arguments lib step c =
     (case get_object step ''arguments'' of
        Some args \<Rightarrow> data_map lib c (JObject args)
      | None \<Rightarrow> FlowOk (JObject []))"

definition without_flow_context :: "json \<Rightarrow> json" where
  "without_flow_context args =
     (case args of JObject obj \<Rightarrow> JObject (hm_remove ''__raisin_flow'' obj) | v \<Rightarrow> v)"

definition compensation_input_of :: "expr_lib \<Rightarrow> flow_node \<Rightarrow> flow_context \<Rightarrow> json \<Rightarrow> json flow_outcome" where
  "compensation_input_of lib step c out =
     (case get_object step ''compensation_input_mapping'' of
        Some mapping \<Rightarrow> data_map lib (c\<lparr>fc_current_output := Some out\<rparr>) (JObject mapping)
      | None \<Rightarrow> build_arguments lib step c)"

definition push_compensation_after_success :: "flow_env \<Rightarrow> expr_lib \<Rightarrow> flow_node \<Rightarrow> json \<Rightarrow> unit handler" where
  "push_compensation_after_success env lib step out =
     (case get_string_property step ''compensation_ref'' of
        None \<Rightarrow> h_return ()
      | Some compensation_fn \<Rightarrow>
          h_bind h_context (\<lambda>c.
          h_bind (h_outcome (compensation_input_of lib step c out)) (\<lambda>inp.
          h_bind (h_now env) (\<lambda>now.
          h_modify (\<lambda>c. c\<lparr>fc_compensation_stack := fc_compensation_stack c
            @ [compensation_new now (fn_id step) compensation_fn (without_flow_context inp)]\<rparr>)))))"

definition finish_function :: "flow_env \<Rightarrow> expr_lib \<Rightarrow> flow_node \<Rightarrow> json \<Rightarrow> step_result handler" where
  "finish_function env lib step result =
     (if Option.bind (jget ''success'' result) as_bool = Some True then
        let out = (case jget ''result'' result of Some v \<Rightarrow> v | None \<Rightarrow> JNull) in
        h_bind (push_compensation_after_success env lib step out) (\<lambda>_. h_return (Continue (next_or_end step) out))
      else
        h_return (StepError (FunctionExecution
          (case Option.bind (jget ''error'' result) json_as_str of Some m \<Rightarrow> m | None \<Rightarrow> ''Function execution failed''))))"

definition audit :: "flow_env \<Rightarrow> string \<Rightarrow> json \<Rightarrow> unit handler" where
  "audit env event details =
     h_bind (h_try (AuditLog event details) (\<lambda>h. on_audit_log env h event details)) (\<lambda>_. h_return ())"

definition function_payload :: "flow_node \<Rightarrow> flow_context \<Rightarrow> string \<Rightarrow> json \<Rightarrow> json" where
  "function_payload step c function_ref args =
     JObject [(''function_path'', JString function_ref), (''arguments'', args), (''step_id'', JString (fn_id step)),
       (''instance_id'', JString (fc_instance_id c)),
       (''flow_context'', JObject [(''instance_id'', JString (fc_instance_id c)), (''step_id'', JString (fn_id step)),
          (''flow_path'', json_opt_str (fc_flow_ref c)), (''attempt'', json_u64 (ucast (fc_step_attempt c))),
          (''trigger'', JString ''flow'')])]"

definition function_wait :: "flow_node \<Rightarrow> string \<Rightarrow> string \<Rightarrow> step_result" where
  "function_wait step job_id function_ref =
     WaitFor ''function_call'' (JObject
       ([(''job_id'', JString job_id), (''function_ref'', JString function_ref), (''step_id'', JString (fn_id step))]
        @ (case get_u64_property step ''timeout_ms'' of
             Some ms \<Rightarrow> if 0 < ms then [(''timeout_ms'', json_u64 ms)] else []
           | None \<Rightarrow> [])))"

definition caller_of :: "flow_context \<Rightarrow> string option" where
  "caller_of c = Option.bind (Option.bind (fc_trigger_info c) (jget ''actor'')) json_as_str"

definition queue_function :: "flow_env \<Rightarrow> expr_lib \<Rightarrow> flow_node \<Rightarrow> string \<Rightarrow> step_result handler" where
  "queue_function env lib step function_ref =
     h_bind h_context (\<lambda>c.
     h_bind (h_outcome (build_arguments lib step c)) (\<lambda>args.
     let payload = function_payload step c function_ref (without_flow_context args) in
     h_bind (h_try (QueueJob ''function_execution'' payload) (\<lambda>h. on_queue_job env h ''function_execution'' payload)) (\<lambda>queued.
     case queued of
       Inr job_id \<Rightarrow> h_return (function_wait step job_id function_ref)
     | Inl e \<Rightarrow> h_throw (FunctionExecution
         (''Failed to queue function '' @ quoted function_ref @ '': '' @ flow_error_to_string e)))))"

definition start_function :: "flow_env \<Rightarrow> expr_lib \<Rightarrow> flow_node \<Rightarrow> step_result handler" where
  "start_function env lib step =
     (case get_function_ref step of
        Inl e \<Rightarrow> h_throw e
      | Inr function_ref \<Rightarrow>
          let identity = (case get_string_property step ''execution_identity'' of Some s \<Rightarrow> s | None \<Rightarrow> ''agent'') in
          h_bind h_context (\<lambda>c.
          let caller = caller_of c in
          h_bind (h_call (ValidatePermission identity ''execute'' function_ref caller)
            (\<lambda>h. on_validate_permission env h identity ''execute'' function_ref caller)) (\<lambda>has_permission.
          if \<not> has_permission then
            h_bind (audit env ''permission_denied'' (JObject [(''step_id'', JString (fn_id step)),
              (''function_ref'', JString function_ref), (''identity_mode'', JString identity), (''caller_id'', json_opt_str caller),
              (''operation'', JString ''execute'')])) (\<lambda>_.
            h_throw (PermissionDenied (''Execution identity '' @ quoted identity
              @ '' does not have permission to execute function '' @ quoted function_ref)))
          else
            h_bind (audit env ''function_execution_started'' (JObject [(''step_id'', JString (fn_id step)),
              (''function_ref'', JString function_ref), (''identity_mode'', JString identity), (''caller_id'', json_opt_str caller),
              (''instance_id'', JString (fc_instance_id c))])) (\<lambda>_.
            queue_function env lib step function_ref))))"

definition execute_function_step :: "flow_env \<Rightarrow> expr_lib \<Rightarrow> flow_node \<Rightarrow> step_result handler" where
  "execute_function_step env lib step =
     h_bind (h_take ''__function_result'') (\<lambda>found.
     case found of
       Some result \<Rightarrow> finish_function env lib step result
     | None \<Rightarrow> start_function env lib step)"

section \<open>Sub-flows\<close>

text \<open>The legacy reference \<open>$name\<close> or \<open>$.name\<close> of an input mapping.\<close>

definition legacy_reference :: "json \<Rightarrow> string option" where
  "legacy_reference source_expr =
     (case source_expr of
        JString s \<Rightarrow> if prefix ''$'' s \<and> \<not> prefix ''${'' s then Some (var_name_of s) else None
      | _ \<Rightarrow> None)"

fun map_child_input ::
  "expr_lib \<Rightarrow> flow_context \<Rightarrow> (string \<times> json) list \<Rightarrow> (string, json) hash_map \<Rightarrow> json flow_outcome" where
  "map_child_input lib c [] child_input = FlowOk (JObject child_input)"
| "map_child_input lib c ((target_key, source_expr) # m) child_input =
     (case legacy_reference source_expr of
        Some var_name \<Rightarrow>
          (case hm_get (fc_variables c) var_name of
             Some v \<Rightarrow> map_child_input lib c m (hm_insert target_key v child_input)
           | None \<Rightarrow> map_child_input lib c m child_input)
      | None \<Rightarrow>
          fo_bind (data_map lib c source_expr) (\<lambda>v. map_child_input lib c m (hm_insert target_key v child_input)))"

definition default_child_input :: "flow_context \<Rightarrow> json" where
  "default_child_input c =
     JObject (fold (\<lambda>(k, v). hm_insert k v) (fc_variables c)
       (fold (\<lambda>(k, v). hm_insert k v) (case as_object (fc_input c) of Some m \<Rightarrow> m | None \<Rightarrow> []) []))"

definition build_child_input :: "expr_lib \<Rightarrow> flow_node \<Rightarrow> flow_context \<Rightarrow> json flow_outcome" where
  "build_child_input lib step c =
     (case get_object step ''input_mapping'' of
        Some mapping_obj \<Rightarrow> map_child_input lib c mapping_obj []
      | None \<Rightarrow>
          (case get_property step ''input'' of
             Some v \<Rightarrow> data_map lib c v
           | None \<Rightarrow> FlowOk (default_child_input c)))"

definition child_outcome :: "flow_node \<Rightarrow> json \<Rightarrow> step_result" where
  "child_outcome step result =
     (if Option.bind (jget ''status'' result) json_as_str = Some ''completed'' then
        Continue (next_or_end step) (case jget ''output'' result of Some v \<Rightarrow> v | None \<Rightarrow> JNull)
      else
        StepError (ChildFlowError (''Sub-flow ''
          @ quoted (case Option.bind (jget ''child_instance_id'' result) json_as_str of Some s \<Rightarrow> s | None \<Rightarrow> [])
          @ '' failed: ''
          @ (case Option.bind (jget ''error'' result) json_as_str of Some s \<Rightarrow> s | None \<Rightarrow> ''sub-flow failed''))))"

definition sub_flow_payload :: "flow_node \<Rightarrow> flow_context \<Rightarrow> string \<Rightarrow> json \<Rightarrow> json" where
  "sub_flow_payload step c flow_ref child_input =
     JObject ([(''flow_path'', JString flow_ref), (''input'', child_input), (''parent_instance_id'', JString (fc_instance_id c)),
         (''parent_step_id'', JString (fn_id step))]
       @ (if get_bool_property step ''async'' = Some True then [] else [(''sync_mode'', JBool True)]))"

definition start_sub_flow :: "flow_env \<Rightarrow> expr_lib \<Rightarrow> flow_node \<Rightarrow> step_result handler" where
  "start_sub_flow env lib step =
     (case or_else (get_string_property step ''flow_ref'') (get_string_property step ''flow_path'') of
        None \<Rightarrow> h_throw (MissingProperty ''flow_ref or flow_path required for sub-flow step'')
      | Some flow_ref \<Rightarrow>
          h_bind h_context (\<lambda>c.
          h_bind (h_outcome (build_child_input lib step c)) (\<lambda>child_input.
          let payload = sub_flow_payload step c flow_ref child_input in
          h_bind (h_call (QueueJob ''flow_execution'' payload) (\<lambda>h. on_queue_job env h ''flow_execution'' payload)) (\<lambda>job_id.
          h_return (WaitFor ''sub_flow'' (JObject [(''job_id'', JString job_id), (''flow_ref'', JString flow_ref),
            (''wait_type'', JString ''sub_flow_completion'')]))))))"

definition child_completed :: "json \<Rightarrow> bool" where
  "child_completed result \<longleftrightarrow> Option.bind (jget ''child_completed'' result) as_bool = Some True"

definition execute_sub_flow :: "flow_env \<Rightarrow> expr_lib \<Rightarrow> flow_node \<Rightarrow> step_result handler" where
  "execute_sub_flow env lib step =
     h_bind (h_take ''__resume_data'') (\<lambda>found.
     case found of
       Some result \<Rightarrow>
         if child_completed result then h_return (child_outcome step result)
         else h_bind (h_modify (set_variable ''__resume_data'' result)) (\<lambda>_. start_sub_flow env lib step)
     | None \<Rightarrow> start_sub_flow env lib step)"

section \<open>Functions run with permission and are compensated once\<close>

lemma h_bind_call [simp]:
  "h_bind (h_call q answer) f c h = (case answer h of Inl e \<Rightarrow> (FlowOk (Inl e, c), q # h) | Inr a \<Rightarrow> f a c (q # h))"
  by (cases "answer h") (simp_all add: h_call_def h_bind_assoc)

lemma h_bind_now [simp]: "h_bind (h_now env) f c h = f (on_read_clock env h) c (ReadClock # h)"
  by (simp add: h_now_def)

lemma h_bind_audit [simp]: "h_bind (audit env event details) f c h = f () c (AuditLog event details # h)"
  by (simp add: audit_def h_bind_assoc)

lemma remove_variable_idem [simp]: "remove_variable k (remove_variable k c) = remove_variable k c"
  by (simp add: remove_variable_def AList.delete_idem)

lemma no_flow_stamp [simp]: "jget ''__raisin_flow'' (without_flow_context v) = None"
  by (cases v) (simp_all add: without_flow_context_def hm_simps)

lemma function_payload_fields [simp]:
  "jget ''function_path'' (function_payload step c f args) = Some (JString f)"
  "jget ''arguments'' (function_payload step c f args) = Some args"
  by (simp_all add: function_payload_def)

lemma finish_function_calls: "\<exists>r new. finish_function env lib step result c h = (r, new @ h) \<and> set new \<subseteq> {ReadClock}"
proof -
  have "\<exists>r new. push_compensation_after_success env lib step out c h = (r, new @ h) \<and> set new \<subseteq> {ReadClock}" for out
    unfolding push_compensation_after_success_def
    by (cases "get_string_property step ''compensation_ref''"; cases "compensation_input_of lib step c out") auto
  from this [of "case jget ''result'' result of Some v \<Rightarrow> v | None \<Rightarrow> JNull"] obtain r new where
    "push_compensation_after_success env lib step (case jget ''result'' result of Some v \<Rightarrow> v | None \<Rightarrow> JNull) c h = (r, new @ h)"
    "set new \<subseteq> {ReadClock}" by blast
  then show ?thesis
    unfolding finish_function_def Let_def h_bind_def fl_bind_def
    by (auto simp: fl_return_def intro!: exI [of _ new] split: prod.splits flow_outcome.splits sum.splits)
qed

definition queued_properly :: "flow_env \<Rightarrow> flow_node \<Rightarrow> history \<Rightarrow> flow_call \<Rightarrow> bool" where
  "queued_properly env step h q =
     (case q of
        QueueJob job payload \<Rightarrow>
          job = ''function_execution'' \<and>
          (\<exists>identity caller f args. get_function_ref step = Inr f \<and> on_validate_permission env h identity ''execute'' f caller = Inr True \<and>
             jget ''function_path'' payload = Some (JString f) \<and> jget ''arguments'' payload = Some args \<and> jget ''__raisin_flow'' args = None)
      | _ \<Rightarrow> True)"

lemma queue_function_calls:
  "\<exists>r new. queue_function env lib step f c h = (r, new @ h) \<and>
    (\<forall>q \<in> set new. \<exists>args. q = QueueJob ''function_execution'' (function_payload step c f (without_flow_context args))) \<and> length new \<le> 1"
proof (cases "build_arguments lib step c")
  case (FlowOk args)
  let ?p = "function_payload step c f (without_flow_context args)"
  show ?thesis using FlowOk
    by (cases "on_queue_job env h ''function_execution'' ?p") (auto simp: queue_function_def Let_def intro!: exI [of _ "[QueueJob ''function_execution'' ?p]"])
qed (auto simp: queue_function_def)

lemma start_function_calls:
  "\<exists>r new. start_function env lib step c h = (r, new @ h) \<and> list_all (queued_properly env step h) new"
proof (cases "get_function_ref step")
  case (Inl e)
  then show ?thesis by (simp add: start_function_def)
next
  case (Inr f)
  define identity where "identity = (case get_string_property step ''execution_identity'' of Some s \<Rightarrow> s | None \<Rightarrow> ''agent'')"
  let ?v = "ValidatePermission identity ''execute'' f (caller_of c)"
  have plain: "queued_properly env step h ?v" "queued_properly env step h (AuditLog ev d)" for ev d by (simp_all add: queued_properly_def)
  show ?thesis
  proof (cases "on_validate_permission env h identity ''execute'' f (caller_of c)")
    case (Inl e)
    then show ?thesis by (auto simp: start_function_def Inr Let_def plain simp flip: identity_def intro!: exI [of _ "[?v]"])
  next
    case (Inr b)
    show ?thesis
    proof (cases b)
      case False
      then show ?thesis using Inr \<open>get_function_ref step = Inr f\<close>
        by (auto simp: start_function_def Let_def plain simp flip: identity_def intro!: exI [of _ "[AuditLog _ _, ?v]"])
    next
      case True
      let ?a = "AuditLog ''function_execution_started'' (JObject [(''step_id'', JString (fn_id step)), (''function_ref'', JString f),
        (''identity_mode'', JString identity), (''caller_id'', json_opt_str (caller_of c)), (''instance_id'', JString (fc_instance_id c))])"
      obtain r new where q: "queue_function env lib step f c (?a # ?v # h) = (r, new @ ?a # ?v # h)"
          "\<forall>q \<in> set new. \<exists>args. q = QueueJob ''function_execution'' (function_payload step c f (without_flow_context args))"
        using queue_function_calls [of env lib step f c "?a # ?v # h"] by blast
      have "queued_properly env step h (QueueJob ''function_execution'' (function_payload step c f (without_flow_context args)))" for args
        using Inr True \<open>get_function_ref step = Inr f\<close> by (auto simp: queued_properly_def)
      then have "list_all (queued_properly env step h) (new @ [?a, ?v])" using q(2) plain by (auto simp: list_all_iff)
      moreover have "start_function env lib step c h = (r, (new @ [?a, ?v]) @ h)"
        using q(1) Inr True \<open>get_function_ref step = Inr f\<close> by (simp add: start_function_def Let_def flip: identity_def)
      ultimately show ?thesis by blast
    qed
  qed
qed

text \<open>An environment in which every call succeeds.\<close>

definition demo_env :: flow_env where
  "demo_env = \<lparr>on_load_instance = \<lambda>_ _. Inl (Other []), on_save_instance = \<lambda>_ _. Inr (), on_save_instance_with_version = \<lambda>_ _ _. Inr (),
     on_emit_event = \<lambda>_ _ _. Inr (), on_queue_job = \<lambda>_ _ _. Inr ''job'', on_queue_job_at = \<lambda>_ _ _ _. Inr ''job'',
     on_execute_function = \<lambda>_ _ _. Inr JNull, on_patch_node = \<lambda>_ _ _ _. Inr JNull, on_current_branch = \<lambda>_. Inr ''main'',
     on_create_branch = \<lambda>_ _ _. Inr JNull, on_switch_branch = \<lambda>_ _. Inr (), on_delete_branch = \<lambda>_ _. Inr (),
     on_has_merge_conflicts = \<lambda>_ _ _. Inr False, on_merge_branch = \<lambda>_ _ _. Inr JNull,
     on_run_handler = \<lambda>_ _ c. (Inr (Complete JNull), c), on_read_clock = \<lambda>_. 0, on_read_timer = \<lambda>_. 0, on_new_uuid = \<lambda>_. [],
     on_validate_permission = \<lambda>_ _ _ _ _. Inr True, on_audit_log = \<lambda>_ _ _. Inr (),
     add_millis = \<lambda>t ms. Some (t + ms * 1000000), to_rfc3339 = \<lambda>_. [], display_datetime = \<lambda>_. [], str_to_lowercase = id,
     str_trim = id, custom_type_name = id, parse_trigger_info = Some, parse_definition = \<lambda>_. Inl (Other [])\<rparr>"


text \<open>
  A function that has succeeded is lost to compensation when the mapping of its compensation fails to evaluate. The step fails, nothing is
  pushed on the compensation stack, and the result of the function is gone from the context, so that a retry of the step
  asks for permission and queues the function a second time.
\<close>

theorem compensation_lost_on_mapping_error:
  assumes "hm_get (fc_variables c) ''__function_result'' = Some result" "jget ''success'' result = Some (JBool True)"
    and "jget ''result'' result = Some out" "get_string_property step ''compensation_ref'' = Some comp_fn"
    and "compensation_input_of lib step (remove_variable ''__function_result'' c) out = FlowErr e"
  shows "\<exists>c'. execute_function_step env lib step c h = (FlowOk (Inl e, c'), h) \<and> fc_compensation_stack c' = fc_compensation_stack c \<and>
    execute_function_step env lib step c' h' = start_function env lib step c' h'"
proof -
  let ?c = "remove_variable ''__function_result'' c"
  have "execute_function_step env lib step c h = (FlowOk (Inl e, ?c), h)"
    using assms by (simp add: execute_function_step_def finish_function_def push_compensation_after_success_def h_bind_assoc)
  moreover have "fc_compensation_stack ?c = fc_compensation_stack c" by (simp add: remove_variable_def)
  moreover have "execute_function_step env lib step ?c h' = start_function env lib step ?c h'" by (simp add: execute_function_step_def)
  ultimately show ?thesis by blast
qed

text \<open>A success whose mapping evaluates registers one pending compensation, on top of the stack.\<close>

lemma function_success_compensated:
  assumes "hm_get (fc_variables c) ''__function_result'' = Some result" "jget ''success'' result = Some (JBool True)"
    and "jget ''result'' result = Some out" "get_string_property step ''compensation_ref'' = Some comp_fn"
    and "compensation_input_of lib step (remove_variable ''__function_result'' c) out = FlowOk inp"
  shows "\<exists>c'. execute_function_step env lib step c h = (FlowOk (Inr (Continue (next_or_end step) out), c'), ReadClock # h) \<and>
    fc_compensation_stack c' = fc_compensation_stack c @ [compensation_new (on_read_clock env h) (fn_id step) comp_fn (without_flow_context inp)]"
  using assms by (simp add: execute_function_step_def finish_function_def push_compensation_after_success_def h_bind_assoc remove_variable_def)

definition demo_charge :: flow_node where
  "demo_charge = FlowNode ''charge'' FunctionStep [(''function_ref'', JString ''/f''), (''compensation_ref'', JString ''/g''),
     (''compensation_input_mapping'', JObject [(''id'', JString ''${gone}'')])] [] None"

definition demo_charged :: flow_context where
  "demo_charged = demo_context\<lparr>fc_variables := [(''__function_result'', JObject [(''success'', JBool True), (''result'', JNull)])]\<rparr>"

lemma demo_mapping_fails:
  "\<exists>e. compensation_input_of demo_lib demo_charge (remove_variable ''__function_result'' demo_charged) JNull = FlowErr e"
proof -
  let ?c = "(remove_variable ''__function_result'' demo_charged)\<lparr>fc_current_output := Some JNull\<rparr>"
  have "ctx_to_json ?c = JObject [(''input'', JString ''Ann''), (''output'', JNull)]"
    by (simp add: ctx_to_json_def demo_charged_def demo_context_def remove_variable_def insert_some_def)
  then have "\<exists>e. evaluate_expression demo_lib ?c ''gone'' = FlowErr e"
    by (simp add: evaluate_expression_def ctx_from_json_def rel_eval_def demo_parse eval_variable_def ctx_get_def ctx_set_def ok_or_def)
  moreover have "tokenize demo_lib ''${gone}'' = [SegExpr ''gone'']"
    using tokenize_render [of demo_lib "[(SegExpr ''gone'', True)]"] by (simp add: brace_free_def demo_lib_def)
  ultimately show ?thesis
    by (auto simp: compensation_input_of_def get_object_def get_property_def demo_charge_def resolve_string_def has_marker_def
        is_expr_def blank_or_expr_def)
qed

theorem compensation_lost_on_mapping_error_witness:
  "\<exists>e c'. execute_function_step demo_env demo_lib demo_charge demo_charged [] = (FlowOk (Inl e, c'), []) \<and> fc_compensation_stack c' = [] \<and>
    execute_function_step demo_env demo_lib demo_charge c' [] = start_function demo_env demo_lib demo_charge c' []"
proof -
  obtain e where e: "compensation_input_of demo_lib demo_charge (remove_variable ''__function_result'' demo_charged) JNull = FlowErr e"
    using demo_mapping_fails by blast
  have f: "hm_get (fc_variables demo_charged) ''__function_result'' = Some (JObject [(''success'', JBool True), (''result'', JNull)])"
    "get_string_property demo_charge ''compensation_ref'' = Some ''/g''" "fc_compensation_stack demo_charged = []"
    by (simp_all add: demo_charged_def demo_charge_def get_string_property_def get_property_def demo_context_def)
  from compensation_lost_on_mapping_error [OF f(1) _ _ f(2) e, of demo_env "[]" "[]"] f(3) show ?thesis by auto
qed

end
