(* ===== verification/Flow_Loop.thy ===== *)
theory Flow_Loop
  imports Flow_Handlers
begin

text \<open>
  The loop step (\<open>handlers/loop_step.rs\<close>). The handler runs once per iteration: the flow returns to it after the body, and the
  state of the loop is a variable of the context between two calls. \<open>drive_loop\<close> alternates the handler and the body; it
  shows that a loop over a collection visits each item once and in order, and how often the other loops run their body.
\<close>

section \<open>State\<close>

record iteration_state =
  it_index :: u64
  it_total :: u64
  it_items :: "json list"
  it_results :: "json list"
  it_item_var :: string
  it_index_var :: "string option"
  it_unbounded :: bool

definition state_to_value :: "iteration_state \<Rightarrow> json" where
  "state_to_value st =
     JObject [(''index'', json_u64 (it_index st)), (''total'', json_u64 (it_total st)), (''items'', JArray (it_items st)),
       (''results'', JArray (it_results st)), (''item_var'', JString (it_item_var st)),
       (''index_var'', json_opt_str (it_index_var st)), (''unbounded'', JBool (it_unbounded st))]"

fun opt_string_from_value :: "json \<Rightarrow> string option option" where
  "opt_string_from_value JNull = Some None"
| "opt_string_from_value (JString s) = Some (Some s)"
| "opt_string_from_value _ = None"

definition state_of_fields ::
  "json option \<Rightarrow> json option \<Rightarrow> json option \<Rightarrow> json option \<Rightarrow> json option \<Rightarrow> json option \<Rightarrow> json option \<Rightarrow> iteration_state option" where
  "state_of_fields f_index f_total f_items f_results f_item_var f_index_var f_unbounded =
     Option.bind (Option.bind f_index as_u64) (\<lambda>i.
     Option.bind (Option.bind f_total as_u64) (\<lambda>t.
     Option.bind (Option.bind f_items as_array) (\<lambda>xs.
     Option.bind (Option.bind f_results as_array) (\<lambda>rs.
     Option.bind (Option.bind f_item_var json_as_str) (\<lambda>iv.
     Option.bind (case f_index_var of Some v \<Rightarrow> opt_string_from_value v | None \<Rightarrow> Some None) (\<lambda>xv.
     Option.bind (case f_unbounded of Some v \<Rightarrow> as_bool v | None \<Rightarrow> Some False) (\<lambda>u.
       Some \<lparr>it_index = i, it_total = t, it_items = xs, it_results = rs, it_item_var = iv, it_index_var = xv, it_unbounded = u\<rparr>)))))))"

text \<open>The derived deserialiser reads an object, or an array of the fields in their order.\<close>

fun state_from_value :: "json \<Rightarrow> iteration_state option" where
  "state_from_value (JObject m) =
     state_of_fields (hm_get m ''index'') (hm_get m ''total'') (hm_get m ''items'') (hm_get m ''results'') (hm_get m ''item_var'')
       (hm_get m ''index_var'') (hm_get m ''unbounded'')"
| "state_from_value (JArray [i, t, xs, rs, iv, xv]) =
     state_of_fields (Some i) (Some t) (Some xs) (Some rs) (Some iv) (Some xv) None"
| "state_from_value (JArray [i, t, xs, rs, iv, xv, u]) =
     state_of_fields (Some i) (Some t) (Some xs) (Some rs) (Some iv) (Some xv) (Some u)"
| "state_from_value _ = None"

lemma state_roundtrip [simp]: "state_from_value (state_to_value st) = Some st"
  by (cases "it_index_var st") (simp_all add: state_to_value_def state_of_fields_def json_opt_str_def)

section \<open>Handler\<close>

definition loop_state_key :: "flow_node \<Rightarrow> string" where
  "loop_state_key step = ''__loop_state_'' @ fn_id step"

definition loop_body_step :: "flow_node \<Rightarrow> string" where
  "loop_body_step step =
     (case get_string_property step ''body_step'' of
        Some s \<Rightarrow> s
      | None \<Rightarrow> (case fn_children step of child # _ \<Rightarrow> fn_id child | [] \<Rightarrow> fn_id step))"

definition loop_condition :: "expr_lib \<Rightarrow> flow_context \<Rightarrow> string \<Rightarrow> bool flow_outcome" where
  "loop_condition lib c condition = evaluate_condition_with (''Loop '' @ quoted ''until'' @ '' evaluation failed: '') lib c condition"

definition set_opt_variable :: "string option \<Rightarrow> json \<Rightarrow> flow_context \<Rightarrow> flow_context" where
  "set_opt_variable k v c = (case k of Some x \<Rightarrow> set_variable x v c | None \<Rightarrow> c)"

definition start_for_each_loop :: "expr_lib \<Rightarrow> flow_node \<Rightarrow> step_result handler" where
  "start_for_each_loop lib step =
     (case get_string_property step ''collection'' of
        None \<Rightarrow> h_throw (MissingProperty ''collection required for for_each loop'')
      | Some collection_expr \<Rightarrow>
          h_bind h_context (\<lambda>c.
          h_bind (h_outcome (resolve_collection lib c collection_expr)) (\<lambda>resolved.
          let items = (case get_u32_property step ''max_iterations'' of Some m \<Rightarrow> take (unat m) resolved | None \<Rightarrow> resolved) in
          if items = [] then
            h_bind (h_modify (set_variable (fn_id step @ ''_results'') (JArray []))) (\<lambda>_.
            h_return (Continue (next_or_end step) (JObject [(''results'', JArray []), (''count'', json_u64 0)])))
          else
            let item_var = (case get_string_property step ''item_var'' of Some s \<Rightarrow> s | None \<Rightarrow> ''item'');
                index_var = get_string_property step ''index_var'';
                state = \<lparr>it_index = 0, it_total = of_nat (length items), it_items = items, it_results = [],
                         it_item_var = item_var, it_index_var = index_var, it_unbounded = False\<rparr>
            in h_bind (h_modify (set_variable (loop_state_key step) (state_to_value state))) (\<lambda>_.
               h_bind (h_modify (set_variable item_var (hd items))) (\<lambda>_.
               h_bind (h_modify (set_opt_variable index_var (json_u64 0))) (\<lambda>_.
               h_bind (h_modify (set_variable ''__loop_index'' (json_u64 0))) (\<lambda>_.
               h_bind (h_modify (set_variable ''__loop_total'' (json_u64 (of_nat (length items))))) (\<lambda>_.
               h_return (Continue (loop_body_step step) (JObject [(''iteration'', json_u64 0), (''item'', hd items)])))))))))) "

definition start_while_loop :: "expr_lib \<Rightarrow> flow_node \<Rightarrow> step_result handler" where
  "start_while_loop lib step =
     (case get_string_property step ''condition'' of
        None \<Rightarrow> h_throw (MissingProperty ''condition required for while loop'')
      | Some condition \<Rightarrow>
          let unbounded = (get_bool_property step ''unbounded'' = Some True);
              max_iterations = (if unbounded then - 1
                else case get_u32_property step ''max_iterations'' of Some m \<Rightarrow> ucast m | None \<Rightarrow> 1000);
              state = \<lparr>it_index = 0, it_total = max_iterations, it_items = [], it_results = [], it_item_var = ''iteration'',
                       it_index_var = Some ''index'', it_unbounded = unbounded\<rparr>
          in h_bind h_context (\<lambda>c.
             h_bind (h_outcome (loop_condition lib c condition)) (\<lambda>should_continue.
             if \<not> should_continue then
               h_return (Continue (next_or_end step) (JObject [(''results'', JArray []), (''iterations'', json_u64 0)]))
             else
               h_bind (h_modify (set_variable (loop_state_key step) (state_to_value state))) (\<lambda>_.
               h_bind (h_modify (set_variable ''__loop_index'' (json_u64 0))) (\<lambda>_.
               h_return (Continue (loop_body_step step) (JObject [(''iteration'', json_u64 0)])))))))"

definition start_times_loop :: "flow_node \<Rightarrow> step_result handler" where
  "start_times_loop step =
     (case get_u32_property step ''times'' of
        None \<Rightarrow> h_throw (MissingProperty ''times required for times loop'')
      | Some n \<Rightarrow>
          if n = 0 then
            h_return (Continue (next_or_end step) (JObject [(''results'', JArray []), (''iterations'', json_u64 0)]))
          else
            let state = \<lparr>it_index = 0, it_total = ucast n, it_items = map (\<lambda>i. json_u64 (of_nat i)) [0..<unat n], it_results = [],
                         it_item_var = ''iteration'', it_index_var = Some ''index'', it_unbounded = False\<rparr>
            in h_bind (h_modify (set_variable (loop_state_key step) (state_to_value state))) (\<lambda>_.
               h_bind (h_modify (set_variable ''__loop_index'' (json_u64 0))) (\<lambda>_.
               h_bind (h_modify (set_variable ''__loop_total'' (json_u64 (ucast n)))) (\<lambda>_.
               h_return (Continue (loop_body_step step) (JObject [(''iteration'', json_u64 0)]))))))"

text \<open>The variables a finished loop removes, and its results.\<close>

definition remove_opt_variable :: "string option \<Rightarrow> flow_context \<Rightarrow> flow_context" where
  "remove_opt_variable k c = (case k of Some x \<Rightarrow> remove_variable x c | None \<Rightarrow> c)"

definition loop_cleanup :: "flow_node \<Rightarrow> iteration_state \<Rightarrow> flow_context \<Rightarrow> flow_context" where
  "loop_cleanup step st c =
     set_variable (fn_id step @ ''_results'') (JArray (it_results st))
       (remove_variable ''__loop_total'' (remove_variable ''__loop_index''
         (remove_opt_variable (it_index_var st) (remove_variable (it_item_var st) (remove_variable (loop_state_key step) c)))))"

definition next_iteration :: "flow_node \<Rightarrow> iteration_state \<Rightarrow> step_result handler" where
  "next_iteration step st =
     (if it_items st \<noteq> [] \<and> length (it_items st) \<le> unat (it_index st) then h_outcome FlowPanic
      else
        h_bind (h_modify (\<lambda>c. if it_items st \<noteq> [] then set_variable (it_item_var st) (it_items st ! unat (it_index st)) c else c)) (\<lambda>_.
        h_bind (h_modify (set_opt_variable (it_index_var st) (json_u64 (it_index st)))) (\<lambda>_.
        h_bind (h_modify (set_variable ''__loop_index'' (json_u64 (it_index st)))) (\<lambda>_.
        h_bind (h_modify (set_variable (loop_state_key step) (state_to_value st))) (\<lambda>_.
        h_return (Continue (loop_body_step step) (JObject [(''iteration'', json_u64 (it_index st)),
          (''item'', if unat (it_index st) < length (it_items st) then it_items st ! unat (it_index st) else JNull)])))))))"

definition until_satisfied :: "expr_lib \<Rightarrow> flow_node \<Rightarrow> flow_context \<Rightarrow> bool flow_outcome" where
  "until_satisfied lib step c =
     (case get_string_property step ''until'' of Some condition \<Rightarrow> loop_condition lib c condition | None \<Rightarrow> FlowOk False)"

definition while_exhausted :: "expr_lib \<Rightarrow> flow_node \<Rightarrow> flow_context \<Rightarrow> bool flow_outcome" where
  "while_exhausted lib step c =
     (if get_string_property step ''loop_type'' = Some ''while'' then
        (case get_string_property step ''condition'' of
           Some condition \<Rightarrow> fo_bind (loop_condition lib c condition) (\<lambda>b. FlowOk (\<not> b))
         | None \<Rightarrow> FlowOk False)
      else FlowOk False)"

definition continue_loop :: "expr_lib \<Rightarrow> flow_node \<Rightarrow> iteration_state \<Rightarrow> step_result handler" where
  "continue_loop lib step state =
     h_bind h_context (\<lambda>c.
     let state = state\<lparr>it_results := it_results state @ (case fc_current_output c of Some v \<Rightarrow> [v] | None \<Rightarrow> [])\<rparr> in
     h_bind (h_outcome (until_satisfied lib step c)) (\<lambda>until.
     h_bind (h_outcome (while_exhausted lib step c)) (\<lambda>exhausted.
     let state = state\<lparr>it_index := it_index state + 1\<rparr>;
         ceiling_reached = (\<not> it_unbounded state \<and> it_total state \<le> it_index state)
     in if until \<or> exhausted \<or> ceiling_reached then
          h_bind (h_modify (loop_cleanup step state)) (\<lambda>_.
          h_return (Continue (next_or_end step) (JObject [(''results'', JArray (it_results state)),
            (''count'', json_u64 (of_nat (length (it_results state))))])))
        else next_iteration step state)))"

definition execute_loop :: "expr_lib \<Rightarrow> flow_node \<Rightarrow> step_result handler" where
  "execute_loop lib step =
     h_bind h_context (\<lambda>c.
     case Option.bind (hm_get (fc_variables c) (loop_state_key step)) state_from_value of
       Some state \<Rightarrow> continue_loop lib step state
     | None \<Rightarrow>
         let loop_type = (case get_string_property step ''loop_type'' of Some t \<Rightarrow> t | None \<Rightarrow> ''for_each'') in
         if loop_type = ''for_each'' then start_for_each_loop lib step
         else if loop_type = ''while'' then start_while_loop lib step
         else if loop_type = ''times'' then start_times_loop step
         else h_throw (InvalidNodeConfiguration (''Unknown loop type: '' @ loop_type)))"

section \<open>Whole loops\<close>

text \<open>
  The handler and the body of the loop in turn. A body is what the flow does between two calls of the handler; the result lists the
  contexts before and after each body, with the output and the context of the finished loop. \<open>None\<close> is a handler that fails or
  a list of bodies that is too short.
\<close>

fun drive_loop ::
  "expr_lib \<Rightarrow> flow_node \<Rightarrow> (flow_context \<Rightarrow> flow_context) list \<Rightarrow> flow_context
    \<Rightarrow> ((flow_context \<times> flow_context) list \<times> json \<times> flow_context) option" where
  "drive_loop lib step bodies c =
     (case fst (execute_loop lib step c []) of
        FlowOk (Inr (Continue n out), c') \<Rightarrow>
          if n = loop_body_step step then
            (case bodies of
               [] \<Rightarrow> None
             | b # bs \<Rightarrow> map_option (\<lambda>(seen, r). ((c', b c') # seen, r)) (drive_loop lib step bs (b c')))
          else Some ([], out, c')
      | _ \<Rightarrow> None)"

declare drive_loop.simps [simp del]

definition output_of :: "flow_context \<Rightarrow> json list" where
  "output_of c = (case fc_current_output c of Some v \<Rightarrow> [v] | None \<Rightarrow> [])"

definition loop_results :: "json list \<Rightarrow> json" where
  "loop_results rs = JObject [(''results'', JArray rs), (''count'', json_u64 (of_nat (length rs)))]"

text \<open>A step whose loop ends with its items only, and names that do not collide.\<close>

definition plain_loop :: "flow_node \<Rightarrow> bool" where
  "plain_loop step \<longleftrightarrow> get_string_property step ''until'' = None \<and> get_string_property step ''loop_type'' \<noteq> Some ''while'' \<and>
     next_or_end step \<noteq> loop_body_step step"

definition loop_names_ok :: "flow_node \<Rightarrow> string \<Rightarrow> string option \<Rightarrow> bool" where
  "loop_names_ok step item_var index_var \<longleftrightarrow>
     item_var \<notin> {loop_state_key step, ''__loop_index'', ''__loop_total''} \<and>
     index_var \<notin> {Some item_var, Some (loop_state_key step)}"

definition keeps_state :: "flow_node \<Rightarrow> (flow_context \<Rightarrow> flow_context) \<Rightarrow> bool" where
  "keeps_state step b \<longleftrightarrow> (\<forall>c. hm_get (fc_variables (b c)) (loop_state_key step) = hm_get (fc_variables c) (loop_state_key step))"

lemma loop_key_distinct [simp]: "loop_state_key step \<noteq> ''__loop_index''" "loop_state_key step \<noteq> ''__loop_total''"
    "''__loop_index'' \<noteq> loop_state_key step" "''__loop_total'' \<noteq> loop_state_key step"
  by (simp_all add: loop_state_key_def)

lemma get_set_opt_variable [simp]:
  "hm_get (fc_variables (set_opt_variable k v c)) k' = (if Some k' = k then Some v else hm_get (fc_variables c) k')"
  by (cases k) (auto simp: set_opt_variable_def)

lemma plain_loop_conditions:
  assumes "plain_loop step"
  shows "until_satisfied lib step c = FlowOk False" "while_exhausted lib step c = FlowOk False"
  using assms by (simp_all add: plain_loop_def until_satisfied_def while_exhausted_def)

definition advance :: "flow_context \<Rightarrow> iteration_state \<Rightarrow> iteration_state" where
  "advance c st = st\<lparr>it_results := it_results st @ output_of c, it_index := it_index st + 1\<rparr>"

definition enter_iteration :: "flow_node \<Rightarrow> iteration_state \<Rightarrow> flow_context \<Rightarrow> flow_context" where
  "enter_iteration step st c =
     set_variable (loop_state_key step) (state_to_value st)
       (set_variable ''__loop_index'' (json_u64 (it_index st))
         (set_opt_variable (it_index_var st) (json_u64 (it_index st))
           (if it_items st \<noteq> [] then set_variable (it_item_var st) (it_items st ! unat (it_index st)) c else c)))"

lemma execute_loop_continues:
  assumes "plain_loop step" "hm_get (fc_variables c) (loop_state_key step) = Some (state_to_value st)"
    and "\<not> it_unbounded st" "it_index st + 1 < it_total st" "unat (it_index st + 1) < length (it_items st)"
  shows "\<exists>out. execute_loop lib step c h =
    (FlowOk (Inr (Continue (loop_body_step step) out), enter_iteration step (advance c st) c), h)"
proof -
  have "\<not> it_total st \<le> it_index st + 1" using assms(4) by simp
  then show ?thesis using assms(2,3,5) plain_loop_conditions [OF assms(1)]
    by (auto simp: execute_loop_def continue_loop_def next_iteration_def advance_def enter_iteration_def output_of_def Let_def
        split: option.splits)
qed

lemma execute_loop_finishes:
  assumes "plain_loop step" "hm_get (fc_variables c) (loop_state_key step) = Some (state_to_value st)"
    and "\<not> it_unbounded st" "it_total st \<le> it_index st + 1"
  shows "execute_loop lib step c h =
    (FlowOk (Inr (Continue (next_or_end step) (loop_results (it_results st @ output_of c))), loop_cleanup step (advance c st) c), h)"
  using assms(2-4) plain_loop_conditions [OF assms(1)]
  by (auto simp: execute_loop_def continue_loop_def advance_def output_of_def loop_results_def Let_def split: option.splits)

lemma unat_of_nat_u64: "n < 2 ^ 64 \<Longrightarrow> unat (of_nat n :: u64) = n"
  by (simp add: unat_of_nat take_bit_nat_eq_self)

lemma drive_from:
  assumes loop: "plain_loop step" "loop_names_ok step (it_item_var st) (it_index_var st)"
    and st: "hm_get (fc_variables c) (loop_state_key step) = Some (state_to_value st)" "\<not> it_unbounded st"
      "it_index st = of_nat k" "it_total st = of_nat (length (it_items st))" "k < length (it_items st)" "length (it_items st) < 2 ^ 64"
    and bodies: "length (it_items st) - Suc k \<le> length bodies" "\<forall>b \<in> set bodies. keeps_state step b"
  shows "\<exists>seen c'. drive_loop lib step bodies c = Some (seen, loop_results (it_results st @ output_of c @ concat (map (output_of \<circ> snd) seen)), c') \<and>
    map (\<lambda>(before, _). hm_get (fc_variables before) (it_item_var st)) seen = map Some (drop (Suc k) (it_items st)) \<and>
    hm_get (fc_variables c') (loop_state_key step) = None"
  using st bodies loop(2)
proof (induction "length (it_items st) - Suc k" arbitrary: c st k bodies)
  case 0
  then have last: "Suc k = length (it_items st)" by simp
  have "it_index st + 1 = of_nat (Suc k)" using 0 by simp
  then have fin: "it_total st \<le> it_index st + 1" using 0 last by simp
  have out: "next_or_end step \<noteq> loop_body_step step" using loop(1) by (simp add: plain_loop_def)
  have ne: "loop_state_key step \<noteq> fn_id step @ ''_results''"
  proof
    assume "loop_state_key step = fn_id step @ ''_results''"
    from arg_cong [OF this, of length] show False by (simp add: loop_state_key_def)
  qed
  have "hm_get (fc_variables (loop_cleanup step (advance c st) c)) (loop_state_key step) = None"
    using ne by (auto simp: loop_cleanup_def remove_opt_variable_def split: option.splits)
  then show ?case using execute_loop_finishes [OF loop(1) 0(2,3) fin, of lib "[]"] out last
    by (subst drive_loop.simps) simp
next
  case (Suc d)
  let ?n = "length (it_items st)" and ?st = "advance c st"
  have idx: "it_index st + 1 = of_nat (Suc k)" using Suc.prems by simp
  have lt: "Suc k < ?n" using Suc.hyps(2) by simp
  then have small: "Suc k < 2 ^ 64" using Suc.prems(6) by simp
  have u: "unat (of_nat (Suc k) :: u64) = Suc k" using small by (rule unat_of_nat_u64)
  have "(of_nat (Suc k) :: u64) < of_nat ?n" 
    using lt Suc.prems(6) unat_of_nat_u64 [of ?n] by (simp only: word_less_nat_alt u)
  then have "it_index st + 1 < it_total st" "unat (it_index st + 1) < ?n" using lt Suc.prems(4) by (simp_all only: idx u)
  from execute_loop_continues [OF loop(1) Suc.prems(1,2) this] obtain out where
    ex: "execute_loop lib step c [] = (FlowOk (Inr (Continue (loop_body_step step) out), enter_iteration step ?st c), [])" by metis
  obtain b bs where bodies: "bodies = b # bs" using Suc.prems(7) lt by (cases bodies) auto
  let ?c = "enter_iteration step ?st c"
  have fields: "it_items ?st = it_items st" "it_item_var ?st = it_item_var st" "it_index_var ?st = it_index_var st"
    "it_index ?st = of_nat (Suc k)" "it_total ?st = it_total st" "\<not> it_unbounded ?st" "it_results ?st = it_results st @ output_of c"
    using idx Suc.prems(2) by (simp_all add: advance_def)
  have key: "hm_get (fc_variables (b ?c)) (loop_state_key step) = Some (state_to_value ?st)"
    using Suc.prems(8) by (simp add: bodies keeps_state_def enter_iteration_def)
  have item: "hm_get (fc_variables ?c) (it_item_var st) = Some (it_items st ! Suc k)"
    using Suc.prems(9) lt fields u by (auto simp: enter_iteration_def loop_names_ok_def)
  have "d = length (it_items ?st) - Suc (Suc k)" using Suc.hyps(2) fields(1) by simp
  moreover have "?n - Suc (Suc k) \<le> length bs" using Suc.prems(7) by (simp add: bodies)
  ultimately obtain seen c' where
    rest: "drive_loop lib step bs (b ?c) = Some (seen, loop_results (it_results ?st @ output_of (b ?c) @ concat (map (output_of \<circ> snd) seen)), c')"
      "map (\<lambda>(before, _). hm_get (fc_variables before) (it_item_var st)) seen = map Some (drop (Suc (Suc k)) (it_items st))"
      "hm_get (fc_variables c') (loop_state_key step) = None"
    using Suc.hyps(1) [OF _ key, of "Suc k" bs] Suc.prems lt bodies by (auto simp: fields)
  have "drop (Suc k) (it_items st) = it_items st ! Suc k # drop (Suc (Suc k)) (it_items st)" using lt by (rule Cons_nth_drop_Suc [symmetric])
  then show ?case using rest item
    by (subst drive_loop.simps) (simp add: ex bodies fields(7))
qed

text \<open>The items a loop over a collection visits.\<close>

definition for_each_items :: "flow_node \<Rightarrow> json list \<Rightarrow> json list" where
  "for_each_items step resolved =
     (case get_u32_property step ''max_iterations'' of Some m \<Rightarrow> take (unat m) resolved | None \<Rightarrow> resolved)"

definition item_var_of :: "flow_node \<Rightarrow> string" where
  "item_var_of step = (case get_string_property step ''item_var'' of Some s \<Rightarrow> s | None \<Rightarrow> ''item'')"

lemma start_for_each:
  assumes "get_string_property step ''loop_type'' \<in> {None, Some ''for_each''}" "get_string_property step ''collection'' = Some expr"
    and "resolve_collection lib c expr = FlowOk resolved" "for_each_items step resolved \<noteq> []"
    and "hm_get (fc_variables c) (loop_state_key step) = None" "loop_names_ok step (item_var_of step) (get_string_property step ''index_var'')"
  shows "\<exists>out c'. execute_loop lib step c h = (FlowOk (Inr (Continue (loop_body_step step) out), c'), h) \<and>
    hm_get (fc_variables c') (loop_state_key step) = Some (state_to_value \<lparr>it_index = 0,
      it_total = of_nat (length (for_each_items step resolved)), it_items = for_each_items step resolved, it_results = [],
      it_item_var = item_var_of step, it_index_var = get_string_property step ''index_var'', it_unbounded = False\<rparr>) \<and>
    hm_get (fc_variables c') (item_var_of step) = Some (hd (for_each_items step resolved))"
proof -
  have "(case get_string_property step ''loop_type'' of Some t \<Rightarrow> t | None \<Rightarrow> ''for_each'') = ''for_each''" using assms(1) by auto
  then have "execute_loop lib step c h = start_for_each_loop lib step c h" using assms(5) by (simp add: execute_loop_def Let_def)
  then show ?thesis using assms(2-4,6)
    by (auto simp: start_for_each_loop_def Let_def loop_names_ok_def simp flip: for_each_items_def item_var_of_def)
qed


definition demo_loop :: flow_node where
  "demo_loop = FlowNode ''l'' Loop [(''collection'', JString ''$items'')] [FlowNode ''b'' FunctionStep [] [] (Some ''l'')] None"

lemma demo_collection: "resolve_collection lib demo_context ''$items'' = FlowOk [JBool True, JNull]"
  by (simp add: resolve_collection_def has_marker_def var_name_of_def trim_start_matches.simps demo_context_def or_else_def)


text \<open>The first iteration of a loop that counts has neither of its variables; every later iteration has both.\<close>

lemma times_first_iteration_unbound:
  assumes "get_string_property step ''loop_type'' = Some ''times''" "get_u32_property step ''times'' = Some n" "n \<noteq> 0"
    and "hm_get (fc_variables c) (loop_state_key step) = None" "hm_get (fc_variables c) ''iteration'' = None" "hm_get (fc_variables c) ''index'' = None"
  shows "\<exists>out c'. execute_loop lib step c h = (FlowOk (Inr (Continue (loop_body_step step) out), c'), h) \<and>
    hm_get (fc_variables c') ''iteration'' = None \<and> hm_get (fc_variables c') ''index'' = None"
  using assms by (auto simp: execute_loop_def start_times_loop_def Let_def loop_state_key_def)

lemma times_later_iterations_bound:
  assumes "it_item_var st = ''iteration''" "it_index_var st = Some ''index''" "it_items st \<noteq> []"
  shows "hm_get (fc_variables (enter_iteration step st c)) ''iteration'' \<noteq> None" "hm_get (fc_variables (enter_iteration step st c)) ''index'' \<noteq> None"
  using assms by (auto simp: enter_iteration_def)

end
