(* ===== verification/Flow_Parallel.thy ===== *)
theory Flow_Parallel
  imports Flow_Handlers
begin

text \<open>
  The parallel container (\<open>handlers/parallel/\<close>, \<open>types/parallel.rs\<close>): it forks one child flow per branch, collects the reports of the
  children as they arrive and joins them. The forked children and the reports are variables of the context between two
  calls of the handler.
\<close>

section \<open>Planning and forking\<close>

record planned_branch =
  pb_branch_id :: string
  pb_flow_path :: "string option"
  pb_flow_definition :: "json option"
  pb_input :: json

definition DEFAULT_MAX_BRANCHES :: nat where
  "DEFAULT_MAX_BRANCHES = 500"

definition plan_static_branch :: "expr_lib \<Rightarrow> flow_node \<Rightarrow> flow_context \<Rightarrow> nat \<Rightarrow> json \<Rightarrow> planned_branch flow_outcome" where
  "plan_static_branch lib step c index branch =
     (case as_object branch of
        None \<Rightarrow> FlowErr (InvalidNodeConfiguration (''Branch '' @ show_nat index @ '' in parallel container ''
          @ quoted (fn_id step) @ '' is not an object''))
      | Some branch_obj \<Rightarrow>
          let branch_id = (case Option.bind (hm_get branch_obj ''id'') json_as_str of Some s \<Rightarrow> s | None \<Rightarrow> ''branch-'' @ show_nat index);
              flow_path = Option.bind (hm_get branch_obj ''flow_path'') json_as_str;
              flow_definition = hm_get branch_obj ''flow_definition''
          in if flow_path = None \<and> flow_definition = None then
               FlowErr (MissingProperty (''Branch '' @ quoted branch_id @ '' missing flow_definition (or flow_path)''))
             else
               fo_bind (case hm_get branch_obj ''input_mapping'' of Some mapping \<Rightarrow> data_map lib c mapping | None \<Rightarrow> FlowOk (fc_input c)) (\<lambda>inp.
               FlowOk \<lparr>pb_branch_id = branch_id, pb_flow_path = flow_path, pb_flow_definition = flow_definition, pb_input = inp\<rparr>))"

fun plan_each :: "(nat \<Rightarrow> 'a \<Rightarrow> planned_branch flow_outcome) \<Rightarrow> nat \<Rightarrow> 'a list \<Rightarrow> planned_branch list flow_outcome" where
  "plan_each f i [] = FlowOk []"
| "plan_each f i (x # xs) = fo_bind (f i x) (\<lambda>b. fo_bind (plan_each f (Suc i) xs) (\<lambda>bs. FlowOk (b # bs)))"

definition plan_static_branches :: "expr_lib \<Rightarrow> flow_node \<Rightarrow> flow_context \<Rightarrow> planned_branch list flow_outcome" where
  "plan_static_branches lib step c =
     (case Option.bind (get_property step ''branches'') as_array of
        None \<Rightarrow> FlowErr (MissingProperty (''Parallel container '' @ quoted (fn_id step)
          @ '' missing required property: branches (or for_each)''))
      | Some branches \<Rightarrow> plan_each (plan_static_branch lib step c) 0 branches)"

definition resolved_string :: "flow_error \<Rightarrow> json \<Rightarrow> string flow_outcome" where
  "resolved_string e v = (case json_as_str v of Some s \<Rightarrow> FlowOk s | None \<Rightarrow> FlowErr e)"

definition plan_fan_out_branch ::
  "expr_lib \<Rightarrow> flow_node \<Rightarrow> flow_context \<Rightarrow> (string \<times> json) list \<Rightarrow> nat \<Rightarrow> json \<Rightarrow> planned_branch flow_outcome" where
  "plan_fan_out_branch lib step c template index item =
     (let item_context = set_variable ''index'' (json_u64 (of_nat index)) (set_variable ''item'' item c) in
      fo_bind
        (case hm_get template ''id'' of
           Some id_expr \<Rightarrow>
             fo_bind (data_map lib item_context id_expr) (resolved_string (InvalidNodeConfiguration
               (''Parallel container '' @ quoted (fn_id step) @ '' branch id did not resolve to a string'')))
         | None \<Rightarrow> FlowOk (fn_id step @ ''-'' @ show_nat index)) (\<lambda>branch_id.
      fo_bind
        (case hm_get template ''flow_path'' of
           Some path_expr \<Rightarrow>
             fo_bind (fo_bind (data_map lib item_context path_expr) (resolved_string (InvalidNodeConfiguration
               (''Parallel container '' @ quoted (fn_id step) @ '' branch flow_path did not resolve to a string''))))
               (\<lambda>p. FlowOk (Some p))
         | None \<Rightarrow> FlowOk None) (\<lambda>flow_path.
      if flow_path = None \<and> hm_get template ''flow_definition'' = None then
        FlowErr (MissingProperty (''Parallel container '' @ quoted (fn_id step) @ '' branch template needs flow_path or flow_definition''))
      else
        fo_bind (case hm_get template ''input_mapping'' of Some mapping \<Rightarrow> data_map lib item_context mapping | None \<Rightarrow> FlowOk item) (\<lambda>inp.
        FlowOk \<lparr>pb_branch_id = branch_id, pb_flow_path = flow_path, pb_flow_definition = hm_get template ''flow_definition'',
          pb_input = inp\<rparr>))))"

definition fan_out_limit :: "flow_node \<Rightarrow> nat" where
  "fan_out_limit step = (case get_u32_property step ''max_branches'' of Some m \<Rightarrow> unat m | None \<Rightarrow> DEFAULT_MAX_BRANCHES)"

definition plan_fan_out_branches :: "expr_lib \<Rightarrow> flow_node \<Rightarrow> flow_context \<Rightarrow> planned_branch list flow_outcome" where
  "plan_fan_out_branches lib step c =
     (case get_string_property step ''for_each'' of
        None \<Rightarrow> FlowErr (InvalidNodeConfiguration (''Parallel container '' @ quoted (fn_id step) @ '' property ''
          @ quoted ''for_each'' @ '' must be a collection expression string''))
      | Some for_each \<Rightarrow>
          fo_bind (resolve_collection lib c for_each) (\<lambda>resolved.
          let items = take (fan_out_limit step) resolved in
          case get_object step ''branch'' of
            None \<Rightarrow> FlowErr (MissingProperty (''Parallel container '' @ quoted (fn_id step)
              @ '' uses for_each but is missing the '' @ quoted ''branch'' @ '' template''))
          | Some template \<Rightarrow> plan_each (plan_fan_out_branch lib step c template) 0 items))"

definition child_flow_job :: "flow_node \<Rightarrow> flow_context \<Rightarrow> planned_branch \<Rightarrow> string \<times> json" where
  "child_flow_job step c branch =
     (case pb_flow_path branch of
        Some flow_path \<Rightarrow>
          (''flow_execution'', JObject [(''flow_path'', JString flow_path), (''input'', pb_input branch),
             (''parent_instance_id'', JString (fc_instance_id c)), (''parent_step_id'', JString (fn_id step)),
             (''branch_id'', JString (pb_branch_id branch))])
      | None \<Rightarrow>
          (''create_child_flow'', JObject [(''branch_id'', JString (pb_branch_id branch)),
             (''parent_instance_id'', JString (fc_instance_id c)), (''parent_step_id'', JString (fn_id step)),
             (''flow_definition'', case pb_flow_definition branch of Some d \<Rightarrow> d | None \<Rightarrow> JNull), (''input'', pb_input branch)]))"

definition WAIT_REASON_PARALLEL :: string where
  "WAIT_REASON_PARALLEL = ''parallel_branches''"

fun create_children :: "flow_env \<Rightarrow> flow_node \<Rightarrow> flow_context \<Rightarrow> planned_branch list \<Rightarrow> string list handler" where
  "create_children env step c [] = h_return []"
| "create_children env step c (branch # planned) =
     (case child_flow_job step c branch of (job_type, payload) \<Rightarrow>
        h_bind (h_try (QueueJob job_type payload) (\<lambda>h. on_queue_job env h job_type payload)) (\<lambda>queued.
        case queued of
          Inl e \<Rightarrow> h_throw (ChildFlowError (''Failed to create child flow for branch '' @ quoted (pb_branch_id branch) @ '': ''
            @ flow_error_to_string e))
        | Inr child_id \<Rightarrow> h_bind (create_children env step c planned) (\<lambda>ids. h_return (child_id # ids))))"

definition fork_branches :: "flow_env \<Rightarrow> expr_lib \<Rightarrow> flow_node \<Rightarrow> step_result handler" where
  "fork_branches env lib step =
     h_bind h_context (\<lambda>c.
     h_bind (h_outcome (if get_property step ''for_each'' \<noteq> None then plan_fan_out_branches lib step c else plan_static_branches lib step c)) (\<lambda>planned.
     if planned = [] then h_return (Continue (next_or_end step) (JObject []))
     else
       h_bind (create_children env step c planned) (\<lambda>child_flow_ids.
       h_return (WaitFor WAIT_REASON_PARALLEL (JObject [(''child_flow_ids'', JArray (map JString child_flow_ids)),
         (''branch_ids'', JArray (map (JString \<circ> pb_branch_id) planned)), (''step_id'', JString (fn_id step)),
         (''total_branches'', json_u64 (of_nat (length planned)))])))))"

section \<open>Joining\<close>

record child_flow_status =
  cs_branch_id :: string
  cs_instance_id :: string
  cs_status :: string
  cs_output :: "json option"
  cs_error :: "string option"

definition merge_output :: "json \<Rightarrow> flow_context \<Rightarrow> flow_context" where
  "merge_output out c =
     (case out of JObject m \<Rightarrow> c\<lparr>fc_variables := fold (\<lambda>(k, v). hm_insert k v) m (fc_variables c)\<rparr> | _ \<Rightarrow> c)"

definition json_opt :: "json option \<Rightarrow> json" where
  "json_opt x = (case x of Some v \<Rightarrow> v | None \<Rightarrow> JNull)"

definition branch_result :: "child_flow_status \<Rightarrow> (string \<times> json) list" where
  "branch_result s = [(''status'', JString (cs_status s)), (''output'', json_opt (cs_output s)), (''error'', json_opt_str (cs_error s))]"

definition ordered_entry :: "child_flow_status \<Rightarrow> json" where
  "ordered_entry s = JObject (hm_insert ''instance_id'' (JString (cs_instance_id s))
     (hm_insert ''branch_id'' (JString (cs_branch_id s)) (branch_result s)))"

definition merge_all_outputs :: "flow_node \<Rightarrow> child_flow_status list \<Rightarrow> step_result handler" where
  "merge_all_outputs step child_statuses =
     (let positional = fold (\<lambda>(i, s) m. hm_insert (''branch_'' @ show_nat i) (JObject (branch_result s)) m) (enumerate 0 child_statuses) [];
          merged = hm_insert ''branches'' (JArray (map ordered_entry child_statuses)) positional
      in h_bind (h_modify (fold (\<lambda>s c. case cs_output s of Some v \<Rightarrow> merge_output v c | None \<Rightarrow> c) child_statuses)) (\<lambda>_.
         h_return (Continue (next_or_end step) (JObject merged))))"

fun first_success_output :: "flow_node \<Rightarrow> child_flow_status list \<Rightarrow> step_result handler" where
  "first_success_output step [] = h_throw AllChildFlowsFailed"
| "first_success_output step (s # ss) =
     (case cs_output s of
        Some out \<Rightarrow>
          if cs_status s = ''completed'' then h_bind (h_modify (merge_output out)) (\<lambda>_. h_return (Continue (next_or_end step) out))
          else first_success_output step ss
      | None \<Rightarrow> first_success_output step ss)"

definition all_success_output :: "flow_node \<Rightarrow> child_flow_status list \<Rightarrow> step_result handler" where
  "all_success_output step child_statuses =
     (let failed_branches = filter (\<lambda>s. cs_status s = ''failed'') child_statuses in
      if failed_branches \<noteq> [] then
        h_throw (ParallelExecutionError (show_nat (length failed_branches) @ '' branches failed: ''
          @ str_join '', '' (List.map_filter cs_error failed_branches)))
      else merge_all_outputs step child_statuses)"

definition settled :: "child_flow_status \<Rightarrow> bool" where
  "settled s \<longleftrightarrow> cs_status s = ''completed'' \<or> cs_status s = ''failed''"

definition join_with_statuses :: "flow_node \<Rightarrow> string list \<Rightarrow> child_flow_status list \<Rightarrow> step_result handler" where
  "join_with_statuses step child_flow_ids child_statuses =
     (if \<not> list_all settled child_statuses then
        h_return (WaitFor WAIT_REASON_PARALLEL (JObject [(''child_flow_ids'', JArray (map JString child_flow_ids)), (''step_id'', JString (fn_id step)),
          (''pending_count'', json_u64 (of_nat (length (filter (\<lambda>s. cs_status s = ''running'' \<or> cs_status s = ''waiting'') child_statuses))))]))
      else
        let merge_strategy = (case get_string_property step ''merge_strategy'' of Some s \<Rightarrow> s | None \<Rightarrow> ''merge_all'') in
        if merge_strategy = ''merge_all'' then merge_all_outputs step child_statuses
        else if merge_strategy = ''first_success'' then first_success_output step child_statuses
        else if merge_strategy = ''all_success'' then all_success_output step child_statuses
        else h_throw (InvalidNodeConfiguration (''Unknown merge strategy: '' @ merge_strategy)))"

section \<open>The handler\<close>

definition forked_key :: "flow_node \<Rightarrow> string" where
  "forked_key step = ''__parallel_forked_'' @ fn_id step"

definition results_key :: "flow_node \<Rightarrow> string" where
  "results_key step = ''__parallel_results_'' @ fn_id step"

definition report_entry :: "json \<Rightarrow> json" where
  "report_entry result = JObject [(''branch_id'', json_opt (jget ''branch_id'' result)), (''status'', json_opt (jget ''status'' result)),
     (''output'', json_opt (jget ''output'' result)), (''error'', json_opt (jget ''error'' result))]"

definition reporting_child :: "json \<Rightarrow> string" where
  "reporting_child result =
     (case Option.bind (jget ''child_instance_id'' result) json_as_str of Some s \<Rightarrow> s | None \<Rightarrow> ''unknown'')"

definition results_so_far :: "flow_node \<Rightarrow> flow_context \<Rightarrow> json" where
  "results_so_far step c = (case hm_get (fc_variables c) (results_key step) of Some v \<Rightarrow> v | None \<Rightarrow> JObject [])"

definition collect_report :: "flow_node \<Rightarrow> json option \<Rightarrow> flow_context \<Rightarrow> flow_context" where
  "collect_report step found c =
     (case found of
        None \<Rightarrow> c
      | Some result \<Rightarrow>
          if child_completed result then
            set_variable (results_key step)
              (case results_so_far step c of
                 JObject m \<Rightarrow> JObject (hm_insert (reporting_child result) (report_entry result) m)
               | v \<Rightarrow> v) c
          else set_variable ''__resume_data'' result c)"

definition status_of :: "json \<Rightarrow> string \<Rightarrow> child_flow_status" where
  "status_of results child_id =
     (let r = json_opt (jget child_id results) in
      \<lparr>cs_branch_id = (case Option.bind (jget ''branch_id'' r) json_as_str of Some s \<Rightarrow> s | None \<Rightarrow> []),
       cs_instance_id = child_id,
       cs_status = (case Option.bind (jget ''status'' r) json_as_str of Some s \<Rightarrow> s | None \<Rightarrow> ''failed''),
       cs_output = (case jget ''output'' r of Some JNull \<Rightarrow> None | x \<Rightarrow> x),
       cs_error = Option.bind (jget ''error'' r) json_as_str\<rparr>)"

definition child_ids_of :: "json \<Rightarrow> string list" where
  "child_ids_of forked = (case forked of JArray xs \<Rightarrow> List.map_filter json_as_str xs | _ \<Rightarrow> [])"

definition join_or_wait :: "flow_node \<Rightarrow> json \<Rightarrow> step_result handler" where
  "join_or_wait step forked =
     h_bind h_context (\<lambda>c.
     let child_ids = child_ids_of forked;
         results = results_so_far step c;
         arrived = length (filter (\<lambda>i. jget i results \<noteq> None) child_ids)
     in if arrived < length child_ids then
          h_return (WaitFor WAIT_REASON_PARALLEL (JObject [(''child_flow_ids'', JArray (map JString child_ids)), (''step_id'', JString (fn_id step)),
            (''pending_count'', json_u64 (of_nat (length child_ids - arrived)))]))
        else
          h_bind (h_modify (\<lambda>c. remove_variable (results_key step) (remove_variable (forked_key step) c))) (\<lambda>_.
          join_with_statuses step child_ids (map (status_of results) child_ids)))"

definition fork_and_remember :: "flow_env \<Rightarrow> expr_lib \<Rightarrow> flow_node \<Rightarrow> step_result handler" where
  "fork_and_remember env lib step =
     h_bind (fork_branches env lib step) (\<lambda>result.
     h_bind (h_modify (\<lambda>c.
       case result of
         WaitFor _ metadata \<Rightarrow> (case jget ''child_flow_ids'' metadata of Some ids \<Rightarrow> set_variable (forked_key step) ids c | None \<Rightarrow> c)
       | _ \<Rightarrow> c)) (\<lambda>_. h_return result))"

definition execute_parallel :: "flow_env \<Rightarrow> expr_lib \<Rightarrow> flow_node \<Rightarrow> step_result handler" where
  "execute_parallel env lib step =
     h_bind (h_take ''__resume_data'') (\<lambda>found.
     h_bind (h_modify (collect_report step found)) (\<lambda>_.
     h_bind h_context (\<lambda>c.
     case hm_get (fc_variables c) (forked_key step) of
       Some forked \<Rightarrow> join_or_wait step forked
     | None \<Rightarrow> fork_and_remember env lib step)))"

section \<open>Arrival of the reports\<close>

text \<open>The calls of the handler that reports of children cause, one after the other.\<close>

fun run_reports ::
  "flow_env \<Rightarrow> expr_lib \<Rightarrow> flow_node \<Rightarrow> json list \<Rightarrow> flow_context \<Rightarrow> history
    \<Rightarrow> ((flow_error + step_result) \<times> flow_context) flow_outcome list" where
  "run_reports env lib step [] c h = []"
| "run_reports env lib step (p # ps) c h =
     (case execute_parallel env lib step (set_variable ''__resume_data'' p c) h of (r, h') \<Rightarrow>
        r # (case r of FlowOk (_, c') \<Rightarrow> run_reports env lib step ps c' h' | _ \<Rightarrow> []))"

definition reports :: "json list \<Rightarrow> (string \<times> json) list" where
  "reports ps = map (\<lambda>p. (reporting_child p, report_entry p)) ps"

definition child_status :: "json \<Rightarrow> child_flow_status" where
  "child_status p = status_of (JObject (reports [p])) (reporting_child p)"

definition is_wait :: "((flow_error + step_result) \<times> flow_context) flow_outcome \<Rightarrow> bool" where
  "is_wait r = (case r of FlowOk (Inr (WaitFor reason _), _) \<Rightarrow> reason = WAIT_REASON_PARALLEL | _ \<Rightarrow> False)"

lemma is_wait_WaitFor [simp]: "is_wait (FlowOk (Inr (WaitFor WAIT_REASON_PARALLEL md), c))"
  by (simp add: is_wait_def)

lemma keys_distinct [simp]: "forked_key step \<noteq> results_key step" "results_key step \<noteq> forked_key step"
  "forked_key step \<noteq> ''__resume_data''" "''__resume_data'' \<noteq> forked_key step" "results_key step \<noteq> ''__resume_data''" "''__resume_data'' \<noteq> results_key step"
  by (simp_all add: forked_key_def results_key_def)

lemma child_ids_of_forked [simp]: "child_ids_of (JArray (map JString ids)) = ids"
proof -
  have "List.map_filter json_as_str (map JString ids) = ids" by (induction ids) (simp_all add: List.map_filter_simps)
  then show ?thesis by (simp add: child_ids_of_def)
qed

lemma results_so_far_get: "results_so_far step c = (case hm_get (fc_variables c) (results_key step) of Some v \<Rightarrow> v | None \<Rightarrow> JObject [])"
  by (rule results_so_far_def)

text \<open>The context after the report \<open>p\<close> has been collected.\<close>

definition after_report :: "flow_node \<Rightarrow> json \<Rightarrow> flow_context \<Rightarrow> flow_context" where
  "after_report step p c = collect_report step (Some p) (remove_variable ''__resume_data'' (set_variable ''__resume_data'' p c))"

lemma after_report:
  assumes "child_completed p" "results_so_far step c = JObject m"
  shows "results_so_far step (after_report step p c) = JObject (hm_insert (reporting_child p) (report_entry p) m)"
    "k \<noteq> results_key step \<Longrightarrow> hm_get (fc_variables (after_report step p c)) k = (if k = ''__resume_data'' then None else hm_get (fc_variables c) k)"
  using assms by (auto simp: after_report_def collect_report_def results_so_far_get split: option.splits)

lemma execute_report:
  assumes "hm_get (fc_variables c) (forked_key step) = Some forked" "child_completed p" "results_so_far step c = JObject m"
  shows "execute_parallel env lib step (set_variable ''__resume_data'' p c) h = join_or_wait step forked (after_report step p c) h"
  using assms after_report(2) [OF assms(2,3), of "forked_key step"]
  by (simp add: execute_parallel_def) (simp add: after_report_def)

lemma join_or_wait_waits:
  assumes "results_so_far step c = JObject m" "\<exists>i \<in> set ids. hm_get m i = None"
  shows "\<exists>md. join_or_wait step (JArray (map JString ids)) c h = (FlowOk (Inr (WaitFor WAIT_REASON_PARALLEL md), c), h)"
proof -
  have "length (filter (\<lambda>i. hm_get m i \<noteq> None) ids) < length ids" using assms(2) length_filter_less [of _ ids "\<lambda>i. hm_get m i \<noteq> None"] by auto
  then show ?thesis using assms(1) by (simp add: join_or_wait_def Let_def)
qed

definition drop_bookkeeping :: "flow_node \<Rightarrow> flow_context \<Rightarrow> flow_context" where
  "drop_bookkeeping step c = remove_variable (results_key step) (remove_variable (forked_key step) c)"

lemma join_or_wait_joins:
  assumes "results_so_far step c = JObject m" "\<forall>i \<in> set ids. hm_get m i \<noteq> None"
  shows "join_or_wait step (JArray (map JString ids)) c h =
    join_with_statuses step ids (map (status_of (JObject m)) ids) (drop_bookkeeping step c) h"
proof -
  have "filter (\<lambda>i. hm_get m i \<noteq> None) ids = ids" using assms(2) by (auto intro: filter_True)
  then show ?thesis using assms(1) by (simp add: join_or_wait_def Let_def drop_bookkeeping_def)
qed

lemma status_of_cong: "hm_get m i = hm_get m' i \<Longrightarrow> status_of (JObject m) i = status_of (JObject m') i"
  by (simp add: status_of_def)

lemma reports_Cons:
  assumes "reporting_child p \<notin> reporting_child ` set qs"
  shows "hm_get (hm_insert (reporting_child p) (report_entry p) m) ++ hm_get (reports qs) = hm_get m ++ hm_get (reports (p # qs))"
proof -
  have "hm_get (reports qs) (reporting_child p) = None" using assms by (auto simp: reports_def map_of_eq_None_iff)
  then show ?thesis by (auto simp: reports_def hm_simps map_add_def fun_eq_iff split: option.splits)
qed

text \<open>What the context at the join keeps of the context \<open>c\<close> before the reports.\<close>

definition same_but_bookkeeping :: "flow_node \<Rightarrow> flow_context \<Rightarrow> flow_context \<Rightarrow> bool" where
  "same_but_bookkeeping step c c' \<longleftrightarrow>
     (\<forall>k. hm_get (fc_variables c') k =
       (if k \<in> {forked_key step, results_key step, ''__resume_data''} then None else hm_get (fc_variables c) k))"

lemma last_report:
  assumes "hm_get (fc_variables c) (forked_key step) = Some (JArray (map JString ids))" "results_so_far step c = JObject m"
    and "child_completed p" "set ids \<subseteq> insert (reporting_child p) (dom (hm_get m))"
  shows "execute_parallel env lib step (set_variable ''__resume_data'' p c) h =
      join_with_statuses step ids (map (status_of (JObject (hm_insert (reporting_child p) (report_entry p) m))) ids)
        (drop_bookkeeping step (after_report step p c)) h"
    and "same_but_bookkeeping step c (drop_bookkeeping step (after_report step p c))"
proof -
  note ar = after_report [OF assms(3,2)]
  have "\<forall>i \<in> set ids. hm_get (hm_insert (reporting_child p) (report_entry p) m) i \<noteq> None" using assms(4) by (auto simp: hm_simps)
  from join_or_wait_joins [OF ar(1) this, of h] execute_report [OF assms(1,3,2)]
  show "execute_parallel env lib step (set_variable ''__resume_data'' p c) h =
      join_with_statuses step ids (map (status_of (JObject (hm_insert (reporting_child p) (report_entry p) m))) ids)
        (drop_bookkeeping step (after_report step p c)) h" by simp
  show "same_but_bookkeeping step c (drop_bookkeeping step (after_report step p c))"
    using ar(2) by (auto simp: same_but_bookkeeping_def drop_bookkeeping_def)
qed

lemma earlier_report:
  assumes "hm_get (fc_variables c) (forked_key step) = Some (JArray (map JString ids))" "results_so_far step c = JObject m"
    and "child_completed p" "i \<in> set ids" "i \<noteq> reporting_child p" "hm_get m i = None"
  shows "\<exists>md. execute_parallel env lib step (set_variable ''__resume_data'' p c) h =
    (FlowOk (Inr (WaitFor WAIT_REASON_PARALLEL md), after_report step p c), h)"
proof -
  have "\<exists>i \<in> set ids. hm_get (hm_insert (reporting_child p) (report_entry p) m) i = None"
    using assms(4-6) by (intro bexI [of _ i]) (simp_all add: hm_simps)
  from join_or_wait_waits [OF after_report(1) [OF assms(3,2)] this, of h] show ?thesis
    by (simp add: execute_report [OF assms(1,3,2)])
qed

lemma run_reports_from:
  assumes "hm_get (fc_variables c) (forked_key step) = Some (JArray (map JString ids))" "results_so_far step c = JObject m"
    and "ps \<noteq> []" "\<forall>p \<in> set ps. child_completed p" "distinct (map reporting_child ps)"
    and "set ids \<subseteq> dom (hm_get m) \<union> reporting_child ` set ps" "reporting_child ` set ps \<subseteq> set ids - dom (hm_get m)"
  shows "\<exists>waits c' m'. run_reports env lib step ps c h = waits @ [fst (join_with_statuses step ids (map (status_of (JObject m')) ids) c' h)] \<and>
    Suc (length waits) = length ps \<and> list_all is_wait waits \<and> hm_get m' = hm_get m ++ hm_get (reports ps) \<and> same_but_bookkeeping step c c'"
  using assms
proof (induction ps arbitrary: c m)
  case (Cons p ps)
  let ?c = "after_report step p c" and ?m = "hm_insert (reporting_child p) (report_entry p) m"
  have p: "child_completed p" and np: "reporting_child p \<notin> reporting_child ` set ps" using Cons.prems(4,5) by auto
  show ?case
  proof (cases "ps = []")
    case True
    then have "set ids \<subseteq> insert (reporting_child p) (dom (hm_get m))" using Cons.prems(6) by simp
    note last = last_report [OF Cons.prems(1,2) p this]
    have "run_reports env lib step (p # ps) c h = [] @ [fst (join_with_statuses step ids (map (status_of (JObject ?m)) ids) (drop_bookkeeping step ?c) h)]"
      unfolding run_reports.simps last(1) by (simp add: True split: prod.splits flow_outcome.splits)
    moreover have "hm_get ?m = hm_get m ++ hm_get (reports (p # ps))" using reports_Cons [of p "[]" m] by (simp add: True reports_def)
    ultimately show ?thesis using last(2) True by (intro exI [of _ "[]"] exI [of _ "drop_bookkeeping step ?c"] exI [of _ ?m]) simp
  next
    case False
    then obtain q where q: "q \<in> set ps" by (cases ps) auto
    have "reporting_child q \<in> set ids - dom (hm_get m)" using Cons.prems(7) q by auto
    then have rq: "reporting_child q \<in> set ids" "hm_get m (reporting_child q) = None" by auto
    have other: "\<forall>q \<in> set ps. reporting_child q \<noteq> reporting_child p" using np by (metis image_eqI)
    then have "reporting_child q \<noteq> reporting_child p" using q by simp
    from earlier_report [OF Cons.prems(1,2) p rq(1) this rq(2)] obtain md where
      wait: "execute_parallel env lib step (set_variable ''__resume_data'' p c) h = (FlowOk (Inr (WaitFor WAIT_REASON_PARALLEL md), ?c), h)" by blast
    note ar = after_report [OF p Cons.prems(2)]
    have dom: "dom (hm_get ?m) = insert (reporting_child p) (dom (hm_get m))" by (auto simp: hm_simps split: if_splits)
    have forked: "hm_get (fc_variables ?c) (forked_key step) = Some (JArray (map JString ids))" using ar(2) [of "forked_key step"] Cons.prems(1) by simp
    have "set ids \<subseteq> dom (hm_get ?m) \<union> reporting_child ` set ps" "reporting_child ` set ps \<subseteq> set ids - dom (hm_get ?m)"
      unfolding dom using Cons.prems(6,7) other by auto
    from Cons.IH [OF forked ar(1) False _ _ this] Cons.prems(4,5) obtain waits c' m' where
      IH: "run_reports env lib step ps ?c h = waits @ [fst (join_with_statuses step ids (map (status_of (JObject m')) ids) c' h)]"
        "Suc (length waits) = length ps" "list_all is_wait waits" "hm_get m' = hm_get ?m ++ hm_get (reports ps)" "same_but_bookkeeping step ?c c'" by auto
    have "same_but_bookkeeping step c c'" using IH(5) ar(2) by (auto simp: same_but_bookkeeping_def)
    with IH wait reports_Cons [OF np, of m] show ?thesis
      by (intro exI [of _ "FlowOk (Inr (WaitFor WAIT_REASON_PARALLEL md), ?c) # waits"] exI [of _ c'] exI [of _ m']) simp
  qed
qed simp

text \<open>
  C15. The join of a parallel step. Once every forked child has reported, in whatever order, the handler joins exactly once, at the last
  report; until then it waits. The statuses it joins are in the order of the fork, one for each child, with what that
  child reported; of the variables of the flow, only the bookkeeping of the step has changed by then.
\<close>

theorem parallel_joins_after_last_report:
  assumes "hm_get (fc_variables c) (forked_key step) = Some (JArray (map JString ids))" "hm_get (fc_variables c) (results_key step) = None"
    and "ps \<noteq> []" "\<forall>p \<in> set ps. child_completed p" "distinct (map reporting_child ps)" "reporting_child ` set ps = set ids"
  shows "\<exists>waits statuses c'. run_reports env lib step ps c h = waits @ [fst (join_with_statuses step ids statuses c' h)] \<and>
    Suc (length waits) = length ps \<and> list_all is_wait waits \<and> same_but_bookkeeping step c c' \<and>
    map cs_instance_id statuses = ids \<and> set statuses = child_status ` set ps"
proof -
  have "results_so_far step c = JObject []" using assms(2) by (simp add: results_so_far_def)
  from run_reports_from [OF assms(1) this assms(3-5), where env = env and lib = lib and h = h] assms(6) obtain waits c' m' where
    run: "run_reports env lib step ps c h = waits @ [fst (join_with_statuses step ids (map (status_of (JObject m')) ids) c' h)]"
      "Suc (length waits) = length ps" "list_all is_wait waits" "hm_get m' = hm_get (reports ps)" "same_but_bookkeeping step c c'" by auto
  have status: "status_of (JObject m') (reporting_child p) = child_status p" if "p \<in> set ps" for p
  proof -
    have "hm_get (reports ps) (reporting_child p) = Some (report_entry p)"
      using that assms(5) by (intro map_of_is_SomeI) (auto simp: reports_def comp_def)
    then show ?thesis unfolding child_status_def using run(4) by (intro status_of_cong) (simp add: reports_def)
  qed
  have "set (map (status_of (JObject m')) ids) = (\<lambda>p. status_of (JObject m') (reporting_child p)) ` set ps"
    using assms(6) by (auto simp: image_image simp flip: assms(6))
  then have "set (map (status_of (JObject m')) ids) = child_status ` set ps" using status by (simp add: image_def)
  moreover have "map cs_instance_id (map (status_of (JObject m')) ids) = ids" by (simp add: comp_def status_of_def Let_def)
  ultimately show ?thesis using run by blast
qed

text \<open>
  C16. A cancelled child is never joined. Cancelling a child flow reports the status \<open>cancelled\<close> to the parent; when that report completes
  the set, the handler forgets the forked children and waits again, although no report is outstanding, and the next call of the
  handler forks every branch a second time.
\<close>

theorem cancelled_branch_forks_again:
  assumes "hm_get (fc_variables c) (forked_key step) = Some (JArray (map JString ids))" "results_so_far step c = JObject m"
    and "child_completed p" "set ids \<subseteq> insert (reporting_child p) (dom (hm_get m))"
    and "reporting_child p \<in> set ids" "jget ''status'' p = Some (JString ''cancelled'')"
  shows "\<exists>md c'. execute_parallel env lib step (set_variable ''__resume_data'' p c) h = (FlowOk (Inr (WaitFor WAIT_REASON_PARALLEL md), c'), h) \<and>
    execute_parallel env lib step c' h' = fork_and_remember env lib step (remove_variable ''__resume_data'' c') h'"
proof -
  note last = last_report [OF assms(1-4)]
  let ?m = "hm_insert (reporting_child p) (report_entry p) m" and ?c = "drop_bookkeeping step (after_report step p c)"
  have "cs_status (status_of (JObject ?m) (reporting_child p)) = ''cancelled''"
    using assms(6) by (simp add: status_of_def hm_simps json_opt_def report_entry_def)
  then have "\<not> settled (status_of (JObject ?m) (reporting_child p))" by (simp add: settled_def)
  then have "\<not> list_all settled (map (status_of (JObject ?m)) ids)" using assms(5) by (auto simp: list_all_iff)
  then have "\<exists>md. execute_parallel env lib step (set_variable ''__resume_data'' p c) h = (FlowOk (Inr (WaitFor WAIT_REASON_PARALLEL md), ?c), h)"
    unfolding last(1) by (simp add: join_with_statuses_def)
  moreover have "hm_get (fc_variables ?c) k = None" if "k \<in> {forked_key step, ''__resume_data''}" for k
    using last(2) that by (auto simp: same_but_bookkeeping_def)
  then have "execute_parallel env lib step ?c h' = fork_and_remember env lib step (remove_variable ''__resume_data'' ?c) h'"
    by (simp add: execute_parallel_def collect_report_def)
  ultimately show ?thesis by blast
qed

section \<open>Examples\<close>

definition demo_parallel :: flow_node where
  "demo_parallel = FlowNode ''p'' Parallel [] [] None"

definition demo_forked :: flow_context where
  "demo_forked = demo_context\<lparr>fc_variables := [(''__parallel_forked_p'', JArray [JString ''a'', JString ''b''])]\<rparr>"

definition demo_report :: "string \<Rightarrow> string \<Rightarrow> json" where
  "demo_report child status = JObject [(''child_completed'', JBool True), (''child_instance_id'', JString child), (''status'', JString status)]"

lemma demo_reports:
  "child_completed (demo_report child status)" "reporting_child (demo_report child status) = child"
  "jget ''status'' (demo_report child status) = Some (JString status)"
  by (simp_all add: demo_report_def child_completed_def reporting_child_def)

lemma demo_forked_variables:
  "hm_get (fc_variables demo_forked) (forked_key demo_parallel) = Some (JArray (map JString [''a'', ''b'']))"
  "hm_get (fc_variables demo_forked) (results_key demo_parallel) = None"
  by (simp_all add: demo_forked_def demo_parallel_def forked_key_def results_key_def)

theorem parallel_joins_after_last_report_witness:
  "\<forall>env. \<exists>waits statuses c'. run_reports env demo_lib demo_parallel [demo_report ''b'' ''failed'', demo_report ''a'' ''completed''] demo_forked [] =
      waits @ [fst (join_with_statuses demo_parallel [''a'', ''b''] statuses c' [])] \<and> length waits = 1 \<and> list_all is_wait waits \<and>
    map cs_instance_id statuses = [''a'', ''b'']"
proof
  fix env
  let ?ps = "[demo_report ''b'' ''failed'', demo_report ''a'' ''completed'']"
  have "\<exists>waits statuses c'. run_reports env demo_lib demo_parallel ?ps demo_forked [] =
      waits @ [fst (join_with_statuses demo_parallel [''a'', ''b''] statuses c' [])] \<and> Suc (length waits) = length ?ps \<and> list_all is_wait waits \<and>
      same_but_bookkeeping demo_parallel demo_forked c' \<and> map cs_instance_id statuses = [''a'', ''b''] \<and> set statuses = child_status ` set ?ps"
    by (rule parallel_joins_after_last_report [OF demo_forked_variables]) (auto simp: demo_reports)
  then obtain waits statuses c' where "run_reports env demo_lib demo_parallel ?ps demo_forked [] =
      waits @ [fst (join_with_statuses demo_parallel [''a'', ''b''] statuses c' [])]" "Suc (length waits) = length ?ps" "list_all is_wait waits"
      "map cs_instance_id statuses = [''a'', ''b'']" by (elim exE conjE)
  then show "\<exists>waits statuses c'. run_reports env demo_lib demo_parallel ?ps demo_forked [] =
      waits @ [fst (join_with_statuses demo_parallel [''a'', ''b''] statuses c' [])] \<and> length waits = 1 \<and> list_all is_wait waits \<and>
    map cs_instance_id statuses = [''a'', ''b'']" by (intro exI [of _ waits] exI [of _ statuses] exI [of _ c']) (simp del: run_reports.simps)
qed

theorem cancelled_branch_forks_again_witness:
  "\<forall>env. \<exists>md c'. execute_parallel env demo_lib demo_parallel (set_variable ''__resume_data'' (demo_report ''b'' ''cancelled'')
      (set_variable ''__parallel_results_p'' (JObject [(''a'', JNull)]) demo_forked)) [] = (FlowOk (Inr (WaitFor WAIT_REASON_PARALLEL md), c'), []) \<and>
    execute_parallel env demo_lib demo_parallel c' [] = fork_and_remember env demo_lib demo_parallel (remove_variable ''__resume_data'' c') []"
proof
  fix env
  let ?c = "set_variable ''__parallel_results_p'' (JObject [(''a'', JNull)]) demo_forked"
  have "hm_get (fc_variables ?c) (forked_key demo_parallel) = Some (JArray (map JString [''a'', ''b'']))"
    "results_so_far demo_parallel ?c = JObject [(''a'', JNull)]"
    by (simp_all add: demo_forked_def demo_parallel_def forked_key_def results_key_def results_so_far_def)
  then show "\<exists>md c'. execute_parallel env demo_lib demo_parallel (set_variable ''__resume_data'' (demo_report ''b'' ''cancelled'') ?c) [] =
      (FlowOk (Inr (WaitFor WAIT_REASON_PARALLEL md), c'), []) \<and>
    execute_parallel env demo_lib demo_parallel c' [] = fork_and_remember env demo_lib demo_parallel (remove_variable ''__resume_data'' c') []"
    by (rule cancelled_branch_forks_again) (auto simp: demo_reports)
qed

end
