(* ===== verification/Flow_Wait.thy ===== *)
theory Flow_Wait
  imports Flow_Handlers
begin

text \<open>
  The wait step (\<open>handlers/wait.rs\<close>): delays, timestamps, events and cron schedules, and the durations they are written in. Parsing of
  timestamps and cron expressions is the record \<open>wait_lib\<close>; a date is its count of nanoseconds.
\<close>

record wait_lib =
  wl_parse_datetime :: "string \<Rightarrow> string + datetime"
  wl_field_count :: "string \<Rightarrow> nat"
  wl_next_occurrence :: "string \<Rightarrow> datetime \<Rightarrow> string + datetime option"

definition trim_end_matches :: "string \<Rightarrow> string \<Rightarrow> string" where
  "trim_end_matches pat s = rev (trim_start_matches (rev pat) (rev s))"

datatype duration_unit = UnitMs | UnitS | UnitM | UnitH | UnitD

definition split_unit :: "string \<Rightarrow> (string \<times> duration_unit) option" where
  "split_unit s =
     (if suffix ''milliseconds'' s \<or> suffix ''ms'' s then
        Some (trim_end_matches ''ms'' (trim_end_matches ''milliseconds'' s), UnitMs)
      else if suffix ''seconds'' s \<or> suffix ''second'' s then
        Some (trim_end_matches ''second'' (trim_end_matches ''seconds'' s), UnitS)
      else if suffix ''minutes'' s \<or> suffix ''minute'' s \<or> suffix ''min'' s then
        Some (trim_end_matches ''min'' (trim_end_matches ''minute'' (trim_end_matches ''minutes'' s)), UnitM)
      else if suffix ''hours'' s \<or> suffix ''hour'' s then
        Some (trim_end_matches ''hour'' (trim_end_matches ''hours'' s), UnitH)
      else if suffix ''days'' s \<or> suffix ''day'' s then
        Some (trim_end_matches ''day'' (trim_end_matches ''days'' s), UnitD)
      else if suffix ''s'' s then Some (trim_end_matches ''s'' s, UnitS)
      else if suffix ''m'' s then Some (trim_end_matches ''m'' s, UnitM)
      else if suffix ''h'' s then Some (trim_end_matches ''h'' s, UnitH)
      else if suffix ''d'' s then Some (trim_end_matches ''d'' s, UnitD)
      else None)"

fun unit_ms :: "duration_unit \<Rightarrow> u64" where
  "unit_ms UnitMs = 1"
| "unit_ms UnitS = 1000"
| "unit_ms UnitM = 60 * 1000"
| "unit_ms UnitH = 60 * 60 * 1000"
| "unit_ms UnitD = 24 * 60 * 60 * 1000"

definition parse_duration :: "flow_env \<Rightarrow> string \<Rightarrow> flow_error + u64" where
  "parse_duration env s =
     (let s = str_to_lowercase env (flow_env.str_trim env s) in
      case parse_u64 s of
        Inr ms \<Rightarrow> Inr ms
      | Inl _ \<Rightarrow>
          (case split_unit s of
             None \<Rightarrow> Inl (InvalidNodeConfiguration (''Invalid duration format: '' @ s))
           | Some (num, unit) \<Rightarrow>
               (let num_str = flow_env.str_trim env num in
                case parse_u64 num_str of
                  Inl _ \<Rightarrow> Inl (InvalidNodeConfiguration (''Invalid duration number: '' @ num_str))
                | Inr n \<Rightarrow> Inr (n * unit_ms unit))))"

definition resolve_template :: "expr_lib \<Rightarrow> flow_context \<Rightarrow> string \<Rightarrow> string flow_outcome" where
  "resolve_template lib c s =
     fo_bind (data_map lib c (JString s)) (\<lambda>v. case v of JString out \<Rightarrow> FlowOk out | other \<Rightarrow> FlowOk (el_print lib other))"

definition required :: "string option \<Rightarrow> string \<Rightarrow> string flow_outcome" where
  "required x missing = (case x of Some s \<Rightarrow> FlowOk s | None \<Rightarrow> FlowErr (MissingProperty missing))"

definition fo_sum :: "flow_error + 'a \<Rightarrow> 'a flow_outcome" where
  "fo_sum r = (case r of Inl e \<Rightarrow> FlowErr e | Inr a \<Rightarrow> FlowOk a)"

definition execute_delay_wait :: "flow_env \<Rightarrow> expr_lib \<Rightarrow> flow_node \<Rightarrow> step_result handler" where
  "execute_delay_wait env lib step =
     h_bind h_context (\<lambda>c.
     h_bind (h_outcome (fo_bind (required (or_else (get_string_property step ''duration'') (get_string_property step ''delay''))
       ''duration required for delay wait'') (resolve_template lib c))) (\<lambda>duration_str.
     h_bind (h_outcome (fo_sum (parse_duration env duration_str))) (\<lambda>duration_ms.
     h_bind (h_now env) (\<lambda>now.
     case add_millis env now (sint duration_ms) of
       None \<Rightarrow> h_outcome FlowPanic
     | Some resume_at \<Rightarrow>
         h_return (WaitFor ''scheduled'' (JObject [(''wait_type'', JString ''delay''), (''duration_ms'', json_u64 duration_ms),
           (''resume_at'', JString (to_rfc3339 env resume_at)), (''timeout_ms'', json_u64 duration_ms)]))))))"

text \<open>\<open>(later - earlier).num_milliseconds()\<close> of two dates in order.\<close>

definition millis_between :: "datetime \<Rightarrow> datetime \<Rightarrow> u64" where
  "millis_between earlier later = word_of_int ((later - earlier) div 1000000)"

definition execute_until_wait :: "flow_env \<Rightarrow> expr_lib \<Rightarrow> wait_lib \<Rightarrow> flow_node \<Rightarrow> step_result handler" where
  "execute_until_wait env lib wl step =
     h_bind h_context (\<lambda>c.
     h_bind (h_outcome (fo_bind (required (or_else (get_string_property step ''until'') (get_string_property step ''timestamp''))
       ''until timestamp required'') (resolve_template lib c))) (\<lambda>until_str.
     case wl_parse_datetime wl until_str of
       Inl e \<Rightarrow> h_throw (InvalidNodeConfiguration (''Invalid timestamp: '' @ e))
     | Inr resume_at \<Rightarrow>
         h_bind (h_now env) (\<lambda>now.
         if resume_at \<le> now then
           h_return (Continue (next_or_end step) (JObject [(''waited'', JBool False), (''reason'', JString ''timestamp_passed'')]))
         else
           h_return (WaitFor ''scheduled'' (JObject [(''wait_type'', JString ''until''), (''resume_at'', JString (to_rfc3339 env resume_at)),
             (''timeout_ms'', json_u64 (millis_between now resume_at))])))))"

definition execute_event_wait :: "flow_env \<Rightarrow> flow_node \<Rightarrow> step_result handler" where
  "execute_event_wait env step =
     (case get_string_property step ''event_type'' of
        None \<Rightarrow> h_throw (MissingProperty ''event_type required for event wait'')
      | Some event_type \<Rightarrow>
          let timeout_ms = Option.bind (get_string_property step ''timeout'') (\<lambda>s. case parse_duration env s of Inr ms \<Rightarrow> Some ms | Inl _ \<Rightarrow> None)
          in h_return (WaitFor ''event'' (JObject [(''wait_type'', JString ''event''), (''event_type'', JString event_type),
               (''event_filter'', case get_property step ''event_filter'' of Some f \<Rightarrow> f | None \<Rightarrow> JNull),
               (''timeout_ms'', case timeout_ms of Some ms \<Rightarrow> json_u64 ms | None \<Rightarrow> JNull)])))"

definition normalize_cron :: "flow_env \<Rightarrow> wait_lib \<Rightarrow> string \<Rightarrow> string" where
  "normalize_cron env wl cron_expr =
     (let expr = flow_env.str_trim env cron_expr in
      if prefix ''@'' expr \<or> wl_field_count wl expr \<noteq> 5 then expr else ''0 '' @ expr)"

definition calculate_next_cron_occurrence :: "flow_env \<Rightarrow> wait_lib \<Rightarrow> string \<Rightarrow> datetime handler" where
  "calculate_next_cron_occurrence env wl cron_expr =
     h_bind (h_now env) (\<lambda>now.
     case wl_next_occurrence wl (normalize_cron env wl cron_expr) now of
       Inl e \<Rightarrow> h_throw (InvalidNodeConfiguration (''Invalid cron expression '' @ quoted cron_expr @ '': '' @ e))
     | Inr None \<Rightarrow> h_throw (InvalidNodeConfiguration (''Cron expression '' @ quoted cron_expr @ '' has no upcoming occurrence''))
     | Inr (Some t) \<Rightarrow> h_return t)"

definition execute_cron_wait :: "flow_env \<Rightarrow> wait_lib \<Rightarrow> flow_node \<Rightarrow> step_result handler" where
  "execute_cron_wait env wl step =
     (case or_else (get_string_property step ''cron'') (get_string_property step ''schedule'') of
        None \<Rightarrow> h_throw (MissingProperty ''cron expression required'')
      | Some cron_expr \<Rightarrow>
          h_bind (calculate_next_cron_occurrence env wl cron_expr) (\<lambda>resume_at.
          h_bind (h_now env) (\<lambda>now.
          h_return (WaitFor ''scheduled'' (JObject [(''wait_type'', JString ''cron''), (''cron'', JString cron_expr),
            (''resume_at'', JString (to_rfc3339 env resume_at)),
            (''timeout_ms'', json_u64 (if now \<le> resume_at then millis_between now resume_at else 0))])))))"

definition start_wait :: "flow_env \<Rightarrow> expr_lib \<Rightarrow> wait_lib \<Rightarrow> flow_node \<Rightarrow> step_result handler" where
  "start_wait env lib wl step =
     (let wait_type = (case get_string_property step ''wait_type'' of Some t \<Rightarrow> t | None \<Rightarrow> ''delay'') in
      if wait_type = ''delay'' then execute_delay_wait env lib step
      else if wait_type = ''until'' then execute_until_wait env lib wl step
      else if wait_type = ''event'' then execute_event_wait env step
      else if wait_type = ''cron'' then execute_cron_wait env wl step
      else h_throw (InvalidNodeConfiguration (''Unknown wait type: '' @ wait_type)))"

definition execute_wait :: "flow_env \<Rightarrow> expr_lib \<Rightarrow> wait_lib \<Rightarrow> flow_node \<Rightarrow> step_result handler" where
  "execute_wait env lib wl step =
     h_bind (h_take ''__wait_elapsed_pending'') (\<lambda>elapsed.
     if elapsed \<noteq> None then h_return (Continue (next_or_end step) (JObject [(''waited'', JBool True)]))
     else
       h_bind (h_take ''__resume_data'') (\<lambda>event.
       case event of
         Some event_data \<Rightarrow> h_return (Continue (next_or_end step) (JObject [(''waited'', JBool True), (''event'', event_data)]))
       | None \<Rightarrow> start_wait env lib wl step))"

section \<open>Durations\<close>

definition duration_units :: "(string \<times> u64) list" where
  "duration_units =
     [([], 1), (''ms'', 1), (''milliseconds'', 1), (''s'', 1000), (''second'', 1000), (''seconds'', 1000),
      (''m'', 60000), (''min'', 60000), (''minute'', 60000), (''minutes'', 60000), (''h'', 3600000), (''hour'', 3600000), (''hours'', 3600000),
      (''d'', 86400000), (''day'', 86400000), (''days'', 86400000)]"

text \<open>What the code relies on of \<open>str::trim\<close> and \<open>str::to_lowercase\<close>: text without upper case letters and without blanks stays.\<close>

definition letter :: "char \<Rightarrow> bool" where
  "letter c \<longleftrightarrow> c \<in> set ''abcdefghijklmnopqrstuvwxyz''"

definition lower_text :: "string \<Rightarrow> bool" where
  "lower_text s = list_all (\<lambda>c. digit_val c \<noteq> None \<or> letter c) s"

definition keeps_lower_text :: "flow_env \<Rightarrow> bool" where
  "keeps_lower_text env \<longleftrightarrow> (\<forall>s. lower_text s \<longrightarrow> flow_env.str_trim env s = s \<and> str_to_lowercase env s = s)"

lemma digit_not_letter: "digit_val c \<noteq> None \<Longrightarrow> \<not> letter c"
  by (auto simp: letter_def digit_val_def Let_def split: if_splits)

lemma show_nat_rev: "\<exists>d r. rev (show_nat n) = d # r \<and> digit_val d \<noteq> None"
proof (cases "rev (show_nat n)")
  case (Cons d r)
  then have "d \<in> set (show_nat n)" by (metis list.set_intros(1) set_rev)
  then show ?thesis using Cons show_nat_chars [of d n] by auto
qed simp

lemma suffix_rev: "suffix p s \<longleftrightarrow> prefix (rev p) (rev s)"
  by (rule suffix_to_prefix)

lemma split_unit_digits:
  assumes "rev ds = d # r" "\<not> letter d"
  shows "split_unit (ds @ ''ms'') = Some (ds, UnitMs)"
    "split_unit (ds @ ''milliseconds'') = Some (ds, UnitMs)"
    "split_unit (ds @ ''s'') = Some (ds, UnitS)"
    "split_unit (ds @ ''second'') = Some (ds, UnitS)"
    "split_unit (ds @ ''seconds'') = Some (ds, UnitS)"
    "split_unit (ds @ ''m'') = Some (ds, UnitM)"
    "split_unit (ds @ ''min'') = Some (ds, UnitM)"
    "split_unit (ds @ ''minute'') = Some (ds, UnitM)"
    "split_unit (ds @ ''minutes'') = Some (ds, UnitM)"
    "split_unit (ds @ ''h'') = Some (ds, UnitH)"
    "split_unit (ds @ ''hour'') = Some (ds, UnitH)"
    "split_unit (ds @ ''hours'') = Some (ds, UnitH)"
    "split_unit (ds @ ''d'') = Some (ds, UnitD)"
    "split_unit (ds @ ''day'') = Some (ds, UnitD)"
    "split_unit (ds @ ''days'') = Some (ds, UnitD)"
proof -
  have ds: "rev r @ [d] = ds" using assms(1) by (metis rev.simps(2) rev_rev_ident)
  have d: "d \<noteq> CHR ''s''" "d \<noteq> CHR ''m''" "d \<noteq> CHR ''h''" "d \<noteq> CHR ''d''" "d \<noteq> CHR ''n''" "d \<noteq> CHR ''e''" "d \<noteq> CHR ''r''" "d \<noteq> CHR ''y''" "d \<noteq> CHR ''i''"
    using assms(2) by (auto simp: letter_def)
  note defs = split_unit_def suffix_rev trim_end_matches_def rev_append assms(1) trim_start_matches.simps [of _ "_ # _"] d d [symmetric] ds
  show "split_unit (ds @ ''ms'') = Some (ds, UnitMs)"
    "split_unit (ds @ ''milliseconds'') = Some (ds, UnitMs)"
    "split_unit (ds @ ''s'') = Some (ds, UnitS)"
    "split_unit (ds @ ''second'') = Some (ds, UnitS)"
    "split_unit (ds @ ''seconds'') = Some (ds, UnitS)"
    "split_unit (ds @ ''m'') = Some (ds, UnitM)"
    "split_unit (ds @ ''min'') = Some (ds, UnitM)"
    "split_unit (ds @ ''minute'') = Some (ds, UnitM)"
    "split_unit (ds @ ''minutes'') = Some (ds, UnitM)"
    "split_unit (ds @ ''h'') = Some (ds, UnitH)"
    "split_unit (ds @ ''hour'') = Some (ds, UnitH)"
    "split_unit (ds @ ''hours'') = Some (ds, UnitH)"
    "split_unit (ds @ ''d'') = Some (ds, UnitD)"
    "split_unit (ds @ ''day'') = Some (ds, UnitD)"
    "split_unit (ds @ ''days'') = Some (ds, UnitD)"
    by (simp_all add: defs)
qed

lemma lower_text_append [simp]: "lower_text (xs @ ys) \<longleftrightarrow> lower_text xs \<and> lower_text ys"
  by (auto simp: lower_text_def)

lemma lower_text_show [simp]: "lower_text (show_u64 n)"
  unfolding lower_text_def list_all_iff show_u64_def using show_nat_chars [of _ "unat n"] by fastforce

lemma lower_text_units: "(unit, k) \<in> set duration_units \<Longrightarrow> lower_text unit"
  by (auto simp: lower_text_def duration_units_def letter_def)

lemma parse_u64_with_letter:
  assumes "letter u"
  shows "\<exists>e. parse_u64 (show_u64 n @ u # us) = Inl e"
proof -
  have u: "digit_val u = None" using assms digit_not_letter by blast
  have digits: "parse_u64_digits 0 (show_u64 n @ u # us) = Inl InvalidDigit"
    using parse_digits_show_nat [of "unat n" "u # us"] unat_u64_lt [of n] u by (simp add: show_u64_def)
  obtain c cs where s: "show_u64 n = c # cs" by (cases "show_u64 n") (auto simp: show_u64_def)
  then have "c \<noteq> CHR ''+''" using show_nat_no_sign [of "unat n"] by (auto simp: show_u64_def)
  with digits s show ?thesis by (cases cs) (simp_all add: parse_u64_def)
qed

lemma split_unit_listed:
  assumes "(unit, k) \<in> set duration_units" "unit \<noteq> []"
  shows "\<exists>u. split_unit (show_u64 n @ unit) = Some (show_u64 n, u) \<and> unit_ms u = k"
proof -
  obtain d r where "rev (show_u64 n) = d # r" "digit_val d \<noteq> None" using show_nat_rev [of "unat n"] by (auto simp: show_u64_def)
  note su = split_unit_digits [OF this(1) digit_not_letter [OF this(2)]]
  show ?thesis using assms unfolding duration_units_def by (auto simp: su)
qed

text \<open>
  A duration is read in every spelling the documentation lists: a count followed by one of the units is that many times the length of
  the unit in milliseconds. The product is taken modulo \<open>2 ^ 64\<close>.
\<close>

theorem duration_spellings:
  assumes "keeps_lower_text env" "(unit, k) \<in> set duration_units"
  shows "parse_duration env (show_u64 n @ unit) = Inr (n * k)"
proof -
  have keep: "flow_env.str_trim env s = s" "str_to_lowercase env s = s" if "lower_text s" for s using assms(1) that by (auto simp: keeps_lower_text_def)
  have lower: "lower_text (show_u64 n @ unit)" using lower_text_units [OF assms(2)] by simp
  show ?thesis
  proof (cases unit)
    case Nil
    then have "k = 1" using assms(2) by (auto simp: duration_units_def)
    then show ?thesis using keep [OF lower] by (simp add: parse_duration_def Nil)
  next
    case (Cons c cs)
    then have "letter c" using assms(2) by (auto simp: duration_units_def letter_def)
    then obtain e where "parse_u64 (show_u64 n @ unit) = Inl e" using parse_u64_with_letter [of c n cs] Cons by auto
    moreover obtain u where "split_unit (show_u64 n @ unit) = Some (show_u64 n, u)" "unit_ms u = k"
      using split_unit_listed [OF assms(2), of n] Cons by auto
    ultimately show ?thesis using keep [OF lower] keep [OF lower_text_show, of n] by (simp add: parse_duration_def)
  qed
qed

text \<open>The product wraps: a delay of half a billion years is read as 384 milliseconds.\<close>

lemma long_delay_wraps: "(18446744073709552 :: u64) * 1000 = 384"
  by simp

text \<open>A delay whose end has no representation as a date panics.\<close>

lemma long_delay_panics:
  assumes "get_string_property step ''duration'' = Some s" "resolve_template lib c s = FlowOk t" "parse_duration env t = Inr ms"
    and "add_millis env (on_read_clock env h) (sint ms) = None"
  shows "execute_delay_wait env lib step c h = (FlowPanic, ReadClock # h)"
  using assms by (simp add: execute_delay_wait_def or_else_def required_def fo_sum_def h_now_def)

theorem duration_spellings_witness: "parse_duration demo_env (show_u64 5 @ ''minutes'') = Inr 300000"
proof -
  have "keeps_lower_text demo_env" by (simp add: keeps_lower_text_def demo_env_def)
  moreover have "(''minutes'', 60000) \<in> set duration_units" by (simp add: duration_units_def)
  ultimately show ?thesis using duration_spellings [of demo_env "''minutes''" 60000 5] by simp
qed

end
