(* ===== verification/Field_Types.thy ===== *)
theory Field_Types
  imports Raisin_Prelude
begin

text \<open>
  The field schemas of element types and archetypes and the resolution of their inheritance:
  \<open>raisin-models/src/nodes/types/element/field_types.rs\<close> and \<open>fields/base_field.rs\<close> (the data),
  \<open>raisin-core/src/services/element_type_resolver.rs\<close> and \<open>archetype_resolver.rs\<close> (the resolvers of
  the server), and \<open>raisin-validation/src/field_helpers.rs\<close> and \<open>inheritance.rs\<close> (the copy the
  command line and the server are meant to share).

  The two resolvers of the server are the same text over two types, so the walk is one function over
  the four things it reads of a type (\<open>type_ops\<close>), used at both. The repository is the parameter
  \<open>fetch\<close>: an error, no type of that name, or the type. Values, configurations and layouts are read
  by none of this code and are type parameters.

  The abstract account is \<open>lineage\<close>: the types met by following \<open>extends\<close> from a name to a type that
  extends nothing. A resolution succeeds exactly when there is a lineage of at most twenty types, and
  then every field, the layout and the strictness come from the nearest type of the lineage that
  says anything about them (\<open>resolution_follows_lineage\<close>). The two implementations agree but for the
  limit: twenty types in one, twenty ancestors in the other (\<open>inheritance_implementations_agree\<close>).
\<close>

section \<open>Field schemas\<close>

datatype index_type = Fulltext | Vector | Property | Spatial

record 'pv field_type_schema =
  ft_name :: string
  ft_title :: "string option"
  ft_label :: "string option"
  ft_required :: "bool option"
  ft_description :: "string option"
  ft_help_text :: "string option"
  ft_default_value :: "'pv option"
  ft_validations :: "string list option"
  ft_is_hidden :: "bool option"
  ft_multiple :: "bool option"
  ft_design_value :: "bool option"
  ft_translatable :: "bool option"
  ft_index :: "index_type list option"
  ft_meta :: "(string, 'pv) hash_map option"
  ft_encrypted :: "bool option"

datatype ('pv, 'cfg, 'lay) field_schema =
    TextField "'pv field_type_schema" "'cfg option"
  | RichTextField "'pv field_type_schema" "'cfg option"
  | NumberField "'pv field_type_schema" "'cfg option"
  | DateField "'pv field_type_schema" "'cfg option"
  | LocationField "'pv field_type_schema"
  | BooleanField "'pv field_type_schema"
  | MediaField "'pv field_type_schema" "'cfg option"
  | ReferenceField "'pv field_type_schema" "'cfg option"
  | TagField "'pv field_type_schema" "'cfg option"
  | OptionsField "'pv field_type_schema" "'cfg option"
  | JsonObjectField "'pv field_type_schema"
  | CompositeField "'pv field_type_schema" "('pv, 'cfg, 'lay) field_schema list" "'lay list option"
  | SectionField "'pv field_type_schema" "string list option" "string option"
  | ElementField "'pv field_type_schema" string
  | ListingField "'pv field_type_schema" "'cfg option"

fun field_base :: "('pv, 'cfg, 'lay) field_schema \<Rightarrow> 'pv field_type_schema" where
  "field_base (TextField b _) = b"
| "field_base (RichTextField b _) = b"
| "field_base (NumberField b _) = b"
| "field_base (DateField b _) = b"
| "field_base (LocationField b) = b"
| "field_base (BooleanField b) = b"
| "field_base (MediaField b _) = b"
| "field_base (ReferenceField b _) = b"
| "field_base (TagField b _) = b"
| "field_base (OptionsField b _) = b"
| "field_base (JsonObjectField b) = b"
| "field_base (CompositeField b _ _) = b"
| "field_base (SectionField b _ _) = b"
| "field_base (ElementField b _) = b"
| "field_base (ListingField b _) = b"

definition base_name :: "('pv, 'cfg, 'lay) field_schema \<Rightarrow> string" where
  "base_name f = ft_name (field_base f)"

definition is_translatable :: "('pv, 'cfg, 'lay) field_schema \<Rightarrow> bool" where
  "is_translatable f = (case ft_translatable (field_base f) of Some b \<Rightarrow> b | None \<Rightarrow> False)"

fun has_translatable_descendant :: "('pv, 'cfg, 'lay) field_schema \<Rightarrow> bool" where
  "has_translatable_descendant field =
     (is_translatable field \<or>
      (case field of
         CompositeField _ fs _ \<Rightarrow> (\<exists>f \<in> set fs. has_translatable_descendant f)
       | _ \<Rightarrow> False))"

declare has_translatable_descendant.simps [simp del]

definition is_multiple :: "('pv, 'cfg, 'lay) field_schema \<Rightarrow> bool" where
  "is_multiple f = (case ft_multiple (field_base f) of Some b \<Rightarrow> b | None \<Rightarrow> False)"

definition composite_requires_uuid :: "('pv, 'cfg, 'lay) field_schema \<Rightarrow> bool" where
  "composite_requires_uuid field =
     (case field of
        CompositeField b fs _ \<Rightarrow>
          (case ft_multiple b of Some m \<Rightarrow> m | None \<Rightarrow> False) \<and> (\<exists>f \<in> set fs. has_translatable_descendant f)
      | _ \<Rightarrow> False)"

definition is_required :: "('pv, 'cfg, 'lay) field_schema \<Rightarrow> bool" where
  "is_required f = (case ft_required (field_base f) of Some b \<Rightarrow> b | None \<Rightarrow> False)"

section \<open>The resolvers of the server\<close>

definition MAX_INHERITANCE_DEPTH :: nat where
  "MAX_INHERITANCE_DEPTH = 20"

datatype resolve_error =
    RepositoryError string
  | NotFound string
  | CircularDependency "string list" string    \<comment> \<open>the chain and the name met again\<close>
  | MaxDepthExceeded "string list"
  | UnknownType string string
  | CircularInheritance string "string list"
  | MaxInheritanceDepth string nat
  | NotPublished string
  | PinnedRevisionMissing string

record ('t, 'f, 'l) type_ops =
  op_extends :: "'t \<Rightarrow> string option"
  op_fields :: "'t \<Rightarrow> 'f list"
  op_layout :: "'t \<Rightarrow> 'l option"
  op_strict :: "'t \<Rightarrow> bool option"
  op_name :: "'f \<Rightarrow> string"

record ('t, 'f, 'l) resolved_type =
  rt_definition :: 't
  rt_fields :: "'f list"
  rt_layout :: "'l option"
  rt_inheritance_chain :: "string list"
  rt_strict :: bool

definition insert_fields :: "('f \<Rightarrow> string) \<Rightarrow> 'f list \<Rightarrow> (string, 'f) hash_map \<Rightarrow> (string, 'f) hash_map" where
  "insert_fields nm fs m = foldl (\<lambda>m f. hm_insert (nm f) f m) m fs"

text \<open>\<open>into_values().collect()\<close> followed by the sort by name.\<close>

definition sorted_values :: "('f \<Rightarrow> string) \<Rightarrow> (string, 'f) hash_map \<Rightarrow> 'f list" where
  "sorted_values nm m = sort_by (\<lambda>a b. cmp_of (nm a) (nm b)) (map snd m)"

function resolve_recursive ::
  "('t, 'f, 'l) type_ops \<Rightarrow> (string \<Rightarrow> resolve_error + 't option) \<Rightarrow> string \<Rightarrow> string hash_set \<Rightarrow> string list \<Rightarrow>
   resolve_error + ('t, 'f, 'l) resolved_type \<times> string hash_set \<times> string list" where
  "resolve_recursive ops fetch name visited chain =
     (if name \<in> set visited then Inl (CircularDependency chain name)
      else if length chain \<ge> MAX_INHERITANCE_DEPTH then Inl (MaxDepthExceeded chain)
      else let visited = name # visited; chain = chain @ [name] in
        case fetch name of
          Inl e \<Rightarrow> Inl e
        | Inr None \<Rightarrow> Inl (NotFound name)
        | Inr (Some t) \<Rightarrow>
            (case (case op_extends ops t of
                     None \<Rightarrow> Inr ([], None, False, visited, chain)
                   | Some parent \<Rightarrow>
                       (case resolve_recursive ops fetch parent visited chain of
                          Inl e \<Rightarrow> Inl e
                        | Inr (r, visited, chain) \<Rightarrow>
                            Inr (insert_fields (op_name ops) (rt_fields r) [], rt_layout r, rt_strict r,
                                 visited, chain))) of
               Inl e \<Rightarrow> Inl e
             | Inr (field_map, layout, strict, visited, chain) \<Rightarrow>
                 Inr (\<lparr>rt_definition = t,
                       rt_fields = sorted_values (op_name ops) (insert_fields (op_name ops) (op_fields ops t) field_map),
                       rt_layout = (case op_layout ops t of Some l \<Rightarrow> Some l | None \<Rightarrow> layout),
                       rt_inheritance_chain = chain,
                       rt_strict = (case op_strict ops t of Some s \<Rightarrow> s | None \<Rightarrow> strict)\<rparr>,
                      visited, chain)))"
  by pat_completeness auto
termination
  by (relation "measure (\<lambda>(_, _, _, _, chain). MAX_INHERITANCE_DEPTH - length chain)") auto

declare resolve_recursive.simps [simp del]

definition resolve_type ::
  "('t, 'f, 'l) type_ops \<Rightarrow> (string \<Rightarrow> resolve_error + 't option) \<Rightarrow> string \<Rightarrow> resolve_error + ('t, 'f, 'l) resolved_type" where
  "resolve_type ops fetch name =
     (case resolve_recursive ops fetch name [] [] of Inl e \<Rightarrow> Inl e | Inr (r, _, _) \<Rightarrow> Inr r)"

definition validate_exists_and_published ::
  "('t \<Rightarrow> bool option) \<Rightarrow> (string \<Rightarrow> resolve_error + 't option) \<Rightarrow> string \<Rightarrow> resolve_error + unit" where
  "validate_exists_and_published publishable fetch name =
     (case fetch name of
        Inl e \<Rightarrow> Inl e
      | Inr None \<Rightarrow> Inl (NotFound name)
      | Inr (Some t) \<Rightarrow> if publishable t = Some True then Inr () else Inl (NotPublished name))"

text \<open>Element types and archetypes, with the fields the resolvers read.\<close>

record ('pv, 'cfg, 'lay) element_type =
  et_name :: string
  et_extends :: "string option"
  et_fields :: "('pv, 'cfg, 'lay) field_schema list"
  et_layout :: "'lay list option"
  et_publishable :: "bool option"
  et_strict :: "bool option"

record ('pv, 'cfg, 'lay) archetype =
  at_name :: string
  at_extends :: "string option"
  at_base_node_type :: "string option"
  at_fields :: "('pv, 'cfg, 'lay) field_schema list option"
  at_layout :: "'lay list option"
  at_publishable :: "bool option"
  at_strict :: "bool option"

definition element_ops :: "(('pv, 'cfg, 'lay) element_type, ('pv, 'cfg, 'lay) field_schema, 'lay list) type_ops" where
  "element_ops = \<lparr>op_extends = et_extends, op_fields = et_fields, op_layout = et_layout, op_strict = et_strict,
     op_name = base_name\<rparr>"

definition archetype_ops :: "(('pv, 'cfg, 'lay) archetype, ('pv, 'cfg, 'lay) field_schema, 'lay list) type_ops" where
  "archetype_ops = \<lparr>op_extends = at_extends,
     op_fields = (\<lambda>a. case at_fields a of Some fs \<Rightarrow> fs | None \<Rightarrow> []), op_layout = at_layout,
     op_strict = at_strict, op_name = base_name\<rparr>"

definition resolve_element_type ::
  "(string \<Rightarrow> resolve_error + ('pv, 'cfg, 'lay) element_type option) \<Rightarrow> string \<Rightarrow>
   resolve_error + (('pv, 'cfg, 'lay) element_type, ('pv, 'cfg, 'lay) field_schema, 'lay list) resolved_type" where
  "resolve_element_type = resolve_type element_ops"

definition resolve_archetype ::
  "(string \<Rightarrow> resolve_error + ('pv, 'cfg, 'lay) archetype option) \<Rightarrow> string \<Rightarrow>
   resolve_error + (('pv, 'cfg, 'lay) archetype, ('pv, 'cfg, 'lay) field_schema, 'lay list) resolved_type" where
  "resolve_archetype = resolve_type archetype_ops"

section \<open>The shared crate\<close>

record ('t, 'f) shared_resolved =
  sr_definition :: 't
  sr_resolved_fields :: "'f list"
  sr_is_strict :: bool
  sr_inheritance_chain :: "string list"

definition merge_parent_fields :: "('f \<Rightarrow> string) \<Rightarrow> 'f list \<Rightarrow> 'f list \<Rightarrow> 'f list" where
  "merge_parent_fields nm all_fields parent_fields =
     foldl (\<lambda>acc f. if \<exists>g \<in> set acc. nm g = nm f then acc else acc @ [f]) all_fields parent_fields"

function resolve_inheritance_loop ::
  "('t, 'f, 'l) type_ops \<Rightarrow> (string \<Rightarrow> resolve_error + 't option) \<Rightarrow> string \<Rightarrow> string option \<Rightarrow> nat \<Rightarrow>
   string hash_set \<Rightarrow> string list \<Rightarrow> 'f list \<Rightarrow> bool option \<Rightarrow>
   resolve_error + string list \<times> 'f list \<times> bool option" where
  "resolve_inheritance_loop ops load tname current depth visited chain all_fields is_strict =
     (case current of
        None \<Rightarrow> Inr (chain, all_fields, is_strict)
      | Some parent_name \<Rightarrow>
          let depth = Suc depth in
          if depth > MAX_INHERITANCE_DEPTH then Inl (MaxInheritanceDepth tname MAX_INHERITANCE_DEPTH)
          else if parent_name \<in> set visited then Inl (CircularInheritance tname chain)
          else case load parent_name of
            Inl e \<Rightarrow> Inl e
          | Inr None \<Rightarrow> Inl (UnknownType tname parent_name)
          | Inr (Some parent) \<Rightarrow>
              resolve_inheritance_loop ops load tname (op_extends ops parent) depth (parent_name # visited)
                (chain @ [parent_name]) (merge_parent_fields (op_name ops) all_fields (op_fields ops parent))
                (case is_strict of None \<Rightarrow> op_strict ops parent | Some s \<Rightarrow> Some s))"
  by pat_completeness auto
termination
  by (relation "measure (\<lambda>(_, _, _, _, depth, _). Suc MAX_INHERITANCE_DEPTH - depth)") auto

declare resolve_inheritance_loop.simps [simp del]

definition resolve_inheritance ::
  "('t, 'f, 'l) type_ops \<Rightarrow> (string \<Rightarrow> resolve_error + 't option) \<Rightarrow> 't \<Rightarrow> string \<Rightarrow>
   resolve_error + ('t, 'f) shared_resolved" where
  "resolve_inheritance ops load type_def type_name =
     (case resolve_inheritance_loop ops load type_name (op_extends ops type_def) 0 [type_name] [type_name]
             (op_fields ops type_def) (op_strict ops type_def) of
        Inl e \<Rightarrow> Inl e
      | Inr (chain, all_fields, is_strict) \<Rightarrow>
          Inr \<lparr>sr_definition = type_def, sr_resolved_fields = all_fields,
               sr_is_strict = (case is_strict of Some s \<Rightarrow> s | None \<Rightarrow> False),
               sr_inheritance_chain = rev chain\<rparr>)"

section \<open>Lineages\<close>

inductive lineage ::
  "('t, 'f, 'l) type_ops \<Rightarrow> (string \<Rightarrow> resolve_error + 't option) \<Rightarrow> string \<Rightarrow> (string \<times> 't) list \<Rightarrow> bool"
  for ops fetch where
  root: "\<lbrakk>fetch name = Inr (Some t); op_extends ops t = None\<rbrakk> \<Longrightarrow> lineage ops fetch name [(name, t)]"
| step: "\<lbrakk>fetch name = Inr (Some t); op_extends ops t = Some p; lineage ops fetch p ts\<rbrakk>
    \<Longrightarrow> lineage ops fetch name ((name, t) # ts)"

inductive_cases lineage_emptyE: "lineage ops fetch name []"
inductive_cases lineage_consE: "lineage ops fetch name (x # ts)"

lemma lineage_unique: "lineage ops fetch name ts \<Longrightarrow> lineage ops fetch name ts' \<Longrightarrow> ts = ts'"
proof (induction arbitrary: ts' rule: lineage.induct)
  case (root name t)
  from root(3,1,2) show ?case by (cases rule: lineage.cases) simp_all
next
  case (step name t p ts)
  from step(5) show ?case by (cases rule: lineage.cases) (use step(1,2,4) in simp_all)
qed

lemma lineage_suffix: "lineage ops fetch name (xs @ (m, t) # ys) \<Longrightarrow> lineage ops fetch m ((m, t) # ys)"
proof (induction xs arbitrary: name)
  case Nil
  then show ?case by (auto elim: lineage_consE intro: lineage.intros)
next
  case (Cons x xs)
  then show ?case by (auto elim: lineage_consE)
qed

lemma map_fst_split:
  "map fst ts = as @ m # rest \<Longrightarrow> \<exists>xs t ys. ts = xs @ (m, t) # ys \<and> map fst ys = rest"
  unfolding map_eq_append_conv map_eq_Cons_conv by clarsimp blast

lemma lineage_distinct:
  assumes "lineage ops fetch name ts"
  shows "distinct (map fst ts)"
proof (rule ccontr)
  assume "\<not> distinct (map fst ts)"
  then obtain as bs cs m where "map fst ts = as @ [m] @ bs @ [m] @ cs" using not_distinct_decomp by blast
  then obtain xs t rest where "ts = xs @ (m, t) # rest" "map fst rest = bs @ m # cs"
    using map_fst_split [of ts as m "bs @ m # cs"] by auto
  moreover from this obtain ys u zs where "rest = ys @ (m, u) # zs" using map_fst_split [of rest bs m cs] by auto
  ultimately have ts: "ts = xs @ (m, t) # (ys @ (m, u) # zs)" by simp
  from assms have "lineage ops fetch m ((m, t) # ys @ (m, u) # zs)" "lineage ops fetch m ((m, u) # zs)"
    unfolding ts using lineage_suffix [of ops fetch name xs m t "ys @ (m, u) # zs"]
      lineage_suffix [of ops fetch name "xs @ (m, t) # ys" m u zs] by simp_all
  from lineage_unique [OF this] have "length ((m, t) # ys @ (m, u) # zs) = length ((m, u) # zs)" by simp
  then show False by simp
qed

lemma lineage_hd: "lineage ops fetch name ts \<Longrightarrow> \<exists>t us. ts = (name, t) # us \<and> fetch name = Inr (Some t)"
  by (auto elim: lineage.cases)

lemma lineage_fetched: "lineage ops fetch name ts \<Longrightarrow> (m, t) \<in> set ts \<Longrightarrow> fetch m = Inr (Some t)"
  by (induction rule: lineage.induct) auto

text \<open>What the nearest type of a lineage says.\<close>

primrec nearest :: "('t \<Rightarrow> 'a option) \<Rightarrow> (string \<times> 't) list \<Rightarrow> 'a option" where
  "nearest f [] = None"
| "nearest f (x # xs) = (case f (snd x) of Some a \<Rightarrow> Some a | None \<Rightarrow> nearest f xs)"

definition by_name :: "('f \<Rightarrow> string) \<Rightarrow> 'f list \<Rightarrow> string \<rightharpoonup> 'f" where
  "by_name nm fs = map_of (map (\<lambda>f. (nm f, f)) fs)"

text \<open>A type that declares a name twice means the last declaration.\<close>

definition declared :: "('t, 'f, 'l) type_ops \<Rightarrow> string \<Rightarrow> 't \<Rightarrow> 'f option" where
  "declared ops k t = by_name (op_name ops) (rev (op_fields ops t)) k"

definition inherits :: "('t, 'f, 'l) type_ops \<Rightarrow> (string \<times> 't) list \<Rightarrow> ('t, 'f, 'l) resolved_type \<Rightarrow> bool" where
  "inherits ops ts r \<longleftrightarrow>
     rt_definition r = snd (hd ts) \<and> rt_inheritance_chain r = map fst ts \<and>
     rt_strict r = (nearest (op_strict ops) ts = Some True) \<and> rt_layout r = nearest (op_layout ops) ts \<and>
     sorted_wrt (<) (map (op_name ops) (rt_fields r)) \<and>
     by_name (op_name ops) (rt_fields r) = (\<lambda>k. nearest (declared ops k) ts)"

section \<open>Maps of fields\<close>

definition keyed :: "('f \<Rightarrow> string) \<Rightarrow> (string, 'f) hash_map \<Rightarrow> bool" where
  "keyed nm m \<longleftrightarrow> hm_wf m \<and> (\<forall>(k, f) \<in> set m. nm f = k)"

lemma keyed_Nil [simp]: "keyed nm []"
  by (simp add: keyed_def)

lemma keyed_insert: "keyed nm m \<Longrightarrow> keyed nm (hm_insert (nm f) f m)"
  using update_conv' [of "nm f" f m] unfolding keyed_def
  by (auto simp: hm_get_mem simp del: fun_upd_apply) (auto simp: fun_upd_def split: if_splits)

lemma insert_fields_snoc: "insert_fields nm (fs @ [f]) m = hm_insert (nm f) f (insert_fields nm fs m)"
  by (simp add: insert_fields_def)

lemma keyed_insert_fields: "keyed nm m \<Longrightarrow> keyed nm (insert_fields nm fs m)"
  by (induction fs rule: rev_induct) (simp_all add: insert_fields_snoc keyed_insert, simp add: insert_fields_def)

lemma insert_fields_get:
  "hm_get (insert_fields nm fs m) = hm_get m ++ by_name nm (rev fs)"
proof (induction fs rule: rev_induct)
  case (snoc f fs)
  then show ?case by (auto simp: insert_fields_snoc hm_simps by_name_def map_add_def)
qed (simp add: insert_fields_def by_name_def)

lemma keyed_values: "keyed nm m \<Longrightarrow> map (\<lambda>f. (nm f, f)) (map snd m) = m"
  by (induction m) (auto simp: keyed_def)

lemma by_name_values: "keyed nm m \<Longrightarrow> by_name nm (map snd m) = hm_get m"
  unfolding by_name_def by (subst keyed_values) simp_all

lemma keyed_names: "keyed nm m \<Longrightarrow> distinct (map nm (map snd m))"
  by (induction m) (auto simp: keyed_def rev_image_eqI)

lemma by_name_Some:
  "distinct (map nm fs) \<Longrightarrow> by_name nm fs k = Some f \<longleftrightarrow> f \<in> set fs \<and> nm f = k"
  unfolding by_name_def by (subst map_of_eq_Some_iff) (auto simp: o_def)

lemma by_name_dom: "dom (by_name nm fs) = nm ` set fs"
  by (auto simp: by_name_def dom_map_of_conv_image_fst image_image)

lemma by_name_cong_set:
  assumes "distinct (map nm fs)" and "distinct (map nm gs)" and "set fs = set gs"
  shows "by_name nm fs = by_name nm gs"
proof
  fix k
  show "by_name nm fs k = by_name nm gs k"
    using by_name_Some [OF assms(1), of k] by_name_Some [OF assms(2), of k] assms(3)
    by (cases "by_name nm fs k"; cases "by_name nm gs k") auto
qed

lemma sorted_values_sorted:
  assumes "keyed nm m"
  shows "sorted_wrt (<) (map nm (sorted_values nm m))"
proof -
  let ?c = "\<lambda>a b. cmp_of (nm a) (nm b)"
  have "sorted_wrt (\<lambda>a b. ?c a b \<noteq> Greater) (sorted_values nm m)"
    unfolding sorted_values_def by (rule rust_cmp.sorted_sort_by [OF rust_cmp_key [where A = UNIV]]) simp
  then have "sorted (map nm (sorted_values nm m))"
    by (simp add: sorted_map cmp_simps not_less sorted_wrt_mono_rel)
  moreover have "distinct (map nm (sorted_values nm m))"
    using keyed_names [OF assms] by (simp add: sorted_values_def)
  ultimately show ?thesis by (simp add: strict_sorted_iff)
qed

lemma sorted_values_by_name:
  assumes "keyed nm m"
  shows "by_name nm (sorted_values nm m) = hm_get m"
  using by_name_cong_set [of nm "sorted_values nm m" "map snd m"] keyed_names [OF assms] by_name_values [OF assms]
  by (simp add: sorted_values_def)

text \<open>The iteration order of the map does not show in the result.\<close>

lemma sorted_values_any_order:
  assumes "keyed nm m" and "mset vs = mset (map snd m)"
  shows "sort_by (\<lambda>a b. cmp_of (nm a) (nm b)) vs = sorted_values nm m"
  unfolding sorted_values_def
proof (rule rust_cmp.sort_by_perm [OF rust_cmp_key [where A = UNIV]])
  have names: "distinct (map nm (map snd m))" by (rule keyed_names [OF assms(1)])
  then show "distinct (map snd m)" by (simp add: distinct_map del: map_map)
  show "x = y" if "x \<in> set (map snd m)" "y \<in> set (map snd m)" "cmp_of (nm x) (nm y) = Equal" for x y
    using names that unfolding distinct_map cmp_simps by (blast dest: inj_onD)
qed (use assms(2) in simp_all)

lemma sorted_fields_unique:
  assumes "sorted_wrt (<) (map nm fs)" and "sorted_wrt (<) (map nm gs)" and "by_name nm fs = by_name nm gs"
  shows "fs = gs"
proof -
  have d: "distinct (map nm fs)" "distinct (map nm gs)" using assms(1,2) by (simp_all add: strict_sorted_iff)
  have "nm ` set fs = nm ` set gs" using assms(3) by_name_dom by metis
  then have names: "map nm fs = map nm gs"
    using assms(1,2) sorted_distinct_set_unique [of "map nm fs" "map nm gs"] by (simp add: strict_sorted_iff)
  have "set fs = set gs"
    using by_name_Some [OF d(1)] by_name_Some [OF d(2)] assms(3) by (metis subsetI subset_antisym)
  with names d(1) show ?thesis
    by (metis distinct_map map_inj_on sup.idem)
qed

section \<open>Resolution follows the lineage\<close>

lemma by_name_nearest:
  "(\<lambda>k. nearest (declared ops k) ((n, t) # ts)) =
     (\<lambda>k. nearest (declared ops k) ts) ++ by_name (op_name ops) (rev (op_fields ops t))"
  by (auto simp: map_add_def declared_def fun_eq_iff split: option.splits)

lemma by_name_insert_fields:
  assumes "sorted_wrt (<) (map nm fs)"
  shows "hm_get (insert_fields nm fs []) = by_name nm fs"
proof -
  have "distinct (map nm fs)" using assms by (simp add: strict_sorted_iff)
  then show ?thesis
    using by_name_cong_set [of nm "rev fs" fs] 
    by (simp add: insert_fields_get rev_map [symmetric])
qed

lemma merged_fields:
  assumes "keyed nm m"
  shows "sorted_wrt (<) (map nm (sorted_values nm (insert_fields nm fs m)))"
    and "by_name nm (sorted_values nm (insert_fields nm fs m)) = hm_get m ++ by_name nm (rev fs)"
  using sorted_values_sorted [OF keyed_insert_fields [OF assms]]
    sorted_values_by_name [OF keyed_insert_fields [OF assms]] by (simp_all add: insert_fields_get)

text \<open>The result of the walk below a chain already walked.\<close>

definition walked ::
  "('t, 'f, 'l) type_ops \<Rightarrow> string list \<Rightarrow> (string \<times> 't) list \<Rightarrow> ('t, 'f, 'l) resolved_type \<Rightarrow> bool" where
  "walked ops chain ts r \<longleftrightarrow>
     (\<exists>r'. inherits ops ts r' \<and> r = r'\<lparr>rt_inheritance_chain := chain @ map fst ts\<rparr>)"

lemma walked_root:
  "op_extends ops t = None \<Longrightarrow>
   walked ops chain [(name, t)]
     \<lparr>rt_definition = t, rt_fields = sorted_values (op_name ops) (insert_fields (op_name ops) (op_fields ops t) []),
      rt_layout = (case op_layout ops t of Some l \<Rightarrow> Some l | None \<Rightarrow> None), rt_inheritance_chain = chain @ [name],
      rt_strict = (case op_strict ops t of Some s \<Rightarrow> s | None \<Rightarrow> False)\<rparr>"
  unfolding walked_def inherits_def
  by (rule exI [of _ "\<lparr>rt_definition = t,
        rt_fields = sorted_values (op_name ops) (insert_fields (op_name ops) (op_fields ops t) []),
        rt_layout = op_layout ops t, rt_inheritance_chain = [name], rt_strict = (op_strict ops t = Some True)\<rparr>"])
    (auto simp: merged_fields by_name_nearest simp del: nearest.simps(2) split: option.splits, auto split: option.splits)

lemma walked_step:
  assumes "walked ops (chain @ [name]) ts r"
  shows "walked ops chain ((name, t) # ts)
     \<lparr>rt_definition = t,
      rt_fields = sorted_values (op_name ops)
        (insert_fields (op_name ops) (op_fields ops t) (insert_fields (op_name ops) (rt_fields r) [])),
      rt_layout = (case op_layout ops t of Some l \<Rightarrow> Some l | None \<Rightarrow> rt_layout r),
      rt_inheritance_chain = chain @ name # map fst ts,
      rt_strict = (case op_strict ops t of Some s \<Rightarrow> s | None \<Rightarrow> rt_strict r)\<rparr>" (is "walked _ _ _ ?r")
proof -
  obtain r' where r': "inherits ops ts r'" and r: "r = r'\<lparr>rt_inheritance_chain := (chain @ [name]) @ map fst ts\<rparr>"
    using assms by (auto simp: walked_def)
  have fields: "keyed (op_name ops) (insert_fields (op_name ops) (rt_fields r) [])"
      "hm_get (insert_fields (op_name ops) (rt_fields r) []) = (\<lambda>k. nearest (declared ops k) ts)"
    using r' r by (simp_all add: inherits_def keyed_insert_fields by_name_insert_fields)
  have "inherits ops ((name, t) # ts) (?r\<lparr>rt_inheritance_chain := name # map fst ts\<rparr>)"
    unfolding inherits_def by_name_nearest using r' r merged_fields [OF fields(1), of "op_fields ops t"] fields(2)
    by (simp add: inherits_def split: option.split)
  then show ?thesis
    unfolding walked_def by (rule exI [of _ "?r\<lparr>rt_inheritance_chain := name # map fst ts\<rparr>", OF conjI]) simp
qed

lemma walk_succeeds:
  assumes "lineage ops fetch name ts" and "length chain + length ts \<le> MAX_INHERITANCE_DEPTH"
    and "set visited \<inter> fst ` set ts = {}"
  shows "\<exists>r v. resolve_recursive ops fetch name visited chain = Inr (r, v, chain @ map fst ts) \<and> walked ops chain ts r"
  using assms
proof (induction arbitrary: visited chain rule: lineage.induct)
  case (root name t)
  then show ?case
    by (subst resolve_recursive.simps) (use walked_root [of ops t chain name] in \<open>simp add: Let_def\<close>)
next
  case (step name t p ts)
  have names: "name \<notin> fst ` set ts"
    using lineage_distinct [OF lineage.step [OF step(1,2,3)]] by simp
  obtain r v where r: "resolve_recursive ops fetch p (name # visited) (chain @ [name]) = Inr (r, v, (chain @ [name]) @ map fst ts)"
    and w: "walked ops (chain @ [name]) ts r"
    using step.IH [of "chain @ [name]" "name # visited"] step.prems names by auto
  show ?case
    by (subst resolve_recursive.simps) (use step.hyps step.prems r walked_step [OF w] in \<open>simp add: Let_def\<close>)
qed

lemma walk_has_lineage:
  "resolve_recursive ops fetch name visited chain = Inr (r, v, c) \<Longrightarrow>
   \<exists>ts. lineage ops fetch name ts \<and> length chain + length ts \<le> MAX_INHERITANCE_DEPTH \<and> set visited \<inter> fst ` set ts = {}"
proof (induction ops fetch name visited chain arbitrary: r v c rule: resolve_recursive.induct)
  case (1 ops fetch name visited chain)
  from "1.prems" obtain t where t: "name \<notin> set visited" "length chain < MAX_INHERITANCE_DEPTH" "fetch name = Inr (Some t)"
    by (subst (asm) resolve_recursive.simps) (auto simp: Let_def split: if_splits sum.splits option.splits)
  show ?case
  proof (cases "op_extends ops t")
    case None
    with t show ?thesis by (intro exI [of _ "[(name, t)]"]) (auto intro: lineage.root)
  next
    case (Some p)
    from "1.prems" t Some obtain r' v' c' where
        "resolve_recursive ops fetch p (name # visited) (chain @ [name]) = Inr (r', v', c')"
      by (subst (asm) resolve_recursive.simps) (auto simp: Let_def split: sum.splits)
    from "1.IH" [OF _ _ refl refl t(3) refl Some this] t obtain ts where
        "lineage ops fetch p ts" "length (chain @ [name]) + length ts \<le> MAX_INHERITANCE_DEPTH"
        "set (name # visited) \<inter> fst ` set ts = {}" by auto
    with t Some show ?thesis by (intro exI [of _ "(name, t) # ts"]) (auto intro: lineage.step)
  qed
qed

lemma inherits_unique: "inherits ops ts r \<Longrightarrow> inherits ops ts r' \<Longrightarrow> r = r'"
  unfolding inherits_def by (auto intro!: resolved_type.equality sorted_fields_unique [of "op_name ops"])

lemma walked_Nil: "walked ops [] ts r \<longleftrightarrow> inherits ops ts r"
  by (auto simp: walked_def inherits_def intro!: exI [of _ r])

lemma resolve_type_iff:
  "resolve_type ops fetch name = Inr r \<longleftrightarrow>
     (\<exists>ts. lineage ops fetch name ts \<and> length ts \<le> MAX_INHERITANCE_DEPTH \<and> inherits ops ts r)"
proof
  assume "resolve_type ops fetch name = Inr r"
  then obtain v c where res: "resolve_recursive ops fetch name [] [] = Inr (r, v, c)"
    by (auto simp: resolve_type_def split: sum.splits)
  then obtain ts where ts: "lineage ops fetch name ts" "length ts \<le> MAX_INHERITANCE_DEPTH"
    using walk_has_lineage by fastforce
  with res show "\<exists>ts. lineage ops fetch name ts \<and> length ts \<le> MAX_INHERITANCE_DEPTH \<and> inherits ops ts r"
    using walk_succeeds [of ops fetch name ts "[]" "[]"] by (force simp: walked_Nil)
next
  assume "\<exists>ts. lineage ops fetch name ts \<and> length ts \<le> MAX_INHERITANCE_DEPTH \<and> inherits ops ts r"
  then obtain ts where ts: "lineage ops fetch name ts" "length ts \<le> MAX_INHERITANCE_DEPTH" "inherits ops ts r" by auto
  then obtain r' v where "resolve_recursive ops fetch name [] [] = Inr (r', v, map fst ts)" "inherits ops ts r'"
    using walk_succeeds [of ops fetch name ts "[]" "[]"] by (auto simp: walked_Nil)
  with inherits_unique [OF ts(3)] show "resolve_type ops fetch name = Inr r"
    by (simp add: resolve_type_def)
qed

lemma resolvable_iff:
  assumes "lineage ops fetch name ts"
  shows "(\<exists>r. resolve_type ops fetch name = Inr r) \<longleftrightarrow> length ts \<le> MAX_INHERITANCE_DEPTH"
proof
  assume "length ts \<le> MAX_INHERITANCE_DEPTH"
  with walk_succeeds [OF assms, of "[]" "[]"] show "\<exists>r. resolve_type ops fetch name = Inr r"
    by (auto simp: resolve_type_def)
qed (use lineage_unique [OF assms] in \<open>auto simp: resolve_type_iff\<close>)

text \<open>
  C24. Inheritance of element types and archetypes. Resolving a name succeeds exactly when following \<open>extends\<close>
  from it ends, within twenty types, at a type that extends nothing, every type on the way being in the
  repository; the chain reported is that lineage, the fields are sorted by name without duplicates, and each
  field, the layout and strictness are those of the nearest type of the lineage that declares them.
\<close>

theorem resolution_follows_lineage:
  "resolve_type ops fetch name = Inr r \<longleftrightarrow>
     (\<exists>ts. lineage ops fetch name ts \<and> length ts \<le> MAX_INHERITANCE_DEPTH \<and> inherits ops ts r)"
  by (rule resolve_type_iff)

section \<open>The two implementations\<close>

lemma by_name_append: "by_name nm (fs @ gs) = by_name nm gs ++ by_name nm fs"
  by (simp add: by_name_def)

lemma merge_parent_fields_snoc:
  "merge_parent_fields nm acc (fs @ [f]) =
     (let acc' = merge_parent_fields nm acc fs in if \<exists>g \<in> set acc'. nm g = nm f then acc' else acc' @ [f])"
  by (simp add: merge_parent_fields_def Let_def)

lemma by_name_merge: "by_name nm (merge_parent_fields nm acc fs) = by_name nm fs ++ by_name nm acc"
proof (induction fs rule: rev_induct)
  case (snoc f fs)
  let ?acc = "merge_parent_fields nm acc fs"
  show ?case
  proof (cases "\<exists>g \<in> set ?acc. nm g = nm f")
    case True
    then have "nm f \<in> dom (by_name nm ?acc)" unfolding by_name_dom by (metis imageI)
    then have "by_name nm ?acc = [nm f \<mapsto> f] ++ by_name nm ?acc"
      by (auto simp: map_add_def fun_eq_iff split: option.splits)
    with True snoc show ?thesis
      by (simp add: merge_parent_fields_snoc Let_def by_name_append) (simp add: by_name_def)
  next
    case False
    with snoc show ?thesis by (simp add: merge_parent_fields_snoc Let_def by_name_append)
  qed
qed (simp add: merge_parent_fields_def by_name_def)

definition merge_lineage :: "('t, 'f, 'l) type_ops \<Rightarrow> 'f list \<Rightarrow> (string \<times> 't) list \<Rightarrow> 'f list" where
  "merge_lineage ops fs ts = foldl (\<lambda>acc x. merge_parent_fields (op_name ops) acc (op_fields ops (snd x))) fs ts"

lemma loop_succeeds:
  assumes "lineage ops load p ts" and "depth + length ts \<le> MAX_INHERITANCE_DEPTH"
    and "set visited \<inter> fst ` set ts = {}"
  shows "resolve_inheritance_loop ops load tname (Some p) depth visited chain fs st =
    Inr (chain @ map fst ts, merge_lineage ops fs ts, case st of Some s \<Rightarrow> Some s | None \<Rightarrow> nearest (op_strict ops) ts)"
  using assms
proof (induction arbitrary: depth visited chain fs st rule: lineage.induct)
  case (root name t)
  then show ?case
    by (subst resolve_inheritance_loop.simps)
      (simp add: Let_def merge_lineage_def, subst resolve_inheritance_loop.simps, simp split: option.split)
next
  case (step name t p ts)
  have names: "name \<notin> fst ` set ts"
    using lineage_distinct [OF lineage.step [OF step(1,2,3)]] by simp
  show ?case
    by (subst resolve_inheritance_loop.simps)
      (use step names in \<open>auto simp: Let_def merge_lineage_def split: option.split\<close>)
qed

lemma loop_has_lineage:
  "resolve_inheritance_loop ops load tname cur depth visited chain fs st = Inr res \<Longrightarrow> cur = Some p \<Longrightarrow>
   \<exists>ts. lineage ops load p ts \<and> depth + length ts \<le> MAX_INHERITANCE_DEPTH \<and> set visited \<inter> fst ` set ts = {}"
proof (induction ops load tname cur depth visited chain fs st arbitrary: p rule: resolve_inheritance_loop.induct)
  case (1 ops load tname cur depth visited chain fs st)
  from "1.prems" obtain t where t: "depth < MAX_INHERITANCE_DEPTH" "p \<notin> set visited" "load p = Inr (Some t)"
    by (subst (asm) resolve_inheritance_loop.simps) (auto simp: Let_def split: if_splits sum.splits option.splits)
  let ?fs = "merge_parent_fields (op_name ops) fs (op_fields ops t)"
  let ?st = "case st of None \<Rightarrow> op_strict ops t | Some s \<Rightarrow> Some s"
  show ?case
  proof (cases "op_extends ops t")
    case None
    with t show ?thesis by (intro exI [of _ "[(p, t)]"]) (auto intro: lineage.root)
  next
    case (Some q)
    from "1.prems" t have "resolve_inheritance_loop ops load tname (op_extends ops t) (Suc depth) (p # visited)
        (chain @ [p]) ?fs ?st = Inr res"
      by (subst (asm) resolve_inheritance_loop.simps) (simp add: Let_def)
    from "1.IH" [OF "1.prems"(2) refl _ t(2,3) refl this Some] t obtain ts where
        "lineage ops load q ts" "Suc depth + length ts \<le> MAX_INHERITANCE_DEPTH" "set (p # visited) \<inter> fst ` set ts = {}"
      by auto
    with t Some show ?thesis by (intro exI [of _ "(p, t) # ts"]) (auto intro: lineage.step)
  qed
qed

lemma nearest_append: "nearest f (xs @ ys) = (case nearest f xs of Some a \<Rightarrow> Some a | None \<Rightarrow> nearest f ys)"
  by (induction xs) (auto split: option.split)

lemma by_name_merge_lineage:
  assumes "\<forall>x \<in> set ts. distinct (map (op_name ops) (op_fields ops (snd x)))"
  shows "by_name (op_name ops) (merge_lineage ops fs ts) = (\<lambda>k. nearest (declared ops k) ts) ++ by_name (op_name ops) fs"
  using assms
proof (induction ts rule: rev_induct)
  case (snoc x ts)
  have "by_name (op_name ops) (op_fields ops (snd x)) = (\<lambda>k. declared ops k (snd x))"
    using by_name_cong_set [of "op_name ops" "op_fields ops (snd x)" "rev (op_fields ops (snd x))"] snoc.prems
    by (auto simp: declared_def rev_map [symmetric])
  with snoc show ?case
    by (simp add: merge_lineage_def by_name_merge nearest_append)
      (auto simp: map_add_def fun_eq_iff split: option.split)
qed (simp add: merge_lineage_def map_add_def fun_eq_iff)

lemma shared_crate_succeeds:
  assumes "lineage ops load name ((name, t) # ts)" and "length ts \<le> MAX_INHERITANCE_DEPTH"
  shows "resolve_inheritance ops load t name =
    Inr \<lparr>sr_definition = t, sr_resolved_fields = merge_lineage ops (op_fields ops t) ts,
         sr_is_strict = (nearest (op_strict ops) ((name, t) # ts) = Some True),
         sr_inheritance_chain = rev (name # map fst ts)\<rparr>"
  using assms(1)
proof (cases rule: lineage.cases)
  case root
  then show ?thesis
    by (simp add: resolve_inheritance_def merge_lineage_def, subst resolve_inheritance_loop.simps, simp split: option.split)
next
  case (step p)
  have "name \<notin> fst ` set ts" using lineage_distinct [OF assms(1)] by simp
  with step assms(2) show ?thesis
    by (simp add: resolve_inheritance_def loop_succeeds split: option.split)
qed

lemma shared_crate_has_lineage:
  assumes "load name = Inr (Some t)" and "resolve_inheritance ops load t name = Inr v"
  shows "\<exists>ts. lineage ops load name ((name, t) # ts) \<and> length ts \<le> MAX_INHERITANCE_DEPTH"
proof (cases "op_extends ops t")
  case None
  with assms(1) show ?thesis by (intro exI [of _ "[]"]) (auto intro: lineage.root)
next
  case (Some p)
  then obtain res where "resolve_inheritance_loop ops load name (Some p) 0 [name] [name] (op_fields ops t)
      (op_strict ops t) = Inr res"
    using assms(2) by (auto simp: resolve_inheritance_def split: sum.splits)
  from loop_has_lineage [OF this refl] show ?thesis using lineage.step [where fetch = load and ops = ops, OF assms(1) Some] by auto
qed

text \<open>
  C25. The two implementations of inheritance. For a stored type, in a repository whose types declare each field
  once, whatever the resolver of the server returns the shared crate returns too: the same field for every
  name, the same strictness, the chain from the other end. The shared crate resolves one lineage more: those of
  twenty ancestors, which the server refuses because it counts the type itself.
\<close>

theorem inheritance_implementations_agree:
  assumes stored: "load name = Inr (Some t)"
    and fields: "\<forall>n u. load n = Inr (Some u) \<longrightarrow> distinct (map (op_name ops) (op_fields ops u))"
  shows "(\<forall>r. resolve_type ops load name = Inr r \<longrightarrow>
      (\<exists>v. resolve_inheritance ops load t name = Inr v \<and>
        by_name (op_name ops) (sr_resolved_fields v) = by_name (op_name ops) (rt_fields r) \<and>
        sr_is_strict v = rt_strict r \<and> sr_inheritance_chain v = rev (rt_inheritance_chain r))) \<and>
    (\<forall>v. resolve_inheritance ops load t name = Inr v \<longrightarrow>
      (\<exists>r. resolve_type ops load name = Inr r) \<noteq> (length (sr_inheritance_chain v) = Suc MAX_INHERITANCE_DEPTH))"
proof (intro conjI allI impI)
  fix r
  assume "resolve_type ops load name = Inr r"
  then obtain ts where ts: "lineage ops load name ts" "length ts \<le> MAX_INHERITANCE_DEPTH" "inherits ops ts r"
    by (auto simp: resolve_type_iff)
  with lineage_hd [OF ts(1)] stored obtain us where us: "ts = (name, t) # us" by auto
  have "distinct (map (op_name ops) (op_fields ops (snd x)))" if "x \<in> set ts" for x
    using lineage_fetched [OF ts(1), of "fst x" "snd x"] that fields by simp
  moreover from fields stored have "distinct (map (op_name ops) (op_fields ops t))" by blast
  ultimately have "by_name (op_name ops) (merge_lineage ops (op_fields ops t) us) =
      (\<lambda>k. nearest (declared ops k) us) ++ by_name (op_name ops) (op_fields ops t)"
    and "by_name (op_name ops) (op_fields ops t) = by_name (op_name ops) (rev (op_fields ops t))"
    using by_name_cong_set [of "op_name ops" "op_fields ops t" "rev (op_fields ops t)"]
    by (simp_all add: us by_name_merge_lineage rev_map [symmetric])
  with ts us show "\<exists>v. resolve_inheritance ops load t name = Inr v \<and>
        by_name (op_name ops) (sr_resolved_fields v) = by_name (op_name ops) (rt_fields r) \<and>
        sr_is_strict v = rt_strict r \<and> sr_inheritance_chain v = rev (rt_inheritance_chain r)"
    by (simp add: shared_crate_succeeds inherits_def by_name_nearest del: nearest.simps)
next
  fix v
  assume v: "resolve_inheritance ops load t name = Inr v"
  obtain ts where ts: "lineage ops load name ((name, t) # ts)" "length ts \<le> MAX_INHERITANCE_DEPTH"
    using shared_crate_has_lineage [OF stored v] by auto
  have "(\<exists>r. resolve_type ops load name = Inr r) \<longleftrightarrow> Suc (length ts) \<le> MAX_INHERITANCE_DEPTH"
    using resolvable_iff [OF ts(1)] by simp
  moreover have "length (sr_inheritance_chain v) = Suc (length ts)" using shared_crate_succeeds [OF ts] v by auto
  ultimately show "(\<exists>r. resolve_type ops load name = Inr r) \<noteq> (length (sr_inheritance_chain v) = Suc MAX_INHERITANCE_DEPTH)"
    using ts(2) by auto
qed

definition demo_field :: "string \<Rightarrow> (unit, unit, unit) field_schema" where
  "demo_field name = TextField \<lparr>ft_name = name, ft_title = None, ft_label = None, ft_required = None, ft_description = None,
     ft_help_text = None, ft_default_value = None, ft_validations = None, ft_is_hidden = None, ft_multiple = None,
     ft_design_value = None, ft_translatable = None, ft_index = None, ft_meta = None, ft_encrypted = None\<rparr> None"

definition demo_element :: "string \<Rightarrow> string option \<Rightarrow> string list \<Rightarrow> bool option \<Rightarrow> (unit, unit, unit) element_type" where
  "demo_element name extends fs strict = \<lparr>et_name = name, et_extends = extends, et_fields = map demo_field fs,
     et_layout = None, et_publishable = Some True, et_strict = strict\<rparr>"

definition demo_elements :: "string \<Rightarrow> resolve_error + (unit, unit, unit) element_type option" where
  "demo_elements name =
     (if name = ''Child'' then Inr (Some (demo_element ''Child'' (Some ''Base'') [''title'', ''body''] None))
      else if name = ''Base'' then Inr (Some (demo_element ''Base'' None [''title'', ''author''] (Some True)))
      else Inr None)"

lemma demo_elements_fields:
  "\<forall>n u. demo_elements n = Inr (Some u) \<longrightarrow> distinct (map (op_name element_ops) (op_fields element_ops u))"
  by (auto simp: demo_elements_def demo_element_def demo_field_def element_ops_def base_name_def split: if_splits)

theorem inheritance_implementations_agree_witness:
  "\<exists>r v. resolve_type element_ops demo_elements ''Child'' = Inr r \<and>
     map base_name (rt_fields r) = [''author'', ''body'', ''title''] \<and> rt_strict r \<and>
     resolve_inheritance element_ops demo_elements (demo_element ''Child'' (Some ''Base'') [''title'', ''body''] None) ''Child'' = Inr v \<and>
     by_name base_name (sr_resolved_fields v) = by_name base_name (rt_fields r) \<and>
     sr_inheritance_chain v = [''Base'', ''Child''] \<and> sr_is_strict v"
proof -
  let ?t = "demo_element ''Child'' (Some ''Base'') [''title'', ''body''] None"
  have "case resolve_type element_ops demo_elements ''Child'' of Inl _ \<Rightarrow> False
    | Inr r \<Rightarrow> map base_name (rt_fields r) = [''author'', ''body'', ''title''] \<and> rt_strict r \<and>
        rt_inheritance_chain r = [''Child'', ''Base'']"
    by code_simp
  moreover have stored: "demo_elements ''Child'' = Inr (Some ?t)" by (simp add: demo_elements_def)
  ultimately show ?thesis
    using inheritance_implementations_agree [where ops = element_ops and load = demo_elements, OF stored demo_elements_fields]
    by (auto simp: element_ops_def split: sum.splits)
qed

end
