(* ===== verification/Node_Type_Resolver.thy ===== *)
theory Node_Type_Resolver
  imports Field_Types Hlc
begin

text \<open>
  Node types and the resolution of their inheritance: \<open>raisin-models/src/nodes/types/node_type/model/definition.rs\<close>,
  \<open>raisin-core/src/services/node_type_resolver/\<close> and \<open>indexing_policy.rs\<close>.

  A node type extends one parent, applies any number of mixins and overrides default values. The
  resolver recurses into the parent with the set of visited names and the chain of the caller, and
  into each mixin with a fresh set and a fresh chain. So a cycle of \<open>extends\<close> is caught and a long
  chain refused, while a cycle through a mixin is not: the recursion is over fuel, \<open>None\<close> when it runs
  out, and both facts are theorems (\<open>node_type_resolution_returns\<close>, \<open>mixin_cycle_never_returns\<close>).

  The repository is the parameter \<open>fetch\<close>, with the revision up to which a type is read. The fields of a
  property schema that no step reads are the parameter \<open>ps_rest\<close>; those of a node type are left out.
\<close>

section \<open>Node types\<close>

record ('pv, 'r) property_value_schema =
  ps_name :: "string option"
  ps_default :: "'pv option"
  ps_index :: "index_type list option"
  ps_encrypted :: "bool option"
  ps_rest :: 'r

record 'col compound_index_definition =
  ci_name :: string
  ci_columns :: "'col list"
  ci_has_order_column :: bool

record ('pv, 'r, 'col) node_type =
  nt_name :: string
  nt_extends :: "string option"
  nt_mixins :: "string list"
  nt_overrides :: "(string, 'pv) hash_map option"
  nt_properties :: "('pv, 'r) property_value_schema list option"
  nt_allowed_children :: "string list"
  nt_publishable :: "bool option"
  nt_indexable :: "bool option"
  nt_index_types :: "index_type list option"
  nt_compound_indexes :: "'col compound_index_definition list option"

record ('pv, 'r, 'col) resolved_node_type =
  rn_node_type :: "('pv, 'r, 'col) node_type"
  rn_resolved_properties :: "('pv, 'r) property_value_schema list"
  rn_resolved_allowed_children :: "string list"
  rn_resolved_mixins :: "string list"
  rn_resolved_indexable :: bool
  rn_resolved_index_types :: "index_type list"
  rn_resolved_compound_indexes :: "'col compound_index_definition list"
  rn_inheritance_chain :: "string list"

definition is_published :: "('pv, 'r, 'col) node_type \<Rightarrow> bool" where
  "is_published t = (case nt_publishable t of Some b \<Rightarrow> b | None \<Rightarrow> False)"

definition push_unique :: "string list \<Rightarrow> string \<Rightarrow> string list" where
  "push_unique list name = (if name \<in> set list then list else list @ [name])"

definition effective_supertypes :: "('pv, 'r, 'col) resolved_node_type \<Rightarrow> string list" where
  "effective_supertypes r = foldl push_unique [] (rn_inheritance_chain r @ rn_resolved_mixins r)"

section \<open>The resolver\<close>

type_synonym ('pv, 'r, 'col) type_fetch =
  "string \<Rightarrow> hlc option \<Rightarrow> resolve_error + ('pv, 'r, 'col) node_type option"

type_synonym type_pins = "(string, hlc option) hash_map"

text \<open>What the merge has collected so far.\<close>

record ('pv, 'r, 'col) merge_state =
  ms_property_map :: "(string, ('pv, 'r) property_value_schema) hash_map"
  ms_allowed_children :: "string list"
  ms_mixins :: "string list"
  ms_compound_indexes :: "'col compound_index_definition list"
  ms_indexable :: bool
  ms_index_types :: "index_type list"

definition merge_start :: "('pv, 'r, 'col) merge_state" where
  "merge_start = \<lparr>ms_property_map = [], ms_allowed_children = [], ms_mixins = [], ms_compound_indexes = [],
     ms_indexable = True, ms_index_types = [Fulltext, Vector, Property]\<rparr>"

fun push_compound ::
  "'col compound_index_definition list \<Rightarrow> 'col compound_index_definition \<Rightarrow> 'col compound_index_definition list" where
  "push_compound [] incoming = [incoming]"
| "push_compound (i # is) incoming =
     (if ci_name i = ci_name incoming then incoming # is else i # push_compound is incoming)"

definition insert_property ::
  "(string, ('pv, 'r) property_value_schema) hash_map \<Rightarrow> ('pv, 'r) property_value_schema \<Rightarrow>
   (string, ('pv, 'r) property_value_schema) hash_map" where
  "insert_property m p = (case ps_name p of Some n \<Rightarrow> hm_insert n p m | None \<Rightarrow> m)"

definition merge_parent ::
  "('pv, 'r, 'col) resolved_node_type \<Rightarrow> ('pv, 'r, 'col) merge_state \<Rightarrow> ('pv, 'r, 'col) merge_state" where
  "merge_parent p s = \<lparr>ms_property_map = foldl insert_property (ms_property_map s) (rn_resolved_properties p),
     ms_allowed_children = ms_allowed_children s @ rn_resolved_allowed_children p,
     ms_mixins = foldl push_unique (ms_mixins s) (rn_resolved_mixins p),
     ms_compound_indexes = foldl push_compound (ms_compound_indexes s) (rn_resolved_compound_indexes p),
     ms_indexable = rn_resolved_indexable p,
     ms_index_types = rn_resolved_index_types p\<rparr>"

definition merge_mixin ::
  "string \<Rightarrow> ('pv, 'r, 'col) resolved_node_type \<Rightarrow> ('pv, 'r, 'col) merge_state \<Rightarrow> ('pv, 'r, 'col) merge_state" where
  "merge_mixin mixin_name x s =
     \<lparr>ms_property_map = foldl insert_property (ms_property_map s) (rn_resolved_properties x),
      ms_allowed_children = foldl push_unique (ms_allowed_children s) (rn_resolved_allowed_children x),
      ms_mixins = foldl push_unique (push_unique (ms_mixins s) mixin_name) (rn_resolved_mixins x),
      ms_compound_indexes = foldl push_compound (ms_compound_indexes s) (rn_resolved_compound_indexes x),
      ms_indexable = (if \<not> rn_resolved_indexable x then False else ms_indexable s),
      ms_index_types = filter (\<lambda>t. t \<in> set (rn_resolved_index_types x)) (ms_index_types s)\<rparr>"

definition apply_override ::
  "(string, ('pv, 'r) property_value_schema) hash_map \<Rightarrow> string \<times> 'pv \<Rightarrow>
   (string, ('pv, 'r) property_value_schema) hash_map" where
  "apply_override m o' =
     (case hm_get m (fst o') of
        Some p \<Rightarrow> hm_insert (fst o') (p\<lparr>ps_default := Some (snd o')\<rparr>) m
      | None \<Rightarrow> m)"

definition merge_own ::
  "('pv, 'r, 'col) node_type \<Rightarrow> ('pv, 'r, 'col) merge_state \<Rightarrow> ('pv, 'r, 'col) merge_state" where
  "merge_own t s =
     \<lparr>ms_property_map =
        foldl apply_override
          (foldl insert_property (ms_property_map s) (case nt_properties t of Some ps \<Rightarrow> ps | None \<Rightarrow> []))
          (case nt_overrides t of Some os \<Rightarrow> os | None \<Rightarrow> []),
      ms_allowed_children = foldl push_unique (ms_allowed_children s) (nt_allowed_children t),
      ms_mixins = ms_mixins s,
      ms_compound_indexes =
        foldl push_compound (ms_compound_indexes s) (case nt_compound_indexes t of Some is \<Rightarrow> is | None \<Rightarrow> []),
      ms_indexable = (case nt_indexable t of Some b \<Rightarrow> b | None \<Rightarrow> ms_indexable s),
      ms_index_types = (case nt_index_types t of Some ts \<Rightarrow> ts | None \<Rightarrow> ms_index_types s)\<rparr>"

text \<open>Only named schemas enter the map, so the sort of the values compares names.\<close>

definition schema_name :: "('pv, 'r) property_value_schema \<Rightarrow> string" where
  "schema_name p = (case ps_name p of Some n \<Rightarrow> n | None \<Rightarrow> [])"

definition merge_finish ::
  "('pv, 'r, 'col) node_type \<Rightarrow> string list \<Rightarrow> ('pv, 'r, 'col) merge_state \<Rightarrow> ('pv, 'r, 'col) resolved_node_type" where
  "merge_finish t chain s = \<lparr>rn_node_type = t,
     rn_resolved_properties = sorted_values schema_name (ms_property_map s),
     rn_resolved_allowed_children = ms_allowed_children s,
     rn_resolved_mixins = ms_mixins s,
     rn_resolved_indexable = ms_indexable s,
     rn_resolved_index_types = ms_index_types s,
     rn_resolved_compound_indexes = ms_compound_indexes s,
     rn_inheritance_chain = chain\<rparr>"

definition resolve_revision_for_pin :: "('pv, 'r, 'col) type_fetch \<Rightarrow> string \<Rightarrow> hlc \<Rightarrow> resolve_error + hlc" where
  "resolve_revision_for_pin fetch name pin_hlc =
     (case fetch name (Some pin_hlc) of
        Inl e \<Rightarrow> Inl e
      | Inr None \<Rightarrow> Inl (PinnedRevisionMissing name)
      | Inr (Some _) \<Rightarrow> Inr pin_hlc)"

definition max_revision ::
  "('pv, 'r, 'col) type_fetch \<Rightarrow> type_pins option \<Rightarrow> string \<Rightarrow> (string, hlc) hash_map \<Rightarrow>
   resolve_error + hlc option \<times> (string, hlc) hash_map" where
  "max_revision fetch pins name revision_cache =
     (case pins of
        None \<Rightarrow> Inr (None, revision_cache)
      | Some pins_map \<Rightarrow>
          (case hm_get pins_map name of
             Some (Some pin_value) \<Rightarrow>
               (case hm_get revision_cache name of
                  Some cached \<Rightarrow> Inr (Some cached, revision_cache)
                | None \<Rightarrow>
                    (case resolve_revision_for_pin fetch name pin_value of
                       Inl e \<Rightarrow> Inl e
                     | Inr revision \<Rightarrow> Inr (Some revision, hm_insert name revision revision_cache)))
           | _ \<Rightarrow> Inr (None, revision_cache)))"

text \<open>A call that may not return, may return an error or a value.\<close>

type_synonym 'a call = "(resolve_error + 'a) option"

definition call_bind :: "'a call \<Rightarrow> ('a \<Rightarrow> 'b call) \<Rightarrow> 'b call" where
  "call_bind c f = (case c of None \<Rightarrow> None | Some (Inl e) \<Rightarrow> Some (Inl e) | Some (Inr a) \<Rightarrow> f a)"

lemma call_bind_simps [simp]:
  "call_bind None f = None" "call_bind (Some (Inl e)) f = Some (Inl e)" "call_bind (Some (Inr a)) f = f a"
  by (simp_all add: call_bind_def)

type_synonym ('pv, 'r, 'col) resolve_call =
  "string \<Rightarrow> string hash_set \<Rightarrow> string list \<Rightarrow> (string, hlc) hash_map \<Rightarrow>
   (('pv, 'r, 'col) resolved_node_type \<times> string hash_set \<times> string list \<times> (string, hlc) hash_map) call"

primrec merge_mixins ::
  "('pv, 'r, 'col) resolve_call \<Rightarrow> string list \<Rightarrow> ('pv, 'r, 'col) merge_state \<Rightarrow> (string, hlc) hash_map \<Rightarrow>
   (('pv, 'r, 'col) merge_state \<times> (string, hlc) hash_map) call" where
  "merge_mixins resolve [] s cache = Some (Inr (s, cache))"
| "merge_mixins resolve (m # ms) s cache =
     call_bind (resolve m [] [] cache) (\<lambda>(x, _, _, cache). merge_mixins resolve ms (merge_mixin m x s) cache)"

text \<open>The body once the type is loaded: the parent, the mixins, its own declarations.\<close>

definition resolve_loaded ::
  "('pv, 'r, 'col) resolve_call \<Rightarrow> ('pv, 'r, 'col) node_type \<Rightarrow> string hash_set \<Rightarrow> string list \<Rightarrow> (string, hlc) hash_map \<Rightarrow>
   (('pv, 'r, 'col) resolved_node_type \<times> string hash_set \<times> string list \<times> (string, hlc) hash_map) call" where
  "resolve_loaded resolve t visited chain cache =
     call_bind
       (case nt_extends t of
          None \<Rightarrow> Some (Inr (merge_start, visited, chain, cache))
        | Some parent \<Rightarrow>
            call_bind (resolve parent visited chain cache)
              (\<lambda>(p, visited, chain, cache). Some (Inr (merge_parent p merge_start, visited, chain, cache))))
       (\<lambda>(s, visited, chain, cache).
          call_bind (merge_mixins resolve (nt_mixins t) s cache)
            (\<lambda>(s, cache). Some (Inr (merge_finish t chain (merge_own t s), visited, chain, cache))))"

definition resolve_step ::
  "('pv, 'r, 'col) type_fetch \<Rightarrow> type_pins option \<Rightarrow> ('pv, 'r, 'col) resolve_call \<Rightarrow> ('pv, 'r, 'col) resolve_call" where
  "resolve_step fetch pins resolve name visited chain cache =
     (if name \<in> set visited then Some (Inl (CircularDependency chain name))
      else if length chain \<ge> MAX_INHERITANCE_DEPTH then Some (Inl (MaxDepthExceeded chain))
      else let visited = name # visited; chain = chain @ [name] in
        case max_revision fetch pins name cache of
          Inl e \<Rightarrow> Some (Inl e)
        | Inr (max_rev, cache) \<Rightarrow>
           (case fetch name max_rev of
              Inl e \<Rightarrow> Some (Inl e)
            | Inr None \<Rightarrow> Some (Inl (NotFound name))
            | Inr (Some t) \<Rightarrow> resolve_loaded resolve t visited chain cache))"

primrec node_type_resolve_recursive ::
  "('pv, 'r, 'col) type_fetch \<Rightarrow> type_pins option \<Rightarrow> nat \<Rightarrow> ('pv, 'r, 'col) resolve_call" where
  "node_type_resolve_recursive fetch pins 0 = (\<lambda>name visited chain cache. None)"
| "node_type_resolve_recursive fetch pins (Suc n) = resolve_step fetch pins (node_type_resolve_recursive fetch pins n)"

definition resolve_node_type ::
  "('pv, 'r, 'col) type_fetch \<Rightarrow> type_pins option \<Rightarrow> nat \<Rightarrow> string \<Rightarrow> ('pv, 'r, 'col) resolved_node_type call" where
  "resolve_node_type fetch pins fuel name =
     call_bind (node_type_resolve_recursive fetch pins fuel name [] [] []) (\<lambda>(r, _, _, _). Some (Inr r))"

definition node_type_exists_and_published :: "('pv, 'r, 'col) type_fetch \<Rightarrow> string \<Rightarrow> resolve_error + unit" where
  "node_type_exists_and_published fetch name =
     (case fetch name None of
        Inl e \<Rightarrow> Inl e
      | Inr None \<Rightarrow> Inl (NotFound name)
      | Inr (Some t) \<Rightarrow> if is_published t then Inr () else Inl (NotPublished name))"

section \<open>Indexing policy\<close>

definition should_index_node :: "('pv, 'r, 'col) resolved_node_type \<Rightarrow> index_type \<Rightarrow> bool" where
  "should_index_node r t = (if \<not> rn_resolved_indexable r then False else t \<in> set (rn_resolved_index_types r))"

definition properties_to_index :: "('pv, 'r, 'col) resolved_node_type \<Rightarrow> index_type \<Rightarrow> string list" where
  "properties_to_index r t =
     List.map_filter (\<lambda>p. case ps_name p of None \<Rightarrow> None
       | Some n \<Rightarrow> (case ps_index p of None \<Rightarrow> None | Some is \<Rightarrow> if t \<in> set is then Some n else None))
       (rn_resolved_properties r)"

definition should_index_property :: "('pv, 'r, 'col) resolved_node_type \<Rightarrow> string \<Rightarrow> index_type \<Rightarrow> bool" where
  "should_index_property r n t =
     (case find (\<lambda>p. case ps_name p of Some m \<Rightarrow> m = n | None \<Rightarrow> False) (rn_resolved_properties r) of
        None \<Rightarrow> False
      | Some p \<Rightarrow> (case ps_index p of None \<Rightarrow> False | Some is \<Rightarrow> t \<in> set is))"

section \<open>What a resolution derives\<close>

text \<open>The revision a workspace pins, and the types as the pins show them.\<close>

definition pin_of :: "type_pins option \<Rightarrow> string \<Rightarrow> hlc option" where
  "pin_of pins name = (case pins of None \<Rightarrow> None
     | Some m \<Rightarrow> (case hm_get m name of Some (Some p) \<Rightarrow> Some p | _ \<Rightarrow> None))"

definition type_at :: "('pv, 'r, 'col) type_fetch \<Rightarrow> type_pins option \<Rightarrow> string \<Rightarrow> ('pv, 'r, 'col) node_type option" where
  "type_at fetch pins name = (case fetch name (pin_of pins name) of Inr (Some t) \<Rightarrow> Some t | _ \<Rightarrow> None)"

definition cache_ok :: "type_pins option \<Rightarrow> (string, hlc) hash_map \<Rightarrow> bool" where
  "cache_ok pins cache \<longleftrightarrow> (\<forall>k v. hm_get cache k = Some v \<longrightarrow> pin_of pins k = Some v)"

lemma cache_ok_Nil [simp]: "cache_ok pins []"
  by (simp add: cache_ok_def)

lemma resolve_revision_for_pin_Inr: "resolve_revision_for_pin fetch name pin = Inr revision \<Longrightarrow> revision = pin"
  by (auto simp: resolve_revision_for_pin_def split: sum.splits option.splits)

lemma max_revision_pin:
  assumes "cache_ok pins cache" and "max_revision fetch pins name cache = Inr (max_rev, cache')"
  shows "max_rev = pin_of pins name \<and> cache_ok pins cache'"
proof (cases "pin_of pins name")
  case None
  with assms show ?thesis by (auto simp: max_revision_def pin_of_def split: option.splits)
next
  case (Some p)
  then obtain m where m: "pins = Some m" "hm_get m name = Some (Some p)"
    by (auto simp: pin_of_def split: option.splits)
  show ?thesis
  proof (cases "hm_get cache name")
    case None
    with assms m have "max_rev = Some p" "cache' = hm_insert name p cache"
      by (auto simp: max_revision_def dest: resolve_revision_for_pin_Inr split: sum.splits)
    with assms(1) Some show ?thesis by (auto simp: cache_ok_def hm_simps)
  next
    case (Some v)
    with assms(1) have "pin_of pins name = Some v" by (simp add: cache_ok_def)
    with Some assms m show ?thesis by (auto simp: max_revision_def)
  qed
qed

text \<open>The results of a resolution, without visited names, chains, pins, cache and fuel.\<close>

definition merge_all ::
  "(string \<times> ('pv, 'r, 'col) resolved_node_type) list \<Rightarrow> ('pv, 'r, 'col) merge_state \<Rightarrow> ('pv, 'r, 'col) merge_state" where
  "merge_all mxs s = foldl (\<lambda>s (m, x). merge_mixin m x s) s mxs"

inductive derives ::
  "(string \<Rightarrow> ('pv, 'r, 'col) node_type option) \<Rightarrow> string \<Rightarrow> ('pv, 'r, 'col) resolved_node_type \<Rightarrow> bool"
  for lookup where
  base: "\<lbrakk>lookup name = Some t; nt_extends t = None; list_all2 (derives lookup) (nt_mixins t) xs\<rbrakk> \<Longrightarrow>
    derives lookup name (merge_finish t chain (merge_own t (merge_all (zip (nt_mixins t) xs) merge_start)))"
| extends: "\<lbrakk>lookup name = Some t; nt_extends t = Some p; derives lookup p pr;
     list_all2 (derives lookup) (nt_mixins t) xs\<rbrakk> \<Longrightarrow>
    derives lookup name
      (merge_finish t chain (merge_own t (merge_all (zip (nt_mixins t) xs) (merge_parent pr merge_start))))"

lemma merge_mixins_results:
  assumes "merge_mixins resolve ms s cache = Some (Inr (s', cache'))" and "K cache"
    and "\<And>m k x v c k'. K k \<Longrightarrow> resolve m [] [] k = Some (Inr (x, v, c, k')) \<Longrightarrow> R m x \<and> K k'"
  shows "\<exists>xs. list_all2 R ms xs \<and> s' = merge_all (zip ms xs) s \<and> K cache'"
  using assms(1,2)
proof (induction ms arbitrary: s cache)
  case (Cons m ms)
  then obtain x v c k where x: "resolve m [] [] cache = Some (Inr (x, v, c, k))"
      "merge_mixins resolve ms (merge_mixin m x s) k = Some (Inr (s', cache'))"
    by (auto simp: call_bind_def split: option.splits sum.splits)
  then have R: "R m x" "K k" using assms(3) [OF Cons.prems(2)] by auto
  then obtain xs where "list_all2 R ms xs" "s' = merge_all (zip ms xs) (merge_mixin m x s)" "K cache'"
    using Cons.IH [OF x(2)] by auto
  with R show ?case by (intro exI [of _ "x # xs"]) (simp add: merge_all_def)
qed (simp add: merge_all_def)

lemma resolve_step_InrE:
  assumes "resolve_step fetch pins resolve name visited chain cache = Some (Inr (r, v, c, k))"
  obtains t max_rev k0 s0 k1 s where
    "name \<notin> set visited" "length chain < MAX_INHERITANCE_DEPTH"
    "max_revision fetch pins name cache = Inr (max_rev, k0)" "fetch name max_rev = Inr (Some t)"
    "(nt_extends t = None \<and> s0 = merge_start \<and> v = name # visited \<and> c = chain @ [name] \<and> k1 = k0) \<or>
     (\<exists>p pr. nt_extends t = Some p \<and> resolve p (name # visited) (chain @ [name]) k0 = Some (Inr (pr, v, c, k1)) \<and>
        s0 = merge_parent pr merge_start)"
    "merge_mixins resolve (nt_mixins t) s0 k1 = Some (Inr (s, k))" "r = merge_finish t c (merge_own t s)"
  using assms unfolding resolve_step_def resolve_loaded_def Let_def call_bind_def
  by (auto split: if_splits sum.splits option.splits)

lemma resolution_derives:
  "\<lbrakk>node_type_resolve_recursive fetch pins n name visited chain cache = Some (Inr (r, v, c, k)); cache_ok pins cache\<rbrakk>
   \<Longrightarrow> derives (type_at fetch pins) name r \<and> cache_ok pins k"
proof (induction n arbitrary: name visited chain cache r v c k)
  case (Suc n)
  let ?res = "node_type_resolve_recursive fetch pins n"
  from Suc.prems(1) have step: "resolve_step fetch pins ?res name visited chain cache = Some (Inr (r, v, c, k))" by simp
  then obtain t max_rev k0 s0 k1 s where
      rev: "max_revision fetch pins name cache = Inr (max_rev, k0)" "fetch name max_rev = Inr (Some t)"
    and par: "(nt_extends t = None \<and> s0 = merge_start \<and> v = name # visited \<and> c = chain @ [name] \<and> k1 = k0) \<or>
     (\<exists>p pr. nt_extends t = Some p \<and> ?res p (name # visited) (chain @ [name]) k0 = Some (Inr (pr, v, c, k1)) \<and>
        s0 = merge_parent pr merge_start)"
    and mix: "merge_mixins ?res (nt_mixins t) s0 k1 = Some (Inr (s, k))" and r: "r = merge_finish t c (merge_own t s)"
    by (rule resolve_step_InrE)
  have k0: "cache_ok pins k0" and t: "type_at fetch pins name = Some t"
    using max_revision_pin [OF Suc.prems(2) rev(1)] rev(2) by (auto simp: type_at_def)
  have k1: "cache_ok pins k1" using par k0 Suc.IH by blast
  obtain xs where xs: "list_all2 (derives (type_at fetch pins)) (nt_mixins t) xs"
      "s = merge_all (zip (nt_mixins t) xs) s0" "cache_ok pins k"
    using merge_mixins_results [OF mix, of "cache_ok pins" "derives (type_at fetch pins)", OF k1] Suc.IH by blast
  from par show ?case
    using derives.base [where name = name and lookup = "type_at fetch pins", OF t _ xs(1)]
      derives.extends [where name = name and lookup = "type_at fetch pins", OF t _ _ xs(1)] Suc.IH k0 xs(2,3) r by auto
qed simp

section \<open>Well-formed results\<close>

definition named_map :: "(string, ('pv, 'r) property_value_schema) hash_map \<Rightarrow> bool" where
  "named_map m \<longleftrightarrow> hm_wf m \<and> (\<forall>k p. hm_get m k = Some p \<longrightarrow> ps_name p = Some k)"

definition merge_ok :: "('pv, 'r, 'col) merge_state \<Rightarrow> bool" where
  "merge_ok s \<longleftrightarrow> named_map (ms_property_map s) \<and> distinct (ms_mixins s) \<and> distinct (map ci_name (ms_compound_indexes s))"

definition resolved_ok :: "('pv, 'r, 'col) resolved_node_type \<Rightarrow> bool" where
  "resolved_ok r \<longleftrightarrow> sorted_wrt (<) (map schema_name (rn_resolved_properties r)) \<and>
     (\<forall>p \<in> set (rn_resolved_properties r). ps_name p \<noteq> None) \<and> distinct (rn_resolved_mixins r) \<and>
     distinct (map ci_name (rn_resolved_compound_indexes r))"

lemma named_map_keyed: "named_map m \<Longrightarrow> keyed schema_name m"
  by (auto simp: named_map_def keyed_def schema_name_def)

lemma named_map_values: "named_map m \<Longrightarrow> p \<in> snd ` set m \<Longrightarrow> ps_name p \<noteq> None"
  by (auto simp: named_map_def)

lemma named_map_insert: "named_map m \<Longrightarrow> named_map (insert_property m p)"
  by (auto simp: named_map_def insert_property_def hm_simps split: option.split if_splits simp del: map_of_eq_Some_iff)

lemma named_map_override: "named_map m \<Longrightarrow> named_map (apply_override m o')"
  by (auto simp: named_map_def apply_override_def hm_simps split: option.split if_splits simp del: map_of_eq_Some_iff)

lemma distinct_push_unique: "distinct xs \<Longrightarrow> distinct (push_unique xs n)"
  by (simp add: push_unique_def)

lemma set_push_unique [simp]: "set (push_unique xs n) = insert n (set xs)"
  by (auto simp: push_unique_def)

lemma set_push_compound: "ci_name ` set (push_compound is i) = insert (ci_name i) (ci_name ` set is)"
  by (induction "is") auto

lemma distinct_push_compound: "distinct (map ci_name is) \<Longrightarrow> distinct (map ci_name (push_compound is i))"
  by (induction "is") (auto simp: set_push_compound)

lemma foldl_keeps: "P s \<Longrightarrow> (\<And>s x. P s \<Longrightarrow> P (f s x)) \<Longrightarrow> P (foldl f s xs)"
  by (induction xs arbitrary: s) auto

lemma set_foldl_push_unique [simp]: "set (foldl push_unique xs ys) = set xs \<union> set ys"
  by (induction ys arbitrary: xs) auto

lemma distinct_foldl_push_unique: "distinct xs \<Longrightarrow> distinct (foldl push_unique xs ys)"
  by (rule foldl_keeps) (simp_all add: distinct_push_unique)

lemma distinct_foldl_push_compound: "distinct (map ci_name is) \<Longrightarrow> distinct (map ci_name (foldl push_compound is js))"
  by (rule foldl_keeps [where P = "\<lambda>is. distinct (map ci_name is)"]) (simp_all add: distinct_push_compound)

lemma named_map_foldl_insert: "named_map m \<Longrightarrow> named_map (foldl insert_property m ps)"
  by (rule foldl_keeps) (simp_all add: named_map_insert)

lemma named_map_foldl_override: "named_map m \<Longrightarrow> named_map (foldl apply_override m os)"
  by (rule foldl_keeps) (simp_all add: named_map_override)

lemmas distinct_folds = distinct_foldl_push_unique distinct_foldl_push_compound named_map_foldl_insert
  named_map_foldl_override

lemma merge_ok_start [simp]: "merge_ok merge_start"
  by (simp add: merge_ok_def merge_start_def named_map_def)

lemma merge_ok_parent: "merge_ok s \<Longrightarrow> merge_ok (merge_parent p s)"
  by (simp add: merge_ok_def merge_parent_def distinct_folds)

lemma merge_ok_mixin: "merge_ok s \<Longrightarrow> merge_ok (merge_mixin m x s)"
  by (simp add: merge_ok_def merge_mixin_def distinct_folds distinct_push_unique)

lemma merge_ok_all: "merge_ok s \<Longrightarrow> merge_ok (merge_all mxs s)"
  unfolding merge_all_def by (rule foldl_keeps) (auto intro: merge_ok_mixin)

lemma merge_ok_own: "merge_ok s \<Longrightarrow> merge_ok (merge_own t s)"
  by (simp add: merge_ok_def merge_own_def distinct_folds)

lemma merge_finish_ok: "merge_ok s \<Longrightarrow> resolved_ok (merge_finish t chain s)"
  unfolding merge_ok_def resolved_ok_def
  using named_map_values [of "ms_property_map s"] sorted_values_sorted [OF named_map_keyed, of "ms_property_map s"]
  by (simp add: merge_finish_def) (simp add: sorted_values_def)

lemma derives_ok: "derives lookup name r \<Longrightarrow> resolved_ok r"
  by (induction rule: derives.induct)
    (auto intro!: merge_finish_ok merge_ok_own merge_ok_all merge_ok_parent)

lemma by_name_finish:
  "merge_ok s \<Longrightarrow> by_name schema_name (rn_resolved_properties (merge_finish t chain s)) = hm_get (ms_property_map s)"
  by (simp add: merge_finish_def merge_ok_def sorted_values_by_name named_map_keyed)

section \<open>The meaning of the properties\<close>

definition own_properties :: "('pv, 'r, 'col) node_type \<Rightarrow> string \<rightharpoonup> ('pv, 'r) property_value_schema" where
  "own_properties t = by_name schema_name
     (rev (filter (\<lambda>p. ps_name p \<noteq> None) (case nt_properties t of Some ps \<Rightarrow> ps | None \<Rightarrow> [])))"

definition overridden ::
  "('pv, 'r, 'col) node_type \<Rightarrow> (string \<rightharpoonup> ('pv, 'r) property_value_schema) \<Rightarrow> string \<rightharpoonup> ('pv, 'r) property_value_schema" where
  "overridden t m k =
     (case m k of
        None \<Rightarrow> None
      | Some p \<Rightarrow>
          (case map_of (rev (case nt_overrides t of Some os \<Rightarrow> os | None \<Rightarrow> [])) k of
             None \<Rightarrow> Some p
           | Some v \<Rightarrow> Some (p\<lparr>ps_default := Some v\<rparr>)))"

inductive property_meaning ::
  "(string \<Rightarrow> ('pv, 'r, 'col) node_type option) \<Rightarrow> string \<Rightarrow> (string \<rightharpoonup> ('pv, 'r) property_value_schema) \<Rightarrow> bool"
  for lookup where
  base: "\<lbrakk>lookup name = Some t; nt_extends t = None; list_all2 (property_meaning lookup) (nt_mixins t) ms\<rbrakk> \<Longrightarrow>
    property_meaning lookup name (overridden t (foldl (++) Map.empty ms ++ own_properties t))"
| extends: "\<lbrakk>lookup name = Some t; nt_extends t = Some p; property_meaning lookup p pm;
     list_all2 (property_meaning lookup) (nt_mixins t) ms\<rbrakk> \<Longrightarrow>
    property_meaning lookup name (overridden t (foldl (++) pm ms ++ own_properties t))"

lemma insert_property_fold:
  "hm_get (foldl insert_property m ps) =
     hm_get m ++ by_name schema_name (rev (filter (\<lambda>p. ps_name p \<noteq> None) ps))"
proof (induction ps rule: rev_induct)
  case (snoc p ps)
  then show ?case
    by (auto simp: insert_property_def hm_simps by_name_def schema_name_def map_add_def fun_eq_iff split: option.splits)
qed (simp add: by_name_def)

lemma insert_resolved_fold:
  assumes "resolved_ok r"
  shows "hm_get (foldl insert_property m (rn_resolved_properties r)) =
    hm_get m ++ by_name schema_name (rn_resolved_properties r)"
proof -
  have "filter (\<lambda>p. ps_name p \<noteq> None) (rn_resolved_properties r) = rn_resolved_properties r"
    using assms by (simp add: resolved_ok_def)
  moreover have "distinct (map schema_name (rn_resolved_properties r))"
    using assms by (simp add: resolved_ok_def strict_sorted_iff)
  ultimately show ?thesis
    using by_name_cong_set [of schema_name "rn_resolved_properties r" "rev (rn_resolved_properties r)"]
    by (simp add: insert_property_fold rev_map [symmetric])
qed

lemma apply_override_fold:
  "hm_get (foldl apply_override m os) =
     (\<lambda>k. case hm_get m k of None \<Rightarrow> None
       | Some p \<Rightarrow> (case map_of (rev os) k of None \<Rightarrow> Some p | Some v \<Rightarrow> Some (p\<lparr>ps_default := Some v\<rparr>)))"
proof (induction os rule: rev_induct)
  case (snoc x os)
  obtain n v where "x = (n, v)" by fastforce
  with snoc show ?case
    by (auto simp: apply_override_def hm_simps fun_eq_iff split: option.splits)
qed (auto simp: fun_eq_iff split: option.splits)

lemma merge_own_properties:
  "hm_get (ms_property_map (merge_own t s)) = overridden t (hm_get (ms_property_map s) ++ own_properties t)"
  by (auto simp: merge_own_def apply_override_fold insert_property_fold own_properties_def overridden_def fun_eq_iff)

lemma merge_all_properties:
  assumes "\<forall>x \<in> set xs. resolved_ok x" and "length ms = length xs"
  shows "hm_get (ms_property_map (merge_all (zip ms xs) s)) =
    foldl (++) (hm_get (ms_property_map s)) (map (\<lambda>x. by_name schema_name (rn_resolved_properties x)) xs)"
  using assms(2,1)
proof (induction ms xs arbitrary: s rule: list_induct2)
  case (Cons m ms x xs)
  then show ?case by (simp add: merge_all_def merge_mixin_def insert_resolved_fold)
qed (simp add: merge_all_def)

lemma list_all2_derives_ok: "list_all2 (\<lambda>m x. derives lookup m x \<and> P m x) ms xs \<Longrightarrow> \<forall>x \<in> set xs. resolved_ok x"
  by (induction rule: list_all2_induct) (auto intro: derives_ok)

lemma derives_properties:
  "derives lookup name r \<Longrightarrow> property_meaning lookup name (by_name schema_name (rn_resolved_properties r))"
proof (induction rule: derives.induct)
  case (base name t xs chain)
  let ?ms = "map (\<lambda>x. by_name schema_name (rn_resolved_properties x)) xs"
  have "list_all2 (property_meaning lookup) (nt_mixins t) ?ms"
    using base(3) by (simp add: list_all2_map2 list_all2_mono)
  from property_meaning.base [where lookup = lookup, OF base(1,2) this] show ?case
    using merge_all_properties [OF list_all2_derives_ok [OF base(3)] list_all2_lengthD [OF base(3)]]
    by (simp add: by_name_finish merge_ok_own merge_ok_all merge_own_properties) (simp add: merge_start_def)
next
  case (extends name t p pr xs chain)
  let ?ms = "map (\<lambda>x. by_name schema_name (rn_resolved_properties x)) xs"
  have "list_all2 (property_meaning lookup) (nt_mixins t) ?ms"
    using extends(5) by (simp add: list_all2_map2 list_all2_mono)
  moreover have "hm_get (ms_property_map (merge_parent pr merge_start)) = by_name schema_name (rn_resolved_properties pr)"
    using insert_resolved_fold [OF derives_ok [OF extends(3)], of "[]"] by (simp add: merge_parent_def merge_start_def)
  ultimately show ?case
    using property_meaning.extends [where lookup = lookup, OF extends(1,2,4)]
      merge_all_properties [OF list_all2_derives_ok [OF extends(5)] list_all2_lengthD [OF extends(5)]]
    by (simp add: by_name_finish merge_ok_own merge_ok_all merge_ok_parent merge_own_properties)
qed

lemma list_all2_unique:
  "list_all2 (\<lambda>x y. R x y \<and> (\<forall>y'. R x y' \<longrightarrow> y = y')) xs ys \<Longrightarrow> list_all2 R xs zs \<Longrightarrow> ys = zs"
  by (simp add: list_all2_conv_all_nth list_eq_iff_nth_eq)

lemma property_meaning_unique:
  "property_meaning lookup name m \<Longrightarrow> property_meaning lookup name m' \<Longrightarrow> m = m'"
proof (induction arbitrary: m' rule: property_meaning.induct)
  case (base name t ms)
  from base(4) obtain ms' where "list_all2 (property_meaning lookup) (nt_mixins t) ms'"
      "m' = overridden t (foldl (++) Map.empty ms' ++ own_properties t)"
    by (cases rule: property_meaning.cases) (use base(1,2) in simp_all)
  with list_all2_unique [OF base(3)] show ?case by simp
next
  case (extends name t p pm ms)
  from extends(6) obtain pm' ms' where "list_all2 (property_meaning lookup) (nt_mixins t) ms'"
      "property_meaning lookup p pm'" "m' = overridden t (foldl (++) pm' ms' ++ own_properties t)"
    by (cases rule: property_meaning.cases) (use extends(1,2) in simp_all)
  with list_all2_unique [OF extends(5)] extends(4) [of pm'] show ?case by simp
qed

section \<open>Mixins and supertypes\<close>

definition parents :: "(string \<Rightarrow> ('pv, 'r, 'col) node_type option) \<Rightarrow> (string \<times> string) set" where
  "parents lookup = {(a, b). \<exists>t. lookup a = Some t \<and> nt_extends t = Some b}"

definition uses :: "(string \<Rightarrow> ('pv, 'r, 'col) node_type option) \<Rightarrow> (string \<times> string) set" where
  "uses lookup = {(a, b). \<exists>t. lookup a = Some t \<and> (nt_extends t = Some b \<or> b \<in> set (nt_mixins t))}"

text \<open>The mixins applied by any type that the definition of a type uses, at whatever distance.\<close>

definition applied_mixins :: "(string \<Rightarrow> ('pv, 'r, 'col) node_type option) \<Rightarrow> string \<Rightarrow> string set" where
  "applied_mixins lookup name =
     {m. \<exists>a t. (name, a) \<in> (uses lookup)\<^sup>* \<and> lookup a = Some t \<and> m \<in> set (nt_mixins t)}"

lemma applied_mixins_unfold:
  assumes "lookup name = Some t"
  shows "applied_mixins lookup name = set (nt_mixins t) \<union>
    (case nt_extends t of Some p \<Rightarrow> applied_mixins lookup p | None \<Rightarrow> {}) \<union> (\<Union>m \<in> set (nt_mixins t). applied_mixins lookup m)"
    (is "?L = ?R")
proof
  show "?L \<subseteq> ?R"
  proof
    fix m
    assume "m \<in> ?L"
    then obtain a u where a: "(name, a) \<in> (uses lookup)\<^sup>*" "lookup a = Some u" "m \<in> set (nt_mixins u)"
      by (auto simp: applied_mixins_def)
    from a(1) show "m \<in> ?R"
    proof (cases rule: converse_rtranclE)
      case base
      with a assms show ?thesis by simp
    next
      case (step b)
      with a have "m \<in> applied_mixins lookup b" by (auto simp: applied_mixins_def)
      with step(1) assms show ?thesis by (auto simp: uses_def)
    qed
  qed
  have into: "applied_mixins lookup b \<subseteq> ?L" if "(name, b) \<in> uses lookup" for b
    using that unfolding applied_mixins_def by (auto intro: converse_rtrancl_into_rtrancl)
  have own: "set (nt_mixins t) \<subseteq> ?L" using assms by (auto simp: applied_mixins_def)
  have mixins: "(\<Union>m \<in> set (nt_mixins t). applied_mixins lookup m) \<subseteq> ?L"
    by (rule UN_least, rule into) (use assms in \<open>simp add: uses_def\<close>)
  show "?R \<subseteq> ?L"
  proof (cases "nt_extends t")
    case (Some p)
    with into [of p] assms own mixins show ?thesis by (simp add: uses_def)
  qed (use own mixins in simp)
qed

lemma merge_all_mixins:
  assumes "list_all2 (\<lambda>m x. D m x \<and> set (rn_resolved_mixins x) = A m) ms xs"
  shows "set (ms_mixins (merge_all (zip ms xs) s)) = set (ms_mixins s) \<union> set ms \<union> (\<Union>m \<in> set ms. A m)"
  using assms
proof (induction arbitrary: s rule: list_all2_induct)
  case (Cons m ms x xs)
  then show ?case by (auto simp: merge_all_def merge_mixin_def)
qed (simp add: merge_all_def)

lemma derives_mixins: "derives lookup name r \<Longrightarrow> set (rn_resolved_mixins r) = applied_mixins lookup name"
proof (induction rule: derives.induct)
  case (base name t xs chain)
  show ?case
    unfolding applied_mixins_unfold [of lookup, OF base(1)] using merge_all_mixins [OF base(3), of merge_start] base(2)
    by (simp add: merge_finish_def merge_own_def) (simp add: merge_start_def)
next
  case (extends name t p pr xs chain)
  show ?case
    unfolding applied_mixins_unfold [of lookup, OF extends(1)]
    using merge_all_mixins [OF extends(5), of "merge_parent pr merge_start"] extends(2,4)
    by (simp add: merge_finish_def merge_own_def) (auto simp: merge_start_def merge_parent_def)
qed

lemma parents_unfold:
  "lookup name = Some t \<Longrightarrow>
   {a. (name, a) \<in> (parents lookup)\<^sup>*} =
     insert name (case nt_extends t of Some p \<Rightarrow> {a. (p, a) \<in> (parents lookup)\<^sup>*} | None \<Rightarrow> {})"
  by (auto simp: parents_def split: option.splits elim: converse_rtranclE intro: converse_rtrancl_into_rtrancl)

lemma resolution_chain:
  "\<lbrakk>node_type_resolve_recursive fetch pins n name visited chain cache = Some (Inr (r, v, c, k)); cache_ok pins cache\<rbrakk>
   \<Longrightarrow> rn_inheritance_chain r = c \<and> length c \<le> MAX_INHERITANCE_DEPTH \<and>
     (\<exists>cs. c = chain @ name # cs \<and> distinct (name # cs) \<and> set visited \<inter> set (name # cs) = {} \<and>
        set (name # cs) = {a. (name, a) \<in> (parents (type_at fetch pins))\<^sup>*})"
proof (induction n arbitrary: name visited chain cache r v c k)
  case (Suc n)
  let ?res = "node_type_resolve_recursive fetch pins n"
  from Suc.prems(1) have step: "resolve_step fetch pins ?res name visited chain cache = Some (Inr (r, v, c, k))" by simp
  then obtain t max_rev k0 s0 k1 s where fresh: "name \<notin> set visited" "length chain < MAX_INHERITANCE_DEPTH"
    and rev: "max_revision fetch pins name cache = Inr (max_rev, k0)" "fetch name max_rev = Inr (Some t)"
    and par: "(nt_extends t = None \<and> s0 = merge_start \<and> v = name # visited \<and> c = chain @ [name] \<and> k1 = k0) \<or>
     (\<exists>p pr. nt_extends t = Some p \<and> ?res p (name # visited) (chain @ [name]) k0 = Some (Inr (pr, v, c, k1)) \<and>
        s0 = merge_parent pr merge_start)"
    and r: "r = merge_finish t c (merge_own t s)"
    by (rule resolve_step_InrE)
  have k0: "cache_ok pins k0" and t: "type_at fetch pins name = Some t"
    using max_revision_pin [OF Suc.prems(2) rev(1)] rev(2) by (auto simp: type_at_def)
  have chain: "rn_inheritance_chain r = c" by (simp add: r merge_finish_def)
  note unfold = parents_unfold [of "type_at fetch pins", OF t]
  from par show ?case
  proof
    assume "nt_extends t = None \<and> s0 = merge_start \<and> v = name # visited \<and> c = chain @ [name] \<and> k1 = k0"
    with fresh chain unfold show ?thesis by (intro conjI exI [of _ "[]"]) auto
  next
    assume "\<exists>p pr. nt_extends t = Some p \<and> ?res p (name # visited) (chain @ [name]) k0 = Some (Inr (pr, v, c, k1)) \<and>
        s0 = merge_parent pr merge_start"
    then obtain p pr where p: "nt_extends t = Some p"
        "?res p (name # visited) (chain @ [name]) k0 = Some (Inr (pr, v, c, k1))" by auto
    from Suc.IH [OF p(2) k0] obtain cs where cs: "c = (chain @ [name]) @ p # cs" "length c \<le> MAX_INHERITANCE_DEPTH"
        "distinct (p # cs)" "set (name # visited) \<inter> set (p # cs) = {}"
        "set (p # cs) = {a. (p, a) \<in> (parents (type_at fetch pins))\<^sup>*}" by auto
    with fresh chain unfold p(1) show ?thesis by (intro conjI exI [of _ "p # cs"]) auto
  qed
qed simp

lemma resolve_node_type_Inr:
  assumes "resolve_node_type fetch pins n name = Some (Inr r)"
  shows "derives (type_at fetch pins) name r" and "length (rn_inheritance_chain r) \<le> MAX_INHERITANCE_DEPTH"
    and "distinct (rn_inheritance_chain r)" and "hd (rn_inheritance_chain r) = name"
    and "set (rn_inheritance_chain r) = {a. (name, a) \<in> (parents (type_at fetch pins))\<^sup>*}"
proof -
  obtain v c k where "node_type_resolve_recursive fetch pins n name [] [] [] = Some (Inr (r, v, c, k))"
    using assms by (auto simp: resolve_node_type_def call_bind_def split: option.splits sum.splits)
  from resolution_derives [OF this cache_ok_Nil] resolution_chain [OF this cache_ok_Nil] obtain cs where
      "derives (type_at fetch pins) name r" "rn_inheritance_chain r = name # cs"
      "length (rn_inheritance_chain r) \<le> MAX_INHERITANCE_DEPTH" "distinct (name # cs)"
      "set (name # cs) = {a. (name, a) \<in> (parents (type_at fetch pins))\<^sup>*}" unfolding append_Nil by metis
  then show "derives (type_at fetch pins) name r" and "length (rn_inheritance_chain r) \<le> MAX_INHERITANCE_DEPTH"
    and "distinct (rn_inheritance_chain r)" and "hd (rn_inheritance_chain r) = name"
    and "set (rn_inheritance_chain r) = {a. (name, a) \<in> (parents (type_at fetch pins))\<^sup>*}" by simp_all
qed

section \<open>Returning and not returning\<close>

definition extends_call :: "('pv, 'r, 'col) resolve_call \<Rightarrow> ('pv, 'r, 'col) resolve_call \<Rightarrow> bool" where
  "extends_call f g \<longleftrightarrow> (\<forall>name visited chain cache res.
     f name visited chain cache = Some res \<longrightarrow> g name visited chain cache = Some res)"

lemma call_bind_SomeI:
  assumes "call_bind c f = Some res" and "\<And>x. c = Some x \<Longrightarrow> c' = Some x" and "\<And>a x. f a = Some x \<Longrightarrow> f' a = Some x"
  shows "call_bind c' f' = Some res"
  using assms by (auto simp: call_bind_def split: option.splits sum.splits)

lemma merge_mixins_mono:
  "extends_call f g \<Longrightarrow> merge_mixins f ms s cache = Some res \<Longrightarrow> merge_mixins g ms s cache = Some res"
proof (induction ms arbitrary: s cache res)
  case (Cons m ms)
  from Cons.prems(2) show ?case
    unfolding merge_mixins.simps
    by (rule call_bind_SomeI) (use Cons.IH Cons.prems(1) in \<open>auto simp: extends_call_def\<close>)
qed simp

lemma resolve_loaded_mono:
  assumes "extends_call f g" and "resolve_loaded f t visited chain cache = Some res"
  shows "resolve_loaded g t visited chain cache = Some res"
  using assms(2) unfolding resolve_loaded_def
proof (rule call_bind_SomeI)
  fix x
  assume parent: "(case nt_extends t of None \<Rightarrow> Some (Inr (merge_start, visited, chain, cache))
      | Some parent \<Rightarrow> call_bind (f parent visited chain cache)
          (\<lambda>(p, visited, chain, cache). Some (Inr (merge_parent p merge_start, visited, chain, cache)))) = Some x"
  show "(case nt_extends t of None \<Rightarrow> Some (Inr (merge_start, visited, chain, cache))
      | Some parent \<Rightarrow> call_bind (g parent visited chain cache)
          (\<lambda>(p, visited, chain, cache). Some (Inr (merge_parent p merge_start, visited, chain, cache)))) = Some x"
  proof (cases "nt_extends t")
    case (Some p)
    with parent have "call_bind (f p visited chain cache)
        (\<lambda>(p, visited, chain, cache). Some (Inr (merge_parent p merge_start, visited, chain, cache))) = Some x" by simp
    then have "call_bind (g p visited chain cache)
        (\<lambda>(p, visited, chain, cache). Some (Inr (merge_parent p merge_start, visited, chain, cache))) = Some x"
      by (rule call_bind_SomeI) (use assms(1) in \<open>auto simp: extends_call_def\<close>)
    with Some show ?thesis by simp
  qed (use parent in simp)
next
  fix a x
  assume "(case a of (s, visited, chain, cache) \<Rightarrow>
      call_bind (merge_mixins f (nt_mixins t) s cache)
        (\<lambda>(s, cache). Some (Inr (merge_finish t chain (merge_own t s), visited, chain, cache)))) = Some x"
  then show "(case a of (s, visited, chain, cache) \<Rightarrow>
      call_bind (merge_mixins g (nt_mixins t) s cache)
        (\<lambda>(s, cache). Some (Inr (merge_finish t chain (merge_own t s), visited, chain, cache)))) = Some x"
    by (auto split: prod.splits elim!: call_bind_SomeI dest: merge_mixins_mono [OF assms(1)])
qed

lemma resolve_step_mono:
  assumes "extends_call f g"
  shows "extends_call (resolve_step fetch pins f) (resolve_step fetch pins g)"
  unfolding extends_call_def resolve_step_def Let_def
  by (auto split: sum.split option.split intro: resolve_loaded_mono [OF assms])

lemma more_fuel:
  "n \<le> m \<Longrightarrow> extends_call (node_type_resolve_recursive fetch pins n) (node_type_resolve_recursive fetch pins m)"
proof (induction n arbitrary: m)
  case (Suc n)
  then obtain m' where "m = Suc m'" "n \<le> m'" by (cases m) auto
  with Suc.IH show ?case by (simp add: resolve_step_mono)
qed (simp add: extends_call_def)

lemma resolve_node_type_more_fuel:
  assumes "resolve_node_type fetch pins n name = Some res" and "n \<le> m"
  shows "resolve_node_type fetch pins m name = Some res"
  using assms(1) unfolding resolve_node_type_def
  by (rule call_bind_SomeI) (use more_fuel [OF assms(2), of fetch pins] in \<open>auto simp: extends_call_def\<close>)

text \<open>A rank that falls from a type to each of its mixins and does not rise to its parent.\<close>

definition mixins_ranked :: "('pv, 'r, 'col) type_fetch \<Rightarrow> (string \<Rightarrow> nat) \<Rightarrow> bool" where
  "mixins_ranked fetch rank \<longleftrightarrow> (\<forall>name revision t. fetch name revision = Inr (Some t) \<longrightarrow>
     (\<forall>m \<in> set (nt_mixins t). rank m < rank name) \<and> (\<forall>p. nt_extends t = Some p \<longrightarrow> rank p \<le> rank name))"

lemma call_bind_Some: "c \<noteq> None \<Longrightarrow> (\<And>a. c = Some (Inr a) \<Longrightarrow> f a \<noteq> None) \<Longrightarrow> call_bind c f \<noteq> None"
  by (auto simp: call_bind_def split: sum.splits)

lemma merge_mixins_returns:
  "(\<And>m k. m \<in> set ms \<Longrightarrow> resolve m [] [] k \<noteq> None) \<Longrightarrow> merge_mixins resolve ms s cache \<noteq> None"
proof (induction ms arbitrary: s cache)
  case (Cons m ms)
  then show ?case unfolding merge_mixins.simps by (intro call_bind_Some) (auto split: prod.split)
qed simp

lemma resolve_loaded_returns:
  assumes "\<And>p. nt_extends t = Some p \<Longrightarrow> resolve p visited chain cache \<noteq> None"
    and "\<And>m k. m \<in> set (nt_mixins t) \<Longrightarrow> resolve m [] [] k \<noteq> None"
  shows "resolve_loaded resolve t visited chain cache \<noteq> None"
proof -
  have "merge_mixins resolve (nt_mixins t) s k \<noteq> None" for s k
    by (rule merge_mixins_returns) (rule assms(2))
  then have mixins: "call_bind (merge_mixins resolve (nt_mixins t) s k)
      (\<lambda>(s, cache). Some (Inr (merge_finish t c (merge_own t s), v, c, cache))) \<noteq> None" for s k c v
    by (intro call_bind_Some) (simp_all split: prod.split)
  have "call_bind (resolve p visited chain cache)
      (\<lambda>(p, visited, chain, cache). Some (Inr (merge_parent p merge_start, visited, chain, cache))) \<noteq> None"
    if "nt_extends t = Some p" for p
    by (intro call_bind_Some assms(1) that) (simp split: prod.split)
  with mixins show ?thesis
    unfolding resolve_loaded_def by (intro call_bind_Some) (auto split: option.split)
qed

lemma fuel_suffices:
  assumes "mixins_ranked fetch rank"
  shows "Suc MAX_INHERITANCE_DEPTH * rank name + (MAX_INHERITANCE_DEPTH - length chain) < n \<Longrightarrow>
    node_type_resolve_recursive fetch pins n name visited chain cache \<noteq> None"
proof (induction n arbitrary: name visited chain cache)
  case (Suc n)
  let ?res = "node_type_resolve_recursive fetch pins n"
  have "resolve_loaded ?res t (name # visited) (chain @ [name]) k \<noteq> None"
    if t: "fetch name revision = Inr (Some t)" and depth: "length chain < MAX_INHERITANCE_DEPTH" for t revision k
  proof (rule resolve_loaded_returns)
    fix p
    assume "nt_extends t = Some p"
    with assms t have "rank p \<le> rank name" by (auto simp: mixins_ranked_def)
    then have "Suc MAX_INHERITANCE_DEPTH * rank p \<le> Suc MAX_INHERITANCE_DEPTH * rank name" by (rule mult_le_mono2)
    with Suc.prems depth show "?res p (name # visited) (chain @ [name]) k \<noteq> None" by (intro Suc.IH) simp
  next
    fix m k'
    assume "m \<in> set (nt_mixins t)"
    with assms t have "Suc (rank m) \<le> rank name" by (simp add: mixins_ranked_def Suc_le_eq)
    then have "Suc MAX_INHERITANCE_DEPTH * Suc (rank m) \<le> Suc MAX_INHERITANCE_DEPTH * rank name" by (rule mult_le_mono2)
    with Suc.prems show "?res m [] [] k' \<noteq> None" by (intro Suc.IH) simp
  qed
  then show ?case by (auto simp: resolve_step_def Let_def split: sum.split option.split)
qed simp

text \<open>
  C21. Resolving a node type returns. If the types can be ranked so that each mixin of a type ranks below it and
  its parent not above it, the resolution of a name gives one answer, a resolved type or an error, and gives it
  for every fuel from twenty-one steps for each rank up; cycles of \<open>extends\<close> are allowed and are errors.
\<close>

theorem node_type_resolution_returns:
  assumes "mixins_ranked fetch rank"
  shows "\<exists>answer. \<forall>fuel \<ge> Suc MAX_INHERITANCE_DEPTH * Suc (rank name). resolve_node_type fetch pins fuel name = Some answer"
proof -
  let ?n = "Suc MAX_INHERITANCE_DEPTH * Suc (rank name)"
  have "node_type_resolve_recursive fetch pins ?n name [] [] [] \<noteq> None"
    by (rule fuel_suffices [OF assms]) simp
  then have "resolve_node_type fetch pins ?n name \<noteq> None"
    unfolding resolve_node_type_def by (intro call_bind_Some) (auto split: prod.split)
  then obtain answer where "resolve_node_type fetch pins ?n name = Some answer" by auto
  with resolve_node_type_more_fuel show ?thesis by blast
qed

lemma mixin_cycle_stuck:
  assumes "\<And>a. a \<in> C \<Longrightarrow> \<exists>t m ms. fetch a None = Inr (Some t) \<and> nt_extends t = None \<and> nt_mixins t = m # ms \<and> m \<in> C"
  shows "name \<in> C \<Longrightarrow> node_type_resolve_recursive fetch None n name [] [] [] = None"
proof (induction n arbitrary: name)
  case (Suc n)
  from assms [OF Suc.prems] obtain t m ms where
      "fetch name None = Inr (Some t)" "nt_extends t = None" "nt_mixins t = m # ms" "m \<in> C" by auto
  with Suc.IH [of m] show ?case
    by (simp add: resolve_step_def Let_def max_revision_def resolve_loaded_def MAX_INHERITANCE_DEPTH_def)
qed simp

text \<open>
  C20. A cycle of mixins is never detected. In a set of types without parents whose first mixin is again in the
  set, no amount of recursion resolves any of them: neither a result nor an error is ever returned, where a cycle
  of \<open>extends\<close> is an error.
\<close>

theorem mixin_cycle_never_returns:
  assumes "\<forall>a \<in> C. \<exists>t m ms. fetch a None = Inr (Some t) \<and> nt_extends t = None \<and> nt_mixins t = m # ms \<and> m \<in> C"
    and "name \<in> C"
  shows "resolve_node_type fetch None fuel name = None"
  using mixin_cycle_stuck [of C fetch name fuel] assms by (simp add: resolve_node_type_def)

section \<open>Properties of the result\<close>

text \<open>
  C22. The properties of a node type. In a result every property is named and the names are strictly ascending;
  looked up by name they are those of the definition: the parent's, over them each mixin's in the order of
  declaration, over them the type's own, and last the default values its overrides give. Pins select the
  revision each type is read at. This meaning is unique.
\<close>

theorem node_type_properties_meaning:
  assumes "resolve_node_type fetch pins fuel name = Some (Inr r)"
  shows "resolved_ok r \<and>
    (\<forall>m. property_meaning (type_at fetch pins) name m \<longleftrightarrow> m = by_name schema_name (rn_resolved_properties r))"
proof -
  note d = resolve_node_type_Inr(1) [OF assms]
  show ?thesis
  proof (intro conjI allI iffI)
    show "resolved_ok r" by (rule derives_ok [OF d])
  next
    fix m
    assume "property_meaning (type_at fetch pins) name m"
    then show "m = by_name schema_name (rn_resolved_properties r)" by (rule property_meaning_unique [OF _ derives_properties [OF d]])
  next
    fix m
    assume "m = by_name schema_name (rn_resolved_properties r)"
    then show "property_meaning (type_at fetch pins) name m" using derives_properties [OF d] by simp
  qed
qed

text \<open>
  C23. Type membership. The supertypes stamped on a node of a resolved type are, without duplicates, the type, its
  ancestors along \<open>extends\<close>, and every mixin applied by a type its definition uses at whatever distance: in
  its ancestors, in its mixins, in their ancestors and mixins. The chain has at most twenty types.
\<close>

theorem supertypes_membership:
  assumes "resolve_node_type fetch pins fuel name = Some (Inr r)"
  shows "distinct (effective_supertypes r) \<and> length (rn_inheritance_chain r) \<le> MAX_INHERITANCE_DEPTH \<and>
    set (effective_supertypes r) =
      {a. (name, a) \<in> (parents (type_at fetch pins))\<^sup>*} \<union> applied_mixins (type_at fetch pins) name"
proof -
  have "set (effective_supertypes r) = set (rn_inheritance_chain r) \<union> set (rn_resolved_mixins r)"
      and "distinct (effective_supertypes r)"
    by (simp_all add: effective_supertypes_def distinct_foldl_push_unique)
  then show ?thesis
    unfolding resolve_node_type_Inr(5) [OF assms] derives_mixins [OF resolve_node_type_Inr(1) [OF assms]]
    using resolve_node_type_Inr(2) [OF assms] by blast
qed

lemma indexed_property_iff:
  "\<lbrakk>distinct (map schema_name ps); \<forall>q \<in> set ps. ps_name q \<noteq> None\<rbrakk> \<Longrightarrow>
   (case find (\<lambda>q. case ps_name q of Some m \<Rightarrow> m = n | None \<Rightarrow> False) ps of
      None \<Rightarrow> False
    | Some q \<Rightarrow> (case ps_index q of None \<Rightarrow> False | Some is \<Rightarrow> t \<in> set is)) \<longleftrightarrow>
   n \<in> set (List.map_filter (\<lambda>q. case ps_name q of None \<Rightarrow> None
       | Some m \<Rightarrow> (case ps_index q of None \<Rightarrow> None | Some is \<Rightarrow> if t \<in> set is then Some m else None)) ps)"
proof (induction ps)
  case (Cons q ps)
  then obtain m where m: "ps_name q = Some m" by auto
  show ?case
  proof (cases "m = n")
    case True
    have "ps_name x \<noteq> Some n" if "x \<in> set ps" for x
    proof
      assume "ps_name x = Some n"
      then have "schema_name x = schema_name q" using m True by (simp add: schema_name_def)
      with Cons.prems(1) that show False by (metis distinct.simps(2) image_eqI list.set_map list.simps(9))
    qed
    then have "n \<notin> set (List.map_filter (\<lambda>q. case ps_name q of None \<Rightarrow> None
       | Some m \<Rightarrow> (case ps_index q of None \<Rightarrow> None | Some is \<Rightarrow> if t \<in> set is then Some m else None)) ps)"
      unfolding map_filter_mem by (auto split: option.splits if_splits)
    with m True show ?thesis by (auto simp: map_filter_simps split: option.split)
  next
    case False
    with Cons m show ?thesis by (auto simp: map_filter_simps split: option.split)
  qed
qed (simp add: map_filter_simps)

text \<open>
  The two questions of the indexing policy agree. For a resolved type, a property is one to index for an
  index type exactly when it is in the list of the properties to index for it.
\<close>

theorem indexing_questions_agree:
  assumes "resolve_node_type fetch pins fuel name = Some (Inr r)"
  shows "should_index_property r p t \<longleftrightarrow> p \<in> set (properties_to_index r t)"
proof -
  have ok: "resolved_ok r" by (rule derives_ok [OF resolve_node_type_Inr(1) [OF assms]])
  then have "distinct (map schema_name (rn_resolved_properties r))" "\<forall>q \<in> set (rn_resolved_properties r). ps_name q \<noteq> None"
    by (simp_all add: resolved_ok_def strict_sorted_iff)
  from indexed_property_iff [OF this] show ?thesis
    by (simp add: should_index_property_def properties_to_index_def)
qed

section \<open>A small repository\<close>

definition demo_property :: "string \<Rightarrow> nat option \<Rightarrow> (nat, unit) property_value_schema" where
  "demo_property name d = \<lparr>ps_name = Some name, ps_default = d, ps_index = Some [Fulltext],
     ps_encrypted = None, ps_rest = ()\<rparr>"

definition demo_type ::
  "string \<Rightarrow> string option \<Rightarrow> string list \<Rightarrow> (string \<times> nat) list \<Rightarrow> (string \<times> nat option) list \<Rightarrow> (nat, unit, unit) node_type" where
  "demo_type name extends mixins overrides props = \<lparr>nt_name = name, nt_extends = extends, nt_mixins = mixins,
     nt_overrides = Some overrides, nt_properties = Some (map (\<lambda>(n, d). demo_property n d) props),
     nt_allowed_children = [], nt_publishable = None, nt_indexable = None, nt_index_types = None,
     nt_compound_indexes = None\<rparr>"

definition demo_types :: "(nat, unit, unit) type_fetch" where
  "demo_types name revision =
     (if name = ''Article'' then Inr (Some (demo_type ''Article'' (Some ''Page'') [''Seo''] [(''rank'', 9)] [(''body'', None)]))
      else if name = ''Page'' then Inr (Some (demo_type ''Page'' None [] [] [(''title'', Some 1), (''rank'', Some 2)]))
      else if name = ''Seo'' then Inr (Some (demo_type ''Seo'' None [''Tags''] [] [(''title'', Some 3)]))
      else if name = ''Tags'' then Inr (Some (demo_type ''Tags'' None [] [] []))
      else if name = ''Left'' then Inr (Some (demo_type ''Left'' None [''Right''] [] []))
      else if name = ''Right'' then Inr (Some (demo_type ''Right'' None [''Left''] [] []))
      else Inr None)"

lemma demo_types_ranked:
  "mixins_ranked (\<lambda>name revision. if name \<in> {''Left'', ''Right''} then Inr None else demo_types name revision)
     (\<lambda>name. if name = ''Article'' then 2 else if name = ''Page'' then 0 else if name = ''Seo'' then 1 else 0)"
  by (auto simp: mixins_ranked_def demo_types_def demo_type_def split: if_splits)

theorem node_type_resolution_returns_witness:
  "\<exists>answer. \<forall>fuel \<ge> 63. resolve_node_type
     (\<lambda>name revision. if name \<in> {''Left'', ''Right''} then Inr None else demo_types name revision) None fuel ''Article'' =
     Some answer"
  using node_type_resolution_returns [OF demo_types_ranked, of "''Article''" None] by (simp add: MAX_INHERITANCE_DEPTH_def)

theorem mixin_cycle_never_returns_witness:
  "\<forall>fuel. resolve_node_type demo_types None fuel ''Left'' = None"
  by (rule allI, rule mixin_cycle_never_returns [of "{''Left'', ''Right''}"]) (simp_all add: demo_types_def demo_type_def)

lemma demo_resolution:
  "case resolve_node_type demo_types None 63 ''Article'' of
     Some (Inr r) \<Rightarrow> map (\<lambda>p. (schema_name p, ps_default p)) (rn_resolved_properties r) =
         [(''body'', None), (''rank'', Some 9), (''title'', Some 3)] \<and>
       effective_supertypes r = [''Article'', ''Page'', ''Seo'', ''Tags''] \<and> properties_to_index r Fulltext = [''body'', ''rank'', ''title'']
   | _ \<Rightarrow> False"
  by code_simp

theorem node_type_properties_meaning_witness:
  "\<exists>r. resolve_node_type demo_types None 63 ''Article'' = Some (Inr r) \<and>
     map (\<lambda>p. (schema_name p, ps_default p)) (rn_resolved_properties r) =
       [(''body'', None), (''rank'', Some 9), (''title'', Some 3)] \<and>
     property_meaning (type_at demo_types None) ''Article'' (by_name schema_name (rn_resolved_properties r))"
  using demo_resolution node_type_properties_meaning [of demo_types None 63 "''Article''"]
  by (auto split: option.splits sum.splits)

theorem supertypes_membership_witness:
  "{a. (''Article'', a) \<in> (parents (type_at demo_types None))\<^sup>*} \<union> applied_mixins (type_at demo_types None) ''Article'' =
     {''Article'', ''Page'', ''Seo'', ''Tags''}"
  using demo_resolution supertypes_membership [of demo_types None 63 "''Article''"]
  by (auto split: option.splits sum.splits simp del: set_foldl_push_unique)

theorem indexing_questions_agree_witness:
  "\<exists>r. resolve_node_type demo_types None 63 ''Article'' = Some (Inr r) \<and> should_index_property r ''title'' Fulltext"
  using demo_resolution indexing_questions_agree [of demo_types None 63 "''Article''" _ "''title''" Fulltext]
  by (auto split: option.splits sum.splits)

end
