(* ===== verification/Rate_Limiter.thy ===== *)
theory Rate_Limiter
  imports Raisin_Prelude
begin

text \<open>
  The sliding-window rate limiter: \<open>raisin-ratelimit/src/rocks.rs\<close> and the result type of
  \<open>raisin-context/src/rate_limit.rs\<close>.

  A bucket is the list of the seconds at which requests were recorded; the database maps a key to a
  serialized bucket, here to the bucket, or to \<open>None\<close> for bytes that do not decode. The code reads the
  clock anew at every use, so an operation takes all its readings (\<open>readings\<close>), in the order in which
  it makes them. \<open>current_timestamp() - bucket.last_cleanup\<close> is the wrapping subtraction.

  Called one after the other on a clock that does not run backwards, checks admit at most the
  limit of requests in any window (\<open>admissions_within_limit\<close>). An operation reads the bucket and writes it
  back without a lock, so two of them in parallel can both read before either writes, and then
  both are admitted and one record is lost (\<open>parallel_checks_exceed_limit\<close>).
\<close>

section \<open>Buckets\<close>

record duration =
  dur_secs :: u64
  dur_nanos :: u32

record rate_bucket =
  rb_timestamps :: "u64 list"
  rb_last_cleanup :: u64

record rate_limit_info =
  rl_allowed :: bool
  rl_current :: nat
  rl_limit :: nat
  rl_reset_after :: duration

definition is_exceeded :: "rate_limit_info \<Rightarrow> bool" where
  "is_exceeded info = (\<not> rl_allowed info)"

definition remaining_requests :: "rate_limit_info \<Rightarrow> nat" where
  "remaining_requests info = rl_limit info - rl_current info"

definition bucket_new :: "u64 \<Rightarrow> rate_bucket" where
  "bucket_new now = \<lparr>rb_timestamps = [], rb_last_cleanup = now\<rparr>"

definition bucket_cleanup :: "u64 \<Rightarrow> u64 \<Rightarrow> rate_bucket \<Rightarrow> rate_bucket" where
  "bucket_cleanup now window_secs b =
     \<lparr>rb_timestamps = filter (\<lambda>ts. ts \<ge> saturating_sub now window_secs) (rb_timestamps b), rb_last_cleanup = now\<rparr>"

definition bucket_record :: "u64 \<Rightarrow> rate_bucket \<Rightarrow> rate_bucket" where
  "bucket_record now b = b\<lparr>rb_timestamps := rb_timestamps b @ [now]\<rparr>"

definition count_in_window :: "u64 \<Rightarrow> u64 \<Rightarrow> rate_bucket \<Rightarrow> nat" where
  "count_in_window now window_secs b =
     length (filter (\<lambda>ts. ts \<ge> saturating_sub now window_secs) (rb_timestamps b))"

section \<open>Operations\<close>

type_synonym rate_store = "(string, rate_bucket option) hash_map"

record readings =
  clk_new :: u64
  clk_check :: u64
  clk_clean :: u64
  clk_count :: u64
  clk_record :: u64
  clk_filter :: "nat \<Rightarrow> u64"   \<comment> \<open>one reading for each timestamp filtered\<close>
  clk_elapsed :: u64

definition get_bucket :: "u64 \<Rightarrow> rate_store \<Rightarrow> string \<Rightarrow> rate_bucket" where
  "get_bucket now store key =
     (case hm_get store key of Some (Some b) \<Rightarrow> b | _ \<Rightarrow> bucket_new now)"

definition put_bucket :: "bool \<Rightarrow> string \<Rightarrow> rate_bucket \<Rightarrow> rate_store \<Rightarrow> rate_store" where
  "put_bucket put_ok key b store = (if put_ok then hm_insert key (Some b) store else store)"

definition list_min :: "u64 list \<Rightarrow> u64 option" where
  "list_min xs = (case xs of [] \<Rightarrow> None | x # xs \<Rightarrow> Some (foldl min x xs))"

definition reset_after :: "readings \<Rightarrow> duration \<Rightarrow> rate_bucket \<Rightarrow> duration" where
  "reset_after rd window b =
     (let in_window = map snd (filter (\<lambda>(i, ts). ts \<ge> saturating_sub (clk_filter rd i) (dur_secs window))
                        (zip [0..<length (rb_timestamps b)] (rb_timestamps b)))
      in case list_min in_window of
           Some oldest \<Rightarrow>
             \<lparr>dur_secs = saturating_sub (dur_secs window) (saturating_sub (clk_elapsed rd) oldest), dur_nanos = 0\<rparr>
         | None \<Rightarrow> window)"

text \<open>A check from the bucket it read: the answer, and the bucket it writes back if it admits.\<close>

definition check_bucket :: "readings \<Rightarrow> nat \<Rightarrow> duration \<Rightarrow> rate_bucket \<Rightarrow> rate_limit_info \<times> rate_bucket option" where
  "check_bucket rd limit window b =
     (let window_secs = dur_secs window;
          b = (if clk_check rd - rb_last_cleanup b > window_secs div 2 then bucket_cleanup (clk_clean rd) window_secs b else b);
          current = count_in_window (clk_count rd) window_secs b;
          allowed = current < limit;
          b = (if allowed then bucket_record (clk_record rd) b else b)
      in (\<lparr>rl_allowed = allowed, rl_current = current, rl_limit = limit, rl_reset_after = reset_after rd window b\<rparr>,
          if allowed then Some b else None))"

definition check_and_record_internal ::
  "readings \<Rightarrow> bool \<Rightarrow> string \<Rightarrow> nat \<Rightarrow> duration \<Rightarrow> rate_store \<Rightarrow> rate_limit_info \<times> rate_store" where
  "check_and_record_internal rd put_ok key limit window store =
     (case check_bucket rd limit window (get_bucket (clk_new rd) store key) of
        (info, Some b) \<Rightarrow> (info, put_bucket put_ok key b store)
      | (info, None) \<Rightarrow> (info, store))"

definition record_request :: "readings \<Rightarrow> bool \<Rightarrow> string \<Rightarrow> duration \<Rightarrow> rate_store \<Rightarrow> rate_store" where
  "record_request rd put_ok key window store =
     put_bucket put_ok key
       (bucket_cleanup (clk_clean rd) (dur_secs window) (bucket_record (clk_record rd) (get_bucket (clk_new rd) store key)))
       store"

definition reset_key :: "bool \<Rightarrow> string \<Rightarrow> rate_store \<Rightarrow> rate_store" where
  "reset_key delete_ok key store = (if delete_ok then hm_remove key store else store)"

section \<open>Runs\<close>

datatype rate_call = CheckRate readings | RecordOne readings

text \<open>The calls for one key, one after the other; the stamps of the requests admitted, latest last.\<close>

fun rate_run :: "string \<Rightarrow> nat \<Rightarrow> duration \<Rightarrow> rate_call list \<Rightarrow> rate_store \<Rightarrow> u64 list \<times> rate_store" where
  "rate_run key limit window [] store = ([], store)"
| "rate_run key limit window (CheckRate rd # calls) store =
     (let (info, store) = check_and_record_internal rd True key limit window store;
          (admitted, store) = rate_run key limit window calls store
      in ((if rl_allowed info then [clk_record rd] else []) @ admitted, store))"
| "rate_run key limit window (RecordOne rd # calls) store =
     rate_run key limit window calls (record_request rd True key window store)"

text \<open>The clock does not run backwards, from reading to reading and from call to call.\<close>

fun clock_forward :: "u64 \<Rightarrow> rate_call list \<Rightarrow> bool" where
  "clock_forward now [] = True"
| "clock_forward now (CheckRate rd # calls) =
     (now \<le> clk_check rd \<and> clk_check rd \<le> clk_clean rd \<and> clk_clean rd \<le> clk_count rd \<and> clk_count rd \<le> clk_record rd \<and>
      clock_forward (clk_record rd) calls)"
| "clock_forward now (RecordOne rd # calls) =
     (now \<le> clk_record rd \<and> clk_record rd \<le> clk_clean rd \<and> clock_forward (clk_clean rd) calls)"

definition rate_stamps :: "rate_store \<Rightarrow> string \<Rightarrow> u64 list" where
  "rate_stamps store key = (case hm_get store key of Some (Some b) \<Rightarrow> rb_timestamps b | _ \<Rightarrow> [])"

definition admitted_in :: "u64 \<Rightarrow> u64 \<Rightarrow> u64 list \<Rightarrow> nat" where
  "admitted_in start window_secs admitted =
     length (filter (\<lambda>t. start \<le> t \<and> unat t \<le> unat start + unat window_secs) admitted)"

text \<open>What the bucket remembers of the requests admitted by the time \<open>now\<close>.\<close>

definition remembers :: "u64 \<Rightarrow> u64 \<Rightarrow> u64 list \<Rightarrow> u64 list \<Rightarrow> bool" where
  "remembers now window_secs admitted ts \<longleftrightarrow> (\<forall>t \<in> set admitted. t \<le> now) \<and>
     mset (filter (\<lambda>t. t \<ge> saturating_sub now window_secs) admitted) \<subseteq># mset ts"

lemma get_bucket_stamps [simp]: "rb_timestamps (get_bucket now store key) = rate_stamps store key"
  by (auto simp: get_bucket_def rate_stamps_def bucket_new_def split: option.split)

lemma saturating_sub_mono: "a \<le> b \<Longrightarrow> saturating_sub a w \<le> saturating_sub b w"
  by (auto simp: saturating_sub_def word_le_nat_alt word_less_nat_alt unat_sub_if')

lemma saturating_sub_window: "saturating_sub r w \<le> x \<longleftrightarrow> unat r \<le> unat x + unat w"
  by (auto simp: saturating_sub_def word_le_nat_alt word_less_nat_alt unat_sub_if')

lemma filter_subset_mset: "mset xs \<subseteq># mset ys \<Longrightarrow> mset (filter P xs) \<subseteq># mset (filter P ys)"
  by (simp add: multiset_filter_mono)

lemma remembers_later:
  assumes "remembers now w adm ts" and "now \<le> later"
  shows "remembers later w adm (filter (\<lambda>t. t \<ge> saturating_sub later w) ts)"
proof -
  have "filter (\<lambda>t. t \<ge> saturating_sub later w) adm =
      filter (\<lambda>t. t \<ge> saturating_sub later w) (filter (\<lambda>t. t \<ge> saturating_sub now w) adm)"
    using saturating_sub_mono [OF assms(2), of w] by (auto intro!: filter_cong)
  with assms show ?thesis
    using filter_subset_mset [of "filter (\<lambda>t. t \<ge> saturating_sub now w) adm" ts "\<lambda>t. t \<ge> saturating_sub later w"]
    by (fastforce simp: remembers_def)
qed

lemma remembers_more: "remembers now w adm ts \<Longrightarrow> mset ts \<subseteq># mset ts' \<Longrightarrow> remembers now w adm ts'"
  by (auto simp: remembers_def intro: subset_mset.order_trans)

lemma remembers_until:
  assumes "remembers now w adm ts" and "now \<le> later"
  shows "remembers later w adm ts"
  by (rule remembers_more [OF remembers_later [OF assms]]) (simp add: multiset_filter_subset)

text \<open>A request admitted at \<open>r\<close> after a count at \<open>c\<close> keeps every window within the limit.\<close>

lemma admission_within_limit:
  assumes "remembers c w adm ts" and "length (filter (\<lambda>t. t \<ge> saturating_sub c w) ts) < limit" and "c \<le> r"
    and "admitted_in x w adm \<le> limit"
  shows "admitted_in x w (adm @ [r]) \<le> limit"
proof (cases "x \<le> r \<and> unat r \<le> unat x + unat w")
  case True
  have "saturating_sub c w \<le> x"
    using True assms(3) unfolding saturating_sub_window by (simp add: word_le_nat_alt)
  then have eq: "filter (\<lambda>t. x \<le> t \<and> unat t \<le> unat x + unat w) adm =
      filter (\<lambda>t. x \<le> t \<and> unat t \<le> unat x + unat w) (filter (\<lambda>t. t \<ge> saturating_sub c w) adm)"
    by (auto intro!: filter_cong)
  have "admitted_in x w adm \<le> length (filter (\<lambda>t. t \<ge> saturating_sub c w) adm)"
    unfolding admitted_in_def eq by (rule length_filter_le)
  also have "\<dots> \<le> length (filter (\<lambda>t. t \<ge> saturating_sub c w) ts)"
    using size_mset_mono [OF filter_subset_mset [of "filter (\<lambda>t. t \<ge> saturating_sub c w) adm" ts "\<lambda>t. t \<ge> saturating_sub c w"]]
      assms(1) by (simp add: remembers_def flip: mset_filter)
  finally show ?thesis using assms(2) True by (simp add: admitted_in_def)
next
  case False
  with assms(4) show ?thesis by (auto simp: admitted_in_def)
qed

lemma check_bucket_stamps:
  assumes "remembers now w adm (rb_timestamps b)" and "w = dur_secs window"
    and "now \<le> clk_check rd" "clk_check rd \<le> clk_clean rd" "clk_clean rd \<le> clk_count rd" "clk_count rd \<le> clk_record rd"
  obtains ts where "remembers (clk_count rd) w adm ts"
    "check_bucket rd limit window b = (info, ob) \<Longrightarrow>
       rl_allowed info = (length (filter (\<lambda>t. t \<ge> saturating_sub (clk_count rd) w) ts) < limit) \<and>
       (case ob of None \<Rightarrow> \<not> rl_allowed info | Some b' \<Rightarrow> rl_allowed info \<and> rb_timestamps b' = ts @ [clk_record rd])"
proof -
  let ?b = "if clk_check rd - rb_last_cleanup b > w div 2 then bucket_cleanup (clk_clean rd) w b else b"
  have now: "now \<le> clk_clean rd" "now \<le> clk_count rd" using assms(3-5) by auto
  have "remembers (clk_count rd) w adm (rb_timestamps ?b)"
    using remembers_until [OF assms(1) now(2)] remembers_until [OF remembers_later [OF assms(1) now(1)] assms(5)]
    by (simp add: bucket_cleanup_def)
  then show ?thesis
    by (rule that [of "rb_timestamps ?b"])
      (auto simp: check_bucket_def Let_def count_in_window_def bucket_record_def assms(2) split: if_splits)
qed

lemma remembers_admission:
  assumes "remembers c w adm ts" and "c \<le> r"
  shows "remembers r w (adm @ [r]) (ts @ [r])"
proof -
  have "remembers r w adm ts" by (rule remembers_until [OF assms])
  moreover have "saturating_sub r w \<le> r" by (simp add: saturating_sub_window)
  ultimately show ?thesis by (auto simp: remembers_def)
qed

lemma rate_run_within_limit:
  assumes "remembers now (dur_secs window) adm (rate_stamps store key)" and "clock_forward now calls"
    and "\<And>x. admitted_in x (dur_secs window) adm \<le> limit"
  shows "admitted_in x (dur_secs window) (adm @ fst (rate_run key limit window calls store)) \<le> limit"
  using assms
proof (induction calls arbitrary: now adm store)
  case (Cons call calls)
  show ?case
  proof (cases call)
    case (CheckRate rd)
    let ?b = "get_bucket (clk_new rd) store key"
    obtain info ob where check: "check_bucket rd limit window ?b = (info, ob)" by fastforce
    from Cons.prems(2) have clock: "now \<le> clk_check rd" "clk_check rd \<le> clk_clean rd" "clk_clean rd \<le> clk_count rd"
        "clk_count rd \<le> clk_record rd" "clock_forward (clk_record rd) calls"
      by (simp_all add: CheckRate)
    from Cons.prems(1) have mem: "remembers now (dur_secs window) adm (rb_timestamps ?b)" by simp
    obtain ts where ts: "remembers (clk_count rd) (dur_secs window) adm ts"
      and res: "rl_allowed info = (length (filter (\<lambda>t. t \<ge> saturating_sub (clk_count rd) (dur_secs window)) ts) < limit) \<and>
       (case ob of None \<Rightarrow> \<not> rl_allowed info | Some b' \<Rightarrow> rl_allowed info \<and> rb_timestamps b' = ts @ [clk_record rd])"
      by (rule check_bucket_stamps [OF mem refl clock(1-4), where limit = limit and info = info and ob = ob])
        (use check in blast)
    show ?thesis
    proof (cases ob)
      case None
      have "remembers (clk_record rd) (dur_secs window) adm (rate_stamps store key)"
        by (rule remembers_until [OF Cons.prems(1)]) (use clock in order)
      from Cons.IH [OF this clock(5) Cons.prems(3)] None res check show ?thesis
        by (auto simp: CheckRate check_and_record_internal_def split: prod.splits)
    next
      case (Some b')
      let ?store = "put_bucket True key b' store"
      have "rate_stamps ?store key = ts @ [clk_record rd]" using res Some by (simp add: rate_stamps_def put_bucket_def hm_simps)
      then have "remembers (clk_record rd) (dur_secs window) (adm @ [clk_record rd]) (rate_stamps ?store key)"
        using remembers_admission [OF ts clock(4)] by simp
      moreover have "admitted_in y (dur_secs window) (adm @ [clk_record rd]) \<le> limit" for y
        by (rule admission_within_limit [OF ts _ clock(4) Cons.prems(3)]) (use res Some in auto)
      ultimately show ?thesis
        using Cons.IH [of "clk_record rd" "adm @ [clk_record rd]" ?store] clock(5) Some res check
        by (auto simp: CheckRate check_and_record_internal_def split: prod.splits)
    qed
  next
    case (RecordOne rd)
    let ?store = "record_request rd True key window store"
    from Cons.prems(2) have clock: "now \<le> clk_clean rd" "clock_forward (clk_clean rd) calls"
      by (auto simp: RecordOne)
    have "rate_stamps ?store key = filter (\<lambda>t. t \<ge> saturating_sub (clk_clean rd) (dur_secs window)) (rate_stamps store key @ [clk_record rd])"
      unfolding rate_stamps_def record_request_def put_bucket_def
      by (simp add: hm_simps bucket_cleanup_def bucket_record_def rate_stamps_def)
    moreover have "remembers now (dur_secs window) adm (rate_stamps store key @ [clk_record rd])"
      by (rule remembers_more [OF Cons.prems(1)]) simp
    ultimately have "remembers (clk_clean rd) (dur_secs window) adm (rate_stamps ?store key)"
      using remembers_later [OF _ clock(1)] by (simp only:)
    from Cons.IH [OF this clock(2) Cons.prems(3)] show ?thesis by (simp add: RecordOne)
  qed
qed simp


definition at_second :: "u64 \<Rightarrow> readings" where
  "at_second t = \<lparr>clk_new = t, clk_check = t, clk_clean = t, clk_count = t, clk_record = t, clk_filter = (\<lambda>_. t), clk_elapsed = t\<rparr>"


text \<open>
  Two checks of one key in parallel: both read the bucket, then both write. With a limit of one both are admitted,
  and the bucket remembers one request only.
\<close>

definition parallel_checks ::
  "readings \<Rightarrow> readings \<Rightarrow> string \<Rightarrow> nat \<Rightarrow> duration \<Rightarrow> rate_store \<Rightarrow> rate_limit_info \<times> rate_limit_info \<times> rate_store" where
  "parallel_checks rd rd' key limit window store =
     (let (info, ob) = check_bucket rd limit window (get_bucket (clk_new rd) store key);
          (info', ob') = check_bucket rd' limit window (get_bucket (clk_new rd') store key);
          store = (case ob of Some b \<Rightarrow> put_bucket True key b store | None \<Rightarrow> store);
          store = (case ob' of Some b \<Rightarrow> put_bucket True key b store | None \<Rightarrow> store)
      in (info, info', store))"

theorem parallel_checks_exceed_limit:
  "case parallel_checks (at_second 100) (at_second 100) ''k'' 1 \<lparr>dur_secs = 60, dur_nanos = 0\<rparr> [] of
     (info, info', store) \<Rightarrow> rl_allowed info \<and> rl_allowed info' \<and> rate_stamps store ''k'' = [100]"
  by code_simp

end
