(* ===== verification/Inbox_Tasks.thy ===== *)
theory Inbox_Tasks
  imports Flow_Expr
begin

text \<open>
  Completion of inbox tasks: \<open>raisin-flow-runtime/src/service.rs\<close>, from \<open>TaskCompleter\<close> to \<open>complete_task\<close>, with
  \<open>resume_flow\<close> and \<open>cancel_instance\<close> of the same file.

  The world is the task nodes by path, the flow instances by id, and the flow jobs queued so far. What storage
  and the scheduler answer is the record \<open>inbox_env\<close>: an error for a read of a task or an instance, for an
  update, for queueing; and the two serde conversions of a response. Progress events and logs are left out.

  A task assigned to a group has one task node for each member. The theory shows that however the members
  answer, one after the other, the flow is resumed at most once (\<open>group_resumes_once\<close>), and that an answer
  leaves it waiting only while somebody can still answer (\<open>group_waits_for_somebody\<close>).
\<close>

section \<open>Tasks and completers\<close>

datatype task_prop =
    PString string
  | PInteger int
  | PBoolean bool
  | PArray "task_prop list"
  | PDate datetime
  | PObject "(string \<times> task_prop) list"
  | POther json

record inbox_task =
  tk_id :: string
  tk_path :: string
  tk_node_type :: string
  tk_properties :: "(string, task_prop) hash_map"

record task_completer =
  tc_id :: string
  tc_home :: "string option"
  tc_is_admin :: bool

definition trim_slashes :: "string \<Rightarrow> string" where
  "trim_slashes s = rev (dropWhile (\<lambda>c. c = CHR ''/'') (rev (dropWhile (\<lambda>c. c = CHR ''/'') s)))"

text \<open>\<open>rsplit('/').next()\<close>.\<close>

definition last_segment :: "string \<Rightarrow> string" where
  "last_segment s = rev (takeWhile (\<lambda>c. c \<noteq> CHR ''/'') (rev s))"

definition matches_assignee :: "task_completer \<Rightarrow> string \<Rightarrow> bool" where
  "matches_assignee c assignee =
     (if tc_is_admin c then True
      else let assignee_n = trim_slashes assignee in
        if (case tc_home c of Some home \<Rightarrow> trim_slashes home = assignee_n | None \<Rightarrow> False) then True
        else last_segment assignee_n = tc_id c)"

definition task_prop_str :: "inbox_task \<Rightarrow> string \<Rightarrow> string option" where
  "task_prop_str t key = (case hm_get (tk_properties t) key of Some (PString s) \<Rightarrow> Some s | _ \<Rightarrow> None)"

definition task_prop_usize :: "inbox_task \<Rightarrow> string \<Rightarrow> nat option" where
  "task_prop_usize t key =
     (case hm_get (tk_properties t) key of Some (PInteger v) \<Rightarrow> if v \<ge> 0 then Some (nat v) else None | _ \<Rightarrow> None)"

definition task_prop_paths :: "inbox_task \<Rightarrow> string \<Rightarrow> string list" where
  "task_prop_paths t key =
     (case hm_get (tk_properties t) key of
        Some (PArray vs) \<Rightarrow> List.map_filter (\<lambda>v. case v of PString p \<Rightarrow> Some p | _ \<Rightarrow> None) vs
      | _ \<Rightarrow> [])"

definition task_prop_time :: "(datetime \<Rightarrow> string) \<Rightarrow> inbox_task \<Rightarrow> string \<Rightarrow> string option" where
  "task_prop_time rfc3339 t key =
     (case hm_get (tk_properties t) key of Some (PString s) \<Rightarrow> Some s | Some (PDate d) \<Rightarrow> Some (rfc3339 d) | _ \<Rightarrow> None)"

definition task_qualifies :: "inbox_task \<Rightarrow> bool" where
  "task_qualifies t = (hm_get (tk_properties t) ''qualifies'' = Some (PBoolean True))"

definition task_status :: "inbox_task \<Rightarrow> string" where
  "task_status t = (case task_prop_str t ''status'' of Some s \<Rightarrow> s | None \<Rightarrow> ''pending'')"

definition set_prop :: "string \<Rightarrow> task_prop \<Rightarrow> inbox_task \<Rightarrow> inbox_task" where
  "set_prop key v t = t\<lparr>tk_properties := hm_insert key v (tk_properties t)\<rparr>"

section \<open>The world\<close>

text \<open>The calls to the scheduler that it accepted.\<close>

datatype flow_job =
    ResumeJob string string json   \<comment> \<open>instance, reason, \<open>function_result\<close>\<close>
  | CancelJobs string

record inbox_world =
  iw_tasks :: "(string, inbox_task) hash_map"
  iw_instances :: "(string, flow_instance) hash_map"
  iw_jobs :: "flow_job list"

record inbox_env =
  ib_lib :: expr_lib
  ib_now :: string
  ib_rfc3339 :: "datetime \<Rightarrow> string"
  ib_to_prop :: "json \<Rightarrow> (string \<times> task_prop) list option"   \<comment> \<open>a response as a property map\<close>
  ib_to_json :: "task_prop \<Rightarrow> json option"
  ib_task_error :: "string \<Rightarrow> string option"
  ib_instance_error :: "string \<Rightarrow> flow_error option"
  ib_update_error :: "string \<Rightarrow> string option"
  ib_instance_update_error :: "string \<Rightarrow> string option"
  ib_schedule :: "flow_job list \<Rightarrow> flow_job \<Rightarrow> flow_error + string"

definition load_task_node :: "inbox_env \<Rightarrow> inbox_world \<Rightarrow> string \<Rightarrow> flow_error + inbox_task" where
  "load_task_node env w task_ref =
     (case ib_task_error env task_ref of
        Some e \<Rightarrow> Inl (Other e)
      | None \<Rightarrow>
          (case (if take 1 task_ref = ''/'' then hm_get (iw_tasks w) task_ref
                 else find (\<lambda>t. tk_id t = task_ref) (map snd (iw_tasks w))) of
             None \<Rightarrow> Inl (NodeNotFound (''Inbox task '' @ quoted task_ref @ '' not found''))
           | Some t \<Rightarrow>
               if tk_node_type t \<noteq> ''raisin:InboxTask''
               then Inl (InvalidDefinition (''Node '' @ quoted task_ref @ '' is not an inbox task (found: '' @ tk_node_type t @ '')''))
               else Inr t))"

definition load_instance :: "inbox_env \<Rightarrow> inbox_world \<Rightarrow> string \<Rightarrow> flow_error + flow_instance" where
  "load_instance env w instance_id =
     (case ib_instance_error env instance_id of
        Some e \<Rightarrow> Inl e
      | None \<Rightarrow>
          (case hm_get (iw_instances w) instance_id of
             None \<Rightarrow> Inl (NodeNotFound (''Flow instance '' @ quoted instance_id @ '' not found''))
           | Some i \<Rightarrow> Inr i))"

fun status_str :: "flow_status \<Rightarrow> string" where
  "status_str Pending = ''pending''"
| "status_str Running = ''running''"
| "status_str Waiting = ''waiting''"
| "status_str Completed = ''completed''"
| "status_str Failed = ''failed''"
| "status_str Cancelled = ''cancelled''"
| "status_str RolledBack = ''rolled_back''"

definition persist_inbox_task :: "inbox_env \<Rightarrow> inbox_world \<Rightarrow> inbox_task \<Rightarrow> flow_error + inbox_world" where
  "persist_inbox_task env w t =
     (case ib_update_error env (tk_path t) of
        Some e \<Rightarrow> Inl (Other (''Failed to update task node: '' @ e))
      | None \<Rightarrow> Inr (w\<lparr>iw_tasks := hm_insert (tk_path t) t (iw_tasks w)\<rparr>))"

definition task_response :: "inbox_env \<Rightarrow> inbox_task \<Rightarrow> json" where
  "task_response env t =
     (case Option.bind (hm_get (tk_properties t) ''response'') (ib_to_json env) of Some v \<Rightarrow> v | None \<Rightarrow> JNull)"

definition evaluate_group_response :: "inbox_env \<Rightarrow> string option \<Rightarrow> json \<Rightarrow> json list \<Rightarrow> bool flow_outcome" where
  "evaluate_group_response env condition response previous =
     (case condition of
        None \<Rightarrow> FlowOk True
      | Some cond \<Rightarrow>
          if el_trim (ib_lib env) cond = [] then FlowOk True
          else (case ctx_from_json (ib_lib env) (JObject [(''response'', response), (''responses'', JArray previous)]) of
              Inl e \<Rightarrow> FlowErr (InvalidNodeConfiguration (''Invalid human-task response context: '' @ e))
            | Inr ctx \<Rightarrow>
                (case rel_eval (ib_lib env) cond ctx of
                   RelErr e \<Rightarrow>
                     FlowErr (InvalidNodeConfiguration (''Invalid human-task response_condition '' @ quoted cond @ '': '' @ e))
                 | RelPanic \<Rightarrow> FlowPanic
                 | RelOk v \<Rightarrow> FlowOk (is_truthy (el_rel (ib_lib env)) v))))"

definition service_resume_flow :: "inbox_env \<Rightarrow> inbox_world \<Rightarrow> string \<Rightarrow> json \<Rightarrow> (flow_error + string \<times> string) \<times> inbox_world" where
  "service_resume_flow env w instance_id resume_data =
     (case load_instance env w instance_id of
        Inl e \<Rightarrow> (Inl e, w)
      | Inr i \<Rightarrow>
          if ins_status i \<noteq> Waiting then (Inl (InvalidStateTransition (status_str (ins_status i)) ''resumed''), w)
          else let job = ResumeJob instance_id ''api_resume'' resume_data in
            (case ib_schedule env (iw_jobs w) job of
               Inl e \<Rightarrow> (Inl e, w)
             | Inr job_id \<Rightarrow> (Inr (instance_id, job_id), w\<lparr>iw_jobs := iw_jobs w @ [job]\<rparr>)))"

section \<open>Completing a task\<close>

record task_completion =
  cr_task_id :: string
  cr_task_path :: string
  cr_status :: string
  cr_flow :: "(string \<times> string) option"

text \<open>Step 3: the flow must wait at the step of the task.\<close>

definition check_flow_waits :: "inbox_env \<Rightarrow> inbox_world \<Rightarrow> inbox_task \<Rightarrow> flow_error + unit" where
  "check_flow_waits env w t =
     (case task_prop_str t ''flow_instance_id'' of
        None \<Rightarrow> Inr ()
      | Some instance_id \<Rightarrow>
          (case load_instance env w instance_id of
             Inl e \<Rightarrow> Inl e
           | Inr i \<Rightarrow>
               if ins_status i \<noteq> Waiting then Inl (InvalidStateTransition (status_str (ins_status i)) ''resumed'')
               else (case task_prop_str t ''step_id'' of
                   None \<Rightarrow> Inr ()
                 | Some step_id \<Rightarrow>
                     if ins_current_node_id i \<noteq> step_id
                     then Inl (InvalidStateTransition (''waiting at '' @ quoted (ins_current_node_id i))
                                (''completing task for step '' @ quoted step_id))
                     else Inr ())))"

definition previous_responses :: "inbox_env \<Rightarrow> inbox_world \<Rightarrow> inbox_task \<Rightarrow> json list" where
  "previous_responses env w t =
     List.map_filter (\<lambda>path. case load_task_node env w path of
         Inr sibling \<Rightarrow> if task_prop_str sibling ''status'' = Some ''completed'' then Some (task_response env sibling) else None
       | Inl _ \<Rightarrow> None)
       (filter (\<lambda>path. path \<noteq> tk_path t) (task_prop_paths t ''assignment_task_paths''))"

definition judge_response :: "inbox_env \<Rightarrow> inbox_world \<Rightarrow> json \<Rightarrow> inbox_task \<Rightarrow> inbox_task flow_outcome" where
  "judge_response env w response t =
     (if task_prop_str t ''assignment_group'' = None then FlowOk t
      else (case evaluate_group_response env (task_prop_str t ''response_condition'') response (previous_responses env w t) of
              FlowOk q \<Rightarrow> FlowOk (set_prop ''qualifies'' (PBoolean q) t)
            | FlowErr e \<Rightarrow> FlowErr e
            | FlowPanic \<Rightarrow> FlowPanic))"

text \<open>Step 4.\<close>

definition mark_completed :: "inbox_env \<Rightarrow> task_completer \<Rightarrow> json \<Rightarrow> inbox_task \<Rightarrow> inbox_task" where
  "mark_completed env completer response t =
     (let t = set_prop ''status'' (PString ''completed'') t;
          t = set_prop ''completed_by'' (PString (tc_id completer)) t;
          t = set_prop ''responded_at'' (PString (ib_now env)) t
      in case ib_to_prop env response of Some m \<Rightarrow> set_prop ''response'' (PObject m) t | None \<Rightarrow> t)"

text \<open>Step 4b: the tasks of the group, read again but for the one just completed.\<close>

definition sibling_at :: "inbox_env \<Rightarrow> inbox_world \<Rightarrow> inbox_task \<Rightarrow> string \<Rightarrow> inbox_task option" where
  "sibling_at env w t path =
     (if path = tk_path t then Some t else (case load_task_node env w path of Inr s \<Rightarrow> Some s | Inl _ \<Rightarrow> None))"

definition group_siblings :: "inbox_env \<Rightarrow> inbox_world \<Rightarrow> inbox_task \<Rightarrow> inbox_task list" where
  "group_siblings env w t =
     (let siblings = List.map_filter (sibling_at env w t) (task_prop_paths t ''assignment_task_paths'')
      in if siblings = [] then [t] else siblings)"

definition response_entry :: "inbox_env \<Rightarrow> inbox_task \<Rightarrow> json" where
  "response_entry env t = JObject [(''assignee'', json_opt_str (task_prop_str t ''assignee'')), (''task_path'', JString (tk_path t)),
     (''response'', task_response env t), (''qualifies'', JBool (task_qualifies t)),
     (''completed_by'', json_opt_str (task_prop_str t ''completed_by'')),
     (''responded_at'', json_opt_str (task_prop_time (ib_rfc3339 env) t ''responded_at''))]"

record group_tally =
  gt_responses :: "json list"
  gt_pending :: "inbox_task list"
  gt_qualifying :: nat
  gt_responded :: nat

definition tally_group :: "inbox_env \<Rightarrow> inbox_task list \<Rightarrow> group_tally" where
  "tally_group env siblings =
     foldl (\<lambda>g t.
       if task_status t = ''completed'' then
         g\<lparr>gt_responded := gt_responded g + 1,
           gt_qualifying := gt_qualifying g + (if task_qualifies t then 1 else 0),
           gt_responses := gt_responses g @ [response_entry env t]\<rparr>
       else if task_status t = ''pending'' then g\<lparr>gt_pending := gt_pending g @ [t]\<rparr>
       else g)
       \<lparr>gt_responses = [], gt_pending = [], gt_qualifying = 0, gt_responded = 0\<rparr> siblings"

definition cancelled_task :: "inbox_task \<Rightarrow> inbox_task" where
  "cancelled_task t = set_prop ''cancellation_reason'' (PString ''group_completed'') (set_prop ''status'' (PString ''cancelled'') t)"

definition cancel_pending :: "inbox_env \<Rightarrow> inbox_task list \<Rightarrow> inbox_world \<Rightarrow> inbox_world" where
  "cancel_pending env pending w =
     foldl (\<lambda>w t. case persist_inbox_task env w (cancelled_task t) of Inr w' \<Rightarrow> w' | Inl _ \<Rightarrow> w) w pending"

definition group_summary :: "string \<Rightarrow> string \<Rightarrow> nat \<Rightarrow> nat \<Rightarrow> group_tally \<Rightarrow> json" where
  "group_summary group_path completion required total_count g =
     JObject [(''path'', JString group_path), (''completion'', JString completion), (''required'', json_u64 (of_nat required)),
       (''total'', json_u64 (of_nat total_count)), (''responded'', json_u64 (of_nat (gt_responded g))),
       (''qualifying'', json_u64 (of_nat (gt_qualifying g))), (''satisfied'', JBool (gt_qualifying g \<ge> required)),
       (''responses'', JArray (gt_responses g))]"

datatype group_verdict =
    NoGroup
  | KeepWaiting
  | GroupDone json "inbox_task list"   \<comment> \<open>the summary and the tasks to cancel\<close>

definition decide_group :: "inbox_env \<Rightarrow> inbox_world \<Rightarrow> inbox_task \<Rightarrow> group_verdict" where
  "decide_group env w t =
     (case task_prop_str t ''assignment_group'' of
        None \<Rightarrow> NoGroup
      | Some group_path \<Rightarrow>
          let required = (case task_prop_usize t ''assignment_required'' of Some n \<Rightarrow> n | None \<Rightarrow> 1);
              completion = (case task_prop_str t ''assignment_completion'' of Some s \<Rightarrow> s | None \<Rightarrow> ''any'');
              siblings = group_siblings env w t;
              g = tally_group env siblings;
              satisfied = gt_qualifying g \<ge> required
          in if \<not> satisfied \<and> gt_pending g \<noteq> [] then KeepWaiting
             else GroupDone (group_summary group_path completion required (length siblings) g) (gt_pending g))"

definition winning_response :: "json \<Rightarrow> json \<Rightarrow> json" where
  "winning_response summary response =
     (case Option.bind (jget ''responses'' summary) as_array of
        None \<Rightarrow> response
      | Some entries \<Rightarrow>
          (case find (\<lambda>e. jget ''qualifies'' e = Some (JBool True)) entries of
             None \<Rightarrow> response
           | Some e \<Rightarrow> (case jget ''response'' e of Some v \<Rightarrow> if v = JNull then response else v | None \<Rightarrow> response)))"

definition task_payload :: "task_completer \<Rightarrow> string \<Rightarrow> json option \<Rightarrow> json \<Rightarrow> json" where
  "task_payload completer task_path summary response =
     (let m = (case response of JObject m \<Rightarrow> m | other \<Rightarrow> [(''value'', other)]);
          m = hm_insert ''completed_by'' (JString (tc_id completer)) m;
          m = hm_insert ''task_path'' (JString task_path) m
      in JObject (case summary of Some s \<Rightarrow> hm_insert ''group'' s m | None \<Rightarrow> m))"

definition finish_task ::
  "inbox_env \<Rightarrow> task_completer \<Rightarrow> json option \<Rightarrow> json \<Rightarrow> inbox_task \<Rightarrow> inbox_world \<Rightarrow> task_completion flow_outcome \<times> inbox_world" where
  "finish_task env completer summary response t w =
     (let response = (case summary of Some s \<Rightarrow> winning_response s response | None \<Rightarrow> response);
          done = (\<lambda>flow. FlowOk \<lparr>cr_task_id = tk_id t, cr_task_path = tk_path t, cr_status = ''completed'', cr_flow = flow\<rparr>)
      in case task_prop_str t ''flow_instance_id'' of
           None \<Rightarrow> (done None, w)
         | Some instance_id \<Rightarrow>
             (case service_resume_flow env w instance_id (task_payload completer (tk_path t) summary response) of
                (Inr r, w) \<Rightarrow> (done (Some r), w)
              | (Inl e, w) \<Rightarrow>
                  (FlowErr (Other (''Task '' @ quoted (tk_id t) @ '' completed but flow resume failed: '' @ flow_error_to_string e)), w)))"

definition complete_task ::
  "inbox_env \<Rightarrow> string \<Rightarrow> task_completer \<Rightarrow> json \<Rightarrow> inbox_world \<Rightarrow> task_completion flow_outcome \<times> inbox_world" where
  "complete_task env task_ref completer response w =
     (case load_task_node env w task_ref of
        Inl e \<Rightarrow> (FlowErr e, w)
      | Inr t \<Rightarrow>
          if task_status t \<noteq> ''pending'' then (FlowErr (AlreadyTerminated (task_status t)), w)
          else let assignee = (case task_prop_str t ''assignee'' of Some a \<Rightarrow> a | None \<Rightarrow> []) in
          if \<not> matches_assignee completer assignee then
            (FlowErr (PermissionDenied (''Task '' @ quoted (tk_id t) @ '' is assigned to '' @ quoted assignee @ '', not '' @ quoted (tc_id completer))), w)
          else (case check_flow_waits env w t of
              Inl e \<Rightarrow> (FlowErr e, w)
            | Inr _ \<Rightarrow>
                (case judge_response env w response t of
                   FlowErr e \<Rightarrow> (FlowErr e, w)
                 | FlowPanic \<Rightarrow> (FlowPanic, w)
                 | FlowOk t \<Rightarrow>
                     let t = mark_completed env completer response t in
                     (case persist_inbox_task env w t of
                        Inl e \<Rightarrow> (FlowErr e, w)
                      | Inr w \<Rightarrow>
                          (case decide_group env w t of
                             NoGroup \<Rightarrow> finish_task env completer None response t w
                           | KeepWaiting \<Rightarrow>
                               (FlowOk \<lparr>cr_task_id = tk_id t, cr_task_path = tk_path t, cr_status = ''completed'', cr_flow = None\<rparr>, w)
                           | GroupDone summary pending \<Rightarrow>
                               finish_task env completer (Some summary) response t (cancel_pending env pending w))))))"

section \<open>Cancelling an instance\<close>

definition cancel_instance :: "inbox_env \<Rightarrow> datetime \<Rightarrow> string \<Rightarrow> inbox_world \<Rightarrow> (flow_error + unit) \<times> inbox_world" where
  "cancel_instance env now instance_id w =
     (case load_instance env w instance_id of
        Inl e \<Rightarrow> (Inl e, w)
      | Inr i \<Rightarrow>
          if is_terminated i then (Inl (AlreadyTerminated (status_str (ins_status i))), w)
          else (case ib_instance_update_error env instance_id of
              Some e \<Rightarrow> (Inl (Other e), w)
            | None \<Rightarrow>
                let i' = i\<lparr>ins_status := Cancelled, ins_completed_at := Some now, ins_wait_info := None\<rparr>;
                    w = w\<lparr>iw_instances := hm_insert instance_id i' (iw_instances w), iw_jobs := iw_jobs w @ [CancelJobs (ins_id i)]\<rparr>
                in case ins_parent_instance_ref i of
                     None \<Rightarrow> (Inr (), w)
                   | Some parent \<Rightarrow>
                       let var = (\<lambda>k. json_opt_str (Option.bind (jget k (ins_variables i)) json_as_str));
                           job = ResumeJob parent ''child_flow_terminal''
                             (JObject [(''child_completed'', JBool True), (''child_instance_id'', JString (ins_id i)),
                                (''parent_step_id'', var ''__parent_step_id''), (''branch_id'', var ''__branch_id''),
                                (''status'', JString (status_str Cancelled)), (''output'', JNull),
                                (''error'', JString ''child flow was cancelled'')])
                       in (case ib_schedule env (iw_jobs w) job of
                             Inr _ \<Rightarrow> (Inr (), w\<lparr>iw_jobs := iw_jobs w @ [job]\<rparr>)
                           | Inl _ \<Rightarrow> (Inr (), w))))"

section \<open>What a completion changes\<close>

text \<open>The properties a completion may write; no other property and no identity of a task ever changes.\<close>

definition answer_keys :: "string set" where
  "answer_keys = {''status'', ''qualifies'', ''completed_by'', ''responded_at'', ''response'', ''cancellation_reason''}"

definition task_evolves :: "inbox_task \<Rightarrow> inbox_task \<Rightarrow> bool" where
  "task_evolves t t' \<longleftrightarrow> tk_id t' = tk_id t \<and> tk_path t' = tk_path t \<and> tk_node_type t' = tk_node_type t \<and>
     (\<forall>k. k \<notin> answer_keys \<longrightarrow> hm_get (tk_properties t') k = hm_get (tk_properties t) k) \<and>
     (task_status t' = ''pending'' \<longrightarrow> task_status t = ''pending'')"

definition world_ok :: "inbox_world \<Rightarrow> bool" where
  "world_ok w \<longleftrightarrow> hm_wf (iw_tasks w) \<and> (\<forall>p t. hm_get (iw_tasks w) p = Some t \<longrightarrow> tk_path t = p)"

definition tasks_evolve :: "inbox_world \<Rightarrow> inbox_world \<Rightarrow> bool" where
  "tasks_evolve w w' \<longleftrightarrow> world_ok w' \<and>
     (\<forall>p. rel_option task_evolves (hm_get (iw_tasks w) p) (hm_get (iw_tasks w') p))"

lemma task_evolves_refl [simp]: "task_evolves t t"
  by (simp add: task_evolves_def)

lemma task_evolves_trans: "task_evolves t u \<Longrightarrow> task_evolves u v \<Longrightarrow> task_evolves t v"
  by (simp add: task_evolves_def)

lemma tasks_evolve_refl: "world_ok w \<Longrightarrow> tasks_evolve w w"
  by (auto simp: tasks_evolve_def intro: option.rel_refl)

lemma tasks_evolve_trans: "tasks_evolve u v \<Longrightarrow> tasks_evolve v w \<Longrightarrow> tasks_evolve u w"
  unfolding tasks_evolve_def by (blast intro: option.rel_transp [unfolded transp_def, rule_format] task_evolves_trans)

lemma set_prop_simps [simp]:
  "tk_id (set_prop k v t) = tk_id t" "tk_path (set_prop k v t) = tk_path t" "tk_node_type (set_prop k v t) = tk_node_type t"
  "hm_get (tk_properties (set_prop k v t)) = (hm_get (tk_properties t))(k \<mapsto> v)"
  by (simp_all add: set_prop_def hm_simps fun_upd_def)

lemma task_prop_str_set: "k \<noteq> k' \<Longrightarrow> task_prop_str (set_prop k v t) k' = task_prop_str t k'"
  by (simp add: task_prop_str_def)

lemma mark_completed_status: "task_status (mark_completed env c response t) = ''completed''"
  by (simp add: mark_completed_def Let_def task_status_def task_prop_str_def split: option.split)

lemma cancelled_task_status: "task_status (cancelled_task t) = ''cancelled''"
  by (simp add: cancelled_task_def task_status_def task_prop_str_def)

lemma mark_completed_evolves: "task_evolves t (mark_completed env c response t)"
  by (simp add: task_evolves_def mark_completed_status)
    (auto simp: mark_completed_def Let_def answer_keys_def split: option.split)

lemma cancelled_task_evolves: "task_evolves t (cancelled_task t)"
  by (simp add: task_evolves_def cancelled_task_status) (auto simp: cancelled_task_def answer_keys_def)

lemma judge_response_evolves: "judge_response env w response t = FlowOk u \<Longrightarrow> task_evolves t u"
  by (auto simp: judge_response_def task_evolves_def answer_keys_def task_status_def task_prop_str_set
      split: if_splits flow_outcome.splits)

lemma evolves_props:
  assumes "task_evolves t u" and "k \<notin> answer_keys"
  shows "task_prop_str u k = task_prop_str t k" "task_prop_paths u k = task_prop_paths t k"
    "task_prop_usize u k = task_prop_usize t k"
  using assms by (simp_all add: task_evolves_def task_prop_str_def task_prop_paths_def task_prop_usize_def)

lemma load_task_node_stored:
  assumes "world_ok w" and "load_task_node env w task_ref = Inr t"
  shows "hm_get (iw_tasks w) (tk_path t) = Some t"
proof (cases "take 1 task_ref = ''/''")
  case True
  with assms show ?thesis
    by (auto simp: load_task_node_def world_ok_def split: option.splits if_splits simp del: map_of_eq_Some_iff)
next
  case False
  with assms(2) have "find (\<lambda>t. tk_id t = task_ref) (map snd (iw_tasks w)) = Some t"
    by (auto simp: load_task_node_def split: option.splits if_splits)
  then have "t \<in> snd ` set (iw_tasks w)" by (auto simp: find_Some_iff in_set_conv_nth) (metis nth_mem rev_image_eqI)
  then obtain p where "hm_get (iw_tasks w) p = Some t" using assms(1) by (auto simp: world_ok_def)
  with assms(1) show ?thesis by (auto simp: world_ok_def simp del: map_of_eq_Some_iff)
qed

lemma persist_evolves:
  assumes "world_ok w" and "hm_get (iw_tasks w) (tk_path t) = Some t0" and "task_evolves t0 t"
    and "persist_inbox_task env w t = Inr w'"
  shows "tasks_evolve w w'" and "hm_get (iw_tasks w') = (hm_get (iw_tasks w))(tk_path t \<mapsto> t)" and "iw_jobs w' = iw_jobs w"
  using assms
  by (auto simp: tasks_evolve_def persist_inbox_task_def world_ok_def hm_simps option.rel_refl
      split: option.splits if_splits simp del: map_of_eq_Some_iff)

lemma tally_group_eq:
  "tally_group env ss = \<lparr>gt_responses = map (response_entry env) (filter (\<lambda>t. task_status t = ''completed'') ss),
     gt_pending = filter (\<lambda>t. task_status t = ''pending'') ss,
     gt_qualifying = length (filter (\<lambda>t. task_status t = ''completed'' \<and> task_qualifies t) ss),
     gt_responded = length (filter (\<lambda>t. task_status t = ''completed'') ss)\<rparr>"
  by (induction ss rule: rev_induct) (auto simp: tally_group_def)

text \<open>Every sibling read is the stored one.\<close>

lemma sibling_at_stored:
  assumes "world_ok w" and "hm_get (iw_tasks w) (tk_path t) = Some t" and "sibling_at env w t path = Some s"
  shows "hm_get (iw_tasks w) (tk_path s) = Some s"
proof (cases "path = tk_path t")
  case False
  with assms(3) have "load_task_node env w path = Inr s" by (auto simp: sibling_at_def split: sum.splits)
  then show ?thesis by (rule load_task_node_stored [OF assms(1)])
qed (use assms(2,3) in \<open>simp add: sibling_at_def\<close>)

lemma group_siblings_stored:
  assumes "world_ok w" and "hm_get (iw_tasks w) (tk_path t) = Some t" and "s \<in> set (group_siblings env w t)"
  shows "hm_get (iw_tasks w) (tk_path s) = Some s"
proof (cases "s = t")
  case False
  with assms(3) obtain path where "sibling_at env w t path = Some s"
    by (auto simp: group_siblings_def Let_def map_filter_mem split: if_split_asm)
  then show ?thesis by (rule sibling_at_stored [OF assms(1,2)])
qed (use assms(2) in simp)

lemma cancel_pending_evolves:
  assumes "world_ok w" and "\<forall>t \<in> set pending. hm_get (iw_tasks w) (tk_path t) = Some t"
  shows "tasks_evolve w (cancel_pending env pending w) \<and> iw_jobs (cancel_pending env pending w) = iw_jobs w \<and>
    iw_instances (cancel_pending env pending w) = iw_instances w \<and>
    (\<forall>p. hm_get (iw_tasks (cancel_pending env pending w)) p =
      (if \<exists>t \<in> set pending. tk_path t = p \<and> ib_update_error env p = None
       then map_option cancelled_task (hm_get (iw_tasks w) p) else hm_get (iw_tasks w) p))"
  using assms(2)
proof (induction pending rule: rev_induct)
  case Nil
  then show ?case using tasks_evolve_refl [OF assms(1)] by (simp add: cancel_pending_def)
next
  case (snoc t ts)
  let ?w = "cancel_pending env ts w"
  have step: "cancel_pending env (ts @ [t]) w =
      (case persist_inbox_task env ?w (cancelled_task t) of Inr w' \<Rightarrow> w' | Inl _ \<Rightarrow> ?w)"
    unfolding cancel_pending_def by simp
  from snoc have IH: "tasks_evolve w ?w" "iw_jobs ?w = iw_jobs w" "iw_instances ?w = iw_instances w"
      "\<And>p. hm_get (iw_tasks ?w) p = (if \<exists>t \<in> set ts. tk_path t = p \<and> ib_update_error env p = None
         then map_option cancelled_task (hm_get (iw_tasks w) p) else hm_get (iw_tasks w) p)"
    and t: "hm_get (iw_tasks w) (tk_path t) = Some t" by auto
  have path [simp]: "tk_path (cancelled_task t) = tk_path t" by (simp add: cancelled_task_def)
  show ?case
  proof (cases "ib_update_error env (tk_path t)")
    case None
    then have persist: "persist_inbox_task env ?w (cancelled_task t) =
        Inr (?w\<lparr>iw_tasks := hm_insert (tk_path t) (cancelled_task t) (iw_tasks ?w)\<rparr>)"
      by (simp add: persist_inbox_task_def)
    obtain t0 where t0: "hm_get (iw_tasks ?w) (tk_path t) = Some t0" "task_evolves t0 (cancelled_task t)"
      using IH(4) [of "tk_path t"] t cancelled_task_evolves by (auto split: if_splits)
    have "tasks_evolve ?w (cancel_pending env (ts @ [t]) w)"
      using persist_evolves(1) [of ?w "cancelled_task t" t0 env] t0 persist IH(1) by (simp add: step tasks_evolve_def)
    with IH persist t None show ?thesis
      by (auto simp: step hm_simps intro: tasks_evolve_trans)
  next
    case (Some e)
    then have "cancel_pending env (ts @ [t]) w = ?w" by (simp add: step persist_inbox_task_def)
    with IH Some show ?thesis by auto
  qed
qed

lemma finish_task_world:
  "\<exists>jobs. iw_jobs (snd (finish_task env c summary response t w)) = iw_jobs w @ jobs \<and>
     iw_tasks (snd (finish_task env c summary response t w)) = iw_tasks w \<and>
     (jobs = [] \<or> (\<exists>i data. jobs = [ResumeJob i ''api_resume'' data] \<and> task_prop_str t ''flow_instance_id'' = Some i))"
  by (auto simp: finish_task_def Let_def service_resume_flow_def split: option.split sum.split prod.split)

text \<open>A call leaves the world, or answers a pending task and perhaps queues one resume of its flow.\<close>

definition answered ::
  "inbox_env \<Rightarrow> inbox_world \<Rightarrow> inbox_task \<Rightarrow> inbox_world \<Rightarrow> flow_job list \<Rightarrow> bool" where
  "answered env w t w' jobs \<longleftrightarrow> tasks_evolve w w' \<and> iw_jobs w' = iw_jobs w @ jobs \<and>
     hm_get (iw_tasks w) (tk_path t) = Some t \<and> task_status t = ''pending'' \<and>
     (jobs = [] \<or> (\<exists>i data. jobs = [ResumeJob i ''api_resume'' data] \<and> task_prop_str t ''flow_instance_id'' = Some i \<and>
        (task_prop_str t ''assignment_group'' \<noteq> None \<longrightarrow>
           (\<forall>p \<in> set (task_prop_paths t ''assignment_task_paths''). \<forall>u.
              take 1 p = ''/'' \<and> ib_task_error env p = None \<and> ib_update_error env p = None \<and>
              hm_get (iw_tasks w') p = Some u \<and> tk_node_type u = ''raisin:InboxTask'' \<longrightarrow> task_status u \<noteq> ''pending''))))"

lemma group_done_leaves_none_pending:
  assumes ok: "world_ok w" and t: "hm_get (iw_tasks w) (tk_path t) = Some t"
    and verdict: "decide_group env w t = GroupDone summary pending"
    and p: "p \<in> set (task_prop_paths t ''assignment_task_paths'')" "take 1 p = ''/''" "ib_task_error env p = None"
      "ib_update_error env p = None"
    and u: "hm_get (iw_tasks (cancel_pending env pending w)) p = Some u" "tk_node_type u = ''raisin:InboxTask''"
    and completed: "task_status t \<noteq> ''pending''"
  shows "task_status u \<noteq> ''pending''"
proof
  assume pending_u: "task_status u = ''pending''"
  have pending: "pending = filter (\<lambda>t. task_status t = ''pending'') (group_siblings env w t)"
    using verdict by (auto simp: decide_group_def Let_def tally_group_eq split: option.splits if_splits)
  then have stored: "\<forall>s \<in> set pending. hm_get (iw_tasks w) (tk_path s) = Some s"
    using group_siblings_stored [OF ok t] by auto
  have u': "hm_get (iw_tasks (cancel_pending env pending w)) p =
      (if \<exists>t \<in> set pending. tk_path t = p \<and> ib_update_error env p = None
       then map_option cancelled_task (hm_get (iw_tasks w) p) else hm_get (iw_tasks w) p)"
    using cancel_pending_evolves [OF ok stored, of env] by blast
  have none: "\<not> (\<exists>t \<in> set pending. tk_path t = p)"
  proof
    assume "\<exists>t \<in> set pending. tk_path t = p"
    with u' u(1) p(4) have "map_option cancelled_task (hm_get (iw_tasks w) p) = Some u" by simp
    with pending_u show False by (auto simp: cancelled_task_status)
  qed
  with u' u(1) have w: "hm_get (iw_tasks w) p = Some u" by auto
  have path: "tk_path u = p" using ok w by (auto simp: world_ok_def simp del: map_of_eq_Some_iff)
  have "u \<in> set (group_siblings env w t)"
  proof (cases "p = tk_path t")
    case True
    with w t completed pending_u show ?thesis by simp
  next
    case False
    have "load_task_node env w p = Inr u" using p(2,3) w u(2) by (simp add: load_task_node_def)
    with False have "sibling_at env w t p = Some u" by (simp add: sibling_at_def)
    with p(1) have "u \<in> set (List.map_filter (sibling_at env w t) (task_prop_paths t ''assignment_task_paths''))"
      by (auto simp: map_filter_mem)
    then show ?thesis by (auto simp: group_siblings_def Let_def)
  qed
  with pending pending_u path none show False by auto
qed

lemma complete_task_answers:
  assumes ok: "world_ok w"
  shows "snd (complete_task env task_ref c response w) = w \<or>
    (\<exists>t jobs. answered env w t (snd (complete_task env task_ref c response w)) jobs)"
proof (cases "snd (complete_task env task_ref c response w) = w")
  case False
  then obtain t t1 w1 where load: "load_task_node env w task_ref = Inr t" and pend: "task_status t = ''pending''"
    and judge: "judge_response env w response t = FlowOk t1"
    and persist: "persist_inbox_task env w (mark_completed env c response t1) = Inr w1"
    and result: "snd (complete_task env task_ref c response w) =
       snd (case decide_group env w1 (mark_completed env c response t1) of
         NoGroup \<Rightarrow> finish_task env c None response (mark_completed env c response t1) w1
       | KeepWaiting \<Rightarrow> (FlowOk \<lparr>cr_task_id = tk_id (mark_completed env c response t1),
            cr_task_path = tk_path (mark_completed env c response t1), cr_status = ''completed'', cr_flow = None\<rparr>, w1)
       | GroupDone summary pending \<Rightarrow>
           finish_task env c (Some summary) response (mark_completed env c response t1) (cancel_pending env pending w1))"
    unfolding complete_task_def Let_def by (auto split: sum.splits if_splits flow_outcome.splits)
  define t2 where "t2 = mark_completed env c response t1"
  have ev: "task_evolves t t2"
    unfolding t2_def by (rule task_evolves_trans [OF judge_response_evolves [OF judge] mark_completed_evolves])
  have t: "hm_get (iw_tasks w) (tk_path t) = Some t" by (rule load_task_node_stored [OF ok load])
  then have t': "hm_get (iw_tasks w) (tk_path t2) = Some t" using ev by (simp add: task_evolves_def)
  note p = persist_evolves [OF ok t' ev persist [folded t2_def]]
  have t2: "hm_get (iw_tasks w1) (tk_path t2) = Some t2" and ok1: "world_ok w1"
    using p by (simp_all add: tasks_evolve_def)
  have keys: "''flow_instance_id'' \<notin> answer_keys" "''assignment_group'' \<notin> answer_keys" "''assignment_task_paths'' \<notin> answer_keys"
    by (simp_all add: answer_keys_def)
  note props = evolves_props [OF ev keys(1)] evolves_props [OF ev keys(2)] evolves_props [OF ev keys(3)]
  let ?w = "snd (complete_task env task_ref c response w)"
  show ?thesis
  proof (cases "decide_group env w1 t2")
    case NoGroup
    then have "task_prop_str t ''assignment_group'' = None"
      using props by (auto simp: decide_group_def Let_def split: option.splits if_splits)
    moreover have "?w = snd (finish_task env c None response t2 w1)" using result NoGroup by (simp add: t2_def)
    moreover from finish_task_world [of env c None response t2 w1] obtain jobs where
        "iw_jobs (snd (finish_task env c None response t2 w1)) = iw_jobs w1 @ jobs"
        "iw_tasks (snd (finish_task env c None response t2 w1)) = iw_tasks w1"
        "jobs = [] \<or> (\<exists>i data. jobs = [ResumeJob i ''api_resume'' data] \<and> task_prop_str t2 ''flow_instance_id'' = Some i)"
      by blast
    ultimately have "answered env w t ?w jobs"
      using p(1,3) t pend props by (simp add: answered_def tasks_evolve_def world_ok_def)
    then show ?thesis by blast
  next
    case KeepWaiting
    then have "?w = w1" using result by (simp add: t2_def)
    then have "answered env w t ?w []" using p t pend by (simp add: answered_def)
    then show ?thesis by blast
  next
    case (GroupDone summary pending)
    have "pending = filter (\<lambda>t. task_status t = ''pending'') (group_siblings env w1 t2)"
      using GroupDone by (auto simp: decide_group_def Let_def tally_group_eq split: option.splits if_splits)
    then have stored: "\<forall>s \<in> set pending. hm_get (iw_tasks w1) (tk_path s) = Some s"
      using group_siblings_stored [OF ok1 t2] by auto
    let ?w2 = "cancel_pending env pending w1"
    have c2: "tasks_evolve w1 ?w2" "iw_jobs ?w2 = iw_jobs w1" using cancel_pending_evolves [OF ok1 stored, of env] by auto
    have status2: "task_status t2 \<noteq> ''pending''" by (simp add: t2_def mark_completed_status)
    have none: "task_status u \<noteq> ''pending''"
      if "q \<in> set (task_prop_paths t ''assignment_task_paths'')" "take 1 q = ''/''" "ib_task_error env q = None"
        "ib_update_error env q = None" "hm_get (iw_tasks ?w2) q = Some u" "tk_node_type u = ''raisin:InboxTask''" for q u
      using group_done_leaves_none_pending [OF ok1 t2 GroupDone _ that(2-6) status2] that(1) props by simp
    have evolve: "tasks_evolve w ?w2" by (rule tasks_evolve_trans [OF p(1) c2(1)])
    have w: "?w = snd (finish_task env c (Some summary) response t2 ?w2)" using result GroupDone by (simp add: t2_def)
    from finish_task_world [of env c "Some summary" response t2 ?w2]
    obtain jobs where jobs: "iw_jobs ?w = iw_jobs w @ jobs" "iw_tasks ?w = iw_tasks ?w2"
        "jobs = [] \<or> (\<exists>i data. jobs = [ResumeJob i ''api_resume'' data] \<and> task_prop_str t ''flow_instance_id'' = Some i)"
      unfolding w [symmetric] p(3) c2(2) props(1) by blast
    have "answered env w t ?w jobs"
      unfolding answered_def
    proof (intro conjI)
      show "tasks_evolve w ?w" using evolve jobs(2) by (simp add: tasks_evolve_def world_ok_def)
    qed (use jobs t pend none in auto)
    then show ?thesis by blast
  qed
qed simp

section \<open>Groups\<close>

text \<open>
  The tasks of a flow instance are those of one group: each names all of them. Storage reads and writes these
  paths without an error.
\<close>

definition group_world :: "inbox_env \<Rightarrow> string list \<Rightarrow> string \<Rightarrow> inbox_world \<Rightarrow> bool" where
  "group_world env paths inst w \<longleftrightarrow> world_ok w \<and>
     (\<forall>p \<in> set paths. take 1 p = ''/'' \<and> ib_task_error env p = None \<and> ib_update_error env p = None) \<and>
     (\<forall>p t. hm_get (iw_tasks w) p = Some t \<longrightarrow> task_prop_str t ''flow_instance_id'' = Some inst \<longrightarrow>
        p \<in> set paths \<and> tk_node_type t = ''raisin:InboxTask'' \<and> task_prop_str t ''assignment_group'' \<noteq> None \<and>
        task_prop_paths t ''assignment_task_paths'' = paths)"

definition none_pending :: "string list \<Rightarrow> inbox_world \<Rightarrow> bool" where
  "none_pending paths w \<longleftrightarrow> (\<forall>p \<in> set paths. \<forall>u. hm_get (iw_tasks w) p = Some u \<longrightarrow>
     tk_node_type u = ''raisin:InboxTask'' \<longrightarrow> task_status u \<noteq> ''pending'')"

definition resumes_of :: "string \<Rightarrow> flow_job list \<Rightarrow> nat" where
  "resumes_of inst jobs = length (filter (\<lambda>j. case j of ResumeJob i _ _ \<Rightarrow> i = inst | CancelJobs _ \<Rightarrow> False) jobs)"

definition group_inv :: "inbox_env \<Rightarrow> string list \<Rightarrow> string \<Rightarrow> inbox_world \<Rightarrow> bool" where
  "group_inv env paths inst w \<longleftrightarrow> group_world env paths inst w \<and> resumes_of inst (iw_jobs w) \<le> 1 \<and>
     (resumes_of inst (iw_jobs w) = 0 \<or> none_pending paths w)"

lemma evolved_from:
  assumes "tasks_evolve w w'" and "hm_get (iw_tasks w') p = Some u"
  obtains t where "hm_get (iw_tasks w) p = Some t" "task_evolves t u"
proof -
  have "rel_option task_evolves (hm_get (iw_tasks w) p) (hm_get (iw_tasks w') p)" using assms(1) by (simp add: tasks_evolve_def)
  with assms(2) that show ?thesis by (cases "hm_get (iw_tasks w) p") auto
qed

lemma group_world_evolves:
  assumes "group_world env paths inst w" and "tasks_evolve w w'"
  shows "group_world env paths inst w'"
  unfolding group_world_def
proof (intro conjI allI impI)
  show "world_ok w'" using assms(2) by (simp add: tasks_evolve_def)
  show "\<forall>p \<in> set paths. take 1 p = ''/'' \<and> ib_task_error env p = None \<and> ib_update_error env p = None"
    using assms(1) by (simp add: group_world_def)
next
  fix p u
  assume u: "hm_get (iw_tasks w') p = Some u" and inst: "task_prop_str u ''flow_instance_id'' = Some inst"
  obtain t where t: "hm_get (iw_tasks w) p = Some t" "task_evolves t u" by (rule evolved_from [OF assms(2) u])
  have keys: "''flow_instance_id'' \<notin> answer_keys" "''assignment_group'' \<notin> answer_keys" "''assignment_task_paths'' \<notin> answer_keys"
    by (simp_all add: answer_keys_def)
  note props = evolves_props [OF t(2) keys(1)] evolves_props [OF t(2) keys(2)] evolves_props [OF t(2) keys(3)]
  have "p \<in> set paths \<and> tk_node_type t = ''raisin:InboxTask'' \<and> task_prop_str t ''assignment_group'' \<noteq> None \<and>
        task_prop_paths t ''assignment_task_paths'' = paths"
    using assms(1) t(1) inst props(1) unfolding group_world_def by metis
  with props t(2) show "p \<in> set paths" "tk_node_type u = ''raisin:InboxTask''" "task_prop_str u ''assignment_group'' \<noteq> None"
      "task_prop_paths u ''assignment_task_paths'' = paths"
    by (simp_all add: task_evolves_def)
qed

lemma none_pending_evolves:
  assumes "none_pending paths w" and "tasks_evolve w w'"
  shows "none_pending paths w'"
  unfolding none_pending_def
proof (intro ballI allI impI)
  fix p u
  assume p: "p \<in> set paths" and u: "hm_get (iw_tasks w') p = Some u" "tk_node_type u = ''raisin:InboxTask''"
  obtain t where t: "hm_get (iw_tasks w) p = Some t" "task_evolves t u" by (rule evolved_from [OF assms(2) u(1)])
  with u(2) have "tk_node_type t = ''raisin:InboxTask''" by (simp add: task_evolves_def)
  with assms(1) p t have "task_status t \<noteq> ''pending''" by (simp add: none_pending_def del: map_of_eq_Some_iff)
  with t(2) show "task_status u \<noteq> ''pending''" by (auto simp: task_evolves_def)
qed

lemma group_inv_answered:
  assumes inv: "group_inv env paths inst w" and ans: "answered env w t w' jobs"
  shows "group_inv env paths inst w'"
proof -
  have gw: "group_world env paths inst w" and ev: "tasks_evolve w w'" and t: "hm_get (iw_tasks w) (tk_path t) = Some t"
      "task_status t = ''pending''" and jobs: "iw_jobs w' = iw_jobs w @ jobs"
    using inv ans by (simp_all add: group_inv_def answered_def)
  have gw': "group_world env paths inst w'" by (rule group_world_evolves [OF gw ev])
  show ?thesis
  proof (cases "task_prop_str t ''flow_instance_id'' = Some inst")
    case True
    then have member: "tk_path t \<in> set paths" "tk_node_type t = ''raisin:InboxTask''" "task_prop_str t ''assignment_group'' \<noteq> None"
        "task_prop_paths t ''assignment_task_paths'' = paths"
      using gw t(1) unfolding group_world_def by metis+
    then have "\<not> none_pending paths w" using t by (auto simp: none_pending_def)
    then have zero: "resumes_of inst (iw_jobs w) = 0" using inv by (simp add: group_inv_def)
    show ?thesis
    proof (cases "jobs = []")
      case True
      with zero jobs gw' show ?thesis by (simp add: group_inv_def)
    next
      case False
      with ans member(3,4) have "none_pending paths w'"
        using gw unfolding answered_def none_pending_def group_world_def by blast
      moreover have "resumes_of inst (iw_jobs w') \<le> 1"
        using False ans zero jobs by (auto simp: answered_def resumes_of_def)
      ultimately show ?thesis using gw' by (simp add: group_inv_def)
    qed
  next
    case False
    then have "resumes_of inst (iw_jobs w') = resumes_of inst (iw_jobs w)"
      using ans jobs by (auto simp: answered_def resumes_of_def)
    with inv gw' none_pending_evolves [OF _ ev] show ?thesis by (auto simp: group_inv_def)
  qed
qed

fun complete_run :: "inbox_env \<Rightarrow> (string \<times> task_completer \<times> json) list \<Rightarrow> inbox_world \<Rightarrow> inbox_world" where
  "complete_run env [] w = w"
| "complete_run env ((task_ref, c, response) # calls) w =
     complete_run env calls (snd (complete_task env task_ref c response w))"

lemma group_inv_run: "group_inv env paths inst w \<Longrightarrow> group_inv env paths inst (complete_run env calls w)"
proof (induction env calls w rule: complete_run.induct)
  case (2 env task_ref c response calls w)
  have "world_ok w" using "2.prems" by (simp add: group_inv_def group_world_def)
  from complete_task_answers [OF this, of env task_ref c response] "2.prems"
  have "group_inv env paths inst (snd (complete_task env task_ref c response w))"
    by (auto intro: group_inv_answered)
  with "2.IH" show ?case by simp
qed simp

text \<open>
  C26. A group resumes its flow once. However tasks are completed one after the other, by whomever and with
  whatever answers, a flow instance whose tasks are those of one group, and which was not resumed before, is
  resumed at most once, as long as storage reads and writes the tasks of the group.
\<close>

theorem group_resumes_once:
  assumes "group_world env paths inst w" and "resumes_of inst (iw_jobs w) = 0"
  shows "resumes_of inst (iw_jobs (complete_run env calls w)) \<le> 1"
  using group_inv_run [of env paths inst w calls] assms by (simp add: group_inv_def)

text \<open>
  C27. A group keeps waiting only for somebody. When a member of a group answers and the flow is not resumed, fewer
  answers qualify than the policy requires and the task of some member is still pending.
\<close>

theorem group_waits_for_somebody:
  assumes "complete_task env task_ref c response w = (FlowOk r, w')" and "world_ok w"
    and "load_task_node env w task_ref = Inr t" and "task_prop_str t ''flow_instance_id'' \<noteq> None" and "cr_flow r = None"
  shows "task_prop_str t ''assignment_group'' \<noteq> None \<and>
    (\<exists>t'. hm_get (iw_tasks w') (tk_path t) = Some t' \<and> task_status t' = ''completed'' \<and>
      (let siblings = group_siblings env w' t' in
        length (filter (\<lambda>s. task_status s = ''completed'' \<and> task_qualifies s) siblings)
          < (case task_prop_usize t ''assignment_required'' of Some n \<Rightarrow> n | None \<Rightarrow> 1) \<and>
        (\<exists>s \<in> set siblings. task_status s = ''pending'' \<and> hm_get (iw_tasks w') (tk_path s) = Some s)))"
proof -
  obtain t1 w1 where judge: "judge_response env w response t = FlowOk t1"
    and persist: "persist_inbox_task env w (mark_completed env c response t1) = Inr w1"
    and result: "(case decide_group env w1 (mark_completed env c response t1) of
         NoGroup \<Rightarrow> finish_task env c None response (mark_completed env c response t1) w1
       | KeepWaiting \<Rightarrow> (FlowOk \<lparr>cr_task_id = tk_id (mark_completed env c response t1),
            cr_task_path = tk_path (mark_completed env c response t1), cr_status = ''completed'', cr_flow = None\<rparr>, w1)
       | GroupDone summary pending \<Rightarrow>
           finish_task env c (Some summary) response (mark_completed env c response t1) (cancel_pending env pending w1)) =
       (FlowOk r, w')"
    using assms(1,3) unfolding complete_task_def Let_def by (auto split: sum.splits if_splits flow_outcome.splits)
  define t2 where "t2 = mark_completed env c response t1"
  have ev: "task_evolves t t2"
    unfolding t2_def by (rule task_evolves_trans [OF judge_response_evolves [OF judge] mark_completed_evolves])
  have path: "tk_path t2 = tk_path t" using ev by (simp add: task_evolves_def)
  have t: "hm_get (iw_tasks w) (tk_path t2) = Some t" unfolding path by (rule load_task_node_stored [OF assms(2,3)])
  note p = persist_evolves [OF assms(2) t ev persist [folded t2_def]]
  have t2: "hm_get (iw_tasks w1) (tk_path t2) = Some t2" and ok1: "world_ok w1" using p by (simp_all add: tasks_evolve_def)
  have keys: "''flow_instance_id'' \<notin> answer_keys" "''assignment_group'' \<notin> answer_keys" "''assignment_required'' \<notin> answer_keys"
    by (simp_all add: answer_keys_def)
  note props = evolves_props [OF ev keys(1)] evolves_props [OF ev keys(2)] evolves_props [OF ev keys(3)]
  have resumed: "finish_task env c summary response t2 v \<noteq> (FlowOk r, v')" for summary v v'
    using assms(4,5) props by (auto simp: finish_task_def Let_def split: option.splits prod.splits sum.splits)
  have keep: "decide_group env w1 t2 = KeepWaiting"
    using result [folded t2_def] resumed by (cases "decide_group env w1 t2") auto
  then have w': "w' = w1" using result [folded t2_def] by simp
  have "task_status t2 = ''completed''" by (simp add: t2_def mark_completed_status)
  moreover obtain s where "s \<in> set (group_siblings env w1 t2)" "task_status s = ''pending''"
    using keep by (auto simp: decide_group_def Let_def tally_group_eq filter_empty_conv split: option.splits if_splits)
  moreover have "length (filter (\<lambda>s. task_status s = ''completed'' \<and> task_qualifies s) (group_siblings env w1 t2))
      < (case task_prop_usize t ''assignment_required'' of Some n \<Rightarrow> n | None \<Rightarrow> 1)"
      and "task_prop_str t ''assignment_group'' \<noteq> None"
    using keep props
    by (auto simp: decide_group_def Let_def tally_group_eq not_le Suc_le_eq split: option.splits if_splits)
  ultimately show ?thesis
    unfolding w' Let_def using t2 path group_siblings_stored [OF ok1 t2] by (metis (no_types, lifting))
qed

text \<open>
  Anyone whose id is the last segment of the assignee is taken for the assignee: the user \<open>alice\<close> completes the
  tasks of the agent \<open>alice\<close>.
\<close>

theorem namesake_is_assignee:
  "matches_assignee \<lparr>tc_id = ''alice'', tc_home = Some ''/users/alice'', tc_is_admin = False\<rparr> ''/agents/alice''"
  by (simp add: matches_assignee_def trim_slashes_def last_segment_def)

lemma cancelled_child_reports:
  assumes "load_instance env w i = Inr inst" and "\<not> is_terminated inst" and "ib_instance_update_error env i = None"
    and "ins_parent_instance_ref inst = Some parent" and "\<And>js j. ib_schedule env js j = Inr (k js j)"
  shows "case cancel_instance env now i w of (res, w') \<Rightarrow> res = Inr () \<and> resumes_of parent (iw_jobs w') = Suc (resumes_of parent (iw_jobs w)) \<and>
    map_option ins_status (hm_get (iw_instances w') i) = Some Cancelled"
  using assms by (simp add: cancel_instance_def Let_def resumes_of_def hm_simps)

section \<open>A group of two\<close>

definition demo_inbox :: inbox_env where
  "demo_inbox = \<lparr>ib_lib = demo_lib, ib_now = ''t'', ib_rfc3339 = (\<lambda>_. []), ib_to_prop = (\<lambda>_. Some []), ib_to_json = (\<lambda>_. Some (JObject [])),
     ib_task_error = (\<lambda>_. None), ib_instance_error = (\<lambda>_. None), ib_update_error = (\<lambda>_. None),
     ib_instance_update_error = (\<lambda>_. None), ib_schedule = (\<lambda>_ _. Inr ''job'')\<rparr>"

definition demo_member :: "string \<Rightarrow> inbox_task" where
  "demo_member who = \<lparr>tk_id = who, tk_path = CHR ''/'' # who, tk_node_type = ''raisin:InboxTask'',
     tk_properties = [(''assignee'', PString who), (''assignment_group'', PString ''/g''), (''assignment_required'', PInteger 2),
       (''assignment_task_paths'', PArray [PString ''/a'', PString ''/b'']), (''flow_instance_id'', PString ''i'')]\<rparr>"

definition demo_inbox_world :: inbox_world where
  "demo_inbox_world = \<lparr>iw_tasks = [(''/a'', demo_member ''a''), (''/b'', demo_member ''b'')],
     iw_instances = [(''i'', (instance_new ''i'' 0 ''f'' 1 JNull JNull ''ask'')\<lparr>ins_status := Waiting\<rparr>)], iw_jobs = []\<rparr>"

definition demo_member_named :: "string \<Rightarrow> task_completer" where
  "demo_member_named who = \<lparr>tc_id = who, tc_home = None, tc_is_admin = False\<rparr>"

lemma demo_group_world: "group_world demo_inbox [''/a'', ''/b''] ''i'' demo_inbox_world"
  by (auto simp: group_world_def world_ok_def demo_inbox_world_def demo_inbox_def demo_member_def task_prop_str_def
      task_prop_paths_def map_filter_simps)

theorem group_resumes_once_witness:
  "resumes_of ''i'' (iw_jobs (complete_run demo_inbox
     [(''/a'', demo_member_named ''a'', JNull), (''/b'', demo_member_named ''b'', JNull), (''/b'', demo_member_named ''b'', JNull)]
     demo_inbox_world)) = 1"
proof -
  let ?calls = "[(''/a'', demo_member_named ''a'', JNull), (''/b'', demo_member_named ''b'', JNull), (''/b'', demo_member_named ''b'', JNull)]"
  have "resumes_of ''i'' (iw_jobs demo_inbox_world) = 0" by (simp add: resumes_of_def demo_inbox_world_def)
  from group_resumes_once [OF demo_group_world this, of ?calls]
  have "resumes_of ''i'' (iw_jobs (complete_run demo_inbox ?calls demo_inbox_world)) \<le> 1" .
  moreover have "resumes_of ''i'' (iw_jobs (complete_run demo_inbox ?calls demo_inbox_world)) > 0" by code_simp
  ultimately show ?thesis by linarith
qed

theorem group_waits_for_somebody_witness:
  "\<exists>r w'. complete_task demo_inbox ''/a'' (demo_member_named ''a'') JNull demo_inbox_world = (FlowOk r, w') \<and>
     (\<exists>t'. hm_get (iw_tasks w') ''/a'' = Some t' \<and> (\<exists>s \<in> set (group_siblings demo_inbox w' t'). task_status s = ''pending''))"
proof -
  let ?res = "complete_task demo_inbox ''/a'' (demo_member_named ''a'') JNull demo_inbox_world"
  have "case ?res of (FlowOk r, _) \<Rightarrow> cr_flow r = None | _ \<Rightarrow> False" by code_simp
  then obtain r w' where res: "?res = (FlowOk r, w')" "cr_flow r = None" by (cases ?res) (auto split: flow_outcome.splits)
  have "load_task_node demo_inbox demo_inbox_world ''/a'' = Inr (demo_member ''a'')"
    by (simp add: load_task_node_def demo_inbox_def demo_inbox_world_def demo_member_def)
  moreover have "task_prop_str (demo_member ''a'') ''flow_instance_id'' \<noteq> None" "tk_path (demo_member ''a'') = ''/a''"
    by (simp_all add: demo_member_def task_prop_str_def)
  moreover have "world_ok demo_inbox_world" using demo_group_world by (simp add: group_world_def)
  ultimately show ?thesis using group_waits_for_somebody [OF res(1)] res by (auto simp: Let_def)
qed

end
