(* ===== verification/Spec2Isabelle.thy ===== *)
theory Spec2Isabelle
  imports Hlc_State Conflict_Resolution Replay Causal_Delivery Gc Decomposer Priority Locks Rel_Eval Rel_Paths
    Dependency_Graph Ordered_Children Delete_Index_Runs History_Gc
    Graph_Bfs Graph_Wcc Graph_Triangles Graph_Cdlp Flow_Resume
    Flow_Loop Flow_Parallel Flow_Wait
    Node_Type_Resolver Rate_Limiter Inbox_Tasks
begin

text \<open>
  RaisinDB is a multi-model database whose nodes replicate one another without a leader. This development
  models the replication core (crates \<open>raisin-hlc\<close> and \<open>raisin-replication\<close>), the versioned storage of nodes
  on RocksDB (\<open>raisin-rocksdb\<close>: keys and reads), the lock service (\<open>raisin-locks\<close>), the language of permission
  conditions (\<open>raisin-rel\<close>), the dependency graph of packages (\<open>raisin-packages\<close>), the algorithms on the graph
  of relations (\<open>raisin-graph-algorithms\<close>), the executor of flows with its inbox of tasks (\<open>raisin-flow-runtime\<close>),
  the inheritance of types (\<open>raisin-core\<close>, \<open>raisin-validation\<close>) and the rate limiter (\<open>raisin-ratelimit\<close>).

  How the parts interact. Every write of a node is an operation, stamped with a hybrid logical clock and a
  vector clock. Operations travel between nodes; a receiving node holds an operation in its causal buffer
  until the operations it depends on have been delivered, then the replay engine drops what it has applied
  before, sorts the rest, groups the operations that write one register and applies one winner per
  register. The garbage collector prunes the log by acknowledgments, age and size. Leases with fencing
  tokens elect the node that runs a job. A condition decides whether a user may see or change a node. Storage
  keeps every version of a record under a key that ends with the revision, newest first, so that a read at a
  revision is one seek; the reads of a node, of its path and of its deletes are built on that seek. A flow is a
  graph of steps that a trigger starts; its executor runs the steps against callbacks of the server, saves the instance
  as it goes, suspends it when a step waits, and rolls back what it did when a step fails for good. A flow that waits
  for people is resumed by the completion of their inbox tasks. Every node has a type; what the type says is resolved
  through the types it extends and mixes in. The rate limiter counts the requests of a caller in a sliding window.

  \<^bold>\<open>Theories, in the order of their dependencies.\<close>

  \<^item> \<open>Raisin_Prelude\<close>: the collections of simplification rules, \<open>Ordering\<close> and comparators (the locale
    \<open>rust_cmp\<close>), \<open>sort_by\<close>, hash maps as association lists with distinct keys, machine words.
  \<^item> \<open>Rust_Codec\<close>: big-endian bytes, decimal printing and parsing of \<open>u64\<close>, splitting of strings.
  \<^item> \<open>Hlc\<close> (\<open>raisin-hlc/src/lib.rs\<close>, \<open>error.rs\<close>): the timestamp and its codecs. The descending key
    reverses the order; all codecs round-trip.
  \<^item> \<open>Hlc_State\<close> (\<open>state.rs\<close>): \<open>tick\<close> and \<open>update\<close> as functions of the state and of the wall clock
    they read, and as threads that interleave at each atomic access (\<open>thread_step\<close>, \<open>hlc_step\<close>).
    Sequential calls are strictly increasing and a call without interference refines the function;
    interleaved calls can collide.
  \<^item> \<open>Vector_Clock\<close> (\<open>vector_clock.rs\<close>): the clock, its comparison in two passes and its merge; the
    locale \<open>clock_lattice\<close> states the lattice laws the other components rest on.
  \<^item> \<open>Operation\<close> (\<open>operation/\<close>): the operation, its kinds, targets and acknowledgments.
  \<^item> \<open>Crdt\<close> (\<open>crdt.rs\<close>): the last-write-wins merge. The winner does not depend on the order of arrival
    when wall clocks agree with causality; without that the comparator is not transitive.
  \<^item> \<open>Conflict_Resolution\<close> (\<open>conflict_resolution.rs\<close>): resolution of divergent logs converges.
  \<^item> \<open>Replay\<close> (\<open>replay/\<close>): the engine over a tracker of applied operations, which is the locale
    \<open>idempotency_tracker\<close>, interpreted by the in-memory tracker: one winner per register, each operation
    applied at most once over any sequence of batches, independence of the order of a batch.
  \<^item> \<open>Causal_Delivery\<close> (\<open>causal_delivery/\<close>, \<open>coordinator/mod.rs\<close>): the buffer and its delivery loop.
    Delivery is causally safe, and a buffer that has received a causal history is empty again.
  \<^item> \<open>Gc\<close> (\<open>gc/\<close>), \<open>Decomposer\<close> (\<open>operation_decomposer.rs\<close>), \<open>Priority\<close> (\<open>priority.rs\<close>): collection
    deletes only what every peer has acknowledged, what is older than the limit, or the oldest part of
    an oversized log; a revision decomposes into one operation per change; a batch is sorted by class.
  \<^item> \<open>Locks\<close> (\<open>raisin-locks/src\<close>): the trait \<open>LockManager\<close> is the locale \<open>lock_manager\<close>, interpreted by
    the in-process backend: at most one live lease per key, fencing tokens increase, a pool of units is
    never oversold.
  \<^item> \<open>Rel_Value\<close>, \<open>Rel_Methods\<close>, \<open>Rel_Eval\<close>, \<open>Rel_Paths\<close> (\<open>raisin-rel/src\<close>): values, methods, the two
    evaluators and the path methods. The asynchronous evaluator agrees with the synchronous one; a
    condition without division and \<open>substring\<close> does not panic; path methods are the operations on
    lists of segments.
  \<^item> \<open>Dependency_Graph\<close> (\<open>raisin-packages/src/manifest.rs\<close>, \<open>dependency_graph/graph.rs\<close>): the graph of the packages
    to install. The sort returns, and its answer is an order with dependencies first or a cycle.
  \<^item> \<open>Key_Builder\<close>, \<open>Storage_Keys\<close>, \<open>Key_Layouts\<close> (\<open>raisin-rocksdb/src/keys/\<close>, \<open>prefix_transform.rs\<close>): the
    keys of all column families, their prefixes and parsers. The layout of a versioned record is the locale
    \<open>versioned_layout\<close>, interpreted for each such family: a prefix scan finds exactly the versions of its
    record, newest first. Scopes are isolated; parsed keys give back their parts.
  \<^item> \<open>Ordered_Children\<close> (\<open>fractional_index/ops.rs\<close>, \<open>repositories/nodes/ordering/\<close>): the labels that order the
    children of a node. Appended labels increase, and the order of labels is the order of their bytes.
  \<^item> \<open>Mvcc_Read\<close> (\<open>mvcc_read/mod.rs\<close>, \<open>source.rs\<close>): the seek for the newest version at or before a revision, and
    the sources of reads, whose contract is the locale \<open>versioned_source\<close>, interpreted by the live database,
    the snapshot of a batch and the recording source.
  \<^item> \<open>Node_Read\<close> (\<open>mvcc_read/point.rs\<close>, \<open>node_path.rs\<close>, \<open>node_decode.rs\<close>, \<open>baseline.rs\<close>): the reads of one node.
    Single and batched reads agree, and the two readers of a path decide alike.
  \<^item> \<open>Node_Lifeline\<close> (\<open>mvcc_read/deletes.rs\<close>, \<open>node_delete_index/\<close>): whether a delete has ended a version, walked
    or from the index of deletes; both give the rule of the documentation.
  \<^item> \<open>Delete_Index_State\<close>, \<open>Delete_Index_Runs\<close> (\<open>node_delete_index/state.rs\<close>, \<open>branch_copy.rs\<close>): the record that
    calls the index of a branch ready. Its writers are functions of the records; runs interleave deletes, backfills,
    copies and forgotten branches (\<open>index_step\<close>), and a branch called ready has every entry.
  \<^item> \<open>History_Gc\<close> (\<open>management/history_gc/\<close>): retention policies, the plan of each branch and the versions that
    survive. A plan retains what its policy promises, and no retained read changes.
  \<^item> \<open>Graph_Projection\<close>, \<open>Graph_Bfs\<close>, \<open>Graph_Undirected\<close>, \<open>Graph_Wcc\<close>, \<open>Graph_Triangles\<close>, \<open>Graph_Cdlp\<close>
    (\<open>raisin-graph-algorithms/src/\<close>): the projection of relations to a compressed graph and the algorithms on it, each
    against its definition on the relations. Parallel loops run their tasks in any order, and in \<open>Graph_Wcc\<close> the tasks
    interleave at each access to a shared label.
  \<^item> \<open>Flow_Json\<close>, \<open>Flow_Definition\<close>, \<open>Flow_Instance\<close> (\<open>raisin-flow-runtime/src/types/\<close>, \<open>runtime/retry.rs\<close>,
    \<open>runtime/executor/helpers.rs\<close>): JSON values, the definition of a flow with its lookup and validation, the instance
    with its variables, visits, recorded outputs, attempts and checkpoints. Validation accepts exactly the well-formed
    definitions; recording an output touches no value that a step did not write.
  \<^item> \<open>Flow_Calls\<close>: the trait of callbacks, the step handlers, the clock and fresh identifiers as requests; the record
    \<open>flow_env\<close> answers each as a function of the history of requests, so that a theorem over all environments covers
    every behaviour of the server. A computation takes and returns the history; a panic is the value \<open>FlowPanic\<close>.
  \<^item> \<open>Flow_Compensation\<close> (\<open>runtime/compensation.rs\<close>), \<open>Flow_Step\<close> (\<open>runtime/executor/result_handlers.rs\<close>,
    \<open>step_dispatch.rs\<close>, \<open>isolated_branch.rs\<close>), \<open>Flow_Executor\<close> (\<open>execution_loop.rs\<close>), \<open>Flow_Resume\<close>
    (\<open>runtime/resume/mod.rs\<close>): rollback, the handling of each result of a step, the loop with its retries, resuming and
    deadlines. \<open>Flow_Runs\<close> holds what every computation keeps of its history, and the theorems: an execution returns and
    leaves the instance in a settled state, calls of handlers are bounded by steps and attempts, a failure without
    retries left is recorded, each compensation runs once and the last one first.
  \<^item> \<open>Flow_Expr\<close> (\<open>runtime/data_mapper.rs\<close>, \<open>handlers/collection.rs\<close>, \<open>FlowContext::to_json\<close>, the JSON conversions of
    \<open>raisin-rel\<close>): templates, evaluated by the evaluator of \<open>Rel_Eval\<close>. A template is read as it was written, and a reference
    keeps its value.
  \<^item> \<open>Flow_Handlers\<close>, \<open>Flow_Loop\<close>, \<open>Flow_Parallel\<close>, \<open>Flow_Wait\<close> (\<open>handlers/\<close>): the step handlers for decisions,
    functions, sub-flows, loops, parallel branches and waits, as computations on the context of a step with the calls they
    make. A loop visits its items in order, a parallel step joins at the last report, functions are queued with permission
    only.
  \<^item> \<open>Inbox_Tasks\<close> (\<open>raisin-flow-runtime/src/service.rs\<close>, completion of tasks): the tasks of a group and the flow that
    waits for them. Answered one after the other, the flow is resumed at most once and never left waiting for nobody;
    who may answer is decided by a path or by its last segment; a cancelled flow reports to its parent.
  \<^item> \<open>Field_Types\<close> (\<open>raisin-models\<close>, \<open>element_type_resolver.rs\<close>, \<open>archetype_resolver.rs\<close>, \<open>raisin-validation\<close>): field
    schemas and the inheritance of element types and archetypes. A resolution follows the lineage of the type, and the
    two implementations agree but for their limit.
  \<^item> \<open>Node_Type_Resolver\<close> (\<open>raisin-core/src/services/node_type_resolver/\<close>, \<open>indexing_policy.rs\<close>): node types with mixins
    and overrides. A resolution returns where mixins are well-founded and does not return on a cycle through a mixin;
    properties and the supertypes of a node are those the types declare.
  \<^item> \<open>Rate_Limiter\<close> (\<open>raisin-ratelimit/src/rocks.rs\<close>): buckets and their checks. Checks in sequence stay within the
    limit in every window; two checks in parallel may not.

  \<^bold>\<open>Conventions.\<close> Integers have the width of the source; arithmetic wraps as in a release build, and
  what a theorem needs about overflow is a hypothesis. A hash map is an association list whose order is
  arbitrary; where the code iterates over one, the order is a parameter or the result is shown not to
  depend on it. The wall clock, entropy and hashes are arguments, never constants. Strings are byte lists.
  Results that can fail are sums, options or the type \<open>outcome\<close>, in which a panic is a value. RocksDB is the
  record \<open>rocks_db\<close> of the calls the code makes; that an iterator yields the entries of its column family in
  the order of keys, and that a lookup finds them, is the predicate \<open>cf_content\<close>, a hypothesis of the theorems.
  The compressed graph of petgraph is the record \<open>csr_lib\<close>, its documented behaviour the predicate \<open>csr_laws\<close>.

  \<^bold>\<open>Loops and bounds.\<close> The delivery loop of \<open>check_buffered_ops\<close> terminates because each round that goes on removes
  an operation from the buffer; the retry loops of the clock are the steps of a thread, of which there may be
  infinitely many. The search for a cycle among packages carries the number of packages as fuel, which bounds
  the depth of a path without repetition; that it then finds a cycle is part of the theorem on the sort. The
  second phase of the indexed lifeline is a partial function that the theorem on lifelines shows to return, as
  is the loop of breadth-first search. The loops of the flow executor are partial functions as well; they return in
  every environment, since a run has at most 10000 steps and a conflict of versions restarts it at most three times.
  The resolution of a node type is over fuel, one unit for each call: a chain of parents has at most 21 calls, so 21
  units for each level of mixins are enough, which \<open>node_type_resolution_returns\<close> states; on a cycle through a mixin
  no fuel is enough, and that is the theorem \<open>mixin_cycle_never_returns\<close>.

  \<^bold>\<open>Not modelled.\<close> Sockets, timers and file transfer around the replication core; serialisation by serde, which is
  a parameter where a decoded value matters; IEEE floats and Unicode tables, which are fields of the record
  \<open>rel_env\<close>; the parser of conditions; the Redis lock backend; transactions, repositories and jobs on RocksDB;
  SQL, transports, the step handlers of flows that talk to agents and people, starting and listing flows and tasks, the
  lowering of the designer's format, the validation of nodes against their resolved types, functions, AI and
  authentication.
\<close>

end
